(* ===== verification/Prelude.thy ===== *)
theory Prelude
  imports Main "HOL-Library.Word" "HOL-Library.Multiset"
begin

text \<open>
  What every component of the development shares: the result type of a C call (a value or
  the fault that stops the program), the memory access and array access that can fault, C's
  truncating division, a drain loop over a FIFO interface, and the collections of rules the
  component proofs use.
\<close>

section \<open>Pointers and faults\<close>

text \<open>
  A C pointer is a natural number, \<open>0\<close> is NULL. An object that is reached through pointers
  lives in a store, a partial map from addresses to contents; a freed object is absent from
  it. A call either returns a value or ends in one of these faults: a failed \<open>assert\<close>, a
  dereference of NULL or of freed memory, an index outside an array, a use of the member of a union that is not there,
  a loop that never ends, a call with too few arguments, or a call of \<open>exit\<close>.
\<close>

type_synonym ptr = nat

abbreviation (input) NULL :: ptr where "NULL \<equiv> 0"

datatype fault = Assert_failed | Null_deref | Use_after_free | Out_of_bounds | Wrong_variant | Diverges | Bad_call | Exited

type_synonym 'a res = "fault + 'a"

fun bindR :: "'a res \<Rightarrow> ('a \<Rightarrow> 'b res) \<Rightarrow> 'b res" where
  "bindR (Inl e) f = Inl e"
| "bindR (Inr x) f = f x"

definition assertR :: "bool \<Rightarrow> 'a res \<Rightarrow> 'a res" where
  "assertR b m = (if b then m else Inl Assert_failed)"

definition deref :: "(ptr \<Rightarrow> 'c option) \<Rightarrow> ptr \<Rightarrow> 'c res" where
  "deref m p = (if p = NULL then Inl Null_deref
     else case m p of None \<Rightarrow> Inl Use_after_free | Some c \<Rightarrow> Inr c)"

definition aget :: "'a list \<Rightarrow> int \<Rightarrow> 'a res" where
  "aget xs i = (if 0 \<le> i \<and> i < int (length xs) then Inr (xs ! nat i) else Inl Out_of_bounds)"

definition aset :: "'a list \<Rightarrow> int \<Rightarrow> 'a \<Rightarrow> 'a list res" where
  "aset xs i v = (if 0 \<le> i \<and> i < int (length xs) then Inr (xs[nat i := v]) else Inl Out_of_bounds)"

named_theorems res_simps \<open>evaluation of calls that return\<close>

lemma bindR_eq_Inr: "bindR m f = Inr y \<longleftrightarrow> (\<exists>x. m = Inr x \<and> f x = Inr y)"
  by (cases m) auto

lemma bindR_split: "P (bindR m f) = ((\<forall>e. m = Inl e \<longrightarrow> P (Inl e)) \<and> (\<forall>x. m = Inr x \<longrightarrow> P (f x)))"
  by (cases m) auto

lemma assertR_True [simp]: "assertR True m = m"
  by (simp add: assertR_def)

lemma assertR_False [simp]: "assertR False m = Inl Assert_failed"
  by (simp add: assertR_def)

lemma deref_NULL [simp]: "deref m NULL = Inl Null_deref"
  by (simp add: deref_def)

lemma deref_Some [res_simps]: "m p = Some c \<Longrightarrow> p \<noteq> NULL \<Longrightarrow> deref m p = Inr c"
  by (simp add: deref_def)

lemma deref_None [res_simps]: "m p = None \<Longrightarrow> p \<noteq> NULL \<Longrightarrow> deref m p = Inl Use_after_free"
  by (simp add: deref_def)

lemma deref_eq_Inr: "deref m p = Inr c \<longleftrightarrow> p \<noteq> NULL \<and> m p = Some c"
  by (auto simp: deref_def split: option.splits)

lemma aget_ok [res_simps]: "0 \<le> i \<Longrightarrow> i < int (length xs) \<Longrightarrow> aget xs i = Inr (xs ! nat i)"
  by (simp add: aget_def)

lemma aset_ok [res_simps]: "0 \<le> i \<Longrightarrow> i < int (length xs) \<Longrightarrow> aset xs i v = Inr (xs[nat i := v])"
  by (simp add: aset_def)

section \<open>C arithmetic\<close>

text \<open>C's \<open>/\<close> and \<open>%\<close> on signed integers round towards zero.\<close>

definition cdiv :: "int \<Rightarrow> int \<Rightarrow> int" where
  "cdiv a b = sgn a * sgn b * (\<bar>a\<bar> div \<bar>b\<bar>)"

definition cmod :: "int \<Rightarrow> int \<Rightarrow> int" where
  "cmod a b = a - b * cdiv a b"

lemma cdiv_nonneg [simp]: "0 \<le> a \<Longrightarrow> 0 < b \<Longrightarrow> cdiv a b = a div b"
  by (cases "a = 0") (auto simp: cdiv_def)

lemma cmod_nonneg [simp]: "0 \<le> a \<Longrightarrow> 0 < b \<Longrightarrow> cmod a b = a mod b"
  by (simp add: cmod_def minus_mult_div_eq_mod)

text \<open>\<open>htons\<close> (and \<open>ntohs\<close>) on a little-endian host.\<close>

definition htons :: "16 word \<Rightarrow> 16 word" where
  "htons x = or (push_bit 8 x) (drop_bit 8 x)"

lemma htons_htons [simp]: "htons (htons x) = x"
  unfolding htons_def by (rule bit_word_eqI) (auto simp: bit_simps)

section \<open>Loops\<close>

text \<open>\<open>for (j = i; j < i + k; j++)\<close> over a state that the body changes, and its invariant rule.\<close>

fun for_loop :: "nat \<Rightarrow> nat \<Rightarrow> (nat \<Rightarrow> 's \<Rightarrow> 's res) \<Rightarrow> 's \<Rightarrow> 's res" where
  "for_loop 0 i body s = Inr s"
| "for_loop (Suc k) i body s = bindR (body i s) (for_loop k (Suc i) body)"

lemma for_loop_ok:
  assumes "Inv i s" "\<And>j t. i \<le> j \<Longrightarrow> j < i + k \<Longrightarrow> Inv j t \<Longrightarrow> \<exists>t'. body j t = Inr t' \<and> Inv (Suc j) t'"
  shows "\<exists>s'. for_loop k i body s = Inr s' \<and> Inv (i + k) s'"
  using assms
proof (induction k arbitrary: i s)
  case (Suc k)
  obtain t where t: "body i s = Inr t" "Inv (Suc i) t" using Suc.prems(2) [of i s] Suc.prems(1) by auto
  have "\<exists>t'. body j u = Inr t' \<and> Inv (Suc j) t'" if "Suc i \<le> j" "j < Suc i + k" "Inv j u" for j u
    using Suc.prems(2) [of j u] that by simp
  from Suc.IH [OF t(2) this] t(1) show ?case by simp
qed simp

section \<open>Finite lists\<close>

lemma distinct_below_length:
  assumes "distinct xs" and "\<forall>x\<in>set xs. x < (n::nat)"
  shows "length xs \<le> n"
proof -
  have "length xs = card (set xs)" using assms(1) by (simp add: distinct_card)
  also have "\<dots> \<le> card {..<n}" using assms(2) by (intro card_mono) auto
  finally show ?thesis by simp
qed

lemma last_in_butlast_free: "distinct (xs @ [x]) \<Longrightarrow> x \<notin> set xs"
  by simp

section \<open>A FIFO interface and the drain loop\<close>

text \<open>
  Several clients empty a queue with \<open>while (queue_dequeue(q, &p) != -1) ...\<close>. The loop is
  written once over any dequeue operation; the fuel bounds its turns, and running out stands for
  a loop that never ends.
\<close>

fun drain :: "('q \<Rightarrow> (int \<times> ptr \<times> 'q) res) \<Rightarrow> nat \<Rightarrow> 'q \<Rightarrow> (ptr list \<times> 'q) res" where
  "drain deq 0 q = Inl Diverges"
| "drain deq (Suc n) q = bindR (deq q) (\<lambda>(r, p, q').
     if r = -1 then Inr ([], q')
     else bindR (drain deq n q') (\<lambda>(ps, q''). Inr (p # ps, q'')))"

fun append_all :: "('q \<Rightarrow> ptr \<Rightarrow> (int \<times> 'q) res) \<Rightarrow> 'q \<Rightarrow> ptr list \<Rightarrow> 'q res" where
  "append_all app q [] = Inr q"
| "append_all app q (x # xs) = bindR (app q x) (\<lambda>(r, q'). append_all app q' xs)"

locale fifo_queue =
  fixes inv :: "'q \<Rightarrow> bool"
    and items :: "'q \<Rightarrow> ptr list"
    and app :: "'q \<Rightarrow> ptr \<Rightarrow> (int \<times> 'q) res"
    and deq :: "'q \<Rightarrow> (int \<times> ptr \<times> 'q) res"
  assumes app_ok: "inv q \<Longrightarrow> \<exists>q'. app q x = Inr (0, q') \<and> inv q' \<and> items q' = items q @ [x]"
    and deq_empty: "inv q \<Longrightarrow> items q = [] \<Longrightarrow> deq q = Inr (-1, NULL, q)"
    and deq_first: "inv q \<Longrightarrow> items q = x # xs \<Longrightarrow>
          \<exists>q'. deq q = Inr (0, x, q') \<and> inv q' \<and> items q' = xs"
begin

lemma app_returns:
  assumes "inv q" obtains q' where "app q x = Inr (0, q')" "inv q'" "items q' = items q @ [x]"
  using app_ok [OF assms] by blast

lemma append_all_ok:
  "inv q \<Longrightarrow> \<exists>q'. append_all app q xs = Inr q' \<and> inv q' \<and> items q' = items q @ xs"
proof (induction xs arbitrary: q)
  case Nil
  then show ?case by simp
next
  case (Cons x xs)
  obtain q1 where q1: "app q x = Inr (0, q1)" "inv q1" "items q1 = items q @ [x]"
    using Cons.prems by (rule app_returns)
  from Cons.IH [OF q1(2)] q1 show ?case by auto
qed

lemma drain_ok:
  "inv q \<Longrightarrow> length (items q) < n \<Longrightarrow>
     \<exists>q'. drain deq n q = Inr (items q, q') \<and> inv q' \<and> items q' = []"
proof (induction n arbitrary: q)
  case 0
  then show ?case by simp
next
  case (Suc n)
  show ?case
  proof (cases "items q")
    case Nil
    with Suc.prems show ?thesis by (simp add: deq_empty)
  next
    case (Cons x xs)
    then obtain q1 where q1: "deq q = Inr (0, x, q1)" "inv q1" "items q1 = xs"
      using deq_first Suc.prems(1) by blast
    have "length (items q1) < n" using Suc.prems(2) q1(3) Cons by simp
    from Suc.IH [OF q1(2) this] q1 Cons show ?thesis by auto
  qed
qed

text \<open>First in, first out: what was appended to an empty queue drains in the same order.\<close>

lemma fifo_order:
  assumes "inv q" and "items q = []" and "length xs < n"
  shows "\<exists>q' q''. append_all app q xs = Inr q' \<and> drain deq n q' = Inr (xs, q'') \<and> items q'' = []"
proof -
  obtain q' where q': "append_all app q xs = Inr q'" "inv q'" "items q' = xs"
    using append_all_ok [OF assms(1), of xs] assms(2) by auto
  with drain_ok [OF q'(2), of n] assms(3) show ?thesis by auto
qed

end

section \<open>An interface for stable sorted insertion\<close>

text \<open>
  The alarm queue and the timer list both insert an entry in front of the first one with a greater
  key, so that entries with equal keys keep their order of insertion.
\<close>

definition place :: "'x \<Rightarrow> 'k::linorder \<Rightarrow> ('x \<times> 'k) list \<Rightarrow> ('x \<times> 'k) list" where
  "place x k es = takeWhile (\<lambda>e. snd e \<le> k) es @ (x, k) # dropWhile (\<lambda>e. snd e \<le> k) es"

lemma place_split:
  "\<forall>e\<in>set as. snd e \<le> k \<Longrightarrow> (bs \<noteq> [] \<Longrightarrow> k < snd (hd bs)) \<Longrightarrow> place x k (as @ bs) = as @ (x, k) # bs"
  by (cases bs) (auto simp: place_def takeWhile_append dropWhile_append not_le [symmetric])

lemma mset_place [simp]: "mset (place x k es) = add_mset (x, k) (mset es)"
proof -
  have "mset (place x k es) = add_mset (x, k) (mset (takeWhile (\<lambda>e. snd e \<le> k) es @ dropWhile (\<lambda>e. snd e \<le> k) es))"
    by (simp only: place_def mset_append mset.simps union_mset_add_mset_right)
  then show ?thesis by (simp only: takeWhile_dropWhile_id)
qed

lemma set_place [simp]: "set (place x k es) = insert (x, k) (set es)"
  by (metis mset_place set_mset_add_mset_insert set_mset_mset)

lemma length_place [simp]: "length (place x k es) = Suc (length es)"
  by (metis mset_place size_add_mset size_mset)

lemma sorted_place: "sorted (map snd es) \<Longrightarrow> sorted (map snd (place x k es))"
proof (induction es)
  case Nil
  then show ?case by (simp add: place_def)
next
  case (Cons e es)
  show ?case
  proof (cases "snd e \<le> k")
    case True
    then have "place x k (e # es) = e # place x k es" by (simp add: place_def)
    with Cons True show ?thesis by auto
  next
    case False
    then have "place x k (e # es) = (x, k) # e # es" by (simp add: place_def)
    with Cons.prems False show ?thesis by auto
  qed
qed

lemma filter_place:
  "sorted (map snd es) \<Longrightarrow>
   filter (\<lambda>e. snd e = j) (place x k es) = filter (\<lambda>e. snd e = j) es @ (if k = j then [(x, k)] else [])"
proof (induction es)
  case Nil
  then show ?case by (simp add: place_def)
next
  case (Cons e es)
  show ?case
  proof (cases "snd e \<le> k")
    case True
    then have "place x k (e # es) = e # place x k es" by (simp add: place_def)
    with Cons True show ?thesis by auto
  next
    case False
    then have p: "place x k (e # es) = (x, k) # e # es" by (simp add: place_def)
    have "\<forall>e'\<in>set (e # es). k < snd e'" using Cons.prems False by fastforce
    then have "k = j \<Longrightarrow> filter (\<lambda>e. snd e = j) (e # es) = []" by (auto simp: filter_empty_conv)
    with p show ?thesis by auto
  qed
qed

fun insert_all :: "('q \<Rightarrow> 'x \<Rightarrow> 'k \<Rightarrow> 'q res) \<Rightarrow> 'q \<Rightarrow> ('x \<times> 'k) list \<Rightarrow> 'q res" where
  "insert_all ins q [] = Inr q"
| "insert_all ins q ((x, k) # es) = bindR (ins q x k) (\<lambda>q'. insert_all ins q' es)"

locale stable_insert =
  fixes inv :: "'q \<Rightarrow> bool"
    and entries :: "'q \<Rightarrow> ('x \<times> 'k::linorder) list"
    and valid :: "'x \<Rightarrow> bool"
    and ins :: "'q \<Rightarrow> 'x \<Rightarrow> 'k \<Rightarrow> 'q res"
  assumes ins_ok: "inv q \<Longrightarrow> valid x \<Longrightarrow> \<exists>q'. ins q x k = Inr q' \<and> inv q' \<and> entries q' = place x k (entries q)"
begin

lemma ins_sorted:
  assumes "inv q" "valid x" "sorted (map snd (entries q))"
  obtains q' where "ins q x k = Inr q'" "inv q'" "sorted (map snd (entries q'))"
    "mset (entries q') = add_mset (x, k) (mset (entries q))"
  using ins_ok [OF assms(1,2), of k] sorted_place [OF assms(3), of x k] by auto

lemma insert_all_ok:
  "inv q \<Longrightarrow> \<forall>e\<in>set es. valid (fst e) \<Longrightarrow> sorted (map snd (entries q)) \<Longrightarrow>
   \<exists>q'. insert_all ins q es = Inr q' \<and> inv q' \<and> sorted (map snd (entries q')) \<and>
     mset (entries q') = mset (entries q) + mset es \<and>
     (\<forall>j. filter (\<lambda>e. snd e = j) (entries q') = filter (\<lambda>e. snd e = j) (entries q @ es))"
proof (induction es arbitrary: q)
  case Nil
  then show ?case by simp
next
  case (Cons e es)
  obtain x k where e: "e = (x, k)" by (cases e)
  obtain q1 where q1: "ins q x k = Inr q1" "inv q1" "entries q1 = place x k (entries q)"
    using ins_ok Cons.prems(1,2) e by fastforce
  have s1: "sorted (map snd (entries q1))"
    using q1(3) Cons.prems(3) by (simp add: sorted_place)
  have "\<forall>e\<in>set es. valid (fst e)" using Cons.prems(2) by simp
  from Cons.IH [OF q1(2) this s1] obtain q' where q': "insert_all ins q1 es = Inr q'" "inv q'"
    "sorted (map snd (entries q'))" "mset (entries q') = mset (entries q1) + mset es"
    "\<And>j. filter (\<lambda>e. snd e = j) (entries q') = filter (\<lambda>e. snd e = j) (entries q1 @ es)" by blast
  have "filter (\<lambda>e. snd e = j) (entries q') = filter (\<lambda>e. snd e = j) (entries q @ e # es)" for j
    using q'(5) [of j] filter_place [OF Cons.prems(3), of j x k] by (simp add: q1(3) e)
  then show ?case using q1 q' e by simp
qed

text \<open>Inserting a list into an empty structure is a stable sort of the list.\<close>

lemma insert_all_sorts:
  assumes "inv q" "entries q = []" "\<forall>e\<in>set es. valid (fst e)"
  shows "\<exists>q'. insert_all ins q es = Inr q' \<and> entries q' = sort_key snd es"
proof -
  obtain q' where q': "insert_all ins q es = Inr q'" "sorted (map snd (entries q'))"
    "mset (entries q') = mset es" "\<And>j. filter (\<lambda>e. snd e = j) (entries q') = filter (\<lambda>e. snd e = j) es"
    using insert_all_ok [OF assms(1,3)] assms(2) by auto
  have "sort_key snd es = entries q'"
    using q'(2-4) by (intro properties_for_sort_key) (auto simp: eq_commute)
  with q'(1) show ?thesis by simp
qed

end

end
