(* ===== verification/Queue.thy ===== *)
theory Queue
  imports Prelude
begin

text \<open>
  \<^verbatim>\<open>src/P1-P4/queue.c\<close>: the linked queue of \<open>void *\<close> items every other part of PortOS is
  built on. The nodes live in a store of their own (a queue never shares a node with another), so
  links, the freeing of a node and a dangling link are all visible. The list of items a queue
  stands for is \<open>q_items\<close>; the lemmas show that each operation, at pointer level, is the expected
  operation on that list and keeps the representation invariant \<open>queue_inv\<close>.
\<close>

section \<open>Nodes, queues and operations\<close>

record qnode =
  data :: ptr
  priority :: int
  nxt :: ptr

record queue =
  front :: ptr
  rear :: ptr
  qcount :: int
  cells :: "ptr \<Rightarrow> qnode option"
  brk :: ptr    \<comment> \<open>the next address \<open>malloc\<close> hands out\<close>

definition create_qnode :: "ptr \<Rightarrow> queue \<Rightarrow> ptr \<times> queue" where
  "create_qnode ndata q = (brk q, q\<lparr>cells := (cells q)(brk q \<mapsto> \<lparr>data = ndata, priority = 0, nxt = NULL\<rparr>),
     brk := Suc (brk q)\<rparr>)"

definition creat_qnode_priority :: "ptr \<Rightarrow> int \<Rightarrow> queue \<Rightarrow> ptr \<times> queue" where
  "creat_qnode_priority ndata p q =
     (brk q, q\<lparr>cells := (cells q)(brk q \<mapsto> \<lparr>data = ndata, priority = p, nxt = NULL\<rparr>), brk := Suc (brk q)\<rparr>)"

definition queue_new :: queue where
  "queue_new = \<lparr>front = NULL, rear = NULL, qcount = 0, cells = Map.empty, brk = 1\<rparr>"

text \<open>The assignment \<open>p->next = v\<close>.\<close>

definition set_nxt :: "ptr \<Rightarrow> ptr \<Rightarrow> queue \<Rightarrow> queue res" where
  "set_nxt p v q = bindR (deref (cells q) p) (\<lambda>c. Inr (q\<lparr>cells := (cells q)(p \<mapsto> c\<lparr>nxt := v\<rparr>)\<rparr>))"

fun queue_prepend :: "queue option \<Rightarrow> ptr \<Rightarrow> (int \<times> queue option) res" where
  "queue_prepend None item = Inr (-1, None)"
| "queue_prepend (Some q) item =
     (let (n, q1) = create_qnode item q in
      if front q1 = NULL
      then Inr (0, Some (q1\<lparr>front := n, rear := n, qcount := qcount q1 + 1\<rparr>))
      else bindR (set_nxt n (front q1) q1) (\<lambda>q2.
             Inr (0, Some (q2\<lparr>front := n, qcount := qcount q2 + 1\<rparr>))))"

fun queue_append :: "queue option \<Rightarrow> ptr \<Rightarrow> (int \<times> queue option) res" where
  "queue_append None item = Inr (-1, None)"
| "queue_append (Some q) item =
     (let (n, q1) = create_qnode item q in
      if front q1 = NULL
      then Inr (0, Some (q1\<lparr>front := n, rear := n, qcount := qcount q1 + 1\<rparr>))
      else bindR (set_nxt (rear q1) n q1) (\<lambda>q2.
             Inr (0, Some (q2\<lparr>rear := n, qcount := qcount q2 + 1\<rparr>))))"

text \<open>
  \<open>queue_dequeue\<close> writes the item through the pointer \<open>item\<close>; \<open>out\<close> says whether that pointer
  is valid (\<open>False\<close> for NULL).
\<close>

fun queue_dequeue_to :: "bool \<Rightarrow> queue option \<Rightarrow> (int \<times> ptr \<times> queue option) res" where
  "queue_dequeue_to out None = Inl Assert_failed"
| "queue_dequeue_to out (Some q) =
     (if front q = NULL
      then (if out then Inr (-1, NULL, Some q) else Inl Null_deref)
      else bindR (deref (cells q) (front q)) (\<lambda>first.
        if \<not> out then Inl Null_deref
        else
          (let q1 = q\<lparr>front := nxt first, cells := (cells q)(front q := None)\<rparr>;
               q2 = (if front q1 = NULL then q1\<lparr>rear := NULL\<rparr> else q1)
           in Inr (0, data first, Some (q2\<lparr>qcount := qcount q2 - 1\<rparr>)))))"

definition queue_dequeue :: "queue option \<Rightarrow> (int \<times> ptr \<times> queue option) res" where
  "queue_dequeue = queue_dequeue_to True"

fun queue_length :: "queue option \<Rightarrow> int res" where
  "queue_length None = Inl Assert_failed"
| "queue_length (Some q) = Inr (qcount q)"

fun queue_front :: "queue option \<Rightarrow> ptr res" where
  "queue_front None = Inl Assert_failed"
| "queue_front (Some q) = bindR (queue_length (Some q)) (\<lambda>len.
     if len = 0 then Inr NULL
     else bindR (deref (cells q) (front q)) (\<lambda>c. Inr (data c)))"

text \<open>
  A walk along the links of one store takes a step per node. More steps than addresses were ever
  handed out means that a node was met twice, and then the C loop never ends: the fuel
  \<open>Suc (brk q)\<close> of the three loops below is exact.
\<close>

fun iterate_loop :: "nat \<Rightarrow> queue \<Rightarrow> (ptr \<Rightarrow> 'i \<Rightarrow> 's \<Rightarrow> 's) \<Rightarrow> 'i \<Rightarrow> ptr \<Rightarrow> 's \<Rightarrow> 's res" where
  "iterate_loop 0 q f item n s = Inl Diverges"
| "iterate_loop (Suc k) q f item n s =
     (if n = NULL then Inr s
      else let s' = f n item s in
        bindR (deref (cells q) n) (\<lambda>c. iterate_loop k q f item (nxt c) s'))"

fun queue_iterate :: "queue option \<Rightarrow> (ptr \<Rightarrow> 'i \<Rightarrow> 's \<Rightarrow> 's) \<Rightarrow> 'i \<Rightarrow> 's \<Rightarrow> (int \<times> 's) res" where
  "queue_iterate None f item s = Inr (-1, s)"
| "queue_iterate (Some q) f item s =
     bindR (iterate_loop (Suc (brk q)) q f item (front q) s) (\<lambda>s'. Inr (0, s'))"

fun queue_free :: "queue option \<Rightarrow> (int \<times> queue option) res" where
  "queue_free None = Inl Assert_failed"
| "queue_free (Some q) = (if front q \<noteq> NULL then Inr (-1, Some q) else Inr (0, None))"

fun delete_loop :: "nat \<Rightarrow> queue \<Rightarrow> ptr \<Rightarrow> ptr \<Rightarrow> ptr \<Rightarrow> (int \<times> queue option) res" where
  "delete_loop 0 q item cur prev = Inl Diverges"
| "delete_loop (Suc k) q item cur prev =
     (if cur = NULL then Inr (-1, Some q)
      else bindR (deref (cells q) cur) (\<lambda>c.
        if data c = item then
          (let q1 = (if cur = front q then q\<lparr>front := nxt c\<rparr> else q);
               q2 = (if cur = rear q1 then q1\<lparr>rear := prev\<rparr> else q1)
           in Inr (0, Some (q2\<lparr>cells := (cells q2)(cur := None), qcount := qcount q2 - 1\<rparr>)))
        else delete_loop k q item (nxt c) cur))"

fun queue_delete :: "queue option \<Rightarrow> ptr \<Rightarrow> (int \<times> queue option) res" where
  "queue_delete None item = Inl Assert_failed"
| "queue_delete (Some q) item =
     assertR (item \<noteq> NULL) (delete_loop (Suc (brk q)) q item (front q) NULL)"

fun insert_loop :: "nat \<Rightarrow> queue \<Rightarrow> ptr \<Rightarrow> int \<Rightarrow> ptr \<Rightarrow> ptr \<Rightarrow> (int \<times> queue option) res" where
  "insert_loop 0 q n p cur prev = Inl Diverges"
| "insert_loop (Suc k) q n p cur prev =
     (if cur = NULL
      then bindR (set_nxt prev n q) (\<lambda>q1. Inr (0, Some (q1\<lparr>rear := n, qcount := qcount q1 + 1\<rparr>)))
      else bindR (deref (cells q) cur) (\<lambda>c.
        if p < priority c then
          (if prev = NULL
           then bindR (set_nxt n cur q) (\<lambda>q1. Inr (0, Some (q1\<lparr>front := n, qcount := qcount q1 + 1\<rparr>)))
           else bindR (set_nxt prev n q) (\<lambda>q1. bindR (set_nxt n cur q1) (\<lambda>q2.
                  Inr (0, Some (q2\<lparr>qcount := qcount q2 + 1\<rparr>)))))
        else insert_loop k q n p (nxt c) cur))"

fun queue_insert_sorted :: "queue option \<Rightarrow> ptr \<Rightarrow> int \<Rightarrow> (int \<times> queue option) res" where
  "queue_insert_sorted None item p = Inl Assert_failed"
| "queue_insert_sorted (Some q) item p =
     assertR (item \<noteq> NULL)
      (let (n, q1) = creat_qnode_priority item p q in
       if qcount q1 = 0
       then Inr (0, Some (q1\<lparr>front := n, rear := n, qcount := qcount q1 + 1\<rparr>))
       else insert_loop (Suc (brk q1)) q1 n p (front q1) NULL)"

definition queue_get_next :: "queue \<Rightarrow> ptr \<Rightarrow> ptr res" where
  "queue_get_next q node =
     (if node = NULL then Inr NULL else bindR (deref (cells q) node) (\<lambda>c. Inr (nxt c)))"

fun queue_get_front :: "queue option \<Rightarrow> ptr res" where
  "queue_get_front None = Inl Assert_failed"
| "queue_get_front (Some q) = Inr (front q)"

definition queue_get_data :: "queue \<Rightarrow> ptr \<Rightarrow> ptr res" where
  "queue_get_data q node =
     (if node = NULL then Inr NULL else bindR (deref (cells q) node) (\<lambda>c. Inr (data c)))"

section \<open>Representation\<close>

fun seg :: "(ptr \<Rightarrow> qnode option) \<Rightarrow> ptr \<Rightarrow> ptr list \<Rightarrow> ptr \<Rightarrow> bool" where
  "seg m p [] r = (p = r)"
| "seg m p (a # as) r = (p = a \<and> a \<noteq> NULL \<and> (\<exists>c. m a = Some c \<and> seg m (nxt c) as r))"

definition queue_rep :: "queue \<Rightarrow> ptr list \<Rightarrow> bool" where
  "queue_rep q as \<longleftrightarrow> seg (cells q) (front q) as NULL \<and> distinct as \<and>
     rear q = (if as = [] then NULL else last as) \<and> qcount q = int (length as) \<and>
     dom (cells q) = set as \<and> (\<forall>a\<in>set as. 0 < a \<and> a < brk q) \<and> 0 < brk q"

fun follow :: "nat \<Rightarrow> (ptr \<Rightarrow> qnode option) \<Rightarrow> ptr \<Rightarrow> ptr list" where
  "follow 0 m p = []"
| "follow (Suc k) m p = (if p = NULL then [] else case m p of None \<Rightarrow> [] | Some c \<Rightarrow> p # follow k m (nxt c))"

definition q_nodes :: "queue \<Rightarrow> ptr list" where
  "q_nodes q = follow (brk q) (cells q) (front q)"

definition queue_inv :: "queue \<Rightarrow> bool" where
  "queue_inv q \<longleftrightarrow> queue_rep q (q_nodes q)"

text \<open>The entries (item and priority) and the items of a queue, from front to rear.\<close>

definition entry :: "(ptr \<Rightarrow> qnode option) \<Rightarrow> ptr \<Rightarrow> ptr \<times> int" where
  "entry m a = (case m a of None \<Rightarrow> (NULL, 0) | Some c \<Rightarrow> (data c, priority c))"

definition q_entries :: "queue \<Rightarrow> (ptr \<times> int) list" where
  "q_entries q = map (entry (cells q)) (q_nodes q)"

definition q_items :: "queue \<Rightarrow> ptr list" where
  "q_items q = map fst (q_entries q)"

lemma seg_append: "seg m p (as @ bs) r \<longleftrightarrow> (\<exists>s. seg m p as s \<and> seg m s bs r)"
  by (induction as arbitrary: p) auto

lemma seg_upd [simp]: "a \<notin> set as \<Longrightarrow> seg (m(a := v)) p as r = seg m p as r"
  by (induction as arbitrary: p) auto

lemma seg_follow: "seg m p as NULL \<Longrightarrow> length as \<le> k \<Longrightarrow> follow k m p = as"
proof (induction as arbitrary: p k)
  case Nil
  then show ?case by (cases k) auto
next
  case (Cons a as)
  then show ?case by (cases k) auto
qed

lemma seg_NULL: "seg m NULL as NULL \<longleftrightarrow> as = []"
  by (cases as) auto

lemma seg_front: "seg m p as NULL \<Longrightarrow> as \<noteq> [] \<Longrightarrow> p = hd as \<and> p \<noteq> NULL"
  by (cases as) auto

lemma queue_rep_nodes: "queue_rep q as \<Longrightarrow> q_nodes q = as"
  by (auto simp: queue_rep_def q_nodes_def intro!: seg_follow dest: distinct_below_length [of as "brk q"])

lemma queue_rep_inv: "queue_rep q as \<Longrightarrow> queue_inv q"
  by (simp add: queue_inv_def queue_rep_nodes)

lemma queue_rep_entries: "queue_rep q as \<Longrightarrow> q_entries q = map (entry (cells q)) as"
  by (simp add: q_entries_def queue_rep_nodes)

lemma queue_inv_rep: "queue_inv q \<Longrightarrow> queue_rep q (q_nodes q)"
  by (simp add: queue_inv_def)

lemma entry_upd_other [simp]: "a \<noteq> b \<Longrightarrow> entry (m(b := v)) a = entry m a"
  by (simp add: entry_def)

lemma map_entry_upd [simp]: "a \<notin> set as \<Longrightarrow> map (entry (m(a := v))) as = map (entry m) as"
  by (induction as) auto

lemma q_items_entries: "q_items q = map fst (q_entries q)"
  by (simp add: q_items_def)

lemma length_q_items: "length (q_items q) = length (q_nodes q)"
  by (simp add: q_items_def q_entries_def)

lemma qcount_items: "queue_inv q \<Longrightarrow> qcount q = int (length (q_items q))"
  by (simp add: queue_inv_def queue_rep_def length_q_items)

lemma q_entries_Nil: "q_entries q = [] \<longleftrightarrow> q_items q = []"
  by (simp add: q_items_def)

lemma queue_new_inv [simp]: "queue_inv queue_new"
  by (simp add: queue_inv_def queue_rep_def queue_new_def q_nodes_def)

lemma queue_new_entries [simp]: "q_entries queue_new = []"
  by (simp add: q_entries_def q_nodes_def queue_new_def)

lemma queue_new_items [simp]: "q_items queue_new = []"
  by (simp add: q_items_def)

lemma front_NULL_iff: "queue_inv q \<Longrightarrow> front q = NULL \<longleftrightarrow> q_items q = []"
  by (cases "q_nodes q") (auto simp: queue_inv_def queue_rep_def q_items_def q_entries_def)

lemma queue_rep_empty: "queue_inv q \<Longrightarrow> q_items q = [] \<Longrightarrow> front q = NULL \<and> rear q = NULL \<and> qcount q = 0 \<and> cells q = Map.empty"
  by (auto simp: queue_inv_def queue_rep_def q_items_def q_entries_def)

section \<open>Prepend, append, dequeue\<close>

lemma fresh_cell: "queue_rep q as \<Longrightarrow> brk q \<notin> set as \<and> cells q (brk q) = None \<and> brk q \<noteq> NULL"
  unfolding queue_rep_def by (metis domIff less_irrefl)

lemma prepend_refines:
  assumes "queue_inv q"
  shows "\<exists>q'. queue_prepend (Some q) x = Inr (0, Some q') \<and> queue_inv q' \<and> q_entries q' = (x, 0) # q_entries q"
proof -
  define as where "as = q_nodes q"
  have rep: "queue_rep q as" using assms by (simp add: as_def queue_inv_rep)
  note f = fresh_cell [OF rep]
  obtain q' where q': "queue_prepend (Some q) x = Inr (0, Some q')"
    "q' = q\<lparr>cells := (cells q)(brk q \<mapsto> \<lparr>data = x, priority = 0, nxt = front q\<rparr>), brk := Suc (brk q),
       front := brk q, rear := (if as = [] then brk q else rear q), qcount := qcount q + 1\<rparr>"
  proof (cases "as = []")
    case True
    then show ?thesis using that rep f
      by (auto simp: create_qnode_def queue_rep_def)
  next
    case False
    then show ?thesis using that rep f seg_front [of "cells q" "front q" as]
      by (auto simp: create_qnode_def set_nxt_def deref_def queue_rep_def)
  qed
  have rep': "queue_rep q' (brk q # as)"
    using rep f by (auto simp: q'(2) queue_rep_def)
  have "q_entries q' = (x, 0) # q_entries q"
    unfolding queue_rep_entries [OF rep'] queue_rep_entries [OF rep]
    using f by (simp add: q'(2)) (simp add: entry_def)
  with q'(1) rep' show ?thesis by (blast intro: queue_rep_inv)
qed

lemma append_refines:
  assumes "queue_inv q"
  shows "\<exists>q'. queue_append (Some q) x = Inr (0, Some q') \<and> queue_inv q' \<and> q_entries q' = q_entries q @ [(x, 0)]"
proof -
  define as where "as = q_nodes q"
  have rep: "queue_rep q as" using assms by (simp add: as_def queue_inv_rep)
  note f = fresh_cell [OF rep]
  show ?thesis
  proof (cases as rule: rev_cases)
    case Nil
    define q' where "q' = q\<lparr>cells := (cells q)(brk q \<mapsto> \<lparr>data = x, priority = 0, nxt = NULL\<rparr>),
      brk := Suc (brk q), front := brk q, rear := brk q, qcount := qcount q + 1\<rparr>"
    have run: "queue_append (Some q) x = Inr (0, Some q')"
      using Nil rep by (simp add: q'_def create_qnode_def queue_rep_def)
    have rep': "queue_rep q' [brk q]"
      using rep f Nil by (auto simp: q'_def queue_rep_def)
    have "q_entries q' = q_entries q @ [(x, 0)]"
      unfolding queue_rep_entries [OF rep'] queue_rep_entries [OF rep]
      using Nil by (simp add: q'_def entry_def)
    with run rep' show ?thesis by (blast intro: queue_rep_inv)
  next
    case (snoc bs z)
    obtain c where c: "cells q z = Some c" "nxt c = NULL" "seg (cells q) (front q) bs z" "z \<noteq> NULL"
      using rep snoc by (auto simp: queue_rep_def seg_append)
    have z: "z \<notin> set bs" "rear q = z" "front q \<noteq> NULL" "z \<noteq> brk q"
      using rep snoc f seg_front [of "cells q" "front q" as] by (auto simp: queue_rep_def)
    define m where "m = (cells q)(brk q \<mapsto> \<lparr>data = x, priority = 0, nxt = NULL\<rparr>, z \<mapsto> c\<lparr>nxt := brk q\<rparr>)"
    define q' where "q' = q\<lparr>cells := m, brk := Suc (brk q), rear := brk q, qcount := qcount q + 1\<rparr>"
    have run: "queue_append (Some q) x = Inr (0, Some q')"
      using z c(1,4) f by (simp add: q'_def m_def create_qnode_def set_nxt_def deref_def)
    have "brk q \<notin> set bs" "z \<notin> set bs" using f snoc z by auto
    then have "seg m (front q) bs z" using c(3) by (simp add: m_def)
    then have "seg m (front q) (as @ [brk q]) NULL"
      using snoc c(4) f z(4) by (auto simp: seg_append m_def)
    then have rep': "queue_rep q' (as @ [brk q])"
      using rep f c(1) snoc by (auto simp: q'_def m_def queue_rep_def)
    have "map (entry m) as = map (entry (cells q)) as"
      using f snoc z c by (auto simp: m_def entry_def)
    then have "q_entries q' = q_entries q @ [(x, 0)]"
      unfolding queue_rep_entries [OF rep'] queue_rep_entries [OF rep]
      using z by (simp add: q'_def) (simp add: m_def entry_def)
    with run rep' show ?thesis by (blast intro: queue_rep_inv)
  qed
qed

lemma dequeue_empty:
  assumes "queue_inv q" and "q_items q = []"
  shows "queue_dequeue (Some q) = Inr (-1, NULL, Some q)"
  using assms by (simp add: queue_dequeue_def front_NULL_iff)

lemma dequeue_refines:
  assumes "queue_inv q" and "q_entries q = (x, p) # es"
  shows "\<exists>q'. queue_dequeue (Some q) = Inr (0, x, Some q') \<and> queue_inv q' \<and> q_entries q' = es"
proof -
  obtain a as where nodes: "q_nodes q = a # as" using assms(2) by (cases "q_nodes q") (auto simp: q_entries_def)
  have rep: "queue_rep q (a # as)" using assms(1) nodes by (simp add: queue_inv_def)
  obtain c where c: "cells q a = Some c" "front q = a" "a \<noteq> NULL" "seg (cells q) (nxt c) as NULL"
    using rep by (auto simp: queue_rep_def)
  have x: "data c = x" "map (entry (cells q)) as = es"
    using assms(2) c by (auto simp: queue_rep_entries [OF rep] entry_def)
  define q' where "q' = q\<lparr>front := nxt c, rear := (if nxt c = NULL then NULL else rear q),
    cells := (cells q)(a := None), qcount := qcount q - 1\<rparr>"
  have run: "queue_dequeue (Some q) = Inr (0, x, Some q')"
    using c x by (simp add: queue_dequeue_def deref_def q'_def)
  have "nxt c = NULL \<longleftrightarrow> as = []" using c(4) by (cases as) auto
  then have rep': "queue_rep q' as"
    using rep c by (auto simp: q'_def queue_rep_def)
  have "q_entries q' = es"
    unfolding queue_rep_entries [OF rep']
    using rep x by (simp add: q'_def queue_rep_def)
  with run rep' show ?thesis by (blast intro: queue_rep_inv)
qed

lemma append_items:
  assumes "queue_inv q"
  obtains q' where "queue_append (Some q) x = Inr (0, Some q')" "queue_inv q'" "q_items q' = q_items q @ [x]"
  using append_refines [OF assms, of x] by (auto simp: q_items_def)

lemma dequeue_items:
  assumes "queue_inv q" and "q_items q = x # xs"
  obtains q' where "queue_dequeue (Some q) = Inr (0, x, Some q')" "queue_inv q'" "q_items q' = xs"
proof -
  from assms(2) obtain p es where "q_entries q = (x, p) # es" "map fst es = xs"
    by (auto simp: q_items_def)
  then show ?thesis using dequeue_refines [OF assms(1)] that by (auto simp: q_items_def)
qed

section \<open>Sorted insertion\<close>

lemma entry_nxt [simp]: "m a = Some c \<Longrightarrow> entry (m(a \<mapsto> c\<lparr>nxt := v\<rparr>)) = entry m"
  by (rule ext) (simp add: entry_def)

lemma priority_entry: "m a = Some c \<Longrightarrow> priority c = snd (entry m a)"
  by (simp add: entry_def)

lemma insert_loop_refines:
  assumes "seg (cells q) (front q) us cur" "seg (cells q) cur vs NULL" "distinct (us @ vs)"
    "n \<notin> set (us @ vs)" "cells q n = Some nc" "nxt nc = NULL" "n \<noteq> NULL"
    "prev = (if us = [] then NULL else last us)" "us @ vs \<noteq> []" "length vs < k"
  shows "\<exists>q' ws zs. vs = ws @ zs \<and> (\<forall>a\<in>set ws. snd (entry (cells q) a) \<le> p) \<and>
    (zs \<noteq> [] \<longrightarrow> p < snd (entry (cells q) (hd zs))) \<and>
    insert_loop k q n p cur prev = Inr (0, Some q') \<and>
    seg (cells q') (front q') (us @ ws @ n # zs) NULL \<and>
    rear q' = (if zs = [] then n else rear q) \<and> qcount q' = qcount q + 1 \<and> brk q' = brk q \<and>
    dom (cells q') = dom (cells q) \<and> entry (cells q') = entry (cells q)"
  using assms
proof (induction vs arbitrary: us cur prev k)
  case Nil
  then obtain bs z where us: "us = bs @ [z]" by (cases us rule: rev_cases) auto
  obtain c where c: "cells q z = Some c" "seg (cells q) (front q) bs z" "z \<noteq> NULL"
    using Nil.prems(1) us by (auto simp: seg_append)
  obtain k' where k: "k = Suc k'" using Nil.prems by (cases k) auto
  define q' where "q' = q\<lparr>cells := (cells q)(z \<mapsto> c\<lparr>nxt := n\<rparr>), rear := n, qcount := qcount q + 1\<rparr>"
  have "insert_loop k q n p cur prev = Inr (0, Some q')"
    using Nil.prems us c k by (simp add: set_nxt_def deref_def q'_def)
  moreover have "seg (cells q') (front q') (us @ [n]) NULL"
    using Nil.prems us c by (auto simp: q'_def seg_append)
  moreover have "entry (cells q') = entry (cells q)" "dom (cells q') = dom (cells q)"
    "rear q' = n" "qcount q' = qcount q + 1" "brk q' = brk q"
    using c by (auto simp: q'_def)
  ultimately show ?case by (intro exI [of _ q'] exI [of _ "[]"]) simp
next
  case (Cons v vs)
  obtain c where c: "cells q v = Some c" "cur = v" "v \<noteq> NULL" "seg (cells q) (nxt c) vs NULL"
    using Cons.prems(2) by auto
  obtain k' where k: "k = Suc k'" using Cons.prems by (cases k) auto
  show ?case
  proof (cases "p < priority c")
    case False
    then have run: "insert_loop k q n p cur prev = insert_loop k' q n p (nxt c) v"
      using k c by (simp add: deref_def)
    have "seg (cells q) (front q) (us @ [v]) (nxt c)"
      using Cons.prems(1) c by (auto simp: seg_append)
    from Cons.IH [OF this c(4), of v k'] Cons.prems k obtain q' ws zs where q':
      "vs = ws @ zs" "\<forall>a\<in>set ws. snd (entry (cells q) a) \<le> p"
      "zs \<noteq> [] \<longrightarrow> p < snd (entry (cells q) (hd zs))"
      "insert_loop k' q n p (nxt c) v = Inr (0, Some q')"
      "seg (cells q') (front q') ((us @ [v]) @ ws @ n # zs) NULL"
      "rear q' = (if zs = [] then n else rear q)" "qcount q' = qcount q + 1" "brk q' = brk q"
      "dom (cells q') = dom (cells q)" "entry (cells q') = entry (cells q)"
      by auto
    then show ?thesis using False c(1) run
      by (intro exI [of _ q'] exI [of _ "v # ws"] exI [of _ zs]) (auto simp: entry_def)
  next
    case True
    show ?thesis
    proof (cases us rule: rev_cases)
      case Nil
      define q' where "q' = q\<lparr>cells := (cells q)(n \<mapsto> nc\<lparr>nxt := cur\<rparr>), front := n, qcount := qcount q + 1\<rparr>"
      have "insert_loop k q n p cur prev = Inr (0, Some q')"
        using Cons.prems Nil c k True by (simp add: set_nxt_def deref_def q'_def)
      moreover have "seg (cells q') (front q') (n # v # vs) NULL"
        using Cons.prems c by (auto simp: q'_def)
      moreover have "entry (cells q') = entry (cells q)" "dom (cells q') = dom (cells q)"
        "rear q' = rear q" "qcount q' = qcount q + 1" "brk q' = brk q"
        using Cons.prems by (auto simp: q'_def)
      ultimately show ?thesis using True Nil priority_entry [of "cells q" v c] c(1)
        by (intro exI [of _ q'] exI [of _ "[]"] exI [of _ "v # vs"]) simp
    next
      case (snoc bs z)
      obtain d where d: "cells q z = Some d" "seg (cells q) (front q) bs z" "z \<noteq> NULL"
        using Cons.prems(1) snoc by (auto simp: seg_append)
      define m where "m = (cells q)(z \<mapsto> d\<lparr>nxt := n\<rparr>, n \<mapsto> nc\<lparr>nxt := cur\<rparr>)"
      define q' where "q' = q\<lparr>cells := m, qcount := qcount q + 1\<rparr>"
      have "z \<noteq> n" using Cons.prems(4) snoc by auto
      then have run: "insert_loop k q n p cur prev = Inr (0, Some q')"
        using Cons.prems snoc c d k True by (simp add: set_nxt_def deref_def q'_def m_def)
      have "seg m (front q) bs z" "seg m (nxt c) vs NULL" "m v = Some c"
        using d(2) c Cons.prems(3,4) snoc by (auto simp: m_def)
      then have "seg m (front q) (us @ n # v # vs) NULL"
        using \<open>z \<noteq> n\<close> Cons.prems(7) c d snoc by (auto simp: m_def seg_append)
      moreover have "entry m = entry (cells q)" "dom m = dom (cells q)"
        using Cons.prems d \<open>z \<noteq> n\<close> by (auto simp: m_def entry_def fun_eq_iff)
      moreover have "cells q' = m" "front q' = front q" "rear q' = rear q" "qcount q' = qcount q + 1" "brk q' = brk q"
        by (simp_all add: q'_def)
      ultimately show ?thesis using True priority_entry [of "cells q" v c] c(1) run
        by (intro exI [of _ q'] exI [of _ "[]"] exI [of _ "v # vs"]) simp
    qed
  qed
qed

lemma insert_sorted_refines:
  assumes "queue_inv q" and "x \<noteq> NULL"
  shows "\<exists>q'. queue_insert_sorted (Some q) x p = Inr (0, Some q') \<and> queue_inv q' \<and>
           q_entries q' = place x p (q_entries q)"
proof -
  define as where "as = q_nodes q"
  have rep: "queue_rep q as" using assms by (simp add: as_def queue_inv_rep)
  note f = fresh_cell [OF rep]
  define n where "n = brk q"
  define q1 where "q1 = q\<lparr>cells := (cells q)(n \<mapsto> \<lparr>data = x, priority = p, nxt = NULL\<rparr>), brk := Suc n\<rparr>"
  have e1: "entry (cells q1) n = (x, p)" "map (entry (cells q1)) bs = map (entry (cells q)) bs" if "set bs \<subseteq> set as" for bs
    using f that by (auto simp: q1_def n_def entry_def)
  show ?thesis
  proof (cases "as = []")
    case True
    define q' where "q' = q1\<lparr>front := n, rear := n, qcount := qcount q + 1\<rparr>"
    have run: "queue_insert_sorted (Some q) x p = Inr (0, Some q')"
      using True rep assms(2) by (simp add: creat_qnode_priority_def queue_rep_def q'_def q1_def n_def)
    have rep': "queue_rep q' [n]" using rep f True by (auto simp: q'_def q1_def n_def queue_rep_def)
    have "q_entries q' = place x p (q_entries q)"
      unfolding queue_rep_entries [OF rep'] queue_rep_entries [OF rep]
      using True by (simp add: q'_def q1_def entry_def place_def)
    with run rep' show ?thesis by (blast intro: queue_rep_inv)
  next
    case False
    have "length as < Suc (brk q1)"
      using rep distinct_below_length [of as "brk q"] by (auto simp: queue_rep_def q1_def n_def)
    moreover have "seg (cells q1) (front q1) as NULL" "distinct as" "n \<notin> set as" "n \<noteq> NULL"
      "cells q1 n = Some \<lparr>data = x, priority = p, nxt = NULL\<rparr>"
      using rep f by (auto simp: queue_rep_def q1_def n_def)
    ultimately obtain q' ws zs where q':
      "as = ws @ zs" "\<forall>a\<in>set ws. snd (entry (cells q1) a) \<le> p"
      "zs \<noteq> [] \<longrightarrow> p < snd (entry (cells q1) (hd zs))"
      "insert_loop (Suc (brk q1)) q1 n p (front q1) NULL = Inr (0, Some q')"
      "seg (cells q') (front q') (ws @ n # zs) NULL"
      "rear q' = (if zs = [] then n else rear q1)" "qcount q' = qcount q1 + 1" "brk q' = brk q1"
      "dom (cells q') = dom (cells q1)" "entry (cells q') = entry (cells q1)"
      using insert_loop_refines [of q1 "[]" "front q1" as n "\<lparr>data = x, priority = p, nxt = NULL\<rparr>" NULL "Suc (brk q1)" p] False
      by (auto simp del: insert_loop.simps)
    have run: "queue_insert_sorted (Some q) x p = Inr (0, Some q')"
      using q'(4) False rep assms(2)
      by (simp add: creat_qnode_priority_def queue_rep_def q1_def n_def del: insert_loop.simps)
    have rep': "queue_rep q' (ws @ n # zs)"
      using rep f q'(1,5-9) by (auto simp: queue_rep_def q1_def n_def intro: less_SucI)
    have "q_entries q' = map (entry (cells q1)) ws @ (x, p) # map (entry (cells q1)) zs"
      unfolding queue_rep_entries [OF rep'] using q'(10) e1(1) [of "[]"] by simp
    also have "\<dots> = place x p (map (entry (cells q1)) ws @ map (entry (cells q1)) zs)"
      using q'(2,3) by (intro place_split [symmetric]) (auto simp: hd_map)
    also have "\<dots> = place x p (q_entries q)"
      unfolding queue_rep_entries [OF rep] e1(2) [OF subset_refl, symmetric] by (simp add: q'(1))
    finally show ?thesis using run rep' by (blast intro: queue_rep_inv)
  qed
qed

section \<open>Deletion\<close>

text \<open>What \<open>delete_loop\<close> does to the node it found, and where the node was.\<close>

definition unlink :: "queue \<Rightarrow> ptr \<Rightarrow> ptr \<Rightarrow> ptr \<Rightarrow> queue" where
  "unlink q cur prev suc =
     (let q1 = (if cur = front q then q\<lparr>front := suc\<rparr> else q);
          q2 = (if cur = rear q1 then q1\<lparr>rear := prev\<rparr> else q1)
      in q2\<lparr>cells := (cells q2)(cur := None), qcount := qcount q2 - 1\<rparr>)"

lemma unlink_sel [simp]:
  "front (unlink q cur prev suc) = (if cur = front q then suc else front q)"
  "rear (unlink q cur prev suc) = (if cur = rear q then prev else rear q)"
  "cells (unlink q cur prev suc) = (cells q)(cur := None)"
  "qcount (unlink q cur prev suc) = qcount q - 1"
  "brk (unlink q cur prev suc) = brk q"
  by (simp_all add: unlink_def Let_def)

lemma delete_loop_found:
  "seg (cells q) cur (us @ b # vs) NULL \<Longrightarrow> x \<notin> fst ` entry (cells q) ` set us \<Longrightarrow>
   cells q b = Some c \<Longrightarrow> data c = x \<Longrightarrow> length us < k \<Longrightarrow>
   delete_loop k q x cur prev = Inr (0, Some (unlink q b (if us = [] then prev else last us) (nxt c)))"
proof (induction us arbitrary: cur prev k)
  case Nil
  then show ?case by (cases k) (auto simp: deref_def unlink_def)
next
  case (Cons u us)
  obtain d where d: "cells q u = Some d" "cur = u" "u \<noteq> NULL" "seg (cells q) (nxt d) (us @ b # vs) NULL"
    using Cons.prems(1) by auto
  obtain k' where k: "k = Suc k'" using Cons.prems by (cases k) auto
  have "data d \<noteq> x" using Cons.prems(2) d(1) by (auto simp: entry_def)
  with Cons.IH [OF d(4), of k' u] Cons.prems k d show ?case
    by (auto simp: deref_def)
qed

lemma delete_loop_missing:
  "seg (cells q) cur us NULL \<Longrightarrow> x \<notin> fst ` entry (cells q) ` set us \<Longrightarrow> length us < k \<Longrightarrow>
   delete_loop k q x cur prev = Inr (-1, Some q)"
proof (induction us arbitrary: cur prev k)
  case Nil
  then show ?case by (cases k) auto
next
  case (Cons u us)
  then obtain d where d: "cells q u = Some d" "cur = u" "u \<noteq> NULL" "seg (cells q) (nxt d) us NULL"
    by auto
  obtain k' where k: "k = Suc k'" using Cons.prems by (cases k) auto
  have "data d \<noteq> x" using Cons.prems(2) d(1) by (auto simp: entry_def)
  with Cons.IH [OF d(4), of k' u] Cons.prems k d show ?case by (auto simp: deref_def)
qed

lemma rep_length_le_brk: "queue_rep q as \<Longrightarrow> length as \<le> brk q"
  using distinct_below_length [of as "brk q"] by (auto simp: queue_rep_def)

lemma delete_missing_refines:
  assumes "queue_inv q" and "x \<noteq> NULL" and "x \<notin> set (q_items q)"
  shows "queue_delete (Some q) x = Inr (-1, Some q)"
proof -
  note rep = queue_inv_rep [OF assms(1)]
  have "seg (cells q) (front q) (q_nodes q) NULL" "length (q_nodes q) < Suc (brk q)"
    using rep rep_length_le_brk [OF rep] by (auto simp: queue_rep_def)
  with assms(2,3) show ?thesis
    by (simp add: delete_loop_missing q_items_def q_entries_def image_image del: delete_loop.simps)
qed

lemma delete_first_refines:
  assumes "queue_inv q" and "x \<noteq> NULL" and "q_entries q = (x, p) # es"
  shows "\<exists>q'. queue_delete (Some q) x = Inr (0, Some q') \<and> queue_inv q' \<and> q_entries q' = es"
proof -
  obtain a as where nodes: "q_nodes q = a # as" using assms(3) by (cases "q_nodes q") (auto simp: q_entries_def)
  have rep: "queue_rep q (a # as)" using assms(1) nodes by (simp add: queue_inv_def)
  obtain c where c: "cells q a = Some c" "front q = a" "a \<noteq> NULL" "seg (cells q) (nxt c) as NULL"
    using rep by (auto simp: queue_rep_def)
  have x: "data c = x" "map (entry (cells q)) as = es"
    using assms(3) c by (auto simp: queue_rep_entries [OF rep] entry_def)
  define q' where "q' = unlink q a NULL (nxt c)"
  have run: "queue_delete (Some q) x = Inr (0, Some q')"
    using delete_loop_found [of q a "[]" a as x c "Suc (brk q)" NULL] rep c x assms(2)
    by (simp add: q'_def queue_rep_def del: delete_loop.simps)
  have "a = last as \<Longrightarrow> as = []" using rep by (cases as rule: rev_cases) (auto simp: queue_rep_def)
  then have rep': "queue_rep q' as"
    using rep c by (auto simp: q'_def queue_rep_def seg_NULL)
  have "q_entries q' = es"
    unfolding queue_rep_entries [OF rep']
    using rep x by (simp add: q'_def queue_rep_def)
  with run rep' show ?thesis by (blast intro: queue_rep_inv)
qed

lemma iterate_loop_dangling:
  "seg (cells q) n us b \<Longrightarrow> cells q b = None \<Longrightarrow> b \<noteq> NULL \<Longrightarrow> length us < k \<Longrightarrow>
   iterate_loop k q f item n s = Inl Use_after_free"
proof (induction us arbitrary: n k s)
  case Nil
  then show ?case by (cases k) (auto simp: deref_def)
next
  case (Cons u us)
  then show ?case by (cases k) (auto simp: deref_def)
qed

lemma iterate_loop_fold:
  "seg (cells q) n us NULL \<Longrightarrow> length us < k \<Longrightarrow>
   iterate_loop k q f item n s = Inr (fold (\<lambda>a. f a item) us s)"
proof (induction us arbitrary: n k s)
  case Nil
  then show ?case by (cases k) auto
next
  case (Cons u us)
  then show ?case by (cases k) (auto simp: deref_def)
qed

lemma iterate_refines:
  assumes "queue_inv q"
  shows "queue_iterate (Some q) f item s = Inr (0, fold (\<lambda>a. f a item) (q_nodes q) s)"
proof -
  note rep = queue_inv_rep [OF assms]
  have "seg (cells q) (front q) (q_nodes q) NULL" "length (q_nodes q) < Suc (brk q)"
    using rep rep_length_le_brk [OF rep] by (auto simp: queue_rep_def)
  then show ?thesis by (simp add: iterate_loop_fold del: iterate_loop.simps)
qed

text \<open>
  An item that is not the first one: \<open>prev->next\<close> is never redirected, so it still points to the
  node that was freed, and the next walk along the queue reads freed memory.
\<close>

lemma delete_later_dangles:
  assumes "queue_inv q" and "x \<noteq> NULL" and "q_items q = y # ys" and "x \<noteq> y" and "x \<in> set ys"
  shows "\<exists>q'. queue_delete (Some q) x = Inr (0, Some q') \<and>
           queue_iterate (Some q') f item s = Inl Use_after_free"
proof -
  note rep = queue_inv_rep [OF assms(1)]
  have "x \<in> set (q_items q)" using assms(3,5) by simp
  then have "\<exists>a\<in>set (q_nodes q). fst (entry (cells q) a) = x"
    by (auto simp: q_items_def q_entries_def)
  from split_list_first_prop [OF this] obtain us b vs where nodes: "q_nodes q = us @ b # vs"
    "fst (entry (cells q) b) = x" "\<forall>u\<in>set us. fst (entry (cells q) u) \<noteq> x"
    by blast
  have us: "us \<noteq> []" using nodes assms(3,4) by (auto simp: q_items_def q_entries_def)
  have sg: "seg (cells q) (front q) (us @ b # vs) NULL" "distinct (us @ b # vs)"
    using rep nodes(1) by (auto simp: queue_rep_def)
  then obtain c where c: "cells q b = Some c" "data c = x" "b \<noteq> NULL" "seg (cells q) (front q) us b"
    using nodes(2) by (auto simp: seg_append entry_def)
  have len: "length us < Suc (brk q)" using rep_length_le_brk [OF rep] nodes(1) by simp
  define q' where "q' = unlink q b (last us) (nxt c)"
  have del: "delete_loop (Suc (brk q)) q x (front q) NULL = Inr (0, Some q')"
  proof -
    have "x \<notin> fst ` entry (cells q) ` set us" using nodes(3) by auto
    from delete_loop_found [OF sg(1) this c(1,2) len] us show ?thesis by (simp add: q'_def)
  qed
  have "front q' = front q" "cells q' = (cells q)(b := None)" "brk q' = brk q"
    using sg us seg_front [OF sg(1)] by (auto simp: q'_def neq_Nil_conv)
  moreover from this have "seg (cells q') (front q') us b" using c(4) sg(2) by simp
  ultimately have "queue_iterate (Some q') f item s = Inl Use_after_free"
    using iterate_loop_dangling [of q' "front q'" us b "Suc (brk q')" f item s] c(3) len
    by (simp del: iterate_loop.simps)
  with del assms(2) show ?thesis by (simp del: delete_loop.simps)
qed

section \<open>The queue provides the interfaces\<close>

fun oq_inv :: "queue option \<Rightarrow> bool" where
  "oq_inv None = False"
| "oq_inv (Some q) = queue_inv q"

fun oq_entries :: "queue option \<Rightarrow> (ptr \<times> int) list" where
  "oq_entries None = []"
| "oq_entries (Some q) = q_entries q"

definition oq_items :: "queue option \<Rightarrow> ptr list" where
  "oq_items q = map fst (oq_entries q)"

lemma oq_items_Some [simp]: "oq_items (Some q) = q_items q"
  by (simp add: oq_items_def q_items_def)

lemma oq_invE: assumes "oq_inv qo" obtains q where "qo = Some q" "queue_inv q"
  using assms by (cases qo) auto

interpretation lq: fifo_queue oq_inv oq_items queue_append queue_dequeue
proof
  fix q x assume "oq_inv q"
  then show "\<exists>q'. queue_append q x = Inr (0, q') \<and> oq_inv q' \<and> oq_items q' = oq_items q @ [x]"
    by (elim oq_invE) (metis append_items oq_inv.simps(2) oq_items_Some)
next
  fix q assume "oq_inv q" "oq_items q = []"
  then show "queue_dequeue q = Inr (-1, NULL, q)"
    by (elim oq_invE) (simp add: dequeue_empty)
next
  fix q x xs assume "oq_inv q" "oq_items q = x # xs"
  then show "\<exists>q'. queue_dequeue q = Inr (0, x, q') \<and> oq_inv q' \<and> oq_items q' = xs"
    by (elim oq_invE) (metis dequeue_items oq_inv.simps(2) oq_items_Some)
qed

text \<open>Sorted insertion seen through the second interface, which ignores the status code.\<close>

definition insert_sorted_op :: "queue option \<Rightarrow> ptr \<Rightarrow> int \<Rightarrow> queue option res" where
  "insert_sorted_op q x p = bindR (queue_insert_sorted q x p) (\<lambda>(r, q'). Inr q')"

interpretation sq: stable_insert oq_inv oq_entries "\<lambda>x. x \<noteq> NULL" insert_sorted_op
proof
  fix q x k assume "oq_inv q" "x \<noteq> NULL"
  then obtain q0 q' where "q = Some q0" "queue_insert_sorted (Some q0) x k = Inr (0, Some q')"
    "queue_inv q'" "q_entries q' = place x k (q_entries q0)"
    using insert_sorted_refines by (metis oq_invE)
  then show "\<exists>q'. insert_sorted_op q x k = Inr q' \<and> oq_inv q' \<and> oq_entries q' = place x k (oq_entries q)"
    by (intro exI [of _ "Some q'"]) (simp add: insert_sorted_op_def del: queue_insert_sorted.simps)
qed

section \<open>The queue as an abstract sequence\<close>

text \<open>Calls on one queue in any order, on the model of the code and on lists of entries.\<close>

datatype qop = Append ptr | Prepend ptr | Insert ptr int | Dequeue

fun run_op :: "qop \<Rightarrow> queue option \<Rightarrow> (int \<times> ptr \<times> queue option) res" where
  "run_op (Append x) q = bindR (queue_append q x) (\<lambda>(r, q'). Inr (r, NULL, q'))"
| "run_op (Prepend x) q = bindR (queue_prepend q x) (\<lambda>(r, q'). Inr (r, NULL, q'))"
| "run_op (Insert x p) q = bindR (queue_insert_sorted q x p) (\<lambda>(r, q'). Inr (r, NULL, q'))"
| "run_op Dequeue q = queue_dequeue q"

fun run_ops :: "qop list \<Rightarrow> queue option \<Rightarrow> ((int \<times> ptr) list \<times> queue option) res" where
  "run_ops [] q = Inr ([], q)"
| "run_ops (c # cs) q = bindR (run_op c q) (\<lambda>(r, x, q1). bindR (run_ops cs q1) (\<lambda>(outs, q2).
     Inr ((r, x) # outs, q2)))"

fun spec_op :: "qop \<Rightarrow> (ptr \<times> int) list \<Rightarrow> (int \<times> ptr) \<times> (ptr \<times> int) list" where
  "spec_op (Append x) es = ((0, NULL), es @ [(x, 0)])"
| "spec_op (Prepend x) es = ((0, NULL), (x, 0) # es)"
| "spec_op (Insert x p) es = ((0, NULL), place x p es)"
| "spec_op Dequeue [] = ((-1, NULL), [])"
| "spec_op Dequeue ((x, p) # es) = ((0, x), es)"

fun spec_ops :: "qop list \<Rightarrow> (ptr \<times> int) list \<Rightarrow> (int \<times> ptr) list \<times> (ptr \<times> int) list" where
  "spec_ops [] es = ([], es)"
| "spec_ops (c # cs) es = (let (o1, es1) = spec_op c es; (outs, es2) = spec_ops cs es1 in (o1 # outs, es2))"

text \<open>\<open>queue_insert_sorted\<close> asserts that the item is not NULL.\<close>

fun op_allowed :: "qop \<Rightarrow> bool" where
  "op_allowed (Insert x p) \<longleftrightarrow> x \<noteq> NULL"
| "op_allowed _ \<longleftrightarrow> True"

lemma run_op_refines:
  assumes "queue_inv q" "op_allowed c"
  shows "\<exists>q'. run_op c (Some q) = Inr (fst (fst (spec_op c (q_entries q))), snd (fst (spec_op c (q_entries q))), Some q') \<and>
    queue_inv q' \<and> q_entries q' = snd (spec_op c (q_entries q))"
proof (cases c)
  case (Append x)
  then show ?thesis using append_refines [OF assms(1), of x] by auto
next
  case (Prepend x)
  then show ?thesis using prepend_refines [OF assms(1), of x] by auto
next
  case (Insert x p)
  then show ?thesis using insert_sorted_refines [OF assms(1), of x p] assms(2)
    by (auto simp del: queue_insert_sorted.simps)
next
  case Dequeue
  show ?thesis
  proof (cases "q_entries q")
    case Nil
    then show ?thesis using Dequeue assms dequeue_empty by (auto simp: q_items_entries)
  next
    case (Cons e es)
    obtain x p where "e = (x, p)" by (cases e)
    then show ?thesis using Dequeue Cons dequeue_refines [OF assms(1), of x p es] by auto
  qed
qed

lemma run_ops_refines:
  "queue_inv q \<Longrightarrow> list_all op_allowed cs \<Longrightarrow>
   \<exists>q'. run_ops cs (Some q) = Inr (fst (spec_ops cs (q_entries q)), Some q') \<and> queue_inv q' \<and>
     q_entries q' = snd (spec_ops cs (q_entries q))"
proof (induction cs arbitrary: q)
  case Nil
  then show ?case by simp
next
  case (Cons c cs)
  have "op_allowed c" using Cons.prems(2) by simp
  from run_op_refines [OF Cons.prems(1) this] obtain q1 where q1:
    "run_op c (Some q) = Inr (fst (fst (spec_op c (q_entries q))), snd (fst (spec_op c (q_entries q))), Some q1)"
    "queue_inv q1" "q_entries q1 = snd (spec_op c (q_entries q))" by blast
  from Cons.IH [OF q1(2)] Cons.prems(2) q1 show ?case by (auto simp: split_beta Let_def)
qed

section \<open>Properties\<close>



text \<open>
  Inserting entries into an empty queue with \<open>queue_insert_sorted\<close> is a stable sort by
  priority: equal priorities keep their order of insertion.
\<close>

theorem queue_insert_stable_sort:
  assumes "\<forall>e\<in>set es. fst e \<noteq> NULL"
  shows "\<exists>q. insert_all insert_sorted_op (Some queue_new) es = Inr q \<and> oq_entries q = sort_key snd es"
  using assms by (intro sq.insert_all_sorts) auto

theorem queue_insert_stable_sort_witness:
  "\<exists>q. insert_all insert_sorted_op (Some queue_new) [(1, 9), (2, 4), (3, 9), (4, 4)] = Inr q \<and>
     oq_entries q = [(2, 4), (4, 4), (1, 9), (3, 9)]"
  using queue_insert_stable_sort [of "[(1, 9), (2, 4), (3, 9), (4, 4)]"] by simp

text \<open>
  Deleting an item that is in the queue but not at its front reports success and leaves a
  link to the freed node, so that the next walk over the queue reads freed memory: \<open>queue_delete\<close> never
  updates the link of the node before.
\<close>

theorem queue_delete_dangles:
  assumes "queue_inv q" "x \<noteq> NULL" "q_items q = y # ys" "x \<noteq> y" "x \<in> set ys"
  shows "\<exists>q'. queue_delete (Some q) x = Inr (0, Some q') \<and> queue_iterate (Some q') f item s = Inl Use_after_free"
  using assms by (rule delete_later_dangles)

theorem queue_delete_dangles_witness:
  "\<exists>q q'. append_all queue_append (Some queue_new) [5, 6, 7] = Inr (Some q) \<and>
     queue_delete (Some q) 6 = Inr (0, Some q') \<and>
     queue_iterate (Some q') (\<lambda>n item (s :: nat). s + 1) () 0 = Inl Use_after_free"
proof -
  obtain qo where qo: "append_all queue_append (Some queue_new) [5, 6, 7] = Inr qo" "oq_inv qo" "oq_items qo = [5, 6, 7]"
    using lq.append_all_ok [of "Some queue_new" "[5, 6, 7]"] by (auto simp del: append_all.simps)
  then obtain q where q: "qo = Some q" "queue_inv q" by (auto elim: oq_invE)
  have "\<exists>q'. queue_delete (Some q) 6 = Inr (0, Some q') \<and>
      queue_iterate (Some q') (\<lambda>n item (s :: nat). s + 1) () 0 = Inl Use_after_free"
    using q qo(3) by (intro queue_delete_dangles [of q 6 5 "[6, 7]"]) simp_all
  then show ?thesis using qo(1) q(1) by blast
qed

end
