(* ===== verification/Multilevel_Queue.thy ===== *)
theory Multilevel_Queue
  imports Queue
begin

text \<open>
  \<^verbatim>\<open>src/P1-P4/multilevel_queue.c\<close>: an array of queues, one per scheduling level. \<open>lvls\<close> is the list of
  the levels' items. Enqueueing appends to one level; dequeueing searches the levels circularly
  from the given one.
\<close>

section \<open>Operations\<close>

record mlq =
  level_queues :: "queue option list"
  n_levels :: int

text \<open>\<open>malloc_ok\<close> says whether the \<open>malloc\<close> of the structure succeeds.\<close>

definition multilevel_queue_new :: "bool \<Rightarrow> int \<Rightarrow> mlq option res" where
  "multilevel_queue_new malloc_ok n = assertR (n > 0)
     (if \<not> malloc_ok then Inr None
      else Inr (Some \<lparr>level_queues = replicate (nat n) (Some queue_new), n_levels = n\<rparr>))"

fun multilevel_queue_enqueue :: "mlq option \<Rightarrow> int \<Rightarrow> ptr \<Rightarrow> (int \<times> mlq option) res" where
  "multilevel_queue_enqueue None level item = Inr (-1, None)"
| "multilevel_queue_enqueue (Some m) level item =
     (if level > n_levels m then Inr (-1, Some m)
      else bindR (aget (level_queues m) level) (\<lambda>level_q.
        if level_q = None then Inr (-1, Some m)
        else bindR (queue_append level_q item) (\<lambda>(r, level_q').
          bindR (aset (level_queues m) level level_q') (\<lambda>qs.
            Inr (0, Some (m\<lparr>level_queues := qs\<rparr>))))))"

text \<open>The turns of the \<open>for\<close> loop that are left are counted down by the first argument.\<close>

fun mlq_dequeue_loop :: "nat \<Rightarrow> mlq \<Rightarrow> int \<Rightarrow> int \<Rightarrow> ptr \<Rightarrow> (int \<times> ptr \<times> mlq option) res" where
  "mlq_dequeue_loop 0 m level i item = Inr (-1, item, Some m)"
| "mlq_dequeue_loop (Suc k) m level i item =
     (let ix = cmod (level + i) (n_levels m) in
      bindR (aget (level_queues m) ix) (\<lambda>lq.
      bindR (queue_dequeue lq) (\<lambda>(r, item', lq').
      bindR (aset (level_queues m) ix lq') (\<lambda>qs.
        if r \<noteq> -1 then Inr (r, item', Some (m\<lparr>level_queues := qs\<rparr>))
        else mlq_dequeue_loop k (m\<lparr>level_queues := qs\<rparr>) level (i + 1) item'))))"

fun multilevel_queue_dequeue :: "mlq option \<Rightarrow> int \<Rightarrow> ptr \<Rightarrow> (int \<times> ptr \<times> mlq option) res" where
  "multilevel_queue_dequeue None level item = Inl Assert_failed"
| "multilevel_queue_dequeue (Some m) level item =
     assertR (level < n_levels m) (mlq_dequeue_loop (nat (n_levels m)) m level 0 item)"

text \<open>
  \<open>multilevel_queue_free\<close> frees the level queues one by one and stops at the first that is not
  empty; the second component of the result is the number of queues it has freed by then, whose
  pointers stay in the array.
\<close>

fun mlq_free_loop :: "queue option list \<Rightarrow> nat \<Rightarrow> (int \<times> nat) res" where
  "mlq_free_loop [] i = Inr (0, i)"
| "mlq_free_loop (lq # lqs) i =
     bindR (queue_free lq) (\<lambda>(r, lq'). if r = -1 then Inr (-1, i) else mlq_free_loop lqs (Suc i))"

fun multilevel_queue_free :: "mlq option \<Rightarrow> (int \<times> nat \<times> mlq option) res" where
  "multilevel_queue_free None = Inl Assert_failed"
| "multilevel_queue_free (Some m) = bindR (mlq_free_loop (level_queues m) 0)
     (\<lambda>(r, i). Inr (r, i, if r = -1 then Some m else None))"

fun mlq_empty_loop :: "queue option list \<Rightarrow> int res" where
  "mlq_empty_loop [] = Inr 1"
| "mlq_empty_loop (lq # lqs) =
     (if lq = None then mlq_empty_loop lqs
      else bindR (queue_length lq) (\<lambda>len. if len > 0 then Inr 0 else mlq_empty_loop lqs))"

fun multilevel_queue_is_empty :: "mlq option \<Rightarrow> int res" where
  "multilevel_queue_is_empty None = Inl Assert_failed"
| "multilevel_queue_is_empty (Some m) = mlq_empty_loop (level_queues m)"

section \<open>Invariant and contents\<close>

definition mlq_inv :: "mlq \<Rightarrow> bool" where
  "mlq_inv m \<longleftrightarrow> 0 < n_levels m \<and> n_levels m = int (length (level_queues m)) \<and>
     list_all oq_inv (level_queues m)"

definition lvls :: "mlq \<Rightarrow> ptr list list" where
  "lvls m = map oq_items (level_queues m)"

text \<open>The circular search, on lists: the first of \<open>l, l+1, \<dots>\<close> (modulo the number of levels) with an item.\<close>

definition circular :: "'a list list \<Rightarrow> nat \<Rightarrow> nat option" where
  "circular lss l = find (\<lambda>j. lss ! j \<noteq> []) (map (\<lambda>i. (l + i) mod length lss) [0..<length lss])"

lemma length_lvls [simp]: "length (lvls m) = length (level_queues m)"
  by (simp add: lvls_def)

lemma mlq_inv_length: "mlq_inv m \<Longrightarrow> n_levels m = int (length (lvls m)) \<and> length (lvls m) > 0"
  by (auto simp: mlq_inv_def)

lemma mlq_inv_queue: "mlq_inv m \<Longrightarrow> j < length (lvls m) \<Longrightarrow> \<exists>q. level_queues m ! j = Some q \<and> queue_inv q"
  by (auto simp: mlq_inv_def list_all_length elim: oq_invE)

lemma mlq_inv_update:
  "mlq_inv m \<Longrightarrow> queue_inv q \<Longrightarrow> mlq_inv (m\<lparr>level_queues := (level_queues m)[j := Some q]\<rparr>)"
  by (auto simp: mlq_inv_def list_all_iff dest!: set_update_subset_insert [THEN subsetD])

lemma lvls_update: "lvls (m\<lparr>level_queues := (level_queues m)[j := Some q]\<rparr>) = (lvls m)[j := q_items q]"
  by (simp add: lvls_def map_update)

lemma circular_find:
  "circular lss l = Some j \<Longrightarrow> j < length lss \<and> lss ! j \<noteq> []"
  by (auto simp: circular_def find_Some_iff intro!: mod_less_divisor)

lemma circular_None: "circular lss l = None \<Longrightarrow> \<forall>ls\<in>set lss. ls = []"
proof
  fix ls assume c: "circular lss l = None" and "ls \<in> set lss"
  then obtain j where j: "j < length lss" "ls = lss ! j" by (auto simp: in_set_conv_nth)
  define i where "i = (j + (length lss - l mod length lss)) mod length lss"
  have pos: "0 < length lss" using j by linarith
  then have i: "i < length lss" unfolding i_def by (rule mod_less_divisor)
  have lm: "l mod length lss < length lss" using pos by (rule mod_less_divisor)
  have "(l + i) mod length lss = (l mod length lss + (j + (length lss - l mod length lss))) mod length lss"
    unfolding i_def by (simp add: mod_simps)
  also have "l mod length lss + (j + (length lss - l mod length lss)) = j + length lss"
    using lm by linarith
  finally have "(l + i) mod length lss = j" using j by simp
  with c i show "ls = []" by (force simp: circular_def find_None_iff j(2))
qed

lemma circular_total: "circular lss l = None \<longleftrightarrow> concat lss = []"
proof (cases "circular lss l")
  case None
  then show ?thesis using circular_None [of lss l] by (simp add: concat_eq_Nil_conv)
next
  case (Some j)
  then have "lss ! j \<in> set lss" "lss ! j \<noteq> []" using circular_find [of lss l j] by auto
  with Some show ?thesis by (auto simp: concat_eq_Nil_conv)
qed

lemma circular_here:
  assumes "l < length lss" "lss ! l \<noteq> []"
  shows "circular lss l = Some l"
proof -
  have "[0..<length lss] = 0 # [Suc 0..<length lss]" using assms(1) by (intro upt_conv_Cons) linarith
  with assms show ?thesis by (simp add: circular_def)
qed

section \<open>Correctness\<close>

lemma mlq_new_ok:
  "0 < n \<Longrightarrow> \<exists>m. multilevel_queue_new True n = Inr (Some m) \<and> mlq_inv m \<and> n_levels m = n \<and>
     lvls m = replicate (nat n) []"
  by (auto simp: multilevel_queue_new_def mlq_inv_def lvls_def list_all_iff)

lemma mlq_enqueue_ok:
  assumes "mlq_inv m" "0 \<le> l" "l < n_levels m"
  shows "\<exists>m'. multilevel_queue_enqueue (Some m) l x = Inr (0, Some m') \<and> mlq_inv m' \<and>
    n_levels m' = n_levels m \<and> lvls m' = (lvls m)[nat l := lvls m ! nat l @ [x]]"
proof -
  have l: "nat l < length (lvls m)" "l < int (length (level_queues m))" using assms by (auto simp: mlq_inv_def)
  then obtain q where q: "level_queues m ! nat l = Some q" "queue_inv q" using assms(1) mlq_inv_queue by blast
  obtain q' where q': "queue_append (Some q) x = Inr (0, Some q')" "queue_inv q'" "q_items q' = q_items q @ [x]"
    using q(2) by (rule append_items)
  have "lvls m ! nat l = q_items q" using l q(1) by (simp add: lvls_def)
  then show ?thesis using assms l q q' mlq_inv_update [OF assms(1) q'(2), of "nat l"]
    by (auto simp: aget_def aset_def lvls_update simp del: queue_append.simps)
qed

lemma mlq_dequeue_loop_ok:
  assumes "mlq_inv m" "0 \<le> l"
  shows "case find (\<lambda>j. lvls m ! j \<noteq> []) (map (\<lambda>i. (nat l + i) mod length (lvls m)) [i..<i + k]) of
     None \<Rightarrow> mlq_dequeue_loop k m l (int i) item = Inr (-1, if k = 0 then item else NULL, Some m)
   | Some j \<Rightarrow> \<exists>m'. mlq_dequeue_loop k m l (int i) item = Inr (0, hd (lvls m ! j), Some m') \<and> mlq_inv m' \<and>
       n_levels m' = n_levels m \<and> lvls m' = (lvls m)[j := tl (lvls m ! j)]"
proof (induction k arbitrary: i item)
  case 0
  then show ?case by simp
next
  case (Suc k)
  let ?n = "length (lvls m)"
  define j where "j = (nat l + i) mod ?n"
  have j: "j < ?n" using mlq_inv_length [OF assms(1)] unfolding j_def by (intro mod_less_divisor) simp
  have ix: "cmod (l + int i) (n_levels m) = int j"
  proof -
    have "0 \<le> l + int i" "0 < n_levels m" "n_levels m = int ?n" using assms by (auto simp: mlq_inv_def)
    then show ?thesis using assms(2) by (simp add: j_def zmod_int del: length_lvls)
  qed
  obtain q where q: "level_queues m ! j = Some q" "queue_inv q" using mlq_inv_queue [OF assms(1) j] by blast
  have items: "lvls m ! j = q_items q" using j q(1) by (simp add: lvls_def)
  have gets: "aget (level_queues m) (int j) = Inr (Some q)" "aset (level_queues m) (int j) v = Inr ((level_queues m)[j := v])" for v
    using j q(1) by (simp_all add: aget_def aset_def)
  have upt: "[i..<i + Suc k] = i # [Suc i..<Suc i + k]" by (simp add: upt_conv_Cons del: upt_Suc)
  show ?case
  proof (cases "q_items q")
    case Nil
    have same: "(level_queues m)[j := Some q] = level_queues m" using q(1) list_update_id [of "level_queues m" j] by simp
    have step: "mlq_dequeue_loop (Suc k) m l (int i) item = mlq_dequeue_loop k m l (int (Suc i)) NULL"
      using ix gets dequeue_empty [OF q(2) Nil] same by (simp add: algebra_simps)
    have "find (\<lambda>j. lvls m ! j \<noteq> []) (map (\<lambda>i. (nat l + i) mod ?n) [i..<i + Suc k]) =
       find (\<lambda>j. lvls m ! j \<noteq> []) (map (\<lambda>i. (nat l + i) mod ?n) [Suc i..<Suc i + k])"
      using Nil items unfolding upt by (simp add: j_def)
    then show ?thesis using Suc.IH [of "Suc i" NULL] unfolding step by (simp cong: option.case_cong)
  next
    case (Cons x xs)
    obtain q' where q': "queue_dequeue (Some q) = Inr (0, x, Some q')" "queue_inv q'" "q_items q' = xs"
      using q(2) Cons by (rule dequeue_items)
    have "mlq_dequeue_loop (Suc k) m l (int i) item = Inr (0, x, Some (m\<lparr>level_queues := (level_queues m)[j := Some q']\<rparr>))"
      using ix gets q' by simp
    moreover have "find (\<lambda>j. lvls m ! j \<noteq> []) (map (\<lambda>i. (nat l + i) mod ?n) [i..<i + Suc k]) = Some j"
      using Cons items unfolding upt by (simp add: j_def)
    ultimately show ?thesis using q' Cons items mlq_inv_update [OF assms(1) q'(2), of j]
      by (simp add: lvls_update)
  qed
qed

lemma mlq_dequeue_some:
  assumes "mlq_inv m" "0 \<le> l" "l < n_levels m" "circular (lvls m) (nat l) = Some j" "lvls m ! j = x # xs"
  shows "\<exists>m'. multilevel_queue_dequeue (Some m) l item = Inr (0, x, Some m') \<and> mlq_inv m' \<and>
    n_levels m' = n_levels m \<and> lvls m' = (lvls m)[j := xs]"
proof -
  have "find (\<lambda>j. lvls m ! j \<noteq> []) (map (\<lambda>i. (nat l + i) mod length (lvls m)) [0..<0 + length (lvls m)]) = Some j"
    using assms(4) by (simp add: circular_def)
  with mlq_dequeue_loop_ok [OF assms(1,2), where i = 0 and k = "length (lvls m)" and item = item]
  have "\<exists>m'. mlq_dequeue_loop (length (lvls m)) m l (int 0) item = Inr (0, hd (lvls m ! j), Some m') \<and>
     mlq_inv m' \<and> n_levels m' = n_levels m \<and> lvls m' = (lvls m)[j := tl (lvls m ! j)]"
    by (simp only: option.case)
  moreover have "nat (n_levels m) = length (lvls m)" using assms(1) by (simp add: mlq_inv_def)
  ultimately show ?thesis using assms(3,5) by simp
qed

lemma mlq_dequeue_none:
  assumes "mlq_inv m" "0 \<le> l" "l < n_levels m" "circular (lvls m) (nat l) = None"
  shows "multilevel_queue_dequeue (Some m) l item = Inr (-1, NULL, Some m)"
proof -
  have "find (\<lambda>j. lvls m ! j \<noteq> []) (map (\<lambda>i. (nat l + i) mod length (lvls m)) [0..<0 + length (lvls m)]) = None"
    using assms(4) by (simp add: circular_def)
  with mlq_dequeue_loop_ok [OF assms(1,2), where i = 0 and k = "length (lvls m)" and item = item]
  have "mlq_dequeue_loop (length (lvls m)) m l (int 0) item =
      Inr (-1, if length (lvls m) = 0 then item else NULL, Some m)"
    by (simp only: option.case)
  moreover have "nat (n_levels m) = length (lvls m)" "length (lvls m) \<noteq> 0" using assms(1) by (auto simp: mlq_inv_def)
  ultimately show ?thesis using assms(3) by simp
qed

lemma mlq_empty_loop_ok:
  "list_all oq_inv qs \<Longrightarrow> mlq_empty_loop qs = Inr (if concat (map oq_items qs) = [] then 1 else 0)"
proof (induction qs)
  case Nil
  then show ?case by simp
next
  case (Cons q qs)
  then show ?case by (cases q) (auto simp: qcount_items)
qed

lemma mlq_is_empty_ok:
  "mlq_inv m \<Longrightarrow> multilevel_queue_is_empty (Some m) = Inr (if concat (lvls m) = [] then 1 else 0)"
  by (simp add: mlq_inv_def lvls_def mlq_empty_loop_ok)

section \<open>The ready queue the scheduler relies on\<close>

text \<open>
  The scheduler's interface: levels of items, an enqueue at a level and a dequeue that searches
  from a level. What the scheduler needs of it is that threads are neither lost nor duplicated and
  that the level a thread comes from is the first one with a thread.
\<close>

locale ready_queue =
  fixes inv :: "'m \<Rightarrow> bool"
    and lv :: "'m \<Rightarrow> ptr list list"
    and enq :: "'m \<Rightarrow> int \<Rightarrow> ptr \<Rightarrow> (int \<times> 'm) res"
    and deq :: "'m \<Rightarrow> int \<Rightarrow> ptr \<Rightarrow> (int \<times> ptr \<times> 'm) res"
  assumes enq_ok: "inv m \<Longrightarrow> l < length (lv m) \<Longrightarrow>
        \<exists>m'. enq m (int l) x = Inr (0, m') \<and> inv m' \<and> lv m' = (lv m)[l := lv m ! l @ [x]]"
    and deq_some: "inv m \<Longrightarrow> l < length (lv m) \<Longrightarrow> circular (lv m) l = Some j \<Longrightarrow> lv m ! j = x # xs \<Longrightarrow>
        \<exists>m'. deq m (int l) i = Inr (0, x, m') \<and> inv m' \<and> lv m' = (lv m)[j := xs]"
    and deq_none: "inv m \<Longrightarrow> l < length (lv m) \<Longrightarrow> circular (lv m) l = None \<Longrightarrow>
        deq m (int l) i = Inr (-1, NULL, m)"
begin

lemma enq_returns:
  assumes "inv m" "l < length (lv m)"
  obtains m' where "enq m (int l) x = Inr (0, m')" "inv m'" "lv m' = (lv m)[l := lv m ! l @ [x]]"
    "mset (concat (lv m')) = add_mset x (mset (concat (lv m)))" "length (lv m') = length (lv m)"
proof -
  obtain m' where m': "enq m (int l) x = Inr (0, m')" "inv m'" "lv m' = (lv m)[l := lv m ! l @ [x]]"
    using enq_ok [OF assms] by blast
  have s: "lv m = take l (lv m) @ lv m ! l # drop (Suc l) (lv m)" using assms(2) by (rule id_take_nth_drop)
  have "mset (concat (lv m')) = add_mset x (mset (concat (take l (lv m) @ lv m ! l # drop (Suc l) (lv m))))"
    using assms(2) by (simp add: m'(3) upd_conv_take_nth_drop)
  then have "mset (concat (lv m')) = add_mset x (mset (concat (lv m)))"
    by (simp only: s [symmetric])
  with that m' show thesis by simp
qed

lemma deq_returns:
  assumes "inv m" "l < length (lv m)"
  obtains (some) j x xs m' where "circular (lv m) l = Some j" "j < length (lv m)" "lv m ! j = x # xs"
      "deq m (int l) i = Inr (0, x, m')" "inv m'" "lv m' = (lv m)[j := xs]"
      "mset (concat (lv m)) = add_mset x (mset (concat (lv m')))" "length (lv m') = length (lv m)"
  | (none) "concat (lv m) = []" "deq m (int l) i = Inr (-1, NULL, m)"
proof (cases "circular (lv m) l")
  case None
  then show thesis using none deq_none [OF assms] circular_total [of "lv m" l] by blast
next
  case (Some j)
  then have j: "j < length (lv m)" "lv m ! j \<noteq> []" by (auto dest: circular_find)
  then obtain x xs where x: "lv m ! j = x # xs" by (cases "lv m ! j") auto
  obtain m' where m': "deq m (int l) i = Inr (0, x, m')" "inv m'" "lv m' = (lv m)[j := xs]"
    using deq_some [OF assms Some x] by blast
  have s: "lv m = take j (lv m) @ (x # xs) # drop (Suc j) (lv m)" using id_take_nth_drop [OF j(1)] x by simp
  have "mset (concat (lv m)) = mset (concat (take j (lv m) @ (x # xs) # drop (Suc j) (lv m)))"
    using s by simp
  then have "mset (concat (lv m)) = add_mset x (mset (concat (lv m')))"
    using j(1) by (simp add: m'(3) upd_conv_take_nth_drop)
  with some Some j(1) x m' show thesis by simp
qed

end

fun om_inv :: "mlq option \<Rightarrow> bool" where
  "om_inv None = False"
| "om_inv (Some m) = mlq_inv m"

fun om_lvls :: "mlq option \<Rightarrow> ptr list list" where
  "om_lvls None = []"
| "om_lvls (Some m) = lvls m"

lemma om_invE: assumes "om_inv mo" obtains m where "mo = Some m" "mlq_inv m"
  using assms by (cases mo) auto

interpretation rq: ready_queue om_inv om_lvls multilevel_queue_enqueue multilevel_queue_dequeue
proof
  fix mo l x assume "om_inv mo" "l < length (om_lvls mo)"
  then obtain m where m: "mo = Some m" "mlq_inv m" "int l < n_levels m"
    using mlq_inv_length by (auto elim: om_invE)
  from mlq_enqueue_ok [OF m(2) _ m(3)] m(1)
  show "\<exists>m'. multilevel_queue_enqueue mo (int l) x = Inr (0, m') \<and> om_inv m' \<and>
      om_lvls m' = (om_lvls mo)[l := om_lvls mo ! l @ [x]]"
    by (metis of_nat_0_le_iff nat_int om_inv.simps(2) om_lvls.simps(2))
next
  fix mo l j x xs i
  assume *: "om_inv mo" "l < length (om_lvls mo)" "circular (om_lvls mo) l = Some j" "om_lvls mo ! j = x # xs"
  then obtain m where m: "mo = Some m" "mlq_inv m" "int l < n_levels m"
    using mlq_inv_length by (auto elim: om_invE)
  from mlq_dequeue_some [OF m(2) _ m(3), of j x xs i] m(1) *(3,4)
  show "\<exists>m'. multilevel_queue_dequeue mo (int l) i = Inr (0, x, m') \<and> om_inv m' \<and>
      om_lvls m' = (om_lvls mo)[j := xs]"
    by (metis of_nat_0_le_iff nat_int om_inv.simps(2) om_lvls.simps(2))
next
  fix mo l i
  assume *: "om_inv mo" "l < length (om_lvls mo)" "circular (om_lvls mo) l = None"
  then obtain m where m: "mo = Some m" "mlq_inv m" "int l < n_levels m"
    using mlq_inv_length by (auto elim: om_invE)
  from mlq_dequeue_none [OF m(2) _ m(3), of i] m(1) *(3)
  show "multilevel_queue_dequeue mo (int l) i = Inr (-1, NULL, mo)" by simp
qed

section \<open>Properties\<close>


text \<open>
  The level check of the enqueue is off by one: the level just past the last one is let
  through and indexes the array of queues out of bounds.
\<close>

theorem mlq_enqueue_level_unchecked:
  assumes "mlq_inv m"
  shows "multilevel_queue_enqueue (Some m) (n_levels m) x = Inl Out_of_bounds"
  using assms by (simp add: mlq_inv_def aget_def)

text \<open>Two levels, the first one empty.\<close>

definition mlq2 :: mlq where
  "mlq2 = \<lparr>level_queues = [Some queue_new, Some \<lparr>front = 1, rear = 1, qcount = 1,
     cells = [1 \<mapsto> \<lparr>data = 7, priority = 0, nxt = NULL\<rparr>], brk = 2\<rparr>], n_levels = 2\<rparr>"

lemma mlq2_inv: "mlq_inv mlq2" "lvls mlq2 = [[], [7]]"
  by (simp_all add: mlq2_def mlq_inv_def lvls_def queue_new_def queue_inv_def q_items_def q_entries_def q_nodes_def queue_rep_def entry_def
      numeral_2_eq_2)


theorem mlq_enqueue_level_unchecked_witness: "multilevel_queue_enqueue (Some mlq2) 2 5 = Inl Out_of_bounds"
  using mlq_enqueue_level_unchecked [OF mlq2_inv(1), of 5] by (simp add: mlq2_def)

end
