(* ===== verification/Alarm.thy ===== *)
theory Alarm
  imports Queue
begin

text \<open>
  \<^verbatim>\<open>src/P1-P4/alarm.c\<close> with the interrupt level of \<^verbatim>\<open>src/P1-P4/interrupts.c\<close> and the alarm loop of
  \<open>clock_handler\<close> in \<^verbatim>\<open>src/P1-P4/minithread.c\<close>. Alarms are structures in a store, queued by their end
  time counted in clock interrupts. A handler is one of the functions the program registers; running
  it is left to the caller, which passes the code the function pointers stand for.
\<close>

section \<open>State\<close>

record machine =
  interrupt_level :: int

abbreviation (input) DISABLED :: int where "DISABLED \<equiv> 0"
abbreviation (input) ENABLED :: int where "ENABLED \<equiv> 1"

definition set_interrupt_level :: "int \<Rightarrow> 'z machine_scheme \<Rightarrow> int \<times> 'z machine_scheme" where
  "set_interrupt_level newlevel s = (interrupt_level s, s\<lparr>interrupt_level := newlevel\<rparr>)"

datatype alarm_handler = Alarm_call_back | Semaphore_V | Minisocket_close

record alarm =
  a_end :: int
  call_back :: alarm_handler
  arg :: ptr

record alarm_state = machine +
  nInterrupts :: int
  alarm_queue :: "queue option"
  alarms :: "ptr \<Rightarrow> alarm option"
  alarm_brk :: ptr

definition PERIOD :: int where "PERIOD = 100"

section \<open>Operations\<close>

definition alarm_system_initialize :: "'z alarm_state_scheme \<Rightarrow> 'z alarm_state_scheme" where
  "alarm_system_initialize s = s\<lparr>alarm_queue := Some queue_new\<rparr>"

definition delay_ticks :: "int \<Rightarrow> int" where
  "delay_ticks delay = (let del = cdiv delay PERIOD in if cmod delay PERIOD \<noteq> 0 then del + 1 else del)"

definition register_alarm ::
  "bool \<Rightarrow> int \<Rightarrow> alarm_handler \<Rightarrow> ptr \<Rightarrow> 'z alarm_state_scheme \<Rightarrow> (ptr \<times> 'z alarm_state_scheme) res" where
  "register_alarm malloc_ok delay h p s =
     (if \<not> malloc_ok then Inr (NULL, s)
      else
       (let a = alarm_brk s;
            al = \<lparr>a_end = nInterrupts s + delay_ticks delay, call_back = h, arg = p\<rparr>;
            s1 = s\<lparr>alarms := (alarms s)(a \<mapsto> al), alarm_brk := Suc a\<rparr>;
            (old_level, s2) = set_interrupt_level DISABLED s1
        in bindR (queue_insert_sorted (alarm_queue s2) a (a_end al)) (\<lambda>(r, q).
             Inr (a, snd (set_interrupt_level old_level (s2\<lparr>alarm_queue := q\<rparr>))))))"

definition deregister_alarm :: "ptr \<Rightarrow> 'z alarm_state_scheme \<Rightarrow> (int \<times> 'z alarm_state_scheme) res" where
  "deregister_alarm a s = assertR (a \<noteq> NULL)
     (bindR (deref (alarms s) a) (\<lambda>al.
        let (old_level, s1) = set_interrupt_level DISABLED s in
        bindR (queue_delete (alarm_queue s1) a) (\<lambda>(r, q).
          let (_, s2) = set_interrupt_level old_level (s1\<lparr>alarm_queue := q\<rparr>);
              s3 = s2\<lparr>alarms := (alarms s2)(a := None)\<rparr>
          in Inr (if a_end al \<le> nInterrupts s then 1 else 0, s3))))"

definition get_next_alarm :: "'z alarm_state_scheme \<Rightarrow> (ptr \<times> 'z alarm_state_scheme) res" where
  "get_next_alarm s =
     (let (old_level, s1) = set_interrupt_level DISABLED s in
      bindR (queue_front (alarm_queue s1)) (\<lambda>next_al.
        let (_, s2) = set_interrupt_level old_level s1 in
        if next_al = NULL then Inr (NULL, s2)
        else bindR (deref (alarms s2) next_al) (\<lambda>al.
               Inr (if a_end al = nInterrupts s2 then next_al else NULL, s2))))"

definition get_new_alarm_handler :: alarm_handler where
  "get_new_alarm_handler = Alarm_call_back"

definition call_handler ::
  "(alarm_handler \<Rightarrow> ptr \<Rightarrow> 'z alarm_state_scheme \<Rightarrow> 'z alarm_state_scheme res) \<Rightarrow>
     ptr \<Rightarrow> 'z alarm_state_scheme \<Rightarrow> 'z alarm_state_scheme res" where
  "call_handler invoke a s = assertR (a \<noteq> NULL)
     (bindR (deref (alarms s) a) (\<lambda>al. invoke (call_back al) (arg al) s))"

text \<open>
  The loop of \<open>clock_handler\<close>: run the handler of the next due alarm, deregister it, look for the
  next. The fuel counts the turns; \<open>fire_alarms_ok\<close> below shows that one more than the number of
  queued alarms is enough.
\<close>

fun fire_alarms ::
  "(alarm_handler \<Rightarrow> ptr \<Rightarrow> 'z alarm_state_scheme \<Rightarrow> 'z alarm_state_scheme res) \<Rightarrow> nat \<Rightarrow>
     ptr \<Rightarrow> 'z alarm_state_scheme \<Rightarrow> 'z alarm_state_scheme res" where
  "fire_alarms invoke 0 next_al s = Inl Diverges"
| "fire_alarms invoke (Suc k) next_al s =
     (if next_al = NULL then Inr s
      else bindR (call_handler invoke next_al s) (\<lambda>s1.
           bindR (deregister_alarm next_al s1) (\<lambda>(r, s2).
           bindR (get_next_alarm s2) (\<lambda>(n, s3). fire_alarms invoke k n s3))))"

section \<open>Invariant\<close>

text \<open>The pending alarms in queue order, each with its end time.\<close>

definition pending :: "'z alarm_state_scheme \<Rightarrow> (ptr \<times> int) list" where
  "pending s = oq_entries (alarm_queue s)"

definition alarm_inv :: "'z alarm_state_scheme \<Rightarrow> bool" where
  "alarm_inv s \<longleftrightarrow> oq_inv (alarm_queue s) \<and> sorted (map snd (pending s)) \<and> distinct (map fst (pending s)) \<and>
     dom (alarms s) = fst ` set (pending s) \<and>
     (\<forall>(a, e)\<in>set (pending s). 0 < a \<and> a < alarm_brk s \<and> map_option a_end (alarms s a) = Some e) \<and>
     0 < alarm_brk s"

text \<open>All pending alarms lie in the future.\<close>

definition live :: "'z alarm_state_scheme \<Rightarrow> bool" where
  "live s \<longleftrightarrow> (\<forall>(a, e)\<in>set (pending s). nInterrupts s < e)"

lemma delay_ticks_pos: "0 < delay \<Longrightarrow> 0 < delay_ticks delay"
  by (cases "delay mod 100 = 0") (auto simp: delay_ticks_def PERIOD_def Let_def)

text \<open>The delay is rounded up: the alarm ends no earlier than asked for, by less than one period.\<close>

lemma delay_ticks_ceiling:
  assumes "0 \<le> delay"
  shows "delay \<le> delay_ticks delay * PERIOD \<and> delay_ticks delay * PERIOD < delay + PERIOD"
proof (cases "delay mod 100 = 0")
  case True
  then show ?thesis using assms by (auto simp: delay_ticks_def PERIOD_def Let_def)
next
  case False
  then have "delay_ticks delay = delay div 100 + 1" using assms by (simp add: delay_ticks_def PERIOD_def Let_def)
  with False show ?thesis unfolding PERIOD_def by presburger
qed

lemma alarm_inv_queue: "alarm_inv s \<Longrightarrow> \<exists>q. alarm_queue s = Some q \<and> queue_inv q \<and> q_entries q = pending s"
  by (auto simp: alarm_inv_def pending_def elim: oq_invE)

lemma alarm_inv_cong:
  "alarm_queue s' = alarm_queue s \<Longrightarrow> alarms s' = alarms s \<Longrightarrow> alarm_brk s' = alarm_brk s \<Longrightarrow>
   alarm_inv s' = alarm_inv s"
  by (simp add: alarm_inv_def pending_def)

lemma alarm_init_inv:
  "alarms s = Map.empty \<Longrightarrow> 0 < alarm_brk s \<Longrightarrow> alarm_inv (alarm_system_initialize s)"
  by (simp add: alarm_inv_def pending_def alarm_system_initialize_def)

section \<open>Registration\<close>

lemma register_alarm_ok:
  assumes "alarm_inv s"
  shows "\<exists>s'. register_alarm True delay h p s = Inr (alarm_brk s, s') \<and> alarm_inv s' \<and>
    pending s' = place (alarm_brk s) (nInterrupts s + delay_ticks delay) (pending s) \<and>
    alarms s' = (alarms s)(alarm_brk s \<mapsto> \<lparr>a_end = nInterrupts s + delay_ticks delay, call_back = h, arg = p\<rparr>) \<and>
    (\<exists>q. s' = s\<lparr>alarm_queue := q, alarms := alarms s', alarm_brk := Suc (alarm_brk s)\<rparr>)"
proof -
  define e where "e = nInterrupts s + delay_ticks delay"
  define a where "a = alarm_brk s"
  obtain q where q: "alarm_queue s = Some q" "queue_inv q" "q_entries q = pending s"
    using alarm_inv_queue [OF assms] by blast
  have a: "a \<noteq> NULL" "a \<notin> fst ` set (pending s)"
    using assms by (auto simp: alarm_inv_def a_def)
  then have "alarms s a = None" using assms by (metis alarm_inv_def domIff)
  obtain q' where q': "queue_insert_sorted (Some q) a e = Inr (0, Some q')" "queue_inv q'"
    "q_entries q' = place a e (q_entries q)"
    using insert_sorted_refines [OF q(2) a(1)] by blast
  define s' where "s' = s\<lparr>alarm_queue := Some q',
    alarms := (alarms s)(a \<mapsto> \<lparr>a_end = e, call_back = h, arg = p\<rparr>), alarm_brk := Suc a\<rparr>"
  have run: "register_alarm True delay h p s = Inr (a, s')"
    using q' q(1) unfolding register_alarm_def s'_def set_interrupt_level_def Let_def e_def a_def
    by (simp del: queue_insert_sorted.simps)
  have pend: "pending s' = place a e (pending s)"
    using q' q(3) by (simp add: pending_def s'_def)
  have "mset (map fst (pending s')) = add_mset a (mset (map fst (pending s)))"
    by (simp add: pend)
  then have "distinct (map fst (pending s'))"
    using assms a(2) by (metis alarm_inv_def distinct.simps(2) list.set_map mset.simps(2) mset_eq_imp_distinct_iff)
  then have "alarm_inv s'"
    using assms a pend q' by (auto simp: alarm_inv_def s'_def sorted_place a_def less_SucI split: if_splits)
  with run pend show ?thesis by (auto simp: s'_def a_def e_def)
qed

lemma register_alarm_live:
  assumes "alarm_inv s" "live s" "0 < delay" "register_alarm True delay h p s = Inr (a, s')"
  shows "live s'"
  using register_alarm_ok [OF assms(1), of delay h p] assms delay_ticks_pos [OF assms(3)]
  by (auto simp: live_def)

section \<open>The next alarm and its removal\<close>

lemma get_next_alarm_ok:
  assumes "alarm_inv s"
  shows "get_next_alarm s = Inr (case pending s of [] \<Rightarrow> NULL | (a, e) # _ \<Rightarrow> if e = nInterrupts s then a else NULL, s)"
proof -
  obtain q where q: "alarm_queue s = Some q" "queue_inv q" "q_entries q = pending s"
    using alarm_inv_queue [OF assms] by blast
  have len: "qcount q = int (length (pending s))" using qcount_items [OF q(2)] q(3) by (simp add: q_items_def)
  show ?thesis
  proof (cases "pending s")
    case Nil
    then show ?thesis using q(1) len by (simp add: get_next_alarm_def set_interrupt_level_def)
  next
    case (Cons ae es)
    obtain a e where ae: "ae = (a, e)" by (cases ae)
    obtain al where al: "alarms s a = Some al" "a_end al = e" "a \<noteq> NULL"
      using assms Cons ae by (auto simp: alarm_inv_def)
    obtain n ns where ns: "q_nodes q = n # ns" using q(3) Cons by (cases "q_nodes q") (auto simp: q_entries_def)
    then obtain c where c: "cells q n = Some c" "front q = n" "n \<noteq> NULL"
      using queue_inv_rep [OF q(2)] by (auto simp: queue_rep_def)
    have "data c = a" using q(3) Cons ae ns c(1) by (simp add: q_entries_def entry_def)
    then show ?thesis using q(1) len Cons ae al c
      by (simp add: get_next_alarm_def set_interrupt_level_def deref_def)
  qed
qed

lemma deregister_first_ok:
  assumes "alarm_inv s" "pending s = (a, e) # es"
  shows "\<exists>s' q. deregister_alarm a s = Inr (if e \<le> nInterrupts s then 1 else 0, s') \<and> alarm_inv s' \<and>
    pending s' = es \<and> alarms s' = (alarms s)(a := None) \<and>
    s' = s\<lparr>alarm_queue := Some q, alarms := (alarms s)(a := None)\<rparr>"
proof -
  obtain q where q: "alarm_queue s = Some q" "queue_inv q" "q_entries q = (a, e) # es"
    using alarm_inv_queue [OF assms(1)] assms(2) by auto
  obtain al where al: "alarms s a = Some al" "a_end al = e" "a \<noteq> NULL"
    using assms by (auto simp: alarm_inv_def)
  obtain q' where q': "queue_delete (Some q) a = Inr (0, Some q')" "queue_inv q'" "q_entries q' = es"
    using delete_first_refines [OF q(2) al(3) q(3)] by blast
  define s' where "s' = s\<lparr>alarm_queue := Some q', alarms := (alarms s)(a := None)\<rparr>"
  have run: "deregister_alarm a s = Inr (if e \<le> nInterrupts s then 1 else 0, s')"
    using q(1) q'(1) al by (simp add: deregister_alarm_def deref_def set_interrupt_level_def s'_def del: queue_delete.simps)
  have pend: "pending s' = es" by (simp add: pending_def s'_def q')
  have d: "distinct (map fst ((a, e) # es))" "sorted (map snd ((a, e) # es))"
    "dom (alarms s) = insert a (fst ` set es)"
    using assms by (simp_all add: alarm_inv_def)
  have "fst x \<noteq> a" if "x \<in> set es" for x using d(1) that by force
  moreover have "dom (alarms s') = fst ` set es"
    using d(1,3) by (auto simp: s'_def)
  ultimately have "alarm_inv s'"
    using assms d q'(2) by (auto simp: alarm_inv_def pend) (auto simp: s'_def)
  with run pend show ?thesis by (auto simp: s'_def)
qed

section \<open>One clock tick\<close>

text \<open>
  What the code behind the handlers owes to the alarm loop: run on the first pending alarm it
  returns, leaves the alarm structures alone, and re-establishes the client's invariant once that
  alarm is removed.
\<close>

locale alarm_client =
  fixes invoke :: "alarm_handler \<Rightarrow> ptr \<Rightarrow> 'z alarm_state_scheme \<Rightarrow> 'z alarm_state_scheme res"
    and good :: "'z alarm_state_scheme \<Rightarrow> bool"
  assumes handler_ok: "good s \<Longrightarrow> alarm_inv s \<Longrightarrow> pending s = (a, e) # es \<Longrightarrow> alarms s a = Some al \<Longrightarrow>
      \<exists>s'. invoke (call_back al) (arg al) s = Inr s' \<and> alarm_queue s' = alarm_queue s \<and>
        alarms s' = alarms s \<and> alarm_brk s' = alarm_brk s \<and> nInterrupts s' = nInterrupts s \<and>
        (\<forall>q. queue_inv q \<and> q_entries q = es \<longrightarrow>
           good (s'\<lparr>alarm_queue := Some q, alarms := (alarms s)(a := None)\<rparr>))"
begin

lemma fire_one:
  assumes "good s" "alarm_inv s" "pending s = (a, e) # es"
  shows "\<exists>s1 s2. call_handler invoke a s = Inr s1 \<and> deregister_alarm a s1 = Inr (if e \<le> nInterrupts s then 1 else 0, s2) \<and>
    good s2 \<and> alarm_inv s2 \<and> pending s2 = es \<and> nInterrupts s2 = nInterrupts s \<and> alarms s2 = (alarms s)(a := None)"
proof -
  obtain al where al: "alarms s a = Some al" "a \<noteq> NULL"
    using assms(2,3) by (auto simp: alarm_inv_def)
  obtain s1 where s1: "invoke (call_back al) (arg al) s = Inr s1" "alarm_queue s1 = alarm_queue s"
    "alarms s1 = alarms s" "alarm_brk s1 = alarm_brk s" "nInterrupts s1 = nInterrupts s"
    "\<And>q. queue_inv q \<Longrightarrow> q_entries q = es \<Longrightarrow> good (s1\<lparr>alarm_queue := Some q, alarms := (alarms s)(a := None)\<rparr>)"
    using handler_ok [OF assms al(1)] by blast
  have run: "call_handler invoke a s = Inr s1"
    using al s1(1) by (simp add: call_handler_def deref_def)
  have "alarm_inv s1" "pending s1 = (a, e) # es"
    using assms(2,3) s1(2-4) by (simp_all add: alarm_inv_cong [of s1 s] pending_def)
  from deregister_first_ok [OF this] obtain s2 q where s2:
    "deregister_alarm a s1 = Inr (if e \<le> nInterrupts s1 then 1 else 0, s2)" "alarm_inv s2" "pending s2 = es"
    "s2 = s1\<lparr>alarm_queue := Some q, alarms := (alarms s1)(a := None)\<rparr>" by blast
  then have "queue_inv q \<and> q_entries q = es" using alarm_inv_queue [OF s2(2)] by simp
  then have "good s2" using s1(6) s1(3) s2(4) by simp
  with run s2 s1(3,5) show ?thesis by auto
qed

text \<open>The loop fires the due alarms at the head of the queue, in order, and stops at the first other one.\<close>

lemma fire_alarms_ok:
  "good s \<Longrightarrow> alarm_inv s \<Longrightarrow> length (pending s) < k \<Longrightarrow>
   \<exists>s'. bindR (get_next_alarm s) (\<lambda>(n, s1). fire_alarms invoke k n s1) = Inr s' \<and> good s' \<and> alarm_inv s' \<and>
     nInterrupts s' = nInterrupts s \<and> pending s' = dropWhile (\<lambda>x. snd x = nInterrupts s) (pending s) \<and>
     alarms s' \<subseteq>\<^sub>m alarms s"
proof (induction k arbitrary: s)
  case 0
  then show ?case by simp
next
  case (Suc k)
  show ?case
  proof (cases "\<exists>a es. pending s = (a, nInterrupts s) # es")
    case False
    then have "get_next_alarm s = Inr (NULL, s)"
      using get_next_alarm_ok [OF Suc.prems(2)] by (auto split: list.splits)
    moreover have "dropWhile (\<lambda>x. snd x = nInterrupts s) (pending s) = pending s"
      using False by (cases "pending s") auto
    ultimately show ?thesis using Suc.prems by simp
  next
    case True
    then obtain a es where p: "pending s = (a, nInterrupts s) # es" by blast
    have a: "a \<noteq> NULL" using Suc.prems(2) p by (auto simp: alarm_inv_def)
    have nxt: "get_next_alarm s = Inr (a, s)" using get_next_alarm_ok [OF Suc.prems(2)] p by simp
    obtain s1 s2 where s2: "call_handler invoke a s = Inr s1" "deregister_alarm a s1 = Inr (1, s2)"
      "good s2" "alarm_inv s2" "pending s2 = es" "nInterrupts s2 = nInterrupts s" "alarms s2 \<subseteq>\<^sub>m alarms s"
      using fire_one [OF Suc.prems(1,2) p] by (auto simp: map_le_def)
    have "length (pending s2) < k" using Suc.prems(3) p s2(5) by simp
    from Suc.IH [OF s2(3,4) this] s2 nxt p a map_le_trans [OF _ s2(7)] show ?thesis by auto
  qed
qed

end

lemma sorted_due_prefix:
  "sorted (map snd es) \<Longrightarrow> \<forall>x\<in>set es. now \<le> snd x \<Longrightarrow>
   dropWhile (\<lambda>x. snd x = now) es = filter (\<lambda>x. now < snd x) (es :: ('a \<times> int) list)"
proof (induction es)
  case Nil
  then show ?case by simp
next
  case (Cons x es)
  show ?case
  proof (cases "snd x = now")
    case True
    with Cons show ?thesis by auto
  next
    case False
    then have "\<forall>y\<in>set (x # es). now < snd y" using Cons.prems by fastforce
    then have "filter (\<lambda>x. now < snd x) (x # es) = x # es" by (simp add: filter_True)
    with False show ?thesis by simp
  qed
qed

text \<open>
  An alarm whose end has passed stays at the head: \<open>get_next_alarm\<close> compares with \<open>==\<close>, so neither
  it nor any alarm behind it is found at any later interrupt.
\<close>

lemma missed_alarm_blocks:
  assumes "alarm_inv s" "pending s = (a, e) # es" "e < nInterrupts s"
  shows "get_next_alarm s = Inr (NULL, s)"
  using get_next_alarm_ok [OF assms(1)] assms(2,3) by simp

section \<open>Properties\<close>

text \<open>
  C39: an alarm set for a positive delay ends at the first clock interrupt that is no earlier than
  the delay, and is queued behind the alarms that end no later; the queue stays sorted.
\<close>

theorem register_alarm_rounds_up:
  assumes "alarm_inv s" "0 < delay"
  shows "\<exists>a s' e. register_alarm True delay h p s = Inr (a, s') \<and> alarm_inv s' \<and> a \<noteq> NULL \<and>
    alarms s' a = Some \<lparr>a_end = e, call_back = h, arg = p\<rparr> \<and>
    delay \<le> (e - nInterrupts s) * PERIOD \<and> (e - nInterrupts s) * PERIOD < delay + PERIOD \<and>
    pending s' = takeWhile (\<lambda>x. snd x \<le> e) (pending s) @ (a, e) # dropWhile (\<lambda>x. snd x \<le> e) (pending s) \<and>
    sorted (map snd (pending s'))"
proof -
  obtain s' where s': "register_alarm True delay h p s = Inr (alarm_brk s, s')" "alarm_inv s'"
    "pending s' = place (alarm_brk s) (nInterrupts s + delay_ticks delay) (pending s)"
    "alarms s' = (alarms s)(alarm_brk s \<mapsto> \<lparr>a_end = nInterrupts s + delay_ticks delay, call_back = h, arg = p\<rparr>)"
    using register_alarm_ok [OF assms(1), of delay h p] by blast
  moreover have "alarm_brk s \<noteq> NULL" "sorted (map snd (pending s'))" using assms(1) s'(2) by (simp_all add: alarm_inv_def)
  ultimately show ?thesis using delay_ticks_ceiling [of delay] assms(2)
    by (intro exI [of _ "alarm_brk s"] exI [of _ s'] exI [of _ "nInterrupts s + delay_ticks delay"]) (simp add: place_def)
qed

text \<open>
  An alarm with delay 0 ends at the interrupt that is already over: no later clock interrupt
  finds it, and because it stays at the head of the queue, none finds any of the alarms behind it either.
\<close>

theorem zero_delay_blocks_alarms:
  assumes "alarm_inv s" "live s" "0 < n"
  shows "\<exists>a s'. register_alarm True 0 h p s = Inr (a, s') \<and> a \<noteq> NULL \<and> pending s' = (a, nInterrupts s) # pending s \<and>
    get_next_alarm (s'\<lparr>nInterrupts := nInterrupts s + n\<rparr>) = Inr (NULL, s'\<lparr>nInterrupts := nInterrupts s + n\<rparr>)"
proof -
  have d: "delay_ticks 0 = 0" by (simp add: delay_ticks_def PERIOD_def)
  obtain s' where s': "register_alarm True 0 h p s = Inr (alarm_brk s, s')" "alarm_inv s'"
    "pending s' = place (alarm_brk s) (nInterrupts s) (pending s)"
    using register_alarm_ok [OF assms(1), of 0 h p] by (auto simp: d)
  have p: "pending s' = (alarm_brk s, nInterrupts s) # pending s"
    using assms(2) unfolding s'(3) by (cases "pending s") (auto simp: place_def live_def)
  have "alarm_inv (s'\<lparr>nInterrupts := nInterrupts s + n\<rparr>)" using s'(2) alarm_inv_cong [of "s'\<lparr>nInterrupts := nInterrupts s + n\<rparr>" s'] by simp
  moreover have "pending (s'\<lparr>nInterrupts := nInterrupts s + n\<rparr>) = (alarm_brk s, nInterrupts s) # pending s"
    using p by (simp add: pending_def)
  ultimately have "get_next_alarm (s'\<lparr>nInterrupts := nInterrupts s + n\<rparr>) = Inr (NULL, s'\<lparr>nInterrupts := nInterrupts s + n\<rparr>)"
    by (rule missed_alarm_blocks) (use assms(3) in simp)
  moreover have "alarm_brk s \<noteq> NULL" using assms(1) by (simp add: alarm_inv_def)
  ultimately show ?thesis using s'(1) p by blast
qed

text \<open>
  Deregistering the first alarm removes and frees it; a second call with the same alarm, as a
  caller makes whose alarm has fired in the meantime, reads the freed structure.
\<close>

theorem deregister_twice_faults:
  assumes "alarm_inv s" "pending s = (a, e) # es"
  shows "\<exists>r s'. deregister_alarm a s = Inr (r, s') \<and> (r = 1 \<longleftrightarrow> e \<le> nInterrupts s) \<and> alarm_inv s' \<and> pending s' = es \<and>
    deregister_alarm a s' = Inl Use_after_free"
proof -
  obtain s' where s': "deregister_alarm a s = Inr (if e \<le> nInterrupts s then 1 else 0, s')" "alarm_inv s'"
    "pending s' = es" "alarms s' = (alarms s)(a := None)"
    using deregister_first_ok [OF assms] by blast
  have "a \<noteq> NULL" using assms by (auto simp: alarm_inv_def)
  then have "deregister_alarm a s' = Inl Use_after_free" by (simp add: deregister_alarm_def s'(4) deref_None)
  with s' show ?thesis by (intro exI [of _ "if e \<le> nInterrupts s then 1 else 0"] exI [of _ s']) simp
qed

section \<open>Witnesses\<close>

text \<open>Five clock interrupts after the start, with no alarm and with one.\<close>

definition idle_alarms :: alarm_state where
  "idle_alarms = \<lparr>interrupt_level = ENABLED, nInterrupts = 5, alarm_queue = Some queue_new, alarms = Map.empty, alarm_brk = 1\<rparr>"

definition one_alarm :: alarm_state where
  "one_alarm = \<lparr>interrupt_level = ENABLED, nInterrupts = 5, alarm_queue = Some \<lparr>front = 1, rear = 1, qcount = 1,
     cells = [1 \<mapsto> \<lparr>data = 1, priority = 8, nxt = NULL\<rparr>], brk = 2\<rparr>,
     alarms = [1 \<mapsto> \<lparr>a_end = 8, call_back = Alarm_call_back, arg = 3\<rparr>], alarm_brk = 2\<rparr>"

lemma example_alarms:
  "alarm_inv idle_alarms" "live idle_alarms" "alarm_inv one_alarm" "pending one_alarm = [(1, 8)]"
  by (simp_all add: idle_alarms_def one_alarm_def alarm_inv_def live_def pending_def queue_inv_def q_entries_def q_nodes_def
      queue_rep_def entry_def numeral_2_eq_2 queue_new_def)

theorem register_alarm_rounds_up_witness:
  "\<exists>a s' e. register_alarm True 250 Semaphore_V 4 idle_alarms = Inr (a, s') \<and>
    alarms s' a = Some \<lparr>a_end = e, call_back = Semaphore_V, arg = 4\<rparr> \<and> 250 \<le> (e - 5) * PERIOD \<and> (e - 5) * PERIOD < 350"
proof -
  have "(0 :: int) < 250" by simp
  from register_alarm_rounds_up [OF example_alarms(1) this, of Semaphore_V 4]
  obtain a s' e where "register_alarm True 250 Semaphore_V 4 idle_alarms = Inr (a, s')"
    "alarms s' a = Some \<lparr>a_end = e, call_back = Semaphore_V, arg = 4\<rparr>"
    "250 \<le> (e - nInterrupts idle_alarms) * PERIOD" "(e - nInterrupts idle_alarms) * PERIOD < 250 + PERIOD" by blast
  then show ?thesis by (intro exI [of _ a] exI [of _ s'] exI [of _ e]) (simp add: idle_alarms_def PERIOD_def)
qed

theorem zero_delay_blocks_alarms_witness:
  "\<exists>a s'. register_alarm True 0 Alarm_call_back 3 idle_alarms = Inr (a, s') \<and>
    get_next_alarm (s'\<lparr>nInterrupts := 6\<rparr>) = Inr (NULL, s'\<lparr>nInterrupts := 6\<rparr>)"
  using zero_delay_blocks_alarms [OF example_alarms(1,2), of 1 Alarm_call_back 3] by (auto simp: idle_alarms_def)

theorem deregister_twice_faults_witness:
  "\<exists>s'. deregister_alarm 1 one_alarm = Inr (0, s') \<and> pending s' = [] \<and> deregister_alarm 1 s' = Inl Use_after_free"
proof -
  have r: "fst (projr (deregister_alarm 1 one_alarm)) = 0" by code_simp
  obtain r s' where "deregister_alarm 1 one_alarm = Inr (r, s')" "pending s' = []" "deregister_alarm 1 s' = Inl Use_after_free"
    using deregister_twice_faults [OF example_alarms(3,4)] by blast
  with r show ?thesis by simp
qed

end
