(* ===== verification/Minithread.thy ===== *)
theory Minithread
  imports Multilevel_Queue Alarm
begin

text \<open>
  \<^verbatim>\<open>src/P1-P4/minithread.c\<close>: threads, the four-level round-robin scheduler and its context switch.
  A thread control block lives in a store; stacks and registers are not modelled. A function that
  switches threads ends in the state the switched-to thread finds, with \<open>Switched\<close>; the rest of the
  call (it only restores the interrupt level) runs when the thread is switched back to. A function
  that comes back to its caller ends with \<open>Returned\<close>.
\<close>

section \<open>State\<close>

abbreviation (input) MAX_LEVELS :: int where "MAX_LEVELS \<equiv> 4"

datatype status = RUNNABLE | RUNNING | WAITING | ZOMBIE

definition level_max_quanta :: "int list" where "level_max_quanta = [80, 40, 24, 16]"

definition level_quantum_value :: "int list" where "level_quantum_value = [1, 2, 4, 8]"

text \<open>\<open>t_status\<close> is \<open>None\<close> until the field is first written.\<close>

record tcb =
  t_id :: int
  t_status :: "status option"
  t_level :: int
  t_quanta :: int

record kernel = alarm_state +
  minithreads_count :: int
  tcbs :: "ptr \<Rightarrow> tcb option"
  t_brk :: ptr
  runnable_queue :: "mlq option"
  stopped_queue :: "queue option"
  running_thread :: ptr
  scheduler_thread :: ptr
  reaper_thread :: ptr
  curr_level :: int
  curr_level_quanta :: int

datatype flow = Returned | Switched

section \<open>Operations\<close>

definition minithread_create :: "bool \<Rightarrow> 'z kernel_scheme \<Rightarrow> ptr \<times> 'z kernel_scheme" where
  "minithread_create malloc_ok s =
     (if \<not> malloc_ok then (NULL, s)
      else (t_brk s, s\<lparr>tcbs := (tcbs s)(t_brk s \<mapsto>
              \<lparr>t_id = minithreads_count s, t_status = None, t_level = 0, t_quanta = 0\<rparr>),
            minithreads_count := minithreads_count s + 1, t_brk := Suc (t_brk s)\<rparr>))"

definition minithread_self :: "'z kernel_scheme \<Rightarrow> ptr" where
  "minithread_self s = running_thread s"

definition minithread_id :: "'z kernel_scheme \<Rightarrow> int res" where
  "minithread_id s = (if running_thread s \<noteq> NULL
     then bindR (deref (tcbs s) (running_thread s)) (\<lambda>t. Inr (t_id t)) else Inr 0)"

definition minithread_start :: "ptr \<Rightarrow> 'z kernel_scheme \<Rightarrow> 'z kernel_scheme res" where
  "minithread_start t s = bindR (deref (tcbs s) t) (\<lambda>tc.
     let s1 = s\<lparr>tcbs := (tcbs s)(t \<mapsto> tc\<lparr>t_status := Some RUNNABLE\<rparr>)\<rparr> in
     if runnable_queue s1 \<noteq> None then
       (let (old_level, s2) = set_interrupt_level DISABLED s1 in
        bindR (multilevel_queue_enqueue (runnable_queue s2) (t_level tc) t) (\<lambda>(r, rq).
          Inr (snd (set_interrupt_level old_level (s2\<lparr>runnable_queue := rq\<rparr>)))))
     else Inr s1)"

definition minithread_fork :: "bool \<Rightarrow> 'z kernel_scheme \<Rightarrow> (ptr \<times> 'z kernel_scheme) res" where
  "minithread_fork malloc_ok s =
     (let (t, s1) = minithread_create malloc_ok s in
      if t = NULL then Inr (NULL, s1)
      else bindR (minithread_start t s1) (\<lambda>s2. Inr (t, s2)))"

text \<open>The context switch of \<^verbatim>\<open>machineprimitives_x86_64_asm.S\<close> enables interrupts.\<close>

definition minithread_switch :: "ptr \<Rightarrow> ptr \<Rightarrow> 'z kernel_scheme \<Rightarrow> (flow \<times> 'z kernel_scheme) res" where
  "minithread_switch old new s =
     bindR (deref (tcbs s) old) (\<lambda>_. bindR (deref (tcbs s) new) (\<lambda>_.
       Inr (if old = new then Returned else Switched, s\<lparr>interrupt_level := ENABLED\<rparr>)))"

definition yield_running_thread :: "'z kernel_scheme \<Rightarrow> (flow \<times> 'z kernel_scheme) res" where
  "yield_running_thread s =
     (let temp = running_thread s in
      bindR (multilevel_queue_dequeue (runnable_queue s) (curr_level s) NULL) (\<lambda>(res, first_runnable, rq).
      let s1 = s\<lparr>runnable_queue := rq\<rparr> in
      bindR (if running_thread s1 \<noteq> scheduler_thread s1
             then bindR (deref (tcbs s1) (running_thread s1)) (\<lambda>t.
                  bindR (multilevel_queue_enqueue (runnable_queue s1) (t_level t) (running_thread s1)) (\<lambda>(r, rq').
                    Inr (s1\<lparr>runnable_queue := rq'\<rparr>)))
             else Inr s1) (\<lambda>s2.
      if res \<noteq> -1 then
        bindR (deref (tcbs s2) first_runnable) (\<lambda>f.
        let s3 = (if curr_level s2 \<noteq> t_level f
                  then s2\<lparr>curr_level := t_level f, curr_level_quanta := 0\<rparr> else s2) in
        if running_thread s3 \<noteq> first_runnable
        then minithread_switch temp first_runnable (s3\<lparr>running_thread := first_runnable\<rparr>)
        else Inr (Returned, s3))
      else minithread_switch temp (scheduler_thread s2) (s2\<lparr>running_thread := scheduler_thread s2\<rparr>))))"

definition stop_running_thread :: "'z kernel_scheme \<Rightarrow> (flow \<times> 'z kernel_scheme) res" where
  "stop_running_thread s =
     (let temp = running_thread s in
      bindR (multilevel_queue_dequeue (runnable_queue s) (curr_level s) NULL) (\<lambda>(res, first_runnable, rq).
      let s1 = s\<lparr>runnable_queue := rq\<rparr> in
      if res \<noteq> -1 then
        bindR (deref (tcbs s1) first_runnable) (\<lambda>f.
        let s2 = (if curr_level s1 \<noteq> t_level f
                  then s1\<lparr>curr_level := t_level f, curr_level_quanta := 0\<rparr> else s1) in
        if running_thread s2 \<noteq> first_runnable
        then minithread_switch temp first_runnable (s2\<lparr>running_thread := first_runnable\<rparr>)
        else Inr (Returned, s2))
      else minithread_switch temp (scheduler_thread s1) (s1\<lparr>running_thread := scheduler_thread s1\<rparr>)))"

text \<open>
  The pieces \<open>running_thread->quanta++\<close>, the test \<open>quanta == level_quantum_value[curr_level]\<close> and the
  assignments guarded by it, which the functions below repeat.
\<close>

definition charge :: "'z kernel_scheme \<Rightarrow> 'z kernel_scheme res" where
  "charge s = bindR (deref (tcbs s) (running_thread s)) (\<lambda>t.
     Inr (s\<lparr>tcbs := (tcbs s)(running_thread s \<mapsto> t\<lparr>t_quanta := t_quanta t + 1\<rparr>)\<rparr>))"

definition exhausted :: "'z kernel_scheme \<Rightarrow> bool res" where
  "exhausted s = bindR (deref (tcbs s) (running_thread s)) (\<lambda>t.
     bindR (aget level_quantum_value (curr_level s)) (\<lambda>v. Inr (t_quanta t = v)))"

definition demote :: "'z kernel_scheme \<Rightarrow> 'z kernel_scheme res" where
  "demote s = bindR (deref (tcbs s) (running_thread s)) (\<lambda>t.
     Inr (s\<lparr>tcbs := (tcbs s)(running_thread s \<mapsto> t\<lparr>t_quanta := 0,
       t_level := (if curr_level s + 1 = MAX_LEVELS then curr_level s else curr_level s + 1)\<rparr>)\<rparr>))"

definition demote_if_exhausted :: "'z kernel_scheme \<Rightarrow> 'z kernel_scheme res" where
  "demote_if_exhausted s = bindR (exhausted s) (\<lambda>b. if b then demote s else Inr s)"

text \<open>The end of a call that had disabled interrupts: nothing is left to do here after a switch.\<close>

fun restore :: "int \<Rightarrow> flow \<times> 'z machine_scheme \<Rightarrow> (flow \<times> 'z machine_scheme) res" where
  "restore old_level (Switched, s) = Inr (Switched, s)"
| "restore old_level (Returned, s) = Inr (Returned, snd (set_interrupt_level old_level s))"

definition minithread_stop :: "'z kernel_scheme \<Rightarrow> (flow \<times> 'z kernel_scheme) res" where
  "minithread_stop s =
     (let (old_level, s1) = set_interrupt_level DISABLED s in
      bindR (charge s1) (\<lambda>s2. bindR (demote_if_exhausted s2) (\<lambda>s3.
      bindR (stop_running_thread s3) (restore old_level))))"

text \<open>In \<open>minithread_yield\<close> the increment of \<open>quanta\<close> stands inside a comment.\<close>

definition minithread_yield :: "'z kernel_scheme \<Rightarrow> (flow \<times> 'z kernel_scheme) res" where
  "minithread_yield s =
     (let (old_level, s1) = set_interrupt_level DISABLED s in
      bindR (demote_if_exhausted s1) (\<lambda>s2.
      bindR (yield_running_thread s2) (restore old_level)))"

definition implement_scheduler :: "'z kernel_scheme \<Rightarrow> (flow \<times> 'z kernel_scheme) res" where
  "implement_scheduler s =
     bindR (charge (s\<lparr>curr_level_quanta := curr_level_quanta s + 1\<rparr>)) (\<lambda>s1.
     bindR (aget level_max_quanta (curr_level s1)) (\<lambda>mx.
     if curr_level_quanta s1 = mx then
       bindR (demote_if_exhausted s1) (\<lambda>s2.
         yield_running_thread (s2\<lparr>curr_level := cmod (curr_level s2 + 1) MAX_LEVELS, curr_level_quanta := 0\<rparr>))
     else bindR (exhausted s1) (\<lambda>b.
       if b then bindR (demote s1) yield_running_thread else Inr (Returned, s1))))"

text \<open>
  The clock interrupt: the alarms that are due, then the scheduler. \<open>invoke\<close> is the code the alarm
  handlers point to; one turn more than there are queued alarms is enough for the alarm loop.
\<close>

definition clock_handler ::
  "(alarm_handler \<Rightarrow> ptr \<Rightarrow> 'z kernel_scheme \<Rightarrow> 'z kernel_scheme res) \<Rightarrow>
     'z kernel_scheme \<Rightarrow> (flow \<times> 'z kernel_scheme) res" where
  "clock_handler invoke s =
     (let (old_level, s1) = set_interrupt_level DISABLED s;
          s2 = s1\<lparr>nInterrupts := nInterrupts s1 + 1\<rparr>
      in bindR (get_next_alarm s2) (\<lambda>(next_alarm, s3).
         bindR (fire_alarms invoke (Suc (length (pending s2))) next_alarm s3) (\<lambda>s4.
         bindR (implement_scheduler s4) (restore old_level))))"

definition minithread_free :: "ptr \<Rightarrow> 'z kernel_scheme \<Rightarrow> 'z kernel_scheme res" where
  "minithread_free t s = assertR (t \<noteq> NULL) (bindR (deref (tcbs s) t) (\<lambda>_. Inr (s\<lparr>tcbs := (tcbs s)(t := None)\<rparr>)))"

text \<open>The inner loop of the reaper (one turn per stopped thread) and one turn of its outer loop.\<close>

fun reap :: "nat \<Rightarrow> 'z kernel_scheme \<Rightarrow> 'z kernel_scheme res" where
  "reap 0 s = Inl Diverges"
| "reap (Suc k) s = bindR (queue_length (stopped_queue s)) (\<lambda>len.
     if len = 0 then Inr s
     else bindR (queue_dequeue (stopped_queue s)) (\<lambda>(r, t, q).
       assertR (t \<noteq> NULL) (bindR (minithread_free t (s\<lparr>stopped_queue := q\<rparr>)) (reap k))))"

definition clean_stopped_threads :: "'z kernel_scheme \<Rightarrow> (flow \<times> 'z kernel_scheme) res" where
  "clean_stopped_threads s =
     (let (old_level, s1) = set_interrupt_level DISABLED s in
      assertR (stopped_queue s1 \<noteq> None)
       (bindR (reap (Suc (length (oq_items (stopped_queue s1)))) s1) (\<lambda>s2.
        bindR (stop_running_thread s2) (restore old_level))))"

definition final_proc :: "'z kernel_scheme \<Rightarrow> (flow \<times> 'z kernel_scheme) res" where
  "final_proc s =
     (let (old_level, s1) = set_interrupt_level DISABLED s in
      bindR (if running_thread s1 \<noteq> reaper_thread s1
             then bindR (queue_append (stopped_queue s1) (running_thread s1)) (\<lambda>(r, q). Inr (s1\<lparr>stopped_queue := q\<rparr>))
             else Inr s1) (\<lambda>s2.
      bindR (queue_length (stopped_queue s2)) (\<lambda>len.
      bindR (if len \<noteq> 0
             then minithread_switch (running_thread s2) (reaper_thread s2) (s2\<lparr>running_thread := reaper_thread s2\<rparr>)
             else stop_running_thread s2) (restore old_level))))"

text \<open>\<open>junk\<close> is what \<open>malloc\<close> left in the \<open>quanta\<close> field, which \<open>scheduler_thread_create\<close> does not set.\<close>

definition scheduler_thread_create :: "int \<Rightarrow> 'z kernel_scheme \<Rightarrow> ptr \<times> 'z kernel_scheme" where
  "scheduler_thread_create junk s =
     (t_brk s, s\<lparr>tcbs := (tcbs s)(t_brk s \<mapsto>
          \<lparr>t_id = minithreads_count s, t_status = None, t_level = 0, t_quanta = junk\<rparr>),
        minithreads_count := minithreads_count s + 1, t_brk := Suc (t_brk s)\<rparr>)"

text \<open>
  The start of the system up to its idle loop; \<open>init_net\<close> stands for the initialisation of the
  network, datagram and stream layers, which do not touch the state of this theory.
\<close>

definition minithread_system_initialize ::
  "int \<Rightarrow> ('z kernel_scheme \<Rightarrow> 'z kernel_scheme res) \<Rightarrow> 'z kernel_scheme \<Rightarrow> 'z kernel_scheme res" where
  "minithread_system_initialize junk init_net s =
     bindR (multilevel_queue_new True MAX_LEVELS) (\<lambda>rq.
     let s1 = s\<lparr>runnable_queue := rq, stopped_queue := Some queue_new\<rparr>;
         (sch, s2) = scheduler_thread_create junk s1;
         s3 = s2\<lparr>scheduler_thread := sch, running_thread := sch\<rparr>
     in bindR (init_net (alarm_system_initialize s3)) (\<lambda>s4.
        let (rp, s5) = minithread_create True s4 in
        bindR (minithread_fork True (s5\<lparr>reaper_thread := rp\<rparr>)) (\<lambda>(t, s6).
          Inr (snd (set_interrupt_level ENABLED s6)))))"

definition idle_step :: "'z kernel_scheme \<Rightarrow> (flow \<times> 'z kernel_scheme) res" where
  "idle_step s = bindR (multilevel_queue_is_empty (runnable_queue s)) (\<lambda>e.
     if e = 0 then minithread_yield s else Inr (Returned, s))"

text \<open>Sleeping registers an alarm with interrupts disabled, enables them again, then stops.\<close>

definition minithread_sleep_with_timeout :: "bool \<Rightarrow> int \<Rightarrow> 'z kernel_scheme \<Rightarrow> (flow \<times> 'z kernel_scheme) res" where
  "minithread_sleep_with_timeout malloc_ok delay s =
     (let (l, s1) = set_interrupt_level DISABLED s in
      bindR (register_alarm malloc_ok delay get_new_alarm_handler (minithread_self s1) s1) (\<lambda>(a, s2).
      minithread_stop (snd (set_interrupt_level l s2))))"

section \<open>Invariant\<close>

definition ready :: "'z kernel_scheme \<Rightarrow> ptr list" where
  "ready s = concat (om_lvls (runnable_queue s))"

text \<open>The running thread, unless it is the idle scheduler.\<close>

definition current :: "'z kernel_scheme \<Rightarrow> ptr list" where
  "current s = (if running_thread s = scheduler_thread s then [] else [running_thread s])"

definition thread_ok :: "'z kernel_scheme \<Rightarrow> int \<Rightarrow> ptr \<Rightarrow> bool" where
  "thread_ok s l t \<longleftrightarrow> t \<noteq> NULL \<and> t \<noteq> scheduler_thread s \<and> 0 \<le> l \<and> l < MAX_LEVELS \<and>
     (case tcbs s t of None \<Rightarrow> False
      | Some tc \<Rightarrow> t_level tc = l \<and> 0 \<le> t_quanta tc \<and>
          (t \<noteq> reaper_thread s \<longrightarrow> t_quanta tc < level_quantum_value ! nat l))"

text \<open>A ready queue with four levels, each thread queued at its own level.\<close>

definition levels_ok :: "'z kernel_scheme \<Rightarrow> mlq option \<Rightarrow> bool" where
  "levels_ok s mo \<longleftrightarrow> om_inv mo \<and> length (om_lvls mo) = 4 \<and>
     (\<forall>l<4. \<forall>t\<in>set (om_lvls mo ! l). thread_ok s (int l) t)"

definition sched_core :: "'z kernel_scheme \<Rightarrow> bool" where
  "sched_core s \<longleftrightarrow> levels_ok s (runnable_queue s) \<and> distinct (current s @ ready s) \<and>
     scheduler_thread s \<noteq> NULL \<and> tcbs s (scheduler_thread s) \<noteq> None \<and>
     (\<forall>t\<in>set (current s). \<exists>l. thread_ok s l t) \<and>
     0 \<le> curr_level s \<and> curr_level s < MAX_LEVELS \<and>
     0 \<le> curr_level_quanta s \<and> curr_level_quanta s < level_max_quanta ! nat (curr_level s)"

text \<open>
  Between operations the running thread sits at the current level; only the reaper, which
  \<open>final_proc\<close> enters directly, may not.
\<close>

definition sched_inv :: "'z kernel_scheme \<Rightarrow> bool" where
  "sched_inv s \<longleftrightarrow> sched_core s \<and>
     (\<forall>t\<in>set (current s). t \<noteq> reaper_thread s \<longrightarrow> thread_ok s (curr_level s) t)"

text \<open>What a scheduling step may change.\<close>

definition sched_frame :: "'z kernel_scheme \<Rightarrow> 'z kernel_scheme \<Rightarrow> bool" where
  "sched_frame s s' \<longleftrightarrow> (\<exists>il ts rq r c q. s' = s\<lparr>interrupt_level := il, tcbs := ts,
     runnable_queue := rq, running_thread := r, curr_level := c, curr_level_quanta := q\<rparr>)"

lemma sched_frame_trans: "sched_frame s s' \<Longrightarrow> sched_frame s' s'' \<Longrightarrow> sched_frame s s''"
  by (force simp: sched_frame_def)

lemma sched_frameI:
  "s' = s\<lparr>interrupt_level := interrupt_level s', tcbs := tcbs s', runnable_queue := runnable_queue s',
     running_thread := running_thread s', curr_level := curr_level s',
     curr_level_quanta := curr_level_quanta s'\<rparr> \<Longrightarrow> sched_frame s s'"
  unfolding sched_frame_def by blast

lemma sched_frame_fields:
  assumes "sched_frame s s'"
  shows "nInterrupts s' = nInterrupts s" "alarm_queue s' = alarm_queue s" "alarms s' = alarms s"
    "alarm_brk s' = alarm_brk s" "minithreads_count s' = minithreads_count s" "t_brk s' = t_brk s"
    "stopped_queue s' = stopped_queue s" "scheduler_thread s' = scheduler_thread s"
    "reaper_thread s' = reaper_thread s" "kernel.more s' = kernel.more s"
  using assms by (auto simp: sched_frame_def)

lemma thread_ok_cong:
  "tcbs s' t = tcbs s t \<Longrightarrow> scheduler_thread s' = scheduler_thread s \<Longrightarrow> reaper_thread s' = reaper_thread s \<Longrightarrow>
   thread_ok s' l t = thread_ok s l t"
  by (simp add: thread_ok_def cong: option.case_cong)

lemma levels_ok_cong:
  "(\<And>t. t \<in> set (concat (om_lvls mo)) \<Longrightarrow> tcbs s' t = tcbs s t) \<Longrightarrow> scheduler_thread s' = scheduler_thread s \<Longrightarrow>
   reaper_thread s' = reaper_thread s \<Longrightarrow> levels_ok s mo \<Longrightarrow> levels_ok s' mo"
  unfolding levels_ok_def
  by (metis concat_eq_concat_iff in_set_conv_nth length_Cons UN_I set_concat thread_ok_cong)

lemma thread_okE:
  assumes "thread_ok s l t"
  obtains tc where "tcbs s t = Some tc" "t_level tc = l" "t \<noteq> NULL" "t \<noteq> scheduler_thread s"
    "0 \<le> l" "l < MAX_LEVELS" "0 \<le> t_quanta tc"
    "t \<noteq> reaper_thread s \<longrightarrow> t_quanta tc < level_quantum_value ! nat l"
  using assms by (auto simp: thread_ok_def split: option.splits)

lemma levels_thread:
  assumes "levels_ok s mo" "t \<in> set (concat (om_lvls mo))"
  shows "\<exists>l. thread_ok s l t"
proof -
  obtain ls where "ls \<in> set (om_lvls mo)" "t \<in> set ls" using assms(2) by auto
  then obtain i where "i < length (om_lvls mo)" "t \<in> set (om_lvls mo ! i)"
    by (metis in_set_conv_nth)
  with assms(1) show ?thesis by (auto simp: levels_ok_def)
qed

lemma ready_thread: "sched_core s \<Longrightarrow> t \<in> set (ready s) \<Longrightarrow> \<exists>l. thread_ok s l t"
  unfolding ready_def by (rule levels_thread) (simp_all add: sched_core_def)

section \<open>The ready queue in the scheduler\<close>

lemma enq_levels:
  assumes "levels_ok s mo" "thread_ok s l t"
  obtains mo' where "multilevel_queue_enqueue mo l t = Inr (0, mo')" "levels_ok s mo'"
    "om_lvls mo' = (om_lvls mo)[nat l := om_lvls mo ! nat l @ [t]]"
    "mset (concat (om_lvls mo')) = add_mset t (mset (concat (om_lvls mo)))"
proof -
  have l: "0 \<le> l" "nat l < length (om_lvls mo)" "int (nat l) = l"
    using assms by (auto simp: levels_ok_def thread_ok_def)
  have "om_inv mo" using assms(1) by (simp add: levels_ok_def)
  from rq.enq_returns [OF this l(2), of t] obtain mo' where mo': "multilevel_queue_enqueue mo l t = Inr (0, mo')"
    "om_inv mo'" "om_lvls mo' = (om_lvls mo)[nat l := om_lvls mo ! nat l @ [t]]"
    "mset (concat (om_lvls mo')) = add_mset t (mset (concat (om_lvls mo)))"
    "length (om_lvls mo') = length (om_lvls mo)" using l(3) by metis
  have "levels_ok s mo'"
    using assms l mo' by (auto simp: levels_ok_def nth_list_update)
  with that mo' show thesis by blast
qed

lemma deq_levels:
  assumes "levels_ok s mo" "0 \<le> c" "c < MAX_LEVELS"
  obtains (some) x l mo' where "multilevel_queue_dequeue mo c i = Inr (0, x, mo')" "levels_ok s mo'"
      "thread_ok s l x" "circular (om_lvls mo) (nat c) = Some (nat l)"
      "om_lvls mo ! nat l = x # om_lvls mo' ! nat l"
      "mset (concat (om_lvls mo)) = add_mset x (mset (concat (om_lvls mo')))"
  | (none) "multilevel_queue_dequeue mo c i = Inr (-1, NULL, mo)" "concat (om_lvls mo) = []"
proof -
  have c: "nat c < length (om_lvls mo)" "int (nat c) = c" using assms by (auto simp: levels_ok_def)
  have inv: "om_inv mo" using assms(1) by (simp add: levels_ok_def)
  show thesis
  proof (cases rule: rq.deq_returns [OF inv c(1), of i])
    case (1 j x xs mo')
    have "thread_ok s (int j) x" using assms(1) 1(2,3) by (auto simp: levels_ok_def)
    moreover have "levels_ok s mo'"
      using assms(1) 1 by (auto simp: levels_ok_def nth_list_update)
    ultimately show thesis using some [of x mo' "int j"] 1 c(2) by simp
  next
    case 2
    then show thesis using none c(2) by simp
  qed
qed

section \<open>Yielding and stopping\<close>

lemma switch_ok:
  "tcbs s old \<noteq> None \<Longrightarrow> tcbs s new \<noteq> None \<Longrightarrow> old \<noteq> NULL \<Longrightarrow> new \<noteq> NULL \<Longrightarrow>
   minithread_switch old new s = Inr (if old = new then Returned else Switched, s\<lparr>interrupt_level := ENABLED\<rparr>)"
  by (auto simp: minithread_switch_def deref_def)

lemma running_tcb:
  assumes "sched_core s"
  shows "running_thread s \<noteq> NULL \<and> tcbs s (running_thread s) \<noteq> None"
  using assms by (cases "running_thread s = scheduler_thread s")
    (auto simp: sched_core_def current_def elim: thread_okE)

text \<open>
  The first thread found from the current level runs next; the yielding thread goes to the end of
  the queue of its level; without another thread the idle scheduler runs.
\<close>

lemma yield_running_thread_ok:
  assumes "sched_core s"
  shows "\<exists>fl s'. yield_running_thread s = Inr (fl, s') \<and> sched_inv s' \<and> sched_frame s s' \<and> tcbs s' = tcbs s \<and>
    mset (current s' @ ready s') = mset (current s @ ready s) \<and>
    (case circular (om_lvls (runnable_queue s)) (nat (curr_level s)) of
       None \<Rightarrow> running_thread s' = scheduler_thread s
     | Some l \<Rightarrow> running_thread s' = hd (om_lvls (runnable_queue s) ! l) \<and> curr_level s' = int l)"
proof -
  note core = assms [unfolded sched_core_def]
  have lv: "levels_ok s (runnable_queue s)" and c: "0 \<le> curr_level s" "curr_level s < MAX_LEVELS"
    and sch: "scheduler_thread s \<noteq> NULL" "tcbs s (scheduler_thread s) \<noteq> None"
    using core by auto
  note run = running_tcb [OF assms]
  define requeue where "requeue = (\<lambda>s1 :: 'a kernel_scheme. if running_thread s1 \<noteq> scheduler_thread s1
       then bindR (deref (tcbs s1) (running_thread s1)) (\<lambda>t.
              bindR (multilevel_queue_enqueue (runnable_queue s1) (t_level t) (running_thread s1)) (\<lambda>(r, rq').
                Inr (s1\<lparr>runnable_queue := rq'\<rparr>)))
       else Inr s1)"
  have req: "\<exists>mo'. requeue (s\<lparr>runnable_queue := mo\<rparr>) = Inr (s\<lparr>runnable_queue := mo'\<rparr>) \<and> levels_ok s mo' \<and>
     mset (concat (om_lvls mo')) = mset (current s) + mset (concat (om_lvls mo))" if mo: "levels_ok s mo" for mo
  proof (cases "running_thread s = scheduler_thread s")
    case True
    then show ?thesis using mo by (auto simp: requeue_def current_def)
  next
    case False
    then obtain l where l: "thread_ok s l (running_thread s)" using core by (auto simp: current_def)
    then obtain tc where tc: "tcbs s (running_thread s) = Some tc" "t_level tc = l" by (rule thread_okE)
    obtain mo' where "multilevel_queue_enqueue mo l (running_thread s) = Inr (0, mo')" "levels_ok s mo'"
      "mset (concat (om_lvls mo')) = add_mset (running_thread s) (mset (concat (om_lvls mo)))"
      using mo l by (rule enq_levels)
    with False tc run show ?thesis by (auto simp: requeue_def deref_def current_def)
  qed
  show ?thesis
  proof (cases rule: deq_levels [OF lv c, of NULL])
    case (1 x l mo)
    obtain mo' where mo': "requeue (s\<lparr>runnable_queue := mo\<rparr>) = Inr (s\<lparr>runnable_queue := mo'\<rparr>)" "levels_ok s mo'"
      "mset (concat (om_lvls mo')) = mset (current s) + mset (concat (om_lvls mo))"
      using req [OF 1(2)] by blast
    obtain tc where tc: "tcbs s x = Some tc" "t_level tc = l" "x \<noteq> NULL" "x \<noteq> scheduler_thread s" "0 \<le> l" "l < MAX_LEVELS"
      using 1(3) by (rule thread_okE)
    have "x \<in># mset (ready s)" by (simp add: ready_def 1(6))
    then have "x \<notin> set (current s)" using core by auto
    then have ne: "running_thread s \<noteq> x" using tc(4) by (auto simp: current_def)
    define s' where "s' = s\<lparr>runnable_queue := mo', running_thread := x, interrupt_level := ENABLED,
      curr_level := l, curr_level_quanta := (if curr_level s = l then curr_level_quanta s else 0)\<rparr>"
    have res: "yield_running_thread s = Inr (Switched, s')"
      using 1(1) mo'(1) tc ne run unfolding yield_running_thread_def Let_def requeue_def
      by (auto simp: s'_def switch_ok deref_Some)
    have cur': "current s' = [x]" using tc(4) by (simp add: current_def s'_def)
    have cons: "mset (current s' @ ready s') = mset (current s @ ready s)"
      unfolding cur' by (simp add: ready_def 1(6)) (simp add: s'_def mo'(3))
    have "level_max_quanta ! nat l > 0" using tc(5,6)
      by (auto simp: level_max_quanta_def nth_Cons split: nat.splits)
    moreover have "levels_ok s' mo'" using mo'(2) by (rule levels_ok_cong [rotated 3]) (simp_all add: s'_def)
    moreover have "thread_ok s' l x" using 1(3) thread_ok_cong [of s' x s l] by (simp add: s'_def)
    moreover have "distinct (current s' @ ready s')" using core cons by (metis mset_eq_imp_distinct_iff)
    ultimately have "sched_inv s'"
      using core tc unfolding sched_inv_def sched_core_def cur' by (auto simp: s'_def)
    moreover have "sched_frame s s'" by (rule sched_frameI) (simp add: s'_def)
    moreover have "tcbs s' = tcbs s" "running_thread s' = hd (om_lvls (runnable_queue s) ! nat l)" "curr_level s' = int (nat l)"
      using 1(5) tc(5) by (simp_all add: s'_def)
    ultimately show ?thesis using res cons 1(4) by auto
  next
    case 2
    obtain mo' where mo': "requeue (s\<lparr>runnable_queue := runnable_queue s\<rparr>) = Inr (s\<lparr>runnable_queue := mo'\<rparr>)"
      "levels_ok s mo'" "mset (concat (om_lvls mo')) = mset (current s) + mset (concat (om_lvls (runnable_queue s)))"
      using req [OF lv] by blast
    define s' where "s' = s\<lparr>runnable_queue := mo', running_thread := scheduler_thread s, interrupt_level := ENABLED\<rparr>"
    have res: "yield_running_thread s = Inr (if running_thread s = scheduler_thread s then Returned else Switched, s')"
      using 2(1) mo'(1) run sch unfolding yield_running_thread_def Let_def requeue_def
      by (auto simp: s'_def switch_ok)
    have cur': "current s' = []" by (simp add: current_def s'_def)
    have cons: "mset (current s' @ ready s') = mset (current s @ ready s)"
      unfolding cur' by (simp add: ready_def) (simp add: s'_def mo'(3))
    moreover have "levels_ok s' mo'" using mo'(2) by (rule levels_ok_cong [rotated 3]) (simp_all add: s'_def)
    moreover have "distinct (current s' @ ready s')" using core cons by (metis mset_eq_imp_distinct_iff)
    ultimately have "sched_inv s'"
      using core unfolding sched_inv_def sched_core_def cur' by (auto simp: s'_def)
    moreover have "sched_frame s s'" by (rule sched_frameI) (simp add: s'_def)
    moreover have "circular (om_lvls (runnable_queue s)) (nat (curr_level s)) = None"
      using 2(2) by (simp add: circular_total)
    moreover have "tcbs s' = tcbs s" "running_thread s' = scheduler_thread s" by (simp_all add: s'_def)
    ultimately show ?thesis using res cons by auto
  qed
qed

text \<open>
  Stopping: as yielding, but the stopping thread is not queued again.
\<close>

lemma stop_running_thread_ok:
  assumes "sched_core s"
  shows "\<exists>fl s'. stop_running_thread s = Inr (fl, s') \<and> sched_inv s' \<and> sched_frame s s' \<and> tcbs s' = tcbs s \<and>
    mset (current s' @ ready s') = mset (ready s) \<and>
    (fl = Returned \<longleftrightarrow> running_thread s' = running_thread s)"
proof -
  note core = assms [unfolded sched_core_def]
  have lv: "levels_ok s (runnable_queue s)" and c: "0 \<le> curr_level s" "curr_level s < MAX_LEVELS"
    and sch: "scheduler_thread s \<noteq> NULL" "tcbs s (scheduler_thread s) \<noteq> None"
    using core by auto
  note run = running_tcb [OF assms]
  show ?thesis
  proof (cases rule: deq_levels [OF lv c, of NULL])
    case (1 x l mo)
    obtain tc where tc: "tcbs s x = Some tc" "t_level tc = l" "x \<noteq> NULL" "x \<noteq> scheduler_thread s" "0 \<le> l" "l < MAX_LEVELS"
      using 1(3) by (rule thread_okE)
    have "x \<in># mset (ready s)" by (simp add: ready_def 1(6))
    then have "x \<notin> set (current s)" using core by auto
    then have ne: "running_thread s \<noteq> x" using tc(4) by (auto simp: current_def)
    define s' where "s' = s\<lparr>runnable_queue := mo, running_thread := x, interrupt_level := ENABLED,
      curr_level := l, curr_level_quanta := (if curr_level s = l then curr_level_quanta s else 0)\<rparr>"
    have res: "stop_running_thread s = Inr (Switched, s')"
      using 1(1) tc ne run unfolding stop_running_thread_def Let_def
      by (auto simp: s'_def switch_ok deref_Some)
    have cur': "current s' = [x]" using tc(4) by (simp add: current_def s'_def)
    have cons: "mset (current s' @ ready s') = mset (ready s)"
      unfolding cur' by (simp add: ready_def 1(6)) (simp add: s'_def)
    have "level_max_quanta ! nat l > 0" using tc(5,6)
      by (auto simp: level_max_quanta_def nth_Cons split: nat.splits)
    moreover have "levels_ok s' mo" using 1(2) by (rule levels_ok_cong [rotated 3]) (simp_all add: s'_def)
    moreover have "thread_ok s' l x" using 1(3) thread_ok_cong [of s' x s l] by (simp add: s'_def)
    moreover have "distinct (current s' @ ready s')" using core cons
      by (metis distinct_append mset_eq_imp_distinct_iff)
    ultimately have "sched_inv s'"
      using core tc unfolding sched_inv_def sched_core_def cur' by (auto simp: s'_def)
    moreover have "sched_frame s s'" by (rule sched_frameI) (simp add: s'_def)
    moreover have "tcbs s' = tcbs s" "running_thread s' \<noteq> running_thread s"
      using ne by (simp_all add: s'_def)
    ultimately show ?thesis using res cons by auto
  next
    case 2
    define s' where "s' = s\<lparr>running_thread := scheduler_thread s, interrupt_level := ENABLED\<rparr>"
    have res: "stop_running_thread s = Inr (if running_thread s = scheduler_thread s then Returned else Switched, s')"
      using 2(1) run sch unfolding stop_running_thread_def Let_def
      by (auto simp: s'_def switch_ok)
    have cur': "current s' = []" by (simp add: current_def s'_def)
    have cons: "mset (current s' @ ready s') = mset (ready s)"
      unfolding cur' by (simp add: ready_def s'_def)
    moreover have "levels_ok s' (runnable_queue s)" using lv by (rule levels_ok_cong [rotated 3]) (simp_all add: s'_def)
    ultimately have "sched_inv s'"
      using core unfolding sched_inv_def sched_core_def cur' by (auto simp: s'_def ready_def)
    moreover have "sched_frame s s'" by (rule sched_frameI) (simp add: s'_def)
    moreover have "tcbs s' = tcbs s" "running_thread s' = scheduler_thread s" by (simp_all add: s'_def)
    ultimately show ?thesis using res cons by auto
  qed
qed

section \<open>Charging quanta\<close>

text \<open>
  \<open>charged s s'\<close>: only the control block of the running thread changed, to one that is again fit for
  a queue (or whatever, for the idle scheduler).
\<close>

definition charged :: "'z kernel_scheme \<Rightarrow> 'z kernel_scheme \<Rightarrow> bool" where
  "charged s s' \<longleftrightarrow> (\<exists>tc. s' = s\<lparr>tcbs := (tcbs s)(running_thread s \<mapsto> tc)\<rparr>) \<and>
     (\<forall>t\<in>set (current s). \<exists>l. thread_ok s' l t)"

lemma charged_core:
  assumes "sched_core s" "charged s s'"
  shows "sched_core s'"
proof -
  obtain tc where s': "s' = s\<lparr>tcbs := (tcbs s)(running_thread s \<mapsto> tc)\<rparr>" "\<forall>t\<in>set (current s). \<exists>l. thread_ok s' l t"
    using assms(2) by (auto simp: charged_def)
  note core = assms(1) [unfolded sched_core_def]
  have eqs: "current s' = current s" "ready s' = ready s" "runnable_queue s' = runnable_queue s"
    "scheduler_thread s' = scheduler_thread s" "reaper_thread s' = reaper_thread s"
    "curr_level s' = curr_level s" "curr_level_quanta s' = curr_level_quanta s"
    by (simp_all add: s'(1) current_def ready_def)
  have "tcbs s' t = tcbs s t" if "t \<in> set (ready s)" for t
  proof -
    have "t \<noteq> scheduler_thread s"
      using ready_thread [OF assms(1) that] by (auto elim: thread_okE)
    then have "t \<noteq> running_thread s" using core that by (auto simp: current_def split: if_splits)
    then show ?thesis by (simp add: s'(1))
  qed
  then have "levels_ok s' (runnable_queue s)"
    using core eqs by (intro levels_ok_cong [of "runnable_queue s" s' s]) (auto simp: ready_def)
  moreover have "tcbs s' (scheduler_thread s) \<noteq> None" using core by (auto simp: s'(1))
  ultimately show ?thesis using core s'(2) by (simp add: sched_core_def eqs)
qed

lemma charged_frame: "charged s s' \<Longrightarrow> sched_frame s s' \<and> current s' = current s \<and> ready s' = ready s \<and>
    running_thread s' = running_thread s \<and> (\<forall>t. t \<noteq> running_thread s \<longrightarrow> tcbs s' t = tcbs s t)"
  by (auto simp: charged_def current_def ready_def intro!: sched_frameI)

lemma quantum_positive: "0 \<le> l \<Longrightarrow> l < MAX_LEVELS \<Longrightarrow> 0 < level_quantum_value ! nat l"
  by (auto simp: level_quantum_value_def nth_Cons split: nat.splits)

lemma aget_quantum: "0 \<le> l \<Longrightarrow> l < MAX_LEVELS \<Longrightarrow> aget level_quantum_value l = Inr (level_quantum_value ! nat l)"
  by (simp add: aget_def level_quantum_value_def)

lemma aget_max: "0 \<le> l \<Longrightarrow> l < MAX_LEVELS \<Longrightarrow> aget level_max_quanta l = Inr (level_max_quanta ! nat l)"
  by (simp add: aget_def level_max_quanta_def)

lemma exhausted_eq:
  assumes "tcbs s (running_thread s) = Some tc" "running_thread s \<noteq> NULL" "0 \<le> curr_level s" "curr_level s < MAX_LEVELS"
  shows "exhausted s = Inr (t_quanta tc = level_quantum_value ! nat (curr_level s))"
  using assms by (simp add: exhausted_def deref_Some aget_quantum)

lemma demote_ok:
  assumes "tcbs s (running_thread s) = Some tc" "running_thread s \<noteq> NULL" "0 \<le> curr_level s" "curr_level s < MAX_LEVELS"
  shows "\<exists>s'. demote s = Inr s' \<and> charged s s'"
proof -
  define lv where "lv = (if curr_level s + 1 = MAX_LEVELS then curr_level s else curr_level s + 1)"
  define s' where "s' = s\<lparr>tcbs := (tcbs s)(running_thread s \<mapsto> tc\<lparr>t_quanta := 0, t_level := lv\<rparr>)\<rparr>"
  have lv: "0 \<le> lv" "lv < MAX_LEVELS" using assms(3,4) by (auto simp: lv_def)
  have "demote s = Inr s'" using assms(1,2) by (simp add: demote_def deref_Some s'_def lv_def)
  moreover have "thread_ok s' lv (running_thread s)" if "running_thread s \<noteq> scheduler_thread s"
    using that lv assms(2) quantum_positive [OF lv] by (auto simp: thread_ok_def s'_def)
  then have "charged s s'" by (auto simp: charged_def s'_def current_def)
  ultimately show ?thesis by blast
qed

text \<open>
  Charging a quantum and demoting when it was the last one: what \<open>minithread_stop\<close> and the clock do.
\<close>

lemma charge_eq:
  "tcbs s (running_thread s) = Some tc \<Longrightarrow> running_thread s \<noteq> NULL \<Longrightarrow>
   charge s = Inr (s\<lparr>tcbs := (tcbs s)(running_thread s \<mapsto> tc\<lparr>t_quanta := t_quanta tc + 1\<rparr>)\<rparr>)"
  by (simp add: charge_def deref_Some)

lemma charge_if_not_exhausted:
  assumes "sched_inv s" "tcbs s (running_thread s) = Some tc"
    "t_quanta tc + 1 \<noteq> level_quantum_value ! nat (curr_level s)"
  shows "charged s (s\<lparr>tcbs := (tcbs s)(running_thread s \<mapsto> tc\<lparr>t_quanta := t_quanta tc + 1\<rparr>)\<rparr>)"
proof (cases "running_thread s = scheduler_thread s")
  case True
  then show ?thesis by (auto simp: charged_def current_def)
next
  case False
  let ?s' = "s\<lparr>tcbs := (tcbs s)(running_thread s \<mapsto> tc\<lparr>t_quanta := t_quanta tc + 1\<rparr>)\<rparr>"
  obtain l where l: "thread_ok s l (running_thread s)" and
    cur: "running_thread s \<noteq> reaper_thread s \<Longrightarrow> thread_ok s (curr_level s) (running_thread s)"
    using assms(1) False by (auto simp: sched_inv_def sched_core_def current_def)
  have "thread_ok ?s' l (running_thread s)"
  proof (cases "running_thread s = reaper_thread s")
    case True
    then show ?thesis using l assms(2) by (auto simp: thread_ok_def)
  next
    case False
    then show ?thesis using l cur [OF False] assms(2,3) by (auto simp: thread_ok_def)
  qed
  with False show ?thesis by (auto simp: charged_def current_def)
qed

lemma charged_refl:
  assumes "sched_core s"
  shows "charged s s"
proof -
  obtain tc where "tcbs s (running_thread s) = Some tc" using running_tcb [OF assms] by auto
  then have "tcbs s = (tcbs s)(running_thread s \<mapsto> tc)" by (simp add: fun_upd_idem)
  then have "s = s\<lparr>tcbs := (tcbs s)(running_thread s \<mapsto> tc)\<rparr>" by simp
  then show ?thesis using assms unfolding charged_def sched_core_def by blast
qed

lemma charged_twice:
  assumes "s1 = s\<lparr>tcbs := (tcbs s)(running_thread s \<mapsto> tc)\<rparr>" "charged s1 s2"
  shows "charged s s2"
  using assms by (auto simp: charged_def current_def)

lemma charge_demote_ok:
  assumes "sched_inv s"
  shows "\<exists>s'. bindR (charge s) demote_if_exhausted = Inr s' \<and> charged s s'"
proof -
  have core: "sched_core s" using assms by (simp add: sched_inv_def)
  obtain tc where tc: "tcbs s (running_thread s) = Some tc" "running_thread s \<noteq> NULL"
    using running_tcb [OF core] by auto
  define s1 where "s1 = s\<lparr>tcbs := (tcbs s)(running_thread s \<mapsto> tc\<lparr>t_quanta := t_quanta tc + 1\<rparr>)\<rparr>"
  have c: "0 \<le> curr_level s1" "curr_level s1 < MAX_LEVELS" using core by (simp_all add: sched_core_def s1_def)
  have t1: "tcbs s1 (running_thread s1) = Some (tc\<lparr>t_quanta := t_quanta tc + 1\<rparr>)" "running_thread s1 \<noteq> NULL"
    using tc by (simp_all add: s1_def)
  have ch: "charge s = Inr s1" using charge_eq [OF tc] by (simp add: s1_def)
  show ?thesis
  proof (cases "t_quanta tc + 1 = level_quantum_value ! nat (curr_level s)")
    case True
    obtain s2 where s2: "demote s1 = Inr s2" "charged s1 s2" using demote_ok [OF t1 c] by blast
    have "demote_if_exhausted s1 = Inr s2"
      using exhausted_eq [OF t1 c] True s2(1) by (simp add: demote_if_exhausted_def) (simp add: s1_def)
    with ch charged_twice [OF s1_def s2(2)] show ?thesis by auto
  next
    case False
    then have "demote_if_exhausted s1 = Inr s1"
      using exhausted_eq [OF t1 c] by (simp add: demote_if_exhausted_def) (simp add: s1_def)
    with ch charge_if_not_exhausted [OF assms tc(1) False] show ?thesis by (auto simp: s1_def)
  qed
qed

lemma sched_inv_interrupts [simp]: "sched_inv (s\<lparr>interrupt_level := i\<rparr>) = sched_inv s"
  by (simp add: sched_inv_def sched_core_def levels_ok_def thread_ok_def current_def ready_def cong: option.case_cong)

lemma interrupts_irrelevant [simp]:
  "current (s\<lparr>interrupt_level := i\<rparr>) = current s" "ready (s\<lparr>interrupt_level := i\<rparr>) = ready s"
  "thread_ok (s\<lparr>interrupt_level := i\<rparr>) l t = thread_ok s l t"
  "sched_core (s\<lparr>interrupt_level := i\<rparr>) = sched_core s"
  by (simp_all add: sched_core_def levels_ok_def thread_ok_def current_def ready_def cong: option.case_cong)

lemma sched_frame_interrupts [simp]: "sched_frame s (s\<lparr>interrupt_level := i\<rparr>)"
  by (rule sched_frameI) simp

lemma restore_returns:
  obtains i where "restore old (fl, s) = Inr (fl, s\<lparr>interrupt_level := i\<rparr>)"
    "i = (if fl = Switched then interrupt_level s else old)"
proof (cases fl)
  case Returned
  then show thesis using that [of old] by (simp add: set_interrupt_level_def)
next
  case Switched
  then show thesis using that [of "interrupt_level s"] by simp
qed

section \<open>The operations keep the invariant and every thread\<close>

text \<open>
  Stopping the running thread: the invariant holds again, the threads left are those that were ready,
  and the stopped thread is fit to be queued later.
\<close>

lemma minithread_stop_ok:
  assumes "sched_inv s"
  shows "\<exists>fl s'. minithread_stop s = Inr (fl, s') \<and> sched_inv s' \<and> sched_frame s s' \<and>
    mset (current s' @ ready s') = mset (ready s) \<and>
    (\<forall>t\<in>set (current s). \<exists>l. thread_ok s' l t) \<and>
    (\<forall>t. t \<noteq> running_thread s \<longrightarrow> tcbs s' t = tcbs s t)"
proof -
  define s1 where "s1 = s\<lparr>interrupt_level := DISABLED\<rparr>"
  have inv1: "sched_inv s1" using assms by (simp add: s1_def)
  obtain s3 where s3: "bindR (charge s1) demote_if_exhausted = Inr s3" "charged s1 s3"
    using charge_demote_ok [OF inv1] by blast
  have core3: "sched_core s3" using charged_core [OF _ s3(2)] inv1 by (simp add: sched_inv_def)
  obtain fl s4 where s4: "stop_running_thread s3 = Inr (fl, s4)" "sched_inv s4" "sched_frame s3 s4"
    "tcbs s4 = tcbs s3" "mset (current s4 @ ready s4) = mset (ready s3)"
    using stop_running_thread_ok [OF core3] by blast
  obtain i where i: "restore (interrupt_level s) (fl, s4) = Inr (fl, s4\<lparr>interrupt_level := i\<rparr>)"
    by (rule restore_returns)
  have run: "minithread_stop s = Inr (fl, s4\<lparr>interrupt_level := i\<rparr>)"
    using s3(1) s4(1) i by (auto simp: minithread_stop_def set_interrupt_level_def s1_def bindR_eq_Inr)
  have ch: "sched_frame s1 s3" "ready s3 = ready s" "\<And>t. t \<noteq> running_thread s \<Longrightarrow> tcbs s3 t = tcbs s t"
    using charged_frame [OF s3(2)] by (simp_all add: s1_def)
  have fr: "sched_frame s (s4\<lparr>interrupt_level := i\<rparr>)"
    using sched_frame_trans [OF _ sched_frame_trans [OF ch(1) sched_frame_trans [OF s4(3)]], of s]
    by (simp add: s1_def)
  have "\<forall>t\<in>set (current s). \<exists>l. thread_ok s3 l t" using s3(2) by (simp add: charged_def s1_def)
  moreover have "thread_ok s4 l t = thread_ok s3 l t" for l t
    using s4(3,4) by (intro thread_ok_cong) (simp_all add: sched_frame_fields)
  ultimately have "\<forall>t\<in>set (current s). \<exists>l. thread_ok (s4\<lparr>interrupt_level := i\<rparr>) l t" by simp
  with run s4(2,4,5) fr ch(2,3) show ?thesis
    by (intro exI [of _ fl] exI [of _ "s4\<lparr>interrupt_level := i\<rparr>"]) simp
qed

lemma minithread_yield_ok:
  assumes "sched_inv s"
  shows "\<exists>fl s'. minithread_yield s = Inr (fl, s') \<and> sched_inv s' \<and> sched_frame s s' \<and>
    mset (current s' @ ready s') = mset (current s @ ready s) \<and>
    (\<forall>t. t \<noteq> running_thread s \<longrightarrow> tcbs s' t = tcbs s t)"
proof -
  define s1 where "s1 = s\<lparr>interrupt_level := DISABLED\<rparr>"
  have core1: "sched_core s1" using assms by (simp add: s1_def sched_inv_def)
  obtain tc where tc: "tcbs s1 (running_thread s1) = Some tc" "running_thread s1 \<noteq> NULL"
    using running_tcb [OF core1] by auto
  have c: "0 \<le> curr_level s1" "curr_level s1 < MAX_LEVELS" using core1 by (simp_all add: sched_core_def)
  have "\<exists>s2. demote_if_exhausted s1 = Inr s2 \<and> charged s1 s2"
  proof (cases "t_quanta tc = level_quantum_value ! nat (curr_level s1)")
    case True
    then show ?thesis using demote_ok [OF tc c] exhausted_eq [OF tc c] by (auto simp: demote_if_exhausted_def)
  next
    case False
    moreover have "charged s1 s1" using charged_refl [OF core1] .
    ultimately show ?thesis using exhausted_eq [OF tc c] by (auto simp: demote_if_exhausted_def)
  qed
  then obtain s2 where s2: "demote_if_exhausted s1 = Inr s2" "charged s1 s2" by blast
  obtain fl s4 where s4: "yield_running_thread s2 = Inr (fl, s4)" "sched_inv s4" "sched_frame s2 s4"
    "tcbs s4 = tcbs s2" "mset (current s4 @ ready s4) = mset (current s2 @ ready s2)"
    using yield_running_thread_ok [OF charged_core [OF core1 s2(2)]] by blast
  obtain i where i: "restore (interrupt_level s) (fl, s4) = Inr (fl, s4\<lparr>interrupt_level := i\<rparr>)"
    by (rule restore_returns)
  have run: "minithread_yield s = Inr (fl, s4\<lparr>interrupt_level := i\<rparr>)"
    using s2(1) s4(1) i by (simp add: minithread_yield_def set_interrupt_level_def s1_def)
  have ch: "sched_frame s1 s2" "current s2 = current s" "ready s2 = ready s"
    "\<And>t. t \<noteq> running_thread s \<Longrightarrow> tcbs s2 t = tcbs s t"
    using charged_frame [OF s2(2)] by (simp_all add: s1_def)
  have fr: "sched_frame s (s4\<lparr>interrupt_level := i\<rparr>)"
    using sched_frame_trans [OF _ sched_frame_trans [OF ch(1) sched_frame_trans [OF s4(3)]], of s]
    by (simp add: s1_def)
  with run s4(2,4,5) ch(2,3,4) show ?thesis
    by (intro exI [of _ fl] exI [of _ "s4\<lparr>interrupt_level := i\<rparr>"]) simp
qed

text \<open>The scheduler's part of a clock interrupt.\<close>

lemma sched_core_level:
  assumes "sched_core s" "0 \<le> c" "c < MAX_LEVELS" "0 \<le> q" "q < level_max_quanta ! nat c"
  shows "sched_core (s\<lparr>curr_level := c, curr_level_quanta := q\<rparr>)"
proof -
  let ?s = "s\<lparr>curr_level := c, curr_level_quanta := q\<rparr>"
  have tok: "thread_ok ?s l t = thread_ok s l t" for l t by (rule thread_ok_cong) simp_all
  have "levels_ok ?s (runnable_queue s)"
    using assms(1) by (intro levels_ok_cong [of "runnable_queue s" ?s s]) (simp_all add: sched_core_def)
  moreover have "current ?s = current s" "ready ?s = ready s" by (simp_all add: current_def ready_def)
  ultimately show ?thesis using assms unfolding sched_core_def tok by simp
qed

lemma max_quanta_positive: "0 \<le> l \<Longrightarrow> l < MAX_LEVELS \<Longrightarrow> 0 < level_max_quanta ! nat l"
  by (auto simp: level_max_quanta_def nth_Cons split: nat.splits)

lemma implement_scheduler_ok:
  assumes "sched_inv s"
  shows "\<exists>fl s'. implement_scheduler s = Inr (fl, s') \<and> sched_inv s' \<and> sched_frame s s' \<and>
    mset (current s' @ ready s') = mset (current s @ ready s) \<and>
    (\<forall>t. t \<noteq> running_thread s \<longrightarrow> tcbs s' t = tcbs s t)"
proof -
  have core: "sched_core s" using assms by (simp add: sched_inv_def)
  obtain tc where tc: "tcbs s (running_thread s) = Some tc" "running_thread s \<noteq> NULL"
    using running_tcb [OF core] by auto
  have c: "0 \<le> curr_level s" "curr_level s < MAX_LEVELS" "0 \<le> curr_level_quanta s"
    "curr_level_quanta s < level_max_quanta ! nat (curr_level s)"
    using core by (simp_all add: sched_core_def)
  define s0 where "s0 = s\<lparr>tcbs := (tcbs s)(running_thread s \<mapsto> tc\<lparr>t_quanta := t_quanta tc + 1\<rparr>)\<rparr>"
  define q where "q = curr_level_quanta s + 1"
  define s1 where "s1 = s0\<lparr>curr_level_quanta := q\<rparr>"
  have ch: "charge (s\<lparr>curr_level_quanta := q\<rparr>) = Inr s1"
    using tc by (simp add: charge_def deref_Some s1_def s0_def)
  have chs: "charge s = Inr s0" using charge_eq [OF tc] by (simp add: s0_def)
  have mx: "aget level_max_quanta (curr_level s1) = Inr (level_max_quanta ! nat (curr_level s))"
    using c(1,2) by (simp add: aget_max s1_def s0_def)
  have t0: "tcbs s0 (running_thread s0) = Some (tc\<lparr>t_quanta := t_quanta tc + 1\<rparr>)" "running_thread s0 \<noteq> NULL"
    "0 \<le> curr_level s0" "curr_level s0 < MAX_LEVELS" using tc c by (simp_all add: s0_def)
  have ex: "exhausted s1 = Inr (t_quanta tc + 1 = level_quantum_value ! nat (curr_level s))"
    using exhausted_eq [of s1] t0 by (simp add: s1_def s0_def)
  obtain s2 where s2: "demote_if_exhausted s0 = Inr s2" "charged s s2"
    using charge_demote_ok [OF assms] chs by auto
  have quanta_comm: "demote (x\<lparr>curr_level_quanta := k\<rparr>) = bindR (demote x) (\<lambda>y. Inr (y\<lparr>curr_level_quanta := k\<rparr>))"
    "exhausted (x\<lparr>curr_level_quanta := k\<rparr>) = exhausted x" for x :: "'a kernel_scheme" and k
    by (auto simp: demote_def exhausted_def deref_def split: option.splits)
  have d2: "demote_if_exhausted s1 = Inr (s2\<lparr>curr_level_quanta := q\<rparr>)"
    using s2(1) quanta_comm by (auto simp: demote_if_exhausted_def s1_def bindR_eq_Inr split: if_splits)
  have core2: "sched_core s2" using charged_core [OF core s2(2)] .
  note fr2 = charged_frame [OF s2(2)]
  have yield: "\<exists>fl s'. yield_running_thread (s2\<lparr>curr_level := l, curr_level_quanta := k\<rparr>) = Inr (fl, s') \<and>
      sched_inv s' \<and> sched_frame s s' \<and> mset (current s' @ ready s') = mset (current s @ ready s) \<and>
      (\<forall>t. t \<noteq> running_thread s \<longrightarrow> tcbs s' t = tcbs s t)"
    if lk: "0 \<le> l" "l < MAX_LEVELS" "0 \<le> k" "k < level_max_quanta ! nat l" for l k
  proof -
    let ?s = "s2\<lparr>curr_level := l, curr_level_quanta := k\<rparr>"
    obtain fl s' where s': "yield_running_thread ?s = Inr (fl, s')" "sched_inv s'" "sched_frame ?s s'"
      "tcbs s' = tcbs ?s" "mset (current s' @ ready s') = mset (current ?s @ ready ?s)"
      using yield_running_thread_ok [OF sched_core_level [OF core2 lk]] by blast
    have "sched_frame s2 ?s" by (rule sched_frameI) simp
    then have "sched_frame s s'" using fr2 s'(3) sched_frame_trans by blast
    moreover have "current ?s = current s" "ready ?s = ready s"
      using fr2 sched_frame_fields [of s s2] by (simp_all add: current_def ready_def)
    ultimately show ?thesis using s' fr2 by (intro exI [of _ fl] exI [of _ s']) simp
  qed
  have cl2: "curr_level s2 = curr_level s" using s2(2) by (auto simp: charged_def)
  show ?thesis
  proof (cases "q = level_max_quanta ! nat (curr_level s)")
    case True
    let ?l = "(curr_level s + 1) mod MAX_LEVELS"
    have "implement_scheduler s = yield_running_thread (s2\<lparr>curr_level := ?l, curr_level_quanta := 0\<rparr>)"
      using ch mx d2 True c cl2 by (simp add: implement_scheduler_def q_def [symmetric]) (simp add: s1_def s0_def)
    moreover have "0 \<le> ?l" "?l < MAX_LEVELS" by simp_all
    ultimately show ?thesis using yield [of ?l 0] max_quanta_positive [of ?l] by simp
  next
    case q: False
    then have qlt: "0 \<le> q" "q < level_max_quanta ! nat (curr_level s)" using c by (auto simp: q_def)
    show ?thesis
    proof (cases "t_quanta tc + 1 = level_quantum_value ! nat (curr_level s)")
      case True
      then have "demote s1 = Inr (s2\<lparr>curr_level_quanta := q\<rparr>)"
        using d2 ex by (simp add: demote_if_exhausted_def)
      moreover have "s2\<lparr>curr_level_quanta := q\<rparr> = s2\<lparr>curr_level := curr_level s, curr_level_quanta := q\<rparr>"
        using cl2 by simp
      ultimately have "implement_scheduler s = yield_running_thread (s2\<lparr>curr_level := curr_level s, curr_level_quanta := q\<rparr>)"
        using ch mx q ex True by (simp add: implement_scheduler_def q_def [symmetric]) (simp add: s1_def s0_def)
      then show ?thesis using yield [of "curr_level s" q] qlt c by simp
    next
      case False
      have run: "implement_scheduler s = Inr (Returned, s1)"
        using ch mx q ex False by (simp add: implement_scheduler_def q_def [symmetric]) (simp add: s1_def s0_def)
      have chd: "charged s s0" using charge_if_not_exhausted [OF assms tc(1) False] by (simp add: s0_def)
      have "s1 = s0\<lparr>curr_level := curr_level s, curr_level_quanta := q\<rparr>" by (simp add: s1_def s0_def)
      then have core1: "sched_core s1"
        using sched_core_level [OF charged_core [OF core chd] c(1,2) qlt] by simp
      have same: "current s1 = current s" "ready s1 = ready s" "curr_level s1 = curr_level s"
        "reaper_thread s1 = reaper_thread s" "scheduler_thread s1 = scheduler_thread s"
        by (simp_all add: s1_def s0_def current_def ready_def)
      have "thread_ok s1 (curr_level s) t" if t: "t \<in> set (current s)" "t \<noteq> reaper_thread s" for t
      proof -
        have tr: "t = running_thread s" using t(1) by (simp add: current_def split: if_splits)
        have ok: "thread_ok s (curr_level s) t" using assms t by (simp add: sched_inv_def)
        then have "t_level tc = curr_level s" using tr tc by (simp add: thread_ok_def)
        moreover obtain l where "thread_ok s1 l t" using core1 t(1) same by (auto simp: sched_core_def)
        ultimately show ?thesis using tr by (auto simp: thread_ok_def s1_def s0_def)
      qed
      then have "sched_inv s1" using core1 same by (simp add: sched_inv_def)
      moreover have "sched_frame s s1" by (rule sched_frameI) (simp add: s1_def s0_def)
      ultimately show ?thesis using run same by (auto simp: s1_def s0_def)
    qed
  qed
qed

text \<open>Making a parked thread ready appends it to the queue of its level.\<close>

lemma minithread_start_ok:
  assumes "sched_inv s" "thread_ok s l t" "t \<notin> set (current s @ ready s)"
  shows "\<exists>s'. minithread_start t s = Inr s' \<and> sched_inv s' \<and> sched_frame s s' \<and>
    current s' = current s \<and> mset (ready s') = add_mset t (mset (ready s)) \<and>
    om_lvls (runnable_queue s') = (om_lvls (runnable_queue s))[nat l := om_lvls (runnable_queue s) ! nat l @ [t]] \<and>
    (\<forall>t' l'. thread_ok s' l' t' = thread_ok s l' t') \<and> (\<forall>t'. t' \<noteq> t \<longrightarrow> tcbs s' t' = tcbs s t') \<and>
    running_thread s' = running_thread s \<and> interrupt_level s' = interrupt_level s"
proof -
  obtain tc where tc: "tcbs s t = Some tc" "t_level tc = l" "t \<noteq> NULL" "t \<noteq> scheduler_thread s"
    using assms(2) by (rule thread_okE)
  have core: "sched_core s" using assms(1) by (simp add: sched_inv_def)
  then have lv: "levels_ok s (runnable_queue s)" by (simp add: sched_core_def)
  obtain mo where mo: "multilevel_queue_enqueue (runnable_queue s) l t = Inr (0, mo)" "levels_ok s mo"
    "om_lvls mo = (om_lvls (runnable_queue s))[nat l := om_lvls (runnable_queue s) ! nat l @ [t]]"
    "mset (concat (om_lvls mo)) = add_mset t (mset (concat (om_lvls (runnable_queue s))))"
    using lv assms(2) by (rule enq_levels)
  define s' where "s' = s\<lparr>tcbs := (tcbs s)(t \<mapsto> tc\<lparr>t_status := Some RUNNABLE\<rparr>), runnable_queue := mo\<rparr>"
  have "runnable_queue s \<noteq> None" using lv by (cases "runnable_queue s") (auto simp: levels_ok_def)
  then have run: "minithread_start t s = Inr s'"
    using tc mo(1) by (auto simp: minithread_start_def deref_Some set_interrupt_level_def s'_def)
  have tok: "thread_ok s' l' t' = thread_ok s l' t'" for l' t'
    using tc(1) by (simp add: thread_ok_def s'_def cong: option.case_cong)
  have cur: "current s' = current s" by (simp add: current_def s'_def)
  have rdy: "mset (ready s') = add_mset t (mset (ready s))" using mo(4) by (simp add: ready_def s'_def)
  have "levels_ok s' (runnable_queue s')" using mo(2) tok by (simp add: levels_ok_def) (simp add: s'_def)
  moreover have "distinct (current s' @ ready s')"
  proof -
    have "distinct (t # current s @ ready s)" using core assms(3) by (simp add: sched_core_def)
    moreover have "mset (current s' @ ready s') = mset (t # current s @ ready s)" using rdy cur by simp
    ultimately show ?thesis by (metis mset_eq_imp_distinct_iff)
  qed
  moreover have "tcbs s' (scheduler_thread s) \<noteq> None" using core by (auto simp: s'_def sched_core_def)
  ultimately have "sched_inv s'"
    using assms(1) tok cur by (simp add: sched_inv_def sched_core_def) (simp add: s'_def)
  moreover have "sched_frame s s'" by (rule sched_frameI) (simp add: s'_def)
  ultimately show ?thesis using run rdy cur tok mo(3) by (auto simp: s'_def)
qed

section \<open>Properties\<close>

lemma switch_tcbs: "minithread_switch p q s = Inr (fl, s') \<Longrightarrow> tcbs s' = tcbs s"
  by (auto simp: minithread_switch_def bindR_eq_Inr)

lemma yield_running_tcbs:
  assumes "yield_running_thread s = Inr (fl, s')"
  shows "tcbs s' = tcbs s"
proof -
  define b1 where "b1 = (\<lambda>s1 :: 'a kernel_scheme. if running_thread s1 \<noteq> scheduler_thread s1
       then bindR (deref (tcbs s1) (running_thread s1)) (\<lambda>t.
            bindR (multilevel_queue_enqueue (runnable_queue s1) (t_level t) (running_thread s1)) (\<lambda>(r, rq').
              Inr (s1\<lparr>runnable_queue := rq'\<rparr>)))
       else Inr s1)"
  define b2 where "b2 = (\<lambda>res first_runnable (s2 :: 'a kernel_scheme). if res \<noteq> (-1 :: int) then
        bindR (deref (tcbs s2) first_runnable) (\<lambda>f.
        let s3 = (if curr_level s2 \<noteq> t_level f
                  then s2\<lparr>curr_level := t_level f, curr_level_quanta := 0\<rparr> else s2) in
        if running_thread s3 \<noteq> first_runnable
        then minithread_switch (running_thread s) first_runnable (s3\<lparr>running_thread := first_runnable\<rparr>)
        else Inr (Returned, s3))
      else minithread_switch (running_thread s) (scheduler_thread s2) (s2\<lparr>running_thread := scheduler_thread s2\<rparr>))"
  have "yield_running_thread s = bindR (multilevel_queue_dequeue (runnable_queue s) (curr_level s) NULL)
      (\<lambda>(res, f, rq). bindR (b1 (s\<lparr>runnable_queue := rq\<rparr>)) (b2 res f))"
    unfolding yield_running_thread_def b1_def b2_def Let_def ..
  with assms obtain res f rq s2 where b: "b1 (s\<lparr>runnable_queue := rq\<rparr>) = Inr s2" "b2 res f s2 = Inr (fl, s')"
    by (auto simp: bindR_eq_Inr)
  have "tcbs s2 = tcbs s" using b(1) by (auto simp: b1_def bindR_eq_Inr split: if_splits)
  moreover have "tcbs s' = tcbs s2"
    using b(2) by (auto simp: b2_def bindR_eq_Inr Let_def dest!: switch_tcbs split: if_splits)
  ultimately show ?thesis by simp
qed

text \<open>
  C38: when a clock tick uses up the quantum of the running thread (and not that of the whole level), the
  thread moves one level down, at most to the last one, and its quanta start again.
\<close>

theorem tick_demotes:
  assumes inv: "sched_inv s" and run: "tcbs s (running_thread s) = Some tc"
    and q: "t_quanta tc + 1 = level_quantum_value ! nat (curr_level s)"
      "curr_level_quanta s + 1 < level_max_quanta ! nat (curr_level s)"
  shows "\<exists>fl s'. implement_scheduler s = Inr (fl, s') \<and> sched_inv s' \<and>
    tcbs s' (running_thread s) = Some (tc\<lparr>t_quanta := 0, t_level := min 3 (curr_level s + 1)\<rparr>)"
proof -
  obtain fl s' where s': "implement_scheduler s = Inr (fl, s')" "sched_inv s'"
    using implement_scheduler_ok [OF inv] by blast
  have core: "sched_core s" using inv by (simp add: sched_inv_def)
  then have r: "running_thread s \<noteq> NULL" and l: "0 \<le> curr_level s" "curr_level s < 4"
    using running_tcb [OF core] by (auto simp: sched_core_def)
  then have n: "nat (curr_level s) < 4" by linarith
  have lev: "aget level_max_quanta (curr_level s) = Inr (level_max_quanta ! nat (curr_level s))"
    "aget level_quantum_value (curr_level s) = Inr (level_quantum_value ! nat (curr_level s))"
    using l by (simp_all add: aget_def level_max_quanta_def level_quantum_value_def)
  obtain s1 where s1: "yield_running_thread s1 = Inr (fl, s')"
    "tcbs s1 (running_thread s) = Some (tc\<lparr>t_quanta := 0, t_level := if curr_level s + 1 = 4 then curr_level s else curr_level s + 1\<rparr>)"
    using s'(1) run r q lev by (auto simp: implement_scheduler_def charge_def exhausted_def demote_def deref_Some)
  then show ?thesis using s' yield_running_tcbs [OF s1(1)] l by (intro exI [of _ fl] exI [of _ s']) (simp add: min_def)
qed

text \<open>
  A voluntary yield charges the thread nothing: no thread's level or quanta change, so a thread that
  always yields before the clock ticks is never demoted.
\<close>

theorem yield_is_free:
  assumes "sched_inv s" "running_thread s \<noteq> reaper_thread s" "running_thread s \<noteq> scheduler_thread s"
  shows "\<exists>fl s'. minithread_yield s = Inr (fl, s') \<and> sched_inv s' \<and> tcbs s' = tcbs s"
proof -
  obtain fl s' where s': "minithread_yield s = Inr (fl, s')" "sched_inv s'" using minithread_yield_ok [OF assms(1)] by blast
  have cur: "running_thread s \<in> set (current s)" using assms(3) by (simp add: current_def)
  then have ok: "thread_ok s (curr_level s) (running_thread s)" using assms(1,2) by (auto simp: sched_inv_def)
  then obtain tc where tc: "tcbs s (running_thread s) = Some tc" "running_thread s \<noteq> NULL" "0 \<le> curr_level s" "curr_level s < 4"
    "t_quanta tc < level_quantum_value ! nat (curr_level s)"
    using assms(2) by (auto simp: thread_ok_def split: option.splits)
  have lev: "aget level_quantum_value (curr_level s) = Inr (level_quantum_value ! nat (curr_level s))"
    using tc by (simp add: aget_def level_quantum_value_def)
  obtain s2 where s2: "yield_running_thread (s\<lparr>interrupt_level := DISABLED\<rparr>) = Inr s2" "restore (interrupt_level s) s2 = Inr (fl, s')"
    using s'(1) tc lev by (auto simp: minithread_yield_def set_interrupt_level_def demote_if_exhausted_def exhausted_def deref_Some bindR_eq_Inr)
  obtain f2 t2 where "s2 = (f2, t2)" by (cases s2)
  with s2 yield_running_tcbs have "tcbs s' = tcbs s"
    by (cases f2) (auto simp: set_interrupt_level_def dest!: yield_running_tcbs)
  with s' show ?thesis by blast
qed

section \<open>Witnesses\<close>

text \<open>One thread is running, on the first level; the idle scheduler is 1, the reaper 2.\<close>

definition one_running :: kernel where
  "one_running = \<lparr>interrupt_level = ENABLED, nInterrupts = 0, alarm_queue = Some queue_new, alarms = Map.empty, alarm_brk = 1,
     minithreads_count = 3, tcbs = [1 \<mapsto> \<lparr>t_id = 0, t_status = None, t_level = 0, t_quanta = 0\<rparr>,
       2 \<mapsto> \<lparr>t_id = 1, t_status = None, t_level = 0, t_quanta = 0\<rparr>, 3 \<mapsto> \<lparr>t_id = 2, t_status = Some RUNNABLE, t_level = 0, t_quanta = 0\<rparr>],
     t_brk = 4, runnable_queue = Some \<lparr>level_queues = replicate 4 (Some queue_new), n_levels = 4\<rparr>, stopped_queue = Some queue_new,
     running_thread = 3, scheduler_thread = 1, reaper_thread = 2, curr_level = 0, curr_level_quanta = 0\<rparr>"

lemma one_running_inv: "sched_inv one_running"
proof -
  have m: "mlq_inv \<lparr>level_queues = replicate 4 (Some queue_new), n_levels = 4\<rparr>"
    "lvls \<lparr>level_queues = replicate 4 (Some queue_new), n_levels = 4\<rparr> = replicate 4 []"
    by (simp_all add: mlq_inv_def lvls_def list_all_iff)
  then show ?thesis
    by (simp add: sched_inv_def sched_core_def levels_ok_def current_def ready_def thread_ok_def one_running_def
        level_quantum_value_def level_max_quanta_def nth_replicate)
qed

theorem tick_demotes_witness:
  "\<exists>fl s' tc. implement_scheduler one_running = Inr (fl, s') \<and> tcbs s' 3 = Some tc \<and> t_level tc = 1 \<and> t_quanta tc = 0"
proof -
  have "tcbs one_running (running_thread one_running) = Some \<lparr>t_id = 2, t_status = Some RUNNABLE, t_level = 0, t_quanta = 0\<rparr>"
    by (simp add: one_running_def)
  from tick_demotes [OF one_running_inv this] show ?thesis
    by (auto simp: one_running_def level_quantum_value_def level_max_quanta_def)
qed

theorem yield_is_free_witness:
  "\<exists>fl s'. minithread_yield one_running = Inr (fl, s') \<and> tcbs s' = tcbs one_running"
  using yield_is_free [OF one_running_inv] by (auto simp: one_running_def)

end
