(* ===== verification/Synch.thy ===== *)
theory Synch
  imports Minithread
begin

text \<open>
  \<^verbatim>\<open>src/P1-P4/synch.c\<close>: counting semaphores over the scheduler. The state of the kernel is extended by
  the store of semaphores. The second half follows every thread through the system: a thread is
  running, in the ready queue, in the wait list of one semaphore, or asleep until an alarm, and no
  operation loses or duplicates one.
\<close>

section \<open>State and operations\<close>

record semaphore =
  s_count :: int
  wait_list :: "queue option"

record system = kernel +
  sems :: "ptr \<Rightarrow> semaphore option"
  sem_brk :: ptr

text \<open>\<open>junk\<close> is the content of the fresh memory.\<close>

definition semaphore_create :: "semaphore \<Rightarrow> bool \<Rightarrow> 'z system_scheme \<Rightarrow> (ptr \<times> 'z system_scheme) res" where
  "semaphore_create junk malloc_ok s = assertR malloc_ok
     (Inr (sem_brk s, s\<lparr>sems := (sems s)(sem_brk s \<mapsto> junk), sem_brk := Suc (sem_brk s)\<rparr>))"

definition semaphore_destroy :: "ptr \<Rightarrow> 'z system_scheme \<Rightarrow> 'z system_scheme res" where
  "semaphore_destroy p s = assertR (p \<noteq> NULL)
     (let (old_level, s1) = set_interrupt_level DISABLED s in
      bindR (deref (sems s1) p) (\<lambda>sem. bindR (queue_free (wait_list sem)) (\<lambda>_.
        Inr (snd (set_interrupt_level old_level (s1\<lparr>sems := (sems s1)(p := None)\<rparr>))))))"

definition semaphore_initialize :: "ptr \<Rightarrow> int \<Rightarrow> 'z system_scheme \<Rightarrow> 'z system_scheme res" where
  "semaphore_initialize p cnt s = assertR (p \<noteq> NULL)
     (bindR (deref (sems s) p) (\<lambda>sem.
        Inr (s\<lparr>sems := (sems s)(p \<mapsto> \<lparr>s_count = cnt, wait_list = Some queue_new\<rparr>)\<rparr>)))"

definition semaphore_P :: "ptr \<Rightarrow> 'z system_scheme \<Rightarrow> (flow \<times> 'z system_scheme) res" where
  "semaphore_P p s = assertR (p \<noteq> NULL)
     (let (old_level, s1) = set_interrupt_level DISABLED s in
      bindR (deref (sems s1) p) (\<lambda>sem.
      let sem1 = sem\<lparr>s_count := s_count sem - 1\<rparr> in
      if s_count sem1 < 0 then
        bindR (queue_append (wait_list sem1) (minithread_self s1)) (\<lambda>(r, q).
        bindR (minithread_stop (s1\<lparr>sems := (sems s1)(p \<mapsto> sem1\<lparr>wait_list := q\<rparr>)\<rparr>)) (restore old_level))
      else restore old_level (Returned, s1\<lparr>sems := (sems s1)(p \<mapsto> sem1)\<rparr>)))"

definition semaphore_V :: "ptr \<Rightarrow> 'z system_scheme \<Rightarrow> 'z system_scheme res" where
  "semaphore_V p s = assertR (p \<noteq> NULL)
     (let (old_level, s1) = set_interrupt_level DISABLED s in
      bindR (deref (sems s1) p) (\<lambda>sem.
      let sem1 = sem\<lparr>s_count := s_count sem + 1\<rparr> in
      bindR (if s_count sem1 \<le> 0 then
               bindR (queue_dequeue (wait_list sem1)) (\<lambda>(r, thread, q).
                 minithread_start thread (s1\<lparr>sems := (sems s1)(p \<mapsto> sem1\<lparr>wait_list := q\<rparr>)\<rparr>))
             else Inr (s1\<lparr>sems := (sems s1)(p \<mapsto> sem1)\<rparr>)) (\<lambda>s2.
      Inr (snd (set_interrupt_level old_level s2)))))"

definition semaphore_get_count :: "ptr \<Rightarrow> 'z system_scheme \<Rightarrow> int res" where
  "semaphore_get_count p s = assertR (p \<noteq> NULL) (bindR (deref (sems s) p) (\<lambda>sem. Inr (s_count sem)))"

text \<open>The code behind the alarm handlers; \<open>close\<close> is the one the stream layer registers.\<close>

fun run_handler :: "(ptr \<Rightarrow> 'z system_scheme \<Rightarrow> 'z system_scheme res) \<Rightarrow>
    alarm_handler \<Rightarrow> ptr \<Rightarrow> 'z system_scheme \<Rightarrow> 'z system_scheme res" where
  "run_handler close Alarm_call_back p s = minithread_start p s"
| "run_handler close Semaphore_V p s = semaphore_V p s"
| "run_handler close Minisocket_close p s = close p s"

section \<open>Where every thread is\<close>

definition waiters :: "'z system_scheme \<Rightarrow> ptr \<Rightarrow> ptr list" where
  "waiters s p = (case sems s p of None \<Rightarrow> [] | Some sem \<Rightarrow> oq_items (wait_list sem))"

definition waiting :: "'z system_scheme \<Rightarrow> ptr multiset" where
  "waiting s = (\<Sum>p\<in>{..<sem_brk s}. mset (waiters s p))"

definition sleeping :: "'z system_scheme \<Rightarrow> ptr multiset" where
  "sleeping s = image_mset (\<lambda>x. arg (the (alarms s (fst x))))
     (filter_mset (\<lambda>x. map_option call_back (alarms s (fst x)) = Some Alarm_call_back) (mset (pending s)))"

definition places :: "'z system_scheme \<Rightarrow> ptr multiset" where
  "places s = mset (current s) + mset (ready s) + waiting s + sleeping s"

text \<open>A negative count is the number of waiting threads.\<close>

definition sem_ok :: "semaphore \<Rightarrow> bool" where
  "sem_ok sem \<longleftrightarrow> oq_inv (wait_list sem) \<and> int (length (oq_items (wait_list sem))) = max 0 (- s_count sem)"

definition sems_ok :: "'z system_scheme \<Rightarrow> bool" where
  "sems_ok s \<longleftrightarrow> 0 < sem_brk s \<and> (\<forall>p sem. sems s p = Some sem \<longrightarrow> 0 < p \<and> p < sem_brk s \<and> sem_ok sem)"

definition handlers_ok :: "'z system_scheme \<Rightarrow> bool" where
  "handlers_ok s \<longleftrightarrow> (\<forall>x\<in>set (pending s). \<forall>al. alarms s (fst x) = Some al \<longrightarrow>
     call_back al = Alarm_call_back \<or> call_back al = Semaphore_V \<and> sems s (arg al) \<noteq> None)"

definition threads_inv :: "'z system_scheme \<Rightarrow> bool" where
  "threads_inv s \<longleftrightarrow> sched_inv s \<and> (\<forall>t. count (places s) t \<le> 1) \<and> (\<forall>t\<in>#places s. \<exists>l. thread_ok s l t) \<and>
     sems_ok s \<and> handlers_ok s"

definition sys_inv :: "'z system_scheme \<Rightarrow> bool" where
  "sys_inv s \<longleftrightarrow> threads_inv s \<and> alarm_inv s"

section \<open>Framing\<close>

lemma frame_places:
  assumes "sched_frame s s'"
  shows "waiting s' = waiting s" "sleeping s' = sleeping s" "sems_ok s' = sems_ok s" "handlers_ok s' = handlers_ok s"
    "alarm_inv s' = alarm_inv s" "pending s' = pending s" "sems s' = sems s" "waiters s' p = waiters s p"
    "sem_brk s' = sem_brk s"
proof -
  from assms obtain il ts rq r c q where s': "s' = s\<lparr>interrupt_level := il, tcbs := ts, runnable_queue := rq,
    running_thread := r, curr_level := c, curr_level_quanta := q\<rparr>" unfolding sched_frame_def by blast
  show "waiting s' = waiting s" "sleeping s' = sleeping s" "sems_ok s' = sems_ok s" "handlers_ok s' = handlers_ok s"
    "alarm_inv s' = alarm_inv s" "pending s' = pending s" "sems s' = sems s" "waiters s' p = waiters s p"
    "sem_brk s' = sem_brk s"
    by (simp_all add: s' waiting_def waiters_def sleeping_def sems_ok_def handlers_ok_def pending_def alarm_inv_def)
qed

lemma pending_interrupts [simp]: "pending (s\<lparr>interrupt_level := i\<rparr>) = pending s"
  by (simp add: pending_def)

lemma kernel_sems [simp]:
  "sched_inv (s\<lparr>sems := m\<rparr>) = sched_inv s" "current (s\<lparr>sems := m\<rparr>) = current s" "ready (s\<lparr>sems := m\<rparr>) = ready s"
  "thread_ok (s\<lparr>sems := m\<rparr>) l t = thread_ok s l t" "sleeping (s\<lparr>sems := m\<rparr>) = sleeping s"
  "pending (s\<lparr>sems := m\<rparr>) = pending s" "alarm_inv (s\<lparr>sems := m\<rparr>) = alarm_inv s"
  by (simp_all add: sched_inv_def sched_core_def levels_ok_def thread_ok_def current_def ready_def sleeping_def
        pending_def alarm_inv_def cong: option.case_cong)

lemma kernel_alarms:
  "sched_inv (s\<lparr>alarm_queue := q, alarms := m\<rparr>) = sched_inv s" "current (s\<lparr>alarm_queue := q, alarms := m\<rparr>) = current s"
  "ready (s\<lparr>alarm_queue := q, alarms := m\<rparr>) = ready s" "waiting (s\<lparr>alarm_queue := q, alarms := m\<rparr>) = waiting s"
  "sems_ok (s\<lparr>alarm_queue := q, alarms := m\<rparr>) = sems_ok s"
  by (simp_all add: sched_inv_def sched_core_def levels_ok_def thread_ok_def current_def ready_def waiting_def
        waiters_def sems_ok_def cong: option.case_cong)

lemma waiting_upd:
  assumes "p < sem_brk s"
  shows "waiting (s\<lparr>sems := (sems s)(p \<mapsto> sem)\<rparr>) + mset (waiters s p) = waiting s + mset (oq_items (wait_list sem))"
proof -
  let ?s = "s\<lparr>sems := (sems s)(p \<mapsto> sem)\<rparr>"
  have p: "finite {..<sem_brk s}" "p \<in> {..<sem_brk s}" using assms by auto
  have "waiting ?s = mset (waiters ?s p) + (\<Sum>x\<in>{..<sem_brk s} - {p}. mset (waiters ?s x))"
    using sum.remove [OF p] by (simp add: waiting_def)
  moreover have "(\<Sum>x\<in>{..<sem_brk s} - {p}. mset (waiters ?s x)) = (\<Sum>x\<in>{..<sem_brk s} - {p}. mset (waiters s x))"
    by (rule sum.cong) (auto simp: waiters_def)
  moreover have "waiting s = mset (waiters s p) + (\<Sum>x\<in>{..<sem_brk s} - {p}. mset (waiters s x))"
    using sum.remove [OF p] by (simp add: waiting_def)
  moreover have "waiters ?s p = oq_items (wait_list sem)" by (simp add: waiters_def)
  ultimately show ?thesis by simp
qed

lemma threads_inv_interrupts [simp]:
  "threads_inv (s\<lparr>interrupt_level := i\<rparr>) = threads_inv s" "places (s\<lparr>interrupt_level := i\<rparr>) = places s"
  "alarm_inv (s\<lparr>interrupt_level := i\<rparr>) = alarm_inv s" "sems_ok (s\<lparr>interrupt_level := i\<rparr>) = sems_ok s"
  "handlers_ok (s\<lparr>interrupt_level := i\<rparr>) = handlers_ok s" "waiting (s\<lparr>interrupt_level := i\<rparr>) = waiting s"
  "sleeping (s\<lparr>interrupt_level := i\<rparr>) = sleeping s"
  using frame_places [OF sched_frame_interrupts [of s i]]
  by (simp_all add: threads_inv_def places_def)

lemma sched_step_inv:
  assumes inv: "threads_inv s" and fr: "sched_frame s s'" and inv': "sched_inv s'"
    and cons: "mset (current s' @ ready s') = mset (current s @ ready s)"
    and oth: "\<forall>t. t \<noteq> running_thread s \<longrightarrow> tcbs s' t = tcbs s t"
  shows "threads_inv s' \<and> places s' = places s"
proof -
  note f = frame_places [OF fr]
  have pl: "places s' = places s" using cons f by (simp add: places_def)
  have "\<exists>l. thread_ok s' l t" if t: "t \<in># places s" for t
  proof (cases "t \<in> set (current s @ ready s)")
    case True
    then have "t \<in> set (current s' @ ready s')" using cons by (metis mset_eq_setD)
    then show ?thesis using inv' ready_thread by (auto simp: sched_inv_def sched_core_def)
  next
    case False
    obtain l where l: "thread_ok s l t" using inv t by (auto simp: threads_inv_def)
    then have "t \<noteq> scheduler_thread s" by (auto elim: thread_okE)
    then have "t \<noteq> running_thread s" using False by (auto simp: current_def split: if_splits)
    then have "thread_ok s' l t" using l oth sched_frame_fields [OF fr] thread_ok_cong by metis
    then show ?thesis by blast
  qed
  then show ?thesis using inv inv' f pl by (simp add: threads_inv_def)
qed

section \<open>P and V\<close>

lemma sems_ok_upd:
  "sems_ok s \<Longrightarrow> 0 < p \<Longrightarrow> p < sem_brk s \<Longrightarrow> sem_ok sem \<Longrightarrow> sems_ok (s\<lparr>sems := (sems s)(p \<mapsto> sem)\<rparr>)"
  by (auto simp: sems_ok_def)

lemma handlers_ok_upd:
  "handlers_ok s \<Longrightarrow> handlers_ok (s\<lparr>sems := (sems s)(p \<mapsto> sem)\<rparr>)"
  by (auto simp: handlers_ok_def)

lemma threads_inv_sem:
  assumes "threads_inv s" "sems s p = Some sem"
  shows "sem_ok sem" "p \<noteq> NULL" "p < sem_brk s" "waiters s p = oq_items (wait_list sem)"
  using assms by (auto simp: threads_inv_def sems_ok_def waiters_def)

text \<open>A change of the count alone, on the side of zero where no thread waits.\<close>

lemma sem_count_only:
  assumes "threads_inv s" "sems s p = Some sem" "sem_ok (sem\<lparr>s_count := c\<rparr>)"
  shows "threads_inv (s\<lparr>sems := (sems s)(p \<mapsto> sem\<lparr>s_count := c\<rparr>)\<rparr>) \<and>
    places (s\<lparr>sems := (sems s)(p \<mapsto> sem\<lparr>s_count := c\<rparr>)\<rparr>) = places s"
proof -
  note sem = threads_inv_sem [OF assms(1,2)]
  let ?s = "s\<lparr>sems := (sems s)(p \<mapsto> sem\<lparr>s_count := c\<rparr>)\<rparr>"
  have "waiting ?s = waiting s" using waiting_upd [OF sem(3), of "sem\<lparr>s_count := c\<rparr>"] sem(4) by simp
  then have pl: "places ?s = places s" by (simp add: places_def)
  have "sems_ok ?s" using assms sem by (intro sems_ok_upd) (simp_all add: threads_inv_def)
  moreover have "handlers_ok ?s" using assms by (intro handlers_ok_upd) (simp add: threads_inv_def)
  ultimately show ?thesis using assms(1) pl by (simp add: threads_inv_def)
qed

lemma semaphore_P_pass:
  assumes "threads_inv s" "sems s p = Some sem" "0 < s_count sem"
  shows "semaphore_P p s = Inr (Returned, s\<lparr>sems := (sems s)(p \<mapsto> sem\<lparr>s_count := s_count sem - 1\<rparr>)\<rparr>) \<and>
    threads_inv (s\<lparr>sems := (sems s)(p \<mapsto> sem\<lparr>s_count := s_count sem - 1\<rparr>)\<rparr>) \<and>
    places (s\<lparr>sems := (sems s)(p \<mapsto> sem\<lparr>s_count := s_count sem - 1\<rparr>)\<rparr>) = places s"
proof -
  note sem = threads_inv_sem [OF assms(1,2)]
  have "sem_ok (sem\<lparr>s_count := s_count sem - 1\<rparr>)" using sem(1) assms(3) by (simp add: sem_ok_def)
  then have c: "threads_inv (s\<lparr>sems := (sems s)(p \<mapsto> sem\<lparr>s_count := s_count sem - 1\<rparr>)\<rparr>) \<and>
    places (s\<lparr>sems := (sems s)(p \<mapsto> sem\<lparr>s_count := s_count sem - 1\<rparr>)\<rparr>) = places s"
    by (rule sem_count_only [OF assms(1,2)])
  then show ?thesis using assms(2,3) sem(2)
    by (simp add: semaphore_P_def set_interrupt_level_def deref_Some)
qed

text \<open>The same on any state, when only the result matters.\<close>

lemma semaphore_P_passes:
  "p \<noteq> NULL \<Longrightarrow> sems s p = Some sem \<Longrightarrow> 0 < s_count sem \<Longrightarrow>
   semaphore_P p s = Inr (Returned, s\<lparr>sems := (sems s)(p \<mapsto> sem\<lparr>s_count := s_count sem - 1\<rparr>)\<rparr>)"
  by (simp add: semaphore_P_def set_interrupt_level_def deref_Some)

lemma semaphore_V_passes:
  "p \<noteq> NULL \<Longrightarrow> sems s p = Some sem \<Longrightarrow> 0 \<le> s_count sem \<Longrightarrow>
   semaphore_V p s = Inr (s\<lparr>sems := (sems s)(p \<mapsto> sem\<lparr>s_count := s_count sem + 1\<rparr>)\<rparr>)"
  by (simp add: semaphore_V_def set_interrupt_level_def deref_Some)

lemma count_le1_notin:
  "\<forall>t. count (M + N) t \<le> 1 \<Longrightarrow> t \<in># M \<Longrightarrow> t \<notin># N"
  by (drule spec [of _ t]) (simp add: not_in_iff flip: count_greater_zero_iff)

lemma semaphore_P_block:
  assumes inv: "threads_inv s" and sem: "sems s p = Some sem" and neg: "s_count sem \<le> 0"
    and run: "running_thread s \<noteq> scheduler_thread s"
  shows "\<exists>fl s'. semaphore_P p s = Inr (fl, s') \<and> threads_inv s' \<and> places s' = places s \<and>
    map_option s_count (sems s' p) = Some (s_count sem - 1) \<and>
    waiters s' p = waiters s p @ [running_thread s] \<and> (\<forall>p'. p' \<noteq> p \<longrightarrow> sems s' p' = sems s p') \<and>
    mset (current s' @ ready s') = mset (ready s) \<and> alarm_inv s' = alarm_inv s \<and> pending s' = pending s \<and>
    scheduler_thread s' = scheduler_thread s"
proof -
  note sm = threads_inv_sem [OF inv sem]
  obtain q where q: "queue_append (wait_list sem) (running_thread s) = Inr (0, q)" "oq_inv q"
    "oq_items q = oq_items (wait_list sem) @ [running_thread s]"
    using sm(1) lq.app_returns by (metis sem_ok_def)
  define sem' where "sem' = sem\<lparr>s_count := s_count sem - 1, wait_list := q\<rparr>"
  have ok': "sem_ok sem'" using sm(1) q neg by (simp add: sem_ok_def sem'_def)
  define s1 where "s1 = s\<lparr>interrupt_level := DISABLED, sems := (sems s)(p \<mapsto> sem')\<rparr>"
  have s1: "sched_inv s1" "current s1 = current s" "ready s1 = ready s" "current s = [running_thread s]"
    "running_thread s1 = running_thread s" "sleeping s1 = sleeping s"
    "\<And>l t. thread_ok s1 l t = thread_ok s l t" "alarm_inv s1 = alarm_inv s" "sem_brk s1 = sem_brk s"
    using inv run by (simp_all add: s1_def threads_inv_def current_def [of s] sleeping_def pending_def)
  have w1: "waiting s1 = waiting s + {#running_thread s#}"
    using waiting_upd [OF sm(3), of sem'] sm(4) q(3)
    by (simp add: s1_def sem'_def waiting_def waiters_def)
  obtain fl s2 where s2: "minithread_stop s1 = Inr (fl, s2)" "sched_inv s2" "sched_frame s1 s2"
    "mset (current s2 @ ready s2) = mset (ready s1)" "\<forall>t\<in>set (current s1). \<exists>l. thread_ok s2 l t"
    "\<forall>t. t \<noteq> running_thread s1 \<longrightarrow> tcbs s2 t = tcbs s1 t"
    using minithread_stop_ok [OF s1(1)] by blast
  obtain i where i: "restore (interrupt_level s) (fl, s2) = Inr (fl, s2\<lparr>interrupt_level := i\<rparr>)"
    by (rule restore_returns)
  define s' where "s' = s2\<lparr>interrupt_level := i\<rparr>"
  have call: "semaphore_P p s = Inr (fl, s')"
    using sem sm(2) neg q(1) s2(1) i
    by (simp add: semaphore_P_def set_interrupt_level_def deref_Some minithread_self_def s1_def sem'_def s'_def)
  note f = frame_places [OF s2(3)]
  have pl: "places s2 = places s"
    using s2(4) s1 w1 f by (simp add: places_def)
  have "\<exists>l. thread_ok s2 l t" if t: "t \<in># places s" for t
  proof (cases "t = running_thread s")
    case True
    then show ?thesis using s2(5) s1 by simp
  next
    case False
    obtain l where "thread_ok s1 l t" using inv t s1(7) by (auto simp: threads_inv_def)
    then have "thread_ok s2 l t"
      using s2(6) False s1(5) sched_frame_fields [OF s2(3)] thread_ok_cong by metis
    then show ?thesis by blast
  qed
  moreover have "sems_ok s2" "handlers_ok s2"
    using inv sm(2,3) ok' f sems_ok_upd [of "s\<lparr>interrupt_level := DISABLED\<rparr>" p sem']
      handlers_ok_upd [of "s\<lparr>interrupt_level := DISABLED\<rparr>" p sem']
    by (simp_all add: threads_inv_def s1_def)
  ultimately have "threads_inv s2" using inv pl s2(2) by (simp add: threads_inv_def)
  moreover have "waiters s2 p = waiters s p @ [running_thread s]"
    using f sm(4) q(3) by (simp add: waiters_def s1_def sem'_def)
  moreover have "sems s2 = (sems s)(p \<mapsto> sem')" using f by (simp add: s1_def)
  moreover have "scheduler_thread s2 = scheduler_thread s" "pending s1 = pending s"
    using sched_frame_fields(8) [OF s2(3)] by (simp_all add: s1_def pending_def)
  ultimately show ?thesis using call pl s2(4) s1 f
    by (intro exI [of _ fl] exI [of _ s']) (simp add: s'_def sem'_def waiters_def pending_interrupts)
qed

lemma semaphore_V_nobody:
  assumes "threads_inv s" "sems s p = Some sem" "0 \<le> s_count sem"
  shows "semaphore_V p s = Inr (s\<lparr>sems := (sems s)(p \<mapsto> sem\<lparr>s_count := s_count sem + 1\<rparr>)\<rparr>) \<and>
    threads_inv (s\<lparr>sems := (sems s)(p \<mapsto> sem\<lparr>s_count := s_count sem + 1\<rparr>)\<rparr>) \<and>
    places (s\<lparr>sems := (sems s)(p \<mapsto> sem\<lparr>s_count := s_count sem + 1\<rparr>)\<rparr>) = places s"
proof -
  note sem = threads_inv_sem [OF assms(1,2)]
  have "sem_ok (sem\<lparr>s_count := s_count sem + 1\<rparr>)" using sem(1) assms(3) by (simp add: sem_ok_def)
  then have c: "threads_inv (s\<lparr>sems := (sems s)(p \<mapsto> sem\<lparr>s_count := s_count sem + 1\<rparr>)\<rparr>) \<and>
    places (s\<lparr>sems := (sems s)(p \<mapsto> sem\<lparr>s_count := s_count sem + 1\<rparr>)\<rparr>) = places s"
    by (rule sem_count_only [OF assms(1,2)])
  then show ?thesis using assms(2,3) sem(2)
    by (simp add: semaphore_V_def set_interrupt_level_def deref_Some)
qed

text \<open>Starting a thread from outside the scheduler's own places.\<close>

lemma start_parked:
  assumes "sched_inv s" "thread_ok s l t" "t \<notin> set (current s @ ready s)"
  shows "\<exists>s'. minithread_start t s = Inr s' \<and> sched_inv s' \<and> sched_frame s s' \<and>
    current s' = current s \<and> mset (ready s') = add_mset t (mset (ready s)) \<and>
    (\<forall>t' l'. thread_ok s' l' t' = thread_ok s l' t') \<and> running_thread s' = running_thread s \<and>
    interrupt_level s' = interrupt_level s"
  using minithread_start_ok [OF assms] by blast

lemma semaphore_V_wake:
  assumes inv: "threads_inv s" and sem: "sems s p = Some sem" and neg: "s_count sem < 0"
  shows "\<exists>t ts s'. waiters s p = t # ts \<and> semaphore_V p s = Inr s' \<and> threads_inv s' \<and> places s' = places s \<and>
    map_option s_count (sems s' p) = Some (s_count sem + 1) \<and>
    waiters s' p = ts \<and> (\<forall>p'. p' \<noteq> p \<longrightarrow> sems s' p' = sems s p') \<and>
    current s' = current s \<and> mset (ready s') = add_mset t (mset (ready s)) \<and>
    sleeping s' = sleeping s \<and> alarm_queue s' = alarm_queue s \<and> alarms s' = alarms s \<and>
    alarm_brk s' = alarm_brk s \<and> nInterrupts s' = nInterrupts s \<and> scheduler_thread s' = scheduler_thread s \<and>
    system.more s' = system.more s"
proof -
  note sm = threads_inv_sem [OF inv sem]
  have oq: "oq_inv (wait_list sem)" using sm(1) by (simp add: sem_ok_def)
  have "oq_items (wait_list sem) \<noteq> []" using sm(1) neg by (auto simp: sem_ok_def)
  then obtain t ts where ts: "oq_items (wait_list sem) = t # ts" by (cases "oq_items (wait_list sem)") auto
  obtain q where q: "queue_dequeue (wait_list sem) = Inr (0, t, q)" "oq_inv q" "oq_items q = ts"
    using lq.deq_first [OF oq ts] by blast
  define sem' where "sem' = sem\<lparr>s_count := s_count sem + 1, wait_list := q\<rparr>"
  have ok': "sem_ok sem'" using sm(1) q ts neg by (simp add: sem_ok_def sem'_def)
  define s1 where "s1 = s\<lparr>interrupt_level := DISABLED, sems := (sems s)(p \<mapsto> sem')\<rparr>"
  have s1: "sched_inv s1" "current s1 = current s" "ready s1 = ready s" "sleeping s1 = sleeping s"
    "\<And>l t. thread_ok s1 l t = thread_ok s l t" "sem_brk s1 = sem_brk s"
    using inv by (simp_all add: s1_def threads_inv_def sleeping_def pending_def)
  have w1: "waiting s = add_mset t (waiting s1)"
    using waiting_upd [OF sm(3), of sem'] sm(4) q(3) ts
    by (simp add: s1_def sem'_def waiting_def waiters_def)
  then have tp: "t \<in># places s" by (simp add: places_def)
  then obtain l where l: "thread_ok s1 l t" using inv s1(5) by (auto simp: threads_inv_def)
  have "count (places s) t \<le> 1" using inv by (simp add: threads_inv_def)
  then have fresh: "t \<notin> set (current s1 @ ready s1)"
    unfolding places_def w1 s1 by (auto simp flip: count_mset_0_iff)
  obtain s2 where s2: "minithread_start t s1 = Inr s2" "sched_inv s2" "sched_frame s1 s2"
    "current s2 = current s1" "mset (ready s2) = add_mset t (mset (ready s1))"
    "\<forall>t' l'. thread_ok s2 l' t' = thread_ok s1 l' t'"
    using start_parked [OF s1(1) l fresh] by blast
  define s' where "s' = s2\<lparr>interrupt_level := interrupt_level s\<rparr>"
  have call: "semaphore_V p s = Inr s'"
    using sem sm(2) neg q(1) s2(1)
    by (simp add: semaphore_V_def set_interrupt_level_def deref_Some s1_def sem'_def s'_def)
  note f = frame_places [OF s2(3)]
  have pl: "places s2 = places s" using s2(4,5) s1 w1 f by (simp add: places_def)
  have "sems_ok s2" "handlers_ok s2"
    using inv sm(2,3) ok' f sems_ok_upd [of "s\<lparr>interrupt_level := DISABLED\<rparr>" p sem']
      handlers_ok_upd [of "s\<lparr>interrupt_level := DISABLED\<rparr>" p sem']
    by (simp_all add: threads_inv_def s1_def)
  then have "threads_inv s2" using inv pl s2(2,6) s1(5) by (simp add: threads_inv_def)
  moreover have w: "waiters s p = t # ts" "waiters s2 p = ts"
    using f sm(4) q(3) ts by (simp_all add: waiters_def s1_def sem'_def)
  moreover have "sems s2 = (sems s)(p \<mapsto> sem')" using f by (simp add: s1_def)
  moreover have "alarm_queue s2 = alarm_queue s" "alarms s2 = alarms s" "alarm_brk s2 = alarm_brk s"
    "nInterrupts s2 = nInterrupts s" "scheduler_thread s2 = scheduler_thread s"
    using sched_frame_fields(1-4,8) [OF s2(3)] by (simp_all add: s1_def)
  moreover have "system.more s2 = system.more s"
    using s2(3) unfolding sched_frame_def by (elim exE) (simp add: s1_def)
  ultimately show ?thesis using call pl s2(4,5) s1 f
    by (intro exI [of _ t] exI [of _ ts] exI [of _ s']) (simp add: s'_def sem'_def waiters_def sleeping_def pending_def)
qed

text \<open>A fresh semaphore with a non-negative count satisfies the invariant; nobody waits.\<close>

lemma semaphore_new_ok:
  assumes inv: "threads_inv s" and cnt: "0 \<le> cnt" and fresh: "sems s (sem_brk s) = None"
  shows "\<exists>s1 s2. semaphore_create junk True s = Inr (sem_brk s, s1) \<and>
    semaphore_initialize (sem_brk s) cnt s1 = Inr s2 \<and> threads_inv s2 \<and> places s2 = places s \<and>
    semaphore_get_count (sem_brk s) s2 = Inr cnt \<and> waiters s2 (sem_brk s) = [] \<and> alarm_inv s2 = alarm_inv s"
proof -
  define p where "p = sem_brk s"
  define m where "m = (sems s)(p \<mapsto> \<lparr>s_count = cnt, wait_list = Some queue_new\<rparr>)"
  define s2 where "s2 = s\<lparr>sems := m, sem_brk := Suc p\<rparr>"
  have p: "p \<noteq> NULL" using inv by (simp add: p_def threads_inv_def sems_ok_def)
  have create: "semaphore_create junk True s = Inr (p, s\<lparr>sems := (sems s)(p \<mapsto> junk), sem_brk := Suc p\<rparr>)"
    by (simp add: semaphore_create_def p_def)
  have init: "semaphore_initialize p cnt (s\<lparr>sems := (sems s)(p \<mapsto> junk), sem_brk := Suc p\<rparr>) = Inr s2"
    using p by (simp add: semaphore_initialize_def deref_Some s2_def m_def)
  have cnt': "semaphore_get_count p s2 = Inr cnt"
    using p by (simp add: semaphore_get_count_def deref_Some s2_def m_def)
  have brk: "\<And>l t. thread_ok (x\<lparr>sem_brk := k\<rparr>) l t = thread_ok x l t" "sched_inv (x\<lparr>sem_brk := k\<rparr>) = sched_inv x"
    "current (x\<lparr>sem_brk := k\<rparr>) = current x" "ready (x\<lparr>sem_brk := k\<rparr>) = ready x" for x :: "'a system_scheme" and k
    by (simp_all add: sched_inv_def sched_core_def levels_ok_def thread_ok_def current_def ready_def cong: option.case_cong)
  have w: "waiters s2 x = (if x = p then [] else waiters s x)" for x by (simp add: waiters_def s2_def m_def)
  moreover have "waiters s p = []" using fresh by (simp add: waiters_def p_def)
  ultimately have "waiters s2 = waiters s" by fastforce
  then have "waiting s2 = waiting s" using w [of p] by (simp add: waiting_def s2_def p_def lessThan_Suc)
  then have pl: "places s2 = places s"
    by (simp add: places_def s2_def brk) (simp add: sleeping_def pending_def)
  have "sems_ok s2" using inv cnt p
    by (auto simp: threads_inv_def sems_ok_def s2_def m_def p_def sem_ok_def less_SucI split: if_splits)
  moreover have "handlers_ok s2" using inv
    by (auto simp: threads_inv_def handlers_ok_def s2_def m_def pending_def)
  ultimately have "threads_inv s2" using inv pl by (simp add: threads_inv_def) (simp add: s2_def brk)
  moreover have "alarm_inv s2 = alarm_inv s" by (rule alarm_inv_cong) (simp_all add: s2_def)
  ultimately show ?thesis using create init cnt' pl w [of p] by (auto simp: p_def)
qed

section \<open>Clock interrupts\<close>

text \<open>Once the first pending alarm is removed, the thread it held is no longer counted as asleep.\<close>

lemma sleeping_remove:
  assumes "alarm_inv s" "pending s = (a, e) # es" "alarms s a = Some al"
    "alarm_queue s' = Some q" "q_entries q = es" "alarms s' = (alarms s)(a := None)"
  shows "sleeping s = (if call_back al = Alarm_call_back then add_mset (arg al) (sleeping s') else sleeping s')"
proof -
  have pend: "pending s' = es" using assms(4,5) by (simp add: pending_def)
  have a: "fst x \<noteq> a" if "x \<in># mset es" for x
    using assms(1,2) that by (force simp: alarm_inv_def)
  have f: "filter_mset (\<lambda>x. map_option call_back (alarms s' (fst x)) = Some Alarm_call_back) (mset es) =
      filter_mset (\<lambda>x. map_option call_back (alarms s (fst x)) = Some Alarm_call_back) (mset es)"
    using a assms(6) by (intro filter_mset_cong refl) auto
  have "sleeping s' = image_mset (\<lambda>x. arg (the (alarms s (fst x))))
     (filter_mset (\<lambda>x. map_option call_back (alarms s (fst x)) = Some Alarm_call_back) (mset es))"
    unfolding sleeping_def pend f using a assms(6) by (intro image_mset_cong) auto
  then show ?thesis using assms(2,3) by (simp add: sleeping_def [of s])
qed

interpretation tick: alarm_client "run_handler close" "\<lambda>s :: 'z system_scheme. threads_inv s \<and> places s = P"
  for close P
proof
  fix s :: "'z system_scheme" and a e es al
  assume good: "threads_inv s \<and> places s = P" and ai: "alarm_inv s" and p: "pending s = (a, e) # es"
    and al: "alarms s a = Some al"
  have gd: "sched_inv s" "\<forall>t\<in>#P. \<exists>l. thread_ok s l t" "sems_ok s" "places s = P"
    using good by (auto simp: threads_inv_def)
  have hok: "call_back al = Alarm_call_back \<or> call_back al = Semaphore_V \<and> sems s (arg al) \<noteq> None"
    using good p al by (auto simp: threads_inv_def handlers_ok_def)
  have fin: "threads_inv (s'\<lparr>alarm_queue := Some q, alarms := (alarms s)(a := None)\<rparr>) \<and>
      places (s'\<lparr>alarm_queue := Some q, alarms := (alarms s)(a := None)\<rparr>) = P"
    if q: "queue_inv q" "q_entries q = es" and s': "sched_inv s'" "sems_ok s'"
      "alarm_queue s' = alarm_queue s" "alarms s' = alarms s"
      "\<And>p. sems s p \<noteq> None \<Longrightarrow> sems s' p \<noteq> None" "\<forall>t\<in>#P. \<exists>l. thread_ok s' l t"
      "mset (current s') + mset (ready s') + waiting s' + sleeping s =
         (if call_back al = Alarm_call_back then add_mset (arg al) P else P)" for s' q
  proof -
    define s2 where "s2 = s'\<lparr>alarm_queue := Some q, alarms := (alarms s)(a := None)\<rparr>"
    have tok: "thread_ok s2 l t = thread_ok s' l t" for l t by (rule thread_ok_cong) (simp_all add: s2_def)
    have k: "sched_inv s2" "current s2 = current s'" "ready s2 = ready s'" "waiting s2 = waiting s'" "sems_ok s2"
      using s'(1,2) by (simp_all add: s2_def kernel_alarms)
    have "sleeping s = (if call_back al = Alarm_call_back then add_mset (arg al) (sleeping s2) else sleeping s2)"
      using sleeping_remove [OF ai p al, of s2 q] q by (simp add: s2_def)
    then have "places s2 = P" using s'(7) k by (auto simp: places_def split: if_splits)
    moreover have "handlers_ok s2"
      unfolding handlers_ok_def
    proof (intro ballI allI impI)
      fix x al' assume "x \<in> set (pending s2)" "alarms s2 (fst x) = Some al'"
      then have "x \<in> set (pending s)" "alarms s (fst x) = Some al'"
        using q(2) p by (auto simp: s2_def pending_def split: if_splits)
      then have "call_back al' = Alarm_call_back \<or> call_back al' = Semaphore_V \<and> sems s (arg al') \<noteq> None"
        using good unfolding threads_inv_def handlers_ok_def by blast
      then show "call_back al' = Alarm_call_back \<or> call_back al' = Semaphore_V \<and> sems s2 (arg al') \<noteq> None"
        using s'(5) by (auto simp: s2_def)
    qed
    ultimately show ?thesis using k good s'(6) tok unfolding s2_def [symmetric] by (auto simp: threads_inv_def)
  qed
  show "\<exists>s'. run_handler close (call_back al) (arg al) s = Inr s' \<and> alarm_queue s' = alarm_queue s \<and>
      alarms s' = alarms s \<and> alarm_brk s' = alarm_brk s \<and> nInterrupts s' = nInterrupts s \<and>
      (\<forall>q. queue_inv q \<and> q_entries q = es \<longrightarrow>
         threads_inv (s'\<lparr>alarm_queue := Some q, alarms := (alarms s)(a := None)\<rparr>) \<and>
         places (s'\<lparr>alarm_queue := Some q, alarms := (alarms s)(a := None)\<rparr>) = P)"
  proof (cases "call_back al = Alarm_call_back")
    case True
    have slp: "arg al \<in># sleeping s" using True p al by (simp add: sleeping_def)
    then have inp: "arg al \<in># places s" by (simp add: places_def)
    then obtain l where l: "thread_ok s l (arg al)" using good by (auto simp: threads_inv_def)
    have "count (places s) (arg al) \<le> 1" using good by (auto simp: threads_inv_def)
    then have fresh: "arg al \<notin> set (current s @ ready s)"
      using slp unfolding places_def by (auto simp flip: count_mset_0_iff count_greater_zero_iff)
    have si: "sched_inv s" using good by (simp add: threads_inv_def)
    obtain s' where s': "minithread_start (arg al) s = Inr s'" "sched_inv s'" "sched_frame s s'"
      "current s' = current s" "mset (ready s') = add_mset (arg al) (mset (ready s))"
      "\<forall>t' l'. thread_ok s' l' t' = thread_ok s l' t'"
      using start_parked [OF si l fresh] by blast
    note f = frame_places [OF s'(3)]
    have "mset (current s') + mset (ready s') + waiting s' + sleeping s = add_mset (arg al) P"
      using s'(4,5) f good by (auto simp: places_def)
    with fin [of _ s'] s' f gd True sched_frame_fields(1-4) [OF s'(3)] show ?thesis
      by (intro exI [of _ s']) simp
  next
    case False
    then obtain sem where v: "call_back al = Semaphore_V" "sems s (arg al) = Some sem" using hok by auto
    show ?thesis
    proof (cases "0 \<le> s_count sem")
      case True
      let ?s = "s\<lparr>sems := (sems s)(arg al \<mapsto> sem\<lparr>s_count := s_count sem + 1\<rparr>)\<rparr>"
      have V: "semaphore_V (arg al) s = Inr ?s" "threads_inv ?s" "places ?s = places s"
        using semaphore_V_nobody [OF _ v(2) True] good by auto
      have "mset (current ?s) + mset (ready ?s) + waiting ?s + sleeping s = P"
        using V(3) good by (simp add: places_def)
      moreover have "sched_inv ?s" "sems_ok ?s" using V(2) by (simp_all add: threads_inv_def)
      ultimately show ?thesis using fin [of _ ?s] V(1) v False gd(2)
        by (intro exI [of _ ?s]) simp
    next
      case neg: False
      obtain t ts s' where V: "semaphore_V (arg al) s = Inr s'" "threads_inv s'" "places s' = places s"
        "map_option s_count (sems s' (arg al)) = Some (s_count sem + 1)" "\<forall>p'. p' \<noteq> arg al \<longrightarrow> sems s' p' = sems s p'"
        "sleeping s' = sleeping s" "alarm_queue s' = alarm_queue s" "alarms s' = alarms s"
        "alarm_brk s' = alarm_brk s" "nInterrupts s' = nInterrupts s"
        using semaphore_V_wake [OF _ v(2)] good neg by fastforce
      have "mset (current s') + mset (ready s') + waiting s' + sleeping s = P"
        using V(3,6) good by (simp add: places_def)
      moreover have "sems s' x \<noteq> None" if "sems s x \<noteq> None" for x
        using V(4,5) that by (cases "x = arg al") auto
      moreover have "sched_inv s'" "sems_ok s'" "\<forall>t\<in>#P. \<exists>l. thread_ok s' l t"
        using V(2,3) gd(4) by (auto simp: threads_inv_def)
      ultimately show ?thesis using fin [of _ s'] V v False
        by (intro exI [of _ s']) simp
    qed
  qed
qed

lemma kernel_ticks [simp]:
  "sched_inv (s\<lparr>nInterrupts := n\<rparr>) = sched_inv s" "places (s\<lparr>nInterrupts := n\<rparr>) = places s"
  "thread_ok (s\<lparr>nInterrupts := n\<rparr>) l t = thread_ok s l t" "sems_ok (s\<lparr>nInterrupts := n\<rparr>) = sems_ok s"
  "handlers_ok (s\<lparr>nInterrupts := n\<rparr>) = handlers_ok s" "alarm_inv (s\<lparr>nInterrupts := n\<rparr>) = alarm_inv s"
  "pending (s\<lparr>nInterrupts := n\<rparr>) = pending s"
  by (simp_all add: sched_inv_def sched_core_def levels_ok_def thread_ok_def current_def ready_def waiting_def
        places_def sleeping_def handlers_ok_def alarm_inv_def pending_def waiters_def sems_ok_def cong: option.case_cong)

lemma threads_inv_tick [simp]: "threads_inv (s\<lparr>nInterrupts := n\<rparr>) = threads_inv s"
  by (simp add: threads_inv_def)

text \<open>A clock interrupt wakes the threads whose alarms are due, then schedules.\<close>

lemma clock_tick_ok:
  assumes "sys_inv s"
  shows "\<exists>fl s'. clock_handler (run_handler close) s = Inr (fl, s') \<and> sys_inv s' \<and> places s' = places s \<and>
    nInterrupts s' = nInterrupts s + 1 \<and> pending s' = dropWhile (\<lambda>x. snd x = nInterrupts s + 1) (pending s) \<and>
    alarms s' \<subseteq>\<^sub>m alarms s"
proof -
  define s2 where "s2 = s\<lparr>interrupt_level := DISABLED, nInterrupts := nInterrupts s + 1\<rparr>"
  have s2: "threads_inv s2" "places s2 = places s" "alarm_inv s2" "pending s2 = pending s" "nInterrupts s2 = nInterrupts s + 1"
    using assms by (simp_all add: s2_def sys_inv_def pending_def)
  obtain s4 where s4: "bindR (get_next_alarm s2) (\<lambda>(n, s1). fire_alarms (run_handler close) (Suc (length (pending s2))) n s1) = Inr s4"
    "threads_inv s4" "places s4 = places s" "alarm_inv s4" "nInterrupts s4 = nInterrupts s + 1"
    "pending s4 = dropWhile (\<lambda>x. snd x = nInterrupts s + 1) (pending s)" "alarms s4 \<subseteq>\<^sub>m alarms s2"
    using tick.fire_alarms_ok [of s2 "places s2" "Suc (length (pending s2))" close] s2 by auto
  have "sched_inv s4" using s4(2) by (simp add: threads_inv_def)
  from implement_scheduler_ok [OF this] obtain fl s5 where s5: "implement_scheduler s4 = Inr (fl, s5)" "sched_inv s5" "sched_frame s4 s5"
    "mset (current s5 @ ready s5) = mset (current s4 @ ready s4)" "\<forall>t. t \<noteq> running_thread s4 \<longrightarrow> tcbs s5 t = tcbs s4 t"
    by blast
  note inv5 = sched_step_inv [OF s4(2) s5(3,2,4,5)]
  obtain i where i: "restore (interrupt_level s) (fl, s5) = Inr (fl, s5\<lparr>interrupt_level := i\<rparr>)"
    by (rule restore_returns)
  obtain n s1 where n: "get_next_alarm s2 = Inr (n, s1)"
    "fire_alarms (run_handler close) (Suc (length (pending s2))) n s1 = Inr s4" using s4(1) by (auto simp: bindR_eq_Inr)
  have "clock_handler (run_handler close) s = Inr (fl, s5\<lparr>interrupt_level := i\<rparr>)"
    using n s5(1) i s2(4)
    by (simp add: clock_handler_def set_interrupt_level_def flip: s2_def del: fire_alarms.simps)
  then show ?thesis using inv5 s4 frame_places [OF s5(3)] sched_frame_fields(1,3) [OF s5(3)]
    by (intro exI [of _ fl] exI [of _ "s5\<lparr>interrupt_level := i\<rparr>"]) (simp add: sys_inv_def pending_def s2_def)
qed

section \<open>New threads\<close>

lemma new_tcb_frame:
  assumes si: "sched_inv s" and fresh: "tcbs s n = None"
    and s1_def: "s1 = s\<lparr>tcbs := (tcbs s)(n \<mapsto> tc), minithreads_count := c, t_brk := b\<rparr>"
  shows "sched_inv s1" "thread_ok s l t \<Longrightarrow> thread_ok s1 l t" "n \<notin> set (current s @ ready s)" "n \<noteq> scheduler_thread s"
    "current s1 = current s" "ready s1 = ready s"
proof -
  have core: "sched_core s" using si by (simp add: sched_inv_def)
  have ok: "thread_ok s1 l t" if t: "thread_ok s l t" for l t
  proof -
    have "t \<noteq> n" using t fresh by (auto elim: thread_okE)
    then have "thread_ok s1 l t = thread_ok s l t" by (intro thread_ok_cong) (simp_all add: s1_def)
    with t show ?thesis by simp
  qed
  then show "thread_ok s l t \<Longrightarrow> thread_ok s1 l t" .
  have no: "\<not> thread_ok s l n" for l using fresh by (auto elim: thread_okE)
  show "n \<notin> set (current s @ ready s)"
    using core ready_thread [OF core, of n] no unfolding sched_core_def by auto
  show sch: "n \<noteq> scheduler_thread s" using core fresh by (auto simp: sched_core_def)
  show eqs: "current s1 = current s" "ready s1 = ready s" by (simp_all add: s1_def current_def ready_def)
  have "levels_ok s1 (runnable_queue s)"
    using core ok unfolding levels_ok_def sched_core_def by blast
  moreover have "runnable_queue s1 = runnable_queue s" "scheduler_thread s1 = scheduler_thread s"
    "reaper_thread s1 = reaper_thread s" "curr_level s1 = curr_level s" "curr_level_quanta s1 = curr_level_quanta s"
    "tcbs s1 (scheduler_thread s) = tcbs s (scheduler_thread s)" using sch by (simp_all add: s1_def)
  moreover have "\<forall>t\<in>set (current s). \<exists>l. thread_ok s1 l t"
    using core ok unfolding sched_core_def by blast
  ultimately show "sched_inv s1"
    using si ok unfolding sched_inv_def sched_core_def eqs by metis
qed

lemma minithread_fork_ok:
  assumes inv: "sys_inv s" and fresh: "tcbs s (t_brk s) = None" "t_brk s \<noteq> NULL"
  shows "\<exists>s'. minithread_fork True s = Inr (t_brk s, s') \<and> sys_inv s' \<and> places s' = add_mset (t_brk s) (places s) \<and>
    current s' = current s \<and> mset (ready s') = add_mset (t_brk s) (mset (ready s)) \<and>
    running_thread s' = running_thread s \<and> scheduler_thread s' = scheduler_thread s \<and>
    reaper_thread s' = reaper_thread s \<and> pending s' = pending s \<and> nInterrupts s' = nInterrupts s \<and>
    sems s' = sems s \<and> sem_brk s' = sem_brk s \<and> interrupt_level s' = interrupt_level s"
proof -
  define n where "n = t_brk s"
  define s1 where "s1 = s\<lparr>tcbs := (tcbs s)(n \<mapsto> \<lparr>t_id = minithreads_count s, t_status = None, t_level = 0, t_quanta = 0\<rparr>),
     minithreads_count := minithreads_count s + 1, t_brk := Suc n\<rparr>"
  have ti: "threads_inv s" using inv by (simp add: sys_inv_def)
  then have "sched_inv s" by (simp add: threads_inv_def)
  note new = new_tcb_frame [OF this fresh(1) [folded n_def] s1_def]
  have same: "waiting s1 = waiting s" "sleeping s1 = sleeping s" "sems_ok s1 = sems_ok s" "handlers_ok s1 = handlers_ok s"
    "alarm_inv s1 = alarm_inv s" "scheduler_thread s1 = scheduler_thread s"
    by (simp_all add: s1_def waiting_def waiters_def sleeping_def sems_ok_def handlers_ok_def pending_def alarm_inv_def)
  have pl: "places s1 = places s" using new(5,6) same by (simp add: places_def s1_def)
  have create: "minithread_create True s = (n, s1)" by (simp add: minithread_create_def s1_def n_def)
  have tn: "thread_ok s1 0 n" using fresh(2) new(4)
    by (simp add: thread_ok_def s1_def n_def level_quantum_value_def)
  have nt: "n \<notin># places s" using ti fresh(1) by (auto simp: threads_inv_def n_def elim!: thread_okE dest!: bspec)
  have "n \<notin> set (current s1 @ ready s1)" using new(3,5,6) by (simp add: s1_def)
  from start_parked [OF _ tn this] new(1) obtain s2 where s2: "minithread_start n s1 = Inr s2" "sched_inv s2"
    "sched_frame s1 s2" "current s2 = current s1" "mset (ready s2) = add_mset n (mset (ready s1))"
    "\<forall>t' l'. thread_ok s2 l' t' = thread_ok s1 l' t'" "running_thread s2 = running_thread s"
    "interrupt_level s2 = interrupt_level s" by (auto simp: s1_def)
  note f = frame_places [OF s2(3)]
  have fr: "scheduler_thread s2 = scheduler_thread s" "reaper_thread s2 = reaper_thread s" "pending s2 = pending s"
    "nInterrupts s2 = nInterrupts s" "sems s2 = sems s" "sem_brk s2 = sem_brk s"
    using f sched_frame_fields [OF s2(3)] by (simp_all add: s1_def pending_def)
  have pl2: "places s2 = add_mset n (places s)" using s2(4,5) f pl by (simp add: places_def)
  have "\<exists>l. thread_ok s2 l t" if "t \<in># places s2" for t
  proof (cases "t = n")
    case True
    then show ?thesis using s2(6) tn by auto
  next
    case False
    then have "t \<in># places s" using that pl2 by simp
    then obtain l where "thread_ok s l t" using ti unfolding threads_inv_def by blast
    then have "thread_ok s1 l t" by (rule new(2))
    then show ?thesis using s2(6) by auto
  qed
  moreover have "count (places s2) t \<le> 1" for t
    using ti nt by (cases "t = n") (auto simp: pl2 threads_inv_def not_in_iff)
  ultimately have "threads_inv s2" using ti s2(2) f same by (simp add: threads_inv_def)
  then have "sys_inv s2" using inv f same by (simp add: sys_inv_def)
  moreover have "minithread_fork True s = Inr (n, s2)" using create s2(1) fresh(2) by (simp add: minithread_fork_def n_def)
  ultimately show ?thesis using pl2 s2(4,5,7,8) new(5,6) fr by (auto simp: n_def s1_def)
qed

section \<open>Sleeping\<close>

lemma kernel_alarm_fields:
  "sched_inv (s\<lparr>alarm_queue := q, alarms := m, alarm_brk := b\<rparr>) = sched_inv s"
  "current (s\<lparr>alarm_queue := q, alarms := m, alarm_brk := b\<rparr>) = current s"
  "ready (s\<lparr>alarm_queue := q, alarms := m, alarm_brk := b\<rparr>) = ready s"
  "waiting (s\<lparr>alarm_queue := q, alarms := m, alarm_brk := b\<rparr>) = waiting s"
  "sems_ok (s\<lparr>alarm_queue := q, alarms := m, alarm_brk := b\<rparr>) = sems_ok s"
  "thread_ok (s\<lparr>alarm_queue := q, alarms := m, alarm_brk := b\<rparr>) l t = thread_ok s l t"
  by (simp_all add: sched_inv_def sched_core_def levels_ok_def thread_ok_def current_def ready_def waiting_def
        waiters_def sems_ok_def cong: option.case_cong)

text \<open>A registered callback adds its thread to the sleeping ones.\<close>

lemma register_sleeping:
  assumes "alarm_inv s" "register_alarm True d Alarm_call_back t s = Inr (a, s')"
  shows "sleeping s' = add_mset t (sleeping s)" "handlers_ok s \<Longrightarrow> sems s' = sems s \<Longrightarrow> handlers_ok s'"
proof -
  define e where "e = nInterrupts s + delay_ticks d"
  define b where "b = alarm_brk s"
  have r: "pending s' = place b e (pending s)" "alarms s' = (alarms s)(b \<mapsto> \<lparr>a_end = e, call_back = Alarm_call_back, arg = t\<rparr>)"
    using register_alarm_ok [OF assms(1), of d Alarm_call_back t] assms(2) by (auto simp: e_def b_def)
  have b: "fst x \<noteq> b" if "x \<in># mset (pending s)" for x
    using assms(1) that by (force simp: alarm_inv_def b_def)
  have f: "filter_mset (\<lambda>x. map_option call_back (alarms s' (fst x)) = Some Alarm_call_back) (mset (pending s)) =
      filter_mset (\<lambda>x. map_option call_back (alarms s (fst x)) = Some Alarm_call_back) (mset (pending s))"
    using b r(2) by (intro filter_mset_cong refl) auto
  have "image_mset (\<lambda>x. arg (the (alarms s' (fst x))))
     (filter_mset (\<lambda>x. map_option call_back (alarms s (fst x)) = Some Alarm_call_back) (mset (pending s))) = sleeping s"
    unfolding sleeping_def using b r(2) by (intro image_mset_cong) auto
  moreover have "map_option call_back (alarms s' b) = Some Alarm_call_back" "arg (the (alarms s' b)) = t"
    by (simp_all add: r(2))
  ultimately show "sleeping s' = add_mset t (sleeping s)"
    by (simp add: sleeping_def [of s'] r(1) f del: map_option_eq_Some)
  show "handlers_ok s'" if "handlers_ok s" "sems s' = sems s"
    using that b r by (auto simp: handlers_ok_def)
qed

lemma minithread_sleep_ok:
  assumes inv: "sys_inv s" and run: "running_thread s \<noteq> scheduler_thread s"
  shows "\<exists>fl s'. minithread_sleep_with_timeout True d s = Inr (fl, s') \<and> sys_inv s' \<and> places s' = places s \<and>
    pending s' = place (alarm_brk s) (nInterrupts s + delay_ticks d) (pending s) \<and>
    sleeping s' = add_mset (running_thread s) (sleeping s) \<and> nInterrupts s' = nInterrupts s \<and>
    alarms s' (alarm_brk s) = Some \<lparr>a_end = nInterrupts s + delay_ticks d, call_back = Alarm_call_back, arg = running_thread s\<rparr>"
proof -
  have ti: "threads_inv s" "alarm_inv s" using inv by (simp_all add: sys_inv_def)
  define s1 where "s1 = s\<lparr>interrupt_level := DISABLED\<rparr>"
  obtain s2 where s2: "register_alarm True d Alarm_call_back (running_thread s) s1 = Inr (alarm_brk s, s2)"
    "alarm_inv s2" "pending s2 = place (alarm_brk s) (nInterrupts s + delay_ticks d) (pending s)"
    "\<exists>q m b. s2 = s1\<lparr>alarm_queue := q, alarms := m, alarm_brk := b\<rparr>"
    using register_alarm_ok [of s1 d Alarm_call_back "running_thread s"] ti(2) by (auto simp: s1_def)
  have al: "alarms s2 (alarm_brk s) = Some \<lparr>a_end = nInterrupts s + delay_ticks d, call_back = Alarm_call_back, arg = running_thread s\<rparr>"
    using register_alarm_ok [of s1 d Alarm_call_back "running_thread s"] ti(2) s2(1) by (auto simp: s1_def)
  from s2(4) obtain q m b where s2_def: "s2 = s1\<lparr>alarm_queue := q, alarms := m, alarm_brk := b\<rparr>" by blast
  have k: "sched_inv s2" "current s2 = [running_thread s]" "ready s2 = ready s" "waiting s2 = waiting s" "sems_ok s2"
    "\<And>l t. thread_ok s2 l t = thread_ok s l t" "sems s2 = sems s" "running_thread s2 = running_thread s" "nInterrupts s2 = nInterrupts s"
    "current s = [running_thread s]"
    using ti(1) run by (simp_all add: s2_def kernel_alarm_fields threads_inv_def s1_def)
      (simp_all add: current_def)
  have "sems s1 = sems s" "sleeping s1 = sleeping s" "handlers_ok s1" "alarm_inv s1"
    using ti frame_places [OF sched_frame_interrupts [of s DISABLED], folded s1_def] by (simp_all add: s1_def threads_inv_def)
  then have sl: "sleeping s2 = add_mset (running_thread s) (sleeping s)" "handlers_ok s2"
    using register_sleeping [OF _ s2(1)] k(7) by simp_all
  define s3 where "s3 = s2\<lparr>interrupt_level := interrupt_level s\<rparr>"
  have "sched_inv s3" using k(1) by (simp add: s3_def)
  from minithread_stop_ok [OF this] obtain fl s4 where s4: "minithread_stop s3 = Inr (fl, s4)" "sched_inv s4" "sched_frame s3 s4"
    "mset (current s4 @ ready s4) = mset (ready s3)" "\<forall>t\<in>set (current s3). \<exists>l. thread_ok s4 l t"
    "\<forall>t. t \<noteq> running_thread s3 \<longrightarrow> tcbs s4 t = tcbs s3 t" by blast
  have call: "minithread_sleep_with_timeout True d s = Inr (fl, s4)"
    using s2(1) s4(1)
    by (simp add: minithread_sleep_with_timeout_def set_interrupt_level_def minithread_self_def get_new_alarm_handler_def
          s3_def flip: s1_def) (simp add: s1_def)
  have fr: "sched_frame s2 s4" using s4(3) sched_frame_trans [OF sched_frame_interrupts] by (simp add: s3_def)
  note f = frame_places [OF fr]
  have pl: "places s4 = places s" using s4(4) k sl f by (simp add: places_def s3_def)
  have "\<exists>l. thread_ok s4 l t" if t: "t \<in># places s" for t
  proof (cases "t = running_thread s")
    case True
    then show ?thesis using s4(5) k by (simp add: s3_def)
  next
    case False
    obtain l where "thread_ok s2 l t" using ti(1) t k(6) unfolding threads_inv_def by blast
    then have "thread_ok s4 l t"
      using s4(6) False k(8) sched_frame_fields [OF fr] thread_ok_cong [of s4 t s2 l] by (simp add: s3_def)
    then show ?thesis by blast
  qed
  then have "sys_inv s4" using ti(1) s2(2) s4(2) f k sl pl by (simp add: sys_inv_def threads_inv_def)
  then show ?thesis using call pl f s2(3) al sl(1) k(9) sched_frame_fields(1,3) [OF fr] by (intro exI [of _ fl] exI [of _ s4]) simp
qed

section \<open>The booted system\<close>

text \<open>Zero-initialised memory, before \<open>minithread_system_initialize\<close>.\<close>

definition zeroed :: system where
  "zeroed = \<lparr>interrupt_level = DISABLED, nInterrupts = 0, alarm_queue = None, alarms = Map.empty, alarm_brk = 1,
     minithreads_count = 0, tcbs = Map.empty, t_brk = 1, runnable_queue = None, stopped_queue = None,
     running_thread = NULL, scheduler_thread = NULL, reaper_thread = NULL, curr_level = 0, curr_level_quanta = 0,
     sems = Map.empty, sem_brk = 1\<rparr>"

text \<open>The network layers allocate their own semaphores; nothing else of this state changes.\<close>

lemma system_initialize_ok:
  "\<exists>s. minithread_system_initialize junk Inr zeroed = Inr s \<and> sys_inv s \<and> places s = {#3#} \<and> ready s = [3] \<and>
     running_thread s = 1 \<and> scheduler_thread s = 1 \<and> reaper_thread s = 2 \<and> pending s = [] \<and> nInterrupts s = 0 \<and>
     sems s = Map.empty \<and> sem_brk s = 1 \<and> interrupt_level s = ENABLED"
proof -
  obtain m where m: "multilevel_queue_new True MAX_LEVELS = Inr (Some m)" "mlq_inv m" "lvls m = replicate 4 []"
    using mlq_new_ok [of MAX_LEVELS] by auto
  define s5 where "s5 = zeroed\<lparr>runnable_queue := Some m, stopped_queue := Some queue_new, alarm_queue := Some queue_new,
     scheduler_thread := 1, running_thread := 1, reaper_thread := 2, minithreads_count := 2, t_brk := 3,
     tcbs := [1 \<mapsto> \<lparr>t_id = 0, t_status = None, t_level = 0, t_quanta = junk\<rparr>,
              2 \<mapsto> \<lparr>t_id = 1, t_status = None, t_level = 0, t_quanta = 0\<rparr>]\<rparr>"
  have e: "current s5 = []" "ready s5 = []" "pending s5 = []"
    by (simp_all add: s5_def current_def ready_def pending_def m(3))
  have f5: "runnable_queue s5 = Some m" "scheduler_thread s5 = 1" "reaper_thread s5 = 2" "running_thread s5 = 1"
    "curr_level s5 = 0" "curr_level_quanta s5 = 0" "tcbs s5 (Suc 0) \<noteq> None" "tcbs s5 3 = None" "t_brk s5 = 3" "nInterrupts s5 = 0"
    "sems s5 = Map.empty" "sem_brk s5 = 1" "alarm_queue s5 = Some queue_new" "alarms s5 = Map.empty" "alarm_brk s5 = 1"
    by (simp_all add: s5_def zeroed_def)
  have "sched_inv s5"
    using m by (simp add: sched_inv_def sched_core_def e levels_ok_def f5 level_max_quanta_def nth_replicate)
  moreover have w: "waiting s5 = {#}" "sleeping s5 = {#}" by (simp_all add: waiting_def waiters_def sleeping_def e f5)
  ultimately have "sys_inv s5"
    by (simp add: sys_inv_def threads_inv_def places_def e sems_ok_def handlers_ok_def alarm_inv_def f5)
  from minithread_fork_ok [OF this] obtain s6 where s6: "minithread_fork True s5 = Inr (3, s6)" "sys_inv s6"
    "places s6 = {#3#}" "ready s6 = [3]" "running_thread s6 = 1" "scheduler_thread s6 = 1" "reaper_thread s6 = 2"
    "pending s6 = []" "nInterrupts s6 = 0" "sems s6 = Map.empty" "sem_brk s6 = 1"
    by (auto simp: places_def e w f5)
  have "minithread_system_initialize junk Inr zeroed = Inr (s6\<lparr>interrupt_level := ENABLED\<rparr>)"
    using m(1) s6(1)
    by (simp add: minithread_system_initialize_def scheduler_thread_create_def alarm_system_initialize_def minithread_create_def
         set_interrupt_level_def s5_def zeroed_def numeral_2_eq_2 numeral_3_eq_3)
  then show ?thesis using s6 by (intro exI [of _ "s6\<lparr>interrupt_level := ENABLED\<rparr>"]) (simp add: sys_inv_def)
qed

section \<open>Reachable states\<close>

text \<open>
  The calls a running thread and the clock make, in any order. \<open>step_P\<close> and \<open>step_sleep\<close> are not calls of the
  idle scheduler; the memory a new thread gets is unused.
\<close>

inductive kernel_step :: "(ptr \<Rightarrow> system \<Rightarrow> system res) \<Rightarrow> system \<Rightarrow> system \<Rightarrow> bool" for close where
  step_yield: "minithread_yield s = Inr (fl, s') \<Longrightarrow> kernel_step close s s'"
| step_tick: "clock_handler (run_handler close) s = Inr (fl, s') \<Longrightarrow> kernel_step close s s'"
| step_P: "running_thread s \<noteq> scheduler_thread s \<Longrightarrow> sems s p \<noteq> None \<Longrightarrow> semaphore_P p s = Inr (fl, s') \<Longrightarrow>
     kernel_step close s s'"
| step_V: "sems s p \<noteq> None \<Longrightarrow> semaphore_V p s = Inr s' \<Longrightarrow> kernel_step close s s'"
| step_sleep: "running_thread s \<noteq> scheduler_thread s \<Longrightarrow> minithread_sleep_with_timeout True d s = Inr (fl, s') \<Longrightarrow>
     kernel_step close s s'"
| step_fork: "tcbs s (t_brk s) = None \<Longrightarrow> t_brk s \<noteq> NULL \<Longrightarrow> minithread_fork True s = Inr (t, s') \<Longrightarrow>
     kernel_step close s s'"
| step_sem: "0 \<le> cnt \<Longrightarrow> semaphore_create junk True s = Inr (p, s1) \<Longrightarrow> semaphore_initialize p cnt s1 = Inr s' \<Longrightarrow>
     kernel_step close s s'"

inductive_cases kernel_stepE: "kernel_step close s s'"

text \<open>P and V on either side of zero.\<close>

lemma semaphore_P_ok:
  assumes "sys_inv s" "sems s p \<noteq> None" "running_thread s \<noteq> scheduler_thread s"
  shows "\<exists>fl s'. semaphore_P p s = Inr (fl, s') \<and> sys_inv s' \<and> places s' = places s"
proof -
  have ti: "threads_inv s" and ai: "alarm_inv s" using assms(1) by (simp_all add: sys_inv_def)
  obtain sem where sem: "sems s p = Some sem" using assms(2) by auto
  show ?thesis
  proof (cases "0 < s_count sem")
    case True
    then show ?thesis using semaphore_P_pass [OF ti sem True] ai by (auto simp: sys_inv_def)
  next
    case False
    then have "s_count sem \<le> 0" by simp
    from semaphore_P_block [OF ti sem this assms(3)] ai show ?thesis by (auto simp: sys_inv_def)
  qed
qed

lemma semaphore_V_ok:
  assumes "sys_inv s" "sems s p \<noteq> None"
  shows "\<exists>s'. semaphore_V p s = Inr s' \<and> sys_inv s' \<and> places s' = places s \<and> system.more s' = system.more s \<and>
    dom (sems s') = dom (sems s)"
proof -
  have ti: "threads_inv s" and ai: "alarm_inv s" using assms(1) by (simp_all add: sys_inv_def)
  obtain sem where sem: "sems s p = Some sem" using assms(2) by auto
  show ?thesis
  proof (cases "0 \<le> s_count sem")
    case True
    then show ?thesis using semaphore_V_nobody [OF ti sem True] ai sem by (auto simp: sys_inv_def)
  next
    case False
    then have "s_count sem < 0" by simp
    from semaphore_V_wake [OF ti sem this] obtain s' where s': "semaphore_V p s = Inr s'" "threads_inv s'"
      "places s' = places s" "alarm_queue s' = alarm_queue s" "alarms s' = alarms s" "alarm_brk s' = alarm_brk s"
      "system.more s' = system.more s" "map_option s_count (sems s' p) = Some (s_count sem + 1)" "\<forall>p'. p' \<noteq> p \<longrightarrow> sems s' p' = sems s p'"
      by blast
    have "sems s' x = None \<longleftrightarrow> sems s x = None" for x using s'(8,9) sem by (cases "x = p") auto
    then have "dom (sems s') = dom (sems s)" by (auto simp: dom_def)
    with s' alarm_inv_cong [OF s'(4-6)] ai show ?thesis by (simp add: sys_inv_def)
  qed
qed

lemma minithread_yield_sys:
  assumes "sys_inv s"
  shows "\<exists>fl s'. minithread_yield s = Inr (fl, s') \<and> sys_inv s' \<and> places s' = places s"
proof -
  have ti: "threads_inv s" and ai: "alarm_inv s" using assms by (simp_all add: sys_inv_def)
  then have "sched_inv s" by (simp add: threads_inv_def)
  from minithread_yield_ok [OF this] obtain fl s' where s': "minithread_yield s = Inr (fl, s')" "sched_inv s'" "sched_frame s s'"
    "mset (current s' @ ready s') = mset (current s @ ready s)" "\<forall>t. t \<noteq> running_thread s \<longrightarrow> tcbs s' t = tcbs s t" by blast
  with sched_step_inv [OF ti s'(3,2,4,5)] frame_places(5) [OF s'(3)] ai show ?thesis by (auto simp: sys_inv_def)
qed

text \<open>One step keeps the invariant and every thread; a fork adds one.\<close>

lemma kernel_step_inv:
  assumes "kernel_step close s s'" "sys_inv s"
  shows "sys_inv s' \<and> (places s' = places s \<or> places s' = add_mset (t_brk s) (places s))"
  using assms(1)
proof cases
  case (step_yield fl)
  then show ?thesis using minithread_yield_sys [OF assms(2)] by auto
next
  case (step_tick fl)
  then show ?thesis using clock_tick_ok [OF assms(2), of close] by auto
next
  case (step_P p fl)
  from semaphore_P_ok [OF assms(2) step_P(2,1)] step_P(3) show ?thesis by auto
next
  case (step_V p)
  from semaphore_V_ok [OF assms(2) step_V(1)] step_V(2) show ?thesis by auto
next
  case (step_sleep d fl)
  then show ?thesis using minithread_sleep_ok [OF assms(2), of d] by auto
next
  case (step_fork t)
  then show ?thesis using minithread_fork_ok [OF assms(2)] by auto
next
  case (step_sem cnt junk p s1)
  have ti: "threads_inv s" using assms(2) by (simp add: sys_inv_def)
  then have "sems s (sem_brk s) = None" by (cases "sems s (sem_brk s)") (auto simp: threads_inv_def sems_ok_def)
  from semaphore_new_ok [OF ti step_sem(1) this, of junk] step_sem
  have "threads_inv s'" "places s' = places s" "alarm_inv s' = alarm_inv s" by auto
  then show ?thesis using assms(2) by (simp add: sys_inv_def)
qed

lemma kernel_reach_inv:
  assumes "(kernel_step close)\<^sup>*\<^sup>* s s'" "sys_inv s"
  shows "sys_inv s'"
  using assms by (induction rule: rtranclp_induct) (simp_all add: kernel_step_inv)

end
