(* ===== verification/Miniheader.thy ===== *)
theory Miniheader
  imports Prelude
begin

text \<open>
  \<^verbatim>\<open>src/P1-P4/miniheader.c\<close> and \<^verbatim>\<open>src/P1-P4/miniheader.h\<close>: integers and addresses in network byte
  order, and the two packet headers. A C buffer is a list of bytes, a pointer into it is an offset.
\<close>

unbundle bit_operations_syntax

type_synonym byte = "8 word"
type_synonym netaddr = "32 word \<times> 32 word"

section \<open>Packing and unpacking\<close>

definition pack_unsigned_int :: "byte list \<Rightarrow> nat \<Rightarrow> 32 word \<Rightarrow> byte list" where
  "pack_unsigned_int buf off val =
     buf[off := ucast (drop_bit 24 val AND 0xff), off + 1 := ucast (drop_bit 16 val AND 0xff),
         off + 2 := ucast (drop_bit 8 val AND 0xff), off + 3 := ucast (val AND 0xff)]"

definition unpack_unsigned_int :: "byte list \<Rightarrow> nat \<Rightarrow> 32 word" where
  "unpack_unsigned_int buf off =
     push_bit 24 (ucast (buf ! off)) OR push_bit 16 (ucast (buf ! (off + 1))) OR
     push_bit 8 (ucast (buf ! (off + 2))) OR ucast (buf ! (off + 3))"

definition pack_unsigned_short :: "byte list \<Rightarrow> nat \<Rightarrow> 16 word \<Rightarrow> byte list" where
  "pack_unsigned_short buf off val =
     buf[off := ucast (drop_bit 8 val AND 0xff), off + 1 := ucast (val AND 0xff)]"

definition unpack_unsigned_short :: "byte list \<Rightarrow> nat \<Rightarrow> 16 word" where
  "unpack_unsigned_short buf off = push_bit 8 (ucast (buf ! off)) OR ucast (buf ! (off + 1))"

definition pack_address :: "byte list \<Rightarrow> nat \<Rightarrow> netaddr \<Rightarrow> byte list" where
  "pack_address buf off address =
     pack_unsigned_int (pack_unsigned_int buf off (fst address)) (off + 4) (snd address)"

definition unpack_address :: "byte list \<Rightarrow> nat \<Rightarrow> netaddr" where
  "unpack_address buf off = (unpack_unsigned_int buf off, unpack_unsigned_int buf (off + 4))"

section \<open>Header layout\<close>

text \<open>
  The offsets of the fields of \<open>mini_header_t\<close> and \<open>mini_header_reliable_t\<close>, which consist of
  \<open>char\<close> arrays and so have no padding.
\<close>

definition PROTOCOL_MINIDATAGRAM :: nat where "PROTOCOL_MINIDATAGRAM = 1"
definition PROTOCOL_MINISTREAM :: nat where "PROTOCOL_MINISTREAM = 2"

definition MSG_SYN :: nat where "MSG_SYN = 1"
definition MSG_SYNACK :: nat where "MSG_SYNACK = 2"
definition MSG_ACK :: nat where "MSG_ACK = 3"
definition MSG_FIN :: nat where "MSG_FIN = 4"

definition off_protocol :: nat where "off_protocol = 0"
definition off_source_address :: nat where "off_source_address = 1"
definition off_source_port :: nat where "off_source_port = 9"
definition off_destination_address :: nat where "off_destination_address = 11"
definition off_destination_port :: nat where "off_destination_port = 19"
definition off_message_type :: nat where "off_message_type = 21"
definition off_seq_number :: nat where "off_seq_number = 22"
definition off_ack_number :: nat where "off_ack_number = 26"

definition mini_header_size :: nat where "mini_header_size = 21"
definition mini_header_reliable_size :: nat where "mini_header_reliable_size = 30"

lemmas header_offsets = off_protocol_def off_source_address_def off_source_port_def off_destination_address_def
  off_destination_port_def off_message_type_def off_seq_number_def off_ack_number_def mini_header_size_def
  mini_header_reliable_size_def

text \<open>The character \<open>n + '0'\<close>, which protocols and message types are sent as.\<close>

definition digit :: "nat \<Rightarrow> byte" where
  "digit n = of_nat n + 48"

section \<open>Round trips\<close>

lemma length_pack [simp]:
  "length (pack_unsigned_int buf off v) = length buf" "length (pack_unsigned_short buf off w) = length buf"
  "length (pack_address buf off a) = length buf"
  by (simp_all add: pack_unsigned_int_def pack_unsigned_short_def pack_address_def)

lemma byte_and: "(ucast (x AND 0xff) :: byte) = ucast (x :: 'a::len word)"
proof -
  have m: "(0xff :: 'a word) = mask 8" by (simp add: mask_eq_exp_minus_1)
  show ?thesis unfolding m
    by (rule bit_word_eqI) (auto simp: bit_simps dest: bit_imp_le_length)
qed

lemma byte_back: "(ucast (ucast (x :: 'a::len word) :: byte) :: 'a word) = take_bit 8 x"
  by (rule bit_word_eqI) (auto simp: bit_simps)

lemma word32_bytes:
  fixes v :: "32 word"
  shows "push_bit 24 (take_bit 8 (drop_bit 24 v)) OR push_bit 16 (take_bit 8 (drop_bit 16 v)) OR
     push_bit 8 (take_bit 8 (drop_bit 8 v)) OR take_bit 8 v = v"
proof (rule bit_word_eqI)
  fix n assume n: "n < LENGTH(32)"
  have s: "n < 8 \<or> 8 \<le> n \<and> n < 16 \<or> 16 \<le> n \<and> n < 24 \<or> 24 \<le> n \<and> n < 32" using n by auto
  then show "bit (push_bit 24 (take_bit 8 (drop_bit 24 v)) OR push_bit 16 (take_bit 8 (drop_bit 16 v)) OR
     push_bit 8 (take_bit 8 (drop_bit 8 v)) OR take_bit 8 v) n = bit v n"
    by (elim disjE) (simp_all add: bit_simps, auto)
qed

lemma word16_bytes:
  fixes v :: "16 word"
  shows "push_bit 8 (take_bit 8 (drop_bit 8 v)) OR take_bit 8 v = v"
proof (rule bit_word_eqI)
  fix n assume n: "n < LENGTH(16)"
  have s: "n < 8 \<or> 8 \<le> n \<and> n < 16" using n by auto
  then show "bit (push_bit 8 (take_bit 8 (drop_bit 8 v)) OR take_bit 8 v) n = bit v n"
    by (elim disjE) (simp_all add: bit_simps, auto)
qed

lemma unpack_pack_int [simp]:
  "off + 4 \<le> length buf \<Longrightarrow> unpack_unsigned_int (pack_unsigned_int buf off v) off = v"
  by (simp add: unpack_unsigned_int_def pack_unsigned_int_def byte_and byte_back nth_list_update word32_bytes
      flip: ucast_drop_bit_eq)

lemma unpack_pack_short [simp]:
  "off + 2 \<le> length buf \<Longrightarrow> unpack_unsigned_short (pack_unsigned_short buf off v) off = v"
  by (simp add: unpack_unsigned_short_def pack_unsigned_short_def byte_and byte_back nth_list_update word16_bytes)

text \<open>A field is not touched by writing another one.\<close>

lemma unpack_int_other [simp]:
  "off + 4 \<le> o' \<or> o' + 4 \<le> off \<Longrightarrow> unpack_unsigned_int (pack_unsigned_int buf o' v) off = unpack_unsigned_int buf off"
  "off + 4 \<le> o' \<or> o' + 2 \<le> off \<Longrightarrow> unpack_unsigned_int (pack_unsigned_short buf o' w) off = unpack_unsigned_int buf off"
  by (auto simp: unpack_unsigned_int_def pack_unsigned_int_def pack_unsigned_short_def)

lemma unpack_short_other [simp]:
  "off + 2 \<le> o' \<or> o' + 4 \<le> off \<Longrightarrow> unpack_unsigned_short (pack_unsigned_int buf o' v) off = unpack_unsigned_short buf off"
  "off + 2 \<le> o' \<or> o' + 2 \<le> off \<Longrightarrow> unpack_unsigned_short (pack_unsigned_short buf o' w) off = unpack_unsigned_short buf off"
  by (auto simp: unpack_unsigned_short_def pack_unsigned_int_def pack_unsigned_short_def)

lemma unpack_pack_address [simp]:
  "off + 8 \<le> length buf \<Longrightarrow> unpack_address (pack_address buf off a) off = a"
  by (simp add: unpack_address_def pack_address_def)

lemma pack_nth_other [simp]:
  "i < off \<or> off + 4 \<le> i \<Longrightarrow> pack_unsigned_int buf off v ! i = buf ! i"
  "i < off \<or> off + 2 \<le> i \<Longrightarrow> pack_unsigned_short buf off w ! i = buf ! i"
  "i < off \<or> off + 8 \<le> i \<Longrightarrow> pack_address buf off a ! i = buf ! i"
  by (auto simp: pack_unsigned_int_def pack_unsigned_short_def pack_address_def)

text \<open>Whatever bytes arrive, unpacking and packing again gives them back.\<close>

lemma pack_unpack_short:
  assumes "off + 2 \<le> length buf"
  shows "pack_unsigned_short buf off (unpack_unsigned_short buf off) = buf"
proof -
  have "ucast (drop_bit 8 (push_bit 8 (ucast a) OR ucast b :: 16 word)) = (a :: byte)"
    "ucast (push_bit 8 (ucast a) OR ucast b :: 16 word) = (b :: byte)" for a b :: byte
    by (rule bit_word_eqI; auto simp: bit_simps dest: bit_imp_le_length)+
  then show ?thesis using assms
    by (simp add: pack_unsigned_short_def unpack_unsigned_short_def byte_and list_update_id)
qed

section \<open>Properties\<close>

text \<open>
  A 32-bit and a 16-bit number are written with their most significant byte first, inside their four and two
  bytes, and are read back unchanged.
\<close>

theorem pack_network_order:
  assumes "off + 4 \<le> length buf"
  shows "pack_unsigned_int buf off v = take off buf @ [ucast (drop_bit 24 v), ucast (drop_bit 16 v), ucast (drop_bit 8 v), ucast v] @ drop (off + 4) buf \<and>
    unpack_unsigned_int (pack_unsigned_int buf off v) off = v \<and>
    pack_unsigned_short buf off w = take off buf @ [ucast (drop_bit 8 w), ucast w] @ drop (off + 2) buf \<and>
    unpack_unsigned_short (pack_unsigned_short buf off w) off = w"
proof -
  have "buf = take off buf @ buf ! off # buf ! Suc off # buf ! Suc (Suc off) # buf ! Suc (Suc (Suc off)) # drop (off + 4) buf"
    using assms by (simp add: Cons_nth_drop_Suc numeral_eq_Suc)
  then obtain as b0 b1 b2 b3 bs where buf: "buf = as @ b0 # b1 # b2 # b3 # bs" "off = length as"
    using assms by (metis length_take min.absorb2 add_leD1)
  have "pack_unsigned_int buf off v = as @ [ucast (drop_bit 24 v), ucast (drop_bit 16 v), ucast (drop_bit 8 v), ucast v] @ bs"
    "pack_unsigned_short buf off w = as @ [ucast (drop_bit 8 w), ucast w] @ b2 # b3 # bs"
    by (simp_all add: pack_unsigned_int_def pack_unsigned_short_def buf byte_and list_update_append)
  moreover have "unpack_unsigned_int (pack_unsigned_int buf off v) off = v" "unpack_unsigned_short (pack_unsigned_short buf off w) off = w"
    using assms by simp_all
  ultimately show ?thesis by (simp add: buf)
qed

theorem pack_network_order_witness:
  "pack_unsigned_int [0, 0, 0, 0, 9] 0 0x01020304 = [1, 2, 3, 4, 9] \<and> pack_unsigned_short [0, 0, 0, 0, 9] 0 0x0102 = [1, 2, 0, 0, 9]"
  using pack_network_order [of 0 "[0, 0, 0, 0, 9]" "0x01020304" "0x0102"] by simp

end
