(* ===== verification/Network.thy ===== *)
theory Network
  imports Synch Miniheader
begin

text \<open>
  The parts of \<^verbatim>\<open>src/P1-P4/network.c\<close> that are not socket calls: addresses, the assembly of a packet
  and its (lossy) hand-over to \<open>sendto\<close>, and the table of broadcast links. The host's name service and
  \<open>sendto\<close> are an argument, the environment \<open>netenv\<close>; every packet handed to \<open>sendto\<close> is recorded in \<open>wire\<close>.
\<close>

section \<open>State\<close>

abbreviation (input) MAX_NETWORK_PKT_SIZE :: int where "MAX_NETWORK_PKT_SIZE \<equiv> 8192"
abbreviation (input) BCAST_MAX_ENTRIES :: nat where "BCAST_MAX_ENTRIES \<equiv> 64"

record netenv =
  host_name :: string
  gethostbyname :: "string \<Rightarrow> 32 word option"
  inet_addr :: "string \<Rightarrow> 32 word"
  sendto :: "32 word \<times> 16 word \<Rightarrow> byte list \<Rightarrow> int"

record bcast_entry =
  be_name :: string
  be_addr :: netaddr
  links :: "int list"
  n_links :: int

record bcast =
  n_entries :: int
  entries :: "bcast_entry list"
  me :: int

record net = system +
  my_udp_port :: "16 word"
  other_udp_port :: "16 word"
  synthetic_network :: bool
  topology :: bcast
  wire :: "((32 word \<times> 16 word) \<times> byte list) list"

section \<open>Addresses\<close>

definition network_address_blankify :: "netaddr \<Rightarrow> netaddr" where
  "network_address_blankify addr = (0, 0)"

definition network_address_copy :: "netaddr \<Rightarrow> netaddr \<Rightarrow> netaddr" where
  "network_address_copy original copy = (fst original, snd original)"

definition network_address_same :: "netaddr \<Rightarrow> netaddr \<Rightarrow> bool" where
  "network_address_same a b \<longleftrightarrow> fst a = fst b \<and> snd a = snd b"

definition network_compare_network_addresses :: "netaddr \<Rightarrow> netaddr \<Rightarrow> bool" where
  "network_compare_network_addresses a b \<longleftrightarrow> fst a = fst b \<and> snd a = snd b"

definition sockaddr_to_network_address :: "32 word \<times> 16 word \<Rightarrow> netaddr" where
  "sockaddr_to_network_address sin = (fst sin, ucast (snd sin))"

definition network_address_to_sockaddr :: "netaddr \<Rightarrow> 32 word \<times> 16 word" where
  "network_address_to_sockaddr addr = (fst addr, ucast (snd addr))"

definition isalpha :: "char \<Rightarrow> bool" where
  "isalpha c \<longleftrightarrow> (let n = of_char c :: nat in 65 \<le> n \<and> n \<le> 90 \<or> 97 \<le> n \<and> n \<le> 122)"

definition network_udp_ports :: "16 word \<Rightarrow> 16 word \<Rightarrow> 'z net_scheme \<Rightarrow> 'z net_scheme" where
  "network_udp_ports myportnum otherportnum s = s\<lparr>my_udp_port := myportnum, other_udp_port := otherportnum\<rparr>"

definition network_translate_hostname :: "netenv \<Rightarrow> string \<Rightarrow> netaddr \<Rightarrow> 'z net_scheme \<Rightarrow> int \<times> netaddr" where
  "network_translate_hostname env hostname address s =
     (if hostname \<noteq> [] \<and> isalpha (hd hostname) then
        (case gethostbyname env hostname of
           None \<Rightarrow> (-1, address)
         | Some host \<Rightarrow> (0, (host, ucast (htons (other_udp_port s)))))
      else (0, (inet_addr env hostname, ucast (htons (other_udp_port s)))))"

definition network_get_my_address :: "netenv \<Rightarrow> netaddr \<Rightarrow> 'z net_scheme \<Rightarrow> netaddr" where
  "network_get_my_address env my_address s =
     (let (_, addr) = network_translate_hostname env (host_name env) my_address s
      in (fst addr, ucast (htons (my_udp_port s))))"

section \<open>Sending\<close>

text \<open>\<open>hdr\<close> and \<open>dat\<close> are the bytes behind the pointers; a length beyond them reads outside the buffer.\<close>

definition send_pkt ::
  "netenv \<Rightarrow> netaddr \<Rightarrow> int \<Rightarrow> byte list \<Rightarrow> int \<Rightarrow> byte list \<Rightarrow> 'z net_scheme \<Rightarrow> (int \<times> 'z net_scheme) res" where
  "send_pkt env dest hdr_len hdr data_len dat s =
     (let pktlen = hdr_len + data_len in
      if hdr_len < 0 \<or> data_len < 0 \<or> pktlen > MAX_NETWORK_PKT_SIZE then Inr (0, s)
      else if hdr_len > int (length hdr) \<or> data_len > int (length dat) then Inl Out_of_bounds
      else let pkt = take (nat hdr_len) hdr @ take (nat data_len) dat;
               sin = network_address_to_sockaddr dest
           in Inr (sendto env sin pkt, s\<lparr>wire := wire s @ [(sin, pkt)]\<rparr>))"

text \<open>\<open>lost\<close> and \<open>dup\<close>: the outcome of comparing a random number with the loss and the duplication rate.\<close>

definition network_send_pkt ::
  "netenv \<Rightarrow> bool \<Rightarrow> bool \<Rightarrow> netaddr \<Rightarrow> int \<Rightarrow> byte list \<Rightarrow> int \<Rightarrow> byte list \<Rightarrow> 'z net_scheme \<Rightarrow>
     (int \<times> 'z net_scheme) res" where
  "network_send_pkt env lost dup dest hdr_len hdr data_len dat s =
     (if synthetic_network s \<and> lost then Inr (hdr_len + data_len, s)
      else bindR (if synthetic_network s \<and> dup
                  then bindR (send_pkt env dest hdr_len hdr data_len dat s) (\<lambda>(_, s'). Inr s')
                  else Inr s) (\<lambda>s1.
             send_pkt env dest hdr_len hdr data_len dat s1))"

section \<open>Broadcast links\<close>

text \<open>The last matching entry is taken.\<close>

fun entry_loop :: "bcast_entry list \<Rightarrow> 32 word \<Rightarrow> nat \<Rightarrow> int \<Rightarrow> int" where
  "entry_loop [] ipaddr i found = found"
| "entry_loop (e # es) ipaddr i found =
     entry_loop es ipaddr (Suc i) (if ipaddr = fst (be_addr e) then int i else found)"

definition hostname_to_entry :: "netenv \<Rightarrow> string option \<Rightarrow> bcast \<Rightarrow> 'z net_scheme \<Rightarrow> int res" where
  "hostname_to_entry env hostname b s =
     (case hostname of
        None \<Rightarrow> Inr (me b)
      | Some h \<Rightarrow>
          (let (r, addr) = network_translate_hostname env h (0, 0) s in
           if r \<noteq> 0 then Inl Assert_failed
           else let e = entry_loop (take (nat (n_entries b)) (entries b)) (fst addr) 0 (-1)
                in assertR (e \<noteq> -1) (Inr e)))"

fun find_link :: "int list \<Rightarrow> int \<Rightarrow> int \<Rightarrow> nat \<Rightarrow> int \<Rightarrow> int option" where
  "find_link ls destnum i 0 n = None"
| "find_link ls destnum i (Suc k) n =
     (if i < n then if ls ! nat i = destnum then Some i else find_link ls destnum (i + 1) k n else None)"

definition add_link :: "int \<Rightarrow> bcast_entry \<Rightarrow> bcast_entry res" where
  "add_link destnum e =
     (case find_link (links e) destnum 0 (nat (n_links e)) (n_links e) of
        Some _ \<Rightarrow> Inr e
      | None \<Rightarrow> bindR (aset (links e) (n_links e) destnum) (\<lambda>ls. Inr (e\<lparr>links := ls, n_links := n_links e + 1\<rparr>)))"

definition remove_link :: "int \<Rightarrow> bcast_entry \<Rightarrow> bcast_entry" where
  "remove_link destnum e =
     (case find_link (links e) destnum 0 (nat (n_links e)) (n_links e) of
        None \<Rightarrow> e
      | Some i \<Rightarrow>
          if i < n_links e - 1
          then e\<lparr>links := (links e)[nat i := links e ! nat (n_links e - 1)], n_links := n_links e - 1\<rparr>
          else e\<lparr>n_links := n_links e - 1\<rparr>)"

definition bcast_add_link :: "netenv \<Rightarrow> string option \<Rightarrow> string option \<Rightarrow> 'z net_scheme \<Rightarrow> 'z net_scheme res" where
  "bcast_add_link env src dest s =
     (let b = topology s in
      bindR (hostname_to_entry env src b s) (\<lambda>srcnum. bindR (hostname_to_entry env dest b s) (\<lambda>destnum.
      bindR (aget (entries b) srcnum) (\<lambda>e. bindR (add_link destnum e) (\<lambda>e'.
        Inr (s\<lparr>topology := b\<lparr>entries := (entries b)[nat srcnum := e']\<rparr>\<rparr>))))))"

definition bcast_remove_link :: "netenv \<Rightarrow> string option \<Rightarrow> string option \<Rightarrow> 'z net_scheme \<Rightarrow> 'z net_scheme res" where
  "bcast_remove_link env src dest s =
     (let b = topology s in
      bindR (hostname_to_entry env src b s) (\<lambda>srcnum. bindR (hostname_to_entry env dest b s) (\<lambda>destnum.
      bindR (aget (entries b) srcnum) (\<lambda>e.
        Inr (s\<lparr>topology := b\<lparr>entries := (entries b)[nat srcnum := remove_link destnum e]\<rparr>\<rparr>)))))"

section \<open>Lemmas\<close>

text \<open>What reaches the wire: nothing when the packet is lost, else one or two copies.\<close>

lemma network_send_ok:
  assumes "0 \<le> hdr_len" "hdr_len \<le> int (length hdr)" "0 \<le> data_len" "data_len \<le> int (length dat)"
    "hdr_len + data_len \<le> MAX_NETWORK_PKT_SIZE"
    "pkt = (network_address_to_sockaddr dest, take (nat hdr_len) hdr @ take (nat data_len) dat)"
  shows "network_send_pkt env lost dup dest hdr_len hdr data_len dat s =
    Inr (if synthetic_network s \<and> lost then hdr_len + data_len else sendto env (fst pkt) (snd pkt),
      s\<lparr>wire := wire s @ (if synthetic_network s \<and> lost then [] else if synthetic_network s \<and> dup then [pkt, pkt] else [pkt])\<rparr>)"
  using assms by (simp add: network_send_pkt_def send_pkt_def Let_def)

lemma network_send_too_long:
  assumes "0 \<le> hdr_len" "0 \<le> data_len" "MAX_NETWORK_PKT_SIZE < hdr_len + data_len" "\<not> (synthetic_network s \<and> lost)"
  shows "network_send_pkt env lost dup dest hdr_len hdr data_len dat s = Inr (0, s)"
  using assms by (auto simp: network_send_pkt_def send_pkt_def Let_def)

text \<open>The links of an entry: the first \<open>n_links\<close> array elements.\<close>

definition links_ok :: "bcast_entry \<Rightarrow> bool" where
  "links_ok e \<longleftrightarrow> 0 \<le> n_links e \<and> n_links e \<le> int (length (links e)) \<and> distinct (take (nat (n_links e)) (links e))"

definition link_set :: "bcast_entry \<Rightarrow> int set" where
  "link_set e = set (take (nat (n_links e)) (links e))"

lemma find_link_Some:
  "find_link ls d i k n = Some j \<Longrightarrow> i \<le> j \<and> j < n \<and> ls ! nat j = d"
  by (induction ls d i k n rule: find_link.induct) (auto split: if_splits)

lemma find_link_None:
  "find_link ls d i k n = None \<Longrightarrow> n \<le> i + int k \<Longrightarrow> i \<le> j \<Longrightarrow> j < n \<Longrightarrow> ls ! nat j \<noteq> d"
proof (induction ls d i k n rule: find_link.induct)
  case (1 ls d i n)
  then show ?case by simp
next
  case (2 ls d i k n)
  then show ?case by (cases "i = j") (auto split: if_splits)
qed

lemma find_link_absent:
  assumes "find_link ls d 0 (nat n) n = None" "0 \<le> n"
  shows "d \<notin> set (take (nat n) ls)"
proof
  assume "d \<in> set (take (nat n) ls)"
  then obtain j where "j < nat n" "ls ! j = d" by (auto simp: in_set_conv_nth)
  moreover from this have "int j < n" using assms(2) by linarith
  ultimately show False using find_link_None [OF assms(1), of "int j"] assms(2) by auto
qed

lemma add_link_ok:
  assumes "links_ok e" "n_links e < int (length (links e))"
  shows "\<exists>e'. add_link d e = Inr e' \<and> links_ok e' \<and> link_set e' = insert d (link_set e) \<and> length (links e') = length (links e)"
proof (cases "find_link (links e) d 0 (nat (n_links e)) (n_links e)")
  case None
  define n where "n = nat (n_links e)"
  have n: "n_links e = int n" "n < length (links e)" using assms by (auto simp: links_ok_def n_def)
  have nin: "d \<notin> set (take n (links e))"
    using find_link_absent [OF None] n by simp
  have t: "take (Suc n) ((links e)[n := d]) = take n (links e) @ [d]"
    using n(2) by (simp add: take_Suc_conv_app_nth)
  show ?thesis using None assms n nin t
    by (auto simp: add_link_def aset_def links_ok_def link_set_def nat_add_distrib)
next
  case (Some i)
  then have "d \<in> link_set e" using find_link_Some [OF Some] assms(1)
    by (auto simp: link_set_def links_ok_def in_set_conv_nth intro!: exI [of _ "nat i"])
  with Some assms show ?thesis by (auto simp: add_link_def)
qed

lemma remove_link_ok:
  assumes "links_ok e"
  shows "links_ok (remove_link d e) \<and> link_set (remove_link d e) = link_set e - {d}"
proof (cases "find_link (links e) d 0 (nat (n_links e)) (n_links e)")
  case None
  have "d \<notin> link_set e"
    using find_link_absent [OF None] assms by (simp add: link_set_def links_ok_def)
  with None assms show ?thesis by (auto simp: remove_link_def)
next
  case (Some i)
  define n where "n = nat (n_links e)"
  define j where "j = nat i"
  note i = find_link_Some [OF Some]
  have n: "n_links e = int n" "n \<le> length (links e)" "i = int j" "j < n" "links e ! j = d"
    using assms i by (auto simp: links_ok_def n_def j_def)
  obtain m where m: "n = Suc m" using n(4) by (cases n) auto
  have d: "distinct (take m (links e) @ [links e ! m])"
    using assms n(2) m take_Suc_conv_app_nth [of m "links e"] by (simp add: links_ok_def flip: n_def)
  have ls: "link_set e = insert (links e ! m) (set (take m (links e)))"
    using n(2) m take_Suc_conv_app_nth [of m "links e"] by (simp add: link_set_def flip: n_def)
  show ?thesis
  proof (cases "j < m")
    case True
    have t: "take m ((links e)[j := links e ! m]) = (take m (links e))[j := links e ! m]"
      by (simp add: take_update_swap)
    have "distinct ((take m (links e))[j := links e ! m])"
      using d True by (intro distinct_list_update) auto
    moreover have "set ((take m (links e))[j := links e ! m]) = insert (links e ! m) (set (take m (links e)) - {d})"
      using d True n m by (subst set_update_distinct) auto
    moreover have "links e ! m \<noteq> d" using d True n m by (auto simp: in_set_conv_nth)
    ultimately show ?thesis using Some True n m t ls
      by (auto simp: remove_link_def links_ok_def link_set_def)
  next
    case False
    then have "j = m" using n m by simp
    then show ?thesis using Some n m d ls
      by (auto simp: remove_link_def links_ok_def link_set_def)
  qed
qed

section \<open>Properties\<close>

text \<open>
  A packet that fits is sent as the header followed by the data; on the synthetic network it may be lost,
  which the sender cannot tell from success, or sent twice. One that does not fit is not sent, and the result is 0 and not an error.
\<close>

theorem network_send_outcome:
  assumes "0 \<le> hdr_len" "hdr_len \<le> int (length hdr)" "0 \<le> data_len" "data_len \<le> int (length dat)"
  shows "network_send_pkt env lost dup dest hdr_len hdr data_len dat s =
    (let pkt = (network_address_to_sockaddr dest, take (nat hdr_len) hdr @ take (nat data_len) dat) in
     if synthetic_network s \<and> lost then Inr (hdr_len + data_len, s)
     else if hdr_len + data_len > 8192 then Inr (0, s)
     else Inr (sendto env (fst pkt) (snd pkt),
       s\<lparr>wire := wire s @ (if synthetic_network s \<and> dup then [pkt, pkt] else [pkt])\<rparr>))"
  using assms by (simp add: network_send_pkt_def send_pkt_def Let_def)

text \<open>
  The links of a host behave as a set: adding a link inserts it once, removing it takes it out, whatever the
  order of the array.
\<close>

theorem broadcast_links:
  assumes "links_ok e" "n_links e < int (length (links e))"
  shows "\<exists>e'. add_link d e = Inr e' \<and> links_ok e' \<and> link_set e' = insert d (link_set e) \<and>
    links_ok (remove_link c e') \<and> link_set (remove_link c e') = insert d (link_set e) - {c}"
  using add_link_ok [OF assms, of d] remove_link_ok by metis

section \<open>Witnesses\<close>

definition quiet_net :: net where
  "quiet_net = system.extend zeroed \<lparr>my_udp_port = 8099, other_udp_port = 8099, synthetic_network = False,
     topology = \<lparr>n_entries = 0, entries = [], me = 0\<rparr>, wire = []\<rparr>"

definition plain_env :: netenv where
  "plain_env = \<lparr>host_name = ''h'', gethostbyname = (\<lambda>n. Some 0x0100007F), inet_addr = (\<lambda>n. 0), sendto = (\<lambda>a p. int (length p))\<rparr>"

theorem network_send_outcome_witness:
  "network_send_pkt plain_env False False (5, 6) 1 [10] 2 [20, 30, 40] quiet_net =
     Inr (3, quiet_net\<lparr>wire := [((5, 6), [10, 20, 30])]\<rparr>)"
  using network_send_outcome [of 1 "[10]" 2 "[20, 30, 40]" plain_env False False "(5, 6)" quiet_net]
  by (simp add: quiet_net_def plain_env_def system.defs zeroed_def network_address_to_sockaddr_def Let_def)

theorem broadcast_links_witness:
  "\<exists>e'. add_link 4 \<lparr>be_name = '''', be_addr = (0, 0), links = [7, 0, 0], n_links = 1\<rparr> = Inr e' \<and> link_set e' = {4, 7} \<and> link_set (remove_link 7 e') = {4}"
proof -
  have "links_ok \<lparr>be_name = '''', be_addr = (0, 0), links = [7, 0, 0], n_links = 1\<rparr>" by (simp add: links_ok_def)
  from broadcast_links [OF this, of 4 7] show ?thesis by (auto simp: link_set_def)
qed

end
