(* ===== verification/Minimsg.thy ===== *)
theory Minimsg
  imports Network
begin

text \<open>
  \<^verbatim>\<open>src/P1-P4/minimsg.c\<close>: datagrams between ports. A packet from the network is a structure in a store
  that the interrupt handler queues at a port; the receiver takes it out after a P on the port's
  semaphore. A call that blocks in a P ends as \<open>Suspended\<close>; what it does after the P is the definition
  whose name ends in \<open>_resumed\<close>, which runs when the thread is switched to again.
\<close>

section \<open>Calls that may block\<close>

datatype 'a outcome = Suspended | Completed 'a

fun and_then :: "('a outcome \<times> 's) res \<Rightarrow> ('a \<Rightarrow> 's \<Rightarrow> ('b outcome \<times> 's) res) \<Rightarrow> ('b outcome \<times> 's) res" where
  "and_then (Inl e) f = Inl e"
| "and_then (Inr (Suspended, s)) f = Inr (Suspended, s)"
| "and_then (Inr (Completed a, s)) f = f a s"

definition P_call :: "ptr \<Rightarrow> 'z system_scheme \<Rightarrow> (unit outcome \<times> 'z system_scheme) res" where
  "P_call p s = bindR (semaphore_P p s) (\<lambda>(fl, s').
     Inr (case fl of Switched \<Rightarrow> Suspended | Returned \<Rightarrow> Completed (), s'))"

section \<open>State\<close>

abbreviation (input) MINIMSG_MAX_MSG_SIZE :: int where "MINIMSG_MAX_MSG_SIZE \<equiv> 4096"
abbreviation (input) MAX_PORTS :: int where "MAX_PORTS \<equiv> 32768"
abbreviation (input) MAX_UNBOUND_PORT :: int where "MAX_UNBOUND_PORT \<equiv> 32767"
abbreviation (input) MIN_UNBOUND_PORT :: int where "MIN_UNBOUND_PORT \<equiv> 0"
abbreviation (input) MIN_BOUND_PORT :: int where "MIN_BOUND_PORT \<equiv> 32768"

datatype port_union = Unbound "queue option" ptr | Bound netaddr int

text \<open>\<open>p_type\<close> is the constructor of the union.\<close>

record miniport =
  p_number :: int
  p_union :: port_union

record packet =
  pk_sender :: netaddr
  buffer :: "byte list"
  size :: int

text \<open>The two arrays with \<open>MAX_PORTS\<close> elements are functions, read through a bounds check.\<close>

record msg = net +
  packets :: "ptr \<Rightarrow> packet option"
  nPorts :: int
  bound_ports_free :: "int \<Rightarrow> bool"
  unbound_ports :: "int \<Rightarrow> ptr"
  msg_mutex :: ptr
  miniports :: "ptr \<Rightarrow> miniport option"
  port_brk :: ptr

definition port_get :: "(int \<Rightarrow> 'a) \<Rightarrow> int \<Rightarrow> 'a res" where
  "port_get a i = (if 0 \<le> i \<and> i < MAX_PORTS then Inr (a i) else Inl Out_of_bounds)"

definition port_set :: "(int \<Rightarrow> 'a) \<Rightarrow> int \<Rightarrow> 'a \<Rightarrow> (int \<Rightarrow> 'a) res" where
  "port_set a i v = (if 0 \<le> i \<and> i < MAX_PORTS then Inr (a(i := v)) else Inl Out_of_bounds)"

section \<open>Ports\<close>

definition minimsg_initialize :: "semaphore \<Rightarrow> 'z msg_scheme \<Rightarrow> 'z msg_scheme res" where
  "minimsg_initialize junk s =
     bindR (semaphore_create junk True (s\<lparr>nPorts := 0\<rparr>)) (\<lambda>(m, s1).
     bindR (semaphore_initialize m 1 (s1\<lparr>msg_mutex := m\<rparr>)) (\<lambda>s2.
       Inr (s2\<lparr>bound_ports_free := (\<lambda>i. True), unbound_ports := (\<lambda>i. NULL)\<rparr>)))"

definition minimsg_get_data_queue :: "int \<Rightarrow> 'z msg_scheme \<Rightarrow> queue option res" where
  "minimsg_get_data_queue i s = bindR (port_get (unbound_ports s) i) (\<lambda>p. bindR (deref (miniports s) p) (\<lambda>mp.
     case p_union mp of Unbound d r \<Rightarrow> Inr d | Bound a n \<Rightarrow> Inl Wrong_variant))"

definition minimsg_get_semaphore :: "int \<Rightarrow> 'z msg_scheme \<Rightarrow> ptr res" where
  "minimsg_get_semaphore i s = bindR (port_get (unbound_ports s) i) (\<lambda>p. bindR (deref (miniports s) p) (\<lambda>mp.
     case p_union mp of Unbound d r \<Rightarrow> Inr r | Bound a n \<Rightarrow> Inl Wrong_variant))"

text \<open>The early return for an existing port leaves interrupts disabled, as in the code.\<close>

definition miniport_create_unbound :: "semaphore \<Rightarrow> bool \<Rightarrow> int \<Rightarrow> 'z msg_scheme \<Rightarrow> (ptr \<times> 'z msg_scheme) res" where
  "miniport_create_unbound junk malloc_ok port_number s =
     (if port_number > MAX_UNBOUND_PORT \<or> port_number < MIN_UNBOUND_PORT then Inr (NULL, s)
      else
       (let (old_level, s1) = set_interrupt_level DISABLED s in
        bindR (port_get (unbound_ports s1) port_number) (\<lambda>p.
        if p \<noteq> NULL then Inr (p, s1)
        else if \<not> malloc_ok then Inr (NULL, snd (set_interrupt_level old_level s1))
        else
         (let newport = port_brk s1 in
          bindR (port_set (unbound_ports s1) port_number newport) (\<lambda>ups.
          let (_, s2) = set_interrupt_level old_level (s1\<lparr>unbound_ports := ups, port_brk := Suc newport\<rparr>) in
          bindR (semaphore_create junk True s2) (\<lambda>(r, s3).
          let s4 = s3\<lparr>miniports := (miniports s3)(newport \<mapsto>
                       \<lparr>p_number = port_number, p_union = Unbound (Some queue_new) r\<rparr>)\<rparr> in
          bindR (semaphore_initialize r 0 s4) (\<lambda>s5. Inr (newport, s5))))))))"

text \<open>The search for a free bound port, which does not stop at the first one it finds.\<close>

fun bound_scan :: "nat \<Rightarrow> int \<Rightarrow> (int \<Rightarrow> bool) \<Rightarrow> int \<Rightarrow> (int \<Rightarrow> bool) \<times> int" where
  "bound_scan 0 i free num = (free, num)"
| "bound_scan (Suc k) i free num =
     (if free i then bound_scan k (i + 1) (free(i := False)) (i + MIN_BOUND_PORT)
      else bound_scan k (i + 1) free num)"

definition miniport_create_bound_resumed :: "ptr \<Rightarrow> netaddr \<Rightarrow> int \<Rightarrow> 'z msg_scheme \<Rightarrow> (ptr outcome \<times> 'z msg_scheme) res" where
  "miniport_create_bound_resumed newport addr remote s =
     bindR (if nPorts s < MAX_PORTS - 1 then
              bindR (port_set (bound_ports_free s) (nPorts s) False) (\<lambda>fr.
                Inr (nPorts s + MIN_BOUND_PORT, s\<lparr>bound_ports_free := fr, nPorts := nPorts s + 1\<rparr>))
            else
              (let (fr, num) = bound_scan (nat MAX_PORTS) 0 (bound_ports_free s) (-1)
               in Inr (num, s\<lparr>bound_ports_free := fr\<rparr>))) (\<lambda>(num, s1).
     bindR (semaphore_V (msg_mutex s1) s1) (\<lambda>s2.
     if num = -1 then Inr (Completed NULL, s2)
     else Inr (Completed newport, s2\<lparr>miniports := (miniports s2)(newport \<mapsto>
            \<lparr>p_number = num, p_union = Bound addr remote\<rparr>)\<rparr>)))"

definition miniport_create_bound :: "bool \<Rightarrow> netaddr option \<Rightarrow> int \<Rightarrow> 'z msg_scheme \<Rightarrow> (ptr outcome \<times> 'z msg_scheme) res" where
  "miniport_create_bound malloc_ok addr remote s =
     (case addr of
        None \<Rightarrow> Inr (Completed NULL, s)
      | Some a \<Rightarrow>
          if remote < MIN_UNBOUND_PORT \<or> remote > MAX_UNBOUND_PORT then Inr (Completed NULL, s)
          else if \<not> malloc_ok then Inr (Completed NULL, s)
          else (let newport = port_brk s in
                and_then (P_call (msg_mutex s) (s\<lparr>port_brk := Suc newport\<rparr>)) (\<lambda>_ s1.
                  miniport_create_bound_resumed newport a remote s1)))"

text \<open>
  \<open>miniport_destroy\<close> hands \<open>queue_dequeue\<close> a NULL pointer to store the items through. The loop is
  written with a turn for each queued item and one more.
\<close>

fun discard_loop :: "nat \<Rightarrow> queue option \<Rightarrow> queue option res" where
  "discard_loop 0 q = Inl Diverges"
| "discard_loop (Suc k) q = bindR (queue_dequeue_to False q) (\<lambda>(r, x, q').
     if r \<noteq> -1 then discard_loop k q' else Inr q')"

definition miniport_destroy_resumed :: "ptr \<Rightarrow> 'z msg_scheme \<Rightarrow> (unit outcome \<times> 'z msg_scheme) res" where
  "miniport_destroy_resumed p s = bindR (deref (miniports s) p) (\<lambda>mp.
     bindR (port_set (bound_ports_free s) (p_number mp - MIN_BOUND_PORT) True) (\<lambda>fr.
     bindR (semaphore_V (msg_mutex s) (s\<lparr>bound_ports_free := fr\<rparr>)) (\<lambda>s1.
       Inr (Completed (), s1\<lparr>miniports := (miniports s1)(p := None)\<rparr>))))"

definition miniport_destroy :: "ptr \<Rightarrow> 'z msg_scheme \<Rightarrow> (unit outcome \<times> 'z msg_scheme) res" where
  "miniport_destroy p s = assertR (p \<noteq> NULL) (bindR (deref (miniports s) p) (\<lambda>mp.
     case p_union mp of
       Unbound d r \<Rightarrow>
         (let (old_level, s1) = set_interrupt_level DISABLED s in
          bindR (port_set (unbound_ports s1) (p_number mp) NULL) (\<lambda>ups.
          let (_, s2) = set_interrupt_level old_level (s1\<lparr>unbound_ports := ups\<rparr>) in
          bindR (discard_loop (Suc (length (oq_items d))) d) (\<lambda>d'.
          bindR (queue_free d') (\<lambda>(result, _).
          assertR (result = 0) (bindR (semaphore_destroy r s2) (\<lambda>s3.
            Inr (Completed (), s3\<lparr>miniports := (miniports s3)(p := None)\<rparr>)))))))
     | Bound a n \<Rightarrow> and_then (P_call (msg_mutex s) s) (\<lambda>_ s1. miniport_destroy_resumed p s1)))"

section \<open>Sending and receiving\<close>

text \<open>The header as \<open>minimsg_send\<close> fills it in; \<open>junk\<close> is what \<open>malloc\<close> returns.\<close>

definition minimsg_header :: "byte list \<Rightarrow> netaddr \<Rightarrow> int \<Rightarrow> netaddr \<Rightarrow> int \<Rightarrow> byte list" where
  "minimsg_header junk local_addr local_port remote_addr remote_port =
     (let h0 = junk[off_protocol := digit PROTOCOL_MINIDATAGRAM];
          h1 = pack_address h0 off_source_address local_addr;
          h2 = pack_unsigned_short h1 off_source_port (of_int local_port);
          h3 = pack_address h2 off_destination_address remote_addr
      in pack_unsigned_short h3 off_destination_port (of_int remote_port))"

definition minimsg_send ::
  "netenv \<Rightarrow> bool \<Rightarrow> bool \<Rightarrow> byte list \<Rightarrow> ptr \<Rightarrow> ptr \<Rightarrow> byte list option \<Rightarrow> int \<Rightarrow> 'z msg_scheme \<Rightarrow> (int \<times> 'z msg_scheme) res" where
  "minimsg_send env lost dup junk local_unbound_port local_bound_port m len s =
     (if local_unbound_port = NULL \<or> local_bound_port = NULL \<or> m = None then Inr (0, s)
      else if len < 0 \<or> len > MINIMSG_MAX_MSG_SIZE then Inr (-1, s)
      else bindR (deref (miniports s) local_unbound_port) (\<lambda>lu. bindR (deref (miniports s) local_bound_port) (\<lambda>lb.
        case p_union lb of
          Unbound d r \<Rightarrow> Inl Wrong_variant
        | Bound remote_addr remote_port \<Rightarrow>
            (let header = minimsg_header junk (network_get_my_address env (0, 0) s) (p_number lu) remote_addr remote_port in
             bindR (network_send_pkt env lost dup remote_addr (int mini_header_size) header len (the m) s) (\<lambda>(result, s1).
               if result = -1 then Inr (-1, s1) else Inr (result - int mini_header_size, s1))))))"

text \<open>The copying loop of \<open>minimsg_receive\<close>, counted by its first argument.\<close>

fun copy_loop :: "nat \<Rightarrow> int \<Rightarrow> int \<Rightarrow> int \<Rightarrow> byte list \<Rightarrow> byte list \<Rightarrow> byte list res" where
  "copy_loop 0 i message_length len dst src = Inr dst"
| "copy_loop (Suc k) i message_length len dst src =
     (if i < message_length \<and> i < len
      then bindR (aget src i) (\<lambda>b. bindR (aset dst i b) (\<lambda>dst'. copy_loop k (i + 1) message_length len dst' src))
      else Inr dst)"

text \<open>The result: the return value, the new bound port if one was stored, the message buffer and \<open>*len\<close>.\<close>

definition minimsg_receive_resumed ::
  "bool \<Rightarrow> ptr \<Rightarrow> byte list \<Rightarrow> int \<Rightarrow> 'z msg_scheme \<Rightarrow>
     ((int \<times> ptr option \<times> byte list \<times> int) outcome \<times> 'z msg_scheme) res" where
  "minimsg_receive_resumed malloc_ok p m len s = bindR (deref (miniports s) p) (\<lambda>mp.
     case p_union mp of
       Bound a n \<Rightarrow> Inl Wrong_variant
     | Unbound d r \<Rightarrow>
         bindR (queue_dequeue d) (\<lambda>(res, pkt, d').
         assertR (pkt \<noteq> NULL)
          (let s1 = s\<lparr>miniports := (miniports s)(p \<mapsto> mp\<lparr>p_union := Unbound d' r\<rparr>)\<rparr> in
           bindR (deref (packets s1) pkt) (\<lambda>pk.
           let message = drop mini_header_size (buffer pk);
               message_length = size pk - int mini_header_size in
           if message_length = 0
           then Inr (Completed (0, None, m, len), s1\<lparr>packets := (packets s1)(pkt := None)\<rparr>)
           else
             (let source_address = unpack_address (buffer pk) off_source_address;
                  source_port_number = uint (unpack_unsigned_short (buffer pk) off_source_port) in
              and_then (miniport_create_bound malloc_ok (Some source_address) source_port_number s1) (\<lambda>nb s2.
              bindR (copy_loop (nat message_length) 0 message_length len m message) (\<lambda>m'.
                Inr (Completed (message_length, Some nb, m', message_length),
                     s2\<lparr>packets := (packets s2)(pkt := None)\<rparr>))))))))"

definition minimsg_receive ::
  "bool \<Rightarrow> ptr \<Rightarrow> byte list option \<Rightarrow> int option \<Rightarrow> 'z msg_scheme \<Rightarrow>
     ((int \<times> ptr option \<times> byte list \<times> int) outcome \<times> 'z msg_scheme) res" where
  "minimsg_receive malloc_ok p m len s =
     (case (m, len) of
        (Some m', Some len') \<Rightarrow>
          if p = NULL then Inr (Completed (0, None, m', len'), s)
          else bindR (deref (miniports s) p) (\<lambda>mp.
            case p_union mp of
              Bound a n \<Rightarrow> Inl Wrong_variant
            | Unbound d r \<Rightarrow> and_then (P_call r s) (\<lambda>_ s1. minimsg_receive_resumed malloc_ok p m' len' s1))
      | _ \<Rightarrow> Inr (Completed (0, None, [], 0), s))"

text \<open>
  The network interrupt for datagrams. In \<open>arg->size <= sizeof(mini_header_t)\<close> the size is converted
  to an unsigned number.
\<close>

definition handle_udp_packet :: "ptr \<Rightarrow> 'z msg_scheme \<Rightarrow> 'z msg_scheme res" where
  "handle_udp_packet pkt s = bindR (deref (packets s) pkt) (\<lambda>pk.
     if (0 \<le> size pk \<and> size pk \<le> int mini_header_size) \<or> size pk > MAX_NETWORK_PKT_SIZE
     then Inr (s\<lparr>packets := (packets s)(pkt := None)\<rparr>)
     else
       (let port = uint (unpack_unsigned_short (buffer pk) off_destination_port) in
        bindR (port_get (unbound_ports s) port) (\<lambda>p.
        if p = NULL then Inr (s\<lparr>packets := (packets s)(pkt := None)\<rparr>)
        else bindR (minimsg_get_data_queue port s) (\<lambda>d.
             bindR (queue_append d pkt) (\<lambda>(r, d').
             bindR (minimsg_get_semaphore port s) (\<lambda>sem.
             bindR (deref (miniports s) p) (\<lambda>mp.
               semaphore_V sem (s\<lparr>miniports := (miniports s)(p \<mapsto> mp\<lparr>p_union := Unbound d' sem\<rparr>)\<rparr>))))))))"

section \<open>Bound ports\<close>

lemma P_call_passes:
  "p \<noteq> NULL \<Longrightarrow> sems s p = Some sem \<Longrightarrow> 0 < s_count sem \<Longrightarrow>
   P_call p s = Inr (Completed (), s\<lparr>sems := (sems s)(p \<mapsto> sem\<lparr>s_count := s_count sem - 1\<rparr>)\<rparr>)"
  by (simp add: P_call_def semaphore_P_passes)

lemma sem_down_up [simp]:
  "m p = Some sem \<Longrightarrow> m(p \<mapsto> sem\<lparr>s_count := s_count sem\<rparr>) = m"
  by (simp add: fun_upd_idem)

lemma create_bound_ok:
  assumes "0 \<le> remote" "remote \<le> MAX_UNBOUND_PORT" "msg_mutex s \<noteq> NULL" "sems s (msg_mutex s) = Some sem" "0 < s_count sem"
    "0 \<le> nPorts s" "nPorts s < MAX_PORTS - 1"
  shows "miniport_create_bound True (Some a) remote s = Inr (Completed (port_brk s),
    s\<lparr>bound_ports_free := (bound_ports_free s)(nPorts s := False), nPorts := nPorts s + 1,
      miniports := (miniports s)(port_brk s \<mapsto> \<lparr>p_number = nPorts s + MIN_BOUND_PORT, p_union = Bound a remote\<rparr>),
      port_brk := Suc (port_brk s)\<rparr>)" (is "_ = Inr (_, ?s)")
proof -
  have idem: "(sems s)(msg_mutex s \<mapsto> sem) = sems s" using assms(4) by (simp add: fun_upd_idem)
  have "miniport_create_bound True (Some a) remote s = Inr (Completed (port_brk s),
    s\<lparr>port_brk := Suc (port_brk s), bound_ports_free := (bound_ports_free s)(nPorts s := False), nPorts := nPorts s + 1,
      sems := (sems s)(msg_mutex s \<mapsto> sem),
      miniports := (miniports s)(port_brk s \<mapsto> \<lparr>p_number = nPorts s + MIN_BOUND_PORT, p_union = Bound a remote\<rparr>)\<rparr>)"
    using assms
    by (simp add: miniport_create_bound_def miniport_create_bound_resumed_def P_call_passes semaphore_V_passes port_set_def Let_def)
  also have "\<dots> = Inr (Completed (port_brk s), ?s)"
    unfolding idem by (simp add: msg.equality)
  finally show ?thesis .
qed

text \<open>The scan takes every free port of its range and reports the last one.\<close>

lemma bound_scan_eq:
  "bound_scan k i free num =
     (\<lambda>j. free j \<and> \<not> (i \<le> j \<and> j < i + int k),
      fold (\<lambda>j n. if free j then j + MIN_BOUND_PORT else n) (map (\<lambda>x. i + int x) [0..<k]) num)"
proof (induction k arbitrary: i free num)
  case 0
  then show ?case by simp
next
  case (Suc k)
  have upt: "map (\<lambda>x. i + int x) [0..<Suc k] = i # map (\<lambda>x. (i + 1) + int x) [0..<k]"
    by (simp only: upt_conv_Cons zero_less_Suc list.map) (simp add: map_Suc_upt [symmetric] del: upt_Suc)
  have same: "fold (\<lambda>j n. if (free(i := False)) j then j + MIN_BOUND_PORT else n) (map (\<lambda>x. (i + 1) + int x) [0..<k]) m =
      fold (\<lambda>j n. if free j then j + MIN_BOUND_PORT else n) (map (\<lambda>x. (i + 1) + int x) [0..<k]) m" for m
    by (intro fold_cong) auto
  show ?case
  proof (cases "free i")
    case True
    have "(\<lambda>j. (free(i := False)) j \<and> \<not> (i + 1 \<le> j \<and> j < i + 1 + int k)) = (\<lambda>j. free j \<and> \<not> (i \<le> j \<and> j < i + int (Suc k)))"
      by (auto simp: fun_eq_iff)
    then show ?thesis unfolding upt bound_scan.simps Suc.IH same using True by (simp only: if_True fold.simps o_apply)
  next
    case False
    then have "(\<lambda>j. free j \<and> \<not> (i + 1 \<le> j \<and> j < i + 1 + int k)) = (\<lambda>j. free j \<and> \<not> (i \<le> j \<and> j < i + int (Suc k)))"
      by (auto simp: fun_eq_iff) (metis linorder_not_less nle_le zless_imp_add1_zle)
    then show ?thesis unfolding upt bound_scan.simps Suc.IH using False by (simp only: if_False fold.simps o_apply)
  qed
qed

lemma bound_scan_fst: "fst (bound_scan k i free num) = (\<lambda>j. free j \<and> \<not> (i \<le> j \<and> j < i + int k))"
  by (simp only: bound_scan_eq fst_conv)

section \<open>From one port to another\<close>

lemma minimsg_header_fields:
  assumes "length junk = mini_header_size"
    and "h = minimsg_header junk la lp ra rp"
  shows "length h = mini_header_size" "h ! off_protocol = digit PROTOCOL_MINIDATAGRAM"
    "unpack_address h off_source_address = la" "unpack_unsigned_short h off_source_port = of_int lp"
    "unpack_address h off_destination_address = ra" "unpack_unsigned_short h off_destination_port = of_int rp"
  using assms by (simp_all add: minimsg_header_def header_offsets Let_def unpack_address_def pack_address_def)

text \<open>The datagram that goes over the wire.\<close>

lemma minimsg_send_wire:
  assumes "miniports s lu = Some plu" "miniports s lb = Some plb" "p_union plb = Bound ra rp" "lu \<noteq> NULL" "lb \<noteq> NULL"
    "0 \<le> len" "len \<le> MINIMSG_MAX_MSG_SIZE" "len \<le> int (length m)" "length junk = mini_header_size" "\<not> synthetic_network s"
    "h = minimsg_header junk (network_get_my_address env (0, 0) s) (p_number plu) ra rp"
    "r = sendto env (network_address_to_sockaddr ra) (h @ take (nat len) m)"
  shows "minimsg_send env lost dup junk lu lb (Some m) len s = Inr (if r = -1 then -1 else r - int mini_header_size,
    s\<lparr>wire := wire s @ [(network_address_to_sockaddr ra, h @ take (nat len) m)]\<rparr>)"
proof -
  have "length h = mini_header_size" using minimsg_header_fields(1) [OF assms(9,11)] .
  moreover have "int mini_header_size + len \<le> MAX_NETWORK_PKT_SIZE" using assms(7) by (simp add: mini_header_size_def)
  ultimately have send: "network_send_pkt env lost dup ra (int mini_header_size) h len m s = Inr (r,
      s\<lparr>wire := wire s @ [(network_address_to_sockaddr ra, h @ take (nat len) m)]\<rparr>)"
    using network_send_ok [of "int mini_header_size" h len m "(network_address_to_sockaddr ra, h @ take (nat len) m)" ra env lost dup s]
      assms(6,8,10,12) by simp
  then show ?thesis using assms(1-7) by (simp add: minimsg_send_def deref_Some flip: assms(11))
qed

lemma msg_of_more: "system.more s' = system.more s \<Longrightarrow> miniports s' = miniports (s :: 'z msg_scheme)"
  by (cases s, cases s') simp

text \<open>The receiving side: the packet ends up last in the port's queue and the semaphore is raised.\<close>

lemma handle_udp_ok:
  assumes inv: "sys_inv s" and pk: "packets s a = Some pk" "a \<noteq> NULL"
    and sz: "int mini_header_size < size pk" "size pk \<le> MAX_NETWORK_PKT_SIZE"
    and port: "i = uint (unpack_unsigned_short (buffer pk) off_destination_port)" "i < MAX_PORTS"
      "unbound_ports s i = p" "p \<noteq> NULL" "miniports s p = Some mp" "p_union mp = Unbound d sem" "oq_inv d" "sems s sem \<noteq> None"
  shows "\<exists>s' d'. handle_udp_packet a s = Inr s' \<and> sys_inv s' \<and> places s' = places s \<and> oq_inv d' \<and>
    oq_items d' = oq_items d @ [a] \<and> miniports s' p = Some (mp\<lparr>p_union := Unbound d' sem\<rparr>)"
proof -
  obtain d' where d': "queue_append d a = Inr (0, d')" "oq_inv d'" "oq_items d' = oq_items d @ [a]"
    using port(7) by (rule lq.app_returns)
  define s1 where "s1 = s\<lparr>miniports := (miniports s)(p \<mapsto> mp\<lparr>p_union := Unbound d' sem\<rparr>)\<rparr>"
  have k: "sys_inv s1 = sys_inv s" "places s1 = places s" "sems s1 = sems s" "threads_inv s1 = threads_inv s"
    by (simp_all add: s1_def sys_inv_def threads_inv_def sched_inv_def sched_core_def levels_ok_def thread_ok_def
          current_def ready_def places_def waiting_def waiters_def sleeping_def sems_ok_def handlers_ok_def pending_def
          alarm_inv_def cong: option.case_cong)
  have call: "handle_udp_packet a s = semaphore_V sem s1"
    using pk sz port d'(1) unfolding handle_udp_packet_def
    by (simp add: deref_Some port_get_def minimsg_get_data_queue_def minimsg_get_semaphore_def s1_def)
  obtain s' where s': "semaphore_V sem s1 = Inr s'" "sys_inv s'" "places s' = places s1" "system.more s' = system.more s1"
    using semaphore_V_ok [of s1 sem] inv port(8) k by auto
  have "miniports s' = miniports s1" using s'(4) by (rule msg_of_more)
  then show ?thesis using call s' k d' by (auto simp: s1_def)
qed

text \<open>The receiver copies as much of the payload as fits and reports the full length.\<close>

lemma copy_loop_ok:
  assumes "n = min (nat ml) (nat len)" "n \<le> length src" "n \<le> length dst"
  shows "ml = int (i + k) \<Longrightarrow> i \<le> n \<Longrightarrow>
    copy_loop k (int i) ml len (take i src @ drop i dst) src = Inr (take n src @ drop n dst)"
proof (induction k arbitrary: i)
  case 0
  then have "i = n" using assms(1) by simp
  then show ?case by simp
next
  case (Suc k)
  show ?case
  proof (cases "i < n")
    case True
    then have "i < nat ml" "i < nat len" using assms(1) by simp_all
    then have i: "int i < ml" "int i < len" "i < length src" "i < length dst" using True assms(2,3) by linarith+
    have upd: "(take i src @ drop i dst)[i := src ! i] = take (Suc i) src @ drop (Suc i) dst"
      using i(3,4) by (simp add: list_update_append take_Suc_conv_app_nth Cons_nth_drop_Suc [symmetric])
    have "copy_loop k (int (Suc i)) ml len (take (Suc i) src @ drop (Suc i) dst) src = Inr (take n src @ drop n dst)"
      using Suc.prems True by (intro Suc.IH) simp_all
    then show ?thesis using i upd by (simp add: aget_def aset_def add.commute)
  next
    case False
    then have "i = n" using Suc.prems by simp
    moreover have "\<not> (int i < ml \<and> int i < len)" using False assms(1) by auto
    ultimately show ?thesis by auto
  qed
qed

lemma minimsg_receive_exact:
  assumes port: "miniports s p = Some mp" "p \<noteq> NULL" "p_union mp = Unbound d r" "oq_inv d" "oq_items d = a # as" "a \<noteq> NULL"
    and pk: "packets s a = Some pk" "size pk = int mini_header_size + n" "0 < n" "size pk \<le> int (length (buffer pk))"
    and reply: "src_port = uint (unpack_unsigned_short (buffer pk) off_source_port)" "src_port \<le> MAX_UNBOUND_PORT"
      "msg_mutex s \<noteq> NULL" "sems s (msg_mutex s) = Some sem" "0 < s_count sem" "0 \<le> nPorts s" "nPorts s < MAX_PORTS - 1"
    and room: "k = min (nat n) (nat len)" "k \<le> length m"
  obtains d' where "oq_inv d'" "oq_items d' = as"
    "minimsg_receive_resumed True p m len s = Inr (Completed (n, Some (port_brk s), take k (drop mini_header_size (buffer pk)) @ drop k m, n),
      s\<lparr>bound_ports_free := (bound_ports_free s)(nPorts s := False), nPorts := nPorts s + 1,
        miniports := (miniports s)(p \<mapsto> mp\<lparr>p_union := Unbound d' r\<rparr>, port_brk s \<mapsto> \<lparr>p_number = nPorts s + MIN_BOUND_PORT,
          p_union = Bound (unpack_address (buffer pk) off_source_address) src_port\<rparr>),
        port_brk := Suc (port_brk s), packets := (packets s)(a := None)\<rparr>)"
proof -
  obtain d' where d': "queue_dequeue d = Inr (0, a, d')" "oq_inv d'" "oq_items d' = as"
    using lq.deq_first [OF port(4,5)] by blast
  define s1 where "s1 = s\<lparr>miniports := (miniports s)(p \<mapsto> mp\<lparr>p_union := Unbound d' r\<rparr>)\<rparr>"
  define s2 where "s2 = s1\<lparr>bound_ports_free := (bound_ports_free s1)(nPorts s1 := False), nPorts := nPorts s1 + 1,
      miniports := (miniports s1)(port_brk s1 \<mapsto> \<lparr>p_number = nPorts s1 + MIN_BOUND_PORT,
        p_union = Bound (unpack_address (buffer pk) off_source_address) src_port\<rparr>), port_brk := Suc (port_brk s1)\<rparr>"
  have "0 \<le> src_port" using reply(1) by simp
  with create_bound_ok [of src_port s1 sem "unpack_address (buffer pk) off_source_address"] reply
  have cb: "miniport_create_bound True (Some (unpack_address (buffer pk) off_source_address)) src_port s1
      = Inr (Completed (port_brk s), s2)" by (simp add: s1_def s2_def)
  have "k \<le> length (drop mini_header_size (buffer pk))" using pk(2,3,4) room(1) by simp
  from copy_loop_ok [OF room(1) this room(2), of 0 "nat n"] pk(3)
  have cp: "copy_loop (nat n) 0 n len m (drop mini_header_size (buffer pk)) =
      Inr (take k (drop mini_header_size (buffer pk)) @ drop k m)" by simp
  have "minimsg_receive_resumed True p m len s = Inr (Completed (n, Some (port_brk s),
        take k (drop mini_header_size (buffer pk)) @ drop k m, n), s2\<lparr>packets := (packets s2)(a := None)\<rparr>)"
    using port pk d'(1) cb cp unfolding minimsg_receive_resumed_def
    using reply(1) by (simp add: deref_Some s1_def)
  then show thesis by (intro that [OF d'(2,3)]) (simp add: s1_def s2_def)
qed

lemma minimsg_receive_ok:
  assumes port: "miniports s p = Some mp" "p \<noteq> NULL" "p_union mp = Unbound d r" "oq_inv d" "oq_items d = a # as" "a \<noteq> NULL"
    and pk: "packets s a = Some pk" "size pk = int mini_header_size + n" "0 < n" "size pk \<le> int (length (buffer pk))"
    and reply: "src_port = uint (unpack_unsigned_short (buffer pk) off_source_port)" "src_port \<le> MAX_UNBOUND_PORT"
      "msg_mutex s \<noteq> NULL" "sems s (msg_mutex s) = Some sem" "0 < s_count sem" "0 \<le> nPorts s" "nPorts s < MAX_PORTS - 1"
      "port_brk s \<noteq> p"
    and room: "k = min (nat n) (nat len)" "k \<le> length m"
  shows "\<exists>s' d'. minimsg_receive_resumed True p m len s = Inr (Completed (n, Some (port_brk s),
        take k (drop mini_header_size (buffer pk)) @ drop k m, n), s') \<and>
     miniports s' (port_brk s) = Some \<lparr>p_number = nPorts s + MIN_BOUND_PORT,
        p_union = Bound (unpack_address (buffer pk) off_source_address) src_port\<rparr> \<and>
     miniports s' p = Some (mp\<lparr>p_union := Unbound d' r\<rparr>) \<and> oq_inv d' \<and> oq_items d' = as \<and>
     packets s' = (packets s)(a := None) \<and> sems s' = sems s"
  by (rule minimsg_receive_exact [OF assms(1-17,19,20)]) (use reply(8) in auto)

text \<open>
  What one machine sends, another one receives: payload, reply address and reply port survive the trip
  through the wire format.
\<close>

lemma datagram_payload:
  assumes "length junk = mini_header_size" "h = minimsg_header junk la lp ra rp" "w = h @ take (nat len) m"
    "0 \<le> len" "len \<le> int (length m)" "0 \<le> lp" "lp < 65536" "0 \<le> rp" "rp < 65536"
  shows "drop mini_header_size (w @ pad) = take (nat len) m @ pad" "int (length w) = int mini_header_size + len"
    "unpack_address (w @ pad) off_source_address = la" "uint (unpack_unsigned_short (w @ pad) off_source_port) = lp"
    "uint (unpack_unsigned_short (w @ pad) off_destination_port) = rp"
proof -
  note f = minimsg_header_fields [OF assms(1,2)]
  show "drop mini_header_size (w @ pad) = take (nat len) m @ pad" "int (length w) = int mini_header_size + len"
    using f(1) assms(3-5) by simp_all
  have p: "unpack_address (w @ pad) off_source_address = unpack_address h off_source_address"
    "unpack_unsigned_short (w @ pad) off_source_port = unpack_unsigned_short h off_source_port"
    "unpack_unsigned_short (w @ pad) off_destination_port = unpack_unsigned_short h off_destination_port"
    using f(1) assms(3) by (simp_all add: unpack_address_def unpack_unsigned_int_def unpack_unsigned_short_def
        header_offsets nth_append)
  have "uint (of_int lp :: 16 word) = lp" "uint (of_int rp :: 16 word) = rp"
    using assms(6-9) by (simp_all add: uint_word_of_int take_bit_int_eq_self)
  then show "unpack_address (w @ pad) off_source_address = la" "uint (unpack_unsigned_short (w @ pad) off_source_port) = lp"
    "uint (unpack_unsigned_short (w @ pad) off_destination_port) = rp" using f p by simp_all
qed

section \<open>Properties\<close>

text \<open>
  C17: a datagram that one machine sends arrives at another: once what the sender puts on the wire is at the
  head of the receiving port's queue, the receiver gets the payload and a new port that is bound to the address and the port of
  the sender.
\<close>

theorem datagram_end_to_end:
  fixes s r :: "'z msg_scheme"
  assumes sender: "miniports s lu = Some plu" "miniports s lb = Some plb" "p_union plb = Bound ra rp" "lu \<noteq> NULL" "lb \<noteq> NULL"
      "0 < len" "len \<le> 4096" "len = int (length m)" "length junk = mini_header_size" "\<not> synthetic_network s"
      "0 \<le> p_number plu" "p_number plu \<le> 32767" "0 \<le> rp" "rp \<le> 32767"
    and onwire: "w = minimsg_header junk (network_get_my_address env (0, 0) s) (p_number plu) ra rp @ m"
    and receiver: "miniports r p = Some mp" "p \<noteq> NULL" "p_union mp = Unbound d rdy" "oq_inv d" "oq_items d = a # as" "a \<noteq> NULL"
      "msg_mutex r \<noteq> NULL" "sems r (msg_mutex r) = Some sem" "0 < s_count sem" "0 \<le> nPorts r" "nPorts r < 32767" "port_brk r \<noteq> p"
    and queued: "packets r a = Some \<lparr>pk_sender = sndr, buffer = w @ pad, size = int (length w)\<rparr>" "length m \<le> length out"
  shows "(\<exists>x. minimsg_send env lost dup junk lu lb (Some m) len s =
       Inr (x, s\<lparr>wire := wire s @ [(network_address_to_sockaddr ra, w)]\<rparr>)) \<and>
    (\<exists>r'. minimsg_receive_resumed True p out (int (length out)) r =
         Inr (Completed (len, Some (port_brk r), m @ drop (length m) out, len), r') \<and>
       miniports r' (port_brk r) = Some \<lparr>p_number = nPorts r + 32768,
         p_union = Bound (network_get_my_address env (0, 0) s) (p_number plu)\<rparr> \<and> packets r' a = None)"
proof
  define h where "h = minimsg_header junk (network_get_my_address env (0, 0) s) (p_number plu) ra rp"
  have w: "w = h @ take (nat len) m" using onwire sender(8) by (simp add: h_def)
  show "\<exists>x. minimsg_send env lost dup junk lu lb (Some m) len s = Inr (x, s\<lparr>wire := wire s @ [(network_address_to_sockaddr ra, w)]\<rparr>)"
    unfolding w using minimsg_send_wire [OF sender(1-5) _ _ _ sender(9,10) h_def refl, of len m] sender by auto
  have pay: "drop mini_header_size (w @ pad) = m @ pad" "int (length w) = int mini_header_size + len"
    "unpack_address (w @ pad) off_source_address = network_get_my_address env (0, 0) s"
    "uint (unpack_unsigned_short (w @ pad) off_source_port) = p_number plu"
    using datagram_payload [OF sender(9) h_def w] sender by simp_all
  define pk where "pk = \<lparr>pk_sender = sndr, buffer = w @ pad, size = int (length w)\<rparr>"
  have b: "buffer pk = w @ pad" "size pk = int (length w)" by (simp_all add: pk_def)
  note rcv = minimsg_receive_ok [OF receiver(1-6) queued(1) [folded pk_def], where n = len and k = "length m" and src_port = "p_number plu"
      and sem = sem and len = "int (length out)" and m = out, unfolded b pay(3,4)]
  have "\<exists>s' d'. minimsg_receive_resumed True p out (int (length out)) r = Inr (Completed (len, Some (port_brk r),
      take (length m) (drop mini_header_size (w @ pad)) @ drop (length m) out, len), s') \<and>
    miniports s' (port_brk r) = Some \<lparr>p_number = nPorts r + MIN_BOUND_PORT,
      p_union = Bound (network_get_my_address env (0, 0) s) (p_number plu)\<rparr> \<and>
    miniports s' p = Some (mp\<lparr>p_union := Unbound d' rdy\<rparr>) \<and> oq_inv d' \<and> oq_items d' = as \<and>
    packets s' = (packets r)(a := None) \<and> sems s' = sems r"
    by (rule rcv) (use sender(6,8,12) pay(2) receiver(7-12) queued(2) in simp_all)
  moreover have "take (length m) (drop mini_header_size (w @ pad)) = m" unfolding pay(1) by simp
  ultimately show "\<exists>r'. minimsg_receive_resumed True p out (int (length out)) r =
         Inr (Completed (len, Some (port_brk r), m @ drop (length m) out, len), r') \<and>
       miniports r' (port_brk r) = Some \<lparr>p_number = nPorts r + 32768,
         p_union = Bound (network_get_my_address env (0, 0) s) (p_number plu)\<rparr> \<and> packets r' a = None"
    by (metis fun_upd_same)
qed

text \<open>
  The port number of an incoming datagram is not checked: a packet for a port from 32768 on makes the network
  interrupt read past the end of the port array.
\<close>

theorem udp_port_unchecked:
  assumes "packets s a = Some pk" "a \<noteq> NULL" "int mini_header_size < size pk" "size pk \<le> 8192"
    "32768 \<le> uint (unpack_unsigned_short (buffer pk) off_destination_port)"
  shows "handle_udp_packet a s = Inl Out_of_bounds"
  using assms by (simp add: handle_udp_packet_def deref_Some port_get_def)

text \<open>
  Once the counter has reached its bound, the next port that is created takes every free port, and the
  one after it finds none.
\<close>

theorem bound_ports_run_out:
  assumes "32767 \<le> nPorts s" "msg_mutex s \<noteq> NULL" "sems s (msg_mutex s) = Some sem" "0 \<le> s_count sem"
  shows "\<exists>c s'. miniport_create_bound_resumed q addr remote s = Inr (Completed c, s') \<and> nPorts s' = nPorts s \<and>
    (\<forall>i. 0 \<le> i \<and> i < 32768 \<longrightarrow> \<not> bound_ports_free s' i)"
proof -
  obtain fr num where scan: "bound_scan (nat 32768) 0 (bound_ports_free s) (- 1) = (fr, num)"
    by (cases "bound_scan (nat 32768) 0 (bound_ports_free s) (- 1)")
  have "fr = (\<lambda>j. bound_ports_free s j \<and> \<not> (0 \<le> j \<and> j < 0 + int (nat 32768)))"
    using bound_scan_fst [of "nat 32768" 0 "bound_ports_free s" "- 1"] unfolding scan fst_conv .
  then have fr: "\<forall>i. 0 \<le> i \<and> i < 32768 \<longrightarrow> \<not> fr i" by simp
  have n: "\<not> nPorts s < MAX_PORTS - 1" using assms(1) by simp
  show ?thesis
  proof (cases "num = - 1")
    case True
    have "miniport_create_bound_resumed q addr remote s = Inr (Completed NULL, s\<lparr>bound_ports_free := fr,
        sems := (sems s)(msg_mutex s \<mapsto> sem\<lparr>s_count := s_count sem + 1\<rparr>)\<rparr>)"
      unfolding miniport_create_bound_resumed_def if_not_P [OF n] scan using assms(2-4) True by (simp add: semaphore_V_passes)
    with fr show ?thesis by fastforce
  next
    case False
    then show ?thesis
      unfolding miniport_create_bound_resumed_def if_not_P [OF n] scan using assms(2-4) fr by (simp add: semaphore_V_passes)
  qed
qed

text \<open>
  Destroying an unbound port always faults: the loop that empties its queue stores the items through a NULL
  pointer, even when there is none.
\<close>

theorem destroy_unbound_faults:
  assumes "p \<noteq> NULL" "miniports s p = Some mp" "p_union mp = Unbound (Some d) rdy" "0 \<le> p_number mp" "p_number mp < 32768" "queue_inv d"
  shows "miniport_destroy p s = Inl Null_deref"
proof -
  have "queue_dequeue_to False (Some d) = Inl Null_deref"
  proof (cases "front d = NULL")
    case False
    have "queue_rep d (q_nodes d)" using queue_inv_rep [OF assms(6)] .
    then have "cells d (front d) \<noteq> None" using False by (cases "q_nodes d") (auto simp: queue_rep_def)
    with False show ?thesis by (auto simp: deref_Some)
  qed simp
  then show ?thesis using assms by (simp add: miniport_destroy_def deref_Some port_set_def set_interrupt_level_def)
qed

section \<open>Examples\<close>

text \<open>
  A machine with an unbound port 5 (structure 1) whose queue holds the packet 9, and a port 2 bound to port 7 of the host
  \<open>(1, 2)\<close>; and one that has used up the numbers of its bound ports.
\<close>

definition one_item :: queue where
  "one_item = \<lparr>front = 1, rear = 1, qcount = 1, cells = [1 \<mapsto> \<lparr>data = 9, priority = 0, nxt = NULL\<rparr>], brk = 2\<rparr>"

lemma one_item: "queue_inv one_item" "q_items one_item = [9]"
  by (simp_all add: one_item_def queue_inv_def q_items_def q_entries_def q_nodes_def queue_rep_def entry_def numeral_2_eq_2)

definition talker :: "byte list \<Rightarrow> msg" where
  "talker b = net.extend (quiet_net\<lparr>sems := [1 \<mapsto> \<lparr>s_count = 1, wait_list = Some queue_new\<rparr>], sem_brk := 2\<rparr>)
     \<lparr>packets = [9 \<mapsto> \<lparr>pk_sender = (0, 0), buffer = b, size = int (length b)\<rparr>], nPorts = 0, bound_ports_free = (\<lambda>i. True),
      unbound_ports = (\<lambda>i. NULL)(5 := 1), msg_mutex = 1,
      miniports = [1 \<mapsto> \<lparr>p_number = 5, p_union = Unbound (Some one_item) 1\<rparr>, 2 \<mapsto> \<lparr>p_number = 32768, p_union = Bound (1, 2) 7\<rparr>],
      port_brk = 3\<rparr>"

lemma talker_fields:
  "miniports (talker b) 1 = Some \<lparr>p_number = 5, p_union = Unbound (Some one_item) 1\<rparr>"
  "miniports (talker b) 2 = Some \<lparr>p_number = 32768, p_union = Bound (1, 2) 7\<rparr>"
  "\<not> synthetic_network (talker b)" "msg_mutex (talker b) = 1" "nPorts (talker b) = 0" "port_brk (talker b) = 3"
  "sems (talker b) 1 = Some \<lparr>s_count = 1, wait_list = Some queue_new\<rparr>" "wire (talker b) = []"
  "packets (talker b) 9 = Some \<lparr>pk_sender = (0, 0), buffer = b, size = int (length b)\<rparr>"
  by (simp_all add: talker_def quiet_net_def net.defs system.defs zeroed_def)

theorem datagram_end_to_end_witness:
  "\<exists>w x s' r'. minimsg_send plain_env False False (replicate 21 0) 1 2 (Some [10, 20, 30]) 3 (talker []) = Inr (x, s') \<and>
     wire s' = [((1, 2), w)] \<and> minimsg_receive_resumed True 1 [0, 0, 0, 0] 4 (talker w) = Inr (Completed (3, Some 3, [10, 20, 30, 0], 3), r') \<and>
     map_option p_union (miniports r' 3) = Some (Bound (network_get_my_address plain_env (0, 0) (talker [])) 5)"
proof -
  define w where "w = minimsg_header (replicate 21 0) (network_get_my_address plain_env (0, 0) (talker [])) 5 (1, 2) 7 @ [10, 20, 30]"
  have "(\<exists>x. minimsg_send plain_env False False (replicate 21 0) 1 2 (Some [10, 20, 30]) 3 (talker []) =
       Inr (x, (talker [])\<lparr>wire := wire (talker []) @ [(network_address_to_sockaddr (1, 2), w)]\<rparr>)) \<and>
    (\<exists>r'. minimsg_receive_resumed True 1 [0, 0, 0, 0] (int (length [0, 0, 0, 0 :: byte])) (talker w) =
         Inr (Completed (3, Some (port_brk (talker w)), [10, 20, 30] @ drop (length [10, 20, 30 :: byte]) [0, 0, 0, 0], 3), r') \<and>
       miniports r' (port_brk (talker w)) = Some \<lparr>p_number = nPorts (talker w) + 32768,
         p_union = Bound (network_get_my_address plain_env (0, 0) (talker []))
           (p_number \<lparr>p_number = 5, p_union = Unbound (Some one_item) 1\<rparr>)\<rparr> \<and> packets r' 9 = None)"
    by (rule datagram_end_to_end [where plu = "\<lparr>p_number = 5, p_union = Unbound (Some one_item) 1\<rparr>" and rdy = 1 and d = "Some one_item"
          and mp = "\<lparr>p_number = 5, p_union = Unbound (Some one_item) 1\<rparr>" and sem = "\<lparr>s_count = 1, wait_list = Some queue_new\<rparr>"
          and sndr = "(0, 0)" and pad = "[]" and as = "[]" and rp = 7 and plb = "\<lparr>p_number = 32768, p_union = Bound (1, 2) 7\<rparr>"])
      (simp_all add: talker_fields talker_fields(1,7) [simplified] one_item mini_header_size_def w_def)
  then show ?thesis by (fastforce simp: talker_fields network_address_to_sockaddr_def)
qed

theorem udp_port_unchecked_witness:
  "handle_udp_packet 9 (talker (replicate 40 255)) = Inl Out_of_bounds"
  by (rule udp_port_unchecked [OF talker_fields(9)])
    (simp_all add: mini_header_size_def unpack_unsigned_short_def header_offsets)

theorem bound_ports_run_out_witness:
  "\<exists>c s'. miniport_create_bound_resumed 3 (4, 4) 6 (talker []\<lparr>nPorts := 32767\<rparr>) = Inr (Completed c, s') \<and> nPorts s' = 32767 \<and>
     \<not> bound_ports_free s' 11"
  using bound_ports_run_out [of "talker []\<lparr>nPorts := 32767\<rparr>" "\<lparr>s_count = 1, wait_list = Some queue_new\<rparr>" 3 "(4, 4)" 6]
  by (auto simp: talker_fields talker_fields(7) [simplified])

theorem destroy_unbound_faults_witness:
  "miniport_destroy 1 (talker []) = Inl Null_deref"
  by (rule destroy_unbound_faults [OF _ talker_fields(1) _ _ _ one_item(1)]) simp_all

end
