(* ===== verification/Minisocket.thy ===== *)
theory Minisocket
  imports Minimsg
begin

text \<open>
  \<^verbatim>\<open>src/P1-P4/minisocket.c\<close> and the dispatch of packets by \<open>network_handler\<close> in \<^verbatim>\<open>src/P1-P4/minithread.c\<close>.
  A call on a socket runs from one \<open>semaphore_P\<close> to the next; the code between two of them is one
  definition. \<open>At p\<close> means that the call is about to execute the P at the program point \<open>p\<close>, with the
  local variables that are alive there; \<open>resume\<close> is the code after that P.
\<close>

section \<open>State\<close>

abbreviation (input) MIN_SERVER_PORT :: int where "MIN_SERVER_PORT \<equiv> 0"
abbreviation (input) MAX_SERVER_PORT :: int where "MAX_SERVER_PORT \<equiv> 32767"
abbreviation (input) MIN_CLIENT_PORT :: int where "MIN_CLIENT_PORT \<equiv> 32768"
abbreviation (input) MAX_CLIENT_PORT :: int where "MAX_CLIENT_PORT \<equiv> 65535"
abbreviation (input) N_PORTS :: int where "N_PORTS \<equiv> 65536"

datatype minisocket_status = INITIAL | WAITING_SYN | WAITING_SYNACK | WAITING_ACK | OPEN | CLOSING | CLOSED

datatype minisocket_error = SOCKET_NOERROR | SOCKET_NOMOREPORTS | SOCKET_PORTINUSE | SOCKET_NOSERVER | SOCKET_BUSY |
  SOCKET_SENDERROR | SOCKET_RECEIVEERROR | SOCKET_INVALIDPARAMS | SOCKET_OUTOFMEMORY

record minisocket =
  socket_type :: char
  socket_state :: minisocket_status
  local_port :: int
  local_addr :: netaddr
  remote_port :: int
  remote_addr :: netaddr
  sk_data :: "queue option"
  data_ready :: ptr
  seq_number :: "32 word"
  ack_number :: "32 word"
  ack_flag :: int
  wait_for_ack :: ptr
  send_receive_mutex :: ptr

record socks = msg +
  sockets :: "ptr \<Rightarrow> minisocket option"
  sock_brk :: ptr
  ports :: "int \<Rightarrow> ptr"
  n_client_ports :: int
  local_host :: netaddr
  ports_mutex :: ptr

text \<open>
  What the code does not determine: the network, the loss and duplication of the \<open>i\<close>-th packet a
  segment sends, whether \<open>malloc\<close> succeeds, and the contents of fresh memory and of the uninitialised \<open>s_error\<close>.
\<close>

record sockenv =
  se_net :: netenv
  se_lost :: "nat \<Rightarrow> bool"
  se_dup :: "nat \<Rightarrow> bool"
  se_malloc :: "nat \<Rightarrow> bool"
  se_alarm :: bool
  se_header :: "byte list"
  se_error :: minisocket_error
  se_sem :: semaphore
  se_sock :: minisocket

datatype after_free = Create_failed minisocket_error | Give_up | Closed_with int | Closed_plain

datatype point =
    Server_mutex ptr int
  | Server_syn ptr
  | Server_ack ptr int ptr minisocket_error
  | Client_mutex ptr netaddr int int
  | Client_ack ptr int ptr minisocket_error
  | Free_mutex ptr after_free
  | Failed_mutex ptr minisocket_error
  | Send_mutex ptr "byte list" int
  | Send_ack ptr "byte list" int int "byte list" int int ptr
  | Recv_mutex ptr "byte list" int
  | Recv_data ptr "byte list" int
  | Close_ack ptr int ptr minisocket_error

text \<open>The results of the calls; an error is \<open>None\<close> where \<open>*error\<close> is not assigned.\<close>

datatype sk_result =
    Socket ptr "minisocket_error option"
  | Sent int "minisocket_error option"
  | Received int "minisocket_error option" "byte list"
  | Closed

datatype control = At point | Finished sk_result

section \<open>Access\<close>

definition sport_get :: "(int \<Rightarrow> 'a) \<Rightarrow> int \<Rightarrow> 'a res" where
  "sport_get a i = (if 0 \<le> i \<and> i < N_PORTS then Inr (a i) else Inl Out_of_bounds)"

definition sport_set :: "(int \<Rightarrow> 'a) \<Rightarrow> int \<Rightarrow> 'a \<Rightarrow> (int \<Rightarrow> 'a) res" where
  "sport_set a i v = (if 0 \<le> i \<and> i < N_PORTS then Inr (a(i := v)) else Inl Out_of_bounds)"

definition upd_sock :: "ptr \<Rightarrow> (minisocket \<Rightarrow> minisocket) \<Rightarrow> 'z socks_scheme \<Rightarrow> 'z socks_scheme res" where
  "upd_sock p f s = bindR (deref (sockets s) p) (\<lambda>k. Inr (s\<lparr>sockets := (sockets s)(p \<mapsto> f k)\<rparr>))"

definition free_packet :: "ptr \<Rightarrow> 'z msg_scheme \<Rightarrow> 'z msg_scheme" where
  "free_packet a s = (if a = NULL then s else s\<lparr>packets := (packets s)(a := None)\<rparr>)"

text \<open>\<open>queue_dequeue(socket->data, &arg)\<close>.\<close>

definition take_packet :: "ptr \<Rightarrow> 'z socks_scheme \<Rightarrow> (int \<times> ptr \<times> 'z socks_scheme) res" where
  "take_packet p s = bindR (deref (sockets s) p) (\<lambda>k. bindR (queue_dequeue (sk_data k)) (\<lambda>(r, a, q).
     Inr (r, a, s\<lparr>sockets := (sockets s)(p \<mapsto> k\<lparr>sk_data := q\<rparr>)\<rparr>)))"

text \<open>\<open>while (queue_dequeue(data, &packet) != -1) free(packet)\<close>, with a turn for each item and one more.\<close>

fun drop_packets :: "nat \<Rightarrow> ptr \<Rightarrow> 'z socks_scheme \<Rightarrow> 'z socks_scheme res" where
  "drop_packets 0 p s = Inl Diverges"
| "drop_packets (Suc n) p s = bindR (take_packet p s) (\<lambda>(r, a, s1).
     if r \<noteq> - 1 then drop_packets n p (free_packet a s1) else Inr s1)"

definition drop_all :: "ptr \<Rightarrow> 'z socks_scheme \<Rightarrow> 'z socks_scheme res" where
  "drop_all p s = bindR (deref (sockets s) p) (\<lambda>k. drop_packets (Suc (length (oq_items (sk_data k)))) p s)"

section \<open>Control packets\<close>

definition minisocket_initialize :: "sockenv \<Rightarrow> 'z socks_scheme \<Rightarrow> 'z socks_scheme res" where
  "minisocket_initialize env s =
     bindR (semaphore_create (se_sem env) True (s\<lparr>ports := (\<lambda>i. NULL)\<rparr>)) (\<lambda>(m, s1).
     bindR (semaphore_initialize m 1 (s1\<lparr>ports_mutex := m\<rparr>)) (\<lambda>s2.
       Inr (s2\<lparr>n_client_ports := MIN_CLIENT_PORT, local_host := network_get_my_address (se_net env) (local_host s2) s2\<rparr>)))"

definition create_control_header ::
  "byte list \<Rightarrow> nat \<Rightarrow> int \<Rightarrow> netaddr \<Rightarrow> int \<Rightarrow> 32 word \<Rightarrow> 32 word \<Rightarrow> 'z socks_scheme \<Rightarrow> byte list" where
  "create_control_header junk msg_type dest_port dest_addr src_port sq ak s =
     (let h0 = junk[off_protocol := digit PROTOCOL_MINISTREAM];
          h1 = pack_address h0 off_source_address (local_host s);
          h2 = pack_unsigned_short h1 off_source_port (of_int src_port);
          h3 = h2[off_message_type := digit msg_type];
          h4 = pack_address h3 off_destination_address dest_addr;
          h5 = pack_unsigned_short h4 off_destination_port (of_int dest_port);
          h6 = pack_unsigned_int h5 off_seq_number sq
      in pack_unsigned_int h6 off_ack_number ak)"

text \<open>The result is what \<open>*error\<close> is set to.\<close>

definition send_control_message ::
  "sockenv \<Rightarrow> nat \<Rightarrow> nat \<Rightarrow> int \<Rightarrow> netaddr \<Rightarrow> int \<Rightarrow> 32 word \<Rightarrow> 32 word \<Rightarrow> 'z socks_scheme \<Rightarrow>
     (minisocket_error option \<times> 'z socks_scheme) res" where
  "send_control_message env i msg_type dest_port dest_addr src_port sq ak s =
     (if \<not> se_malloc env i then Inr (Some SOCKET_OUTOFMEMORY, s)
      else bindR (network_send_pkt (se_net env) (se_lost env i) (se_dup env i) dest_addr (int mini_header_reliable_size)
                   (create_control_header (se_header env) msg_type dest_port dest_addr src_port sq ak s) 0 [] s) (\<lambda>(r, s1).
             Inr (if r = - 1 then Some SOCKET_SENDERROR else None, s1)))"

definition assign :: "'e \<Rightarrow> 'e option \<Rightarrow> 'e" where
  "assign old new = (case new of None \<Rightarrow> old | Some e \<Rightarrow> e)"

section \<open>Freeing a socket\<close>

definition minisocket_free :: "ptr \<Rightarrow> after_free \<Rightarrow> 'z socks_scheme \<Rightarrow> (control \<times> 'z socks_scheme) res" where
  "minisocket_free p af s = bindR (drop_all p s) (\<lambda>s1. bindR (deref (sockets s1) p) (\<lambda>k.
     bindR (queue_free (sk_data k)) (\<lambda>_. bindR (upd_sock p (\<lambda>k. k\<lparr>sk_data := None\<rparr>) s1) (\<lambda>s2.
     bindR (semaphore_destroy (data_ready k) s2) (\<lambda>s3. bindR (semaphore_destroy (wait_for_ack k) s3) (\<lambda>s4.
     bindR (semaphore_destroy (send_receive_mutex k) s4) (\<lambda>s5. Inr (At (Free_mutex p af), s5))))))))"

text \<open>
  The rest of \<open>minisocket_free\<close> after its P, and what its callers do next. After a failed creation the
  caller goes on to read \<open>new_socket->local_port\<close>.
\<close>

definition minisocket_free_rest :: "ptr \<Rightarrow> after_free \<Rightarrow> 'z socks_scheme \<Rightarrow> (control \<times> 'z socks_scheme) res" where
  "minisocket_free_rest p af s = bindR (deref (sockets s) p) (\<lambda>k. bindR (sport_set (ports s) (local_port k) NULL) (\<lambda>ps.
     bindR (semaphore_V (ports_mutex s) (s\<lparr>ports := ps\<rparr>)) (\<lambda>s1.
     let s2 = s1\<lparr>sockets := (sockets s1)(p := None)\<rparr> in
     case af of
       Create_failed e \<Rightarrow> Inr (At (Failed_mutex p e), s2)
     | Give_up \<Rightarrow> Inr (Finished (Socket NULL None), s2)
     | Closed_with l \<Rightarrow> Inr (Finished Closed, snd (set_interrupt_level l s2))
     | Closed_plain \<Rightarrow> Inr (Finished Closed, s2))))"

definition create_failed_rest :: "ptr \<Rightarrow> minisocket_error \<Rightarrow> 'z socks_scheme \<Rightarrow> (control \<times> 'z socks_scheme) res" where
  "create_failed_rest p e s = bindR (deref (sockets s) p) (\<lambda>k. bindR (sport_set (ports s) (local_port k) NULL) (\<lambda>ps.
     bindR (semaphore_V (ports_mutex s) (s\<lparr>ports := ps\<rparr>)) (\<lambda>s1. Inr (Finished (Socket NULL (Some e)), s1))))"

section \<open>The server's handshake\<close>

text \<open>The three semaphores and the data queue of a new socket; \<open>f\<close> sets its other fields.\<close>

definition socket_parts :: "sockenv \<Rightarrow> ptr \<Rightarrow> (minisocket \<Rightarrow> minisocket) \<Rightarrow> 'z socks_scheme \<Rightarrow> 'z socks_scheme res" where
  "socket_parts env p f s =
     bindR (semaphore_create (se_sem env) True s) (\<lambda>(d, s1). bindR (semaphore_create (se_sem env) True s1) (\<lambda>(w, s2).
     bindR (semaphore_create (se_sem env) True s2) (\<lambda>(m, s3).
     bindR (upd_sock p (\<lambda>k. (f k)\<lparr>local_addr := local_host s3, sk_data := Some queue_new,
        data_ready := d, wait_for_ack := w, send_receive_mutex := m\<rparr>) s3) (\<lambda>s4.
     bindR (semaphore_initialize d 0 s4) (\<lambda>s5. bindR (semaphore_initialize w 0 s5) (semaphore_initialize m 1))))))"

definition server_restart :: "ptr \<Rightarrow> 'z socks_scheme \<Rightarrow> (control \<times> 'z socks_scheme) res" where
  "server_restart p s = bindR (upd_sock p (\<lambda>k. k\<lparr>seq_number := 0, ack_number := 0, remote_port := - 1, remote_addr := (0, 0),
      socket_state := WAITING_SYN\<rparr>) s) (\<lambda>s1. Inr (At (Server_syn p), s1))"

definition minisocket_server_create :: "sockenv \<Rightarrow> bool \<Rightarrow> int \<Rightarrow> 'z socks_scheme \<Rightarrow> (control \<times> 'z socks_scheme) res" where
  "minisocket_server_create env malloc_ok port s =
     (if port < MIN_SERVER_PORT \<or> port > MAX_SERVER_PORT then Inr (Finished (Socket NULL (Some SOCKET_INVALIDPARAMS)), s)
      else bindR (sport_get (ports s) port) (\<lambda>q.
        if q \<noteq> NULL then Inr (Finished (Socket NULL (Some SOCKET_PORTINUSE)), s)
        else if \<not> malloc_ok then Inr (Finished (Socket NULL (Some SOCKET_OUTOFMEMORY)), s)
        else let p = sock_brk s in
          Inr (At (Server_mutex p port),
            s\<lparr>sockets := (sockets s)(p \<mapsto> (se_sock env)\<lparr>socket_state := INITIAL\<rparr>), sock_brk := Suc p\<rparr>)))"

definition server_mutex_rest :: "sockenv \<Rightarrow> ptr \<Rightarrow> int \<Rightarrow> 'z socks_scheme \<Rightarrow> (control \<times> 'z socks_scheme) res" where
  "server_mutex_rest env p port s = bindR (sport_set (ports s) port p) (\<lambda>ps.
     bindR (semaphore_V (ports_mutex s) (s\<lparr>ports := ps\<rparr>)) (\<lambda>s1.
     bindR (socket_parts env p (\<lambda>k. k\<lparr>socket_type := CHR ''s'', local_port := port, ack_flag := 0\<rparr>) s1) (server_restart p)))"

text \<open>One turn of the loop that sends SYNACK with growing timeouts; \<open>err\<close> is \<open>s_error\<close>.\<close>

definition server_turn :: "sockenv \<Rightarrow> nat \<Rightarrow> ptr \<Rightarrow> int \<Rightarrow> minisocket_error \<Rightarrow> 'z socks_scheme \<Rightarrow> (control \<times> 'z socks_scheme) res" where
  "server_turn env i p wait_val err s =
     (if wait_val \<le> 12800 then
        bindR (deref (sockets s) p) (\<lambda>k.
        bindR (send_control_message env i MSG_SYNACK (remote_port k) (remote_addr k) (local_port k) 0 1 s) (\<lambda>(e, s1).
        bindR (upd_sock p (\<lambda>k. k\<lparr>seq_number := 1, ack_number := 1\<rparr>) s1) (\<lambda>s2.
        if assign err e = SOCKET_OUTOFMEMORY then minisocket_free p (Create_failed (assign err e)) s2
        else bindR (register_alarm (se_alarm env) wait_val Semaphore_V (data_ready k) s2) (\<lambda>(a, s3).
               Inr (At (Server_ack p wait_val a (assign err e)), s3)))))
      else server_restart p s)"

definition server_syn_rest :: "sockenv \<Rightarrow> ptr \<Rightarrow> 'z socks_scheme \<Rightarrow> (control \<times> 'z socks_scheme) res" where
  "server_syn_rest env p s = bindR (take_packet p s) (\<lambda>(r, a, s1). bindR (deref (packets s1) a) (\<lambda>pk.
     if buffer pk ! off_message_type = digit MSG_SYN then
       bindR (upd_sock p (\<lambda>k. k\<lparr>remote_addr := unpack_address (buffer pk) off_source_address,
           remote_port := uint (unpack_unsigned_short (buffer pk) off_source_port),
           socket_state := WAITING_ACK, seq_number := 0, ack_number := 1\<rparr>) s1) (\<lambda>s2.
         server_turn env 0 p 100 (se_error env) s2)
     else Inr (At (Server_syn p), free_packet a s1)))"

text \<open>After a wake-up: a packet is there, or else the alarm fired.\<close>

definition stop_alarm :: "ptr \<Rightarrow> ptr \<Rightarrow> 'z socks_scheme \<Rightarrow> (bool \<times> 'z socks_scheme) res" where
  "stop_alarm p a s = (let (old_level, s1) = set_interrupt_level DISABLED s in
     bindR (deref (sockets s1) p) (\<lambda>k. bindR (queue_length (sk_data k)) (\<lambda>n.
     bindR (if n \<noteq> 0 then bindR (deregister_alarm a s1) (\<lambda>(r, s2). Inr s2) else Inr s1) (\<lambda>s2.
       Inr (n \<noteq> 0, snd (set_interrupt_level old_level s2))))))"

definition same_peer :: "minisocket \<Rightarrow> netaddr \<Rightarrow> int \<Rightarrow> bool" where
  "same_peer k saddr sport = (remote_port k = sport \<and> network_compare_network_addresses (remote_addr k) saddr)"

definition server_ack_rest :: "sockenv \<Rightarrow> ptr \<Rightarrow> int \<Rightarrow> ptr \<Rightarrow> minisocket_error \<Rightarrow> 'z socks_scheme \<Rightarrow> (control \<times> 'z socks_scheme) res" where
  "server_ack_rest env p wait_val al err s = bindR (stop_alarm p al s) (\<lambda>(got, s1).
     if \<not> got then server_turn env 0 p (wait_val * 2) err s1
     else bindR (take_packet p s1) (\<lambda>(r, a, s2). bindR (deref (packets s2) a) (\<lambda>pk. bindR (deref (sockets s2) p) (\<lambda>k.
       let saddr = unpack_address (buffer pk) off_source_address;
           sport = uint (unpack_unsigned_short (buffer pk) off_source_port);
           ty = buffer pk ! off_message_type
       in if ty = digit MSG_SYN \<and> same_peer k saddr sport then server_turn env 0 p wait_val err s2
          else if ty = digit MSG_SYN then
            bindR (send_control_message env 0 MSG_FIN sport saddr (local_port k) 0 0 s2) (\<lambda>(e, s3).
              server_turn env 1 p wait_val (assign err e) (free_packet a s3))
          else if ty = digit MSG_ACK \<and> same_peer k saddr sport then
            bindR (drop_all p s2) (\<lambda>s3. bindR (semaphore_initialize (data_ready k) 0 s3) (\<lambda>s4.
            bindR (upd_sock p (\<lambda>k. k\<lparr>socket_state := OPEN, seq_number := 1, ack_number := 2\<rparr>) s4) (\<lambda>s5.
              Inr (Finished (Socket p None), s5))))
          else server_turn env 0 p wait_val err (free_packet a s2)))))"

section \<open>The client's handshake\<close>

text \<open>The first free client port, counted by the second argument.\<close>

fun free_client_port :: "(int \<Rightarrow> ptr) \<Rightarrow> nat \<Rightarrow> int \<Rightarrow> int" where
  "free_client_port ps 0 i = - 1"
| "free_client_port ps (Suc n) i = (if ps i = NULL then i else free_client_port ps n (i + 1))"

definition minisocket_client_create ::
  "sockenv \<Rightarrow> bool \<Rightarrow> netaddr option \<Rightarrow> int \<Rightarrow> 'z socks_scheme \<Rightarrow> (control \<times> 'z socks_scheme) res" where
  "minisocket_client_create env malloc_ok addr port s =
     (case addr of
        None \<Rightarrow> Inr (Finished (Socket NULL (Some SOCKET_INVALIDPARAMS)), s)
      | Some ad \<Rightarrow>
        if port < MIN_SERVER_PORT \<or> port > MAX_SERVER_PORT then Inr (Finished (Socket NULL (Some SOCKET_INVALIDPARAMS)), s)
        else bindR (sport_get (ports s) (n_client_ports s)) (\<lambda>q.
          let port_val = (if q = NULL then n_client_ports s
                          else free_client_port (ports s) (nat (MAX_CLIENT_PORT - MIN_CLIENT_PORT + 1)) MIN_CLIENT_PORT);
              s1 = s\<lparr>n_client_ports := (if port_val + 1 > MAX_CLIENT_PORT then 0 else port_val + 1)\<rparr>
          in if port_val = - 1 then Inr (Finished (Socket NULL (Some SOCKET_NOMOREPORTS)), s1)
             else if \<not> malloc_ok then Inr (Finished (Socket NULL (Some SOCKET_OUTOFMEMORY)), s1)
             else let p = sock_brk s1 in
               Inr (At (Client_mutex p ad port port_val),
                 s1\<lparr>sockets := (sockets s1)(p \<mapsto> (se_sock env)\<lparr>socket_state := INITIAL\<rparr>), sock_brk := Suc p\<rparr>)))"

definition client_turn :: "sockenv \<Rightarrow> nat \<Rightarrow> ptr \<Rightarrow> int \<Rightarrow> minisocket_error \<Rightarrow> 'z socks_scheme \<Rightarrow> (control \<times> 'z socks_scheme) res" where
  "client_turn env i p wait_val err s =
     (if wait_val \<le> 12800 then
        bindR (deref (sockets s) p) (\<lambda>k.
        bindR (send_control_message env i MSG_SYN (remote_port k) (remote_addr k) (local_port k) 0 0 s) (\<lambda>(e, s1).
        bindR (upd_sock p (\<lambda>k. k\<lparr>seq_number := 1, ack_number := 0\<rparr>) s1) (\<lambda>s2.
        if assign err e = SOCKET_OUTOFMEMORY then minisocket_free p (Create_failed (assign err e)) s2
        else bindR (register_alarm (se_alarm env) wait_val Semaphore_V (data_ready k) s2) (\<lambda>(a, s3).
               Inr (At (Client_ack p wait_val a (assign err e)), s3)))))
      else minisocket_free p Give_up s)"

text \<open>The client does not set \<open>ack_flag\<close>.\<close>

definition client_mutex_rest ::
  "sockenv \<Rightarrow> ptr \<Rightarrow> netaddr \<Rightarrow> int \<Rightarrow> int \<Rightarrow> 'z socks_scheme \<Rightarrow> (control \<times> 'z socks_scheme) res" where
  "client_mutex_rest env p addr port port_val s = bindR (sport_set (ports s) port_val p) (\<lambda>ps.
     bindR (semaphore_V (ports_mutex s) (s\<lparr>ports := ps\<rparr>)) (\<lambda>s1.
     bindR (socket_parts env p (\<lambda>k. k\<lparr>socket_type := CHR ''c'', local_port := port_val, remote_addr := addr, remote_port := port\<rparr>) s1) (\<lambda>s2.
     bindR (upd_sock p (\<lambda>k. k\<lparr>socket_state := WAITING_SYNACK\<rparr>) s2) (\<lambda>s3.
       client_turn env 0 p 100 (se_error env) s3))))"

definition client_ack_rest :: "sockenv \<Rightarrow> ptr \<Rightarrow> int \<Rightarrow> ptr \<Rightarrow> minisocket_error \<Rightarrow> 'z socks_scheme \<Rightarrow> (control \<times> 'z socks_scheme) res" where
  "client_ack_rest env p wait_val al err s = bindR (stop_alarm p al s) (\<lambda>(got, s1).
     if \<not> got then client_turn env 0 p (wait_val * 2) err s1
     else bindR (take_packet p s1) (\<lambda>(r, a, s2). bindR (deref (packets s2) a) (\<lambda>pk. bindR (deref (sockets s2) p) (\<lambda>k.
       let saddr = unpack_address (buffer pk) off_source_address;
           sport = uint (unpack_unsigned_short (buffer pk) off_source_port);
           ty = buffer pk ! off_message_type
       in if same_peer k saddr sport \<and> ty = digit MSG_SYNACK then
            bindR (upd_sock p (\<lambda>k. k\<lparr>seq_number := 1, ack_number := 1\<rparr>) s2) (\<lambda>s3.
            bindR (send_control_message env 0 MSG_ACK (remote_port k) (remote_addr k) (local_port k) 1 1 s3) (\<lambda>(e, s4).
            if assign err e = SOCKET_OUTOFMEMORY then minisocket_free p (Create_failed (assign err e)) s4
            else bindR (drop_all p s4) (\<lambda>s5. bindR (semaphore_initialize (data_ready k) 0 s5) (\<lambda>s6.
                 bindR (upd_sock p (\<lambda>k. k\<lparr>socket_state := OPEN, seq_number := 2, ack_number := 1\<rparr>) s6) (\<lambda>s7.
                   Inr (Finished (Socket p None), s7))))))
          else if same_peer k saddr sport \<and> ty = digit MSG_FIN then minisocket_free p Give_up s2
          else client_turn env 0 p wait_val err (free_packet a s2)))))"

section \<open>Sending\<close>

abbreviation (input) fragment_length :: int where "fragment_length \<equiv> MAX_NETWORK_PKT_SIZE - int mini_header_reliable_size"

definition minisocket_send :: "ptr \<Rightarrow> byte list option \<Rightarrow> int \<Rightarrow> 'z socks_scheme \<Rightarrow> (control \<times> 'z socks_scheme) res" where
  "minisocket_send p m len s = bindR (deref (sockets s) p) (\<lambda>k.
     if socket_state k = CLOSED \<or> socket_state k = CLOSING then Inr (Finished (Sent 0 (Some SOCKET_SENDERROR)), s)
     else if socket_state k \<noteq> OPEN \<or> m = None \<or> len = 0 then Inr (Finished (Sent (- 1) (Some SOCKET_INVALIDPARAMS)), s)
     else Inr (At (Send_mutex p (the m) len), s))"

definition unlock_and :: "ptr \<Rightarrow> control \<Rightarrow> 'z socks_scheme \<Rightarrow> (control \<times> 'z socks_scheme) res" where
  "unlock_and p c s = bindR (deref (sockets s) p) (\<lambda>k. bindR (semaphore_V (send_receive_mutex k) s) (\<lambda>s1. Inr (c, s1)))"

definition sent_so_far :: "int \<Rightarrow> sk_result" where
  "sent_so_far n = Sent (if n = 0 then - 1 else n) (Some SOCKET_SENDERROR)"

text \<open>One transmission of a fragment; the timeout's alarm raises \<open>data_ready\<close>, as in the code.\<close>

definition send_turn ::
  "sockenv \<Rightarrow> ptr \<Rightarrow> byte list \<Rightarrow> int \<Rightarrow> int \<Rightarrow> byte list \<Rightarrow> int \<Rightarrow> int \<Rightarrow> 'z socks_scheme \<Rightarrow> (control \<times> 'z socks_scheme) res" where
  "send_turn env p m len sent_byte header transfer_length wait s =
     (if wait \<le> 12800 then
        bindR (upd_sock p (\<lambda>k. k\<lparr>ack_flag := 0\<rparr>) s) (\<lambda>s1. bindR (deref (sockets s1) p) (\<lambda>k.
        bindR (network_send_pkt (se_net env) (se_lost env 0) (se_dup env 0) (remote_addr k) (int mini_header_reliable_size) header
                 transfer_length (drop (nat sent_byte) m) s1) (\<lambda>(r, s2).
        bindR (upd_sock p (\<lambda>k. k\<lparr>seq_number := seq_number k + of_int transfer_length\<rparr>) s2) (\<lambda>s3.
        if r = - 1 then unlock_and p (Finished (sent_so_far sent_byte)) s3
        else bindR (register_alarm (se_alarm env) wait Semaphore_V (data_ready k) s3) (\<lambda>(a, s4).
               Inr (At (Send_ack p m len sent_byte header transfer_length wait a), s4))))))
      else unlock_and p (Finished (sent_so_far sent_byte)) s)"

text \<open>The start of a turn of the outer loop. A header that could not be allocated is read through NULL.\<close>

definition send_fragment :: "sockenv \<Rightarrow> ptr \<Rightarrow> byte list \<Rightarrow> int \<Rightarrow> int \<Rightarrow> 'z socks_scheme \<Rightarrow> (control \<times> 'z socks_scheme) res" where
  "send_fragment env p m len sent_byte s = bindR (deref (sockets s) p) (\<lambda>k.
     if \<not> se_malloc env 0 then Inl Null_deref
     else send_turn env p m len sent_byte
       (create_control_header (se_header env) MSG_ACK (remote_port k) (remote_addr k) (local_port k) (seq_number k) (ack_number k) s)
       (if len - sent_byte > fragment_length then fragment_length else len - sent_byte) 100 s)"

definition send_ack_rest ::
  "sockenv \<Rightarrow> ptr \<Rightarrow> byte list \<Rightarrow> int \<Rightarrow> int \<Rightarrow> byte list \<Rightarrow> int \<Rightarrow> int \<Rightarrow> ptr \<Rightarrow> 'z socks_scheme \<Rightarrow> (control \<times> 'z socks_scheme) res" where
  "send_ack_rest env p m len sent_byte header transfer_length wait al s = bindR (deref (sockets s) p) (\<lambda>k.
     if socket_state k = CLOSED \<or> socket_state k = CLOSING then Inr (Finished (Sent 0 (Some SOCKET_SENDERROR)), s)
     else
       (let (old_level, s1) = set_interrupt_level DISABLED s in
        if ack_flag k = 0 then
          bindR (upd_sock p (\<lambda>k. k\<lparr>seq_number := seq_number k - of_int transfer_length\<rparr>) s1) (\<lambda>s2.
          bindR (semaphore_V (send_receive_mutex k) s2) (\<lambda>s3.
            send_turn env p m len sent_byte header transfer_length (wait * 2) (snd (set_interrupt_level old_level s3))))
        else if ack_flag k = 1 then
          bindR (deregister_alarm al s1) (\<lambda>(r, s2). bindR (semaphore_V (send_receive_mutex k) s2) (\<lambda>s3.
          let s4 = snd (set_interrupt_level old_level s3); n = sent_byte + transfer_length in
          if n \<noteq> len then send_fragment env p m len n s4
          else unlock_and p (Finished (Sent len None)) s4))
        else send_turn env p m len sent_byte header transfer_length wait s1))"

section \<open>Receiving\<close>

definition minisocket_receive :: "ptr \<Rightarrow> byte list option \<Rightarrow> int \<Rightarrow> 'z socks_scheme \<Rightarrow> (control \<times> 'z socks_scheme) res" where
  "minisocket_receive p m max_len s = bindR (deref (sockets s) p) (\<lambda>k.
     if socket_state k = CLOSED \<or> socket_state k = CLOSING
     then Inr (Finished (Received 0 (Some SOCKET_RECEIVEERROR) (case m of None \<Rightarrow> [] | Some b \<Rightarrow> b)), s)
     else case m of
       None \<Rightarrow> Inr (Finished (Received (- 1) (Some SOCKET_INVALIDPARAMS) []), s)
     | Some b \<Rightarrow>
         if socket_state k \<noteq> OPEN then Inr (Finished (Received (- 1) (Some SOCKET_INVALIDPARAMS) b), s)
         else if max_len = 0 then Inr (Finished (Received 0 (Some SOCKET_NOERROR) b), s)
         else Inr (At (Recv_mutex p b max_len), s))"

text \<open>
  The branch for a packet longer than the buffer tests \<open>copy_len > max_len\<close> after \<open>copy_len\<close> was bounded
  by \<open>max_len\<close>, so it never runs and is left out here.
\<close>

definition recv_data_rest :: "ptr \<Rightarrow> byte list \<Rightarrow> int \<Rightarrow> 'z socks_scheme \<Rightarrow> (control \<times> 'z socks_scheme) res" where
  "recv_data_rest p m max_len s = bindR (deref (sockets s) p) (\<lambda>k.
     if socket_state k = CLOSED \<or> socket_state k = CLOSING then Inr (Finished (Received 0 (Some SOCKET_RECEIVEERROR) m), s)
     else bindR (take_packet p s) (\<lambda>(r, a, s1). bindR (deref (packets s1) a) (\<lambda>pk.
       let msg_len = size pk - int mini_header_reliable_size in
       assertR (msg_len > 0)
        (let copy_len = (if msg_len > max_len then max_len else msg_len) in
         bindR (copy_loop (nat copy_len) 0 copy_len copy_len m (drop mini_header_reliable_size (buffer pk))) (\<lambda>m'.
           unlock_and p (Finished (Received copy_len None m')) s1)))))"

section \<open>Closing\<close>

definition close_turn :: "sockenv \<Rightarrow> ptr \<Rightarrow> int \<Rightarrow> minisocket_error \<Rightarrow> 'z socks_scheme \<Rightarrow> (control \<times> 'z socks_scheme) res" where
  "close_turn env p wait_val err s =
     (if wait_val \<le> 12800 then
        bindR (deref (sockets s) p) (\<lambda>k.
        bindR (send_control_message env 0 MSG_FIN (remote_port k) (remote_addr k) (local_port k) (seq_number k) (ack_number k) s) (\<lambda>(e, s1).
        bindR (upd_sock p (\<lambda>k. k\<lparr>seq_number := seq_number k + 1\<rparr>) s1) (\<lambda>s2.
        if assign err e = SOCKET_OUTOFMEMORY then Inr (Finished Closed, s2)
        else bindR (register_alarm (se_alarm env) wait_val Semaphore_V (wait_for_ack k) s2) (\<lambda>(a, s3).
               Inr (At (Close_ack p wait_val a (assign err e)), s3)))))
      else unlock_and p (Finished Closed) s)"

definition minisocket_close :: "sockenv \<Rightarrow> ptr \<Rightarrow> 'z socks_scheme \<Rightarrow> (control \<times> 'z socks_scheme) res" where
  "minisocket_close env p s =
     (if p = NULL then unlock_and p (Finished Closed) s
      else bindR (deref (sockets s) p) (\<lambda>k.
        if socket_state k = CLOSING then
          bindR (upd_sock p (\<lambda>k. k\<lparr>socket_state := WAITING_SYN\<rparr>) s) (\<lambda>s1. Inr (Finished Closed, s1))
        else if socket_state k = CLOSED then minisocket_free p Closed_plain s
        else close_turn env p 100 (se_error env) s))"

definition close_ack_rest :: "sockenv \<Rightarrow> ptr \<Rightarrow> int \<Rightarrow> ptr \<Rightarrow> minisocket_error \<Rightarrow> 'z socks_scheme \<Rightarrow> (control \<times> 'z socks_scheme) res" where
  "close_ack_rest env p wait_val al err s = bindR (deref (sockets s) p) (\<lambda>k.
     let (old_level, s1) = set_interrupt_level DISABLED s in
     if ack_flag k = 0 then
       bindR (upd_sock p (\<lambda>k. k\<lparr>seq_number := seq_number k - 1\<rparr>) s1) (\<lambda>s2.
         close_turn env p (wait_val * 2) err (snd (set_interrupt_level old_level s2)))
     else if ack_flag k = 1 then bindR (deregister_alarm al s1) (\<lambda>(r, s2). minisocket_free p (Closed_with old_level) s2)
     else close_turn env p wait_val err s1)"

section \<open>The calls as a whole\<close>

fun point_sem :: "point \<Rightarrow> 'z socks_scheme \<Rightarrow> ptr res" where
  "point_sem (Server_mutex p port) s = Inr (ports_mutex s)"
| "point_sem (Server_syn p) s = bindR (deref (sockets s) p) (\<lambda>k. Inr (data_ready k))"
| "point_sem (Server_ack p w a e) s = bindR (deref (sockets s) p) (\<lambda>k. Inr (data_ready k))"
| "point_sem (Client_mutex p ad port v) s = Inr (ports_mutex s)"
| "point_sem (Client_ack p w a e) s = bindR (deref (sockets s) p) (\<lambda>k. Inr (data_ready k))"
| "point_sem (Free_mutex p af) s = Inr (ports_mutex s)"
| "point_sem (Failed_mutex p e) s = Inr (ports_mutex s)"
| "point_sem (Send_mutex p m l) s = bindR (deref (sockets s) p) (\<lambda>k. Inr (send_receive_mutex k))"
| "point_sem (Send_ack p m l n h t w a) s = bindR (deref (sockets s) p) (\<lambda>k. Inr (wait_for_ack k))"
| "point_sem (Recv_mutex p m l) s = bindR (deref (sockets s) p) (\<lambda>k. Inr (send_receive_mutex k))"
| "point_sem (Recv_data p m l) s = bindR (deref (sockets s) p) (\<lambda>k. Inr (data_ready k))"
| "point_sem (Close_ack p w a e) s = bindR (deref (sockets s) p) (\<lambda>k. Inr (wait_for_ack k))"

definition arrive :: "point \<Rightarrow> 'z socks_scheme \<Rightarrow> (flow \<times> 'z socks_scheme) res" where
  "arrive pt s = bindR (point_sem pt s) (\<lambda>p. semaphore_P p s)"

fun resume :: "sockenv \<Rightarrow> point \<Rightarrow> 'z socks_scheme \<Rightarrow> (control \<times> 'z socks_scheme) res" where
  "resume env (Server_mutex p port) s = server_mutex_rest env p port s"
| "resume env (Server_syn p) s = server_syn_rest env p s"
| "resume env (Server_ack p w a e) s = server_ack_rest env p w a e s"
| "resume env (Client_mutex p ad port v) s = client_mutex_rest env p ad port v s"
| "resume env (Client_ack p w a e) s = client_ack_rest env p w a e s"
| "resume env (Free_mutex p af) s = minisocket_free_rest p af s"
| "resume env (Failed_mutex p e) s = create_failed_rest p e s"
| "resume env (Send_mutex p m l) s = send_fragment env p m l 0 s"
| "resume env (Send_ack p m l n h t w a) s = send_ack_rest env p m l n h t w a s"
| "resume env (Recv_mutex p m l) s = Inr (At (Recv_data p m l), s)"
| "resume env (Recv_data p m l) s = recv_data_rest p m l s"
| "resume env (Close_ack p w a e) s = close_ack_rest env p w a e s"

section \<open>Packets from the network\<close>

text \<open>\<open>while (count < 0) semaphore_V(data_ready)\<close>, with as many turns as threads wait.\<close>

fun wake_all :: "nat \<Rightarrow> ptr \<Rightarrow> 'z system_scheme \<Rightarrow> 'z system_scheme res" where
  "wake_all 0 p s = Inr s"
| "wake_all (Suc n) p s = bindR (semaphore_V p s) (wake_all n p)"

definition queue_packet :: "ptr \<Rightarrow> ptr \<Rightarrow> 'z socks_scheme \<Rightarrow> 'z socks_scheme res" where
  "queue_packet p a s = bindR (deref (sockets s) p) (\<lambda>k. bindR (queue_append (sk_data k) a) (\<lambda>(r, q).
     semaphore_V (data_ready k) (s\<lparr>sockets := (sockets s)(p \<mapsto> k\<lparr>sk_data := q\<rparr>)\<rparr>)))"

text \<open>A packet for an open socket; \<open>p\<close> is \<open>ports[port]\<close>.\<close>

definition open_packet :: "sockenv \<Rightarrow> ptr \<Rightarrow> ptr \<Rightarrow> int \<Rightarrow> 'z socks_scheme \<Rightarrow> 'z socks_scheme res" where
  "open_packet env a p port s = bindR (deref (packets s) a) (\<lambda>pk. bindR (deref (sockets s) p) (\<lambda>k.
     let saddr = unpack_address (buffer pk) off_source_address;
         sport = uint (unpack_unsigned_short (buffer pk) off_source_port);
         ty = buffer pk ! off_message_type
     in if \<not> same_peer k saddr sport then
          bindR (if ty = digit MSG_SYN then send_control_message env 0 MSG_FIN sport saddr port 0 0 s else Inr (None, s)) (\<lambda>(e, s1).
            Inr (free_packet a s1))
        else if ty = digit MSG_SYNACK then
          bindR (send_control_message env 0 MSG_ACK sport saddr port 0 0 s) (\<lambda>(e, s1). Inr (free_packet a s1))
        else if ty = digit MSG_FIN then
          bindR (upd_sock p (\<lambda>k. k\<lparr>ack_number := ack_number k + 1\<rparr>) s) (\<lambda>s1.
          bindR (send_control_message env 0 MSG_ACK sport saddr port (seq_number k) (ack_number k + 1) s1) (\<lambda>(e, s2).
          bindR (upd_sock p (\<lambda>k. k\<lparr>socket_state := CLOSING\<rparr>) s2) (\<lambda>s3.
          bindR (semaphore_get_count (data_ready k) s3) (\<lambda>c.
          bindR (wake_all (nat (- c)) (data_ready k) s3) (\<lambda>s4.
          bindR (register_alarm (se_alarm env) 15000 Minisocket_close p s4) (\<lambda>(al, s5).
            Inr (free_packet a s5)))))))
        else if ty = digit MSG_ACK then
          (if unpack_unsigned_int (buffer pk) off_ack_number = seq_number k then
             (let packet_size = size pk - int mini_header_reliable_size in
              bindR (if packet_size \<noteq> 0 then
                       bindR (queue_packet p a s) (\<lambda>s1.
                       bindR (upd_sock p (\<lambda>k. k\<lparr>ack_number := ack_number k + of_int packet_size\<rparr>) s1) (\<lambda>s2.
                       bindR (send_control_message env 0 MSG_ACK sport saddr port (seq_number k) (ack_number k + of_int packet_size) s2) (\<lambda>(e, s3).
                         Inr s3)))
                     else Inr s) (\<lambda>s4.
              if ack_flag k = 0 then bindR (upd_sock p (\<lambda>k. k\<lparr>ack_flag := 1\<rparr>) s4) (semaphore_V (wait_for_ack k)) else Inr s4))
           else Inr (free_packet a s))
        else Inr s))"

definition minisocket_handle_tcp_packet :: "sockenv \<Rightarrow> ptr \<Rightarrow> 'z socks_scheme \<Rightarrow> 'z socks_scheme res" where
  "minisocket_handle_tcp_packet env a s = bindR (deref (packets s) a) (\<lambda>pk.
     let port = uint (unpack_unsigned_short (buffer pk) off_destination_port) in
     if port < MIN_SERVER_PORT \<or> port > MAX_CLIENT_PORT then Inr (free_packet a s)
     else bindR (sport_get (ports s) port) (\<lambda>p.
       if p = NULL then Inr (free_packet a s)
       else bindR (deref (sockets s) p) (\<lambda>k.
         if socket_state k = INITIAL \<or> socket_state k = CLOSED then Inr (free_packet a s)
         else if socket_state k \<noteq> OPEN then queue_packet p a s
         else open_packet env a p port s)))"

text \<open>The size is compared as an unsigned number.\<close>

definition network_handler :: "sockenv \<Rightarrow> ptr \<Rightarrow> 'z socks_scheme \<Rightarrow> 'z socks_scheme res" where
  "network_handler env a s =
     (if a = NULL then Inr s
      else
       (let (old_level, s1) = set_interrupt_level DISABLED s in
        bindR (deref (packets s1) a) (\<lambda>pk.
        bindR (if 0 \<le> size pk \<and> size pk < int mini_header_size then Inr (free_packet a s1)
               else if buffer pk ! off_protocol = digit PROTOCOL_MINIDATAGRAM then handle_udp_packet a s1
               else if buffer pk ! off_protocol = digit PROTOCOL_MINISTREAM then minisocket_handle_tcp_packet env a s1
               else Inr (free_packet a s1)) (\<lambda>s2.
          Inr (snd (set_interrupt_level old_level s2))))))"

section \<open>Steps of a call\<close>

text \<open>\<open>at_sock s p k\<close>: the socket \<open>p\<close> is \<open>k\<close> and its queue is well formed.\<close>

definition at_sock :: "'z socks_scheme \<Rightarrow> ptr \<Rightarrow> minisocket \<Rightarrow> bool" where
  "at_sock s p k \<longleftrightarrow> p \<noteq> NULL \<and> sockets s p = Some k \<and> oq_inv (sk_data k)"

named_theorems sock_simps

lemma at_sock_deref [sock_simps]: "at_sock s p k \<Longrightarrow> deref (sockets s) p = Inr k"
  by (simp add: at_sock_def deref_Some)

lemma upd_sock_ok [sock_simps]: "at_sock s p k \<Longrightarrow> upd_sock p f s = Inr (s\<lparr>sockets := (sockets s)(p \<mapsto> f k)\<rparr>)"
  by (simp add: upd_sock_def sock_simps)

lemma at_sock_upd [sock_simps]:
  "at_sock (s\<lparr>sockets := m(p \<mapsto> k)\<rparr>) p k' \<longleftrightarrow> p \<noteq> NULL \<and> k' = k \<and> oq_inv (sk_data k)"
  by (auto simp: at_sock_def)

lemma take_packet_ok:
  assumes "at_sock s p k" "oq_items (sk_data k) = a # as"
  obtains q where "oq_inv q" "oq_items q = as" "take_packet p s = Inr (0, a, s\<lparr>sockets := (sockets s)(p \<mapsto> k\<lparr>sk_data := q\<rparr>)\<rparr>)"
proof -
  obtain q where "queue_dequeue (sk_data k) = Inr (0, a, q)" "oq_inv q" "oq_items q = as"
    using lq.deq_first [OF _ assms(2)] assms(1) by (auto simp: at_sock_def)
  with assms(1) show thesis by (intro that [of q]) (simp_all add: take_packet_def sock_simps)
qed

lemma take_packet_none:
  assumes "at_sock s p k" "oq_items (sk_data k) = []"
  shows "take_packet p s = Inr (- 1, NULL, s)"
proof -
  have "(sockets s)(p \<mapsto> k) = sockets s" using assms(1) by (auto simp: at_sock_def)
  then show ?thesis using assms lq.deq_empty by (simp add: take_packet_def sock_simps at_sock_def deref_Some)
qed

text \<open>Emptying a queue frees every packet in it.\<close>

lemma drop_packets_ok:
  "at_sock s p k \<Longrightarrow> length (oq_items (sk_data k)) < n \<Longrightarrow>
   \<exists>q. drop_packets n p s = Inr (s\<lparr>packets := (\<lambda>a. if a \<in> set (oq_items (sk_data k)) \<and> a \<noteq> NULL then None else packets s a),
       sockets := (sockets s)(p \<mapsto> k\<lparr>sk_data := q\<rparr>)\<rparr>) \<and> oq_inv q \<and> oq_items q = []"
proof (induction n arbitrary: s k)
  case 0
  then show ?case by simp
next
  case (Suc n)
  show ?case
  proof (cases "oq_items (sk_data k)")
    case Nil
    have "(sockets s)(p \<mapsto> k\<lparr>sk_data := sk_data k\<rparr>) = sockets s" using Suc.prems(1) by (auto simp: at_sock_def)
    then show ?thesis using Nil take_packet_none [OF Suc.prems(1) Nil] Suc.prems(1)
      by (intro exI [of _ "sk_data k"]) (simp add: at_sock_def)
  next
    case (Cons a as)
    obtain q where q: "oq_inv q" "oq_items q = as" "take_packet p s = Inr (0, a, s\<lparr>sockets := (sockets s)(p \<mapsto> k\<lparr>sk_data := q\<rparr>)\<rparr>)"
      using take_packet_ok [OF Suc.prems(1) Cons] .
    let ?s = "free_packet a (s\<lparr>sockets := (sockets s)(p \<mapsto> k\<lparr>sk_data := q\<rparr>)\<rparr>)"
    have "at_sock ?s p (k\<lparr>sk_data := q\<rparr>)" using Suc.prems(1) q(1) by (simp add: at_sock_def free_packet_def)
    moreover have "length (oq_items (sk_data (k\<lparr>sk_data := q\<rparr>))) < n" using Suc.prems(2) q(2) Cons by simp
    ultimately obtain q' where q': "drop_packets n p ?s =
       Inr (?s\<lparr>packets := (\<lambda>b. if b \<in> set (oq_items (sk_data (k\<lparr>sk_data := q\<rparr>))) \<and> b \<noteq> NULL then None else packets ?s b),
         sockets := (sockets ?s)(p \<mapsto> k\<lparr>sk_data := q\<rparr>\<lparr>sk_data := q'\<rparr>)\<rparr>)" "oq_inv q'" "oq_items q' = []" using Suc.IH by blast
    moreover have "?s\<lparr>packets := (\<lambda>b. if b \<in> set (oq_items (sk_data (k\<lparr>sk_data := q\<rparr>))) \<and> b \<noteq> NULL then None else packets ?s b),
         sockets := (sockets ?s)(p \<mapsto> k\<lparr>sk_data := q\<rparr>\<lparr>sk_data := q'\<rparr>)\<rparr> =
       s\<lparr>packets := (\<lambda>b. if b \<in> set (a # as) \<and> b \<noteq> NULL then None else packets s b), sockets := (sockets s)(p \<mapsto> k\<lparr>sk_data := q'\<rparr>)\<rparr>"
      using q(2) by (auto simp: free_packet_def fun_eq_iff intro!: socks.equality)
    ultimately show ?thesis using q(3) Cons by (intro exI [of _ q']) (simp add: fun_upd_def)
  qed
qed

lemma drop_all_ok:
  assumes "at_sock s p k"
  obtains q where "drop_all p s = Inr (s\<lparr>packets := (\<lambda>a. if a \<in> set (oq_items (sk_data k)) \<and> a \<noteq> NULL then None else packets s a),
       sockets := (sockets s)(p \<mapsto> k\<lparr>sk_data := q\<rparr>)\<rparr>)" "oq_inv q" "oq_items q = []"
  using drop_packets_ok [OF assms, of "Suc (length (oq_items (sk_data k)))"] that assms by (auto simp: drop_all_def sock_simps)

lemma unpack_update_other [simp]:
  "i < off \<or> off + 4 \<le> i \<Longrightarrow> unpack_unsigned_int (h[i := x]) off = unpack_unsigned_int h off"
  "i < off \<or> off + 2 \<le> i \<Longrightarrow> unpack_unsigned_short (h[i := x]) off = unpack_unsigned_short h off"
  by (auto simp: unpack_unsigned_int_def unpack_unsigned_short_def)

text \<open>Control packets: what their fields are.\<close>

lemma control_header_fields:
  assumes "length junk = mini_header_reliable_size" and "h = create_control_header junk ty port ad sport sq ak s"
  shows "length h = mini_header_reliable_size" "h ! off_protocol = digit PROTOCOL_MINISTREAM" "h ! off_message_type = digit ty"
    "unpack_address h off_source_address = local_host s" "unpack_unsigned_short h off_source_port = of_int sport"
    "unpack_address h off_destination_address = ad" "unpack_unsigned_short h off_destination_port = of_int port"
    "unpack_unsigned_int h off_seq_number = sq" "unpack_unsigned_int h off_ack_number = ak"
  using assms by (simp_all add: create_control_header_def header_offsets Let_def unpack_address_def pack_address_def)

text \<open>The environment in which a control packet reaches the wire, once.\<close>

definition delivers :: "sockenv \<Rightarrow> nat \<Rightarrow> 'z socks_scheme \<Rightarrow> bool" where
  "delivers env i s \<longleftrightarrow> se_malloc env i \<and> \<not> synthetic_network s \<and> length (se_header env) = mini_header_reliable_size"

lemma send_control_ok [sock_simps]:
  assumes "delivers env i s"
  shows "send_control_message env i ty port ad sport sq ak s =
     Inr (if sendto (se_net env) (network_address_to_sockaddr ad) (create_control_header (se_header env) ty port ad sport sq ak s) = - 1
       then Some SOCKET_SENDERROR else None,
       s\<lparr>wire := wire s @ [(network_address_to_sockaddr ad, create_control_header (se_header env) ty port ad sport sq ak s)]\<rparr>)"
proof -
  have l: "length (create_control_header (se_header env) ty port ad sport sq ak s) = mini_header_reliable_size"
    by (rule control_header_fields(1) [OF _ refl]) (use assms in \<open>simp add: delivers_def\<close>)
  note n = network_send_ok [of "int mini_header_reliable_size" "create_control_header (se_header env) ty port ad sport sq ak s" 0 "[]" _ ad
      "se_net env" "se_lost env i" "se_dup env i" s, OF _ _ _ _ _ refl]
  have "int mini_header_reliable_size \<le> MAX_NETWORK_PKT_SIZE" by (simp add: mini_header_reliable_size_def)
  then show ?thesis using assms l by (simp add: send_control_message_def delivers_def n)
qed

text \<open>What a change of the sockets, the packets or the wire leaves alone.\<close>

lemma sock_frame [simp]:
  "create_control_header junk ty port ad sport sq ak (s\<lparr>sockets := m\<rparr>) = create_control_header junk ty port ad sport sq ak s"
  "create_control_header junk ty port ad sport sq ak (s\<lparr>packets := pm\<rparr>) = create_control_header junk ty port ad sport sq ak s"
  "create_control_header junk ty port ad sport sq ak (s\<lparr>wire := w\<rparr>) = create_control_header junk ty port ad sport sq ak s"
  "delivers env i (s\<lparr>sockets := m\<rparr>) = delivers env i s" "delivers env i (s\<lparr>packets := pm\<rparr>) = delivers env i s"
  "delivers env i (s\<lparr>wire := w\<rparr>) = delivers env i s"
  "alarm_inv (s\<lparr>sockets := m\<rparr>) = alarm_inv s" "alarm_inv (s\<lparr>packets := pm\<rparr>) = alarm_inv s" "alarm_inv (s\<lparr>wire := w\<rparr>) = alarm_inv s"
  "pending (s\<lparr>sockets := m\<rparr>) = pending s" "pending (s\<lparr>packets := pm\<rparr>) = pending s" "pending (s\<lparr>wire := w\<rparr>) = pending s"
  by (simp_all add: create_control_header_def delivers_def alarm_inv_def pending_def)

lemma assign_simps [simp]: "assign e None = e" "assign e (Some e') = e'"
  by (simp_all add: assign_def)

text \<open>\<open>k'\<close> is the socket and \<open>msg\<close> the packet that a turn of a loop leaves behind.\<close>

definition turned :: "ptr \<Rightarrow> int \<Rightarrow> ptr \<Rightarrow> minisocket \<Rightarrow> (32 word \<times> 16 word) \<times> byte list \<Rightarrow> 'z socks_scheme \<Rightarrow> 'z socks_scheme \<Rightarrow> bool" where
  "turned p w sem k' pkt s s' \<longleftrightarrow> wire s' = wire s @ [pkt] \<and> sockets s' = (sockets s)(p \<mapsto> k') \<and> packets s' = packets s \<and>
     alarms s' = (alarms s)(alarm_brk s \<mapsto> \<lparr>a_end = nInterrupts s + delay_ticks w, call_back = Semaphore_V, arg = sem\<rparr>) \<and>
     alarm_inv s' \<and> pending s' = place (alarm_brk s) (nInterrupts s + delay_ticks w) (pending s) \<and> sems s' = sems s \<and> ports s' = ports s \<and>
     synthetic_network s' = synthetic_network s \<and> local_host s' = local_host s \<and> ports_mutex s' = ports_mutex s"

lemma turned_register:
  assumes "alarm_inv s" "t = s\<lparr>wire := wire s @ [pkt], sockets := (sockets s)(p \<mapsto> k')\<rparr>"
  obtains s' where "register_alarm True w Semaphore_V sem t = Inr (alarm_brk s, s')" "turned p w sem k' pkt s s'"
proof -
  have t: "alarm_inv t" "alarm_brk t = alarm_brk s" "alarms t = alarms s" "nInterrupts t = nInterrupts s" "pending t = pending s"
    using assms by simp_all
  obtain s' q where s': "register_alarm True w Semaphore_V sem t = Inr (alarm_brk s, s')" "alarm_inv s'"
    "pending s' = place (alarm_brk s) (nInterrupts s + delay_ticks w) (pending s)"
    "alarms s' = (alarms s)(alarm_brk s \<mapsto> \<lparr>a_end = nInterrupts s + delay_ticks w, call_back = Semaphore_V, arg = sem\<rparr>)"
    "s' = t\<lparr>alarm_queue := q, alarms := alarms s', alarm_brk := Suc (alarm_brk s)\<rparr>"
    using register_alarm_ok [OF t(1), of w Semaphore_V sem, unfolded t(2-5)] by blast
  from s'(5) obtain m where "s' = t\<lparr>alarm_queue := q, alarms := m, alarm_brk := Suc (alarm_brk s)\<rparr>" by blast
  then have "wire s' = wire t" "sockets s' = sockets t" "packets s' = packets t" "sems s' = sems t" "ports s' = ports t"
    "synthetic_network s' = synthetic_network t" "local_host s' = local_host t" "ports_mutex s' = ports_mutex t" by simp_all
  with s'(2-4) have "turned p w sem k' pkt s s'" by (simp add: turned_def assms(2))
  with s'(1) show thesis by (rule that)
qed

text \<open>One turn of the server's and of the client's loop: one more packet, a new alarm, and the call waits again.\<close>

lemma server_turn_ok:
  assumes "at_sock s p k" "delivers env i s" "alarm_inv s" "se_alarm env" "err \<noteq> SOCKET_OUTOFMEMORY" "w \<le> 12800"
  obtains e s' where "server_turn env i p w err s = Inr (At (Server_ack p w (alarm_brk s) e), s')" "e \<noteq> SOCKET_OUTOFMEMORY"
    "turned p w (data_ready k) (k\<lparr>seq_number := 1, ack_number := 1\<rparr>) (network_address_to_sockaddr (remote_addr k),
       create_control_header (se_header env) MSG_SYNACK (remote_port k) (remote_addr k) (local_port k) 0 1 s) s s'"
proof -
  define pkt where "pkt = (network_address_to_sockaddr (remote_addr k),
       create_control_header (se_header env) MSG_SYNACK (remote_port k) (remote_addr k) (local_port k) 0 1 s)"
  define x where "x = (if sendto (se_net env) (fst pkt) (snd pkt) = - 1 then Some SOCKET_SENDERROR else None)"
  define k' where "k' = k\<lparr>seq_number := 1, ack_number := 1\<rparr>"
  obtain s' where s': "register_alarm True w Semaphore_V (data_ready k) (s\<lparr>wire := wire s @ [pkt], sockets := (sockets s)(p \<mapsto> k')\<rparr>) =
      Inr (alarm_brk s, s')" "turned p w (data_ready k) k' pkt s s'"
    using turned_register [OF assms(3) refl] .
  have m: "send_control_message env i MSG_SYNACK (remote_port k) (remote_addr k) (local_port k) 0 1 s = Inr (x, s\<lparr>wire := wire s @ [pkt]\<rparr>)"
    using send_control_ok [OF assms(2), of MSG_SYNACK "remote_port k" "remote_addr k" "local_port k" 0 1] by (simp add: x_def pkt_def)
  have "assign err x \<noteq> SOCKET_OUTOFMEMORY" using assms(5) by (simp add: x_def)
  moreover have "at_sock (s\<lparr>wire := wire s @ [pkt]\<rparr>) p k" using assms(1) by (simp add: at_sock_def)
  ultimately have "server_turn env i p w err s = Inr (At (Server_ack p w (alarm_brk s) (assign err x)), s')"
    using assms(1,4,6) m s'(1) by (simp add: server_turn_def sock_simps k'_def)
  then show thesis using that \<open>assign err x \<noteq> SOCKET_OUTOFMEMORY\<close> s'(2) by (simp add: pkt_def k'_def)
qed

lemma client_turn_ok:
  assumes "at_sock s p k" "delivers env i s" "alarm_inv s" "se_alarm env" "err \<noteq> SOCKET_OUTOFMEMORY" "w \<le> 12800"
  obtains e s' where "client_turn env i p w err s = Inr (At (Client_ack p w (alarm_brk s) e), s')" "e \<noteq> SOCKET_OUTOFMEMORY"
    "turned p w (data_ready k) (k\<lparr>seq_number := 1, ack_number := 0\<rparr>) (network_address_to_sockaddr (remote_addr k),
       create_control_header (se_header env) MSG_SYN (remote_port k) (remote_addr k) (local_port k) 0 0 s) s s'"
proof -
  define pkt where "pkt = (network_address_to_sockaddr (remote_addr k),
       create_control_header (se_header env) MSG_SYN (remote_port k) (remote_addr k) (local_port k) 0 0 s)"
  define x where "x = (if sendto (se_net env) (fst pkt) (snd pkt) = - 1 then Some SOCKET_SENDERROR else None)"
  define k' where "k' = k\<lparr>seq_number := 1, ack_number := 0\<rparr>"
  obtain s' where s': "register_alarm True w Semaphore_V (data_ready k) (s\<lparr>wire := wire s @ [pkt], sockets := (sockets s)(p \<mapsto> k')\<rparr>) =
      Inr (alarm_brk s, s')" "turned p w (data_ready k) k' pkt s s'"
    using turned_register [OF assms(3) refl] .
  have m: "send_control_message env i MSG_SYN (remote_port k) (remote_addr k) (local_port k) 0 0 s = Inr (x, s\<lparr>wire := wire s @ [pkt]\<rparr>)"
    using send_control_ok [OF assms(2), of MSG_SYN "remote_port k" "remote_addr k" "local_port k" 0 0] by (simp add: x_def pkt_def)
  have "assign err x \<noteq> SOCKET_OUTOFMEMORY" using assms(5) by (simp add: x_def)
  moreover have "at_sock (s\<lparr>wire := wire s @ [pkt]\<rparr>) p k" using assms(1) by (simp add: at_sock_def)
  ultimately have "client_turn env i p w err s = Inr (At (Client_ack p w (alarm_brk s) (assign err x)), s')"
    using assms(1,4,6) m s'(1) by (simp add: client_turn_def sock_simps k'_def)
  then show thesis using that \<open>assign err x \<noteq> SOCKET_OUTOFMEMORY\<close> s'(2) by (simp add: pkt_def k'_def)
qed

text \<open>After the wake-up: the alarm is cancelled if a packet is there.\<close>

lemma stop_alarm_none:
  assumes "at_sock s p k" "oq_items (sk_data k) = []"
  shows "stop_alarm p al s = Inr (False, s)"
proof -
  obtain q where q: "sk_data k = Some q" "queue_inv q" using assms(1) by (cases "sk_data k") (auto simp: at_sock_def)
  then have "queue_length (sk_data k) = Inr 0" using qcount_items [OF q(2)] assms(2) by simp
  then show ?thesis using assms(1) by (simp add: stop_alarm_def set_interrupt_level_def at_sock_def deref_Some)
qed

lemma stop_alarm_first:
  assumes "at_sock s p k" "oq_items (sk_data k) \<noteq> []" "alarm_inv s" "pending s = (al, e) # es"
  obtains q where "stop_alarm p al s = Inr (True, s\<lparr>alarm_queue := q, alarms := (alarms s)(al := None)\<rparr>)"
    "alarm_inv (s\<lparr>alarm_queue := q, alarms := (alarms s)(al := None)\<rparr>)" "pending (s\<lparr>alarm_queue := q, alarms := (alarms s)(al := None)\<rparr>) = es"
proof -
  obtain d where d: "sk_data k = Some d" "queue_inv d" using assms(1) by (cases "sk_data k") (auto simp: at_sock_def)
  then have n: "queue_length (sk_data k) = Inr (int (length (oq_items (sk_data k))))" using qcount_items [OF d(2)] by simp
  define s1 where "s1 = s\<lparr>interrupt_level := DISABLED\<rparr>"
  have s1: "alarm_inv s1" "pending s1 = (al, e) # es" "alarms s1 = alarms s" using assms(3,4) by (simp_all add: s1_def)
  obtain q s2 where q: "deregister_alarm al s1 = Inr (if e \<le> nInterrupts s1 then 1 else 0, s2)" "alarm_inv s2" "pending s2 = es"
    "s2 = s1\<lparr>alarm_queue := Some q, alarms := (alarms s1)(al := None)\<rparr>" using deregister_first_ok [OF s1(1,2)] by blast
  let ?s = "s\<lparr>alarm_queue := Some q, alarms := (alarms s)(al := None)\<rparr>"
  have "stop_alarm p al s = Inr (True, ?s)"
    using assms(1,2) n q(1,4) s1_def by (simp add: stop_alarm_def set_interrupt_level_def at_sock_def deref_Some)
  moreover have "alarm_inv ?s" using q(2) s1(3) by (simp add: q(4) s1_def alarm_inv_def pending_def)
  moreover have "pending ?s = es" using q(3) by (simp add: q(4) s1_def pending_def)
  ultimately show thesis by (rule that)
qed

text \<open>What the receiver of a control packet reads in it, whatever follows the header in the buffer.\<close>

lemma control_packet_read:
  assumes "length junk = mini_header_reliable_size" "b = create_control_header junk ty port ad sport sq ak c @ pad" "0 \<le> sport" "sport < 65536"
  shows "b ! off_message_type = digit ty" "unpack_address b off_source_address = local_host c"
    "uint (unpack_unsigned_short b off_source_port) = sport" "unpack_unsigned_int b off_ack_number = ak"
proof -
  note f = control_header_fields [OF assms(1) refl, of ty port ad sport sq ak c]
  have l: "length (create_control_header junk ty port ad sport sq ak c) = 30" using f(1) by (simp add: mini_header_reliable_size_def)
  show "b ! off_message_type = digit ty" using f(3) l by (simp add: assms(2) nth_append off_message_type_def)
  have "unpack_address b off_source_address = unpack_address (create_control_header junk ty port ad sport sq ak c) off_source_address"
    "unpack_unsigned_short b off_source_port = unpack_unsigned_short (create_control_header junk ty port ad sport sq ak c) off_source_port"
    "unpack_unsigned_int b off_ack_number = unpack_unsigned_int (create_control_header junk ty port ad sport sq ak c) off_ack_number"
    using l by (simp_all add: assms(2) unpack_address_def unpack_unsigned_int_def unpack_unsigned_short_def header_offsets nth_append)
  moreover have "uint (of_int sport :: 16 word) = sport" using assms(3,4) by (simp add: uint_word_of_int take_bit_int_eq_self)
  ultimately show "unpack_address b off_source_address = local_host c" "uint (unpack_unsigned_short b off_source_port) = sport"
    "unpack_unsigned_int b off_ack_number = ak" using f by simp_all
qed

lemma digit_eq [simp]: "m < 10 \<Longrightarrow> n < 10 \<Longrightarrow> digit m = digit n \<longleftrightarrow> m = n"
  by (simp add: digit_def of_nat_eq_iff flip: word_of_nat_eq_iff) (simp add: word_of_nat_eq_iff take_bit_nat_eq_self)

text \<open>A V on an existing semaphore leaves the sockets and what the interrupt handlers need.\<close>

lemma sys_inv_socks [simp]: "sys_inv (s\<lparr>sockets := m\<rparr>) = sys_inv s" "sys_inv (s\<lparr>wire := w\<rparr>) = sys_inv s"
  by (simp_all add: sys_inv_def threads_inv_def sched_inv_def sched_core_def levels_ok_def thread_ok_def
        current_def ready_def places_def waiting_def waiters_def sleeping_def sems_ok_def handlers_ok_def pending_def
        alarm_inv_def cong: option.case_cong)

lemma socks_of_more:
  "system.more s' = system.more s \<Longrightarrow> sockets s' = sockets s \<and> wire s' = wire s \<and> local_host s' = local_host s \<and>
   packets s' = packets s \<and> ports s' = ports s \<and> synthetic_network s' = synthetic_network (s :: 'z socks_scheme)"
  by (cases s, cases s') simp

lemma V_sock:
  assumes "sys_inv s" "sems s x \<noteq> None"
  obtains s' where "semaphore_V x s = Inr s'" "sys_inv s'" "sockets s' = sockets s" "wire s' = wire s" "packets s' = packets s"
    "delivers env i s' = delivers env i s" "local_host s' = local_host s" "dom (sems s') = dom (sems s)"
proof -
  obtain s' where s': "semaphore_V x s = Inr s'" "sys_inv s'" "system.more s' = system.more s" "dom (sems s') = dom (sems s)"
    using semaphore_V_ok [OF assms] by blast
  show thesis by (rule that [of s']) (use s' socks_of_more [OF s'(3)] in \<open>simp_all add: delivers_def\<close>)
qed

section \<open>The steps of the handshake\<close>

text \<open>
  A waiting server that finds a client's SYN first in its queue takes the client for its peer and answers with
  one SYNACK to the address and the port that the client wrote into its header; then it waits for the ACK with an alarm of 100 ms.
\<close>

lemma server_syn_ok:
  fixes c s :: "'z socks_scheme"
  assumes sock: "at_sock s p k" "oq_items (sk_data k) = a # as"
    and syn: "packets s a = Some pk" "a \<noteq> NULL" "length junk = mini_header_reliable_size" "0 \<le> cport" "cport < 65536"
      "buffer pk = create_control_header junk MSG_SYN port ad cport 0 0 c @ pad"
    and env: "delivers env 0 s" "alarm_inv s" "se_alarm env" "se_error env \<noteq> SOCKET_OUTOFMEMORY"
  shows "\<exists>e s' k'. server_syn_rest env p s = Inr (At (Server_ack p 100 (alarm_brk s) e), s') \<and>
    turned p 100 (data_ready k) k' (network_address_to_sockaddr (local_host c),
      create_control_header (se_header env) MSG_SYNACK cport (local_host c) (local_port k) 0 1 s) s s' \<and>
    (\<exists>q. oq_inv q \<and> oq_items q = as \<and> k' = k\<lparr>sk_data := q, remote_addr := local_host c, remote_port := cport,
      socket_state := WAITING_ACK, seq_number := 1, ack_number := 1\<rparr>) \<and> e \<noteq> SOCKET_OUTOFMEMORY"
proof -
  note rd = control_packet_read [OF syn(3,6,4,5)]
  obtain q where q: "oq_inv q" "oq_items q = as" "take_packet p s = Inr (0, a, s\<lparr>sockets := (sockets s)(p \<mapsto> k\<lparr>sk_data := q\<rparr>)\<rparr>)"
    using take_packet_ok [OF sock] .
  define k2 where "k2 = k\<lparr>sk_data := q, remote_addr := local_host c, remote_port := cport, socket_state := WAITING_ACK,
      seq_number := 0, ack_number := 1\<rparr>"
  define s2 where "s2 = s\<lparr>sockets := (sockets s)(p \<mapsto> k2)\<rparr>"
  have p: "p \<noteq> NULL" using sock(1) by (simp add: at_sock_def)
  have call: "server_syn_rest env p s = server_turn env 0 p 100 (se_error env) s2"
    using q(1,3) p syn(1,2) rd(1-3) by (simp add: server_syn_rest_def deref_Some sock_simps k2_def s2_def)
  have s2: "at_sock s2 p k2" "delivers env 0 s2" "alarm_inv s2" using env p q(1) by (simp_all add: s2_def at_sock_def k2_def)
  obtain e s' where s': "server_turn env 0 p 100 (se_error env) s2 = Inr (At (Server_ack p 100 (alarm_brk s2) e), s')"
    "turned p 100 (data_ready k2) (k2\<lparr>seq_number := 1, ack_number := 1\<rparr>) (network_address_to_sockaddr (remote_addr k2),
       create_control_header (se_header env) MSG_SYNACK (remote_port k2) (remote_addr k2) (local_port k2) 0 1 s2) s2 s'"
    "e \<noteq> SOCKET_OUTOFMEMORY"
    by (rule server_turn_ok [OF s2 env(3,4), of 100]) auto
  have "create_control_header j t d x y v w s2 = create_control_header j t d x y v w s" for j t d x y v w by (simp add: s2_def)
  moreover have "alarm_brk s2 = alarm_brk s" "nInterrupts s2 = nInterrupts s" by (simp_all add: s2_def)
  ultimately have "turned p 100 (data_ready k) (k2\<lparr>seq_number := 1, ack_number := 1\<rparr>) (network_address_to_sockaddr (local_host c),
      create_control_header (se_header env) MSG_SYNACK cport (local_host c) (local_port k) 0 1 s) s s'"
    using s'(2) unfolding turned_def by (simp add: s2_def k2_def)
  moreover have "\<exists>q. oq_inv q \<and> oq_items q = as \<and> k2\<lparr>seq_number := 1, ack_number := 1\<rparr> = k\<lparr>sk_data := q, remote_addr := local_host c,
      remote_port := cport, socket_state := WAITING_ACK, seq_number := 1, ack_number := 1\<rparr>"
    by (rule exI [of _ q]) (simp add: q(1,2) k2_def)
  moreover have "server_syn_rest env p s = Inr (At (Server_ack p 100 (alarm_brk s) e), s')" using call s'(1) by (simp add: s2_def)
  ultimately show ?thesis using s'(3) by blast
qed

text \<open>What a completed handshake leaves: the socket is open, its queue empty, \<open>data_ready\<close> reset and the rest of the state as it was.\<close>

definition opened :: "ptr \<Rightarrow> minisocket \<Rightarrow> minisocket \<Rightarrow> 32 word \<Rightarrow> 32 word \<Rightarrow> 'z socks_scheme \<Rightarrow> 'z socks_scheme \<Rightarrow> bool" where
  "opened p k k' sq ak s s' \<longleftrightarrow> sockets s' = (sockets s)(p \<mapsto> k') \<and> oq_inv (sk_data k') \<and> oq_items (sk_data k') = [] \<and>
     k' = k\<lparr>sk_data := sk_data k', socket_state := OPEN, seq_number := sq, ack_number := ak\<rparr> \<and>
     sems s' = (sems s)(data_ready k \<mapsto> \<lparr>s_count = 0, wait_list = Some queue_new\<rparr>) \<and> ports s' = ports s \<and>
     synthetic_network s' = synthetic_network s \<and> local_host s' = local_host s \<and> ports_mutex s' = ports_mutex s"

text \<open>
  A client that finds its server's SYNACK first in its queue cancels its alarm, answers with one ACK, empties
  its queue and returns the open socket.
\<close>

lemma client_ack_ok:
  fixes c s :: "'z socks_scheme"
  assumes sock: "at_sock s p k" "oq_items (sk_data k) = a # as" "remote_addr k = local_host c" "remote_port k = sport"
    and synack: "packets s a = Some pk" "a \<noteq> NULL" "length junk = mini_header_reliable_size" "0 \<le> sport" "sport < 65536"
      "buffer pk = create_control_header junk MSG_SYNACK port ad sport 0 1 c @ pad"
    and sem: "sems s (data_ready k) = Some sem" "data_ready k \<noteq> NULL"
    and env: "delivers env 0 s" "alarm_inv s" "pending s = (al, e) # es" "err \<noteq> SOCKET_OUTOFMEMORY"
  shows "\<exists>s' k'. client_ack_rest env p w al err s = Inr (Finished (Socket p None), s') \<and>
    wire s' = wire s @ [(network_address_to_sockaddr (local_host c),
      create_control_header (se_header env) MSG_ACK sport (local_host c) (local_port k) 1 1 s)] \<and>
    opened p k k' 2 1 s s' \<and> alarm_inv s' \<and> pending s' = es"
proof -
  note rd = control_packet_read [OF synack(3,6,4,5)]
  have p: "p \<noteq> NULL" using sock(1) by (simp add: at_sock_def)
  obtain aq where st: "stop_alarm p al s = Inr (True, s\<lparr>alarm_queue := aq, alarms := (alarms s)(al := None)\<rparr>)"
      "alarm_inv (s\<lparr>alarm_queue := aq, alarms := (alarms s)(al := None)\<rparr>)" "pending (s\<lparr>alarm_queue := aq, alarms := (alarms s)(al := None)\<rparr>) = es"
    using stop_alarm_first [OF sock(1) _ env(2,3)] sock(2) by auto
  define s1 where "s1 = s\<lparr>alarm_queue := aq, alarms := (alarms s)(al := None)\<rparr>"
  have "at_sock s1 p k" using sock(1) by (simp add: at_sock_def s1_def)
  from take_packet_ok [OF this sock(2)] obtain q where q: "oq_inv q" "oq_items q = as"
    "take_packet p s1 = Inr (0, a, s1\<lparr>sockets := (sockets s1)(p \<mapsto> k\<lparr>sk_data := q\<rparr>)\<rparr>)" .
  define k2 where "k2 = k\<lparr>sk_data := q\<rparr>"
  define k3 where "k3 = k2\<lparr>seq_number := 1, ack_number := 1\<rparr>"
  define pkt where "pkt = (network_address_to_sockaddr (local_host c),
      create_control_header (se_header env) MSG_ACK sport (local_host c) (local_port k) 1 1 s)"
  define s3 where "s3 = s1\<lparr>sockets := (sockets s1)(p \<mapsto> k3)\<rparr>"
  define s4 where "s4 = s3\<lparr>wire := wire s @ [pkt]\<rparr>"
  define x where "x = (if sendto (se_net env) (fst pkt) (snd pkt) = - 1 then Some SOCKET_SENDERROR else None)"
  have "delivers env 0 s3" using env(1) by (simp add: s3_def s1_def delivers_def)
  moreover have "create_control_header (se_header env) MSG_ACK sport (local_host c) (local_port k) 1 1 s3 = snd pkt"
    by (simp add: s3_def s1_def pkt_def create_control_header_def)
  ultimately have m: "send_control_message env 0 MSG_ACK sport (local_host c) (local_port k) 1 1 s3 = Inr (x, s4)"
    using send_control_ok [of env 0 s3 MSG_ACK sport "local_host c" "local_port k" 1 1] by (simp add: x_def pkt_def s4_def s3_def s1_def)
  have "at_sock s4 p k3" using p q(1) by (simp add: s4_def s3_def at_sock_def k3_def k2_def)
  from drop_all_ok [OF this] obtain q5 where q5: "drop_all p s4 = Inr (s4\<lparr>packets := (\<lambda>b. if b \<in> set (oq_items (sk_data k3)) \<and> b \<noteq> NULL
      then None else packets s4 b), sockets := (sockets s4)(p \<mapsto> k3\<lparr>sk_data := q5\<rparr>)\<rparr>)" "oq_inv q5" "oq_items q5 = []" .
  define s5 where "s5 = s4\<lparr>packets := (\<lambda>b. if b \<in> set (oq_items (sk_data k3)) \<and> b \<noteq> NULL
      then None else packets s4 b), sockets := (sockets s4)(p \<mapsto> k3\<lparr>sk_data := q5\<rparr>)\<rparr>"
  define s6 where "s6 = s5\<lparr>sems := (sems s5)(data_ready k \<mapsto> \<lparr>s_count = 0, wait_list = Some queue_new\<rparr>)\<rparr>"
  define k7 where "k7 = k3\<lparr>sk_data := q5, socket_state := OPEN, seq_number := 2, ack_number := 1\<rparr>"
  have "sems s5 (data_ready k) = Some sem" using sem(1) by (simp add: s5_def s4_def s3_def s1_def)
  then have i6: "semaphore_initialize (data_ready k) 0 s5 = Inr s6"
    using sem(2) by (simp add: semaphore_initialize_def deref_Some s6_def)
  have "at_sock s6 p (k3\<lparr>sk_data := q5\<rparr>)" using p q5(2) by (simp add: s6_def s5_def at_sock_def)
  then have u7: "upd_sock p (\<lambda>k. k\<lparr>socket_state := OPEN, seq_number := 2, ack_number := 1\<rparr>) s6 =
      Inr (s6\<lparr>sockets := (sockets s6)(p \<mapsto> k7)\<rparr>)" by (simp add: sock_simps k7_def)
  have u3: "upd_sock p (\<lambda>k. k\<lparr>seq_number := 1, ack_number := 1\<rparr>) (s1\<lparr>sockets := (sockets s1)(p \<mapsto> k2)\<rparr>) = Inr s3"
    using p q(1) upd_sock_ok [of "s1\<lparr>sockets := (sockets s1)(p \<mapsto> k2)\<rparr>" p k2] by (simp add: at_sock_def k2_def k3_def s3_def)
  have "packets s1 a = Some pk" using synack(1) by (simp add: s1_def)
  moreover have "assign err x \<noteq> SOCKET_OUTOFMEMORY" using env(4) by (simp add: x_def)
  ultimately have "client_ack_rest env p w al err s = Inr (Finished (Socket p None), s6\<lparr>sockets := (sockets s6)(p \<mapsto> k7)\<rparr>)"
    using st(1) [folded s1_def] q(3) [folded k2_def] synack(2) rd(1-3) p u3 m q5(1) [folded s5_def] i6 u7 sock(3,4)
    by (simp add: client_ack_rest_def deref_Some Let_def same_peer_def network_compare_network_addresses_def k2_def MSG_ACK_def MSG_SYNACK_def)
  moreover have "alarm_inv (s6\<lparr>sockets := (sockets s6)(p \<mapsto> k7)\<rparr>)" "pending (s6\<lparr>sockets := (sockets s6)(p \<mapsto> k7)\<rparr>) = es"
    using st(2,3) by (simp_all add: s6_def s5_def s4_def s3_def s1_def alarm_inv_def pending_def)
  ultimately show ?thesis using q5(2,3)
    by (intro exI [of _ "s6\<lparr>sockets := (sockets s6)(p \<mapsto> k7)\<rparr>"] exI [of _ k7])
      (simp add: opened_def k7_def k3_def k2_def s6_def s5_def s4_def pkt_def s3_def s1_def)
qed

text \<open>
  A server that waits for the ACK and finds its peer's ACK first in its queue cancels its alarm, empties its queue
  and returns the open socket; nothing more is sent.
\<close>

lemma server_ack_ok:
  fixes c s :: "'z socks_scheme"
  assumes sock: "at_sock s p k" "oq_items (sk_data k) = a # as" "remote_addr k = local_host c" "remote_port k = sport"
    and ack: "packets s a = Some pk" "a \<noteq> NULL" "length junk = mini_header_reliable_size" "0 \<le> sport" "sport < 65536"
      "buffer pk = create_control_header junk MSG_ACK port ad sport 1 1 c @ pad"
    and sem: "sems s (data_ready k) = Some sem" "data_ready k \<noteq> NULL"
    and env: "alarm_inv s" "pending s = (al, e) # es"
  shows "\<exists>s' k'. server_ack_rest env p w al err s = Inr (Finished (Socket p None), s') \<and> wire s' = wire s \<and>
    opened p k k' 1 2 s s' \<and> alarm_inv s' \<and> pending s' = es"
proof -
  note rd = control_packet_read [OF ack(3,6,4,5)]
  have p: "p \<noteq> NULL" using sock(1) by (simp add: at_sock_def)
  obtain aq where st: "stop_alarm p al s = Inr (True, s\<lparr>alarm_queue := aq, alarms := (alarms s)(al := None)\<rparr>)"
      "alarm_inv (s\<lparr>alarm_queue := aq, alarms := (alarms s)(al := None)\<rparr>)" "pending (s\<lparr>alarm_queue := aq, alarms := (alarms s)(al := None)\<rparr>) = es"
    using stop_alarm_first [OF sock(1) _ env] sock(2) by auto
  define s1 where "s1 = s\<lparr>alarm_queue := aq, alarms := (alarms s)(al := None)\<rparr>"
  have "at_sock s1 p k" using sock(1) by (simp add: at_sock_def s1_def)
  from take_packet_ok [OF this sock(2)] obtain q where q: "oq_inv q" "oq_items q = as"
    "take_packet p s1 = Inr (0, a, s1\<lparr>sockets := (sockets s1)(p \<mapsto> k\<lparr>sk_data := q\<rparr>)\<rparr>)" .
  define k2 where "k2 = k\<lparr>sk_data := q\<rparr>"
  define s2 where "s2 = s1\<lparr>sockets := (sockets s1)(p \<mapsto> k2)\<rparr>"
  have k2: "at_sock s2 p k2" using p q(1) by (simp add: s2_def at_sock_def k2_def)
  from drop_all_ok [OF this] obtain q5 where q5: "drop_all p s2 = Inr (s2\<lparr>packets := (\<lambda>b. if b \<in> set (oq_items (sk_data k2)) \<and> b \<noteq> NULL
      then None else packets s2 b), sockets := (sockets s2)(p \<mapsto> k2\<lparr>sk_data := q5\<rparr>)\<rparr>)" "oq_inv q5" "oq_items q5 = []" .
  define s5 where "s5 = s2\<lparr>packets := (\<lambda>b. if b \<in> set (oq_items (sk_data k2)) \<and> b \<noteq> NULL
      then None else packets s2 b), sockets := (sockets s2)(p \<mapsto> k2\<lparr>sk_data := q5\<rparr>)\<rparr>"
  define s6 where "s6 = s5\<lparr>sems := (sems s5)(data_ready k \<mapsto> \<lparr>s_count = 0, wait_list = Some queue_new\<rparr>)\<rparr>"
  define k7 where "k7 = k2\<lparr>sk_data := q5, socket_state := OPEN, seq_number := 1, ack_number := 2\<rparr>"
  have "sems s5 (data_ready k) = Some sem" using sem(1) by (simp add: s5_def s2_def s1_def)
  then have i6: "semaphore_initialize (data_ready k) 0 s5 = Inr s6"
    using sem(2) by (simp add: semaphore_initialize_def deref_Some s6_def)
  have "at_sock s6 p (k2\<lparr>sk_data := q5\<rparr>)" using p q5(2) by (simp add: s6_def s5_def at_sock_def)
  then have u7: "upd_sock p (\<lambda>k. k\<lparr>socket_state := OPEN, seq_number := 1, ack_number := 2\<rparr>) s6 =
      Inr (s6\<lparr>sockets := (sockets s6)(p \<mapsto> k7)\<rparr>)" by (simp add: sock_simps k7_def)
  have "packets s2 a = Some pk" using ack(1) by (simp add: s2_def s1_def)
  then have "server_ack_rest env p w al err s = Inr (Finished (Socket p None), s6\<lparr>sockets := (sockets s6)(p \<mapsto> k7)\<rparr>)"
    using st(1) [folded s1_def] q(3) [folded k2_def, folded s2_def] ack(2) rd(1-3) k2 q5(1) [folded s5_def] i6 u7 sock(3,4)
    by (simp add: server_ack_rest_def deref_Some Let_def same_peer_def network_compare_network_addresses_def k2_def MSG_ACK_def MSG_SYN_def
        sock_simps)
  moreover have "alarm_inv (s6\<lparr>sockets := (sockets s6)(p \<mapsto> k7)\<rparr>)" "pending (s6\<lparr>sockets := (sockets s6)(p \<mapsto> k7)\<rparr>) = es"
    using st(2,3) by (simp_all add: s6_def s5_def s2_def s1_def alarm_inv_def pending_def)
  ultimately show ?thesis using q5(2,3)
    by (intro exI [of _ "s6\<lparr>sockets := (sockets s6)(p \<mapsto> k7)\<rparr>"] exI [of _ k7])
      (simp add: opened_def k7_def k2_def s6_def s5_def s2_def s1_def)
qed

section \<open>Sending and receiving\<close>

text \<open>One transmission of a fragment.\<close>

lemma send_turn_ok:
  assumes "at_sock s p k" "alarm_inv s" "se_alarm env" "w \<le> 12800" "\<not> synthetic_network s" "length header = mini_header_reliable_size"
    "0 \<le> tlen" "tlen \<le> fragment_length" "0 \<le> sent" "tlen \<le> int (length m) - sent"
    "sendto (se_net env) (network_address_to_sockaddr (remote_addr k)) (header @ take (nat tlen) (drop (nat sent) m)) \<noteq> - 1"
  obtains s' where "send_turn env p m len sent header tlen w s = Inr (At (Send_ack p m len sent header tlen w (alarm_brk s)), s')"
    "turned p w (data_ready k) (k\<lparr>ack_flag := 0, seq_number := seq_number k + of_int tlen\<rparr>)
       (network_address_to_sockaddr (remote_addr k), header @ take (nat tlen) (drop (nat sent) m)) s s'"
proof -
  define pkt where "pkt = (network_address_to_sockaddr (remote_addr k), header @ take (nat tlen) (drop (nat sent) m))"
  define s1 where "s1 = s\<lparr>sockets := (sockets s)(p \<mapsto> k\<lparr>ack_flag := 0\<rparr>)\<rparr>"
  define k3 where "k3 = k\<lparr>ack_flag := 0, seq_number := seq_number k + of_int tlen\<rparr>"
  have p: "p \<noteq> NULL" "oq_inv (sk_data k)" using assms(1) by (simp_all add: at_sock_def)
  have n: "network_send_pkt (se_net env) (se_lost env 0) (se_dup env 0) (remote_addr k) (int mini_header_reliable_size) header tlen
      (drop (nat sent) m) s1 = Inr (sendto (se_net env) (fst pkt) (snd pkt), s1\<lparr>wire := wire s @ [pkt]\<rparr>)"
    using network_send_ok [of "int mini_header_reliable_size" header tlen "drop (nat sent) m" _ "remote_addr k" "se_net env" "se_lost env 0"
        "se_dup env 0" s1, OF _ _ _ _ _ refl] assms(5-10) by (simp add: pkt_def s1_def)
  obtain s' where s': "register_alarm True w Semaphore_V (data_ready k) (s\<lparr>wire := wire s @ [pkt], sockets := (sockets s)(p \<mapsto> k3)\<rparr>) =
      Inr (alarm_brk s, s')" "turned p w (data_ready k) k3 pkt s s'"
    using turned_register [OF assms(2) refl] .
  have "at_sock s1 p (k\<lparr>ack_flag := 0\<rparr>)" "at_sock (s1\<lparr>wire := wire s @ [pkt]\<rparr>) p (k\<lparr>ack_flag := 0\<rparr>)"
    using p by (simp_all add: at_sock_def s1_def)
  moreover have "(s1\<lparr>wire := wire s @ [pkt]\<rparr>)\<lparr>sockets := (sockets s1)(p \<mapsto> k3)\<rparr> = s\<lparr>wire := wire s @ [pkt], sockets := (sockets s)(p \<mapsto> k3)\<rparr>"
    by (simp add: s1_def)
  ultimately have "send_turn env p m len sent header tlen w s = Inr (At (Send_ack p m len sent header tlen w (alarm_brk s)), s')"
    using assms(1,3,4,11) n s'(1) by (simp add: send_turn_def sock_simps pkt_def k3_def flip: s1_def)
  then show thesis by (rule that) (use s'(2) in \<open>simp add: pkt_def k3_def\<close>)
qed

lemma recv_data_ok:
  assumes sock: "at_sock s p k" "oq_items (sk_data k) = a # as" "socket_state k = OPEN"
    and pk: "packets s a = Some pk" "a \<noteq> NULL" "size pk = int mini_header_reliable_size + n" "0 < n" "size pk \<le> int (length (buffer pk))"
    and out: "0 < max_len" "max_len \<le> int (length m)" "c = min n max_len"
    and mutex: "send_receive_mutex k \<noteq> NULL" "sems s (send_receive_mutex k) = Some sem" "0 \<le> s_count sem"
  obtains q where "oq_inv q" "oq_items q = as" "recv_data_rest p m max_len s = Inr (Finished (Received c None
      (take (nat c) (drop mini_header_reliable_size (buffer pk)) @ drop (nat c) m)),
      s\<lparr>sockets := (sockets s)(p \<mapsto> k\<lparr>sk_data := q\<rparr>), sems := (sems s)(send_receive_mutex k \<mapsto> sem\<lparr>s_count := s_count sem + 1\<rparr>)\<rparr>)"
proof -
  obtain q where q: "oq_inv q" "oq_items q = as" "take_packet p s = Inr (0, a, s\<lparr>sockets := (sockets s)(p \<mapsto> k\<lparr>sk_data := q\<rparr>)\<rparr>)"
    using take_packet_ok [OF sock(1,2)] .
  define k1 where "k1 = k\<lparr>sk_data := q\<rparr>"
  define s1 where "s1 = s\<lparr>sockets := (sockets s)(p \<mapsto> k1)\<rparr>"
  have c: "0 < c" "nat c = min (nat c) (nat c)" "nat c \<le> length (drop mini_header_reliable_size (buffer pk))" "nat c \<le> length m"
    "(if n > max_len then max_len else n) = c" using pk(3-5) out by auto
  from copy_loop_ok [OF c(2-4), of 0 "nat c"] c(1)
  have cp: "copy_loop (nat c) 0 c c m (drop mini_header_reliable_size (buffer pk)) =
      Inr (take (nat c) (drop mini_header_reliable_size (buffer pk)) @ drop (nat c) m)" by simp
  have k1: "at_sock s1 p k1" using sock(1) q(1) by (simp add: s1_def k1_def at_sock_def)
  have v: "semaphore_V (send_receive_mutex k) s1 = Inr (s1\<lparr>sems := (sems s)(send_receive_mutex k \<mapsto> sem\<lparr>s_count := s_count sem + 1\<rparr>)\<rparr>)"
    using semaphore_V_passes [of "send_receive_mutex k" s1 sem] mutex by (simp add: s1_def)
  have "size pk - int mini_header_reliable_size = n" using pk(3) by simp
  then have "recv_data_rest p m max_len s = unlock_and p (Finished (Received c None
      (take (nat c) (drop mini_header_reliable_size (buffer pk)) @ drop (nat c) m))) s1"
    using sock pk(1,2,4) q(3) [folded k1_def, folded s1_def] cp c(5)
    by (cases "n > max_len") (simp_all add: recv_data_rest_def sock_simps deref_Some s1_def Let_def assertR_def)
  also have "\<dots> = Inr (Finished (Received c None (take (nat c) (drop mini_header_reliable_size (buffer pk)) @ drop (nat c) m)),
      s1\<lparr>sems := (sems s)(send_receive_mutex k \<mapsto> sem\<lparr>s_count := s_count sem + 1\<rparr>)\<rparr>)"
    using k1 v by (simp add: unlock_and_def sock_simps k1_def)
  finally show thesis using that [OF q(1,2)] by (simp add: s1_def k1_def)
qed

section \<open>Properties\<close>

text \<open>
  C40: a client that is woken with no packet in its queue sends its SYN once more and waits for twice as long; once the
  wait would exceed 12800 ms it sends nothing and starts to free the socket. So it sends at most eight.
\<close>

theorem client_retries:
  assumes "at_sock s p k" "oq_items (sk_data k) = []" "delivers env 0 s" "alarm_inv s" "se_alarm env" "err \<noteq> SOCKET_OUTOFMEMORY"
  shows "if w * 2 \<le> 12800
    then \<exists>e s'. client_ack_rest env p w al err s = Inr (At (Client_ack p (w * 2) (alarm_brk s) e), s') \<and> e \<noteq> SOCKET_OUTOFMEMORY \<and>
      wire s' = wire s @ [(network_address_to_sockaddr (remote_addr k),
        create_control_header (se_header env) MSG_SYN (remote_port k) (remote_addr k) (local_port k) 0 0 s)] \<and>
      alarms s' (alarm_brk s) = Some \<lparr>a_end = nInterrupts s + delay_ticks (w * 2), call_back = Semaphore_V, arg = data_ready k\<rparr>
    else client_ack_rest env p w al err s = minisocket_free p Give_up s"
proof -
  have c: "client_ack_rest env p w al err s = client_turn env 0 p (w * 2) err s"
    using stop_alarm_none [OF assms(1,2)] by (simp add: client_ack_rest_def)
  show ?thesis
  proof (cases "w * 2 \<le> 12800")
    case True
    obtain e s' where s': "client_turn env 0 p (w * 2) err s = Inr (At (Client_ack p (w * 2) (alarm_brk s) e), s')" "e \<noteq> SOCKET_OUTOFMEMORY"
      "turned p (w * 2) (data_ready k) (k\<lparr>seq_number := 1, ack_number := 0\<rparr>) (network_address_to_sockaddr (remote_addr k),
       create_control_header (se_header env) MSG_SYN (remote_port k) (remote_addr k) (local_port k) 0 0 s) s s'"
      using client_turn_ok [OF assms(1,3-6) True] .
    then show ?thesis using True c by (intro if_P [THEN iffD2]) (auto simp: turned_def)
  next
    case False
    then show ?thesis using c by (simp add: client_turn_def)
  qed
qed

text \<open>
  When the alarm has fired before the packet arrives that a handshake waits for, so that both have raised the
  semaphore, the handshake cancels the alarm again and reads the freed structure, on the server and on the client.
\<close>

theorem late_packet_faults:
  assumes "at_sock s p k" "oq_items (sk_data k) \<noteq> []" "alarms s al = None" "al \<noteq> NULL"
  shows "server_ack_rest env p w al err s = Inl Use_after_free \<and> client_ack_rest env p w al err s = Inl Use_after_free"
proof -
  obtain d where d: "sk_data k = Some d" "queue_inv d" using assms(1) by (cases "sk_data k") (auto simp: at_sock_def)
  then have "queue_length (sk_data k) = Inr (int (length (oq_items (sk_data k))))" using qcount_items [OF d(2)] by simp
  then have "stop_alarm p al s = Inl Use_after_free"
    using assms by (simp add: stop_alarm_def set_interrupt_level_def at_sock_def deref_Some deregister_alarm_def deref_None)
  then show ?thesis by (simp add: server_ack_rest_def client_ack_rest_def)
qed

text \<open>
  When a header cannot be allocated the creation of a socket frees it and then goes on to use it: the call never
  returns its error, it reads the freed socket.
\<close>

theorem failed_create_faults:
  assumes "minisocket_free_rest p (Create_failed e) s = Inr (c, s')" "p \<noteq> NULL"
  shows "c = At (Failed_mutex p e) \<and> resume env (Failed_mutex p e) s' = Inl Use_after_free"
proof -
  obtain k ps s1 where "deref (sockets s) p = Inr k" "sport_set (ports s) (local_port k) NULL = Inr ps"
    "semaphore_V (ports_mutex s) (s\<lparr>ports := ps\<rparr>) = Inr s1" "c = At (Failed_mutex p e)" "s' = s1\<lparr>sockets := (sockets s1)(p := None)\<rparr>"
    using assms(1) by (auto simp: minisocket_free_rest_def bindR_eq_Inr)
  then show ?thesis using assms(2) by (simp add: create_failed_rest_def deref_None)
qed

text \<open>
  After each fragment the sender waits for \<open>wait_for_ack\<close>, but the alarm of its timeout raises
  \<open>data_ready\<close>: unless an acknowledgement arrives, the timeout does not wake the sender, and it wakes a receiver with no data.
\<close>

theorem send_timer_wrong:
  assumes "at_sock s p k" "alarm_inv s" "se_alarm env" "w \<le> 12800" "\<not> synthetic_network s" "length header = mini_header_reliable_size"
    "0 \<le> tlen" "tlen \<le> fragment_length" "0 \<le> sent" "tlen \<le> int (length m) - sent"
    "sendto (se_net env) (network_address_to_sockaddr (remote_addr k)) (header @ take (nat tlen) (drop (nat sent) m)) \<noteq> - 1"
  shows "\<exists>s'. send_turn env p m len sent header tlen w s = Inr (At (Send_ack p m len sent header tlen w (alarm_brk s)), s') \<and>
    wire s' = wire s @ [(network_address_to_sockaddr (remote_addr k), header @ take (nat tlen) (drop (nat sent) m))] \<and>
    alarms s' (alarm_brk s) = Some \<lparr>a_end = nInterrupts s + delay_ticks w, call_back = Semaphore_V, arg = data_ready k\<rparr> \<and>
    point_sem (Send_ack p m len sent header tlen w (alarm_brk s)) s' = Inr (wait_for_ack k)"
proof -
  from send_turn_ok [OF assms] obtain s' where s': "send_turn env p m len sent header tlen w s =
      Inr (At (Send_ack p m len sent header tlen w (alarm_brk s)), s')"
    "turned p w (data_ready k) (k\<lparr>ack_flag := 0, seq_number := seq_number k + of_int tlen\<rparr>)
       (network_address_to_sockaddr (remote_addr k), header @ take (nat tlen) (drop (nat sent) m)) s s'" .
  have "p \<noteq> NULL" using assms(1) by (simp add: at_sock_def)
  with s' show ?thesis by (intro exI [of _ s']) (simp add: turned_def deref_Some)
qed

text \<open>
  A data packet of the peer that acknowledges all that was sent goes to the end of the socket's queue, the
  acknowledged number grows by the length of the data and is sent back in one ACK, and a waiting sender is released; a packet with any
  other acknowledgement number is dropped and changes nothing else.
\<close>

theorem data_acknowledged:
  fixes c s :: "'z socks_scheme"
  assumes sock: "at_sock s p k" "remote_addr k = local_host c" "remote_port k = sport"
    and pk: "packets s a = Some pk" "a \<noteq> NULL" "length junk = mini_header_reliable_size" "0 \<le> sport" "sport < 65536"
      "buffer pk = create_control_header junk MSG_ACK port ad sport sq ak c @ rest" "size pk = int mini_header_reliable_size + n" "0 < n"
    and env: "sys_inv s" "delivers env 0 s" "sems s (data_ready k) \<noteq> None" "sems s (wait_for_ack k) \<noteq> None"
  shows "if ak = seq_number k
    then \<exists>s' k'. open_packet env a p port s = Inr s' \<and> sys_inv s' \<and> at_sock s' p k' \<and>
      oq_items (sk_data k') = oq_items (sk_data k) @ [a] \<and> ack_number k' = ack_number k + of_int n \<and>
      ack_flag k' = (if ack_flag k = 0 then 1 else ack_flag k) \<and>
      wire s' = wire s @ [(network_address_to_sockaddr (local_host c),
        create_control_header (se_header env) MSG_ACK sport (local_host c) port (seq_number k) (ack_number k + of_int n) s)]
    else open_packet env a p port s = Inr (free_packet a s)"
proof (cases "ak = seq_number k")
  case False
  note rd = control_packet_read [OF pk(3,6,4,5)]
  show ?thesis using False pk(1,2) rd sock
    by (simp add: open_packet_def deref_Some sock_simps same_peer_def network_compare_network_addresses_def Let_def
        MSG_ACK_def MSG_SYN_def MSG_SYNACK_def MSG_FIN_def)
next
  case True
  note rd = control_packet_read [OF pk(3,6,4,5)]
  have p: "p \<noteq> NULL" "oq_inv (sk_data k)" using sock(1) by (simp_all add: at_sock_def)
  obtain q where q: "queue_append (sk_data k) a = Inr (0, q)" "oq_inv q" "oq_items q = oq_items (sk_data k) @ [a]"
    using p(2) by (rule lq.app_returns)
  define k1 where "k1 = k\<lparr>sk_data := q\<rparr>"
  define k2 where "k2 = k1\<lparr>ack_number := ack_number k + of_int n\<rparr>"
  define k3 where "k3 = k2\<lparr>ack_flag := 1\<rparr>"
  define s0 where "s0 = s\<lparr>sockets := (sockets s)(p \<mapsto> k1)\<rparr>"
  obtain s1 where s1: "semaphore_V (data_ready k) s0 = Inr s1" "sys_inv s1" "sockets s1 = sockets s0" "wire s1 = wire s0"
    "delivers env 0 s1 = delivers env 0 s0" "local_host s1 = local_host s0" "dom (sems s1) = dom (sems s0)"
    by (rule V_sock [of s0 "data_ready k" env 0]) (use env in \<open>simp_all add: s0_def\<close>)
  have app: "queue_packet p a s = Inr s1" using sock(1) q(1) s1(1) by (simp add: queue_packet_def sock_simps s0_def k1_def)
  define s2 where "s2 = s1\<lparr>sockets := (sockets s1)(p \<mapsto> k2)\<rparr>"
  have u2: "upd_sock p (\<lambda>k. k\<lparr>ack_number := ack_number k + of_int n\<rparr>) s1 = Inr s2"
    using p q(2) s1(3) upd_sock_ok [of s1 p k1] by (simp add: at_sock_def s0_def k1_def k2_def s2_def)
  define pkt where "pkt = (network_address_to_sockaddr (local_host c),
        create_control_header (se_header env) MSG_ACK sport (local_host c) port (seq_number k) (ack_number k + of_int n) s)"
  define s3 where "s3 = s2\<lparr>wire := wire s @ [pkt]\<rparr>"
  have "create_control_header (se_header env) MSG_ACK sport (local_host c) port (seq_number k) (ack_number k + of_int n) s2 = snd pkt"
    using s1(6) by (simp add: pkt_def s2_def s0_def create_control_header_def)
  moreover have "wire s2 = wire s" using s1(4) by (simp add: s2_def s0_def)
  moreover have d2: "delivers env 0 s2" using env(2) s1(5) by (simp add: s2_def s0_def)
  ultimately obtain x where m: "send_control_message env 0 MSG_ACK sport (local_host c) port (seq_number k) (ack_number k + of_int n) s2 = Inr (x, s3)"
    by (simp add: send_control_ok [OF d2] s3_def pkt_def)
  define s4 where "s4 = s3\<lparr>sockets := (sockets s3)(p \<mapsto> k3)\<rparr>"
  have u4: "upd_sock p (\<lambda>k. k\<lparr>ack_flag := 1\<rparr>) s3 = Inr s4"
    using p q(2) upd_sock_ok [of s3 p k2] by (simp add: at_sock_def s3_def s2_def k1_def k2_def k3_def s4_def)
  have "sys_inv s4" "sems s4 (wait_for_ack k) \<noteq> None"
    using s1(2,7) env(4) by (auto simp: s4_def s3_def s2_def s0_def dom_def)
  then obtain s5 where s5: "semaphore_V (wait_for_ack k) s4 = Inr s5" "sys_inv s5" "sockets s5 = sockets s4" "wire s5 = wire s4"
    by (rule V_sock [of s4 "wait_for_ack k" env 0])
  have call: "open_packet env a p port s = (if ack_flag k = 0 then Inr s5 else Inr s3)"
    using True pk(1,2,7,8) rd sock app u2 m u4 s5(1)
    by (simp add: open_packet_def deref_Some sock_simps same_peer_def network_compare_network_addresses_def Let_def
        MSG_ACK_def MSG_SYN_def MSG_SYNACK_def MSG_FIN_def)
  show ?thesis
  proof (cases "ack_flag k = 0")
    case flag: True
    have "at_sock s5 p k3" using p q(2) s5(3) by (simp add: at_sock_def s4_def k3_def k2_def k1_def)
    moreover have "wire s5 = wire s @ [pkt]" using s5(4) by (simp add: s4_def s3_def)
    ultimately show ?thesis using True flag call s5(2) q(3)
      by (intro if_P [THEN iffD2] exI [of _ s5] exI [of _ k3]) (simp_all add: k3_def k2_def k1_def pkt_def)
  next
    case flag: False
    have "at_sock s3 p k2" "sys_inv s3" using p q(2) s1(2) by (simp_all add: at_sock_def s3_def s2_def k2_def k1_def)
    then show ?thesis using True flag call q(3)
      by (intro if_P [THEN iffD2] exI [of _ s3] exI [of _ k2]) (simp_all add: k2_def k1_def pkt_def s3_def)
  qed
qed

text \<open>
  A receive returns as many bytes of the first packet's data as the buffer holds, in order, and leaves the rest of
  the buffer alone; the packet is gone from the queue, so what did not fit is lost.
\<close>

theorem receive_truncates:
  assumes sock: "at_sock s p k" "oq_items (sk_data k) = a # as" "socket_state k = OPEN"
    and pk: "packets s a = Some pk" "a \<noteq> NULL" "size pk = int mini_header_reliable_size + n" "0 < n" "size pk \<le> int (length (buffer pk))"
    and out: "0 < max_len" "max_len \<le> int (length m)" "c = min n max_len"
    and mutex: "send_receive_mutex k \<noteq> NULL" "sems s (send_receive_mutex k) = Some sem" "0 \<le> s_count sem"
  shows "\<exists>s' k'. recv_data_rest p m max_len s = Inr (Finished (Received c None
      (take (nat c) (drop mini_header_reliable_size (buffer pk)) @ drop (nat c) m)), s') \<and>
    at_sock s' p k' \<and> oq_items (sk_data k') = as \<and> sems s' = (sems s)(send_receive_mutex k \<mapsto> sem\<lparr>s_count := s_count sem + 1\<rparr>)"
proof -
  obtain q where q: "oq_inv q" "oq_items q = as" "recv_data_rest p m max_len s = Inr (Finished (Received c None
      (take (nat c) (drop mini_header_reliable_size (buffer pk)) @ drop (nat c) m)),
      s\<lparr>sockets := (sockets s)(p \<mapsto> k\<lparr>sk_data := q\<rparr>), sems := (sems s)(send_receive_mutex k \<mapsto> sem\<lparr>s_count := s_count sem + 1\<rparr>)\<rparr>)"
    by (rule recv_data_ok [OF assms])
  then show ?thesis using sock(1) by (auto simp: at_sock_def)
qed

text \<open>
  After the last client port the counter starts again at 0 and not at the first client port: the next client gets
  port 0, a server's port, while every client port but one may be free.
\<close>

theorem client_ports_wrap:
  assumes "n_client_ports s = 65535" "ports s 65535 = NULL" "ports s 0 = NULL" "0 \<le> port" "port \<le> 32767"
  shows "\<exists>p q s1 s2. minisocket_client_create env True (Some ad) port s = Inr (At (Client_mutex p ad port 65535), s1) \<and>
    minisocket_client_create env True (Some ad) port s1 = Inr (At (Client_mutex q ad port 0), s2) \<and> p \<noteq> q"
  using assms by (simp add: minisocket_client_create_def sport_get_def Let_def)

text \<open>
  The network interrupt frees a packet that is too short, that has an unknown protocol or that is for a port nobody has
  opened, and changes nothing else; the interrupt level is restored.
\<close>

theorem handler_drops:
  assumes "packets s a = Some pk" "a \<noteq> NULL" "0 \<le> size pk"
    "size pk < int mini_header_size \<or> buffer pk ! off_protocol \<notin> {digit PROTOCOL_MINIDATAGRAM, digit PROTOCOL_MINISTREAM} \<or>
     buffer pk ! off_protocol = digit PROTOCOL_MINISTREAM \<and> ports s (uint (unpack_unsigned_short (buffer pk) off_destination_port)) = NULL \<or>
     buffer pk ! off_protocol = digit PROTOCOL_MINIDATAGRAM \<and> uint (unpack_unsigned_short (buffer pk) off_destination_port) < 32768 \<and>
       unbound_ports s (uint (unpack_unsigned_short (buffer pk) off_destination_port)) = NULL"
  shows "network_handler env a s = Inr (s\<lparr>packets := (packets s)(a := None)\<rparr>)"
proof -
  have lt: "uint (unpack_unsigned_short (buffer pk) off_destination_port) < 65536"
    using uint_lt2p [of "unpack_unsigned_short (buffer pk) off_destination_port"] by simp
  have ne: "digit PROTOCOL_MINISTREAM \<noteq> digit PROTOCOL_MINIDATAGRAM" by (simp add: PROTOCOL_MINISTREAM_def PROTOCOL_MINIDATAGRAM_def)
  define s1 where "s1 = s\<lparr>interrupt_level := DISABLED\<rparr>"
  have fr: "free_packet a s1 = s1\<lparr>packets := (packets s)(a := None)\<rparr>" using assms(2) by (simp add: free_packet_def s1_def)
  have h: "(if 0 \<le> size pk \<and> size pk < int mini_header_size then Inr (free_packet a s1)
               else if buffer pk ! off_protocol = digit PROTOCOL_MINIDATAGRAM then handle_udp_packet a s1
               else if buffer pk ! off_protocol = digit PROTOCOL_MINISTREAM then minisocket_handle_tcp_packet env a s1
               else Inr (free_packet a s1)) = Inr (free_packet a s1)"
    using assms lt ne fr
    by (auto simp: minisocket_handle_tcp_packet_def handle_udp_packet_def deref_Some sport_get_def port_get_def s1_def Let_def)
  have "deref (packets s1) a = Inr pk" using assms(1,2) by (simp add: deref_Some s1_def)
  then have "network_handler env a s = Inr (snd (set_interrupt_level (interrupt_level s) (free_packet a s1)))"
    unfolding network_handler_def if_not_P [OF assms(2)] set_interrupt_level_def [of DISABLED] Let_def prod.case s1_def [symmetric]
    by (simp only: bindR.simps h)
  then show ?thesis unfolding fr by (simp add: s1_def set_interrupt_level_def)
qed

section \<open>Examples\<close>

text \<open>
  One thread is running and one alarm is set. Socket 1 at port 80 is connected to port 40000 of the host \<open>(1, 2)\<close> and has the
  packet 9 in its queue, with the bytes \<open>b\<close>.
\<close>

definition sock80 :: minisocket where
  "sock80 = \<lparr>socket_type = CHR ''s'', socket_state = OPEN, local_port = 80, local_addr = (3, 4), remote_port = 40000, remote_addr = (1, 2),
     sk_data = Some one_item, data_ready = 1, seq_number = 1, ack_number = 2, ack_flag = 1, wait_for_ack = 2, send_receive_mutex = 3\<rparr>"

definition armed :: kernel where
  "armed = one_running\<lparr>alarm_queue := Some \<lparr>front = 1, rear = 1, qcount = 1, cells = [1 \<mapsto> \<lparr>data = 1, priority = 5, nxt = NULL\<rparr>], brk = 2\<rparr>,
     alarms := [1 \<mapsto> \<lparr>a_end = 5, call_back = Semaphore_V, arg = 1\<rparr>], alarm_brk := 2\<rparr>"

definition conn :: "byte list \<Rightarrow> minisocket \<Rightarrow> socks" where
  "conn b k = msg.extend (net.extend (system.extend (kernel.extend armed
       \<lparr>sems = [1 \<mapsto> \<lparr>s_count = 1, wait_list = Some queue_new\<rparr>, 2 \<mapsto> \<lparr>s_count = 0, wait_list = Some queue_new\<rparr>,
         3 \<mapsto> \<lparr>s_count = 0, wait_list = Some queue_new\<rparr>], sem_brk = 4\<rparr>)
       \<lparr>my_udp_port = 8099, other_udp_port = 8099, synthetic_network = False, topology = \<lparr>n_entries = 0, entries = [], me = 0\<rparr>, wire = []\<rparr>)
       \<lparr>packets = [9 \<mapsto> \<lparr>pk_sender = (1, 2), buffer = b, size = int (length b)\<rparr>], nPorts = 0, bound_ports_free = (\<lambda>i. True),
         unbound_ports = (\<lambda>i. NULL), msg_mutex = 1, miniports = Map.empty, port_brk = 1\<rparr>)
       \<lparr>sockets = [1 \<mapsto> k], sock_brk = 2, ports = (\<lambda>i. NULL)(80 := 1), n_client_ports = 65535, local_host = (3, 4), ports_mutex = 3\<rparr>"

definition good_env :: sockenv where
  "good_env = \<lparr>se_net = plain_env, se_lost = (\<lambda>i. False), se_dup = (\<lambda>i. False), se_malloc = (\<lambda>i. True), se_alarm = True,
     se_header = replicate 30 0, se_error = SOCKET_NOERROR, se_sem = \<lparr>s_count = 7, wait_list = None\<rparr>, se_sock = sock80\<rparr>"

lemma conn_fields [simp]:
  "sockets (conn b k) = [1 \<mapsto> k]" "packets (conn b k) = [9 \<mapsto> \<lparr>pk_sender = (1, 2), buffer = b, size = int (length b)\<rparr>]"
  "wire (conn b k) = []" "local_host (conn b k) = (3, 4)" "ports (conn b k) = (\<lambda>i. NULL)(80 := 1)" "n_client_ports (conn b k) = 65535"
  "sems (conn b k) = [1 \<mapsto> \<lparr>s_count = 1, wait_list = Some queue_new\<rparr>, 2 \<mapsto> \<lparr>s_count = 0, wait_list = Some queue_new\<rparr>,
         3 \<mapsto> \<lparr>s_count = 0, wait_list = Some queue_new\<rparr>]" "\<not> synthetic_network (conn b k)" "alarm_brk (conn b k) = 2"
  "nInterrupts (conn b k) = 0" "alarms (conn b k) = [1 \<mapsto> \<lparr>a_end = 5, call_back = Semaphore_V, arg = 1\<rparr>]" "pending (conn b k) = [(1, 5)]"
  "ports_mutex (conn b k) = 3"
  by (simp_all add: conn_def armed_def one_running_def kernel.defs system.defs net.defs msg.defs pending_def q_entries_def q_nodes_def entry_def
      numeral_2_eq_2)

lemma armed_alarms: "queue_inv \<lparr>front = 1, rear = 1, qcount = 1, cells = [1 \<mapsto> \<lparr>data = 1, priority = 5, nxt = NULL\<rparr>], brk = 2\<rparr>"
  by (simp add: queue_inv_def q_nodes_def queue_rep_def numeral_2_eq_2)

lemma conn_inv: "sys_inv (conn b k)" "alarm_inv (conn b k)"
proof -
  have m: "mlq_inv \<lparr>level_queues = replicate 4 (Some queue_new), n_levels = 4\<rparr>"
    "lvls \<lparr>level_queues = replicate 4 (Some queue_new), n_levels = 4\<rparr> = replicate 4 []"
    by (simp_all add: mlq_inv_def lvls_def list_all_iff)
  note defs = conn_def armed_def one_running_def kernel.defs system.defs net.defs msg.defs
  have k: "sched_inv (conn b k)" "thread_ok (conn b k) 0 3" "current (conn b k) = [3]" "ready (conn b k) = []"
    using m by (simp_all add: sched_inv_def sched_core_def levels_ok_def current_def ready_def thread_ok_def defs
        level_quantum_value_def level_max_quanta_def nth_replicate)
  have a: "alarm_queue (conn b k) = Some \<lparr>front = 1, rear = 1, qcount = 1, cells = [1 \<mapsto> \<lparr>data = 1, priority = 5, nxt = NULL\<rparr>], brk = 2\<rparr>"
    by (simp add: defs)
  show ai: "alarm_inv (conn b k)" unfolding alarm_inv_def a oq_inv.simps using armed_alarms by simp
  have b: "sem_brk (conn b k) = 4" by (simp add: defs)
  have "sems_ok (conn b k)" by (auto simp: sems_ok_def b sem_ok_def split: if_splits)
  moreover have "waiting (conn b k) = {#}" by (auto simp: waiting_def b waiters_def intro!: sum.neutral)
  moreover have "sleeping (conn b k) = {#}" by (simp add: sleeping_def)
  ultimately show "sys_inv (conn b k)" using k ai by (auto simp: sys_inv_def threads_inv_def places_def handlers_ok_def)
qed

lemma conn_sock: "oq_inv (sk_data k) \<Longrightarrow> at_sock (conn b k) 1 k"
  by (simp add: at_sock_def)

lemma conn_delivers: "delivers good_env 0 (conn b k)"
  by (simp add: delivers_def good_env_def mini_header_reliable_size_def)

definition from_peer :: "nat \<Rightarrow> 32 word \<Rightarrow> 32 word \<Rightarrow> byte list \<Rightarrow> byte list" where
  "from_peer ty sq ak m = create_control_header (replicate 30 0) ty 80 (3, 4) 40000 sq ak ((conn [] sock80)\<lparr>local_host := (1, 2)\<rparr>) @ m"

lemma length_from_peer [simp]: "length (from_peer ty sq ak m) = 30 + length m"
  unfolding from_peer_def by (simp add: control_header_fields(1) [OF _ refl, unfolded mini_header_reliable_size_def])

lemma sock80_simps [simp]: "sk_data sock80 = Some one_item" "remote_addr sock80 = (1, 2)" "remote_port sock80 = 40000" "data_ready sock80 = 1"
  "wait_for_ack sock80 = 2" "send_receive_mutex sock80 = 3" "seq_number sock80 = 1" "ack_flag sock80 = 1" "socket_state sock80 = OPEN"
  "ack_number sock80 = 2" "local_port sock80 = 80"
  by (simp_all add: sock80_def)

lemma good_env_simps [simp]: "se_alarm good_env" "se_error good_env = SOCKET_NOERROR" "se_net good_env = plain_env" "se_malloc good_env i"
  by (simp_all add: good_env_def)

lemma alone: "oq_items (sk_data sock80) = [9]"
  by (simp add: one_item)

theorem client_retries_witness:
  "\<exists>e s'. client_ack_rest good_env 1 100 1 SOCKET_NOERROR (conn [] (sock80\<lparr>sk_data := Some queue_new\<rparr>)) = Inr (At (Client_ack 1 200 2 e), s') \<and>
     length (wire s') = 1 \<and>
   client_ack_rest good_env 1 12800 1 SOCKET_NOERROR (conn [] (sock80\<lparr>sk_data := Some queue_new\<rparr>)) =
     minisocket_free 1 Give_up (conn [] (sock80\<lparr>sk_data := Some queue_new\<rparr>))"
proof -
  let ?k = "sock80\<lparr>sk_data := Some queue_new\<rparr>"
  have k: "at_sock (conn [] ?k) 1 ?k" "oq_items (sk_data ?k) = []" by (rule conn_sock) simp_all
  note r = client_retries [OF k conn_delivers conn_inv(2) good_env_simps(1), of SOCKET_NOERROR _ 1]
  from r [of 100] r [of 12800] show ?thesis by fastforce
qed

theorem late_packet_faults_witness:
  "server_ack_rest good_env 1 100 7 SOCKET_NOERROR (conn [] sock80) = Inl Use_after_free"
  using late_packet_faults [OF conn_sock, of sock80 "[]" 7 good_env 100 SOCKET_NOERROR] by (simp add: one_item)

theorem failed_create_faults_witness:
  "\<exists>s'. minisocket_free_rest 1 (Create_failed SOCKET_OUTOFMEMORY) (conn [] sock80) = Inr (At (Failed_mutex 1 SOCKET_OUTOFMEMORY), s') \<and>
     resume good_env (Failed_mutex 1 SOCKET_OUTOFMEMORY) s' = Inl Use_after_free"
proof -
  obtain c s' where c: "minisocket_free_rest 1 (Create_failed SOCKET_OUTOFMEMORY) (conn [] sock80) = Inr (c, s')"
    by (simp add: minisocket_free_rest_def deref_Some sport_set_def semaphore_V_passes)
  from failed_create_faults [OF this, of good_env] c show ?thesis by auto
qed

theorem send_timer_wrong_witness:
  "\<exists>s'. send_turn good_env 1 [10, 20] 2 0 (replicate 30 0) 2 100 (conn [] sock80) =
      Inr (At (Send_ack 1 [10, 20] 2 0 (replicate 30 0) 2 100 2), s') \<and> map_option arg (alarms s' 2) = Some 1 \<and>
     point_sem (Send_ack 1 [10, 20] 2 0 (replicate 30 0) 2 100 2) s' = Inr 2"
  using send_timer_wrong [OF conn_sock conn_inv(2), of sock80 good_env 100 "[]" "replicate 30 0" 2 0 "[10, 20]" 2]
  by (auto simp: one_item mini_header_reliable_size_def plain_env_def)

theorem data_acknowledged_witness:
  "\<exists>s' k'. open_packet good_env 9 1 80 (conn (from_peer MSG_ACK 5 1 [10, 20]) sock80) = Inr s' \<and> sockets s' 1 = Some k' \<and>
     oq_items (sk_data k') = [9, 9] \<and> ack_number k' = 4 \<and> length (wire s') = 1"
proof -
  let ?s = "conn (from_peer MSG_ACK 5 1 [10, 20]) sock80"
  have pk: "packets ?s 9 = Some \<lparr>pk_sender = (1, 2), buffer = from_peer MSG_ACK 5 1 [10, 20], size = 32\<rparr>" by simp
  have b: "buffer \<lparr>pk_sender = (1, 2), buffer = from_peer MSG_ACK 5 1 [10, 20], size = 32\<rparr> =
      create_control_header (replicate 30 0) MSG_ACK 80 (3, 4) 40000 5 1 ((conn [] sock80)\<lparr>local_host := (1, 2)\<rparr>) @ [10, 20]"
    by (simp add: from_peer_def)
  from data_acknowledged [OF conn_sock _ _ pk _ _ _ _ b _ _ conn_inv(1) conn_delivers, of 2]
  show ?thesis by (fastforce simp: one_item mini_header_reliable_size_def at_sock_def)
qed

theorem receive_truncates_witness:
  "\<exists>s'. recv_data_rest 1 [0] 1 (conn (from_peer MSG_ACK 5 1 [10, 20]) sock80) = Inr (Finished (Received 1 None [10]), s')"
proof -
  let ?s = "conn (from_peer MSG_ACK 5 1 [10, 20]) sock80"
  have pk: "packets ?s 9 = Some \<lparr>pk_sender = (1, 2), buffer = from_peer MSG_ACK 5 1 [10, 20], size = 32\<rparr>" by simp
  have "sems ?s (send_receive_mutex sock80) = Some \<lparr>s_count = 0, wait_list = Some queue_new\<rparr>" by simp
  from receive_truncates [OF conn_sock alone _ pk _ _ _ _ _ _ _ _ this, of 2 1 "[0]" 1]
  have "\<exists>s'. recv_data_rest 1 [0] 1 ?s = Inr (Finished (Received 1 None (take 1 (drop 30 (from_peer MSG_ACK 5 1 [10, 20])) @ [])), s')"
    by (auto simp: one_item mini_header_reliable_size_def)
  moreover have "drop 30 (from_peer MSG_ACK 5 1 [10, 20]) = [10, 20]"
    by (simp add: from_peer_def control_header_fields(1) [OF _ refl, unfolded mini_header_reliable_size_def])
  ultimately show ?thesis by simp
qed

theorem client_ports_wrap_witness:
  "\<exists>p q s1 s2. minisocket_client_create good_env True (Some (1, 2)) 7 (conn [] sock80) = Inr (At (Client_mutex p (1, 2) 7 65535), s1) \<and>
     minisocket_client_create good_env True (Some (1, 2)) 7 s1 = Inr (At (Client_mutex q (1, 2) 7 0), s2) \<and> p \<noteq> q"
  by (rule client_ports_wrap) simp_all

theorem handler_drops_witness:
  "network_handler good_env 9 (conn [1, 2, 3] sock80) = Inr ((conn [1, 2, 3] sock80)\<lparr>packets := Map.empty\<rparr>)"
  using handler_drops [of "conn [1, 2, 3] sock80" 9 "\<lparr>pk_sender = (1, 2), buffer = [1, 2, 3], size = 3\<rparr>" good_env]
  by (simp add: mini_header_size_def)

end
