(* ===== verification/Ufsdisk.thy ===== *)
theory Ufsdisk
  imports Miniheader
begin

text \<open>
  \<^verbatim>\<open>src/P6/ufsdisk.c\<close> and \<^verbatim>\<open>src/P6/ufsdisk.h\<close>: virtual block stores on top of a block store. The block
  store below (\<open>block_if.h\<close> is not in the repository) is an argument: its block size, its number of
  blocks, and its read and write functions on a state. A read gets the buffer it fills and returns
  what the buffer holds afterwards. Block numbers are 32-bit unsigned integers, as the code prints
  them; \<open>junk\<close> and \<open>jn\<close> are the contents of uninitialised buffers and variables.
\<close>

section \<open>Layout\<close>

type_synonym bno = "32 word"
type_synonym block = "byte list"

record 'd block_if =
  BLOCK_SIZE :: nat
  bi_nblocks :: "'d \<Rightarrow> int"
  bi_read :: "'d \<Rightarrow> bno \<Rightarrow> block \<Rightarrow> int \<times> block"
  bi_write :: "'d \<Rightarrow> bno \<Rightarrow> block \<Rightarrow> int \<times> 'd"

text \<open>A 32-bit field of a block, in the byte order of the host.\<close>

definition field :: "block \<Rightarrow> nat \<Rightarrow> 32 word" where
  "field blk off = ucast (blk ! off) OR push_bit 8 (ucast (blk ! (off + 1))) OR
     push_bit 16 (ucast (blk ! (off + 2))) OR push_bit 24 (ucast (blk ! (off + 3)))"

definition set_field :: "block \<Rightarrow> nat \<Rightarrow> 32 word \<Rightarrow> block" where
  "set_field blk off v = blk[off := ucast v, off + 1 := ucast (drop_bit 8 v),
     off + 2 := ucast (drop_bit 16 v), off + 3 := ucast (drop_bit 24 v)]"

definition REFS_PER_INODE :: nat where "REFS_PER_INODE = 15"
definition INODE_SIZE :: nat where "INODE_SIZE = 64"

definition INODES_PER_BLOCK :: "'d block_if \<Rightarrow> nat" where
  "INODES_PER_BLOCK below = BLOCK_SIZE below div INODE_SIZE"

definition REFS_PER_BLOCK :: "'d block_if \<Rightarrow> nat" where
  "REFS_PER_BLOCK below = BLOCK_SIZE below div 4"

text \<open>The fields of a superblock, of the inodes in an inode block, and of an indirect block.\<close>

definition magic_number :: "block \<Rightarrow> 32 word" where "magic_number sb = field sb 0"
definition n_inodeblocks :: "block \<Rightarrow> bno" where "n_inodeblocks sb = field sb 4"
definition n_freebitmapblocks :: "block \<Rightarrow> bno" where "n_freebitmapblocks sb = field sb 8"

definition inode_nblocks :: "block \<Rightarrow> nat \<Rightarrow> bno" where
  "inode_nblocks ib i = field ib (INODE_SIZE * i)"

definition inode_ref :: "block \<Rightarrow> nat \<Rightarrow> nat \<Rightarrow> bno" where
  "inode_ref ib i k = field ib (INODE_SIZE * i + 4 + 4 * k)"

definition set_inode_nblocks :: "block \<Rightarrow> nat \<Rightarrow> bno \<Rightarrow> block" where
  "set_inode_nblocks ib i v = set_field ib (INODE_SIZE * i) v"

definition set_inode_ref :: "block \<Rightarrow> nat \<Rightarrow> nat \<Rightarrow> bno \<Rightarrow> block" where
  "set_inode_ref ib i k v = set_field ib (INODE_SIZE * i + 4 + 4 * k) v"

definition indir_ref :: "'d block_if \<Rightarrow> block \<Rightarrow> nat \<Rightarrow> bno res" where
  "indir_ref below blk j = (if j < REFS_PER_BLOCK below then Inr (field blk (4 * j)) else Inl Out_of_bounds)"

definition set_indir_ref :: "'d block_if \<Rightarrow> block \<Rightarrow> nat \<Rightarrow> bno \<Rightarrow> block res" where
  "set_indir_ref below blk j v = (if j < REFS_PER_BLOCK below then Inr (set_field blk (4 * j) v) else Inl Out_of_bounds)"

definition null_block :: "'d block_if \<Rightarrow> block" where
  "null_block below = replicate (BLOCK_SIZE below) 0"

section \<open>Snapshots and sizes\<close>

record ufs_snapshot =
  superblock :: block
  inodeblock :: block
  inode_blockno :: bno
  inode :: nat

text \<open>The state of an open virtual store: the store below and the inode number.\<close>

record 'd ufs_state =
  below :: "'d block_if option"
  inode_no :: "32 word"

definition ufsdisk_get_snapshot :: "block \<Rightarrow> 'd block_if option \<Rightarrow> 32 word \<Rightarrow> 'd \<Rightarrow> ufs_snapshot option" where
  "ufsdisk_get_snapshot junk bl ino d =
     (case bl of
        None \<Rightarrow> None
      | Some be \<Rightarrow>
          (let (r, sb) = bi_read be d 0 junk in
           if r < 0 then None
           else if unat ino \<ge> unat (n_inodeblocks sb) * INODES_PER_BLOCK be then None
           else
             (let bn = 1 + of_nat (unat ino div INODES_PER_BLOCK be);
                  (r', ib) = bi_read be d bn junk in
              if r' < 0 then None
              else Some \<lparr>superblock = sb, inodeblock = ib, inode_blockno = bn, inode = unat ino mod INODES_PER_BLOCK be\<rparr>)))"

definition ufsdisk_nblocks :: "block \<Rightarrow> 'd ufs_state option \<Rightarrow> 'd \<Rightarrow> int" where
  "ufsdisk_nblocks junk bi d =
     (case bi of
        None \<Rightarrow> -1
      | Some us \<Rightarrow>
          (case ufsdisk_get_snapshot junk (below us) (inode_no us) d of
             None \<Rightarrow> -1
           | Some sn \<Rightarrow> sint (inode_nblocks (inodeblock sn) (inode sn))))"

section \<open>Allocation\<close>

text \<open>
  The three nested loops of \<open>write_next_free_block\<close>: over the masks of a byte, the bytes of a block, the
  bitmap blocks. Each returns the block number reached so far. A full byte advances it by eight.
\<close>

definition masks :: "byte list" where "masks = [128, 64, 32, 16, 8, 4, 2, 1]"

fun bit_scan :: "byte \<Rightarrow> byte list \<Rightarrow> bno \<Rightarrow> byte option \<times> bno" where
  "bit_scan v [] b = (None, b)"
| "bit_scan v (k # ks) b = (if v AND k = 0 then (Some k, b + 1) else bit_scan v ks (b + 1))"

fun byte_scan :: "byte list \<Rightarrow> nat \<Rightarrow> bno \<Rightarrow> (nat \<times> byte) option \<times> bno" where
  "byte_scan [] j b = (None, b)"
| "byte_scan (v # vs) j b =
     (if v = 255 then byte_scan vs (Suc j) (b + 8)
      else case bit_scan v masks b of
             (Some k, b') \<Rightarrow> (Some (j, k), b')
           | (None, b') \<Rightarrow> byte_scan vs (Suc j) b')"

fun block_scan :: "'d block_if \<Rightarrow> nat \<Rightarrow> bno \<Rightarrow> bno \<Rightarrow> block \<Rightarrow> block \<Rightarrow> bno \<Rightarrow> 'd \<Rightarrow> int \<times> bno \<times> 'd" where
  "block_scan be 0 i b blk w jn d = (-1, jn, d)"
| "block_scan be (Suc n) i b blk w jn d =
     (let (_, blk1) = bi_read be d i blk in
      case byte_scan (take (BLOCK_SIZE be) blk1) 0 b of
        (None, b') \<Rightarrow> block_scan be n (i + 1) b' blk1 w jn d
      | (Some (j, k), b') \<Rightarrow>
          (let (r, d1) = bi_write be d i (blk1[j := blk1 ! j OR k]) in
           if r < 0 then (-1, jn, d1)
           else let (r', d2) = bi_write be d1 b' w in (if r' < 0 then -1 else 0, b', d2)))"

text \<open>The result: the status, \<open>*free_block_no\<close> (\<open>jn\<close> if it is not assigned) and the disk.\<close>

definition write_next_free_block :: "block \<Rightarrow> 'd ufs_state \<Rightarrow> block \<Rightarrow> bno \<Rightarrow> 'd \<Rightarrow> int \<times> bno \<times> 'd" where
  "write_next_free_block junk us w jn d =
     (case (below us, ufsdisk_get_snapshot junk (below us) (inode_no us) d) of
        (Some be, Some sn) \<Rightarrow>
          (let start = n_inodeblocks (superblock sn) + 1;
               stop = start + n_freebitmapblocks (superblock sn)
           in block_scan be (unat (stop - start)) start (stop - 1) junk w jn d)
      | _ \<Rightarrow> (-1, jn, d))"

definition set_block_free :: "block \<Rightarrow> 'd ufs_state \<Rightarrow> bno \<Rightarrow> 'd \<Rightarrow> int \<times> 'd" where
  "set_block_free junk us b d =
     (case (below us, ufsdisk_get_snapshot junk (below us) (inode_no us) d) of
        (Some be, Some sn) \<Rightarrow>
          (let start = n_inodeblocks (superblock sn) + 1;
               sub = start + n_freebitmapblocks (superblock sn);
               off = unat (b - sub);
               fb = start + of_nat (off div (BLOCK_SIZE be * 8));
               ch = off div 8 mod BLOCK_SIZE be;
               (r, blk) = bi_read be d fb junk in
           if r < 0 then (-1, d)
           else let (r', d1) = bi_write be d fb (blk[ch := blk ! ch XOR drop_bit (off mod 8) 128])
                in (if r' < 0 then -1 else 0, d1))
      | _ \<Rightarrow> (-1, d))"

section \<open>Truncation\<close>

text \<open>The results: the status, the counter \<open>*n_blocks\<close> and the disk.\<close>

fun recurse_helper :: "block \<Rightarrow> 'd ufs_state \<Rightarrow> 'd block_if \<Rightarrow> nat \<Rightarrow> bno \<Rightarrow> int \<Rightarrow> 'd \<Rightarrow> int \<times> int \<times> 'd" where
  "recurse_helper junk us be 0 b n d =
     (if n = 0 then (0, n, d)
      else let (r, d1) = bi_write be d b (null_block be) in
           if r < 0 then (-1, n, d1)
           else let (_, d2) = set_block_free junk us b d1 in (0, n - 1, d2))"
| "recurse_helper junk us be (Suc l) b n d =
     (if n = 0 then (0, n, d)
      else let (r, indir) = bi_read be d b junk in
           if r < 0 then (-1, n, d)
           else
             (let (n1, d1) = foldl (\<lambda>(n', d') j.
                    let ref = field indir (4 * j) in
                    if ref \<noteq> 0 then (let (_, n'', d'') = recurse_helper junk us be l ref n' d' in (n'', d''))
                    else (n' - 1, d')) (n, d) [0..<REFS_PER_BLOCK be];
                  (r', d2) = bi_write be d1 b (null_block be) in
              if r' < 0 then (-1, n1, d2)
              else let (_, d3) = set_block_free junk us b d2 in (0, n1, d3)))"

text \<open>
  One turn of the loop of \<open>ufsdisk_setsize\<close> over the pointers of the inode. The last branch of the code
  decrements \<open>nblocks\<close>, which nothing reads afterwards, and not \<open>n_blocks\<close>.
\<close>

definition setsize_step :: "block \<Rightarrow> 'd ufs_state \<Rightarrow> 'd block_if \<Rightarrow> ufs_snapshot \<Rightarrow> int \<times> 'd \<Rightarrow> nat \<Rightarrow> int \<times> 'd" where
  "setsize_step junk us be sn = (\<lambda>(n, d) index.
     let ref = inode_ref (inodeblock sn) (inode sn) index;
         R = int (REFS_PER_BLOCK be);
         visit = (\<lambda>l. let (_, n', d') = recurse_helper junk us be l ref n d in (n', d'))
     in if index < REFS_PER_INODE - 3 then (if ref = 0 then (n - 1, d) else visit 0)
        else if index = REFS_PER_INODE - 3 then (if ref = 0 then (n - R, d) else visit 1)
        else if index = REFS_PER_INODE - 2 then (if ref = 0 then (n - R * R, d) else visit 2)
        else (if ref = 0 then (n, d) else visit 3))"

definition ufsdisk_setsize :: "block \<Rightarrow> 'd ufs_state option \<Rightarrow> bno \<Rightarrow> 'd \<Rightarrow> int \<times> 'd" where
  "ufsdisk_setsize junk bi nblocks d =
     (case bi of
        None \<Rightarrow> (-1, d)
      | Some us \<Rightarrow>
          (case (below us, ufsdisk_get_snapshot junk (below us) (inode_no us) d) of
             (Some be, Some sn) \<Rightarrow>
               (let old = inode_nblocks (inodeblock sn) (inode sn) in
                if nblocks = old then (sint nblocks, d)
                else
                  (let (_, d1) = foldl (setsize_step junk us be sn) (sint old, d) [0..<REFS_PER_INODE];
                       ib = set_inode_nblocks (inodeblock sn) (inode sn) 0;
                       (_, d2) = bi_write be d1 (inode_blockno sn) ib
                   in (0, d2)))
           | _ \<Rightarrow> (-1, d)))"

section \<open>Reading and writing\<close>

text \<open>
  Which pointer of the inode leads to a block, the offset below it and the number of indirect blocks
  on the way. The offset below the last pointer lacks the summand \<open>REFS_PER_BLOCK\<close>, as in the code.
\<close>

definition locate :: "nat \<Rightarrow> nat \<Rightarrow> nat \<times> nat \<times> nat" where
  "locate R offset =
     (let D = REFS_PER_INODE - 3 in
      if offset < D then (offset, offset, 0)
      else if offset - D < R then (D, offset - D, 1)
      else if offset - D - R < R * R then (D + 1, offset - (D + R), 2)
      else (D + 2, offset - (D + R * R), 3))"

fun read_walk :: "'d block_if \<Rightarrow> nat \<Rightarrow> bno \<Rightarrow> nat \<Rightarrow> block \<Rightarrow> 'd \<Rightarrow> (int \<times> block) res" where
  "read_walk be l b index buf d =
     (if b = 0 then Inr (0, null_block be)
      else let (r, blk) = bi_read be d b buf in
           if r < 0 then Inr (-1, null_block be)
           else case l of
             0 \<Rightarrow> Inr (0, blk)
           | Suc l' \<Rightarrow>
               (let divider = REFS_PER_BLOCK be ^ l' in
                bindR (indir_ref be blk (index div divider)) (\<lambda>b'.
                  read_walk be l' b' (index mod divider) blk d)))"

definition ufsdisk_read :: "block \<Rightarrow> 'd ufs_state option \<Rightarrow> bno \<Rightarrow> block \<Rightarrow> 'd \<Rightarrow> (int \<times> block) res" where
  "ufsdisk_read junk bi offset buf d =
     (case bi of
        None \<Rightarrow> Inr (-1, buf)
      | Some us \<Rightarrow>
          (case (below us, ufsdisk_get_snapshot junk (below us) (inode_no us) d) of
             (Some be, Some sn) \<Rightarrow>
               if offset > inode_nblocks (inodeblock sn) (inode sn) then Inr (-1, buf)
               else (let (k, index, l) = locate (REFS_PER_BLOCK be) (unat offset) in
                     read_walk be l (inode_ref (inodeblock sn) (inode sn) k) index buf d)
           | _ \<Rightarrow> Inr (-1, buf)))"

text \<open>
  The loop of \<open>ufsdisk_write\<close> over the indirect blocks: \<open>b\<close>, the index, the last indirect block read, its
  number, and the position in it. \<open>None\<close> is the early return of -1.
\<close>

fun write_walk :: "block \<Rightarrow> bno \<Rightarrow> 'd ufs_state \<Rightarrow> 'd block_if \<Rightarrow> nat \<Rightarrow> bno \<Rightarrow> nat \<Rightarrow> block \<Rightarrow> bno \<Rightarrow> nat \<Rightarrow> 'd \<Rightarrow>
    ((bno \<times> block \<times> bno \<times> nat) option \<times> 'd) res" where
  "write_walk junk jn us be 0 b index indir ref_block prev d = Inr (Some (b, indir, ref_block, prev), d)"
| "write_walk junk jn us be (Suc l) b index indir ref_block prev d =
     (let divider = REFS_PER_BLOCK be ^ l;
          descend = (\<lambda>b1 indir1 d1. bindR (indir_ref be indir1 (index div divider)) (\<lambda>b'.
             write_walk junk jn us be l b' (index mod divider) indir1 b1 (index div divider) d1))
      in if b = 0 then
           (let (_, fb, d1) = write_next_free_block junk us (null_block be) jn d in
            bindR (set_indir_ref be indir prev fb) (\<lambda>indir1.
              let (_, d2) = bi_write be d1 ref_block indir1;
                  (_, indir2) = bi_read be d2 fb indir1
              in descend fb indir2 d2))
         else
           (let (r, indir1) = bi_read be d b indir in
            if r < 0 then Inr (None, d) else descend b indir1 d))"

definition ufsdisk_write :: "block \<Rightarrow> bno \<Rightarrow> 'd ufs_state \<Rightarrow> bno \<Rightarrow> block \<Rightarrow> 'd \<Rightarrow> (int \<times> 'd) res" where
  "ufsdisk_write junk jn us offset w d =
     (case (below us, ufsdisk_get_snapshot junk (below us) (inode_no us) d) of
        (Some be, Some sn) \<Rightarrow>
          (let (k, index, l) = locate (REFS_PER_BLOCK be) (unat offset);
               i = inode sn;
               ib0 = inodeblock sn;
               b0 = inode_ref ib0 i k;
               (b, ib, d1) =
                 (if b0 = 0 \<and> l \<noteq> 0 then
                    (let (_, fb, d') = write_next_free_block junk us (null_block be) jn d;
                         ib' = set_inode_ref ib0 i k fb;
                         (_, d'') = bi_write be d' (inode_blockno sn) ib'
                     in (fb, ib', d''))
                  else (b0, ib0, d))
           in bindR (write_walk junk jn us be l b index junk (if l = 0 then 0 else of_nat k) index d1) (\<lambda>(out, d2).
              case out of
                None \<Rightarrow> Inr (-1, d2)
              | Some (b', indir, ref_block, prev) \<Rightarrow>
                  if b' = 0 then
                    (let (_, fb, d3) = write_next_free_block junk us w jn d2 in
                     bindR (if unat offset < REFS_PER_INODE - 3 then Inr (set_inode_ref ib i (unat offset) fb, d3)
                            else bindR (set_indir_ref be indir prev fb) (\<lambda>indir'.
                                   let (_, d4) = bi_write be d3 ref_block indir' in Inr (ib, d4))) (\<lambda>(ib1, d4).
                     let old = inode_nblocks ib1 i;
                         ib2 = set_inode_nblocks ib1 i (if offset + 1 > old then offset + 1 else old);
                         (r, d5) = bi_write be d4 (inode_blockno sn) ib2
                     in Inr (r, d5)))
                  else Inr (bi_write be d2 b' w)))
      | _ \<Rightarrow> Inr (-1, d))"

definition ufsdisk_init :: "block \<Rightarrow> 'd block_if option \<Rightarrow> 32 word \<Rightarrow> 'd \<Rightarrow> 'd ufs_state option" where
  "ufsdisk_init junk bl ino d =
     (case ufsdisk_get_snapshot junk bl ino d of
        None \<Rightarrow> None
      | Some sn \<Rightarrow> Some \<lparr>below = bl, inode_no = ino\<rparr>)"

section \<open>Creation\<close>

text \<open>Writing null blocks from \<open>i\<close> on, \<open>k\<close> of them: whether all writes succeeded, and the disk.\<close>

fun zero_blocks :: "'d block_if \<Rightarrow> nat \<Rightarrow> int \<Rightarrow> 'd \<Rightarrow> bool \<times> 'd" where
  "zero_blocks be 0 i d = (True, d)"
| "zero_blocks be (Suc k) i d =
     (let (r, d1) = bi_write be d (of_int i) (null_block be) in
      if r < 0 then (False, d1) else zero_blocks be k (i + 1) d1)"

definition setup_freebitmapblocks :: "'d block_if \<Rightarrow> bno \<Rightarrow> bno \<Rightarrow> 'd \<Rightarrow> bno \<times> 'd" where
  "setup_freebitmapblocks be next_free nblocks d =
     (let K = sint (nblocks - next_free);
          n = of_int (cdiv K (1 + int (BLOCK_SIZE be) * 8));
          (ok, d1) = zero_blocks be (nat (uint n + 1 - uint next_free)) (uint next_free) d
      in (if ok then n else -1, d1))"

definition ufsdisk_create :: "'d block_if \<Rightarrow> 32 word \<Rightarrow> 32 word \<Rightarrow> 'd \<Rightarrow> int \<times> 'd" where
  "ufsdisk_create be n_inodes magic d =
     (let nib = of_nat ((unat n_inodes + INODES_PER_BLOCK be - 1) div INODES_PER_BLOCK be) :: 32 word;
          nblocks = bi_nblocks be d in
      if (of_int nblocks :: 32 word) < nib + 2 then (-1, d)
      else
        (let (nfb, d1) = setup_freebitmapblocks be (nib + 1) (of_int nblocks) d;
             sb = set_field (set_field (set_field (null_block be) 0 magic) 4 nib) 8 nfb;
             (r, d2) = bi_write be d1 0 sb in
         if r < 0 then (-1, d2)
         else let (ok, d3) = zero_blocks be (unat nib) 1 d2 in (if ok then 0 else -1, d3)))"

section \<open>Fields\<close>

lemma length_set_field [simp]: "length (set_field blk off v) = length blk"
  by (simp add: set_field_def)

lemma field_bytes:
  "take_bit 8 v OR push_bit 8 (take_bit 8 (drop_bit 8 v)) OR push_bit 16 (take_bit 8 (drop_bit 16 v)) OR
     push_bit 24 (take_bit 8 (drop_bit 24 v)) = (v :: 32 word)"
  using word32_bytes [of v] by (simp add: or.commute or.left_commute)

lemma field_set_field [simp]: "off + 4 \<le> length blk \<Longrightarrow> field (set_field blk off v) off = v"
  by (simp add: field_def set_field_def byte_back field_bytes)

lemma field_set_other [simp]:
  "off + 4 \<le> o' \<or> o' + 4 \<le> off \<Longrightarrow> field (set_field blk o' v) off = field blk off"
  by (auto simp: field_def set_field_def)

lemma nth_set_other: "i < off \<or> off + 4 \<le> i \<Longrightarrow> set_field blk off v ! i = blk ! i"
  by (auto simp: set_field_def)

lemma set_nblocks_other [simp]:
  "i \<noteq> i' \<Longrightarrow> inode_nblocks (set_inode_nblocks ib i v) i' = inode_nblocks ib i'"
  "k < REFS_PER_INODE \<Longrightarrow> inode_ref (set_inode_nblocks ib i v) i' k = inode_ref ib i' k"
proof -
  have *: "INODE_SIZE * i + 64 \<le> INODE_SIZE * i' \<or> INODE_SIZE * i' + 64 \<le> INODE_SIZE * i \<or> i = i'"
    by (cases i i' rule: linorder_cases) (auto simp: INODE_SIZE_def)
  show "i \<noteq> i' \<Longrightarrow> inode_nblocks (set_inode_nblocks ib i v) i' = inode_nblocks ib i'"
    "k < REFS_PER_INODE \<Longrightarrow> inode_ref (set_inode_nblocks ib i v) i' k = inode_ref ib i' k"
    unfolding inode_nblocks_def inode_ref_def set_inode_nblocks_def REFS_PER_INODE_def
    using * by (auto intro!: field_set_other)
qed

lemma set_ref_other [simp]:
  "k < REFS_PER_INODE \<Longrightarrow> inode_nblocks (set_inode_ref ib i k v) i' = inode_nblocks ib i'"
  "k < REFS_PER_INODE \<Longrightarrow> k' < REFS_PER_INODE \<Longrightarrow> (i, k) \<noteq> (i', k') \<Longrightarrow>
     inode_ref (set_inode_ref ib i k v) i' k' = inode_ref ib i' k'"
proof -
  have *: "INODE_SIZE * i + 64 \<le> INODE_SIZE * i' \<or> INODE_SIZE * i' + 64 \<le> INODE_SIZE * i \<or> i = i'"
    by (cases i i' rule: linorder_cases) (auto simp: INODE_SIZE_def)
  show "k < REFS_PER_INODE \<Longrightarrow> inode_nblocks (set_inode_ref ib i k v) i' = inode_nblocks ib i'"
    unfolding inode_nblocks_def set_inode_ref_def REFS_PER_INODE_def using * by (auto intro!: field_set_other)
  show "k < REFS_PER_INODE \<Longrightarrow> k' < REFS_PER_INODE \<Longrightarrow> (i, k) \<noteq> (i', k') \<Longrightarrow>
     inode_ref (set_inode_ref ib i k v) i' k' = inode_ref ib i' k'"
    unfolding inode_ref_def set_inode_ref_def REFS_PER_INODE_def using *
    by (cases k k' rule: linorder_cases) (auto intro!: field_set_other)
qed

lemma set_ref_same [simp]:
  "INODE_SIZE * i + INODE_SIZE \<le> length ib \<Longrightarrow> k < REFS_PER_INODE \<Longrightarrow> inode_ref (set_inode_ref ib i k v) i k = v"
  "INODE_SIZE * i + INODE_SIZE \<le> length ib \<Longrightarrow> inode_nblocks (set_inode_nblocks ib i w) i = w"
  by (simp_all add: inode_ref_def set_inode_ref_def inode_nblocks_def set_inode_nblocks_def INODE_SIZE_def REFS_PER_INODE_def)

lemma length_inode_set [simp]:
  "length (set_inode_ref ib i k v) = length ib" "length (set_inode_nblocks ib i w) = length ib"
  by (simp_all add: set_inode_ref_def set_inode_nblocks_def)

section \<open>The scan for a free bit\<close>

lemma bit_scan_cases:
  "(case bit_scan v masks b of
     (None, b') \<Rightarrow> b' = b + 8 \<and> (\<forall>p<8. v AND drop_bit p 128 \<noteq> 0)
   | (Some k, b') \<Rightarrow> \<exists>p<8. k = drop_bit p 128 \<and> v AND k = 0 \<and> b' = b + of_nat p + 1)"
proof -
  have m: "masks = map (\<lambda>p. drop_bit p 128) [0..<8]"
    by (simp add: masks_def drop_bit_eq_div upt_rec)
  have gen: "i + length ps = 8 \<Longrightarrow> ps = [i..<8] \<Longrightarrow> (\<forall>p<i. v AND drop_bit p 128 \<noteq> 0) \<Longrightarrow>
    (case bit_scan v (map (\<lambda>p. drop_bit p 128) ps) (b + of_nat i) of
       (None, b') \<Rightarrow> b' = b + 8 \<and> (\<forall>p<8. v AND drop_bit p 128 \<noteq> 0)
     | (Some k, b') \<Rightarrow> \<exists>p<8. k = drop_bit p 128 \<and> v AND k = 0 \<and> b' = b + of_nat p + 1)" for i ps
  proof (induction ps arbitrary: i)
    case Nil
    then show ?case by simp
  next
    case (Cons p ps)
    then have p: "p = i" "i < 8" "ps = [Suc i..<8]" by (auto simp: upt_rec split: if_splits)
    show ?case
    proof (cases "v AND drop_bit i 128 = 0")
      case True
      then show ?thesis using p by auto
    next
      case False
      then have "\<forall>p<Suc i. v AND drop_bit p 128 \<noteq> 0" using Cons.prems(3) by (auto simp: less_Suc_eq)
      moreover have "b + of_nat i + 1 = b + of_nat (Suc i)" by simp
      ultimately show ?thesis using Cons.IH [of "Suc i"] Cons.prems(1) p False
        by (simp only: list.map bit_scan.simps if_False) simp
    qed
  qed
  show ?thesis using gen [of 0 "[0..<8]"] unfolding m by simp
qed

lemma full_byte: "(v :: byte) = 255 \<Longrightarrow> p < 8 \<Longrightarrow> v AND drop_bit p 128 \<noteq> 0"
proof -
  assume v: "v = 255" and p: "p < 8"
  have "p = 0 \<or> p = 1 \<or> p = 2 \<or> p = 3 \<or> p = 4 \<or> p = 5 \<or> p = 6 \<or> p = 7" using p by auto
  then show ?thesis unfolding v by (elim disjE) simp_all
qed

text \<open>\<open>busy v p\<close>: the bit that stands for the \<open>p\<close>-th block of the byte \<open>v\<close> is set.\<close>

definition busy :: "byte \<Rightarrow> nat \<Rightarrow> bool" where
  "busy v p \<longleftrightarrow> v AND drop_bit p 128 \<noteq> 0"

definition scan_post :: "byte list \<Rightarrow> nat \<Rightarrow> bno \<Rightarrow> (nat \<times> byte) option \<times> bno \<Rightarrow> bool" where
  "scan_post vs j b r \<longleftrightarrow>
     (case fst r of
        None \<Rightarrow> snd r = b + of_nat (8 * length vs) \<and> (\<forall>v\<in>set vs. \<forall>p<8. busy v p)
      | Some (j', k) \<Rightarrow> \<exists>x p. x < length vs \<and> p < 8 \<and> j' = j + x \<and> k = drop_bit p 128 \<and> \<not> busy (vs ! x) p \<and>
          snd r = b + of_nat (8 * x + p) + 1)"

lemma scan_post_Cons:
  assumes "scan_post vs (Suc j) (b + 8) r" "\<forall>p<8. busy v p"
  shows "scan_post (v # vs) j b r"
proof (cases "fst r")
  case None
  then show ?thesis using assms by (simp add: scan_post_def)
next
  case (Some jk)
  obtain j' k where jk: "jk = (j', k)" by (cases jk)
  then obtain x p where x: "x < length vs" "p < 8" "j' = Suc j + x" "k = drop_bit p 128" "\<not> busy (vs ! x) p"
    "snd r = b + 8 + of_nat (8 * x + p) + 1" using assms(1) Some by (auto simp: scan_post_def)
  have "snd r = b + of_nat (8 * Suc x + p) + 1" using x(6) by simp
  then have "\<exists>x p. x < length (v # vs) \<and> p < 8 \<and> j' = j + x \<and> k = drop_bit p 128 \<and> \<not> busy ((v # vs) ! x) p \<and>
      snd r = b + of_nat (8 * x + p) + 1"
    using x by (intro exI [of _ "Suc x"] exI [of _ p]) simp
  then show ?thesis unfolding scan_post_def Some jk by simp
qed

lemma byte_scan_post: "scan_post vs j b (byte_scan vs j b)"
proof (induction vs arbitrary: j b)
  case Nil
  then show ?case by (simp add: scan_post_def)
next
  case (Cons v vs)
  show ?case
  proof (cases "v = 255")
    case True
    then have "\<forall>p<8. busy v p" by (simp add: busy_def full_byte)
    then show ?thesis using True scan_post_Cons Cons.IH by simp
  next
    case False
    obtain o1 b1 where bs: "bit_scan v masks b = (o1, b1)" by (cases "bit_scan v masks b")
    show ?thesis
    proof (cases o1)
      case None
      then have "b1 = b + 8" "\<forall>p<8. busy v p" using bit_scan_cases [where v = v and b = b] bs by (simp_all add: busy_def)
      then show ?thesis using False None bs scan_post_Cons Cons.IH by simp
    next
      case (Some k)
      then obtain p where p: "p < 8" "k = drop_bit p 128" "v AND k = 0" "b1 = b + of_nat p + 1"
        using bit_scan_cases [where v = v and b = b] bs by auto
      have "byte_scan (v # vs) j b = (Some (j, k), b1)" using False Some bs by simp
      moreover have "\<exists>x p'. x < length (v # vs) \<and> p' < 8 \<and> j = j + x \<and> k = drop_bit p' 128 \<and> \<not> busy ((v # vs) ! x) p' \<and>
          b1 = b + of_nat (8 * x + p') + 1"
        using p by (intro exI [of _ 0] exI [of _ p]) (simp add: busy_def)
      ultimately show ?thesis unfolding scan_post_def by simp
    qed
  qed
qed

section \<open>Layout of a store\<close>

text \<open>The first bitmap block and the first block behind the bitmap, from the superblock.\<close>

definition fs_start :: "(bno \<Rightarrow> block) \<Rightarrow> bno" where "fs_start c = n_inodeblocks (c 0) + 1"
definition fs_stop :: "(bno \<Rightarrow> block) \<Rightarrow> bno" where "fs_stop c = fs_start c + n_freebitmapblocks (c 0)"

text \<open>Where the inode with number \<open>ino\<close> is.\<close>

definition iblock :: "'d block_if \<Rightarrow> 32 word \<Rightarrow> bno" where
  "iblock be ino = 1 + of_nat (unat ino div INODES_PER_BLOCK be)"

definition islot :: "'d block_if \<Rightarrow> 32 word \<Rightarrow> nat" where
  "islot be ino = unat ino mod INODES_PER_BLOCK be"

text \<open>\<open>ino\<close> is a valid inode number; inode blocks, bitmap and at least one block behind it lie inside the \<open>nb\<close> blocks of the store.\<close>

definition fs_ok :: "'d block_if \<Rightarrow> nat \<Rightarrow> (bno \<Rightarrow> block) \<Rightarrow> 32 word \<Rightarrow> bool" where
  "fs_ok be nb c ino \<longleftrightarrow> unat ino < unat (n_inodeblocks (c 0)) * INODES_PER_BLOCK be \<and>
     unat (n_inodeblocks (c 0)) + unat (n_freebitmapblocks (c 0)) + 1 < nb \<and> nb \<le> 2 ^ 32"

text \<open>The place of the \<open>off\<close>-th block behind the bitmap in the bitmap: block, byte, bit.\<close>

definition bitmap_block :: "'d block_if \<Rightarrow> (bno \<Rightarrow> block) \<Rightarrow> nat \<Rightarrow> bno" where
  "bitmap_block be c off = fs_start c + of_nat (off div (BLOCK_SIZE be * 8))"

definition bitmap_byte :: "'d block_if \<Rightarrow> nat \<Rightarrow> nat" where
  "bitmap_byte be off = off div 8 mod BLOCK_SIZE be"

definition in_use :: "'d block_if \<Rightarrow> (bno \<Rightarrow> block) \<Rightarrow> nat \<Rightarrow> bool" where
  "in_use be c off = busy (c (bitmap_block be c off) ! bitmap_byte be off) (off mod 8)"

definition mark :: "'d block_if \<Rightarrow> (bno \<Rightarrow> block) \<Rightarrow> nat \<Rightarrow> block" where
  "mark be c off = (let blk = c (bitmap_block be c off); j = bitmap_byte be off
     in blk[j := blk ! j OR drop_bit (off mod 8) 128])"

text \<open>A file whose pointers are direct ones to blocks of the data area.\<close>

definition direct_file :: "'d block_if \<Rightarrow> nat \<Rightarrow> (bno \<Rightarrow> block) \<Rightarrow> block \<Rightarrow> nat \<Rightarrow> bool" where
  "direct_file be nb c ib i \<longleftrightarrow> (\<forall>k<REFS_PER_INODE. inode_ref ib i k = 0 \<or> k < 12 \<and>
     (\<exists>off < 8 * BLOCK_SIZE be * unat (n_freebitmapblocks (c 0)). inode_ref ib i k = fs_stop c + of_nat off \<and>
        unat (fs_stop c) + off < nb))"

lemma unat_small: "n < 2 ^ 32 \<Longrightarrow> unat (of_nat n :: 32 word) = n"
  by (simp add: unat_of_nat)

lemma fs_blocks:
  assumes "fs_ok be nb c ino"
  shows "unat (iblock be ino) = 1 + unat ino div INODES_PER_BLOCK be" "unat (iblock be ino) \<le> unat (n_inodeblocks (c 0))"
    "unat (iblock be ino) < nb" "iblock be ino \<noteq> 0" "unat (fs_start c) = unat (n_inodeblocks (c 0)) + 1"
    "unat (fs_stop c) = unat (n_inodeblocks (c 0)) + 1 + unat (n_freebitmapblocks (c 0))"
    "x < unat (n_freebitmapblocks (c 0)) \<Longrightarrow> unat (fs_start c + of_nat x) = unat (n_inodeblocks (c 0)) + 1 + x"
proof -
  define N where "N = unat (n_inodeblocks (c 0))"
  define F where "F = unat (n_freebitmapblocks (c 0))"
  have NF: "N + F + 1 < nb" "nb \<le> 2 ^ 32" "unat ino < N * INODES_PER_BLOCK be" "n_inodeblocks (c 0) = of_nat N"
    "n_freebitmapblocks (c 0) = of_nat F" using assms by (simp_all add: fs_ok_def N_def F_def)
  have s: "fs_start c = of_nat (N + 1)" "fs_stop c = of_nat (N + 1 + F)" "fs_start c + of_nat x = of_nat (N + 1 + x)" for x
    by (simp_all add: fs_start_def fs_stop_def NF(4,5))
  define I where "I = unat ino div INODES_PER_BLOCK be"
  have I: "I < N" using NF(3) by (simp add: I_def less_mult_imp_div_less)
  have ib: "iblock be ino = of_nat (1 + I)" by (simp add: iblock_def I_def)
  have uib: "unat (iblock be ino) = 1 + I" unfolding ib using I NF by (intro unat_small) linarith
  then show "unat (iblock be ino) = 1 + unat ino div INODES_PER_BLOCK be" "unat (iblock be ino) \<le> unat (n_inodeblocks (c 0))"
    "unat (iblock be ino) < nb" using I NF(1) by (simp_all add: I_def flip: N_def)
  show "iblock be ino \<noteq> 0" using uib by auto
  show "unat (fs_start c) = unat (n_inodeblocks (c 0)) + 1"
    unfolding s N_def [symmetric] using NF by (intro unat_small) linarith
  show "unat (fs_stop c) = unat (n_inodeblocks (c 0)) + 1 + unat (n_freebitmapblocks (c 0))"
    unfolding s N_def [symmetric] F_def [symmetric] using NF by (intro unat_small) linarith
  show "x < unat (n_freebitmapblocks (c 0)) \<Longrightarrow> unat (fs_start c + of_nat x) = unat (n_inodeblocks (c 0)) + 1 + x"
    unfolding s(3) N_def [symmetric] F_def [symmetric] using NF by (intro unat_small) linarith
qed

lemma data_block:
  assumes "fs_ok be nb c ino" "unat (fs_stop c) + off < nb"
  shows "unat (fs_stop c + of_nat off) = unat (fs_stop c) + off" "off < 2 ^ 32" "fs_stop c + of_nat off \<noteq> 0"
    "fs_stop c + of_nat off \<noteq> iblock be ino"
proof -
  have nb: "nb \<le> 2 ^ 32" using assms(1) by (simp add: fs_ok_def)
  then show o: "off < 2 ^ 32" using assms(2) by linarith
  then show u: "unat (fs_stop c + of_nat off) = unat (fs_stop c) + off"
    using assms(2) nb by (subst unat_add_lem [THEN iffD1]) (simp_all add: unat_small)
  then show "fs_stop c + of_nat off \<noteq> 0" "fs_stop c + of_nat off \<noteq> iblock be ino"
    using fs_blocks(2,6) [OF assms(1)] by auto
qed

lemma bitmap_block_place:
  assumes "fs_ok be nb c ino" "off < 8 * BLOCK_SIZE be * unat (n_freebitmapblocks (c 0))"
  shows "bitmap_block be c off \<noteq> 0" "bitmap_block be c off \<noteq> iblock be ino"
    "unat (bitmap_block be c off) < unat (fs_stop c)"
proof -
  have x: "off div (BLOCK_SIZE be * 8) < unat (n_freebitmapblocks (c 0))"
    using assms(2) by (simp add: less_mult_imp_div_less mult.commute mult.left_commute)
  have u: "unat (bitmap_block be c off) = unat (n_inodeblocks (c 0)) + 1 + off div (BLOCK_SIZE be * 8)"
    using fs_blocks(7) [OF assms(1) x] by (simp add: bitmap_block_def)
  then show "bitmap_block be c off \<noteq> 0" "bitmap_block be c off \<noteq> iblock be ino"
    using fs_blocks(2) [OF assms(1)] by auto
  show "unat (bitmap_block be c off) < unat (fs_stop c)" using u x fs_blocks(6) [OF assms(1)] by simp
qed

section \<open>On a working block store\<close>

text \<open>
  What a block store owes to its client, for the block numbers below \<open>nb\<close>: a read returns what the last
  write to that number stored.
\<close>

locale block_store =
  fixes be :: "'d block_if" and ok :: "'d \<Rightarrow> bool" and nb :: nat and contents :: "'d \<Rightarrow> bno \<Rightarrow> block"
  assumes read_ok: "ok d \<Longrightarrow> unat b < nb \<Longrightarrow> bi_read be d b buf = (0, contents d b)"
    and write_ok: "ok d \<Longrightarrow> unat b < nb \<Longrightarrow> length w = BLOCK_SIZE be \<Longrightarrow>
        \<exists>d'. bi_write be d b w = (0, d') \<and> ok d' \<and> contents d' = (contents d)(b := w)"
    and size_ok: "ok d \<Longrightarrow> unat b < nb \<Longrightarrow> length (contents d b) = BLOCK_SIZE be"
begin

lemma write_returns:
  assumes "ok d" "unat b < nb" "length w = BLOCK_SIZE be"
  obtains d' where "bi_write be d b w = (0, d')" "ok d'" "contents d' = (contents d)(b := w)"
  using write_ok [OF assms] by blast

lemma slot_fits:
  assumes "fs_ok be nb c ino"
  shows "INODE_SIZE * islot be ino + INODE_SIZE \<le> BLOCK_SIZE be"
proof -
  have "0 < INODES_PER_BLOCK be" using assms by (cases "INODES_PER_BLOCK be") (auto simp: fs_ok_def)
  then have "Suc (islot be ino) \<le> INODES_PER_BLOCK be" by (simp add: islot_def Suc_le_eq)
  then have "INODE_SIZE * Suc (islot be ino) \<le> INODE_SIZE * INODES_PER_BLOCK be" by (rule mult_le_mono2)
  also have "\<dots> \<le> BLOCK_SIZE be" by (simp add: INODES_PER_BLOCK_def)
  finally show ?thesis by simp
qed

lemma snapshot_ok:
  "ok d \<Longrightarrow> fs_ok be nb (contents d) ino \<Longrightarrow> ufsdisk_get_snapshot junk (Some be) ino d = Some \<lparr>superblock = contents d 0,
     inodeblock = contents d (iblock be ino), inode_blockno = iblock be ino, inode = islot be ino\<rparr>"
  using fs_blocks(3) [of be nb "contents d" ino]
  by (simp add: ufsdisk_get_snapshot_def read_ok iblock_def islot_def not_le Let_def fs_ok_def)

lemma snapshot_beyond:
  assumes "ok d" "0 < nb" "unat (n_inodeblocks (contents d 0)) * INODES_PER_BLOCK be \<le> unat ino"
  shows "ufsdisk_get_snapshot junk (Some be) ino d = None"
  using assms by (simp add: ufsdisk_get_snapshot_def read_ok)

lemma block_scan_ok:
  assumes "ok d" "\<forall>x<n. unat (i + of_nat x) < nb"
  shows "(block_scan be n i b blk w jn d = (-1, jn, d) \<and>
       (\<forall>x<n. \<forall>v\<in>set (contents d (i + of_nat x)). \<forall>p<8. busy v p)) \<or>
    (\<exists>x j p. x < n \<and> j < BLOCK_SIZE be \<and> p < 8 \<and> \<not> busy (contents d (i + of_nat x) ! j) p \<and>
       (unat (b + of_nat (8 * (BLOCK_SIZE be * x + j) + p) + 1) < nb \<longrightarrow> length w = BLOCK_SIZE be \<longrightarrow>
         (\<exists>d'. block_scan be n i b blk w jn d = (0, b + of_nat (8 * (BLOCK_SIZE be * x + j) + p) + 1, d') \<and> ok d' \<and>
            contents d' = (contents d)
              (i + of_nat x := (contents d (i + of_nat x))[j := contents d (i + of_nat x) ! j OR drop_bit p 128],
               b + of_nat (8 * (BLOCK_SIZE be * x + j) + p) + 1 := w))))"
  using assms
proof (induction n arbitrary: i b blk)
  case 0
  then show ?case by simp
next
  case (Suc n)
  have i: "unat i < nb" using Suc.prems(2) by (auto dest: spec [of _ 0])
  have rd: "bi_read be d i blk = (0, contents d i)" "length (contents d i) = BLOCK_SIZE be"
    using read_ok size_ok Suc.prems(1) i by simp_all
  obtain o1 b1 where bs: "byte_scan (contents d i) 0 b = (o1, b1)" by (cases "byte_scan (contents d i) 0 b")
  note post = byte_scan_post [of "contents d i" 0 b, unfolded bs scan_post_def]
  show ?case
  proof (cases o1)
    case None
    then have b1: "b1 = b + of_nat (8 * BLOCK_SIZE be)" "\<forall>v\<in>set (contents d i). \<forall>p<8. busy v p"
      using post rd(2) by simp_all
    have call: "block_scan be (Suc n) i b blk w jn d = block_scan be n (i + 1) b1 (contents d i) w jn d"
      using rd bs None by simp
    have sh: "i + 1 + of_nat x = i + of_nat (Suc x)" for x by simp
    have "\<forall>x<n. unat (i + 1 + of_nat x) < nb" unfolding sh using Suc.prems(2) by auto
    from Suc.IH [OF Suc.prems(1) this, of b1 "contents d i"] show ?thesis
    proof (elim disjE conjE exE)
      assume "block_scan be n (i + 1) b1 (contents d i) w jn d = (-1, jn, d)"
        "\<forall>x<n. \<forall>v\<in>set (contents d (i + 1 + of_nat x)). \<forall>p<8. busy v p"
      then show ?thesis using call b1(2) unfolding sh by (auto simp: less_Suc_eq_0_disj)
    next
      fix x j p
      assume h: "x < n" "j < BLOCK_SIZE be" "p < 8" "\<not> busy (contents d (i + 1 + of_nat x) ! j) p"
        "unat (b1 + of_nat (8 * (BLOCK_SIZE be * x + j) + p) + 1) < nb \<longrightarrow> length w = BLOCK_SIZE be \<longrightarrow>
         (\<exists>d'. block_scan be n (i + 1) b1 (contents d i) w jn d = (0, b1 + of_nat (8 * (BLOCK_SIZE be * x + j) + p) + 1, d') \<and> ok d' \<and>
            contents d' = (contents d)
              (i + 1 + of_nat x := (contents d (i + 1 + of_nat x))[j := contents d (i + 1 + of_nat x) ! j OR drop_bit p 128],
               b1 + of_nat (8 * (BLOCK_SIZE be * x + j) + p) + 1 := w))"
      have e: "b1 + of_nat (8 * (BLOCK_SIZE be * x + j) + p) + 1 = b + of_nat (8 * (BLOCK_SIZE be * Suc x + j) + p) + 1"
        unfolding b1(1) by (simp add: algebra_simps)
      note h' = h [unfolded sh e, folded call]
      show ?thesis
        by (rule disjI2, rule exI [of _ "Suc x"], rule exI [of _ j], rule exI [of _ p])
          (use h' in \<open>simp only: Suc_less_eq simp_thms\<close>)
    qed
  next
    case (Some jk)
    obtain j k where jk: "jk = (j, k)" by (cases jk)
    obtain p where p: "j < BLOCK_SIZE be" "p < 8" "k = drop_bit p 128" "\<not> busy (contents d i ! j) p" "b1 = b + of_nat (8 * j + p) + 1"
      using post rd(2) Some jk by auto
    define w1 where "w1 = (contents d i)[j := contents d i ! j OR k]"
    obtain d1 where d1: "bi_write be d i w1 = (0, d1)" "ok d1" "contents d1 = (contents d)(i := w1)"
      using Suc.prems(1) i rd(2) by (elim write_returns [of d i w1]) (simp_all add: w1_def)
    have "\<exists>d'. block_scan be (Suc n) i b blk w jn d = (0, b1, d') \<and> ok d' \<and> contents d' = (contents d)(i := w1, b1 := w)"
      if l: "unat b1 < nb" "length w = BLOCK_SIZE be"
    proof -
      obtain d2 where "bi_write be d1 b1 w = (0, d2)" "ok d2" "contents d2 = (contents d1)(b1 := w)"
        using d1(2) l by (rule write_returns)
      then show ?thesis using rd bs Some jk d1 by (simp add: w1_def)
    qed
    then show ?thesis
      by - (rule disjI2, rule exI [of _ 0], rule exI [of _ j], rule exI [of _ p], use p in \<open>simp add: w1_def del: block_scan.simps fun_upd_apply\<close>)
  qed
qed

text \<open>The allocator: the first block of the data area that is marked free, or -1 when all are in use.\<close>

lemma alloc_ok:
  assumes d: "ok d" and fs: "fs_ok be nb (contents d) ino" and us: "below us = Some be" "inode_no us = ino"
  shows "(write_next_free_block junk us w jn d = (-1, jn, d) \<and>
        (\<forall>off < 8 * BLOCK_SIZE be * unat (n_freebitmapblocks (contents d 0)). in_use be (contents d) off)) \<or>
    (\<exists>off < 8 * BLOCK_SIZE be * unat (n_freebitmapblocks (contents d 0)). \<not> in_use be (contents d) off \<and>
       (unat (fs_stop (contents d) + of_nat off) < nb \<longrightarrow> length w = BLOCK_SIZE be \<longrightarrow>
         (\<exists>d'. write_next_free_block junk us w jn d = (0, fs_stop (contents d) + of_nat off, d') \<and> ok d' \<and>
            contents d' = (contents d)(bitmap_block be (contents d) off := mark be (contents d) off,
              fs_stop (contents d) + of_nat off := w))))"
proof -
  let ?c = "contents d"
  let ?F = "unat (n_freebitmapblocks (?c 0))"
  have B: "0 < BLOCK_SIZE be" using slot_fits [OF fs] by (simp add: INODE_SIZE_def)
  have call: "write_next_free_block junk us w jn d = block_scan be ?F (fs_start ?c) (fs_stop ?c - 1) junk w jn d"
    using us snapshot_ok [OF d fs] by (simp add: write_next_free_block_def fs_start_def fs_stop_def Let_def)
  have "\<forall>x<?F. unat (fs_start ?c + of_nat x) < nb" using fs_blocks(7) [OF fs] fs by (auto simp: fs_ok_def)
  from block_scan_ok [OF d this, of "fs_stop ?c - 1" junk w jn] show ?thesis
  proof (elim disjE conjE exE)
    assume full: "block_scan be ?F (fs_start ?c) (fs_stop ?c - 1) junk w jn d = (-1, jn, d)"
      "\<forall>x<?F. \<forall>v\<in>set (?c (fs_start ?c + of_nat x)). \<forall>p<8. busy v p"
    have "in_use be ?c off" if "off < 8 * BLOCK_SIZE be * ?F" for off
    proof -
      have x: "off div (BLOCK_SIZE be * 8) < ?F" using that by (simp add: less_mult_imp_div_less mult.commute mult.left_commute)
      then have "length (?c (bitmap_block be ?c off)) = BLOCK_SIZE be"
        using size_ok [OF d] fs_blocks(7) [OF fs x] fs by (simp add: bitmap_block_def fs_ok_def)
      then have "?c (bitmap_block be ?c off) ! bitmap_byte be off \<in> set (?c (bitmap_block be ?c off))"
        using B by (simp add: bitmap_byte_def)
      then show ?thesis using full(2) x by (simp add: in_use_def bitmap_block_def)
    qed
    then show ?thesis using full(1) call by simp
  next
    fix x j p
    assume h: "x < ?F" "j < BLOCK_SIZE be" "p < 8" "\<not> busy (?c (fs_start ?c + of_nat x) ! j) p"
      "unat (fs_stop ?c - 1 + of_nat (8 * (BLOCK_SIZE be * x + j) + p) + 1) < nb \<longrightarrow> length w = BLOCK_SIZE be \<longrightarrow>
         (\<exists>d'. block_scan be ?F (fs_start ?c) (fs_stop ?c - 1) junk w jn d =
              (0, fs_stop ?c - 1 + of_nat (8 * (BLOCK_SIZE be * x + j) + p) + 1, d') \<and> ok d' \<and>
            contents d' = (contents d)
              (fs_start ?c + of_nat x := (?c (fs_start ?c + of_nat x))[j := ?c (fs_start ?c + of_nat x) ! j OR drop_bit p 128],
               fs_stop ?c - 1 + of_nat (8 * (BLOCK_SIZE be * x + j) + p) + 1 := w))"
    define off where "off = 8 * (BLOCK_SIZE be * x + j) + p"
    have e: "fs_stop ?c - 1 + of_nat off + 1 = fs_stop ?c + of_nat off" by simp
    have "(8 * m + p) div 8 = m" "(8 * m + p) mod 8 = p" for m using h(3) by simp_all
    then have d8: "off div 8 = BLOCK_SIZE be * x + j" "off mod 8 = p" by (simp_all only: off_def)
    then have "off div (BLOCK_SIZE be * 8) = x" "off div 8 mod BLOCK_SIZE be = j"
      using h(2) B by (simp_all add: mult.commute [of "BLOCK_SIZE be" 8] div_mult2_eq)
    then have pos: "bitmap_block be ?c off = fs_start ?c + of_nat x" "bitmap_byte be off = j"
      by (simp_all add: bitmap_block_def bitmap_byte_def)
    have "BLOCK_SIZE be * x + j < BLOCK_SIZE be * ?F"
      using h(1,2) by (metis add_less_cancel_left mult_Suc_right mult_le_mono2 order_less_le_trans Suc_leI add.commute)
    then have "off < 8 * BLOCK_SIZE be * ?F" using h(3) by (simp add: off_def mult.assoc)
    moreover have "\<not> in_use be ?c off" using h(4) by (simp add: in_use_def pos d8)
    moreover have "mark be ?c off = (?c (fs_start ?c + of_nat x))[j := ?c (fs_start ?c + of_nat x) ! j OR drop_bit p 128]"
      by (simp add: mark_def pos d8 Let_def)
    ultimately show ?thesis
      by - (rule disjI2, rule exI [of _ off],
        use h(5) [folded off_def, unfolded e] in \<open>simp add: call pos del: fun_upd_apply\<close>)
  qed
qed

text \<open>Freeing the block at \<open>off\<close> flips its bit and nothing else.\<close>

lemma set_block_free_ok:
  assumes d: "ok d" and fs: "fs_ok be nb (contents d) ino" and us: "below us = Some be" "inode_no us = ino"
    and off: "off < 8 * BLOCK_SIZE be * unat (n_freebitmapblocks (contents d 0))" "off < 2 ^ 32"
  shows "\<exists>d'. set_block_free junk us (fs_stop (contents d) + of_nat off) d = (0, d') \<and> ok d' \<and>
    contents d' = (contents d)(bitmap_block be (contents d) off :=
      (let blk = contents d (bitmap_block be (contents d) off) in
       blk[bitmap_byte be off := blk ! bitmap_byte be off XOR drop_bit (off mod 8) 128]))"
proof -
  let ?c = "contents d"
  have x: "off div (BLOCK_SIZE be * 8) < unat (n_freebitmapblocks (?c 0))"
    using off(1) by (simp add: less_mult_imp_div_less mult.commute mult.left_commute)
  then have v: "unat (bitmap_block be ?c off) < nb"
    using fs_blocks(7) [OF fs x] fs by (simp add: bitmap_block_def fs_ok_def)
  have u: "unat (fs_stop ?c + of_nat off - fs_stop ?c) = off" using off(2) by (simp add: unat_small)
  let ?blk = "?c (bitmap_block be ?c off)"
  define w1 where "w1 = ?blk[bitmap_byte be off := ?blk ! bitmap_byte be off XOR drop_bit (off mod 8) 128]"
  have "length w1 = BLOCK_SIZE be" using size_ok [OF d v] by (simp add: w1_def)
  with d v obtain d' where d': "bi_write be d (bitmap_block be ?c off) w1 = (0, d')" "ok d'"
    "contents d' = ?c(bitmap_block be ?c off := w1)" by (rule write_returns)
  have "set_block_free junk us (fs_stop ?c + of_nat off) d = (0, d')"
    using us snapshot_ok [OF d fs] d'(1) u read_ok [OF d v]
    by (simp add: set_block_free_def Let_def bitmap_byte_def bitmap_block_def fs_start_def fs_stop_def w1_def)
  then show ?thesis using d' by (simp add: Let_def w1_def)
qed

text \<open>Blocks behind a direct pointer.\<close>

lemma locate_direct: "offset < 12 \<Longrightarrow> locate R offset = (offset, offset, 0)"
  by (simp add: locate_def REFS_PER_INODE_def)

lemma read_direct:
  assumes d: "ok d" and fs: "fs_ok be nb (contents d) ino" and us: "below us = Some be" "inode_no us = ino"
    and off: "unat offset < 12" "offset \<le> inode_nblocks (contents d (iblock be ino)) (islot be ino)"
    and b: "b = inode_ref (contents d (iblock be ino)) (islot be ino) (unat offset)" "unat b < nb"
  shows "ufsdisk_read junk (Some us) offset buf d = Inr (0, if b = 0 then null_block be else contents d b)"
  using snapshot_ok [OF d fs] us off read_ok [OF d b(2)]
  by (simp add: ufsdisk_read_def locate_direct not_less flip: b(1))

lemma write_direct_old:
  assumes d: "ok d" and fs: "fs_ok be nb (contents d) ino" and us: "below us = Some be" "inode_no us = ino"
    and off: "unat offset < 12" and w: "length w = BLOCK_SIZE be"
    and b: "b = inode_ref (contents d (iblock be ino)) (islot be ino) (unat offset)" "unat b < nb" "b \<noteq> 0"
  shows "\<exists>d'. ufsdisk_write junk jn us offset w d = Inr (0, d') \<and> ok d' \<and> contents d' = (contents d)(b := w)"
proof -
  obtain d' where d': "bi_write be d b w = (0, d')" "ok d'" "contents d' = (contents d)(b := w)"
    using d b(2) w by (rule write_returns)
  have "ufsdisk_write junk jn us offset w d = Inr (0, d')"
    using snapshot_ok [OF d fs] us off b(3) d'(1)
    by (simp add: ufsdisk_write_def locate_direct Let_def flip: b(1))
  with d' show ?thesis by blast
qed

text \<open>The bitmap does not reach beyond the store, and one of its blocks is free.\<close>

lemma write_direct_new:
  assumes d: "ok d" and fs: "fs_ok be nb (contents d) ino" and us: "below us = Some be" "inode_no us = ino"
    and off: "unat offset < 12" and w: "length w = BLOCK_SIZE be"
    and b: "inode_ref (contents d (iblock be ino)) (islot be ino) (unat offset) = 0"
    and room: "unat (fs_stop (contents d)) + 8 * BLOCK_SIZE be * unat (n_freebitmapblocks (contents d 0)) \<le> nb"
      "o1 < 8 * BLOCK_SIZE be * unat (n_freebitmapblocks (contents d 0))" "\<not> in_use be (contents d) o1"
  shows "\<exists>d' o2. ufsdisk_write junk jn us offset w d = Inr (0, d') \<and> ok d' \<and>
    o2 < 8 * BLOCK_SIZE be * unat (n_freebitmapblocks (contents d 0)) \<and> \<not> in_use be (contents d) o2 \<and>
    contents d' = (contents d)(bitmap_block be (contents d) o2 := mark be (contents d) o2,
       fs_stop (contents d) + of_nat o2 := w,
       iblock be ino := set_inode_nblocks (set_inode_ref (contents d (iblock be ino)) (islot be ino) (unat offset) (fs_stop (contents d) + of_nat o2))
          (islot be ino) (let n = inode_nblocks (contents d (iblock be ino)) (islot be ino) in if offset + 1 > n then offset + 1 else n))"
proof -
  let ?c = "contents d"
  let ?n = "8 * BLOCK_SIZE be * unat (n_freebitmapblocks (?c 0))"
  have a: "\<not> (\<forall>off<?n. in_use be ?c off)" using room(2,3) by blast
  from alloc_ok [OF d fs us, of junk w jn] a obtain o2 where o2: "o2 < ?n" "\<not> in_use be ?c o2"
    "unat (fs_stop ?c + of_nat o2) < nb \<longrightarrow> length w = BLOCK_SIZE be \<longrightarrow>
         (\<exists>d'. write_next_free_block junk us w jn d = (0, fs_stop ?c + of_nat o2, d') \<and> ok d' \<and>
            contents d' = ?c(bitmap_block be ?c o2 := mark be ?c o2, fs_stop ?c + of_nat o2 := w))" by blast
  have "unat (fs_stop ?c) + o2 < nb" using o2(1) room(1) by linarith
  moreover have "nb \<le> 2 ^ 32" using fs by (simp add: fs_ok_def)
  ultimately have u: "unat (fs_stop ?c + of_nat o2) = unat (fs_stop ?c) + o2"
    by (subst unat_add_lem [THEN iffD1]) (simp_all add: unat_small)
  obtain d1 where d1: "write_next_free_block junk us w jn d = (0, fs_stop ?c + of_nat o2, d1)" "ok d1"
      "contents d1 = ?c(bitmap_block be ?c o2 := mark be ?c o2, fs_stop ?c + of_nat o2 := w)"
    using o2(1,3) w u room(1) by auto
  define ib where "ib = set_inode_nblocks (set_inode_ref (?c (iblock be ino)) (islot be ino) (unat offset) (fs_stop ?c + of_nat o2))
          (islot be ino) (let n = inode_nblocks (?c (iblock be ino)) (islot be ino) in if offset + 1 > n then offset + 1 else n)"
  have "length ib = BLOCK_SIZE be" using size_ok [OF d fs_blocks(3) [OF fs]] by (simp add: ib_def)
  with d1(2) fs_blocks(3) [OF fs] obtain d2 where d2: "bi_write be d1 (iblock be ino) ib = (0, d2)" "ok d2"
    "contents d2 = (contents d1)(iblock be ino := ib)" by (rule write_returns)
  have "ufsdisk_write junk jn us offset w d = Inr (0, d2)"
    using snapshot_ok [OF d fs] us off b d1(1) d2(1)
    by (auto simp: ufsdisk_write_def locate_direct Let_def REFS_PER_INODE_def ib_def)
  then show ?thesis using d1 d2 o2(1,2) by (intro exI [of _ d2] exI [of _ o2]) (simp add: ib_def)
qed

text \<open>Writing null blocks one after the other.\<close>

lemma zero_blocks_ok:
  "ok d \<Longrightarrow> 0 \<le> i \<Longrightarrow> i + int k \<le> int nb \<Longrightarrow> nb \<le> 2 ^ 32 \<Longrightarrow>
   \<exists>d'. zero_blocks be k i d = (True, d') \<and> ok d' \<and>
     contents d' = (\<lambda>b. if i \<le> uint b \<and> uint b < i + int k then null_block be else contents d b)"
proof (induction k arbitrary: i d)
  case 0
  then show ?case by (auto simp: fun_eq_iff)
next
  case (Suc k)
  have u: "uint (of_int i :: bno) = i" using Suc.prems(2-4)
    by (simp add: uint_word_of_int take_bit_int_eq_self)
  have un: "unat (of_int i :: bno) < nb" using Suc.prems(2,3) unfolding unat_eq_nat_uint u by linarith
  have "length (null_block be) = BLOCK_SIZE be" by (simp add: null_block_def)
  with Suc.prems(1) un obtain d1 where d1: "bi_write be d (of_int i) (null_block be) = (0, d1)" "ok d1"
    "contents d1 = (contents d)(of_int i := null_block be)" by (rule write_returns)
  have prems: "0 \<le> i + 1" "i + 1 + int k \<le> int nb" using Suc.prems(2,3) by simp_all
  from Suc.IH [OF d1(2) prems Suc.prems(4)] obtain d2 where d2: "zero_blocks be k (i + 1) d1 = (True, d2)" "ok d2"
    "contents d2 = (\<lambda>b. if i + 1 \<le> uint b \<and> uint b < i + 1 + int k then null_block be else contents d1 b)" by blast
  have "b = of_int i \<longleftrightarrow> uint b = i" for b :: bno using u by (metis word_of_int_uint)
  then have "contents d2 = (\<lambda>b. if i \<le> uint b \<and> uint b < i + int (Suc k) then null_block be else contents d b)"
    unfolding d2(3) d1(3) by (auto simp: fun_eq_iff)
  with d1 d2 show ?case by simp
qed

text \<open>
  \<open>setup_freebitmapblocks\<close> zeroes the blocks from \<open>next_free\<close> to the number of bitmap blocks, not the bitmap
  blocks themselves.
\<close>

lemma setup_ok:
  assumes d: "ok d" and nb: "int nb = uint nblocks" "uint next_free \<le> uint nblocks" "uint nblocks < 2 ^ 31" "0 < uint nblocks"
    and B: "0 < BLOCK_SIZE be" and f: "f = (uint nblocks - uint next_free) div (1 + int (BLOCK_SIZE be) * 8)"
  shows "\<exists>d'. setup_freebitmapblocks be next_free nblocks d = (of_int f, d') \<and> ok d' \<and>
    contents d' = (\<lambda>b. if uint next_free \<le> uint b \<and> uint b \<le> f then null_block be else contents d b)"
proof -
  have df: "uint (nblocks - next_free) = uint nblocks - uint next_free"
    using nb(2) by (simp add: uint_sub_if_size)
  have K: "sint (nblocks - next_free) = uint nblocks - uint next_free"
  proof -
    have "uint nblocks - uint next_free < 2 ^ 31" "0 \<le> uint nblocks - uint next_free"
      using nb(2,3) uint_ge_0 [of next_free] by linarith+
    then show ?thesis by (subst sint_uint) (simp add: signed_take_bit_int_eq_self_iff df)
  qed
  have fK: "0 \<le> f" "f < uint nblocks"
  proof -
    show "0 \<le> f" unfolding f using nb(2) by (intro pos_imp_zdiv_nonneg_iff [THEN iffD2]) simp_all
    have "f * (1 + int (BLOCK_SIZE be) * 8) \<le> uint nblocks - uint next_free" unfolding f
      by (rule order_trans [OF _ order_refl]) (simp add: minus_mod_eq_div_mult [symmetric])
    moreover have "f * 2 \<le> f * (1 + int (BLOCK_SIZE be) * 8)" using \<open>0 \<le> f\<close> B by (intro mult_left_mono) simp_all
    ultimately show "f < uint nblocks" using nb(4) uint_ge_0 [of next_free] by linarith
  qed
  have un: "uint (of_int f :: bno) = f" using fK nb(3) by (simp add: uint_word_of_int take_bit_int_eq_self)
  define k where "k = nat (f + 1 - uint next_free)"
  have "uint next_free + int k \<le> int nb" using fK nb(1,2) by (simp add: k_def)
  moreover have "int nb < 2147483648" using nb(1,3) by simp
  then have "nb \<le> 2 ^ 32" by simp
  ultimately obtain d' where d': "zero_blocks be k (uint next_free) d = (True, d')" "ok d'"
     "contents d' = (\<lambda>b. if uint next_free \<le> uint b \<and> uint b < uint next_free + int k then null_block be else contents d b)"
    using zero_blocks_ok [OF d, of "uint next_free" k] by auto
  have "cdiv (uint nblocks - uint next_free) (1 + int (BLOCK_SIZE be) * 8) = f"
    using nb(2) by (simp add: f)
  then have "setup_freebitmapblocks be next_free nblocks d = (of_int f, d')"
    using d'(1) un by (simp add: setup_freebitmapblocks_def K Let_def k_def)
  moreover have "contents d' = (\<lambda>b. if uint next_free \<le> uint b \<and> uint b \<le> f then null_block be else contents d b)"
    unfolding d'(3) by (auto simp: fun_eq_iff k_def)
  ultimately show ?thesis using d'(2) by blast
qed

text \<open>The loop of \<open>ufsdisk_setsize\<close> on a file with direct blocks only.\<close>

lemma free_direct:
  assumes d: "ok d" and fs: "fs_ok be nb (contents d) ino" and us: "below us = Some be" "inode_no us = ino"
    and b: "b = fs_stop (contents d) + of_nat off" "off < 8 * BLOCK_SIZE be * unat (n_freebitmapblocks (contents d 0))"
      "unat (fs_stop (contents d)) + off < nb"
  shows "\<exists>n' d'. recurse_helper junk us be 0 b n d = (0, n', d') \<and> ok d' \<and> contents d' 0 = contents d 0"
proof (cases "n = 0")
  case True
  then show ?thesis using d by simp
next
  case False
  note db = data_block [OF fs b(3), folded b(1)]
  have "length (null_block be) = BLOCK_SIZE be" by (simp add: null_block_def)
  moreover have "unat b < nb" using db(1) b(3) by simp
  ultimately obtain d1 where d1: "bi_write be d b (null_block be) = (0, d1)" "ok d1" "contents d1 = (contents d)(b := null_block be)"
    using d write_returns by metis
  have c0: "contents d1 0 = contents d 0" using d1(3) db(3) by simp
  then have same: "fs_ok be nb (contents d1) ino" "fs_stop (contents d1) = fs_stop (contents d)"
    using fs by (simp_all add: fs_ok_def fs_stop_def fs_start_def)
  obtain d2 where d2: "set_block_free junk us b d1 = (0, d2)" "ok d2"
    "contents d2 = (contents d1)(bitmap_block be (contents d1) off :=
      (let blk = contents d1 (bitmap_block be (contents d1) off) in
       blk[bitmap_byte be off := blk ! bitmap_byte be off XOR drop_bit (off mod 8) 128]))"
    using set_block_free_ok [OF d1(2) same(1) us, of off junk] b c0 db(2) same(2) by auto
  have x: "off div (BLOCK_SIZE be * 8) < unat (n_freebitmapblocks (contents d1 0))"
    using b(2) c0 by (simp add: less_mult_imp_div_less mult.commute mult.left_commute)
  then have "bitmap_block be (contents d1) off \<noteq> 0"
    using fs_blocks(7) [OF same(1) x] by (auto simp: bitmap_block_def)
  then have "contents d2 0 = contents d 0" using d2(3) c0 by simp
  then show ?thesis using False d1 d2 by simp
qed

lemma setsize_direct:
  assumes d: "ok d" and fs: "fs_ok be nb (contents d) ino" and us: "below us = Some be" "inode_no us = ino"
    and direct: "direct_file be nb (contents d) (contents d (iblock be ino)) (islot be ino)"
    and size: "nblocks \<noteq> inode_nblocks (contents d (iblock be ino)) (islot be ino)"
  shows "\<exists>d'. ufsdisk_setsize junk (Some us) nblocks d = (0, d') \<and> ok d' \<and> contents d' 0 = contents d 0 \<and>
    contents d' (iblock be ino) = set_inode_nblocks (contents d (iblock be ino)) (islot be ino) 0"
proof -
  let ?sn = "\<lparr>superblock = contents d 0, inodeblock = contents d (iblock be ino), inode_blockno = iblock be ino, inode = islot be ino\<rparr>"
  have loop: "\<exists>n' d'. foldl (setsize_step junk us be ?sn) (n, d1) ks = (n', d') \<and> ok d' \<and> contents d' 0 = contents d 0"
    if "ok d1" "contents d1 0 = contents d 0" "set ks \<subseteq> {..<REFS_PER_INODE}" for ks n d1
    using that
  proof (induction ks arbitrary: n d1)
    case Nil
    then show ?case by simp
  next
    case (Cons k ks)
    have "\<exists>n' d'. setsize_step junk us be ?sn (n, d1) k = (n', d') \<and> ok d' \<and> contents d' 0 = contents d 0"
    proof (cases "inode_ref (contents d (iblock be ino)) (islot be ino) k = 0")
      case True
      then show ?thesis using Cons.prems
        by (cases "k = REFS_PER_INODE - 2"; cases "k = REFS_PER_INODE - 3"; cases "k < REFS_PER_INODE - 3")
          (auto simp: setsize_step_def Let_def simp del: recurse_helper.simps)
    next
      case False
      then obtain off where o: "k < 12" "off < 8 * BLOCK_SIZE be * unat (n_freebitmapblocks (contents d 0))"
        "inode_ref (contents d (iblock be ino)) (islot be ino) k = fs_stop (contents d) + of_nat off"
        "unat (fs_stop (contents d)) + off < nb"
        using direct Cons.prems(3) by (auto simp: direct_file_def)
      have same: "fs_ok be nb (contents d1) ino" "fs_stop (contents d1) = fs_stop (contents d)"
        using fs Cons.prems(2) by (simp_all add: fs_ok_def fs_stop_def fs_start_def)
      obtain n' d' where "recurse_helper junk us be 0 (fs_stop (contents d) + of_nat off) n d1 = (0, n', d')" "ok d'"
        "contents d' 0 = contents d1 0"
        using free_direct [OF Cons.prems(1) same(1) us, of "fs_stop (contents d) + of_nat off" off junk n] o same(2) Cons.prems(2) by auto
      then show ?thesis using o False Cons.prems(2)
        by (simp add: setsize_step_def Let_def REFS_PER_INODE_def del: recurse_helper.simps)
    qed
    then show ?case using Cons.IH Cons.prems(3) by auto
  qed
  obtain n' d1 where d1: "foldl (setsize_step junk us be ?sn) (sint (inode_nblocks (contents d (iblock be ino)) (islot be ino)), d) [0..<REFS_PER_INODE] = (n', d1)"
    "ok d1" "contents d1 0 = contents d 0" using loop [OF d refl, of "[0..<REFS_PER_INODE]"] by force
  define ib where "ib = set_inode_nblocks (contents d (iblock be ino)) (islot be ino) 0"
  have "length ib = BLOCK_SIZE be" using size_ok [OF d fs_blocks(3) [OF fs]] by (simp add: ib_def)
  with d1(2) fs_blocks(3) [OF fs] obtain d2 where d2: "bi_write be d1 (iblock be ino) ib = (0, d2)" "ok d2"
    "contents d2 = (contents d1)(iblock be ino := ib)" by (rule write_returns)
  have "ufsdisk_setsize junk (Some us) nblocks d = (0, d2)"
    using snapshot_ok [OF d fs] us size d1(1) d2(1) by (simp add: ufsdisk_setsize_def Let_def ib_def)
  then show ?thesis using d2 d1(3) fs_blocks(4) [OF fs] by (simp add: ib_def)
qed

end

section \<open>Stores in memory and stores on top of stores\<close>

text \<open>A store of \<open>n\<close> blocks of \<open>B\<close> bytes kept in memory: an instance of the argument of this theory.\<close>

definition ram_if :: "nat \<Rightarrow> int \<Rightarrow> (bno \<Rightarrow> block) block_if" where
  "ram_if B n = \<lparr>BLOCK_SIZE = B, bi_nblocks = (\<lambda>d. n), bi_read = (\<lambda>d b buf. (0, d b)), bi_write = (\<lambda>d b w. (0, d(b := w)))\<rparr>"

definition ram_ok :: "nat \<Rightarrow> nat \<Rightarrow> (bno \<Rightarrow> block) \<Rightarrow> bool" where
  "ram_ok B nb d \<longleftrightarrow> (\<forall>b. unat b < nb \<longrightarrow> length (d b) = B)"

interpretation ram: block_store "ram_if B n" "ram_ok B nb" nb "\<lambda>d. d" for B n nb
  by unfold_locales (auto simp: ram_if_def ram_ok_def)

text \<open>
  The interface \<open>ufsdisk_init\<close> fills in, for a file opened on a store. A fault of the read or write is
  reported as a failure.
\<close>

definition ufs_if :: "block \<Rightarrow> bno \<Rightarrow> 'd ufs_state \<Rightarrow> nat \<Rightarrow> 'd block_if" where
  "ufs_if junk jn us B = \<lparr>BLOCK_SIZE = B, bi_nblocks = ufsdisk_nblocks junk (Some us),
     bi_read = (\<lambda>d off buf. case ufsdisk_read junk (Some us) off buf d of Inr r \<Rightarrow> r | Inl e \<Rightarrow> (-1, buf)),
     bi_write = (\<lambda>d off w. case ufsdisk_write junk jn us off w d of Inr r \<Rightarrow> r | Inl e \<Rightarrow> (-1, d))\<rparr>"

text \<open>The first \<open>m\<close> blocks of the file are allocated, to different blocks that hold no metadata.\<close>

definition allocated :: "'d block_if \<Rightarrow> nat \<Rightarrow> (bno \<Rightarrow> block) \<Rightarrow> 32 word \<Rightarrow> nat \<Rightarrow> bool" where
  "allocated be nb c ino m \<longleftrightarrow> fs_ok be nb c ino \<and> m \<le> 12 \<and> m \<le> unat (inode_nblocks (c (iblock be ino)) (islot be ino)) \<and>
     (\<forall>k<m. let b = inode_ref (c (iblock be ino)) (islot be ino) k in b \<noteq> 0 \<and> b \<noteq> iblock be ino \<and> unat b < nb) \<and>
     inj_on (inode_ref (c (iblock be ino)) (islot be ino)) {..<m}"

definition file_block :: "'d block_if \<Rightarrow> (bno \<Rightarrow> block) \<Rightarrow> 32 word \<Rightarrow> nat \<Rightarrow> bno \<Rightarrow> block" where
  "file_block be c ino m off =
     (if unat off < m then c (inode_ref (c (iblock be ino)) (islot be ino) (unat off)) else [])"

context block_store
begin

lemma file_is_store:
  assumes us: "below us = Some be" "inode_no us = ino"
  shows "block_store (ufs_if junk jn us (BLOCK_SIZE be)) (\<lambda>d. ok d \<and> allocated be nb (contents d) ino m) m
    (\<lambda>d. file_block be (contents d) ino m)"
proof
  fix d and b :: bno and buf :: block assume d: "ok d \<and> allocated be nb (contents d) ino m" and b: "unat b < m"
  let ?r = "inode_ref (contents d (iblock be ino)) (islot be ino) (unat b)"
  have a: "fs_ok be nb (contents d) ino" "unat b < 12" "unat ?r < nb" "?r \<noteq> 0"
    "b \<le> inode_nblocks (contents d (iblock be ino)) (islot be ino)"
    using d b by (auto simp: allocated_def Let_def word_le_nat_alt)
  show "bi_read (ufs_if junk jn us (BLOCK_SIZE be)) d b buf = (0, file_block be (contents d) ino m b)"
    using read_direct [OF _ a(1) us a(2,5) refl a(3), of junk buf] d a(4) b by (simp add: ufs_if_def file_block_def)
  show "length (file_block be (contents d) ino m b) = BLOCK_SIZE (ufs_if junk jn us (BLOCK_SIZE be))"
    using size_ok d a(3) b by (simp add: file_block_def ufs_if_def)
next
  fix d and b :: bno and w :: block assume d: "ok d \<and> allocated be nb (contents d) ino m" and b: "unat b < m"
    and w: "length w = BLOCK_SIZE (ufs_if junk jn us (BLOCK_SIZE be))"
  let ?r = "\<lambda>k. inode_ref (contents d (iblock be ino)) (islot be ino) k"
  have a: "fs_ok be nb (contents d) ino" "unat b < 12" "unat (?r (unat b)) < nb" "?r (unat b) \<noteq> 0" "?r (unat b) \<noteq> iblock be ino"
    "inj_on ?r {..<m}" using d b by (auto simp: allocated_def Let_def)
  have wl: "length w = BLOCK_SIZE be" using w by (simp add: ufs_if_def)
  have od: "ok d" using d by simp
  have "\<exists>d'. ufsdisk_write junk jn us b w d = Inr (0, d') \<and> ok d' \<and> contents d' = (contents d)(?r (unat b) := w)"
    by (rule write_direct_old [OF od a(1) us a(2) wl]) (use a(3,4) in simp_all)
  then obtain d' where d': "ufsdisk_write junk jn us b w d = Inr (0, d')" "ok d'" "contents d' = (contents d)(?r (unat b) := w)" by blast
  have meta: "contents d' 0 = contents d 0" "contents d' (iblock be ino) = contents d (iblock be ino)"
    using d'(3) a(4,5) by (auto simp: fun_upd_def)
  have "allocated be nb (contents d') ino m" using d meta by (simp add: allocated_def fs_ok_def)
  moreover have "file_block be (contents d') ino m = (file_block be (contents d) ino m)(b := w)"
  proof
    fix x
    have "?r (unat x) = ?r (unat b) \<longleftrightarrow> x = b" if "unat x < m"
      using inj_on_eq_iff [OF a(6), of "unat x" "unat b"] that b by (simp add: word_unat_eq_iff)
    then show "file_block be (contents d') ino m x = ((file_block be (contents d) ino m)(b := w)) x"
      using b by (simp only: file_block_def meta) (auto simp: d'(3) file_block_def)
  qed
  ultimately show "\<exists>d'. bi_write (ufs_if junk jn us (BLOCK_SIZE be)) d b w = (0, d') \<and>
      (ok d' \<and> allocated be nb (contents d') ino m) \<and>
      file_block be (contents d') ino m = (file_block be (contents d) ino m)(b := w)"
    using d'(1,2) by (simp add: ufs_if_def)
qed

end

text \<open>A file on a store in memory is again a store.\<close>

interpretation ufs_on_ram: block_store "ufs_if junk jn \<lparr>below = Some (ram_if B n), inode_no = ino\<rparr> B"
    "\<lambda>d. ram_ok B nb d \<and> allocated (ram_if B n) nb d ino m" m "\<lambda>d. file_block (ram_if B n) d ino m"
  for junk jn B n ino nb m
  using ram.file_is_store [of "\<lparr>below = Some (ram_if B n), inode_no = ino\<rparr>" B n ino junk jn nb m]
  by (simp add: ram_if_def)

section \<open>Properties\<close>

lemma full_byte_bit: "p < 8 \<Longrightarrow> busy (v OR drop_bit p 128) p"
  using full_byte [of 255 p] by (auto simp: busy_def bit.conj_disj_distrib2)

lemma flip_bit:
  "\<not> busy v p \<Longrightarrow> (v OR drop_bit p 128) XOR drop_bit p 128 = v"
proof -
  assume "\<not> busy v p"
  then have "v AND drop_bit p 128 = 0" by (simp add: busy_def)
  then have "\<not> (bit v n \<and> bit (drop_bit p 128 :: byte) n)" for n by (metis bit_and_iff bit_0_eq bot_apply bot_bool_def)
  then show ?thesis by (intro bit_word_eqI) (auto simp: bit_or_iff bit_xor_iff)
qed


text \<open>
  C33: allocating a block picks one whose bit is clear and sets exactly that bit; freeing the block
  restores the bitmap. Only when every bit is set does the allocator fail, and then nothing changes.
\<close>

theorem ufs_alloc_free:
  assumes store: "block_store be ok nb contents" and d: "ok d" and fs: "fs_ok be nb (contents d) ino"
    and us: "us = \<lparr>below = Some be, inode_no = ino\<rparr>" and w: "length w = BLOCK_SIZE be"
    and room: "unat (fs_stop (contents d)) + 8 * BLOCK_SIZE be * unat (n_freebitmapblocks (contents d 0)) \<le> nb"
  shows "(\<forall>off < 8 * BLOCK_SIZE be * unat (n_freebitmapblocks (contents d 0)). in_use be (contents d) off) \<and>
       write_next_free_block junk us w jn d = (-1, jn, d) \<or>
     (\<exists>off d1 d2. off < 8 * BLOCK_SIZE be * unat (n_freebitmapblocks (contents d 0)) \<and> \<not> in_use be (contents d) off \<and>
       write_next_free_block junk us w jn d = (0, fs_stop (contents d) + of_nat off, d1) \<and> in_use be (contents d1) off \<and>
       set_block_free junk us (fs_stop (contents d) + of_nat off) d1 = (0, d2) \<and>
       contents d2 = (contents d)(fs_stop (contents d) + of_nat off := w))"
proof -
  let ?c = "contents d"
  let ?n = "8 * BLOCK_SIZE be * unat (n_freebitmapblocks (?c 0))"
  have usf: "below us = Some be" "inode_no us = ino" by (simp_all add: us)
  from block_store.alloc_ok [OF store d fs usf, of junk w jn] show ?thesis
  proof (elim disjE conjE exE)
    assume "write_next_free_block junk us w jn d = (-1, jn, d)" "\<forall>off<?n. in_use be ?c off"
    then show ?thesis by blast
  next
    fix off
    assume off: "off < ?n" "\<not> in_use be ?c off" and a: "unat (fs_stop ?c + of_nat off) < nb \<longrightarrow> length w = BLOCK_SIZE be \<longrightarrow>
         (\<exists>d'. write_next_free_block junk us w jn d = (0, fs_stop ?c + of_nat off, d') \<and> ok d' \<and>
            contents d' = ?c(bitmap_block be ?c off := mark be ?c off, fs_stop ?c + of_nat off := w))"
    have lt: "unat (fs_stop ?c) + off < nb" using off(1) room by linarith
    note db = data_block [OF fs lt] and bb = bitmap_block_place [OF fs off(1)]
    have "unat (fs_stop ?c + of_nat off) < nb" using db(1) lt by simp
    with a w obtain d1 where d1: "write_next_free_block junk us w jn d = (0, fs_stop ?c + of_nat off, d1)" "ok d1"
      "contents d1 = ?c(bitmap_block be ?c off := mark be ?c off, fs_stop ?c + of_nat off := w)" by blast
    have ne: "bitmap_block be ?c off \<noteq> fs_stop ?c + of_nat off" using bb(3) db(1) by (auto simp: word_unat_eq_iff)
    have c0: "contents d1 0 = ?c 0" using bb(1) db(3) by (simp add: d1(3))
    then have same: "fs_ok be nb (contents d1) ino" "fs_stop (contents d1) = fs_stop ?c" "bitmap_block be (contents d1) off = bitmap_block be ?c off"
      using fs by (simp_all add: fs_ok_def fs_stop_def fs_start_def bitmap_block_def)
    have cb: "contents d1 (bitmap_block be ?c off) = mark be ?c off" using ne by (simp add: d1(3))
    have "unat (bitmap_block be ?c off) < nb" using bb(3) fs_blocks(6) [OF fs] fs by (simp add: fs_ok_def)
    then have "length (?c (bitmap_block be ?c off)) = BLOCK_SIZE be" using block_store.size_ok [OF store d] by simp
    moreover have "0 < BLOCK_SIZE be" using off(1) by (cases "BLOCK_SIZE be") auto
    ultimately have j: "bitmap_byte be off < length (?c (bitmap_block be ?c off))" by (simp add: bitmap_byte_def)
    have used: "in_use be (contents d1) off"
      using j full_byte_bit by (simp add: in_use_def same(3) cb mark_def Let_def)
    have o1: "off < 8 * BLOCK_SIZE be * unat (n_freebitmapblocks (contents d1 0))" using off(1) c0 by simp
    obtain d2 where d2: "set_block_free junk us (fs_stop ?c + of_nat off) d1 = (0, d2)"
      "contents d2 = (contents d1)(bitmap_block be ?c off :=
      (let blk = contents d1 (bitmap_block be ?c off) in
       blk[bitmap_byte be off := blk ! bitmap_byte be off XOR drop_bit (off mod 8) 128]))"
      using block_store.set_block_free_ok [OF store d1(2) same(1) usf o1 db(2), of junk] same by auto
    have "(let blk = mark be ?c off in blk[bitmap_byte be off := blk ! bitmap_byte be off XOR drop_bit (off mod 8) 128]) =
        ?c (bitmap_block be ?c off)"
      using j flip_bit off(2) by (simp add: mark_def Let_def in_use_def)
    then have "contents d2 = ?c(fs_stop ?c + of_nat off := w)"
      using ne unfolding d2(2) cb d1(3) by (auto simp: fun_eq_iff)
    with off d1(1) used d2(1) show ?thesis by blast
  qed
qed

text \<open>
  Changing the size of a file of direct blocks, to whatever size, makes it empty but leaves
  its block pointers: they point at blocks that are marked free now. A later write goes to such a block
  without allocating it, and what it wrote cannot be read, since the size is still zero.
\<close>

theorem ufs_setsize_dangles:
  assumes store: "block_store be ok nb contents" and d: "ok d" and fs: "fs_ok be nb (contents d) ino"
    and us: "us = \<lparr>below = Some be, inode_no = ino\<rparr>"
    and direct: "direct_file be nb (contents d) (contents d (iblock be ino)) (islot be ino)"
    and size: "nblocks \<noteq> inode_nblocks (contents d (iblock be ino)) (islot be ino)"
    and off: "0 < unat offset" "unat offset < 12" "inode_ref (contents d (iblock be ino)) (islot be ino) (unat offset) = b" "b \<noteq> 0"
    and w: "length w = BLOCK_SIZE be"
  shows "\<exists>d1 d2. ufsdisk_setsize junk (Some us) nblocks d = (0, d1) \<and> ufsdisk_nblocks junk (Some us) d1 = 0 \<and>
    ufsdisk_write junk jn us offset w d1 = Inr (0, d2) \<and> contents d2 = (contents d1)(b := w) \<and>
    ufsdisk_read junk (Some us) offset buf d2 = Inr (-1, buf)"
proof -
  have usf: "below us = Some be" "inode_no us = ino" by (simp_all add: us)
  obtain d1 where d1: "ufsdisk_setsize junk (Some us) nblocks d = (0, d1)" "ok d1" "contents d1 0 = contents d 0"
    "contents d1 (iblock be ino) = set_inode_nblocks (contents d (iblock be ino)) (islot be ino) 0"
    using block_store.setsize_direct [OF store d fs usf direct size] by blast
  have fs1: "fs_ok be nb (contents d1) ino" using fs d1(3) by (simp add: fs_ok_def)
  have len: "INODE_SIZE * islot be ino + INODE_SIZE \<le> length (contents d (iblock be ino))"
    using block_store.slot_fits [OF store fs] block_store.size_ok [OF store d fs_blocks(3) [OF fs]] by simp
  have n0: "inode_nblocks (contents d1 (iblock be ino)) (islot be ino) = 0" using len d1(4) by simp
  have ref: "b = inode_ref (contents d1 (iblock be ino)) (islot be ino) (unat offset)"
    using off d1(4) by (simp add: REFS_PER_INODE_def)
  have "unat offset < REFS_PER_INODE" using off(2) by (simp add: REFS_PER_INODE_def)
  then obtain o1 where o1: "b = fs_stop (contents d) + of_nat o1" "unat (fs_stop (contents d)) + o1 < nb"
    using direct off(3,4) unfolding direct_file_def by blast
  note db = data_block [OF fs o1(2), folded o1(1)]
  have "unat b < nb" using db(1) o1(2) by simp
  from block_store.write_direct_old [OF store d1(2) fs1 usf off(2) w ref this off(4), of junk jn]
  obtain d2 where d2: "ufsdisk_write junk jn us offset w d1 = Inr (0, d2)" "ok d2" "contents d2 = (contents d1)(b := w)" by blast
  have c2: "contents d2 0 = contents d1 0" "contents d2 (iblock be ino) = contents d1 (iblock be ino)"
    using db(3,4) by (auto simp: d2(3))
  have fs2: "fs_ok be nb (contents d2) ino" using fs1 c2 by (simp add: fs_ok_def)
  have "ufsdisk_nblocks junk (Some us) d1 = 0"
    using block_store.snapshot_ok [OF store d1(2) fs1] usf n0 by (simp add: ufsdisk_nblocks_def)
  moreover have "ufsdisk_read junk (Some us) offset buf d2 = Inr (-1, buf)"
    using block_store.snapshot_ok [OF store d2(2) fs2] usf n0 c2 off(1)
    by (simp add: ufsdisk_read_def word_less_nat_alt)
  ultimately show ?thesis using d1(1) d2(1,3) by blast
qed

text \<open>
  Creating a file system writes the superblock with the number of inode blocks and a bitmap
  size, and clears the inode blocks. Of the blocks behind the inode blocks only those up to the block
  whose number is the bitmap size are cleared, so the bitmap keeps its old contents from there on.
\<close>

theorem ufs_create_layout:
  assumes store: "block_store be ok nb contents" and d: "ok d" and nb: "bi_nblocks be d = int nb" "nb < 2 ^ 31"
    and B: "INODE_SIZE \<le> BLOCK_SIZE be" and nib: "nib = (unat n_inodes + INODES_PER_BLOCK be - 1) div INODES_PER_BLOCK be" "nib + 2 \<le> nb"
    and f: "f = (int nb - int nib - 1) div (1 + int (BLOCK_SIZE be) * 8)"
  shows "\<exists>d'. ufsdisk_create be n_inodes magic d = (0, d') \<and> ok d' \<and> magic_number (contents d' 0) = magic \<and>
    unat (n_inodeblocks (contents d' 0)) = nib \<and> int (unat (n_freebitmapblocks (contents d' 0))) = f \<and>
    (\<forall>b. 0 < unat b \<and> unat b \<le> nib \<longrightarrow> contents d' b = null_block be) \<and>
    (\<forall>b. nib < unat b \<longrightarrow> contents d' b = (if int (unat b) \<le> f then null_block be else contents d b))"
proof -
  have lt: "nib < 2 ^ 32" "nib + 1 < 2 ^ 32" "nib + 2 < 2 ^ 32" "nb < 2 ^ 32" using nib(2) nb(2) by simp_all
  have u: "uint (of_nat (nib + 1) :: bno) = int (nib + 1)" "uint (of_nat nb :: bno) = int nb"
    "unat (of_nat nib :: bno) = nib" "unat (of_nat (nib + 2) :: bno) = nib + 2"
    unfolding uint_nat using lt by (simp_all only: unat_small)
  have n2: "(of_nat nib + 2 :: bno) = of_nat (nib + 2)" by simp
  have prems: "int nb = uint (of_nat nb :: bno)" "uint (of_nat (nib + 1) :: bno) \<le> uint (of_nat nb :: bno)"
    "uint (of_nat nb :: bno) < 2 ^ 31" "0 < uint (of_nat nb :: bno)"
    using u nib(2) nb(2) by (simp_all del: of_nat_Suc of_nat_add)
  have f': "f = (uint (of_nat nb :: bno) - uint (of_nat (nib + 1) :: bno)) div (1 + int (BLOCK_SIZE be) * 8)"
    unfolding u f by (simp add: algebra_simps)
  have "0 < BLOCK_SIZE be" using B by (simp add: INODE_SIZE_def)
  from block_store.setup_ok [OF store d prems this f'] obtain d1 where d1:
    "setup_freebitmapblocks be (of_nat (nib + 1)) (of_nat nb) d = (of_int f, d1)" "ok d1"
    "contents d1 = (\<lambda>b. if uint (of_nat (nib + 1) :: bno) \<le> uint b \<and> uint b \<le> f then null_block be else contents d b)" by blast
  define sb where "sb = set_field (set_field (set_field (null_block be) 0 magic) 4 (of_nat nib)) 8 (of_int f)"
  have "length sb = BLOCK_SIZE be" by (simp add: sb_def null_block_def)
  moreover have "unat (0 :: bno) < nb" using nib(2) by simp
  ultimately obtain d2 where d2: "bi_write be d1 0 sb = (0, d2)" "ok d2" "contents d2 = (contents d1)(0 := sb)"
    using block_store.write_ok [OF store d1(2)] by blast
  have "(1 :: int) + int nib \<le> int nb" "nb \<le> 2 ^ 32" using nib(2) lt(4) by simp_all
  from block_store.zero_blocks_ok [OF store d2(2) _ this] obtain d3 where d3: "zero_blocks be nib 1 d2 = (True, d3)" "ok d3"
    "contents d3 = (\<lambda>b. if 1 \<le> uint b \<and> uint b < 1 + int nib then null_block be else contents d2 b)" by auto
  have "\<not> (of_int (int nb) :: bno) < of_nat nib + 2"
    using u(4) unat_small [OF lt(4)] nib(2) unfolding n2 word_less_nat_alt by simp
  then have run: "ufsdisk_create be n_inodes magic d = (0, d3)"
    using d1(1) d2(1) d3(1) u(3) unfolding ufsdisk_create_def Let_def nib(1) [symmetric]
    by (simp add: nb(1) sb_def add.commute)
  have c0: "contents d3 0 = sb" by (simp add: d3(3) d2(3))
  have fr: "0 \<le> f" "f < 2 ^ 32"
  proof -
    show "0 \<le> f" unfolding f using nib(2) by (intro pos_imp_zdiv_nonneg_iff [THEN iffD2]) simp_all
    have "f \<le> int nb - int nib - 1" using zdiv_mono2 [of "int nb - int nib - 1" 1 "1 + int (BLOCK_SIZE be) * 8"] nib(2) by (simp add: f)
    then show "f < 2 ^ 32" using nb(2) by simp
  qed
  have len: "12 \<le> length (null_block be)" using B by (simp add: null_block_def INODE_SIZE_def)
  have "magic_number sb = magic" "n_inodeblocks sb = of_nat nib" "n_freebitmapblocks sb = of_int f"
    using len by (simp_all add: sb_def magic_number_def n_inodeblocks_def n_freebitmapblocks_def)
  moreover have "int (unat (of_int f :: bno)) = f" using fr by (simp add: uint_word_of_int take_bit_int_eq_self)
  moreover have "contents d3 b = null_block be" if "0 < unat b" "unat b \<le> nib" for b
  proof -
    have "1 \<le> uint b" "uint b < 1 + int nib" using that unfolding uint_nat by linarith+
    then show ?thesis by (simp add: d3(3))
  qed
  moreover have "contents d3 b = (if int (unat b) \<le> f then null_block be else contents d b)" if "nib < unat b" for b
  proof -
    have "b \<noteq> 0" using that by auto
    moreover have "int (nib + 1) \<le> uint b" "\<not> uint b < 1 + int nib" using that unfolding uint_nat by linarith+
    moreover have "uint (of_nat (Suc nib) :: bno) = int (Suc nib)" using u(1) unfolding Suc_eq_plus1 .
    ultimately show ?thesis by (simp add: d3(3) d2(3) d1(3) u(1) del: of_nat_add)
  qed
  ultimately show ?thesis using run d3(2) c0 u(3) by (intro exI [of _ d3]) simp
qed


section \<open>Examples\<close>

text \<open>A disk of 64-byte blocks with one inode block and one bitmap block, all free; and one with a file.\<close>

definition disk0 :: "bno \<Rightarrow> block" where
  "disk0 = (\<lambda>b. replicate 64 0)(0 := set_field (set_field (replicate 64 0) 4 1) 8 1)"

definition disk1 :: "bno \<Rightarrow> block" where
  "disk1 = disk0(1 := set_inode_nblocks (set_inode_ref (replicate 64 0) 0 1 3) 0 2)"

lemma field_zero [simp]: "off + 4 \<le> n \<Longrightarrow> field (replicate n 0) off = 0"
  by (simp add: field_def)

lemma disk_super: "n_inodeblocks (disk0 0) = 1" "n_freebitmapblocks (disk0 0) = 1" "disk1 0 = disk0 0"
  by (simp_all add: n_inodeblocks_def n_freebitmapblocks_def disk1_def disk0_def)

lemma ram_fields [simp]: "BLOCK_SIZE (ram_if B n) = B" "INODES_PER_BLOCK (ram_if 64 n) = 1"
  by (simp_all add: ram_if_def INODES_PER_BLOCK_def INODE_SIZE_def)

lemma disk_ok:
  "ram_ok 64 600 disk0" "ram_ok 64 600 disk1" "fs_ok (ram_if 64 600) 600 disk0 0" "fs_ok (ram_if 64 600) 600 disk1 0"
  "fs_stop disk0 = 3" "fs_stop disk1 = 3" "iblock (ram_if 64 600) 0 = 1" "islot (ram_if 64 600) 0 = 0"
  "\<not> in_use (ram_if 64 600) disk0 0"
  by (auto simp: ram_ok_def disk0_def disk1_def fs_ok_def disk_super [unfolded disk0_def] fs_stop_def fs_start_def
      n_inodeblocks_def n_freebitmapblocks_def iblock_def islot_def in_use_def busy_def bitmap_block_def bitmap_byte_def)

lemma disk1_file: "inode_ref (disk1 1) 0 1 = 3" "inode_nblocks (disk1 1) 0 = 2"
    "k < REFS_PER_INODE \<Longrightarrow> k \<noteq> 1 \<Longrightarrow> inode_ref (disk1 1) 0 k = 0"
    "k < REFS_PER_INODE \<Longrightarrow> inode_ref (disk0 1) 0 k = 0"
  by (simp_all add: disk1_def disk0_def INODE_SIZE_def REFS_PER_INODE_def inode_ref_def [of "replicate 64 0"])

section \<open>Witnesses\<close>

abbreviation (input) ram64 :: "(bno \<Rightarrow> block) block_if" where "ram64 \<equiv> ram_if 64 600"

lemma ram64_store: "block_store ram64 (ram_ok 64 600) 600 (\<lambda>d. d)"
  by (rule ram.block_store_axioms)


theorem ufs_alloc_free_witness:
  "\<exists>off d1 d2. \<not> in_use ram64 disk0 off \<and>
     write_next_free_block [] \<lparr>below = Some ram64, inode_no = 0\<rparr> (replicate 64 7) 0 disk0 = (0, 3 + of_nat off, d1) \<and>
     set_block_free [] \<lparr>below = Some ram64, inode_no = 0\<rparr> (3 + of_nat off) d1 = (0, d2) \<and>
     d2 = disk0(3 + of_nat off := replicate 64 7)"
  using ufs_alloc_free [OF ram64_store disk_ok(1,3) refl, of "replicate 64 7" "[]" 0] disk_ok(5,9) disk_super
  by auto

theorem ufs_setsize_dangles_witness:
  "\<exists>d1 d2. ufsdisk_setsize [] (Some \<lparr>below = Some ram64, inode_no = 0\<rparr>) 5 disk1 = (0, d1) \<and>
     ufsdisk_write [] 0 \<lparr>below = Some ram64, inode_no = 0\<rparr> 1 (replicate 64 7) d1 = Inr (0, d2) \<and>
     ufsdisk_read [] (Some \<lparr>below = Some ram64, inode_no = 0\<rparr>) 1 [] d2 = Inr (-1, [])"
proof -
  have "direct_file ram64 600 disk1 (disk1 1) 0"
    unfolding direct_file_def
  proof (intro allI impI)
    fix k assume k: "k < REFS_PER_INODE"
    show "inode_ref (disk1 1) 0 k = 0 \<or> k < 12 \<and> (\<exists>off < 8 * BLOCK_SIZE ram64 * unat (n_freebitmapblocks (disk1 0)).
       inode_ref (disk1 1) 0 k = fs_stop disk1 + of_nat off \<and> unat (fs_stop disk1) + off < 600)"
      using disk1_file(1) disk1_file(3) [OF k] disk_ok(6) disk_super by (cases "k = 1") (auto intro!: exI [of _ 0])
  qed
  from ufs_setsize_dangles [OF ram64_store disk_ok(2,4) refl, of 5 1 3 "replicate 64 7" "[]" 0 "[]"] this show ?thesis
    using disk1_file(1,2) disk_ok(7,8) by auto
qed

theorem ufs_create_layout_witness:
  "\<exists>d'. ufsdisk_create (ram_if 64 600) 1 0xEFE0 (\<lambda>b. replicate 64 255) = (0, d') \<and> n_freebitmapblocks (d' 0) = 1 \<and>
     d' 1 = replicate 64 0 \<and> d' 2 = replicate 64 255"
proof -
  have ok: "ram_ok 64 600 (\<lambda>b. replicate 64 255)" by (simp add: ram_ok_def)
  have n: "bi_nblocks ram64 (\<lambda>b. replicate 64 255) = int 600" by (simp add: ram_if_def)
  obtain d' where d': "ufsdisk_create ram64 1 0xEFE0 (\<lambda>b. replicate 64 255) = (0, d')"
    "int (unat (n_freebitmapblocks (d' 0))) = 1" "\<forall>b. 0 < unat b \<and> unat b \<le> 1 \<longrightarrow> d' b = null_block ram64"
    "\<forall>b. 1 < unat b \<longrightarrow> d' b = (if int (unat b) \<le> 1 then null_block ram64 else replicate 64 255)"
    using ufs_create_layout [OF ram64_store ok n, of 1 1 1 "0xEFE0"] by (auto simp: INODE_SIZE_def)
  have "d' 1 = null_block ram64" "d' 2 = replicate 64 255" using d'(3,4) by simp_all
  moreover have "n_freebitmapblocks (d' 0) = 1" using d'(2) by (metis int_eq_iff_numeral of_nat_1 of_nat_eq_iff unat_1 word_unat_eq_iff)
  ultimately show ?thesis using d'(1) by (simp add: null_block_def)
qed


end
