(* ===== verification/Cstring.thy ===== *)
theory Cstring
  imports Prelude "HOL-Library.Char_ord" "HOL-Library.List_Lexorder"
begin

text \<open>
  The C string functions the program calls, on strings without a terminating NUL: comparison, the
  search for a separator (\<open>index\<close> and \<open>rindex\<close>, together with the overwriting of the separator by NUL that
  follows them in this program), \<open>strtok\<close> with one separator, decimal output and \<open>atoi\<close>. Lists of
  characters carry the lexicographic order on character codes, which is the order of \<open>strcmp\<close>.
\<close>

section \<open>Comparison\<close>

fun strcmp :: "string \<Rightarrow> string \<Rightarrow> int" where
  "strcmp [] [] = 0"
| "strcmp [] (d # ds) = - 1"
| "strcmp (c # cs) [] = 1"
| "strcmp (c # cs) (d # ds) = (if c = d then strcmp cs ds else if c < d then - 1 else 1)"

lemma strcmp_sign: "strcmp s t < 0 \<longleftrightarrow> s < t" "strcmp s t > 0 \<longleftrightarrow> t < s" "strcmp s t = 0 \<longleftrightarrow> s = t"
  by (induction s t rule: strcmp.induct) (auto simp: less_le)

section \<open>Separators\<close>

text \<open>
  \<open>split_at c s\<close> is \<open>p = index(s, c); *p++ = 0\<close>: the string before the first \<open>c\<close> and the one
  after it; \<open>rsplit_at\<close> cuts at the last one.
\<close>

fun split_at :: "char \<Rightarrow> string \<Rightarrow> (string \<times> string) option" where
  "split_at c [] = None"
| "split_at c (x # xs) = (if x = c then Some ([], xs)
     else case split_at c xs of None \<Rightarrow> None | Some (a, b) \<Rightarrow> Some (x # a, b))"

definition rsplit_at :: "char \<Rightarrow> string \<Rightarrow> (string \<times> string) option" where
  "rsplit_at c s = map_option (\<lambda>(a, b). (rev b, rev a)) (split_at c (rev s))"

lemma split_at_append: "c \<notin> set a \<Longrightarrow> split_at c (a @ c # b) = Some (a, b)"
  by (induction a) auto

lemma split_at_None: "split_at c s = None \<longleftrightarrow> c \<notin> set s"
  by (induction s) (auto split: option.splits)

lemma rsplit_at_append: "c \<notin> set b \<Longrightarrow> rsplit_at c (a @ c # b) = Some (a, b)"
  using split_at_append [of c "rev b" "rev a"] by (simp add: rsplit_at_def)

fun pieces :: "char \<Rightarrow> string \<Rightarrow> string list" where
  "pieces c [] = [[]]"
| "pieces c (x # xs) = (if x = c then [] # pieces c xs
     else case pieces c xs of [] \<Rightarrow> [[x]] | p # ps \<Rightarrow> (x # p) # ps)"

definition strtok_all :: "char \<Rightarrow> string \<Rightarrow> string list" where
  "strtok_all c s = filter (\<lambda>p. p \<noteq> []) (pieces c s)"

lemma pieces_append: "c \<notin> set a \<Longrightarrow> pieces c (a @ c # b) = a # pieces c b"
  by (induction a) auto

lemma pieces_single: "c \<notin> set a \<Longrightarrow> pieces c a = [a]"
  by (induction a) auto

lemma strtok_all_append:
  "c \<notin> set a \<Longrightarrow> a \<noteq> [] \<Longrightarrow> strtok_all c (a @ c # b) = a # strtok_all c b"
  "strtok_all c (c # b) = strtok_all c b" "strtok_all c [] = []"
  by (simp_all add: strtok_all_def pieces_append)

section \<open>Decimal numbers\<close>

fun decimal :: "nat \<Rightarrow> string" where
  "decimal n = (if n < 10 then [char_of (48 + n)] else decimal (n div 10) @ [char_of (48 + n mod 10)])"

declare decimal.simps [simp del]

definition isdigit :: "char \<Rightarrow> bool" where
  "isdigit c = (48 \<le> (of_char c :: nat) \<and> (of_char c :: nat) \<le> 57)"

fun atoi_digits :: "int \<Rightarrow> string \<Rightarrow> int" where
  "atoi_digits acc [] = acc"
| "atoi_digits acc (c # cs) = (if isdigit c then atoi_digits (acc * 10 + int (of_char c - 48)) cs else acc)"

definition isspace :: "char \<Rightarrow> bool" where
  "isspace c = ((of_char c :: nat) = 32 \<or> 9 \<le> (of_char c :: nat) \<and> (of_char c :: nat) \<le> 13)"

definition atoi :: "string \<Rightarrow> int" where
  "atoi s = (case dropWhile isspace s of
       [] \<Rightarrow> 0
     | c # cs \<Rightarrow> if c = CHR ''-'' then - atoi_digits 0 cs else if c = CHR ''+'' then atoi_digits 0 cs else atoi_digits 0 (c # cs))"

lemma of_char_digit [simp]: "n < 10 \<Longrightarrow> (of_char (char_of (48 + n :: nat)) :: nat) = 48 + n"
  by simp

lemma isdigit_digit [simp]: "n < 10 \<Longrightarrow> isdigit (char_of (48 + n :: nat))"
  by (simp add: isdigit_def)

lemma decimal_digits: "c \<in> set (decimal n) \<Longrightarrow> isdigit c"
  by (induction n rule: decimal.induct) (subst (asm) (2) decimal.simps, auto split: if_splits)

lemma decimal_nonempty [simp]: "decimal n \<noteq> []"
  by (subst decimal.simps) simp

lemma atoi_digits_decimal: "atoi_digits 0 (decimal n @ s) = atoi_digits (int n) s"
proof (induction n arbitrary: s rule: decimal.induct)
  case (1 n)
  show ?case
  proof (cases "n < 10")
    case True
    then show ?thesis by (subst decimal.simps) simp
  next
    case False
    have "n div 10 * 10 + n mod 10 = n" by simp
    then have "int (n div 10) * 10 + int (n mod 10) = int n" by (metis of_nat_add of_nat_mult of_nat_numeral)
    with 1 [OF False] False show ?thesis by (subst decimal.simps) simp
  qed
qed

lemma atoi_decimal: "(s = [] \<or> \<not> isdigit (hd s)) \<Longrightarrow> atoi (decimal n @ s) = int n"
proof -
  assume s: "s = [] \<or> \<not> isdigit (hd s)"
  obtain c cs where c: "decimal n = c # cs" by (cases "decimal n") simp_all
  then have "isdigit c" using decimal_digits [of c n] by simp
  then have "\<not> isspace c" "c \<noteq> CHR ''-''" "c \<noteq> CHR ''+''" by (auto simp: isdigit_def isspace_def)
  then have "atoi (decimal n @ s) = atoi_digits 0 (decimal n @ s)" by (simp add: atoi_def c)
  also have "\<dots> = int n" using s atoi_digits_decimal [of n s] by (cases s) simp_all
  finally show ?thesis .
qed

lemma decimal_no: "\<not> isdigit c \<Longrightarrow> c \<notin> set (decimal n)"
  using decimal_digits by blast

lemma not_digit [simp]: "\<not> isdigit CHR '':''" "\<not> isdigit CHR ''/''" "\<not> isdigit CHR ''.''" "\<not> isdigit CHR '';''"
  by (simp_all add: isdigit_def)

lemma decimal_length: "n < 10 ^ k \<Longrightarrow> 0 < k \<Longrightarrow> length (decimal n) \<le> k"
proof (induction n arbitrary: k rule: decimal.induct)
  case (1 n)
  show ?case
  proof (cases "n < 10")
    case True
    then show ?thesis using 1(3) by (subst decimal.simps) simp
  next
    case False
    obtain j where j: "k = Suc j" using 1(3) by (cases k) auto
    have "0 < j" using False 1(2) j by (cases j) auto
    moreover have "n div 10 < 10 ^ j" using 1(2) j by (simp add: less_mult_imp_div_less mult.commute)
    ultimately have "length (decimal (n div 10)) \<le> j" using 1(1) [OF False] by blast
    then show ?thesis using False j by (subst decimal.simps) simp
  qed
qed

end
