(* ===== verification/Timer.thy ===== *)
theory Timer
  imports Prelude
begin

text \<open>
  \<open>P5/timer.c\<close>: the list of timers, kept in the order of their expiry times, and the check that runs the
  expired ones. Times are whole microseconds, the resolution of \<open>gettimeofday\<close>; the model leaves out
  the rounding of the \<open>double\<close> that the code keeps them in. A handler is what it does to the rest of
  the program's state, together with the timers it starts.
\<close>

section \<open>The timer list\<close>

record timer =
  expiry :: int
  handler_id :: nat
  handler_arg :: nat

fun timer_insert :: "timer \<Rightarrow> timer list \<Rightarrow> timer list" where
  "timer_insert n [] = [n]"
| "timer_insert n (t # ts) = (if expiry t > expiry n then n # t # ts else t # timer_insert n ts)"

definition timer_start :: "int \<Rightarrow> nat \<Rightarrow> nat \<Rightarrow> timer list \<Rightarrow> timer list" where
  "timer_start tm h a ts = timer_insert \<lparr>expiry = tm, handler_id = h, handler_arg = a\<rparr> ts"

type_synonym 'w handlers = "nat \<Rightarrow> nat \<Rightarrow> 'w \<Rightarrow> (int \<times> nat \<times> nat) list \<times> 'w"

fun start_all :: "(int \<times> nat \<times> nat) list \<Rightarrow> timer list \<Rightarrow> timer list" where
  "start_all [] ts = ts"
| "start_all ((w, h, a) # ns) ts = start_all ns (timer_start w h a ts)"

partial_function (option) timer_loop :: "'w handlers \<Rightarrow> int \<Rightarrow> timer list \<Rightarrow> 'w \<Rightarrow> (timer list \<times> 'w) option" where
  "timer_loop run now ts w = (case ts of
       [] \<Rightarrow> Some ([], w)
     | t # rest \<Rightarrow>
         if expiry t \<le> now then
           (let (started, w') = run (handler_id t) (handler_arg t) w
            in timer_loop run now (start_all started rest) w')
         else Some (ts, w))"

text \<open>The time until the next timer is a number of milliseconds, for \<open>poll\<close>.\<close>

definition timer_check :: "'w handlers \<Rightarrow> int \<Rightarrow> timer list \<Rightarrow> 'w \<Rightarrow> (int \<times> timer list \<times> 'w) option" where
  "timer_check run now ts w =
     (if ts = [] then Some (- 1, ts, w)
      else map_option (\<lambda>(ts', w'). (if ts' = [] then - 1 else cdiv (expiry (hd ts') - now) 1000, ts', w'))
             (timer_loop run now ts w))"

section \<open>Insertion\<close>

definition timer_entries :: "timer list \<Rightarrow> ((nat \<times> nat) \<times> int) list" where
  "timer_entries = map (\<lambda>t. ((handler_id t, handler_arg t), expiry t))"

lemma timer_entries_insert:
  "timer_entries (timer_insert t ts) = place (handler_id t, handler_arg t) (expiry t) (timer_entries ts)"
  by (induction ts) (auto simp: timer_entries_def place_def)

lemma timer_entries_eq: "timer_entries ts = timer_entries us \<Longrightarrow> ts = us"
  unfolding timer_entries_def by (erule map_injective) (auto intro!: injI)

interpretation timers: stable_insert "\<lambda>ts. True" timer_entries "\<lambda>x. True" "\<lambda>ts x k. Inr (timer_start k (fst x) (snd x) ts)"
  by unfold_locales (simp add: timer_start_def timer_entries_insert)

definition in_order :: "timer list \<Rightarrow> bool" where
  "in_order ts = sorted (map expiry ts)"

lemma in_order_entries: "in_order ts \<longleftrightarrow> sorted (map snd (timer_entries ts))"
  by (simp add: in_order_def timer_entries_def comp_def)

lemma timer_start_in_order: "in_order ts \<Longrightarrow> in_order (timer_start w h a ts)"
  using sorted_place by (simp add: in_order_entries timer_start_def timer_entries_insert)

lemma start_all_in_order: "in_order ts \<Longrightarrow> in_order (start_all ns ts)"
  by (induction ns ts rule: start_all.induct) (simp_all add: timer_start_in_order)

lemma start_all_later:
  "in_order ts \<Longrightarrow> \<forall>n\<in>set ns. now < fst n \<Longrightarrow>
   takeWhile (\<lambda>t. expiry t \<le> now) (start_all ns ts) = takeWhile (\<lambda>t. expiry t \<le> now) ts"
proof (induction ns ts rule: start_all.induct)
  case (2 w h a ns ts)
  have "takeWhile (\<lambda>t. expiry t \<le> now) (timer_insert n us) = takeWhile (\<lambda>t. expiry t \<le> now) us"
    if "now < expiry n" for n us
    using that by (induction us) auto
  with 2 show ?case by (simp add: timer_start_in_order) (simp add: timer_start_def)
qed simp

section \<open>The check\<close>

lemma timer_loop_ok:
  assumes "in_order ts" "\<forall>h a w n. n \<in> set (fst (run h a w)) \<longrightarrow> now < fst n"
  shows "\<exists>ts'. timer_loop run now ts w =
      Some (ts', fold (\<lambda>t w. snd (run (handler_id t) (handler_arg t) w)) (takeWhile (\<lambda>t. expiry t \<le> now) ts) w) \<and>
    in_order ts' \<and> (\<forall>t\<in>set ts'. now < expiry t)"
  using assms(1)
proof (induction "length (takeWhile (\<lambda>t. expiry t \<le> now) ts)" arbitrary: ts w)
  case 0
  then have "ts = [] \<or> now < expiry (hd ts)" by (cases ts) (auto split: if_splits)
  moreover have "\<forall>t\<in>set ts. expiry (hd ts) \<le> expiry t" using 0(2) by (cases ts) (auto simp: in_order_def)
  ultimately show ?case using 0 by (subst timer_loop.simps) (cases ts; force)
next
  case (Suc k)
  then obtain t rest where ts: "ts = t # rest" "expiry t \<le> now" "k = length (takeWhile (\<lambda>t. expiry t \<le> now) rest)"
    by (cases ts) (auto split: if_splits)
  obtain started w' where r: "run (handler_id t) (handler_arg t) w = (started, w')" by (cases "run (handler_id t) (handler_arg t) w")
  have late: "\<forall>n\<in>set started. now < fst n" using assms(2) r by (metis fst_conv)
  have ord: "in_order rest" using Suc.prems ts(1) by (simp add: in_order_def)
  note tw = start_all_later [OF ord late]
  from Suc.hyps(1) [of "start_all started rest" w'] ts(3) start_all_in_order [OF ord] tw ts(1,2) r
  show ?case by (subst timer_loop.simps) simp
qed

lemma timer_check_ok:
  assumes "in_order ts" "\<forall>h a w n. n \<in> set (fst (run h a w)) \<longrightarrow> now < fst n"
  shows "\<exists>r ts'. timer_check run now ts w =
      Some (r, ts', fold (\<lambda>t w. snd (run (handler_id t) (handler_arg t) w)) (filter (\<lambda>t. expiry t \<le> now) ts) w) \<and>
    in_order ts' \<and> (\<forall>t\<in>set ts'. now < expiry t) \<and> r = (if ts' = [] then - 1 else (expiry (hd ts') - now) div 1000)"
proof (cases "ts = []")
  case True
  then show ?thesis by (simp add: timer_check_def in_order_def)
next
  case False
  obtain ts' where ts': "timer_loop run now ts w =
      Some (ts', fold (\<lambda>t w. snd (run (handler_id t) (handler_arg t) w)) (takeWhile (\<lambda>t. expiry t \<le> now) ts) w)"
    "in_order ts'" "\<forall>t\<in>set ts'. now < expiry t"
    using timer_loop_ok [OF assms, of w] by blast
  have "takeWhile (\<lambda>t. expiry t \<le> now) ts = filter (\<lambda>t. expiry t \<le> now) ts"
    using assms(1) unfolding in_order_def
  proof (induction ts)
    case (Cons t ts)
    then show ?case by (cases "expiry t \<le> now") (auto simp: eq_commute [of "[]"] filter_empty_conv)
  qed simp
  moreover have "cdiv (expiry (hd ts') - now) 1000 = (expiry (hd ts') - now) div 1000" if "ts' \<noteq> []"
    using ts'(3) that by (intro cdiv_nonneg) (auto simp: less_imp_le)
  ultimately show ?thesis using ts' False by (auto simp: timer_check_def)
qed

section \<open>Properties\<close>

lemma insort_map_entry:
  "insort_key snd (x, w) (map (\<lambda>(w, x). (x, w)) ns) = map (\<lambda>(w, x). (x, w)) (insort_key fst (w, x) ns)"
  by (induction ns) auto

text \<open>
  Starting any sequence of timers gives the list sorted by expiry time, timers of the same time in the
  order in which they were started.
\<close>

theorem timers_sorted:
  "start_all ns [] = map (\<lambda>(w, h, a). \<lparr>expiry = w, handler_id = h, handler_arg = a\<rparr>) (sort_key fst ns)"
proof -
  have run: "insert_all (\<lambda>ts x k. Inr (timer_start k (fst x) (snd x) ts)) ts (map (\<lambda>(w, h, a). ((h, a), w)) ns) = Inr (start_all ns ts)" for ts
    by (induction ns ts rule: start_all.induct) simp_all
  have "timer_entries (start_all ns []) = sort_key snd (map (\<lambda>(w, h, a). ((h, a), w)) ns)"
    using timers.insert_all_sorts [of "[]" "map (\<lambda>(w, h, a). ((h, a), w)) ns"] run [of "[]"] by (simp add: timer_entries_def)
  also have "\<dots> = map (\<lambda>(w, h, a). ((h, a), w)) (sort_key fst ns)"
    by (induction ns) (auto simp: insort_map_entry)
  also have "\<dots> = timer_entries (map (\<lambda>(w, h, a). \<lparr>expiry = w, handler_id = h, handler_arg = a\<rparr>) (sort_key fst ns))"
    by (simp add: timer_entries_def split_def comp_def)
  finally show ?thesis by (rule timer_entries_eq)
qed

text \<open>
  C37: when no handler starts a timer that is already due, the check returns; it has run the handlers of
  exactly the due timers, in the order of their expiry times, leaves the later ones in order, and its result is -1 if no timer is
  left and otherwise the milliseconds, rounded down, until the first.
\<close>

theorem timer_check_fires_due:
  assumes "in_order ts" "\<forall>h a w n. n \<in> set (fst (run h a w)) \<longrightarrow> now < fst n"
  shows "\<exists>r ts'. timer_check run now ts w =
      Some (r, ts', fold (\<lambda>t w. snd (run (handler_id t) (handler_arg t) w)) (filter (\<lambda>t. expiry t \<le> now) ts) w) \<and>
    in_order ts' \<and> (\<forall>t\<in>set ts'. now < expiry t) \<and> r = (if ts' = [] then - 1 else (expiry (hd ts') - now) div 1000)"
  using assms by (rule timer_check_ok)

text \<open>Two due timers and one that is not; the handlers record their arguments and start nothing.\<close>

theorem timer_check_fires_due_witness:
  "\<exists>r ts'. timer_check (\<lambda>h a w. ([], w @ [a])) 10 (start_all [(40, 0, 3), (7, 0, 1), (9, 0, 2)] []) [] = Some (r, ts', [1, 2])"
proof -
  define ts where "ts = start_all [(40 :: int, 0 :: nat, 3 :: nat), (7, 0, 1), (9, 0, 2)] []"
  have ts: "ts = [\<lparr>expiry = 7, handler_id = 0, handler_arg = 1\<rparr>, \<lparr>expiry = 9, handler_id = 0, handler_arg = 2\<rparr>,
      \<lparr>expiry = 40, handler_id = 0, handler_arg = 3\<rparr>]" by (simp add: ts_def timer_start_def)
  then have "in_order ts" by (simp add: in_order_def)
  from timer_check_fires_due [OF this, of "\<lambda>h a w. ([], w @ [a])" 10 "[]"] show ?thesis
    unfolding ts_def [symmetric] by (auto simp: ts)
qed

end
