(* ===== verification/Addr.thy ===== *)
theory Addr
  imports Cstring
begin

text \<open>
  \<open>P5/addr.c\<close> and the address strings of \<open>P5/link_state.c\<close>. The resolver
  (\<open>gethostbyname\<close>) and \<open>inet_addr\<close> are parameters. Ports and addresses are stored in network byte order,
  as in \<open>struct sockaddr_in\<close>; \<open>inet_ntoa\<close> prints the bytes of the address in memory order.
\<close>

record sockaddr =
  sin_family :: "16 word"
  sin_port :: "16 word"
  s_addr :: "32 word"

definition AF_INET :: "16 word" where "AF_INET = 2"

text \<open>
  The two addresses are converted to \<open>int\<close> and their difference is taken to wrap around, as it does on the machines the
  program runs on (the C standard leaves the overflow undefined).
\<close>

definition addr_cmp :: "sockaddr \<Rightarrow> sockaddr \<Rightarrow> int" where
  "addr_cmp a1 a2 =
     (if sin_family a1 \<noteq> sin_family a2 then uint (sin_family a1) - uint (sin_family a2)
      else if sin_port a1 \<noteq> sin_port a2 then uint (sin_port a1) - uint (sin_port a2)
      else if s_addr a1 \<noteq> s_addr a2 then sint (s_addr a1 - s_addr a2)
      else 0)"

definition addr_get :: "(string \<Rightarrow> 32 word option) \<Rightarrow> (string \<Rightarrow> 32 word) \<Rightarrow> string \<Rightarrow> int \<Rightarrow> int \<times> sockaddr" where
  "addr_get gethost inetaddr addr port = (let sin = \<lparr>sin_family = AF_INET, sin_port = htons (of_int port), s_addr = 0\<rparr> in
     if addr = [] \<or> \<not> isdigit (hd addr) then
       case gethost addr of None \<Rightarrow> (0, sin) | Some h \<Rightarrow> (1, sin\<lparr>s_addr := h\<rparr>)
     else (1, sin\<lparr>s_addr := inetaddr addr\<rparr>))"

definition inet_ntoa :: "32 word \<Rightarrow> string" where
  "inet_ntoa a = decimal (unat (take_bit 8 a)) @ ''.'' @ decimal (unat (take_bit 8 (drop_bit 8 a))) @ ''.'' @
     decimal (unat (take_bit 8 (drop_bit 16 a))) @ ''.'' @ decimal (unat (drop_bit 24 a))"

definition addr_to_string :: "sockaddr \<Rightarrow> string" where
  "addr_to_string addr = inet_ntoa (s_addr addr) @ '':'' @ decimal (unat (htons (sin_port addr)))"

text \<open>Without a colon in the string the code increments and writes through a NULL pointer.\<close>

definition string_to_addr :: "(string \<Rightarrow> 32 word option) \<Rightarrow> (string \<Rightarrow> 32 word) \<Rightarrow> string \<Rightarrow> sockaddr res" where
  "string_to_addr gethost inetaddr s = (case split_at CHR '':'' s of
       None \<Rightarrow> Inl Null_deref
     | Some (host, port) \<Rightarrow> Inr (snd (addr_get gethost inetaddr host (atoi port))))"

section \<open>Lemmas\<close>

lemma addr_cmp_0: "addr_cmp a b = 0 \<longleftrightarrow> a = b"
proof -
  have "sint (x - y) \<noteq> 0" if "x \<noteq> y" for x y :: "32 word"
    using that by (metis eq_iff_diff_eq_0 sint_0 signed_word_eqI)
  then show ?thesis by (auto simp: addr_cmp_def simp flip: word_uint_eq_iff)
qed

lemma inet_ntoa_no: "\<not> isdigit c \<Longrightarrow> c \<noteq> CHR ''.'' \<Longrightarrow> c \<notin> set (inet_ntoa a)"
  by (simp add: inet_ntoa_def decimal_no)

lemma inet_ntoa_digit: "inet_ntoa a \<noteq> [] \<and> isdigit (hd (inet_ntoa a))"
proof -
  have "isdigit (hd (decimal n))" for n using decimal_digits [of "hd (decimal n)" n] by simp
  then show ?thesis by (simp add: inet_ntoa_def)
qed

lemma string_to_addr_to_string:
  assumes "sin_family a = AF_INET" "inetaddr (inet_ntoa (s_addr a)) = s_addr a"
  shows "string_to_addr gethost inetaddr (addr_to_string a) = Inr a"
proof -
  have "split_at CHR '':'' (addr_to_string a) = Some (inet_ntoa (s_addr a), decimal (unat (htons (sin_port a))))"
    unfolding addr_to_string_def append_Cons append_Nil by (rule split_at_append) (simp add: inet_ntoa_no)
  moreover have "atoi (decimal (unat (htons (sin_port a)))) = int (unat (htons (sin_port a)))"
    using atoi_decimal [of "[]"] by simp
  ultimately show ?thesis using assms inet_ntoa_digit [of "s_addr a"] by (simp add: string_to_addr_def addr_get_def)
qed

lemma inet_ntoa_length: "length (inet_ntoa a) \<le> 15"
proof -
  have d: "length (decimal (unat w)) \<le> 3" if "unat w < 256" for w :: "32 word"
    by (rule decimal_length) (use that in simp_all)
  have m: "unat (take_bit 8 w) < 256" for w :: "32 word"
    using take_bit_nat_less_exp [of 8 "unat w"] by (simp add: unsigned_take_bit_eq)
  have "unat (drop_bit 24 a) < 256"
  proof -
    have "unat a < 2 ^ LENGTH(32)" by (rule unsigned_less)
    then show ?thesis by (simp add: unsigned_drop_bit_eq drop_bit_eq_div unat_div less_mult_imp_div_less)
  qed
  then show ?thesis using d [OF m [of a]] d [OF m [of "drop_bit 8 a"]] d [OF m [of "drop_bit 16 a"]] d [of "drop_bit 24 a"]
    by (simp add: inet_ntoa_def)
qed

lemma port_digits: "length (decimal (unat (p :: 16 word))) \<le> 5"
proof -
  have "unat p < 2 ^ LENGTH(16)" by (rule unsigned_less)
  then show ?thesis by (intro decimal_length) simp_all
qed

section \<open>Properties\<close>

text \<open>
  An address printed by \<open>addr_to_string\<close> is read back by \<open>string_to_addr\<close>, given that
  \<open>inet_addr\<close> reads what \<open>inet_ntoa\<close> prints.
\<close>

theorem address_roundtrip:
  assumes "sin_family a = AF_INET" "\<forall>x. inetaddr (inet_ntoa x) = x"
  shows "string_to_addr gethost inetaddr (addr_to_string a) = Inr a"
  using assms by (intro string_to_addr_to_string) auto

text \<open>
  C0: \<open>addr_cmp\<close> is zero exactly for equal addresses, but it is no order: two hosts whose addresses differ
  by half the range each come out as the lower one, so that both ends of a doubled connection keep different ones of the two.
\<close>

theorem addr_cmp_no_order:
  "(addr_cmp a b = 0 \<longleftrightarrow> a = b) \<and>
   (\<exists>c d. sin_family c = sin_family d \<and> sin_port c = sin_port d \<and> addr_cmp c d < 0 \<and> addr_cmp d c < 0)"
proof (intro conjI exI)
  show "addr_cmp a b = 0 \<longleftrightarrow> a = b" by (rule addr_cmp_0)
  let ?c = "\<lparr>sin_family = AF_INET, sin_port = 0, s_addr = 0x8000000A\<rparr>" and ?d = "\<lparr>sin_family = AF_INET, sin_port = 0, s_addr = 0xA\<rparr>"
  show "sin_family ?c = sin_family ?d" "sin_port ?c = sin_port ?d" by simp_all
  show "addr_cmp ?c ?d < 0" "addr_cmp ?d ?c < 0" by (simp_all add: addr_cmp_def)
qed

text \<open>An \<open>inet_addr\<close> that inverts \<open>inet_ntoa\<close>.\<close>

definition read_quad :: "string \<Rightarrow> 32 word" where
  "read_quad s = (let ps = map atoi (pieces CHR ''.'' s) in
     of_int (ps ! 0) + of_int (ps ! 1) * 256 + of_int (ps ! 2) * 65536 + of_int (ps ! 3) * 16777216)"

lemma read_quad_ntoa: "read_quad (inet_ntoa x) = x"
proof -
  define b0 b1 b2 b3 where "b0 = unat (take_bit 8 x)" and "b1 = unat (take_bit 8 (drop_bit 8 x))"
    and "b2 = unat (take_bit 8 (drop_bit 16 x))" and "b3 = unat (drop_bit 24 x)"
  have q: "unat (drop_bit n x) = unat x div 2 ^ n" "unat (take_bit n (x :: 32 word)) = unat x mod 2 ^ n" for n and x :: "32 word"
    by (simp_all only: unat_drop_bit_eq unsigned_take_bit_eq drop_bit_eq_div [where 'a = nat] take_bit_eq_mod [where 'a = nat])
  have "b0 = unat x mod 2 ^ 8" "b1 = unat x div 2 ^ 8 mod 2 ^ 8" "b2 = unat x div 2 ^ 16 mod 2 ^ 8" "b3 = unat x div 2 ^ 24"
    by (simp_all only: b0_def b1_def b2_def b3_def q)
  moreover have "unat x mod 2 ^ 16 = 2 ^ 8 * (unat x div 2 ^ 8 mod 2 ^ 8) + unat x mod 2 ^ 8"
    "unat x mod 2 ^ 24 = 2 ^ 16 * (unat x div 2 ^ 16 mod 2 ^ 8) + unat x mod 2 ^ 16" "unat x = 2 ^ 24 * (unat x div 2 ^ 24) + unat x mod 2 ^ 24"
    using mod_mult2_eq [of "unat x" "2 ^ 8" "2 ^ 8"] mod_mult2_eq [of "unat x" "2 ^ 16" "2 ^ 8"] mult_div_mod_eq [of "2 ^ 24" "unat x"]
    by (simp_all only: power_add [symmetric]) simp_all
  ultimately have sum: "b0 + b1 * 256 + b2 * 65536 + b3 * 16777216 = unat x" by simp
  have p: "pieces CHR ''.'' (inet_ntoa x) = [decimal b0, decimal b1, decimal b2, decimal b3]"
    by (simp add: inet_ntoa_def pieces_append pieces_single decimal_no b0_def b1_def b2_def b3_def)
  have d: "atoi (decimal n) = int n" for n using atoi_decimal [of "[]" n] by simp
  have "read_quad (inet_ntoa x) = of_nat b0 + of_nat b1 * 256 + of_nat b2 * 65536 + of_nat b3 * 16777216"
    by (simp add: read_quad_def p d)
  also have "\<dots> = of_nat (b0 + b1 * 256 + b2 * 65536 + b3 * 16777216)" by simp
  finally show ?thesis by (simp add: sum)
qed

theorem address_roundtrip_witness:
  "string_to_addr (\<lambda>s. None) read_quad (addr_to_string \<lparr>sin_family = AF_INET, sin_port = 0x5000, s_addr = 0x0100007F\<rparr>) =
     Inr \<lparr>sin_family = AF_INET, sin_port = 0x5000, s_addr = 0x0100007F\<rparr>"
  using address_roundtrip [of "\<lparr>sin_family = AF_INET, sin_port = 0x5000, s_addr = 0x0100007F\<rparr>" read_quad] read_quad_ntoa by simp

end
