(* ===== verification/Link_State.thy ===== *)
theory Link_State
  imports Addr
begin

text \<open>
  \<open>P5/link_state.c\<close>: the sorted list of node names with its binary search, the adjacency matrix, and
  Dijkstra's algorithm on it. Node names are compared with \<open>strcmp\<close>, and \<open>qsort\<close> by that
  comparison gives the one sorted permutation. The matrix is a C array of \<open>nnodes * nnodes\<close>
  entries; \<open>1\<close> marks an edge.
\<close>

section \<open>Node lists\<close>

record node_list =
  nl_nodes :: "string list"
  nl_unsorted :: bool

definition nl_create :: node_list where
  "nl_create = \<lparr>nl_nodes = [], nl_unsorted = False\<rparr>"

definition nl_nsites :: "node_list \<Rightarrow> nat" where
  "nl_nsites nl = length (nl_nodes nl)"

definition nl_sort :: "node_list \<Rightarrow> node_list" where
  "nl_sort nl = nl\<lparr>nl_nodes := sort (nl_nodes nl), nl_unsorted := False\<rparr>"

function nl_search :: "string \<Rightarrow> string list \<Rightarrow> nat \<Rightarrow> nat \<Rightarrow> int" where
  "nl_search node ns lb ub =
     (if lb < ub then
        (let i = (lb + ub) div 2; c = strcmp node (ns ! i) in
         if c < 0 then nl_search node ns lb i
         else if c > 0 then nl_search node ns (Suc i) ub
         else int i)
      else - 1)"
  by pat_completeness auto
termination by (relation "measure (\<lambda>(node, ns, lb, ub). ub - lb)") auto

declare nl_search.simps [simp del]

definition nl_index :: "node_list \<Rightarrow> string \<Rightarrow> int \<times> node_list" where
  "nl_index nl node = (let nl' = (if nl_unsorted nl then nl_sort nl else nl) in
     (nl_search node (nl_nodes nl') 0 (length (nl_nodes nl')), nl'))"

definition nl_add :: "node_list \<Rightarrow> string \<Rightarrow> node_list" where
  "nl_add nl node = (let (i, nl') = nl_index nl node in
     if i \<noteq> - 1 then nl' else nl'\<lparr>nl_nodes := nl_nodes nl' @ [node], nl_unsorted := True\<rparr>)"

definition nl_name :: "node_list \<Rightarrow> int \<Rightarrow> string res" where
  "nl_name nl index = (if index < 0 then Inr ''UNDEFINED'' else aget (nl_nodes nl) index)"

section \<open>The matrix\<close>

definition INDEX :: "int \<Rightarrow> int \<Rightarrow> int \<Rightarrow> int" where "INDEX x y n = x + n * y"

definition INFINITY :: int where "INFINITY = 2147483647"

definition UNDEFINED :: int where "UNDEFINED = - 1"

definition set_dist :: "node_list \<Rightarrow> int list \<Rightarrow> int \<Rightarrow> string \<Rightarrow> string \<Rightarrow> int \<Rightarrow> (node_list \<times> int list) res" where
  "set_dist nl graph nnodes src dst dist = (let (x, nl1) = nl_index nl src; (y, nl2) = nl_index nl1 dst in
     if x < 0 \<or> y < 0 then Inr (nl2, graph)
     else bindR (aset graph (INDEX x y nnodes) dist) (\<lambda>graph1.
       bindR (aset graph1 (INDEX y x nnodes) dist) (\<lambda>graph2. Inr (nl2, graph2))))"

section \<open>Dijkstra's algorithm\<close>

definition dj_init :: "nat \<Rightarrow> int list \<times> int list \<times> int list \<Rightarrow> (int list \<times> int list \<times> int list) res" where
  "dj_init i = (\<lambda>(dist, prev, q).
     bindR (aset dist (int i) INFINITY) (\<lambda>dist. bindR (aset prev (int i) UNDEFINED) (\<lambda>prev.
     bindR (aset q (int i) 1) (\<lambda>q. Inr (dist, prev, q)))))"

definition dj_scan :: "int list \<Rightarrow> int list \<Rightarrow> nat \<Rightarrow> int \<times> int \<Rightarrow> (int \<times> int) res" where
  "dj_scan dist q i = (\<lambda>(mn, mn_dist). bindR (aget dist (int i)) (\<lambda>d.
     if d < mn_dist then bindR (aget q (int i)) (\<lambda>qi. Inr (if qi \<noteq> UNDEFINED then (int i, d) else (mn, mn_dist)))
     else Inr (mn, mn_dist)))"

definition dj_relax :: "int list \<Rightarrow> int \<Rightarrow> int list \<Rightarrow> int \<Rightarrow> nat \<Rightarrow> int list \<times> int list \<Rightarrow> (int list \<times> int list) res" where
  "dj_relax graph n q mn i = (\<lambda>(dist, prev). bindR (aget graph (INDEX mn (int i) n)) (\<lambda>g.
     if g = 1 then bindR (aget q (int i)) (\<lambda>qi.
       if qi \<noteq> UNDEFINED then
         bindR (aget dist (int i)) (\<lambda>di. bindR (aget dist mn) (\<lambda>dm.
           if di > g + dm then
             bindR (aset dist (int i) (g + dm)) (\<lambda>dist. bindR (aset prev (int i) mn) (\<lambda>prev. Inr (dist, prev)))
           else Inr (dist, prev)))
       else Inr (dist, prev))
     else Inr (dist, prev)))"

fun dj_main :: "nat \<Rightarrow> int list \<Rightarrow> nat \<Rightarrow> int list \<Rightarrow> int list \<times> int list \<Rightarrow> (int list \<times> int list) res" where
  "dj_main 0 graph n q dp = Inr dp"
| "dj_main (Suc cnt) graph n q (dist, prev) =
     bindR (for_loop n 0 (dj_scan dist q) (- 1, INFINITY)) (\<lambda>(mn, mn_dist).
       if mn = - 1 \<and> mn_dist = INFINITY then Inr (dist, prev)
       else bindR (aset q mn UNDEFINED) (\<lambda>q'.
         bindR (for_loop n 0 (dj_relax graph (int n) q' mn) (dist, prev)) (\<lambda>dp.
           dj_main cnt graph n q' dp)))"

definition dijkstra :: "int list \<Rightarrow> nat \<Rightarrow> int \<Rightarrow> int list \<Rightarrow> int list \<Rightarrow> (int list \<times> int list) res" where
  "dijkstra graph nnodes src dist prev =
     bindR (for_loop nnodes 0 dj_init (dist, prev, replicate nnodes 0)) (\<lambda>(dist, prev, q).
       bindR (aset dist src 0) (\<lambda>dist. bindR (aset prev src (- 1)) (\<lambda>prev.
         dj_main nnodes graph nnodes q (dist, prev))))"

section \<open>Node lists: lemmas\<close>

definition nl_ok :: "node_list \<Rightarrow> bool" where
  "nl_ok nl = (distinct (nl_nodes nl) \<and> (\<not> nl_unsorted nl \<longrightarrow> sorted (nl_nodes nl)))"

lemma nl_search_spec:
  assumes "sorted ns" "distinct ns" "ub \<le> length ns"
    "\<forall>j<lb. ns ! j < node" "\<forall>j. ub \<le> j \<and> j < length ns \<longrightarrow> node < ns ! j"
  shows "if node \<in> set ns then \<exists>i<length ns. nl_search node ns lb ub = int i \<and> ns ! i = node
    else nl_search node ns lb ub = - 1"
  using assms
proof (induction node ns lb ub rule: nl_search.induct)
  case (1 node ns lb ub)
  show ?case
  proof (cases "lb < ub")
    case False
    have "node \<noteq> ns ! j" if "j < length ns" for j
    proof -
      have "j < lb \<or> ub \<le> j" using False by linarith
      then show ?thesis using "1.prems"(4,5) that by auto
    qed
    then have "node \<notin> set ns" by (metis in_set_conv_nth)
    with False show ?thesis by (simp add: nl_search.simps)
  next
    case True
    define i where "i = (lb + ub) div 2"
    have i: "lb \<le> i" "i < ub" "i < length ns" using True "1.prems"(3) by (auto simp: i_def)
    have lo: "ns ! j \<le> ns ! i" if "j \<le> i" for j using "1.prems"(1) that i(3) by (simp add: sorted_nth_mono)
    have hi: "ns ! i \<le> ns ! j" if "i \<le> j" "j < length ns" for j using "1.prems"(1) that by (simp add: sorted_nth_mono)
    consider "node < ns ! i" | "ns ! i < node" | "node = ns ! i" by (rule linorder_cases)
    then show ?thesis
    proof cases
      case c: 1
      have "nl_search node ns lb ub = nl_search node ns lb i"
        using True c by (subst nl_search.simps) (simp add: Let_def strcmp_sign i_def)
      moreover have "\<forall>j. i \<le> j \<and> j < length ns \<longrightarrow> node < ns ! j" using hi c by (meson less_le_trans)
      ultimately show ?thesis
        using "1.IH"(1) [OF True i_def refl] c "1.prems" i by (simp add: strcmp_sign)
    next
      case c: 2
      have "nl_search node ns lb ub = nl_search node ns (Suc i) ub"
        using True c by (subst nl_search.simps) (simp add: Let_def strcmp_sign i_def less_not_sym)
      moreover have "\<forall>j<Suc i. ns ! j < node" using lo c by (metis le_less_trans less_Suc_eq_le)
      ultimately show ?thesis
        using "1.IH"(2) [OF True i_def refl] c "1.prems" i by (simp add: strcmp_sign less_not_sym)
    next
      case c: 3
      have "nl_search node ns lb ub = int i"
        using True c by (subst nl_search.simps) (simp add: Let_def strcmp_sign i_def)
      then show ?thesis using c i by auto
    qed
  qed
qed

lemma nl_index_spec:
  assumes "nl_ok nl"
  obtains i nl' where "nl_index nl node = (i, nl')" "nl_ok nl'" "\<not> nl_unsorted nl'" "mset (nl_nodes nl') = mset (nl_nodes nl)"
    "if node \<in> set (nl_nodes nl) then 0 \<le> i \<and> nat i < length (nl_nodes nl') \<and> nl_nodes nl' ! nat i = node else i = - 1"
proof -
  define nl' where "nl' = (if nl_unsorted nl then nl_sort nl else nl)"
  have ok: "sorted (nl_nodes nl')" "distinct (nl_nodes nl')" "mset (nl_nodes nl') = mset (nl_nodes nl)" "\<not> nl_unsorted nl'"
    using assms by (auto simp: nl'_def nl_sort_def nl_ok_def)
  have "set (nl_nodes nl') = set (nl_nodes nl)" using ok(3) by (rule mset_eq_setD)
  moreover have "if node \<in> set (nl_nodes nl') then \<exists>i<length (nl_nodes nl'). nl_search node (nl_nodes nl') 0 (length (nl_nodes nl')) = int i \<and>
      nl_nodes nl' ! i = node else nl_search node (nl_nodes nl') 0 (length (nl_nodes nl')) = - 1"
    by (rule nl_search_spec [OF ok(1,2) order_refl]) auto
  ultimately have "if node \<in> set (nl_nodes nl) then 0 \<le> fst (nl_index nl node) \<and>
      nat (fst (nl_index nl node)) < length (nl_nodes nl') \<and> nl_nodes nl' ! nat (fst (nl_index nl node)) = node
    else fst (nl_index nl node) = - 1" "snd (nl_index nl node) = nl'"
    by (auto simp: nl_index_def nl'_def [symmetric] Let_def)
  with ok show ?thesis using that [of "fst (nl_index nl node)" nl'] by (simp add: nl_ok_def prod_eq_iff)
qed

lemma nl_add_ok:
  assumes "nl_ok nl"
  shows "nl_ok (nl_add nl node) \<and> set (nl_nodes (nl_add nl node)) = insert node (set (nl_nodes nl))"
proof -
  obtain i nl' where n: "nl_index nl node = (i, nl')" "nl_ok nl'" "mset (nl_nodes nl') = mset (nl_nodes nl)"
    "if node \<in> set (nl_nodes nl) then 0 \<le> i \<and> nat i < length (nl_nodes nl') \<and> nl_nodes nl' ! nat i = node else i = - 1"
    by (rule nl_index_spec [OF assms, of node]) blast
  have "set (nl_nodes nl') = set (nl_nodes nl)" using n(3) by (rule mset_eq_setD)
  with n show ?thesis by (auto simp: nl_add_def nl_ok_def split: if_splits)
qed

section \<open>Walks and distances\<close>

text \<open>\<open>hops E n src k x\<close>: a walk of \<open>k\<close> edges leads from \<open>src\<close> to \<open>x\<close> in a graph on the nodes below \<open>n\<close>.\<close>

fun hops :: "(nat \<Rightarrow> nat \<Rightarrow> bool) \<Rightarrow> nat \<Rightarrow> nat \<Rightarrow> nat \<Rightarrow> nat \<Rightarrow> bool" where
  "hops E n src 0 x = (x = src)"
| "hops E n src (Suc k) x = (\<exists>y\<in>{..<n}. hops E n src k y \<and> E y x)"

definition shortest :: "(nat \<Rightarrow> nat \<Rightarrow> bool) \<Rightarrow> nat \<Rightarrow> nat \<Rightarrow> nat \<Rightarrow> int \<Rightarrow> bool" where
  "shortest E n src x d = (if d = INFINITY then \<forall>k. \<not> hops E n src k x
     else \<exists>k. d = int k \<and> hops E n src k x \<and> (\<forall>j<k. \<not> hops E n src j x))"

definition last_hop :: "(nat \<Rightarrow> nat \<Rightarrow> bool) \<Rightarrow> nat \<Rightarrow> nat \<Rightarrow> (nat \<Rightarrow> int) \<Rightarrow> nat \<Rightarrow> int \<Rightarrow> bool" where
  "last_hop E n src D x p = (if x = src \<or> D x = INFINITY then p = - 1
     else \<exists>y<n. p = int y \<and> E y x \<and> D y \<noteq> INFINITY \<and> D x = D y + 1)"

definition edge :: "int list \<Rightarrow> nat \<Rightarrow> nat \<Rightarrow> nat \<Rightarrow> bool" where
  "edge graph n x y = (graph ! (x + n * y) = 1)"

text \<open>
  The state between two rounds: \<open>U\<close> are the nodes not yet visited, \<open>c\<close> of them. A visited node has
  its final distance, and the edges out of it have been relaxed.
\<close>

definition dj_inv :: "(nat \<Rightarrow> nat \<Rightarrow> bool) \<Rightarrow> nat \<Rightarrow> nat \<Rightarrow> nat \<Rightarrow> (nat \<Rightarrow> int) \<Rightarrow> (nat \<Rightarrow> int) \<Rightarrow> nat set \<Rightarrow> bool" where
  "dj_inv E n src c D P U = (U \<subseteq> {..<n} \<and> card U = c \<and> src < n \<and> D src = 0 \<and>
     (\<forall>x<n. D x = INFINITY \<or> (\<exists>k. D x = int k \<and> k + c \<le> n \<and> hops E n src k x)) \<and>
     (\<forall>x<n. x \<notin> U \<longrightarrow> D x \<noteq> INFINITY \<and> (\<forall>k. hops E n src k x \<longrightarrow> D x \<le> int k)) \<and>
     (\<forall>x<n. \<forall>y\<in>U. x \<notin> U \<longrightarrow> E x y \<longrightarrow> D y \<le> D x + 1) \<and>
     (\<forall>x<n. if x = src \<or> D x = INFINITY then P x = - 1
        else \<exists>p<n. P x = int p \<and> p \<notin> U \<and> E p x \<and> D x = D p + 1))"

lemma dj_invD:
  assumes "dj_inv E n src c D P U"
  shows "U \<subseteq> {..<n}" "card U = c" "src < n" "D src = 0"
    "\<And>x. x < n \<Longrightarrow> D x \<noteq> INFINITY \<Longrightarrow> \<exists>k. D x = int k \<and> k + c \<le> n \<and> hops E n src k x"
    "\<And>x. x < n \<Longrightarrow> x \<notin> U \<Longrightarrow> D x \<noteq> INFINITY" "\<And>x k. x < n \<Longrightarrow> x \<notin> U \<Longrightarrow> hops E n src k x \<Longrightarrow> D x \<le> int k"
    "\<And>x y. x < n \<Longrightarrow> y \<in> U \<Longrightarrow> x \<notin> U \<Longrightarrow> E x y \<Longrightarrow> D y \<le> D x + 1"
    "\<And>x. x < n \<Longrightarrow> if x = src \<or> D x = INFINITY then P x = - 1 else \<exists>p<n. P x = int p \<and> p \<notin> U \<and> E p x \<and> D x = D p + 1"
  using assms unfolding dj_inv_def by blast+

lemma dj_start:
  assumes "src < n"
  shows "dj_inv E n src n (\<lambda>x. if x = src then 0 else INFINITY) (\<lambda>x. - 1) {..<n}"
proof -
  have "\<exists>k. (0 :: int) = int k \<and> k + n \<le> n \<and> hops E n src k src" by (intro exI [of _ 0]) simp
  with assms show ?thesis by (auto simp: dj_inv_def)
qed

lemma dj_frontier:
  assumes inv: "dj_inv E n src c D P U" and n: "int n + 1 < INFINITY"
  shows "hops E n src k x \<Longrightarrow> x < n \<Longrightarrow> x \<notin> U \<and> D x \<le> int k \<or> (\<exists>y\<in>U. D y \<le> int k \<and> D y < INFINITY)"
proof (induction k arbitrary: x)
  case 0
  then have "x = src" "D x \<le> 0" "D x < INFINITY" using dj_invD(4) [OF inv] by (auto simp: INFINITY_def)
  then show ?case by (cases "x \<in> U") auto
next
  case (Suc k)
  then obtain y where y: "y < n" "hops E n src k y" "E y x" by auto
  show ?case
  proof (cases "x \<in> U")
    case False
    then show ?thesis using dj_invD(7) [OF inv Suc.prems(2) _ Suc.prems(1)] by blast
  next
    case x: True
    from Suc.IH [OF y(2,1)] show ?thesis
    proof (elim disjE conjE bexE)
      assume v: "y \<notin> U" "D y \<le> int k"
      then have "D x \<le> D y + 1" using dj_invD(8) [OF inv y(1) x v(1) y(3)] by blast
      moreover obtain k' where "D y = int k'" "k' + c \<le> n" using dj_invD(5) [OF inv y(1) dj_invD(6) [OF inv y(1) v(1)]] by blast
      then have "D y \<le> int n" by simp
      ultimately show ?thesis using v(2) x n by (intro disjI2 bexI [of _ x]) auto
    next
      fix z assume "z \<in> U" "D z \<le> int k" "D z < INFINITY"
      then show ?thesis by (intro disjI2 bexI [of _ z]) auto
    qed
  qed
qed

lemma dj_visit:
  assumes inv: "dj_inv E n src c D P U" and n: "int n + 1 < INFINITY"
    and m: "m \<in> U" "D m < INFINITY" "\<forall>y\<in>U. D m \<le> D y"
    and D': "D' = (\<lambda>j. if E m j \<and> j \<in> U - {m} \<and> D j > 1 + D m then 1 + D m else D j)"
    and P': "P' = (\<lambda>j. if E m j \<and> j \<in> U - {m} \<and> D j > 1 + D m then int m else P j)"
  shows "dj_inv E n src (c - 1) D' P' (U - {m})"
proof -
  have U: "U \<subseteq> {..<n}" "card U = c" "finite U" using inv by (auto simp: dj_inv_def intro: finite_subset)
  then have c: "card (U - {m}) = c - 1" "0 < c" using m(1) by (auto simp: card_gt_0_iff)
  have mn: "m < n" using m(1) U(1) by auto
  obtain k where k: "D m = int k" "k + c \<le> n" "hops E n src k m"
    using dj_invD(5) [OF inv mn] m(2) by auto
  have least: "D m \<le> int j" if "hops E n src j m" for j
  proof -
    from dj_frontier [OF inv n that mn] m(1) obtain y where "y \<in> U" "D y \<le> int j" by blast
    with m(3) show ?thesis by force
  qed
  have same: "D' x = D x" if "x \<notin> U \<or> x = m" for x using that by (auto simp: D')
  have le: "D' x \<le> D x" for x by (simp add: D')
  have src: "D' src = 0" "src < n" using dj_invD(3,4) [OF inv] k(1) by (auto simp: D')
  have sound: "D' x = INFINITY \<or> (\<exists>k. D' x = int k \<and> k + (c - 1) \<le> n \<and> hops E n src k x)" if x: "x < n" for x
  proof (cases "E m x \<and> x \<in> U - {m} \<and> D x > 1 + D m")
    case True
    then have "D' x = int (Suc k)" "hops E n src (Suc k) x" using k(1,3) mn by (auto simp: D')
    then show ?thesis using k(2) c(2) by (intro disjI2 exI [of _ "Suc k"]) simp
  next
    case False
    then have "D' x = D x" by (simp add: D')
    then show ?thesis using dj_invD(5) [OF inv x] by fastforce
  qed
  have final: "D' x \<noteq> INFINITY \<and> (\<forall>k. hops E n src k x \<longrightarrow> D' x \<le> int k)" if "x < n" "x \<notin> U - {m}" for x
  proof (cases "x = m")
    case True
    then show ?thesis using least m(2) same by auto
  next
    case False
    then have "x \<notin> U" using that(2) by simp
    then show ?thesis using dj_invD(6,7) [OF inv that(1)] same by simp
  qed
  have relaxed: "D' y \<le> D' x + 1" if "x < n" "y \<in> U - {m}" "x \<notin> U - {m}" "E x y" for x y
  proof (cases "x = m")
    case True
    then show ?thesis using that k by (auto simp: D')
  next
    case False
    then have "D y \<le> D x + 1" using dj_invD(8) [OF inv that(1) _ _ that(4)] that(2,3) by blast
    then show ?thesis using le [of y] same [of x] that(3) False by simp
  qed
  have pred: "if x = src \<or> D' x = INFINITY then P' x = - 1
    else \<exists>p<n. P' x = int p \<and> p \<notin> U - {m} \<and> E p x \<and> D' x = D' p + 1" if x: "x < n" for x
  proof (cases "E m x \<and> x \<in> U - {m} \<and> D x > 1 + D m")
    case True
    then have "D' x = D' m + 1" "P' x = int m" "x \<noteq> src" using dj_invD(4) [OF inv] k(1) by (auto simp: D' P')
    moreover have "D' x \<noteq> INFINITY" using True k n by (auto simp: D')
    ultimately show ?thesis using True mn by auto
  next
    case False
    then have s: "D' x = D x" "P' x = P x" by (auto simp: D' P')
    have "if x = src \<or> D x = INFINITY then P x = - 1 else \<exists>p<n. P x = int p \<and> p \<notin> U \<and> E p x \<and> D x = D p + 1"
      by (rule dj_invD(9) [OF inv x])
    then show ?thesis using same unfolding s by (auto split: if_splits)
  qed
  show ?thesis unfolding dj_inv_def
  proof (intro conjI allI ballI impI)
    show "U - {m} \<subseteq> {..<n}" using U(1) by blast
  qed (use c src sound final relaxed pred in blast)+
qed

lemma dj_finish:
  assumes inv: "dj_inv E n src c D P U" and n: "int n + 1 < INFINITY" and x: "x < n"
    and U: "\<forall>y\<in>U. INFINITY \<le> D y"
  shows "shortest E n src x (D x) \<and> last_hop E n src D x (P x)"
proof -
  have none: "D x \<noteq> INFINITY \<and> D x \<le> int k" if "hops E n src k x" for k
    using dj_frontier [OF inv n that x] U dj_invD(6) [OF inv x] by (auto simp: not_le [symmetric])
  have "shortest E n src x (D x)"
  proof (cases "D x = INFINITY")
    case True
    with none show ?thesis by (auto simp: shortest_def)
  next
    case False
    then obtain k where k: "D x = int k" "hops E n src k x" using dj_invD(5) [OF inv x] by blast
    then have "\<forall>j<k. \<not> hops E n src j x" using none by (metis linorder_not_le of_nat_le_iff)
    then show ?thesis using k False by (auto simp: shortest_def)
  qed
  moreover have "last_hop E n src D x (P x)"
  proof -
    note dj_invD(6) [OF inv]
    moreover have "if x = src \<or> D x = INFINITY then P x = - 1 else \<exists>p<n. P x = int p \<and> p \<notin> U \<and> E p x \<and> D x = D p + 1"
      by (rule dj_invD(9) [OF inv x])
    ultimately show ?thesis by (auto simp: last_hop_def split: if_splits)
  qed
  ultimately show ?thesis ..
qed

section \<open>The loops of the code\<close>

definition arr :: "nat \<Rightarrow> int list \<Rightarrow> int \<Rightarrow> nat \<Rightarrow> int" where
  "arr n xs d = (\<lambda>j. if j < n then xs ! j else d)"

lemma arr_nth: "x < n \<Longrightarrow> arr n xs d x = xs ! x"
  by (simp add: arr_def)

lemma last_hop_arr: "x < n \<Longrightarrow> last_hop E n src (arr n xs d) x p = last_hop E n src ((!) xs) x p"
  by (auto simp: last_hop_def arr_def)

lemma dj_init_ok:
  assumes "length dist = n" "length prev = n" "length q = n"
  shows "for_loop n 0 dj_init (dist, prev, q) = Inr (replicate n INFINITY, replicate n UNDEFINED, replicate n 1)"
proof -
  define Inv where "Inv = (\<lambda>i (d, p, q). length d = n \<and> length p = n \<and> length q = n \<and>
    (\<forall>j<i. d ! j = INFINITY \<and> p ! j = UNDEFINED \<and> q ! j = (1 :: int)))"
  have "\<exists>s'. for_loop n 0 dj_init (dist, prev, q) = Inr s' \<and> Inv (0 + n) s'"
    by (rule for_loop_ok) (auto simp: Inv_def assms dj_init_def res_simps nth_list_update)
  then show ?thesis by (auto simp: Inv_def intro!: nth_equalityI)
qed

lemma dj_scan_ok:
  assumes "length dist = n" "length q = n"
  obtains "for_loop n 0 (dj_scan dist q) (- 1, INFINITY) = Inr (- 1, INFINITY)" "\<forall>j<n. q ! j \<noteq> UNDEFINED \<longrightarrow> INFINITY \<le> dist ! j"
  | k where "for_loop n 0 (dj_scan dist q) (- 1, INFINITY) = Inr (int k, dist ! k)" "k < n" "q ! k \<noteq> UNDEFINED"
      "dist ! k < INFINITY" "\<forall>j<n. q ! j \<noteq> UNDEFINED \<longrightarrow> dist ! k \<le> dist ! j"
proof -
  define Inv where "Inv = (\<lambda>i (m :: int, d). (m = - 1 \<and> d = INFINITY \<or> (\<exists>k<n. m = int k \<and> d = dist ! k \<and> q ! k \<noteq> UNDEFINED \<and> d < INFINITY)) \<and>
    (\<forall>j<i. q ! j \<noteq> UNDEFINED \<longrightarrow> d \<le> dist ! j))"
  have step: "\<exists>t'. dj_scan dist q j t = Inr t' \<and> Inv (Suc j) t'" if "j < 0 + n" "Inv j t" for j t
    using that assms by (cases t) (force simp: Inv_def dj_scan_def res_simps less_Suc_eq)
  have "\<exists>s'. for_loop n 0 (dj_scan dist q) (- 1, INFINITY) = Inr s' \<and> Inv (0 + n) s'"
    by (rule for_loop_ok [where Inv = Inv]) (use step in \<open>auto simp: Inv_def\<close>)
  then show ?thesis using that by (auto simp: Inv_def)
qed

lemma index_bound: "m < n \<Longrightarrow> j < n \<Longrightarrow> m + n * j < n * (n :: nat)"
proof -
  assume "m < n" "j < n"
  then have "m + n * j < n * Suc j" "n * Suc j \<le> n * n" by (simp, intro mult_le_mono2) simp
  then show ?thesis by (rule less_le_trans)
qed

lemma aget_matrix:
  assumes "length graph = n * n" "m < n" "j < n"
  shows "aget graph (INDEX (int m) (int j) (int n)) = Inr (graph ! (m + n * j))"
proof -
  have "INDEX (int m) (int j) (int n) = int (m + n * j)" by (simp add: INDEX_def)
  then show ?thesis using index_bound [OF assms(2,3)] assms(1) by (simp add: aget_ok del: of_nat_add of_nat_mult)
qed

lemma dj_relax_ok:
  assumes "length dist = n" "length prev = n" "length q = n" "length graph = n * n" "m < n" "q ! m = UNDEFINED"
  obtains dist' prev' where "for_loop n 0 (dj_relax graph (int n) q (int m)) (dist, prev) = Inr (dist', prev')"
    "length dist' = n" "length prev' = n"
    "\<forall>j<n. dist' ! j = (if edge graph n m j \<and> q ! j \<noteq> UNDEFINED \<and> dist ! j > 1 + dist ! m then 1 + dist ! m else dist ! j)"
    "\<forall>j<n. prev' ! j = (if edge graph n m j \<and> q ! j \<noteq> UNDEFINED \<and> dist ! j > 1 + dist ! m then int m else prev ! j)"
proof -
  define c where "c = (\<lambda>j. edge graph n m j \<and> q ! j \<noteq> UNDEFINED \<and> dist ! j > 1 + dist ! m)"
  define Inv where "Inv = (\<lambda>i (d, p). length d = n \<and> length p = n \<and>
    (\<forall>j<n. d ! j = (if j < i \<and> c j then 1 + dist ! m else dist ! j)) \<and> (\<forall>j<n. p ! j = (if j < i \<and> c j then int m else prev ! j)))"
  have "\<not> c m" using assms(6) by (simp add: c_def)
  have step: "\<exists>t'. dj_relax graph (int n) q (int m) j t = Inr t' \<and> Inv (Suc j) t'" if "j < 0 + n" "Inv j t" for j t
  proof -
    obtain d p where t: "t = (d, p)" by (cases t)
    have i: "length d = n" "length p = n" "\<And>j'. j' < n \<Longrightarrow> d ! j' = (if j' < j \<and> c j' then 1 + dist ! m else dist ! j')"
      "\<And>j'. j' < n \<Longrightarrow> p ! j' = (if j' < j \<and> c j' then int m else prev ! j')"
      using that(2) by (simp_all add: Inv_def t)
    have dm: "d ! m = dist ! m" "d ! j = dist ! j" using i(3) that(1) assms(5) \<open>\<not> c m\<close> by simp_all
    have "dj_relax graph (int n) q (int m) j t = Inr (if c j then (d[j := 1 + dist ! m], p[j := int m]) else (d, p))"
      using that(1) assms(3-5) i(1,2) dm by (simp add: dj_relax_def t aget_matrix res_simps c_def edge_def)
    moreover have "Inv (Suc j) (if c j then (d[j := 1 + dist ! m], p[j := int m]) else (d, p))"
      using i that(1) by (auto simp: Inv_def nth_list_update less_Suc_eq)
    ultimately show ?thesis by blast
  qed
  have "\<exists>s'. for_loop n 0 (dj_relax graph (int n) q (int m)) (dist, prev) = Inr s' \<and> Inv (0 + n) s'"
  proof (rule for_loop_ok [where Inv = Inv])
    show "Inv 0 (dist, prev)" using assms by (simp add: Inv_def)
  qed (use step in blast)
  then show ?thesis using that by (auto simp: Inv_def c_def)
qed

lemma dj_main_ok:
  assumes "length graph = n * n" "int n + 1 < INFINITY"
  shows "length dist = n \<Longrightarrow> length prev = n \<Longrightarrow> length q = n \<Longrightarrow>
    dj_inv (edge graph n) n src c (arr n dist INFINITY) (arr n prev (- 1)) {j. j < n \<and> q ! j \<noteq> UNDEFINED} \<Longrightarrow>
    \<exists>dist' prev'. dj_main c graph n q (dist, prev) = Inr (dist', prev') \<and> length dist' = n \<and> length prev' = n \<and>
      (\<forall>x<n. shortest (edge graph n) n src x (dist' ! x) \<and> last_hop (edge graph n) n src ((!) dist') x (prev' ! x))"
proof (induction c arbitrary: dist prev q)
  case 0
  let ?U = "{j. j < n \<and> q ! j \<noteq> UNDEFINED}"
  have "?U = {}" using dj_invD(2) [OF 0(4)] by (auto simp: card_eq_0_iff)
  then have "\<forall>y\<in>?U. INFINITY \<le> arr n dist INFINITY y" by auto
  from dj_finish [OF 0(4) assms(2) _ this] 0 show ?case by (auto simp: arr_nth last_hop_arr)
next
  case (Suc c)
  let ?U = "{j. j < n \<and> q ! j \<noteq> UNDEFINED}"
  from dj_scan_ok [OF Suc.prems(1,3)] show ?case
  proof cases
    case 1
    then have "\<forall>y\<in>?U. INFINITY \<le> arr n dist INFINITY y" by (simp add: arr_def)
    from dj_finish [OF Suc.prems(4) assms(2) _ this] 1(1) Suc.prems(1,2) show ?thesis by (auto simp: arr_nth last_hop_arr)
  next
    case (2 m)
    define q' where "q' = q[m := UNDEFINED]"
    have q': "length q' = n" "q' ! m = UNDEFINED" "{j. j < n \<and> q' ! j \<noteq> UNDEFINED} = ?U - {m}"
      using 2(2) Suc.prems(3) by (auto simp: q'_def nth_list_update)
    obtain dist' prev' where r: "for_loop n 0 (dj_relax graph (int n) q' (int m)) (dist, prev) = Inr (dist', prev')"
      "length dist' = n" "length prev' = n"
      "\<forall>j<n. dist' ! j = (if edge graph n m j \<and> q' ! j \<noteq> UNDEFINED \<and> dist ! j > 1 + dist ! m then 1 + dist ! m else dist ! j)"
      "\<forall>j<n. prev' ! j = (if edge graph n m j \<and> q' ! j \<noteq> UNDEFINED \<and> dist ! j > 1 + dist ! m then int m else prev ! j)"
      by (rule dj_relax_ok [OF Suc.prems(1,2) q'(1) assms(1) 2(2) q'(2)])
    have mU: "m \<in> ?U" "arr n dist INFINITY m < INFINITY" "\<forall>y\<in>?U. arr n dist INFINITY m \<le> arr n dist INFINITY y"
      using 2 by (simp_all add: arr_def)
    have U: "q' ! j \<noteq> UNDEFINED \<longleftrightarrow> j \<in> ?U - {m}" if "j < n" for j using q'(3) that by blast
    have "dj_inv (edge graph n) n src (Suc c - 1) (arr n dist' INFINITY) (arr n prev' (- 1)) (?U - {m})"
      by (rule dj_visit [OF Suc.prems(4) assms(2) mU]) (use r(4,5) U 2(2) in \<open>auto simp: arr_def fun_eq_iff\<close>)
    from Suc.IH [OF r(2,3) q'(1) this [folded q'(3), simplified]] show ?thesis
      using 2 r(1) Suc.prems(3) by (simp add: res_simps q'_def)
  qed
qed

lemma dijkstra_ok:
  assumes "length graph = n * n" "src < n" "int n + 1 < INFINITY" "length dist = n" "length prev = n"
  shows "\<exists>dist' prev'. dijkstra graph n (int src) dist prev = Inr (dist', prev') \<and> length dist' = n \<and> length prev' = n \<and>
    (\<forall>x<n. shortest (edge graph n) n src x (dist' ! x) \<and> last_hop (edge graph n) n src ((!) dist') x (prev' ! x))"
proof -
  have "arr n ((replicate n INFINITY)[src := 0]) INFINITY = (\<lambda>x. if x = src then 0 else INFINITY)"
    "arr n ((replicate n UNDEFINED)[src := - 1]) (- 1) = (\<lambda>x. - 1)" "{j. j < n \<and> replicate n 1 ! j \<noteq> UNDEFINED} = {..<n}"
    using assms(2) by (auto simp: arr_def nth_list_update UNDEFINED_def)
  with dj_start [OF assms(2)] dj_main_ok [OF assms(1,3), of "(replicate n INFINITY)[src := 0]" "(replicate n UNDEFINED)[src := - 1]" "replicate n 1"]
  show ?thesis using assms(2) by (simp add: dijkstra_def dj_init_ok assms(4,5) res_simps)
qed

section \<open>Properties\<close>

text \<open>
  C12: on a matrix of \<open>n\<close> nodes, Dijkstra's algorithm returns without an access outside its arrays;
  \<open>dist\<close> holds for every node the length of a shortest walk from the source over the edges marked \<open>1\<close>, or INFINITY if there
  is none, and \<open>prev\<close> the last hop of such a walk.
\<close>

theorem dijkstra_shortest:
  assumes "length graph = n * n" "src < n" "int n + 1 < INFINITY" "length dist = n" "length prev = n"
  shows "\<exists>dist' prev'. dijkstra graph n (int src) dist prev = Inr (dist', prev') \<and> length dist' = n \<and> length prev' = n \<and>
    (\<forall>x<n. shortest (edge graph n) n src x (dist' ! x) \<and> last_hop (edge graph n) n src ((!) dist') x (prev' ! x))"
  using assms by (rule dijkstra_ok)

text \<open>
  Whatever names are added, a name is found exactly if it was added, at an index whose entry
  is that name, and no name is listed twice.
\<close>

theorem nl_add_index:
  "\<exists>i nl. nl_index (foldl nl_add nl_create names) node = (i, nl) \<and> distinct (nl_nodes nl) \<and> set (nl_nodes nl) = set names \<and>
    (i = - 1 \<longleftrightarrow> node \<notin> set names) \<and> (node \<in> set names \<longrightarrow> nl_name nl i = Inr node)"
proof -
  have "nl_ok (foldl nl_add nl names) \<and> set (nl_nodes (foldl nl_add nl names)) = set (nl_nodes nl) \<union> set names" if "nl_ok nl" for nl
    using that by (induction names arbitrary: nl) (use nl_add_ok in auto)
  from this [of nl_create] have ok: "nl_ok (foldl nl_add nl_create names)" "set (nl_nodes (foldl nl_add nl_create names)) = set names"
    by (simp_all add: nl_create_def nl_ok_def)
  obtain i nl where n: "nl_index (foldl nl_add nl_create names) node = (i, nl)" "nl_ok nl"
    "mset (nl_nodes nl) = mset (nl_nodes (foldl nl_add nl_create names))"
    "if node \<in> set names then 0 \<le> i \<and> nat i < length (nl_nodes nl) \<and> nl_nodes nl ! nat i = node else i = - 1"
    using nl_index_spec [OF ok(1), of node] unfolding ok(2) by metis
  have "set (nl_nodes nl) = set names" using n(3) ok(2) by (metis mset_eq_setD)
  with n show ?thesis by (auto simp: nl_ok_def nl_name_def res_simps split: if_splits)
qed

section \<open>Witnesses\<close>

text \<open>A path of three nodes and one node apart.\<close>

definition graph4 :: "int list" where
  "graph4 = [0, 1, 0, 0,  1, 0, 1, 0,  0, 1, 0, 0,  0, 0, 0, 0]"

theorem dijkstra_shortest_witness:
  "dijkstra graph4 4 0 (replicate 4 0) (replicate 4 0) = Inr ([0, 1, 2, INFINITY], [- 1, 0, 1, - 1]) \<and>
   shortest (edge graph4 4) 4 0 2 2 \<and> shortest (edge graph4 4) 4 0 3 INFINITY"
proof -
  have "dijkstra graph4 4 0 (replicate 4 0) (replicate 4 0) = Inr ([0, 1, 2, INFINITY], [- 1, 0, 1, - 1])"
    by code_simp
  moreover have "length graph4 = 4 * 4" "(0 :: nat) < 4" "int 4 + 1 < INFINITY" "length (replicate 4 (0 :: int)) = 4"
    by (simp_all add: graph4_def INFINITY_def)
  from dijkstra_shortest [OF this this(4)] calculation
  have "\<forall>x<4. shortest (edge graph4 4) 4 0 x ([0, 1, 2, INFINITY] ! x)" by auto
  from this [rule_format, of 2] this [rule_format, of 3] have "shortest (edge graph4 4) 4 0 2 2" "shortest (edge graph4 4) 4 0 3 INFINITY"
    by simp_all
  ultimately show ?thesis by simp
qed

theorem nl_add_index_witness:
  "\<exists>i nl. nl_index (foldl nl_add nl_create [''b:1'', ''a:2'', ''b:1'']) ''a:2'' = (i, nl) \<and> nl_name nl i = Inr ''a:2'' \<and>
     distinct (nl_nodes nl)"
  using nl_add_index [of "[''b:1'', ''a:2'', ''b:1'']" "''a:2''"] by auto

end
