(* ===== verification/Connection.thy ===== *)
theory Connection
  imports Link_State Timer
begin

text \<open>
  The state of the link-state node of P5 and the first part of \<^verbatim>\<open>src/P5/connect.c\<close>: the list of files
  and connections, sending, the gossip about the own connections, the graph, and the forwarding of
  messages along shortest paths. The chain of \<open>file_info\<close> structures is the list of their addresses. Buffers are
  lists of characters with their allocated length; strings are without the terminating NUL.
\<close>

section \<open>State\<close>

datatype file_info_type = FI_FREE | FI_FILE | FI_SERVER | FI_INCOMING | FI_OUTGOING

datatype peer_status = FI_UNKNOWN | FI_KNOWN

datatype outgoing_status = FI_CONNECTING | FI_CONNECTED

datatype event_handler = Stdin_handler | Server_handler | Message_handler | Connect_handler

definition POLLIN :: "16 word" where "POLLIN = 1"
definition POLLOUT :: "16 word" where "POLLOUT = 4"
definition POLLERR :: "16 word" where "POLLERR = 8"
definition POLLHUP :: "16 word" where "POLLHUP = 16"

record file_info =
  uid :: nat
  fd :: int
  fi_type :: file_info_type
  fi_status :: peer_status
  fi_addr :: sockaddr
  fi_handler :: "event_handler option"
  fi_events :: "16 word"
  input_buffer :: string
  amount_received :: nat
  output_buffer :: string
  amount_to_send :: nat
  connecting :: outgoing_status
  connect_time :: int

record gossip =
  gossip_src :: sockaddr
  gossip_counter :: int
  gossip_latest :: string

record node =
  files :: "ptr list"
  infos :: "ptr \<Rightarrow> file_info option"
  info_brk :: ptr
  nfiles :: int
  uid_gen :: nat
  gossip_gen :: nat
  g_dist :: "int list option"
  g_prev :: "int list option"
  g_graph :: "int list option"
  my_addr :: sockaddr
  names :: "node_list option"
  gossips :: "gossip list"
  timers :: "timer list"

text \<open>
  What the library and the memory do: the resolver, \<open>inet_addr\<close>, how many bytes may be written to the result of
  \<open>malloc(n)\<close> (the C standard promises \<open>n\<close>), the contents of fresh memory.
\<close>

record lib =
  l_gethost :: "string \<Rightarrow> 32 word option"
  l_inetaddr :: "string \<Rightarrow> 32 word"
  l_usable :: "nat \<Rightarrow> nat"
  l_junk :: "nat \<Rightarrow> char"

definition blank_addr :: sockaddr where
  "blank_addr = \<lparr>sin_family = 0, sin_port = 0, s_addr = 0\<rparr>"

section \<open>Files\<close>

definition file_info_add ::
  "file_info_type \<Rightarrow> int \<Rightarrow> event_handler option \<Rightarrow> 16 word \<Rightarrow> node \<Rightarrow> ptr \<times> node" where
  "file_info_add ty f h ev s =
     (let p = info_brk s;
          k = \<lparr>uid = uid_gen s, fd = f, fi_type = ty, fi_status = FI_UNKNOWN, fi_addr = blank_addr, fi_handler = h, fi_events = ev,
               input_buffer = [], amount_received = 0, output_buffer = [], amount_to_send = 0,
               connecting = FI_CONNECTING, connect_time = 0\<rparr>
      in (p, s\<lparr>infos := (infos s)(p \<mapsto> k), info_brk := Suc p, uid_gen := Suc (uid_gen s), files := p # files s,
               nfiles := nfiles s + 1\<rparr>))"

definition file_info_delete :: "ptr \<Rightarrow> node \<Rightarrow> node res" where
  "file_info_delete p s = bindR (deref (infos s) p) (\<lambda>k.
     Inr (s\<lparr>files := remove1 p (files s), infos := (infos s)(p := None)\<rparr>))"

definition upd_file :: "ptr \<Rightarrow> (file_info \<Rightarrow> file_info) \<Rightarrow> node \<Rightarrow> node res" where
  "upd_file p f s = bindR (deref (infos s) p) (\<lambda>k. Inr (s\<lparr>infos := (infos s)(p \<mapsto> f k)\<rparr>))"

definition put_output :: "string \<Rightarrow> file_info \<Rightarrow> file_info" where
  "put_output m k = k\<lparr>output_buffer := take (amount_to_send k) (output_buffer k) @ m,
     amount_to_send := amount_to_send k + length m\<rparr>"

definition file_info_send :: "ptr \<Rightarrow> string \<Rightarrow> node \<Rightarrow> node res" where
  "file_info_send p m = upd_file p (put_output m)"

fun find_file :: "(file_info \<Rightarrow> bool) \<Rightarrow> ptr list \<Rightarrow> (ptr \<Rightarrow> file_info option) \<Rightarrow> ptr res" where
  "find_file P [] m = Inr NULL"
| "find_file P (p # ps) m = bindR (deref m p) (\<lambda>k. if P k then Inr p else find_file P ps m)"

definition sockaddr_to_file :: "sockaddr \<Rightarrow> node \<Rightarrow> ptr res" where
  "sockaddr_to_file dst s = find_file (\<lambda>k. addr_cmp dst (fi_addr k) = 0) (files s) (infos s)"

fun broadcast_loop :: "ptr list \<Rightarrow> string \<Rightarrow> ptr \<Rightarrow> node \<Rightarrow> node res" where
  "broadcast_loop [] m fi s = Inr s"
| "broadcast_loop (p # ps) m fi s = bindR (deref (infos s) p) (\<lambda>k.
     if fi_type k = FI_FREE \<or> p = fi then broadcast_loop ps m fi s
     else if fi_type k = FI_OUTGOING \<and> connecting k = FI_CONNECTING then broadcast_loop ps m fi s
     else if fi_type k = FI_OUTGOING \<or> fi_type k = FI_INCOMING then bindR (file_info_send p m s) (broadcast_loop ps m fi)
     else broadcast_loop ps m fi s)"

definition file_broadcast :: "string \<Rightarrow> ptr \<Rightarrow> node \<Rightarrow> node res" where
  "file_broadcast m fi s = broadcast_loop (files s) m fi s"

section \<open>Gossip about the own connections\<close>

definition is_peer :: "file_info \<Rightarrow> bool" where
  "is_peer k = (fi_type k = FI_INCOMING \<or> (fi_type k = FI_OUTGOING \<and> fi_status k = FI_KNOWN \<and> connecting k = FI_CONNECTED))"

text \<open>
  The payload, its capacity and the index kept beside it. A write past the capacity is a fault. The
  \<open>sprintf\<close> of the payload into itself appends, as it does in glibc.
\<close>

fun payload_loop :: "lib \<Rightarrow> ptr list \<Rightarrow> (ptr \<Rightarrow> file_info option) \<Rightarrow> nat \<times> nat \<times> string \<Rightarrow> (nat \<times> nat \<times> string) res" where
  "payload_loop lb [] m acc = Inr acc"
| "payload_loop lb (p # ps) m (cap, index, pl) = bindR (deref m p) (\<lambda>k.
     if is_peer k then
       (let a = addr_to_string (fi_addr k);
            cap' = (if length a + index > cap then cap * 2 else cap);
            pl' = pl @ '';'' @ a
        in if length pl' + 1 > l_usable lb cap' then Inl Out_of_bounds
           else payload_loop lb ps m (cap', index + length a + 1, pl'))
     else payload_loop lb ps m (cap, index, pl))"

definition send_gossip :: "lib \<Rightarrow> node \<Rightarrow> node res" where
  "send_gossip lb s = bindR (payload_loop lb (files s) (infos s) (256, 0, [])) (\<lambda>(cap, index, pl).
     if index + 2 > l_usable lb cap then Inl Out_of_bounds
     else
       (let my = addr_to_string (my_addr s);
            gen = Suc (gossip_gen s);
            payload = pl @ [CHR 0x0A];
            g = ''G'' @ my @ ''/'' @ decimal gen @ ''/'' @ payload
        in if length g + 1 > l_usable lb (length payload + length my + 8) then Inl Out_of_bounds
           else file_broadcast g NULL (s\<lparr>gossip_gen := gen\<rparr>)))"

section \<open>The graph\<close>

fun set_edges :: "string \<Rightarrow> string list \<Rightarrow> int \<Rightarrow> node_list \<times> int list \<Rightarrow> (node_list \<times> int list) res" where
  "set_edges src [] n (nl, g) = Inr (nl, g)"
| "set_edges src (t # ts) n (nl, g) = bindR (set_dist nl g n src t 1) (set_edges src ts n)"

fun gossip_edges :: "gossip list \<Rightarrow> int \<Rightarrow> node_list \<times> int list \<Rightarrow> (node_list \<times> int list) res" where
  "gossip_edges [] n ng = Inr ng"
| "gossip_edges (g # gs) n ng =
     (case split_at CHR ''/'' (gossip_latest g) of
        None \<Rightarrow> Inl Null_deref
      | Some (addr, rest) \<Rightarrow>
         (case split_at CHR ''/'' rest of
            None \<Rightarrow> Inl Null_deref
          | Some (ctr, payload) \<Rightarrow> bindR (set_edges addr (strtok_all CHR '';'' payload) n ng) (gossip_edges gs n)))"

fun file_edges :: "string \<Rightarrow> ptr list \<Rightarrow> (ptr \<Rightarrow> file_info option) \<Rightarrow> int \<Rightarrow> node_list \<times> int list \<Rightarrow> (node_list \<times> int list) res" where
  "file_edges my [] m n ng = Inr ng"
| "file_edges my (p # ps) m n (nl, g) = bindR (deref m p) (\<lambda>k.
     if strcmp (addr_to_string (fi_addr k)) my \<noteq> 0 \<and> is_peer k
     then bindR (set_dist nl g n (addr_to_string (fi_addr k)) my 1) (file_edges my ps m n)
     else file_edges my ps m n (nl, g))"

definition updateGraph :: "node \<Rightarrow> node res" where
  "updateGraph s = (case names s of
       None \<Rightarrow> Inl Null_deref
     | Some nl \<Rightarrow>
        (let n = nl_nsites nl; my = addr_to_string (my_addr s) in
         bindR (gossip_edges (gossips s) (int n) (nl, replicate (n * n) 0)) (\<lambda>(nl1, g1).
         let (my_index, nl2) = nl_index nl1 my in
         bindR (file_edges my (files s) (infos s) (int n) (nl2, g1)) (\<lambda>(nl3, g2).
         bindR (dijkstra g2 n my_index (replicate n INFINITY) (replicate n UNDEFINED)) (\<lambda>(d, p).
           Inr (s\<lparr>names := Some nl3, g_graph := Some g2, g_dist := Some d, g_prev := Some p\<rparr>))))))"

section \<open>Forwarding\<close>

text \<open>
  \<open>while (prev[dest_index] != my_index)\<close>, with a turn for each node and one more; \<open>None\<close> when the destination
  is not connected.
\<close>

fun next_hop :: "nat \<Rightarrow> int list \<Rightarrow> int \<Rightarrow> int \<Rightarrow> int option res" where
  "next_hop 0 prv my d = Inl Diverges"
| "next_hop (Suc k) prv my d = bindR (aget prv d) (\<lambda>p.
     if p \<noteq> my then (if p = - 1 then Inr None else next_hop k prv my p) else Inr (Some d))"

definition isalpha_char :: "char \<Rightarrow> bool" where
  "isalpha_char c = (65 \<le> (of_char c :: nat) \<and> (of_char c :: nat) \<le> 90 \<or> 97 \<le> (of_char c :: nat) \<and> (of_char c :: nat) \<le> 122)"

definition NUL :: char where "NUL = CHR 0x00"

text \<open>The result is the line as the call leaves it, the payload if it is printed, and the new state.\<close>

definition send_handler :: "lib \<Rightarrow> string \<Rightarrow> node \<Rightarrow> (string \<times> string option \<times> node) res" where
  "send_handler lb msg s =
     (if msg \<noteq> [] \<and> isalpha_char (hd msg) then Inr (msg, None, s)
      else case split_at CHR ''/'' msg of
        None \<Rightarrow> Inl Null_deref
      | Some (dst, rest) \<Rightarrow>
        (case rsplit_at CHR ''/'' rest of
           None \<Rightarrow> Inl Null_deref
         | Some (ctr, payload) \<Rightarrow>
            (let line = dst @ [NUL] @ ctr @ [NUL] @ payload; my = addr_to_string (my_addr s) in
             if strcmp dst my = 0 then Inr (line, Some payload, s)
             else if atoi ctr = 0 then Inr (line, None, s)
             else case names s of
               None \<Rightarrow> Inl Null_deref
             | Some nl \<Rightarrow>
                (let (dest_index, nl1) = nl_index nl dst; s1 = s\<lparr>names := Some nl1\<rparr> in
                 if dest_index = - 1 then Inr (line, None, s1)
                 else
                  (let (my_index, nl2) = nl_index nl1 my; s2 = s\<lparr>names := Some nl2\<rparr> in
                   case g_prev s of
                     None \<Rightarrow> Inl Null_deref
                   | Some prv \<Rightarrow>
                      bindR (next_hop (Suc (length prv)) prv my_index dest_index) (\<lambda>h.
                      case h of
                        None \<Rightarrow> Inr (line, None, s2)
                      | Some d \<Rightarrow>
                        bindR (nl_name nl2 d) (\<lambda>dest_addr.
                        let ttl = atoi ctr - 1;
                            num = (if ttl < 0 then ''-'' @ decimal (nat (- ttl)) else decimal (nat ttl));
                            str = ''S'' @ dst @ ''/'' @ num @ ''/'' @ payload @ [CHR 0x0A]
                        in if length str + 1 > l_usable lb (length msg) then Inl Out_of_bounds
                           else bindR (find_file (\<lambda>k. strcmp dest_addr (addr_to_string (fi_addr k)) = 0 \<and> is_peer k) (files s2) (infos s2)) (\<lambda>f.
                             if f = NULL then Inr (line, None, s2)
                             else bindR (file_info_send f str s2) (\<lambda>s3. Inr (line, None, s3)))))))))) "

section \<open>The files\<close>

definition files_ok :: "node \<Rightarrow> bool" where
  "files_ok s \<longleftrightarrow> distinct (files s) \<and> 0 < info_brk s \<and> int (length (files s)) = nfiles s \<and>
     (\<forall>p\<in>set (files s). 0 < p \<and> p < info_brk s \<and> infos s p \<noteq> None)"

lemma files_ok_deref: "files_ok s \<Longrightarrow> p \<in> set (files s) \<Longrightarrow> \<exists>k. deref (infos s) p = Inr k \<and> infos s p = Some k"
  by (auto simp: files_ok_def deref_Some)

lemma upd_file_ok [res_simps]: "infos s p = Some k \<Longrightarrow> p \<noteq> NULL \<Longrightarrow> upd_file p f s = Inr (s\<lparr>infos := (infos s)(p \<mapsto> f k)\<rparr>)"
  by (simp add: upd_file_def deref_Some)

lemma files_ok_upd: "files_ok s \<Longrightarrow> files_ok (s\<lparr>infos := (infos s)(p \<mapsto> k)\<rparr>)"
  by (auto simp: files_ok_def)

lemma file_info_add_ok:
  assumes "files_ok s" "file_info_add ty f h ev s = (p, s')"
  shows "files_ok s'" "p \<in> set (files s')" "p \<notin> set (files s)"
  using assms by (auto simp: file_info_add_def files_ok_def Let_def less_SucI)

text \<open>Who gets a broadcast.\<close>

definition hears :: "file_info \<Rightarrow> bool" where
  "hears k \<longleftrightarrow> fi_type k = FI_INCOMING \<or> fi_type k = FI_OUTGOING \<and> connecting k = FI_CONNECTED"

definition told :: "ptr set \<Rightarrow> string \<Rightarrow> (ptr \<Rightarrow> file_info option) \<Rightarrow> ptr \<Rightarrow> file_info option" where
  "told A m i = (\<lambda>p. case i p of None \<Rightarrow> None | Some k \<Rightarrow> Some (if p \<in> A \<and> hears k then put_output m k else k))"

lemma hears_put [simp]: "hears (put_output m k) = hears k"
  by (simp add: hears_def put_output_def)

lemma broadcast_loop_ok:
  "distinct ps \<Longrightarrow> \<forall>p\<in>set ps. p \<noteq> NULL \<and> infos s p \<noteq> None \<Longrightarrow>
   broadcast_loop ps m fi s = Inr (s\<lparr>infos := told (set ps - {fi}) m (infos s)\<rparr>)"
proof (induction ps arbitrary: s)
  case Nil
  have "told {} m (infos s) = infos s" by (auto simp: told_def fun_eq_iff split: option.splits)
  then show ?case by simp
next
  case (Cons p ps)
  then obtain k where k: "infos s p = Some k" "p \<noteq> NULL" by auto
  show ?case
  proof (cases "p \<noteq> fi \<and> hears k")
    case True
    let ?s = "s\<lparr>infos := (infos s)(p \<mapsto> put_output m k)\<rparr>"
    have "broadcast_loop (p # ps) m fi s = broadcast_loop ps m fi ?s"
      using True k by (auto simp: deref_Some file_info_send_def res_simps hears_def)
    also have "\<dots> = Inr (?s\<lparr>infos := told (set ps - {fi}) m (infos ?s)\<rparr>)" using Cons.prems by (intro Cons.IH) auto
    also have "told (set ps - {fi}) m (infos ?s) = told (set (p # ps) - {fi}) m (infos s)"
      using Cons.prems(1) True k by (auto simp: told_def fun_eq_iff split: option.splits)
    finally show ?thesis by simp
  next
    case False
    then have "broadcast_loop (p # ps) m fi s = broadcast_loop ps m fi s"
      using k by (auto simp: deref_Some hears_def) (cases "fi_type k"; cases "connecting k"; auto)+
    also have "\<dots> = Inr (s\<lparr>infos := told (set ps - {fi}) m (infos s)\<rparr>)" using Cons.prems by (intro Cons.IH) auto
    also have "told (set ps - {fi}) m (infos s) = told (set (p # ps) - {fi}) m (infos s)"
      using False k by (auto simp: told_def fun_eq_iff split: option.splits)
    finally show ?thesis by simp
  qed
qed

lemma file_broadcast_ok:
  assumes "files_ok s"
  shows "file_broadcast m fi s = Inr (s\<lparr>infos := told (set (files s) - {fi}) m (infos s)\<rparr>)"
  unfolding file_broadcast_def using assms by (intro broadcast_loop_ok) (auto simp: files_ok_def)

lemma files_ok_told: "files_ok s \<Longrightarrow> files_ok (s\<lparr>infos := told A m (infos s)\<rparr>)"
  by (auto simp: files_ok_def told_def split: option.splits)

section \<open>The graph of the names\<close>

text \<open>The list of names once it has been searched.\<close>

definition settled :: "node_list \<Rightarrow> node_list" where
  "settled nl = (if nl_unsorted nl then nl_sort nl else nl)"

definition posn :: "string list \<Rightarrow> string \<Rightarrow> nat" where
  "posn ns a = nat (nl_search a ns 0 (length ns))"

lemma settled_ok:
  assumes "nl_ok nl"
  shows "nl_ok (settled nl)" "settled (settled nl) = settled nl" "set (nl_nodes (settled nl)) = set (nl_nodes nl)"
    "length (nl_nodes (settled nl)) = length (nl_nodes nl)" "\<not> nl_unsorted (settled nl)"
  using assms by (simp_all add: settled_def nl_sort_def nl_ok_def)

lemma index_settled:
  assumes "nl_ok nl" "ns = nl_nodes (settled nl)"
  shows "nl_index nl a = (if a \<in> set ns then int (posn ns a) else - 1, settled nl)"
    "a \<in> set ns \<Longrightarrow> posn ns a < length ns \<and> ns ! posn ns a = a"
proof -
  have "sorted ns" "distinct ns" using settled_ok(1,5) [OF assms(1)] by (auto simp: nl_ok_def assms(2))
  then have s: "if a \<in> set ns then \<exists>i<length ns. nl_search a ns 0 (length ns) = int i \<and> ns ! i = a else nl_search a ns 0 (length ns) = - 1"
    by (intro nl_search_spec) auto
  then show "nl_index nl a = (if a \<in> set ns then int (posn ns a) else - 1, settled nl)"
    "a \<in> set ns \<Longrightarrow> posn ns a < length ns \<and> ns ! posn ns a = a"
    by (auto simp: nl_index_def settled_def [symmetric] assms(2) [symmetric] Let_def posn_def split: if_splits)
qed

lemma cell_lt: "x < n \<Longrightarrow> y < n \<Longrightarrow> x + n * y < n * (n :: nat)"
proof -
  assume "x < n" "y < n"
  then have "x + n * y < n + n * y" "n * Suc y \<le> n * n" by (simp, intro mult_le_mono2) simp
  then show ?thesis by simp
qed

lemma cell_eq: "x < n \<Longrightarrow> u < n \<Longrightarrow> x + n * y = u + n * v \<longleftrightarrow> x = u \<and> y = (v :: nat)"
proof -
  assume "x < n" "u < n"
  then have "x = (x + n * y) mod n" "u = (u + n * v) mod n" "y = (x + n * y) div n" "v = (u + n * v) div n" by simp_all
  then show ?thesis by metis
qed

text \<open>\<open>linked ns g R\<close>: the matrix \<open>g\<close> holds the relation \<open>R\<close> between the names \<open>ns\<close>.\<close>

definition linked :: "string list \<Rightarrow> int list \<Rightarrow> (string \<Rightarrow> string \<Rightarrow> bool) \<Rightarrow> bool" where
  "linked ns g R \<longleftrightarrow> length g = length ns * length ns \<and>
     (\<forall>x<length ns. \<forall>y<length ns. edge g (length ns) x y \<longleftrightarrow> R (ns ! x) (ns ! y))"

definition joins :: "string \<Rightarrow> string \<Rightarrow> string \<Rightarrow> string \<Rightarrow> bool" where
  "joins a b u v \<longleftrightarrow> u = a \<and> v = b \<or> u = b \<and> v = a"

lemma set_dist_linked:
  assumes "nl_ok nl" "ns = nl_nodes (settled nl)" "linked ns g R"
  shows "\<exists>g'. set_dist nl g (int (length ns)) a b 1 = Inr (settled nl, g') \<and> linked ns g' (\<lambda>u v. R u v \<or> joins a b u v)"
proof -
  let ?n = "length ns"
  have d: "distinct ns" using settled_ok(1) [OF assms(1)] by (simp add: nl_ok_def assms(2))
  note ia = index_settled [OF assms(1,2), of a]
  have ns2: "ns = nl_nodes (settled (settled nl))" using settled_ok(2) [OF assms(1)] assms(2) by simp
  note ib = index_settled [OF settled_ok(1) [OF assms(1)] ns2, of b, unfolded settled_ok(2) [OF assms(1)]]
  show ?thesis
  proof (cases "a \<in> set ns \<and> b \<in> set ns")
    case False
    then have "\<not> joins a b (ns ! x) (ns ! y)" if "x < ?n" "y < ?n" for x y using that nth_mem unfolding joins_def by metis
    with False ia(1) ib(1) assms(3) show ?thesis by (auto simp: set_dist_def linked_def)
  next
    case True
    define x where "x = posn ns a"
    define y where "y = posn ns b"
    have xy: "x < ?n" "ns ! x = a" "y < ?n" "ns ! y = b" using True ia(2) ib(2) by (simp_all add: x_def y_def)
    have lg: "length g = ?n * ?n" using assms(3) by (simp add: linked_def)
    define g' where "g' = g[x + ?n * y := 1, y + ?n * x := 1]"
    have c: "x + ?n * y < length g" "y + ?n * x < length g" using cell_lt xy lg by auto
    have i: "INDEX (int x) (int y) (int ?n) = int (x + ?n * y)" "INDEX (int y) (int x) (int ?n) = int (y + ?n * x)"
      by (simp_all add: INDEX_def)
    have "set_dist nl g (int ?n) a b 1 = Inr (settled nl, g')"
      using True ia(1) ib(1) c unfolding set_dist_def
      by (simp add: x_def [symmetric] y_def [symmetric] i aset_def g'_def nat_add_distrib nat_mult_distrib del: of_nat_add of_nat_mult)
    moreover have "edge g' ?n u v \<longleftrightarrow> R (ns ! u) (ns ! v) \<or> joins a b (ns ! u) (ns ! v)" if uv: "u < ?n" "v < ?n" for u v
    proof -
      have p: "ns ! u = a \<longleftrightarrow> u = x" "ns ! v = b \<longleftrightarrow> v = y" "ns ! u = b \<longleftrightarrow> u = y" "ns ! v = a \<longleftrightarrow> v = x"
        using nth_eq_iff_index_eq [OF d uv(1) xy(1)] nth_eq_iff_index_eq [OF d uv(2) xy(3)] nth_eq_iff_index_eq [OF d uv(1) xy(3)]
          nth_eq_iff_index_eq [OF d uv(2) xy(1)] xy(2,4) by simp_all
      have "g' ! (u + ?n * v) = (if u + ?n * v = y + ?n * x \<or> u + ?n * v = x + ?n * y then 1 else g ! (u + ?n * v))"
        using c by (simp add: g'_def nth_list_update)
      moreover have "g ! (u + ?n * v) = 1 \<longleftrightarrow> R (ns ! u) (ns ! v)" using assms(3) uv by (simp add: linked_def edge_def)
      ultimately show ?thesis unfolding edge_def joins_def p cell_eq [OF uv(1) xy(1)] cell_eq [OF uv(1) xy(3)] by auto
    qed
    ultimately show ?thesis using lg by (auto simp: linked_def g'_def)
  qed
qed

text \<open>A list of links, one after the other.\<close>

lemma set_edges_linked:
  assumes "nl_ok nl" "ns = nl_nodes (settled nl)" "linked ns g R"
  shows "\<exists>nl' g'. set_edges src ts (int (length ns)) (nl, g) = Inr (nl', g') \<and> nl_ok nl' \<and> settled nl' = settled nl \<and>
    linked ns g' (\<lambda>u v. R u v \<or> (\<exists>t\<in>set ts. joins src t u v))"
  using assms
proof (induction ts arbitrary: nl g R)
  case Nil
  then show ?case by simp
next
  case (Cons t ts)
  obtain g1 where g1: "set_dist nl g (int (length ns)) src t 1 = Inr (settled nl, g1)" "linked ns g1 (\<lambda>u v. R u v \<or> joins src t u v)"
    using set_dist_linked [OF Cons.prems] by blast
  note st = settled_ok [OF Cons.prems(1)]
  obtain nl' g' where g': "set_edges src ts (int (length ns)) (settled nl, g1) = Inr (nl', g')" "nl_ok nl'" "settled nl' = settled nl"
    "linked ns g' (\<lambda>u v. (R u v \<or> joins src t u v) \<or> (\<exists>t\<in>set ts. joins src t u v))"
    using Cons.IH [OF st(1) _ g1(2)] Cons.prems(2) st(2) by auto
  then show ?case using g1(1) by (intro exI [of _ nl'] exI [of _ g']) (simp add: disj_assoc)
qed

text \<open>The links that one gossip tells of: its source and the addresses in its payload.\<close>

definition gossip_links :: "gossip \<Rightarrow> (string \<times> string list) option" where
  "gossip_links g = (case split_at CHR ''/'' (gossip_latest g) of None \<Rightarrow> None
     | Some (a, rest) \<Rightarrow> (case split_at CHR ''/'' rest of None \<Rightarrow> None | Some (c, pl) \<Rightarrow> Some (a, strtok_all CHR '';'' pl)))"

definition heard :: "gossip list \<Rightarrow> string \<Rightarrow> string \<Rightarrow> bool" where
  "heard gs u v \<longleftrightarrow> (\<exists>g\<in>set gs. \<exists>a ts. gossip_links g = Some (a, ts) \<and> (\<exists>t\<in>set ts. joins a t u v))"

definition next_to :: "node \<Rightarrow> string \<Rightarrow> string \<Rightarrow> bool" where
  "next_to s u v \<longleftrightarrow> (\<exists>p\<in>set (files s). \<exists>k. infos s p = Some k \<and> is_peer k \<and> addr_to_string (fi_addr k) \<noteq> addr_to_string (my_addr s) \<and>
     joins (addr_to_string (fi_addr k)) (addr_to_string (my_addr s)) u v)"

lemma gossip_edges_linked:
  assumes "nl_ok nl" "ns = nl_nodes (settled nl)" "linked ns m R" "\<forall>g\<in>set gs. gossip_links g \<noteq> None"
  shows "\<exists>nl' g'. gossip_edges gs (int (length ns)) (nl, m) = Inr (nl', g') \<and> nl_ok nl' \<and> settled nl' = settled nl \<and>
    linked ns g' (\<lambda>u v. R u v \<or> heard gs u v)"
  using assms
proof (induction gs arbitrary: nl m R)
  case Nil
  then show ?case by (simp add: heard_def)
next
  case (Cons g gs)
  obtain a rest c pl where sp: "split_at CHR ''/'' (gossip_latest g) = Some (a, rest)" "split_at CHR ''/'' rest = Some (c, pl)"
    using Cons.prems(4) by (auto simp: gossip_links_def split: option.splits)
  obtain nl1 m1 where m1: "set_edges a (strtok_all CHR '';'' pl) (int (length ns)) (nl, m) = Inr (nl1, m1)" "nl_ok nl1" "settled nl1 = settled nl"
    "linked ns m1 (\<lambda>u v. R u v \<or> (\<exists>t\<in>set (strtok_all CHR '';'' pl). joins a t u v))"
    using set_edges_linked [OF Cons.prems(1-3), of a "strtok_all CHR '';'' pl"] by blast
  have "ns = nl_nodes (settled nl1)" using Cons.prems(2) m1(3) by simp
  from Cons.IH [OF m1(2) this m1(4)] Cons.prems(4) obtain nl' g' where g': "gossip_edges gs (int (length ns)) (nl1, m1) = Inr (nl', g')"
    "nl_ok nl'" "settled nl' = settled nl1"
    "linked ns g' (\<lambda>u v. (R u v \<or> (\<exists>t\<in>set (strtok_all CHR '';'' pl). joins a t u v)) \<or> heard gs u v)" by auto
  have "(\<lambda>u v. (R u v \<or> (\<exists>t\<in>set (strtok_all CHR '';'' pl). joins a t u v)) \<or> heard gs u v) = (\<lambda>u v. R u v \<or> heard (g # gs) u v)"
    using sp by (auto simp: heard_def gossip_links_def fun_eq_iff)
  with g' m1(1,3) sp show ?case by (intro exI [of _ nl'] exI [of _ g']) simp
qed

lemma file_edges_linked:
  assumes "nl_ok nl" "ns = nl_nodes (settled nl)" "linked ns m R" "\<forall>p\<in>set ps. p \<noteq> NULL \<and> i p \<noteq> None"
  shows "\<exists>nl' g'. file_edges my ps i (int (length ns)) (nl, m) = Inr (nl', g') \<and> nl_ok nl' \<and> settled nl' = settled nl \<and>
    linked ns g' (\<lambda>u v. R u v \<or> (\<exists>p\<in>set ps. \<exists>k. i p = Some k \<and> is_peer k \<and> addr_to_string (fi_addr k) \<noteq> my \<and>
      joins (addr_to_string (fi_addr k)) my u v))"
  using assms
proof (induction ps arbitrary: nl m R)
  case Nil
  then show ?case by simp
next
  case (Cons p ps)
  obtain k where k: "i p = Some k" "p \<noteq> NULL" using Cons.prems(4) by auto
  let ?a = "addr_to_string (fi_addr k)"
  show ?case
  proof (cases "?a \<noteq> my \<and> is_peer k")
    case True
    obtain m1 where m1: "set_dist nl m (int (length ns)) ?a my 1 = Inr (settled nl, m1)" "linked ns m1 (\<lambda>u v. R u v \<or> joins ?a my u v)"
      using set_dist_linked [OF Cons.prems(1-3)] by blast
    note st = settled_ok [OF Cons.prems(1)]
    have "ns = nl_nodes (settled (settled nl))" using Cons.prems(2) st(2) by simp
    from Cons.IH [OF st(1) this m1(2)] Cons.prems(4) st(2) obtain nl' g' where g':
      "file_edges my ps i (int (length ns)) (settled nl, m1) = Inr (nl', g')" "nl_ok nl'" "settled nl' = settled nl"
      "linked ns g' (\<lambda>u v. (R u v \<or> joins ?a my u v) \<or> (\<exists>p\<in>set ps. \<exists>k. i p = Some k \<and> is_peer k \<and>
        addr_to_string (fi_addr k) \<noteq> my \<and> joins (addr_to_string (fi_addr k)) my u v))" by auto
    then show ?thesis using True k m1(1)
      by (intro exI [of _ nl'] exI [of _ g']) (simp add: deref_Some strcmp_sign disj_assoc)
  next
    case False
    then have "file_edges my (p # ps) i (int (length ns)) (nl, m) = file_edges my ps i (int (length ns)) (nl, m)"
      using k by (auto simp: deref_Some strcmp_sign)
    moreover have "(\<exists>q\<in>set (p # ps). \<exists>k. i q = Some k \<and> is_peer k \<and> addr_to_string (fi_addr k) \<noteq> my \<and> joins (addr_to_string (fi_addr k)) my u v)
      \<longleftrightarrow> (\<exists>q\<in>set ps. \<exists>k. i q = Some k \<and> is_peer k \<and> addr_to_string (fi_addr k) \<noteq> my \<and> joins (addr_to_string (fi_addr k)) my u v)" for u v
      using False k by auto
    ultimately show ?thesis using Cons.IH [OF Cons.prems(1-3)] Cons.prems(4) by simp
  qed
qed

text \<open>The links that the node knows of, and the routes to each name over them.\<close>

definition routes :: "node \<Rightarrow> string list \<Rightarrow> int list \<Rightarrow> int list \<Rightarrow> int list \<Rightarrow> bool" where
  "routes s ns g d p \<longleftrightarrow> (let n = length ns; me = posn ns (addr_to_string (my_addr s)) in
     linked ns g (\<lambda>u v. heard (gossips s) u v \<or> next_to s u v) \<and> length d = n \<and> length p = n \<and> me < n \<and>
     (\<forall>x<n. shortest (edge g n) n me x (d ! x) \<and> last_hop (edge g n) n me ((!) d) x (p ! x)))"

lemma updateGraph_ok:
  assumes nl: "names s = Some nl" "nl_ok nl" "addr_to_string (my_addr s) \<in> set (nl_nodes nl)" "int (length (nl_nodes nl)) + 1 < INFINITY"
    and files: "files_ok s" and gs: "\<forall>g\<in>set (gossips s). gossip_links g \<noteq> None"
  shows "\<exists>nl' g d p. updateGraph s = Inr (s\<lparr>names := Some nl', g_graph := Some g, g_dist := Some d, g_prev := Some p\<rparr>) \<and>
    nl_ok nl' \<and> settled nl' = settled nl \<and> routes s (nl_nodes (settled nl)) g d p"
proof -
  define ns where "ns = nl_nodes (settled nl)"
  define n where "n = length ns"
  let ?my = "addr_to_string (my_addr s)"
  note st = settled_ok [OF nl(2)]
  have n: "nl_nsites nl = n" "int n + 1 < INFINITY" using st(4) nl(4) by (simp_all add: nl_nsites_def n_def ns_def)
  have z: "linked ns (replicate (n * n) 0) (\<lambda>u v. False)"
    using cell_lt by (auto simp: linked_def edge_def n_def)
  obtain nl1 g1 where g1: "gossip_edges (gossips s) (int n) (nl, replicate (n * n) 0) = Inr (nl1, g1)" "nl_ok nl1" "settled nl1 = settled nl"
    "linked ns g1 (\<lambda>u v. False \<or> heard (gossips s) u v)"
    using gossip_edges_linked [OF nl(2) ns_def z gs] unfolding n_def by blast
  have ns1: "ns = nl_nodes (settled nl1)" using g1(3) by (simp add: ns_def)
  have my: "?my \<in> set ns" using nl(3) st(3) by (simp add: ns_def)
  note ix = index_settled [OF g1(2) ns1, of ?my]
  define src where "src = posn ns ?my"
  have src: "nl_index nl1 ?my = (int src, settled nl)" "src < n" using ix my g1(3) by (simp_all add: src_def n_def)
  have "\<forall>p\<in>set (files s). p \<noteq> NULL \<and> infos s p \<noteq> None" using files by (auto simp: files_ok_def)
  from file_edges_linked [OF st(1) _ g1(4) this, of ?my] st(2) obtain nl3 g2 where g2:
    "file_edges ?my (files s) (infos s) (int n) (settled nl, g1) = Inr (nl3, g2)" "nl_ok nl3" "settled nl3 = settled nl"
    "linked ns g2 (\<lambda>u v. heard (gossips s) u v \<or> next_to s u v)"
    unfolding next_to_def n_def by (auto simp: ns_def)
  have "length g2 = n * n" using g2(4) by (simp add: linked_def n_def)
  from dijkstra_ok [OF this src(2) n(2), of "replicate n INFINITY" "replicate n UNDEFINED"] obtain d p where dp:
    "dijkstra g2 n (int src) (replicate n INFINITY) (replicate n UNDEFINED) = Inr (d, p)" "length d = n" "length p = n"
    "\<forall>x<n. shortest (edge g2 n) n src x (d ! x) \<and> last_hop (edge g2 n) n src ((!) d) x (p ! x)" by auto
  have "updateGraph s = Inr (s\<lparr>names := Some nl3, g_graph := Some g2, g_dist := Some d, g_prev := Some p\<rparr>)"
    using nl(1) n(1) g1(1) src(1) g2(1) dp(1) by (simp add: updateGraph_def Let_def)
  moreover have "routes s ns g2 d p" using g2(4) dp(2-4) src(2) by (simp add: routes_def Let_def n_def src_def)
  ultimately show ?thesis using g2(2,3) by (auto simp: ns_def)
qed

section \<open>The next hop\<close>

text \<open>
  The chain of last hops leads back to the source through a node at every smaller distance, so a turn for
  each node is enough; it ends at a neighbour of the source on a shortest walk.
\<close>

lemma shortest_src: "shortest E n src src d \<Longrightarrow> d = 0"
  by (auto simp: shortest_def split: if_splits) (metis gr_zeroI hops.simps(1))+

lemma shortest_0: "shortest E n src x 0 \<Longrightarrow> x = src"
  by (auto simp: shortest_def INFINITY_def)

lemma last_hop_step:
  assumes "\<forall>x<n. shortest E n src x (d ! x) \<and> last_hop E n src ((!) d) x (p ! x)" "x < n" "d ! x = int (Suc k)" "d ! x \<noteq> INFINITY"
  obtains y where "y < n" "p ! x = int y" "E y x" "d ! y = int k" "d ! y \<noteq> INFINITY"
proof -
  have "x \<noteq> src" using assms(1-3) shortest_src by force
  with assms show thesis using that by (force simp: last_hop_def)
qed

lemma last_hop_chain:
  assumes "\<forall>x<n. shortest E n src x (d ! x) \<and> last_hop E n src ((!) d) x (p ! x)"
  shows "x < n \<Longrightarrow> d ! x = int k \<Longrightarrow> d ! x \<noteq> INFINITY \<Longrightarrow> j \<le> k \<Longrightarrow> \<exists>y<n. d ! y = int j"
proof (induction k arbitrary: x)
  case 0
  then show ?case by auto
next
  case (Suc k)
  obtain y where "y < n" "d ! y = int k" "d ! y \<noteq> INFINITY" using last_hop_step [OF assms Suc.prems(1,2,3)] .
  with Suc.IH Suc.prems show ?case by (cases "j = Suc k") auto
qed

lemma distance_lt:
  assumes "\<forall>x<n. shortest E n src x (d ! x) \<and> last_hop E n src ((!) d) x (p ! x)" "x < n" "d ! x = int k" "d ! x \<noteq> INFINITY"
  shows "k < n"
proof -
  have "{0..k} \<subseteq> (\<lambda>y. nat (d ! y)) ` {..<n}"
  proof
    fix j assume "j \<in> {0..k}"
    then obtain y where "y < n" "d ! y = int j" using last_hop_chain [OF assms] by auto
    then show "j \<in> (\<lambda>y. nat (d ! y)) ` {..<n}" by (intro image_eqI [of _ _ y]) auto
  qed
  then have "card {0..k} \<le> card ((\<lambda>y. nat (d ! y)) ` {..<n})" by (intro card_mono) auto
  also have "\<dots> \<le> n" using card_image_le [of "{..<n}"] by force
  finally show ?thesis by simp
qed

lemma next_hop_chain:
  assumes r: "\<forall>x<n. shortest E n src x (d ! x) \<and> last_hop E n src ((!) d) x (p ! x)" "length p = n" "src < n"
  shows "x < n \<Longrightarrow> d ! x = int (Suc k) \<Longrightarrow> d ! x \<noteq> INFINITY \<Longrightarrow> k < fuel \<Longrightarrow>
    \<exists>h<n. next_hop fuel p (int src) (int x) = Inr (Some (int h)) \<and> E src h \<and> d ! h = 1 \<and> hops E n h k x"
proof (induction k arbitrary: x fuel)
  case 0
  obtain y where y: "y < n" "p ! x = int y" "E y x" "d ! y = int 0" "d ! y \<noteq> INFINITY" using last_hop_step [OF r(1) "0.prems"(1-3)] .
  then have "y = src" using r(1) shortest_0 by force
  with y 0 r(2) show ?case by (cases fuel) (auto simp: aget_def)
next
  case (Suc k)
  obtain y where y: "y < n" "p ! x = int y" "E y x" "d ! y = int (Suc k)" "d ! y \<noteq> INFINITY"
    using last_hop_step [OF r(1) Suc.prems(1-3)] .
  then have ne: "y \<noteq> src" using r(1,3) shortest_src by force
  obtain f where f: "fuel = Suc f" "k < f" using Suc.prems(4) by (cases fuel) auto
  obtain h where h: "h < n" "next_hop f p (int src) (int y) = Inr (Some (int h))" "E src h" "d ! h = 1" "hops E n h k y"
    using Suc.IH [OF y(1,4,5) f(2)] by blast
  have "next_hop fuel p (int src) (int x) = Inr (Some (int h))" using h(2) y(2) ne Suc.prems(1) r(2) by (simp add: f(1) aget_def)
  moreover have "hops E n h (Suc k) x" using h(5) y(1,3) by auto
  ultimately show ?case using h by blast
qed

lemma next_hop_ok:
  assumes r: "\<forall>x<n. shortest E n src x (d ! x) \<and> last_hop E n src ((!) d) x (p ! x)" "length p = n" "src < n" "x < n" "x \<noteq> src"
  shows "if d ! x = INFINITY then next_hop (Suc (length p)) p (int src) (int x) = Inr None
    else \<exists>h<n. next_hop (Suc (length p)) p (int src) (int x) = Inr (Some (int h)) \<and> E src h \<and> hops E n h (nat (d ! x - 1)) x"
proof (cases "d ! x = INFINITY")
  case True
  then have "p ! x = - 1" using r by (auto simp: last_hop_def)
  with True r show ?thesis by (simp add: aget_def)
next
  case False
  moreover have sh: "shortest E n src x (d ! x)" using r(1,4) by auto
  ultimately obtain k where k: "d ! x = int k" by (auto simp: shortest_def)
  have "k \<noteq> 0" using shortest_0 [of E n src x] sh k r(5) by (cases k) auto
  then obtain j where j: "k = Suc j" by (cases k) auto
  have "k < n" using distance_lt [OF r(1,4) k False] .
  then have "j < Suc (length p)" using r(2) j by simp
  from next_hop_chain [OF r(1-3) r(4) k [unfolded j] False this] False k j show ?thesis by auto
qed

end
