(* ===== verification/Gossip.thy ===== *)
theory Gossip
  imports Connection
begin

text \<open>
  \<^verbatim>\<open>src/P5/gossip.c\<close>: the messages that flood the network. A message carries its source and a counter; a
  node keeps the latest message of each source, passes a new one on to all its peers but the one it came
  from, and ignores one it knows. The calls get the line as a string and return the characters they leave
  in its place, which the reader of the input buffer sees later.
\<close>

section \<open>Operations\<close>

text \<open>
  Without a node list the code calls \<open>nl_add\<close> with one argument for two parameters. A payload without
  its leading separator makes \<open>start += 2\<close> step over the end of the string.
\<close>

definition updateFromGossip :: "string \<Rightarrow> node \<Rightarrow> node res" where
  "updateFromGossip g s = (case names s of
       None \<Rightarrow> Inl Bad_call
     | Some nl \<Rightarrow> (case rsplit_at CHR ''/'' g of
         None \<Rightarrow> Inl Null_deref
       | Some (a, start) \<Rightarrow>
           if start = [] then Inl Out_of_bounds
           else updateGraph (s\<lparr>names := Some (foldl nl_add nl (strtok_all CHR '';'' (tl start @ '';'')))\<rparr>)))"

text \<open>The search for the source: the entries before it, the entry, the entries behind it.\<close>

fun gossip_search :: "sockaddr \<Rightarrow> gossip list \<Rightarrow> (gossip list \<times> gossip \<times> gossip list) option" where
  "gossip_search a [] = None"
| "gossip_search a (g # gs) =
     (if addr_cmp (gossip_src g) a \<noteq> 0
      then case gossip_search a gs of None \<Rightarrow> None | Some (before, h, after) \<Rightarrow> Some (g # before, h, after)
      else Some ([], g, gs))"

text \<open>The list with the message saved, or \<open>None\<close> if it is known.\<close>

definition save_gossip :: "sockaddr \<Rightarrow> int \<Rightarrow> string \<Rightarrow> gossip list \<Rightarrow> gossip list option" where
  "save_gossip a c line gs = (case gossip_search a gs of
       None \<Rightarrow> Some (\<lparr>gossip_src = a, gossip_counter = c, gossip_latest = line\<rparr> # gs)
     | Some (before, g, after) \<Rightarrow>
         if gossip_counter g \<ge> c then None else Some (before @ g\<lparr>gossip_counter := c, gossip_latest := line\<rparr> # after))"

definition gossip_received :: "lib \<Rightarrow> ptr \<Rightarrow> string \<Rightarrow> node \<Rightarrow> (string \<times> node) res" where
  "gossip_received lb fi line s = (case split_at CHR '':'' line of
       None \<Rightarrow> Inr (line, s)
     | Some (host, rest) \<Rightarrow> (case split_at CHR ''/'' rest of
         None \<Rightarrow> Inr (host @ [NUL] @ rest, s)
       | Some (port, rest2) \<Rightarrow> (case split_at CHR ''/'' rest2 of
           None \<Rightarrow> Inr (host @ [NUL] @ port @ [NUL] @ rest2, s)
         | Some (ctr, payload) \<Rightarrow>
            (let a = snd (addr_get (l_gethost lb) (l_inetaddr lb) host (atoi port)) in
             case save_gossip a (atoi ctr) line (gossips s) of
               None \<Rightarrow> Inr (host @ [NUL] @ port @ [NUL] @ ctr @ [NUL] @ payload, s)
             | Some gs \<Rightarrow> bindR (updateFromGossip line (s\<lparr>gossips := gs\<rparr>)) (\<lambda>s1.
                 bindR (file_broadcast (''G'' @ line @ [CHR 0x0A]) fi s1) (\<lambda>s2. Inr (line, s2)))))))"

fun send_all :: "gossip list \<Rightarrow> ptr \<Rightarrow> node \<Rightarrow> node res" where
  "send_all [] fi s = Inr s"
| "send_all (g # gs) fi s = bindR (file_info_send fi ''G'' s) (\<lambda>s1. bindR (file_info_send fi (gossip_latest g) s1) (\<lambda>s2.
     bindR (file_info_send fi [CHR 0x0A] s2) (send_all gs fi)))"

definition gossip_to_peer :: "ptr \<Rightarrow> node \<Rightarrow> node res" where
  "gossip_to_peer fi s = send_all (gossips s) fi s"

section \<open>What a node knows\<close>

definition counter_of :: "sockaddr \<Rightarrow> gossip list \<Rightarrow> int option" where
  "counter_of a gs = map_option (\<lambda>(before, g, after). gossip_counter g) (gossip_search a gs)"

lemma gossip_search_Some:
  "gossip_search a gs = Some (before, g, after) \<Longrightarrow> gs = before @ g # after \<and> gossip_src g = a \<and> (\<forall>h\<in>set before. gossip_src h \<noteq> a)"
  by (induction gs arbitrary: before) (auto simp: addr_cmp_0 split: if_splits option.splits)

lemma gossip_search_append:
  "\<forall>h\<in>set before. gossip_src h \<noteq> a \<Longrightarrow> gossip_src g = a \<Longrightarrow> gossip_search a (before @ g # after) = Some (before, g, after)"
  by (induction before) (auto simp: addr_cmp_0)

lemma gossip_search_other:
  "b \<noteq> a \<Longrightarrow> gossip_src g = a \<Longrightarrow> gossip_src g' = a \<Longrightarrow>
   counter_of b (before @ g # after) = counter_of b (before @ g' # after)"
  by (induction before) (auto simp: addr_cmp_0 counter_of_def split: option.splits)

text \<open>A message is saved exactly if its counter is higher than the one known for its source.\<close>

lemma save_gossip_known: "save_gossip a c line gs = None \<longleftrightarrow> (\<exists>c'. counter_of a gs = Some c' \<and> c \<le> c')"
  by (auto simp: save_gossip_def counter_of_def split: option.splits)

lemma save_gossip_counter:
  assumes "save_gossip a c line gs = Some gs'"
  shows "counter_of b gs' = (if b = a then Some c else counter_of b gs)"
proof (cases "gossip_search a gs")
  case None
  then show ?thesis using assms by (auto simp: save_gossip_def counter_of_def addr_cmp_0 split: option.splits)
next
  case (Some x)
  obtain before g after where x: "x = (before, g, after)" by (cases x)
  note sp = gossip_search_Some [OF Some [unfolded x]]
  let ?g = "g\<lparr>gossip_counter := c, gossip_latest := line\<rparr>"
  have gs': "gs' = before @ ?g # after" using assms Some x by (auto simp: save_gossip_def split: if_splits)
  show ?thesis
  proof (cases "b = a")
    case True
    have "gossip_search a gs' = Some (before, ?g, after)" unfolding gs' using sp by (intro gossip_search_append) auto
    then show ?thesis using True by (simp add: counter_of_def)
  next
    case False
    then show ?thesis using sp gossip_search_other [OF False, of ?g g before after] gs' by simp
  qed
qed

lemma save_gossip_set:
  "save_gossip a c line gs = Some gs' \<Longrightarrow> g \<in> set gs' \<Longrightarrow> g \<in> set gs \<or> gossip_latest g = line"
  using gossip_search_Some by (fastforce simp: save_gossip_def split: option.splits if_splits)

lemma save_gossip_saved:
  "save_gossip a c line gs = Some gs' \<Longrightarrow> \<exists>g\<in>set gs'. gossip_src g = a \<and> gossip_counter g = c \<and> gossip_latest g = line"
  using gossip_search_Some by (fastforce simp: save_gossip_def split: option.splits if_splits)

section \<open>The format\<close>

text \<open>The line that a node sends about itself, without the leading G, is parsed to its address and its counter.\<close>

definition gossip_line :: "sockaddr \<Rightarrow> nat \<Rightarrow> string \<Rightarrow> string" where
  "gossip_line a c payload = addr_to_string a @ ''/'' @ decimal c @ ''/'' @ payload"

lemma slash_no: "CHR ''/'' \<notin> set (decimal n)" "CHR ''/'' \<notin> set (inet_ntoa x)" "CHR '':'' \<notin> set (inet_ntoa x)"
  by (simp_all add: decimal_no inet_ntoa_no)

lemma gossip_line_split:
  "split_at CHR '':'' (gossip_line a c pl) = Some (inet_ntoa (s_addr a), decimal (unat (htons (sin_port a))) @ ''/'' @ decimal c @ ''/'' @ pl)"
  "split_at CHR ''/'' (decimal (unat (htons (sin_port a))) @ ''/'' @ decimal c @ ''/'' @ pl) = Some (decimal (unat (htons (sin_port a))), decimal c @ ''/'' @ pl)"
  "split_at CHR ''/'' (decimal c @ ''/'' @ pl) = Some (decimal c, pl)"
  "split_at CHR ''/'' (gossip_line a c pl) = Some (addr_to_string a, decimal c @ ''/'' @ pl)"
proof -
  show "split_at CHR '':'' (gossip_line a c pl) = Some (inet_ntoa (s_addr a), decimal (unat (htons (sin_port a))) @ ''/'' @ decimal c @ ''/'' @ pl)"
    using split_at_append [OF slash_no(3)] by (simp add: gossip_line_def addr_to_string_def)
  show "split_at CHR ''/'' (decimal (unat (htons (sin_port a))) @ ''/'' @ decimal c @ ''/'' @ pl) = Some (decimal (unat (htons (sin_port a))), decimal c @ ''/'' @ pl)"
    "split_at CHR ''/'' (decimal c @ ''/'' @ pl) = Some (decimal c, pl)"
    using split_at_append [OF slash_no(1)] by simp_all
  have "CHR ''/'' \<notin> set (addr_to_string a)" by (simp add: addr_to_string_def slash_no)
  from split_at_append [OF this] show "split_at CHR ''/'' (gossip_line a c pl) = Some (addr_to_string a, decimal c @ ''/'' @ pl)"
    by (simp add: gossip_line_def)
qed

lemma gossip_line_addr:
  assumes "sin_family a = AF_INET" "l_inetaddr lb (inet_ntoa (s_addr a)) = s_addr a"
  shows "snd (addr_get (l_gethost lb) (l_inetaddr lb) (inet_ntoa (s_addr a)) (atoi (decimal (unat (htons (sin_port a)))))) = a"
proof -
  have "atoi (decimal (unat (htons (sin_port a)))) = int (unat (htons (sin_port a)))" using atoi_decimal [of "[]"] by simp
  then show ?thesis using assms inet_ntoa_digit [of "s_addr a"] by (simp add: addr_get_def)
qed

lemma gossip_line_received:
  assumes "sin_family a = AF_INET" "l_inetaddr lb (inet_ntoa (s_addr a)) = s_addr a" "line = gossip_line a c pl"
  shows "gossip_received lb fi line s = (case save_gossip a (int c) line (gossips s) of
     None \<Rightarrow> Inr (inet_ntoa (s_addr a) @ [NUL] @ decimal (unat (htons (sin_port a))) @ [NUL] @ decimal c @ [NUL] @ pl, s)
   | Some gs \<Rightarrow> bindR (updateFromGossip line (s\<lparr>gossips := gs\<rparr>)) (\<lambda>s1.
       bindR (file_broadcast (''G'' @ line @ [CHR 0x0A]) fi s1) (\<lambda>s2. Inr (line, s2))))"
  using assms(1,2) atoi_decimal [of "[]" c] unfolding assms(3)
  by (simp add: gossip_received_def gossip_line_split gossip_line_split(2) [simplified] gossip_line_split(3) [simplified]
      gossip_line_addr Let_def)

section \<open>A well-formed node\<close>

text \<open>
  The node knows its own name, every gossip it keeps has its two separators, the files are there, and
  there is room for \<open>m\<close> more names.
\<close>

definition node_inv :: "nat \<Rightarrow> node \<Rightarrow> bool" where
  "node_inv m s \<longleftrightarrow> (\<exists>nl. names s = Some nl \<and> nl_ok nl \<and> addr_to_string (my_addr s) \<in> set (nl_nodes nl) \<and>
     int (length (nl_nodes nl) + m) + 1 < INFINITY) \<and> files_ok s \<and> (\<forall>g\<in>set (gossips s). gossip_links g \<noteq> None)"

lemma nl_add_length: "length (nl_nodes (nl_add nl a)) \<le> Suc (length (nl_nodes nl))"
  by (auto simp: nl_add_def nl_index_def nl_sort_def Let_def)

lemma foldl_nl_add:
  "nl_ok nl \<Longrightarrow> nl_ok (foldl nl_add nl ts) \<and> set (nl_nodes (foldl nl_add nl ts)) = set (nl_nodes nl) \<union> set ts \<and>
   length (nl_nodes (foldl nl_add nl ts)) \<le> length (nl_nodes nl) + length ts"
proof (induction ts arbitrary: nl)
  case (Cons t ts)
  from Cons.IH [of "nl_add nl t"] nl_add_ok [OF Cons.prems, of t] nl_add_length [of nl t] show ?case by auto
qed simp

text \<open>The graph is recomputed without a fault.\<close>

lemma updateGraph_inv:
  assumes "node_inv m s"
  shows "\<exists>nl nl' g d p. names s = Some nl \<and> updateGraph s = Inr (s\<lparr>names := Some nl', g_graph := Some g, g_dist := Some d, g_prev := Some p\<rparr>) \<and>
    settled nl' = settled nl \<and> routes s (nl_nodes (settled nl)) g d p \<and>
    node_inv m (s\<lparr>names := Some nl', g_graph := Some g, g_dist := Some d, g_prev := Some p\<rparr>)"
proof -
  obtain nl where nl: "names s = Some nl" "nl_ok nl" "addr_to_string (my_addr s) \<in> set (nl_nodes nl)"
    "int (length (nl_nodes nl) + m) + 1 < INFINITY" using assms by (auto simp: node_inv_def)
  have f: "files_ok s" "\<forall>g\<in>set (gossips s). gossip_links g \<noteq> None" using assms by (simp_all add: node_inv_def)
  obtain nl' g d p where u: "updateGraph s = Inr (s\<lparr>names := Some nl', g_graph := Some g, g_dist := Some d, g_prev := Some p\<rparr>)"
    "nl_ok nl'" "settled nl' = settled nl" "routes s (nl_nodes (settled nl)) g d p"
    using updateGraph_ok [OF nl(1-3) _ f] nl(4) by auto
  have "set (nl_nodes nl') = set (nl_nodes nl)" "length (nl_nodes nl') = length (nl_nodes nl)"
    using settled_ok(3,4) [OF u(2)] settled_ok(3,4) [OF nl(2)] u(3) by simp_all
  then have "node_inv m (s\<lparr>names := Some nl', g_graph := Some g, g_dist := Some d, g_prev := Some p\<rparr>)"
    using nl u(2) f by (auto simp: node_inv_def files_ok_def)
  with nl(1) u show ?thesis by blast
qed

lemma updateFromGossip_ok:
  assumes inv: "node_inv m s" and line: "line = gossip_line a c pl" "CHR ''/'' \<notin> set pl" "pl \<noteq> []"
    and ts: "ts = strtok_all CHR '';'' (tl pl @ '';'')" "length ts \<le> m"
  shows "\<exists>nl nl' g d p s'. updateFromGossip line s = Inr s' \<and> names s = Some nl \<and>
    s' = s\<lparr>names := Some nl', g_graph := Some g, g_dist := Some d, g_prev := Some p\<rparr> \<and> node_inv 0 s' \<and>
    set (nl_nodes nl') = set (nl_nodes nl) \<union> set ts \<and> routes s (nl_nodes (settled nl')) g d p"
proof -
  obtain nl where nl: "names s = Some nl" "nl_ok nl" "addr_to_string (my_addr s) \<in> set (nl_nodes nl)"
    "int (length (nl_nodes nl) + m) + 1 < INFINITY" using inv by (auto simp: node_inv_def)
  note add = foldl_nl_add [OF nl(2), of ts]
  define s1 where "s1 = s\<lparr>names := Some (foldl nl_add nl ts)\<rparr>"
  have "node_inv 0 s1" using inv nl add ts(2) by (auto simp: node_inv_def s1_def files_ok_def)
  from updateGraph_inv [OF this] obtain nl' g d p where u:
    "updateGraph s1 = Inr (s1\<lparr>names := Some nl', g_graph := Some g, g_dist := Some d, g_prev := Some p\<rparr>)"
    "settled nl' = settled (foldl nl_add nl ts)" "routes s1 (nl_nodes (settled (foldl nl_add nl ts))) g d p"
    "node_inv 0 (s1\<lparr>names := Some nl', g_graph := Some g, g_dist := Some d, g_prev := Some p\<rparr>)" by (auto simp: s1_def)
  have "rsplit_at CHR ''/'' line = Some (addr_to_string a @ ''/'' @ decimal c, pl)"
    using rsplit_at_append [OF line(2), of "addr_to_string a @ ''/'' @ decimal c"] by (simp add: line(1) gossip_line_def)
  then have call: "updateFromGossip line s = Inr (s1\<lparr>names := Some nl', g_graph := Some g, g_dist := Some d, g_prev := Some p\<rparr>)"
    using nl(1) line(3) u(1) by (simp add: updateFromGossip_def s1_def ts(1))
  have "nl_ok nl'" using u(4) by (simp add: node_inv_def)
  then have "set (nl_nodes nl') = set (nl_nodes nl) \<union> set ts" using settled_ok(3) [of nl'] settled_ok(3) [of "foldl nl_add nl ts"] u(2) add by simp
  moreover have "routes s (nl_nodes (settled nl')) g d p" using u(2,3) by (simp add: routes_def s1_def next_to_def)
  ultimately show ?thesis using call nl(1) u(4) by (auto simp: s1_def)
qed

lemma gossip_line_links: "gossip_latest g = gossip_line a c pl \<Longrightarrow> gossip_links g = Some (addr_to_string a, strtok_all CHR '';'' pl)"
  by (simp add: gossip_links_def gossip_line_split gossip_line_split(3) [simplified])

section \<open>Properties\<close>

text \<open>
  C14: a gossip with a counter that is not above the one known for its source changes nothing and is not passed on. A
  new one is saved, its addresses become known, the routes are recomputed, and it is appended, as it came, to the output of exactly
  the connected peers but the one it came from; after that it is known, from wherever it arrives again.
\<close>

theorem gossip_flood_once:
  assumes inv: "node_inv m s" and line: "line = gossip_line a c pl" "CHR ''/'' \<notin> set pl" "pl \<noteq> []"
    and ts: "ts = strtok_all CHR '';'' (tl pl @ '';'')" "length ts \<le> m"
    and addr: "sin_family a = AF_INET" "l_inetaddr lb (inet_ntoa (s_addr a)) = s_addr a"
  shows "if \<exists>c'. counter_of a (gossips s) = Some c' \<and> int c \<le> c'
    then \<exists>l. gossip_received lb fi line s = Inr (l, s)
    else \<exists>s' nl nl' g d p. gossip_received lb fi line s = Inr (line, s') \<and> node_inv 0 s' \<and>
      (\<forall>b. counter_of b (gossips s') = (if b = a then Some (int c) else counter_of b (gossips s))) \<and>
      infos s' = told (set (files s) - {fi}) (''G'' @ line @ [CHR 0x0A]) (infos s) \<and>
      names s = Some nl \<and> names s' = Some nl' \<and> set (nl_nodes nl') = set (nl_nodes nl) \<union> set ts \<and>
      g_dist s' = Some d \<and> g_prev s' = Some p \<and> routes (s\<lparr>gossips := gossips s'\<rparr>) (nl_nodes (settled nl')) g d p \<and>
      (\<forall>fi'. \<exists>l. gossip_received lb fi' line s' = Inr (l, s'))"
proof (cases "save_gossip a (int c) line (gossips s)")
  case None
  then have "\<exists>c'. counter_of a (gossips s) = Some c' \<and> int c \<le> c'" using save_gossip_known [of a "int c" line "gossips s"] by simp
  moreover have "\<exists>l. gossip_received lb fi line s = Inr (l, s)" using None gossip_line_received [OF addr line(1), of fi s] by simp
  ultimately show ?thesis by simp
next
  case (Some gs)
  have ne: "\<not> (\<exists>c'. counter_of a (gossips s) = Some c' \<and> int c \<le> c')" using Some save_gossip_known [of a "int c" line "gossips s"] by auto
  have "gossip_links g \<noteq> None" if "g \<in> set gs" for g
    using save_gossip_set [OF Some that] inv gossip_line_links [of g a c pl] line(1) by (auto simp: node_inv_def)
  then have "node_inv m (s\<lparr>gossips := gs\<rparr>)" using inv by (auto simp: node_inv_def files_ok_def)
  from updateFromGossip_ok [OF this line ts] obtain nl nl' g d p s1 where u: "updateFromGossip line (s\<lparr>gossips := gs\<rparr>) = Inr s1"
    "names s = Some nl" "s1 = s\<lparr>gossips := gs, names := Some nl', g_graph := Some g, g_dist := Some d, g_prev := Some p\<rparr>"
    "node_inv 0 s1" "set (nl_nodes nl') = set (nl_nodes nl) \<union> set ts" "routes (s\<lparr>gossips := gs\<rparr>) (nl_nodes (settled nl')) g d p" by auto
  define s2 where "s2 = s1\<lparr>infos := told (set (files s) - {fi}) (''G'' @ line @ [CHR 0x0A]) (infos s)\<rparr>"
  have f: "files_ok s1" using u(4) by (simp add: node_inv_def)
  have "file_broadcast (''G'' @ line @ [CHR 0x0A]) fi s1 = Inr s2" using file_broadcast_ok [OF f] by (simp add: u(3) s2_def)
  then have call: "gossip_received lb fi line s = Inr (line, s2)"
    using gossip_line_received [OF addr line(1), of fi s] Some u(1) by simp
  have "node_inv 0 s2" using u(4) files_ok_told [OF f, of "set (files s) - {fi}" "''G'' @ line @ [CHR 0x0A]"] u(3)
    by (auto simp: node_inv_def s2_def)
  moreover have cnt: "\<forall>b. counter_of b (gossips s2) = (if b = a then Some (int c) else counter_of b (gossips s))"
    using save_gossip_counter [OF Some] by (simp add: s2_def u(3))
  moreover have "\<exists>l. gossip_received lb fi' line s2 = Inr (l, s2)" for fi'
  proof -
    have "counter_of a (gossips s2) = Some (int c)" using cnt by simp
    then have "save_gossip a (int c) line (gossips s2) = None" using save_gossip_known [of a "int c" line "gossips s2"] by auto
    then show ?thesis using gossip_line_received [OF addr line(1), of fi' s2] by simp
  qed
  ultimately show ?thesis using ne call u(2,5,6)
    by (intro if_not_P [THEN iffD2] exI [of _ s2] exI [of _ nl] exI [of _ nl'] exI [of _ g] exI [of _ d] exI [of _ p]) (simp_all add: s2_def u(3))
qed

text \<open>A node that knows only itself and has one peer, at the descriptor at \<open>2\<close>; a message comes in at \<open>3\<close>.\<close>

definition host_at :: "32 word \<Rightarrow> sockaddr" where
  "host_at x = \<lparr>sin_family = AF_INET, sin_port = 0x5000, s_addr = x\<rparr>"

definition peer_info :: "int \<Rightarrow> sockaddr \<Rightarrow> file_info" where
  "peer_info f a = \<lparr>uid = nat f, fd = f, fi_type = FI_INCOMING, fi_status = FI_KNOWN, fi_addr = a, fi_handler = None, fi_events = POLLIN,
     input_buffer = [], amount_received = 0, output_buffer = [], amount_to_send = 0, connecting = FI_CONNECTING, connect_time = 0\<rparr>"

definition small_node :: node where
  "small_node = \<lparr>files = [3, 2], infos = [2 \<mapsto> peer_info 5 (host_at 2), 3 \<mapsto> peer_info 6 (host_at 3)], info_brk = 4, nfiles = 2, uid_gen = 7,
     gossip_gen = 0, g_dist = None, g_prev = None, g_graph = None, my_addr = host_at 1,
     names = Some \<lparr>nl_nodes = [addr_to_string (host_at 1)], nl_unsorted = False\<rparr>, gossips = [], timers = []\<rparr>"

definition quad_lib :: lib where
  "quad_lib = \<lparr>l_gethost = (\<lambda>h. None), l_inetaddr = read_quad, l_usable = (\<lambda>n. n + 16), l_junk = (\<lambda>i. CHR ''x'')\<rparr>"

lemma small_node_inv: "node_inv 1 small_node"
  by (simp add: node_inv_def small_node_def nl_ok_def files_ok_def INFINITY_def)

theorem gossip_flood_once_witness:
  "\<exists>s'. gossip_received quad_lib 3 (gossip_line (host_at 3) 1 '';1.0.0.0:80'') small_node = Inr (gossip_line (host_at 3) 1 '';1.0.0.0:80'', s') \<and>
     counter_of (host_at 3) (gossips s') = Some 1 \<and> infos s' 3 = infos small_node 3 \<and>
     infos s' 2 = Some (put_output (''G'' @ gossip_line (host_at 3) 1 '';1.0.0.0:80'' @ [CHR 0x0A]) (peer_info 5 (host_at 2)))"
proof -
  let ?pl = "'';1.0.0.0:80''"
  define ts where "ts = strtok_all CHR '';'' (tl ?pl @ '';'')"
  have ts: "length ts \<le> 1" by (simp add: ts_def strtok_all_def)
  have a: "sin_family (host_at 3) = AF_INET" "l_inetaddr quad_lib (inet_ntoa (s_addr (host_at 3))) = s_addr (host_at 3)"
    by (simp_all add: host_at_def quad_lib_def read_quad_ntoa)
  have n: "(\<exists>c'. counter_of (host_at 3) (gossips small_node) = Some c' \<and> int 1 \<le> c') = False" by (simp add: counter_of_def small_node_def)
  have pl: "CHR ''/'' \<notin> set ?pl" "?pl \<noteq> []" by simp_all
  from gossip_flood_once [OF small_node_inv refl pl ts_def ts a, of 1 3, unfolded n if_False]
  obtain s' where s': "gossip_received quad_lib 3 (gossip_line (host_at 3) 1 ?pl) small_node = Inr (gossip_line (host_at 3) 1 ?pl, s')"
    "\<forall>b. counter_of b (gossips s') = (if b = host_at 3 then Some (int 1) else counter_of b (gossips small_node))"
    "infos s' = told (set (files small_node) - {3}) (''G'' @ gossip_line (host_at 3) 1 ?pl @ [CHR 0x0A]) (infos small_node)" by blast
  from s'(2) have "counter_of (host_at 3) (gossips s') = Some 1" by simp
  with s'(1,3) show ?thesis by (auto simp: told_def hears_def peer_info_def small_node_def)
qed

end
