(* ===== verification/Connect.thy ===== *)
theory Connect
  imports Gossip
begin

text \<open>
  The second part of \<^verbatim>\<open>src/P5/connect.c\<close>: commands and messages, the input buffer and its lines, the
  event handlers of files and sockets, the timer that reconnects, and the dispatch of the main loop.
\<close>

section \<open>The system\<close>

datatype conn_result = Conn_done | Conn_progress | Conn_failed

text \<open>
  What the system calls in one call of a handler return: the time, the results of \<open>socket\<close>, \<open>connect\<close>, \<open>accept\<close>,
  \<open>getsockopt\<close>, \<open>read\<close> (\<open>None\<close> is an error) and \<open>send\<close>, the peer of a socket (\<open>None\<close> is an error), and the
  address that \<open>get_id\<close> leaves uninitialised.
\<close>

record sysenv = lib +
  y_now :: int
  y_socket :: int
  y_connect :: conn_result
  y_accept :: "int \<times> sockaddr"
  y_error :: int
  y_read :: "string option"
  y_sent :: int
  y_own :: "int \<Rightarrow> bool"
  y_peer :: "int \<Rightarrow> sockaddr option"
  y_this :: "ptr \<Rightarrow> bool \<Rightarrow> sockaddr"

abbreviation (input) second :: int where "second \<equiv> 1000000"
abbreviation (input) ETIMEDOUT :: int where "ETIMEDOUT \<equiv> 110"
abbreviation (input) RECONNECT :: nat where "RECONNECT \<equiv> 1"

section \<open>Connecting\<close>

definition try_connect :: "sysenv \<Rightarrow> ptr \<Rightarrow> node \<Rightarrow> node res" where
  "try_connect env p s =
     (if y_socket env < 0 then Inr s
      else case y_connect env of
        Conn_failed \<Rightarrow> Inr s
      | Conn_progress \<Rightarrow> upd_file p (\<lambda>k. k\<lparr>fd := y_socket env, fi_events := POLLOUT, fi_handler := Some Connect_handler,
          connect_time := y_now env\<rparr>) s
      | Conn_done \<Rightarrow> upd_file p (\<lambda>k. k\<lparr>fd := y_socket env, fi_events := POLLIN, fi_handler := Some Message_handler,
          connect_time := y_now env, connecting := FI_CONNECTED\<rparr>) s)"

definition timer_reconnect :: "sysenv \<Rightarrow> nat \<Rightarrow> node \<Rightarrow> node res" where
  "timer_reconnect env u s = bindR (find_file (\<lambda>k. fi_type k \<noteq> FI_FREE \<and> uid k = u) (files s) (infos s)) (\<lambda>p.
     if p = NULL then Inr s else try_connect env p s)"

definition connect_command :: "sysenv \<Rightarrow> ptr \<Rightarrow> string \<Rightarrow> node \<Rightarrow> node res" where
  "connect_command env fi line s = bindR (deref (infos s) fi) (\<lambda>k.
     if fi_type k \<noteq> FI_FILE then Inr s
     else case split_at CHR '':'' line of
       None \<Rightarrow> Inr s
     | Some (host, port) \<Rightarrow>
        (let a = snd (addr_get (l_gethost env) (l_inetaddr env) host (atoi port));
             (p, s1) = file_info_add FI_OUTGOING (- 1) None 0 s
         in bindR (upd_file p (\<lambda>k. k\<lparr>connecting := FI_CONNECTING, fi_addr := a\<rparr>) s1) (try_connect env p)))"

section \<open>Hello\<close>

text \<open>\<open>this\<close> is never set: the first system call stores into \<open>that\<close>, too. A failure exits.\<close>

definition get_id :: "sysenv \<Rightarrow> sockaddr \<Rightarrow> int \<Rightarrow> sockaddr res" where
  "get_id env this skt =
     (if \<not> y_own env skt then Inl Exited
      else case y_peer env skt of
        None \<Rightarrow> Inl Exited
      | Some that \<Rightarrow> Inr (if addr_cmp this that < 0 then this else that))"

definition take_over :: "file_info \<Rightarrow> file_info \<Rightarrow> file_info" where
  "take_over old k = (if fi_type old = FI_OUTGOING
     then k\<lparr>fi_type := FI_OUTGOING, connecting := connecting old, connect_time := connect_time old\<rparr> else k)"

text \<open>The search for another connection to the same peer; the result tells whether the call goes on.\<close>

fun hello_loop :: "sysenv \<Rightarrow> ptr \<Rightarrow> sockaddr \<Rightarrow> ptr list \<Rightarrow> node \<Rightarrow> (bool \<times> node) res" where
  "hello_loop env fi a [] s = Inr (True, s)"
| "hello_loop env fi a (p # ps) s = bindR (deref (infos s) p) (\<lambda>k2.
     if fi_type k2 = FI_FREE \<or> fi_status k2 \<noteq> FI_KNOWN \<or> addr_cmp (fi_addr k2) a \<noteq> 0 then hello_loop env fi a ps s
     else if fd k2 = - 1 then
       bindR (upd_file fi (take_over k2) s) (\<lambda>s1. bindR (upd_file p (\<lambda>k. k\<lparr>fi_type := FI_FREE\<rparr>) s1) (\<lambda>s2. Inr (False, s2)))
     else bindR (deref (infos s) fi) (\<lambda>k.
       bindR (get_id env (y_this env p True) (fd k)) (\<lambda>mine. bindR (get_id env (y_this env p False) (fd k2)) (\<lambda>oth.
       if addr_cmp mine oth < 0 then
         bindR (upd_file fi (take_over k2) s) (\<lambda>s1. bindR (upd_file p (\<lambda>k. k\<lparr>fi_type := FI_FREE\<rparr>) s1) (hello_loop env fi a ps))
       else
         bindR (upd_file p (take_over k) s) (\<lambda>s1. bindR (upd_file fi (\<lambda>k. k\<lparr>fi_type := FI_FREE\<rparr>) s1) (\<lambda>s2. Inr (False, s2)))))))"

definition hello_received :: "sysenv \<Rightarrow> ptr \<Rightarrow> string \<Rightarrow> node \<Rightarrow> node res" where
  "hello_received env fi line s = (case split_at CHR '':'' line of
       None \<Rightarrow> Inr s
     | Some (host, port) \<Rightarrow>
        (let a = snd (addr_get (l_gethost env) (l_inetaddr env) host (atoi port)) in
         bindR (deref (infos s) fi) (\<lambda>k.
         if fi_status k = FI_KNOWN then Inr s
         else if addr_cmp a (my_addr s) = 0 then Inr s
         else bindR (hello_loop env fi a (files s) s) (\<lambda>(go_on, s1).
           if \<not> go_on then Inr s1
           else bindR (upd_file fi (\<lambda>k. k\<lparr>fi_addr := a, fi_status := FI_KNOWN\<rparr>) s1) (\<lambda>s2.
             let nl = (case names s2 of None \<Rightarrow> nl_add nl_create (addr_to_string (my_addr s2)) | Some nl \<Rightarrow> nl) in
             bindR (updateGraph (s2\<lparr>names := Some (nl_add nl (addr_to_string a))\<rparr>)) (send_gossip (lib.truncate env)))))))"

section \<open>Lines\<close>

text \<open>The result has the characters the line consists of afterwards.\<close>

definition handle_line :: "sysenv \<Rightarrow> ptr \<Rightarrow> string \<Rightarrow> node \<Rightarrow> (string \<times> node) res" where
  "handle_line env fi line s = (case line of
       [] \<Rightarrow> Inr ([], s)
     | c # rest \<Rightarrow>
         if c = CHR ''C'' then bindR (connect_command env fi rest s) (\<lambda>s1. Inr (line, s1))
         else if c = CHR ''G'' then bindR (gossip_received (lib.truncate env) fi rest s) (\<lambda>(rest', s1). Inr (c # rest', s1))
         else if c = CHR ''H'' then bindR (hello_received env fi rest s) (\<lambda>s1. Inr (line, s1))
         else if c = CHR ''E'' \<or> c = CHR ''e'' then Inl Exited
         else if c = CHR ''S'' then bindR (send_handler (lib.truncate env) rest s) (\<lambda>(rest', _, s1). Inr (c # rest', s1))
         else Inr (line, s))"

text \<open>\<open>index\<close> on a buffer stops at the terminating NUL, and runs over the end if there is none.\<close>

fun raw_index :: "char \<Rightarrow> string \<Rightarrow> nat option res" where
  "raw_index c [] = Inl Out_of_bounds"
| "raw_index c (x # xs) = (if x = c then Inr (Some 0) else if x = NUL then Inr None
     else bindR (raw_index c xs) (\<lambda>r. Inr (map_option Suc r)))"

text \<open>
  The loop over the lines of a buffer. The number of bytes to move is negative if the line end found is behind the bytes received,
  and \<open>memmove\<close> takes it as a huge one. The fuel is one more than the bytes received, of which each line uses at least one.
\<close>

fun line_loop :: "nat \<Rightarrow> (nat \<Rightarrow> sysenv) \<Rightarrow> nat \<Rightarrow> ptr \<Rightarrow> node \<Rightarrow> node res" where
  "line_loop 0 env i p s = Inl Diverges"
| "line_loop (Suc fuel) env i p s = bindR (deref (infos s) p) (\<lambda>k. bindR (raw_index (CHR 0x0A) (input_buffer k)) (\<lambda>r.
     case r of
       None \<Rightarrow> Inr s
     | Some j \<Rightarrow>
         bindR (handle_line (env i) p (take j (input_buffer k)) s) (\<lambda>(line, s1).
         if amount_received k < Suc j then Inl Out_of_bounds
         else
          (let n = amount_received k - Suc j;
               buf = line @ [NUL] @ drop (Suc j) (input_buffer k)
           in bindR (upd_file p (\<lambda>k. k\<lparr>input_buffer := take n (drop (Suc j) buf) @ drop n buf, amount_received := n\<rparr>) s1)
                (line_loop fuel env (Suc i) p)))))"

definition add_input :: "(nat \<Rightarrow> sysenv) \<Rightarrow> ptr \<Rightarrow> node \<Rightarrow> node res" where
  "add_input env p s = bindR (deref (infos s) p) (\<lambda>k.
     let amt = amount_received k;
         buf = take (amt + 100) (input_buffer k @ map (l_junk (env 0)) [length (input_buffer k)..<amt + 100])
     in case y_read (env 0) of
          None \<Rightarrow> Inl Exited
        | Some d \<Rightarrow>
           (let d' = take 100 d; amt' = amt + length d' in
            bindR (upd_file p (\<lambda>k. k\<lparr>input_buffer := take amt buf @ d' @ drop amt' buf, amount_received := amt'\<rparr>) s) (\<lambda>s1.
              if d' = [] then Inr s1 else line_loop (Suc amt') env 0 p s1)))"

section \<open>Events\<close>

definition send_hello :: "ptr \<Rightarrow> node \<Rightarrow> node res" where
  "send_hello p s = file_info_send p (''H'' @ addr_to_string (my_addr s) @ [CHR 0x0A]) s"

text \<open>A part of the output has been sent; \<open>memmove\<close> gets its arguments in the wrong order.\<close>

definition sent_part :: "nat \<Rightarrow> file_info \<Rightarrow> file_info" where
  "sent_part n k =
     (if n = amount_to_send k then k\<lparr>amount_to_send := 0\<rparr>
      else k\<lparr>output_buffer := take n (output_buffer k) @ take (amount_to_send k - n) (output_buffer k) @ drop (amount_to_send k) (output_buffer k),
             amount_to_send := amount_to_send k - n\<rparr>)"

definition lost_connection :: "sysenv \<Rightarrow> ptr \<Rightarrow> node \<Rightarrow> node res" where
  "lost_connection env p s = bindR (deref (infos s) p) (\<lambda>k.
     let tm = (if y_error env = 0 then y_now env + second else y_now env + 5 * second) in
     bindR (if fi_type k = FI_OUTGOING
            then upd_file p (\<lambda>k. k\<lparr>fd := - 1, connecting := FI_CONNECTING\<rparr>) (s\<lparr>timers := timer_start tm RECONNECT (uid k) (timers s)\<rparr>)
            else upd_file p (\<lambda>k. k\<lparr>fi_type := FI_FREE\<rparr>) s) (\<lambda>s1.
     case names s1 of
       None \<Rightarrow> Inl Null_deref
     | Some nl \<Rightarrow>
        (let a = addr_to_string (fi_addr k); my = addr_to_string (my_addr s1); (x, nl1) = nl_index nl a; (y, nl2) = nl_index nl1 my in
         bindR (if x < 0 \<or> y < 0 then Inr (s1\<lparr>names := Some nl2\<rparr>)
                else case g_graph s1 of
                  None \<Rightarrow> Inl Null_deref
                | Some g \<Rightarrow> bindR (set_dist nl g (int (nl_nsites nl)) a my 0) (\<lambda>(nl3, g').
                    Inr (s1\<lparr>names := Some nl3, g_graph := Some g'\<rparr>))) (\<lambda>s2.
         bindR (updateGraph s2) (send_gossip (lib.truncate env))))))"

definition message_handler :: "(nat \<Rightarrow> sysenv) \<Rightarrow> ptr \<Rightarrow> 16 word \<Rightarrow> node \<Rightarrow> node res" where
  "message_handler env p events s =
     (if and events (or POLLERR POLLHUP) \<noteq> 0 then lost_connection (env 0) p s
      else bindR (if and events POLLOUT \<noteq> 0 \<and> y_sent (env 0) > 0 then upd_file p (sent_part (nat (y_sent (env 0)))) s else Inr s) (\<lambda>s1.
        bindR (if and events POLLIN \<noteq> 0 then add_input env p s1 else Inr s1) (\<lambda>s2.
        if and events (not (or POLLIN (or POLLOUT (or POLLERR POLLHUP)))) \<noteq> 0
        then upd_file p (\<lambda>k. k\<lparr>fi_events := 0\<rparr>) s2 else Inr s2)))"

definition connect_handler :: "sysenv \<Rightarrow> ptr \<Rightarrow> 16 word \<Rightarrow> node \<Rightarrow> node res" where
  "connect_handler env p events s = bindR (deref (infos s) p) (\<lambda>k.
     if and events (or POLLERR POLLHUP) \<noteq> 0 then
       (let tm = (if y_error env = 0 then y_now env + 3 * second
                  else if y_error env = ETIMEDOUT then connect_time k + 5 * second else y_now env + 5 * second)
        in upd_file p (\<lambda>k. k\<lparr>fd := - 1, connecting := FI_CONNECTING\<rparr>) (s\<lparr>timers := timer_start tm RECONNECT (uid k) (timers s)\<rparr>))
     else bindR (if and events POLLOUT \<noteq> 0 then
                   bindR (upd_file p (\<lambda>k. k\<lparr>fi_handler := Some Message_handler, fi_events := POLLIN, connecting := FI_CONNECTED\<rparr>) s) (\<lambda>s1.
                   bindR (send_hello p s1) (gossip_to_peer p))
                 else Inr s) (\<lambda>s2.
       if and events (not (or POLLOUT (or POLLERR POLLHUP))) \<noteq> 0
       then upd_file p (\<lambda>k. k\<lparr>fi_events := 0\<rparr>) s2 else Inr s2))"

definition stdin_handler :: "(nat \<Rightarrow> sysenv) \<Rightarrow> ptr \<Rightarrow> 16 word \<Rightarrow> node \<Rightarrow> node res" where
  "stdin_handler env p events s = (if and events POLLIN \<noteq> 0 then add_input env p s else Inr s)"

definition server_handler :: "sysenv \<Rightarrow> ptr \<Rightarrow> 16 word \<Rightarrow> node \<Rightarrow> node res" where
  "server_handler env p events s =
     (if and events POLLIN \<noteq> 0 then
        (let (skt, a) = y_accept env; (fi, s1) = file_info_add FI_INCOMING skt (Some Message_handler) POLLIN s in
         bindR (upd_file fi (\<lambda>k. k\<lparr>fi_addr := a\<rparr>) s1) (\<lambda>s2. bindR (send_hello fi s2) (gossip_to_peer fi)))
      else Inr s)"

section \<open>The main loop\<close>

definition main_start :: "int \<Rightarrow> sockaddr \<Rightarrow> node \<Rightarrow> node res" where
  "main_start skt a s =
     (let (input, s1) = file_info_add FI_FILE 0 (Some Stdin_handler) POLLIN s;
          (server, s2) = file_info_add FI_SERVER skt (Some Server_handler) POLLIN s1
      in upd_file input (\<lambda>k. k\<lparr>fi_addr := a, fi_status := FI_KNOWN\<rparr>) (s2\<lparr>my_addr := a\<rparr>))"

text \<open>The descriptors to poll with their events; a write past the \<open>nfiles\<close> entries of the array is a fault.\<close>

fun poll_entries :: "ptr list \<Rightarrow> node \<Rightarrow> int \<Rightarrow> (ptr \<times> int \<times> 16 word) list res" where
  "poll_entries [] s i = Inr []"
| "poll_entries (p # ps) s i = bindR (deref (infos s) p) (\<lambda>k.
     if fi_type k \<noteq> FI_FREE \<and> fd k \<ge> 0 then
       (if i \<ge> nfiles s then Inl Out_of_bounds
        else bindR (poll_entries ps s (i + 1)) (\<lambda>es.
          Inr ((p, fd k, if amount_to_send k > 0 then or (fi_events k) POLLOUT else fi_events k) # es)))
     else poll_entries ps s i)"

definition run_event :: "(nat \<Rightarrow> sysenv) \<Rightarrow> ptr \<Rightarrow> 16 word \<Rightarrow> node \<Rightarrow> node res" where
  "run_event env p events s = bindR (deref (infos s) p) (\<lambda>k.
     if events \<noteq> 0 \<and> fi_type k \<noteq> FI_FREE then
       (case fi_handler k of
          None \<Rightarrow> Inl Null_deref
        | Some Stdin_handler \<Rightarrow> stdin_handler env p events s
        | Some Server_handler \<Rightarrow> server_handler (env 0) p events s
        | Some Message_handler \<Rightarrow> message_handler env p events s
        | Some Connect_handler \<Rightarrow> connect_handler (env 0) p events s)
     else Inr s)"

fun dispatch :: "(ptr \<Rightarrow> nat \<Rightarrow> sysenv) \<Rightarrow> (ptr \<Rightarrow> 16 word) \<Rightarrow> (ptr \<times> int \<times> 16 word) list \<Rightarrow> node \<Rightarrow> node res" where
  "dispatch env revents [] s = Inr s"
| "dispatch env revents ((p, f, ev) # es) s = bindR (run_event (env p) p (revents p) s) (dispatch env revents es)"

text \<open>One turn of the loop after the timers: poll, then the handlers of the files with events.\<close>

definition main_turn :: "(ptr \<Rightarrow> nat \<Rightarrow> sysenv) \<Rightarrow> (ptr \<Rightarrow> 16 word) \<Rightarrow> node \<Rightarrow> node res" where
  "main_turn env revents s = bindR (poll_entries (files s) s 0) (\<lambda>es. dispatch env revents es s)"

text \<open>A turn with the timers. Their handler starts no timers, so that the list it works on is the one the check holds.\<close>

definition main_iteration :: "int \<Rightarrow> (nat \<Rightarrow> sysenv) \<Rightarrow> (ptr \<Rightarrow> nat \<Rightarrow> sysenv) \<Rightarrow> (ptr \<Rightarrow> 16 word) \<Rightarrow> node \<Rightarrow> node res" where
  "main_iteration now tenv env revents s =
     (case timer_check (\<lambda>h u r. ([], bindR r (timer_reconnect (tenv u) u))) now (timers s) (Inr s) of
        None \<Rightarrow> Inl Diverges
      | Some (timeout, ts, r) \<Rightarrow> bindR r (\<lambda>s1. main_turn env revents (s1\<lparr>timers := ts\<rparr>)))"

text \<open>The global variables when the program starts.\<close>

definition initial_node :: node where
  "initial_node = \<lparr>files = [], infos = Map.empty, info_brk = 1, nfiles = 0, uid_gen = 1, gossip_gen = 0, g_dist = None, g_prev = None,
     g_graph = None, my_addr = blank_addr, names = None, gossips = [], timers = []\<rparr>"

end
