(* ===== verification/Forward.thy ===== *)
theory Forward
  imports Gossip
begin

text \<open>
  What the forwarding and the gossip of \<^verbatim>\<open>src/P5/connect.c\<close> achieve: a message goes to the next node of a
  shortest route, and a node's gossip lists its peers.
\<close>

section \<open>Searching the files\<close>

definition first_file :: "(file_info \<Rightarrow> bool) \<Rightarrow> node \<Rightarrow> ptr option" where
  "first_file P s = List.find (\<lambda>p. P (the (infos s p))) (files s)"

lemma find_file_find:
  "\<forall>p\<in>set ps. p \<noteq> NULL \<and> m p \<noteq> None \<Longrightarrow>
   find_file P ps m = Inr (case List.find (\<lambda>p. P (the (m p))) ps of None \<Rightarrow> NULL | Some p \<Rightarrow> p)"
  by (induction ps) (auto simp: deref_Some)

lemma find_file_ok:
  assumes "files_ok s"
  shows "find_file P (files s) (infos s) = Inr (case first_file P s of None \<Rightarrow> NULL | Some p \<Rightarrow> p)"
  unfolding first_file_def using assms by (intro find_file_find) (auto simp: files_ok_def)

lemma first_file_Some:
  assumes "files_ok s" "first_file P s = Some p"
  shows "p \<in> set (files s) \<and> p \<noteq> NULL \<and> (\<exists>k. infos s p = Some k \<and> P k)"
proof -
  have p: "p \<in> set (files s)" "P (the (infos s p))"
    using assms(2) by (auto simp: first_file_def find_Some_iff set_conv_nth)
  with assms(1) show ?thesis by (auto simp: files_ok_def)
qed

section \<open>Forwarding\<close>

definition to_addr :: "string \<Rightarrow> file_info \<Rightarrow> bool" where
  "to_addr a k \<longleftrightarrow> addr_to_string (fi_addr k) = a \<and> is_peer k"

definition send_line :: "string \<Rightarrow> nat \<Rightarrow> string \<Rightarrow> string" where
  "send_line dst ttl payload = dst @ ''/'' @ decimal ttl @ ''/'' @ payload"

definition give :: "(file_info \<Rightarrow> bool) \<Rightarrow> string \<Rightarrow> node \<Rightarrow> node" where
  "give P m s = (case first_file P s of None \<Rightarrow> s | Some p \<Rightarrow> s\<lparr>infos := (infos s)(p \<mapsto> put_output m (the (infos s p)))\<rparr>)"

lemma decimal_mono: "m \<le> n \<Longrightarrow> length (decimal m) \<le> length (decimal n)"
proof (induction n arbitrary: m rule: decimal.induct)
  case (1 n)
  show ?case
  proof (cases "m < 10 \<or> n < 10")
    case True
    then have "length (decimal m) = 1" using 1(2) by (subst decimal.simps) auto
    moreover have "decimal n \<noteq> []" by simp
    then have "1 \<le> length (decimal n)" by (cases "decimal n") simp_all
    ultimately show ?thesis by simp
  next
    case False
    have "length (decimal (m div 10)) \<le> length (decimal (n div 10))" using False 1(2) by (intro 1(1)) (auto intro: div_le_mono)
    with False show ?thesis by (subst (1 2) decimal.simps) simp
  qed
qed

lemma send_line_split:
  assumes "CHR ''/'' \<notin> set dst" "CHR ''/'' \<notin> set payload"
  shows "split_at CHR ''/'' (send_line dst c payload) = Some (dst, decimal c @ ''/'' @ payload)"
    "rsplit_at CHR ''/'' (decimal c @ ''/'' @ payload) = Some (decimal c, payload)"
  using split_at_append [OF assms(1)] rsplit_at_append [OF assms(2)] by (simp_all add: send_line_def)

lemma give_ok:
  assumes "files_ok s" "infos s2 = infos s" "files s2 = files s"
  shows "bindR (find_file P (files s2) (infos s2)) (\<lambda>f. if f = NULL then Inr (l, None, s2)
      else bindR (file_info_send f m s2) (\<lambda>s3. Inr (l, None, s3))) = Inr (l, None, give P m s2)"
proof -
  have "find_file P (files s2) (infos s2) = Inr (case first_file P s2 of None \<Rightarrow> NULL | Some p \<Rightarrow> p)"
    using find_file_ok [OF assms(1), of P] by (simp add: assms(2,3) first_file_def)
  moreover have "p \<noteq> NULL \<and> (\<exists>k. infos s2 p = Some k)" if "first_file P s2 = Some p" for p
    using first_file_Some [OF assms(1), of P p] that by (auto simp: assms(2,3) first_file_def)
  ultimately show ?thesis by (auto simp: give_def file_info_send_def res_simps split: option.splits)
qed

text \<open>The name and the number of hops at the head of a line are what the handler reads back.\<close>

definition send_words :: "string \<Rightarrow> nat \<Rightarrow> string \<Rightarrow> string" where
  "send_words dst ttl payload = dst @ [NUL] @ decimal ttl @ [NUL] @ payload"

definition sendable :: "string \<Rightarrow> string \<Rightarrow> bool" where
  "sendable dst payload \<longleftrightarrow> dst \<noteq> [] \<and> \<not> isalpha_char (hd dst) \<and> CHR ''/'' \<notin> set dst \<and> CHR ''/'' \<notin> set payload"

lemma sendable_read:
  assumes "sendable dst payload"
  shows "send_line dst ttl payload \<noteq> [] \<and> \<not> isalpha_char (hd (send_line dst ttl payload))" "atoi (decimal ttl) = int ttl"
  using assms atoi_decimal [of "[]"] by (simp_all add: sendable_def send_line_def)

lemma send_not_routed:
  assumes "sendable dst payload" "dst = addr_to_string (my_addr s) \<or> ttl = 0"
  shows "send_handler lb (send_line dst ttl payload) s =
    Inr (send_words dst ttl payload, if dst = addr_to_string (my_addr s) then Some payload else None, s)"
  using assms(2) sendable_read [OF assms(1)] send_line_split [of dst payload ttl] assms(1)
  by (auto simp: sendable_def send_handler_def send_words_def Let_def strcmp_sign)

lemma send_unknown:
  assumes "sendable dst payload" "dst \<noteq> addr_to_string (my_addr s)" "ttl \<noteq> 0" "names s = Some nl" "nl_ok nl" "dst \<notin> set (nl_nodes (settled nl))"
  shows "send_handler lb (send_line dst ttl payload) s = Inr (send_words dst ttl payload, None, s\<lparr>names := Some (settled nl)\<rparr>)"
  using assms sendable_read [OF assms(1)] send_line_split [of dst payload ttl] index_settled(1) [OF assms(5) refl, of dst]
  by (simp add: sendable_def send_handler_def send_words_def Let_def strcmp_sign)

lemma send_routed:
  assumes "sendable dst payload" "dst \<noteq> addr_to_string (my_addr s)" "ttl \<noteq> 0" "names s = Some nl" "nl_ok nl" "dst \<in> set (nl_nodes (settled nl))"
    and "addr_to_string (my_addr s) \<in> set (nl_nodes (settled nl))" "g_prev s = Some p"
  shows "send_handler lb (send_line dst ttl payload) s =
    bindR (next_hop (Suc (length p)) p (int (posn (nl_nodes (settled nl)) (addr_to_string (my_addr s)))) (int (posn (nl_nodes (settled nl)) dst)))
      (\<lambda>h. case h of None \<Rightarrow> Inr (send_words dst ttl payload, None, s\<lparr>names := Some (settled nl)\<rparr>)
       | Some d \<Rightarrow> bindR (nl_name (settled nl) d) (\<lambda>dest_addr.
           if length (''S'' @ send_line dst (ttl - 1) payload @ [CHR 0x0A]) + 1 > l_usable lb (length (send_line dst ttl payload)) then Inl Out_of_bounds
           else bindR (find_file (\<lambda>k. strcmp dest_addr (addr_to_string (fi_addr k)) = 0 \<and> is_peer k) (files s) (infos s)) (\<lambda>f.
             if f = NULL then Inr (send_words dst ttl payload, None, s\<lparr>names := Some (settled nl)\<rparr>)
             else bindR (file_info_send f (''S'' @ send_line dst (ttl - 1) payload @ [CHR 0x0A]) (s\<lparr>names := Some (settled nl)\<rparr>))
               (\<lambda>s3. Inr (send_words dst ttl payload, None, s3)))))"
proof -
  note st = settled_ok [OF assms(5)]
  have ix: "nl_index nl dst = (int (posn (nl_nodes (settled nl)) dst), settled nl)"
    using index_settled(1) [OF assms(5) refl, of dst] assms(6) by simp
  have me: "nl_index (settled nl) (addr_to_string (my_addr s)) = (int (posn (nl_nodes (settled nl)) (addr_to_string (my_addr s))), settled nl)"
    using index_settled(1) [OF st(1) refl, of "addr_to_string (my_addr s)"] assms(7) by (simp add: st(2))
  have num: "(if int ttl - 1 < 0 then ''-'' @ decimal (nat (- (int ttl - 1))) else decimal (nat (int ttl - 1))) = decimal (ttl - 1)"
    using assms(3) by (auto simp: nat_diff_distrib)
  show ?thesis
    using assms sendable_read [OF assms(1)] send_line_split [of dst payload ttl] ix me num
    by (simp add: sendable_def send_handler_def send_words_def Let_def strcmp_sign cong: if_cong option.case_cong del: next_hop.simps)
      (simp add: send_line_def cong: if_cong option.case_cong del: next_hop.simps)
qed

text \<open>The message goes out to the first connection to the next node.\<close>

lemma send_to_hop:
  assumes "files_ok s" "sendable dst payload" "dst \<noteq> addr_to_string (my_addr s)" "ttl \<noteq> 0" "names s = Some nl" "nl_ok nl"
    "dst \<in> set (nl_nodes (settled nl))" "addr_to_string (my_addr s) \<in> set (nl_nodes (settled nl))" "g_prev s = Some p"
    and mem: "length (send_line dst ttl payload) + 3 \<le> l_usable lb (length (send_line dst ttl payload))"
    and h: "next_hop (Suc (length p)) p (int (posn (nl_nodes (settled nl)) (addr_to_string (my_addr s)))) (int (posn (nl_nodes (settled nl)) dst)) =
      Inr (Some (int h))" "h < length (nl_nodes (settled nl))"
  shows "send_handler lb (send_line dst ttl payload) s = Inr (send_words dst ttl payload, None,
    give (to_addr (nl_nodes (settled nl) ! h)) (''S'' @ send_line dst (ttl - 1) payload @ [CHR 0x0A]) (s\<lparr>names := Some (settled nl)\<rparr>))"
proof -
  let ?m = "''S'' @ send_line dst (ttl - 1) payload @ [CHR 0x0A]"
  have "length ?m + 1 \<le> l_usable lb (length (send_line dst ttl payload))"
    using mem decimal_mono [of "ttl - 1" ttl] by (simp add: send_line_def)
  then have room: "(length ?m + 1 > l_usable lb (length (send_line dst ttl payload))) = False" by simp
  have name: "nl_name (settled nl) (int h) = Inr (nl_nodes (settled nl) ! h)" using h(2) by (simp add: nl_name_def aget_def)
  have P: "(\<lambda>k. strcmp a (addr_to_string (fi_addr k)) = 0 \<and> is_peer k) = to_addr a" for a
    by (auto simp: to_addr_def strcmp_sign fun_eq_iff)
  have f: "infos (s\<lparr>names := Some (settled nl)\<rparr>) = infos s" "files (s\<lparr>names := Some (settled nl)\<rparr>) = files s" by simp_all
  from give_ok [OF assms(1) f, of "to_addr (nl_nodes (settled nl) ! h)" "send_words dst ttl payload" ?m] show ?thesis
    unfolding send_routed [OF assms(2-9)] h(1) bindR.simps option.case name P room if_False f .
qed


text \<open>Addresses have different strings.\<close>

lemma addr_to_string_inj:
  assumes "sin_family a = AF_INET" "sin_family b = AF_INET"
  shows "addr_to_string a = addr_to_string b \<longleftrightarrow> a = b"
proof
  assume eq: "addr_to_string a = addr_to_string b"
  have "Inr a = string_to_addr (\<lambda>h. None) read_quad (addr_to_string a)"
    by (rule string_to_addr_to_string [where inetaddr = read_quad, OF assms(1) read_quad_ntoa, symmetric])
  also have "\<dots> = Inr b" unfolding eq by (rule string_to_addr_to_string [where inetaddr = read_quad, OF assms(2) read_quad_ntoa])
  finally show "a = b" by (rule sum.inject(2) [THEN iffD1])
qed simp

lemma addr_to_string_start: "addr_to_string a \<noteq> [] \<and> \<not> isalpha_char (hd (addr_to_string a)) \<and> CHR ''/'' \<notin> set (addr_to_string a)"
proof -
  obtain c cs where c: "inet_ntoa (s_addr a) = c # cs" "isdigit c" using inet_ntoa_digit [of "s_addr a"] by (cases "inet_ntoa (s_addr a)") simp_all
  have "CHR ''/'' \<notin> set (addr_to_string a)" by (simp add: addr_to_string_def slash_no)
  moreover have "hd (addr_to_string a) = c" "addr_to_string a \<noteq> []" by (simp_all add: addr_to_string_def c(1))
  moreover have "\<not> isalpha_char c" using c(2) unfolding isdigit_def isalpha_char_def by linarith
  ultimately show ?thesis by simp
qed

lemma shortest_1: "shortest E n src x d \<Longrightarrow> hops E n src 1 x \<Longrightarrow> \<not> hops E n src 0 x \<Longrightarrow> d = 1"
proof -
  assume a: "shortest E n src x d" "hops E n src 1 x" "\<not> hops E n src 0 x"
  then have "d \<noteq> INFINITY" unfolding shortest_def by metis
  then obtain k where k: "d = int k" "hops E n src k x" "\<forall>j<k. \<not> hops E n src j x" using a(1) by (auto simp: shortest_def)
  then have "k \<noteq> 0" "\<not> 1 < k" using a(2,3) by (metis, metis)
  then show "d = 1" using k(1) by simp
qed

text \<open>A node with one peer sends to that peer.\<close>

definition pair_node :: node where
  "pair_node = small_node\<lparr>files := [2], nfiles := 1,
     names := Some \<lparr>nl_nodes = [addr_to_string (host_at 1), addr_to_string (host_at 2)], nl_unsorted = True\<rparr>\<rparr>"


section \<open>Announcing the peers\<close>

definition peer_addrs :: "node \<Rightarrow> string list" where
  "peer_addrs s = map (\<lambda>p. addr_to_string (fi_addr (the (infos s p)))) (filter (\<lambda>p. is_peer (the (infos s p))) (files s))"

definition payload_of :: "string list \<Rightarrow> string" where
  "payload_of as = concat (map (\<lambda>a. '';'' @ a) as)"

lemma addr_to_string_length: "length (addr_to_string a) \<le> 21"
  using inet_ntoa_length [of "s_addr a"] port_digits [of "htons (sin_port a)"] by (simp add: addr_to_string_def)

lemma pieces_sep: "pieces c (xs @ c # ys) = pieces c xs @ pieces c ys"
proof (induction xs)
  case (Cons x xs)
  have "pieces c xs \<noteq> []" by (cases xs) (auto split: list.splits)
  with Cons show ?case by (auto split: list.splits)
qed simp

lemma strtok_all_sep: "strtok_all c (xs @ c # ys) = strtok_all c xs @ strtok_all c ys"
  by (simp add: strtok_all_def pieces_sep)

lemma payload_of_tokens:
  "\<forall>a\<in>set as. CHR '';'' \<notin> set a \<and> a \<noteq> [] \<Longrightarrow> strtok_all CHR '';'' (payload_of as) = as"
proof (induction as rule: rev_induct)
  case (snoc a as)
  have "strtok_all CHR '';'' a = [a]" using snoc.prems by (simp add: strtok_all_def pieces_single)
  with snoc strtok_all_sep [of _ "payload_of as" a] show ?case by (simp add: payload_of_def)
qed (simp add: payload_of_def strtok_all_def)

lemma peers_tokens: "strtok_all CHR '';'' (payload_of (peer_addrs s)) = peer_addrs s"
proof (intro payload_of_tokens ballI conjI)
  fix a assume "a \<in> set (peer_addrs s)"
  then obtain x where a: "a = addr_to_string x" by (auto simp: peer_addrs_def)
  show "CHR '';'' \<notin> set a" "a \<noteq> []" using addr_to_string_start [of x]
    by (simp_all add: a addr_to_string_def decimal_no inet_ntoa_no)
qed

text \<open>The index kept beside the payload is its length, and the payload ends at most two bytes behind its capacity.\<close>

lemma payload_loop_ok:
  assumes "\<forall>n. n + 4 \<le> l_usable lb n"
  shows "\<forall>p\<in>set ps. p \<noteq> NULL \<and> m p \<noteq> None \<Longrightarrow> 256 \<le> cap \<Longrightarrow> length pl \<le> cap + 1 \<Longrightarrow>
    pl' = pl @ payload_of (map (\<lambda>p. addr_to_string (fi_addr (the (m p)))) (filter (\<lambda>p. is_peer (the (m p))) ps)) \<Longrightarrow>
    \<exists>cap'. payload_loop lb ps m (cap, length pl, pl) = Inr (cap', length pl', pl') \<and> length pl' \<le> cap' + 1"
proof (induction ps arbitrary: cap pl)
  case Nil
  then show ?case by (simp add: payload_of_def)
next
  case (Cons p ps)
  obtain k where k: "m p = Some k" "p \<noteq> NULL" using Cons.prems(1) by auto
  show ?case
  proof (cases "is_peer k")
    case False
    then show ?thesis using Cons.IH [of cap pl] Cons.prems k by (simp add: deref_Some)
  next
    case True
    let ?a = "addr_to_string (fi_addr k)"
    define cap1 where "cap1 = (if length ?a + length pl > cap then cap * 2 else cap)"
    have c: "256 \<le> cap1" "length (pl @ '';'' @ ?a) \<le> cap1 + 1"
      using Cons.prems(2,3) addr_to_string_length [of "fi_addr k"] by (auto simp: cap1_def)
    then have "\<not> length (pl @ '';'' @ ?a) + 1 > l_usable lb cap1" using spec [OF assms, of cap1] by linarith
    then have "payload_loop lb (p # ps) m (cap, length pl, pl) = payload_loop lb ps m (cap1, length (pl @ '';'' @ ?a), pl @ '';'' @ ?a)"
      using True k unfolding cap1_def by (auto simp: deref_Some Let_def)
    moreover have "pl' = (pl @ '';'' @ ?a) @ payload_of (map (\<lambda>p. addr_to_string (fi_addr (the (m p)))) (filter (\<lambda>p. is_peer (the (m p))) ps))"
      using Cons.prems(4) True k by (simp add: payload_of_def)
    ultimately show ?thesis using Cons.IH [OF _ c] Cons.prems(1) by simp
  qed
qed

text \<open>
  A node's gossip goes to every connection that is open; it consists of the node's address, a counter one
  higher than the last and the addresses of its known peers, and a node that gets it reads exactly these.
\<close>

theorem gossip_announces_peers:
  assumes "files_ok s" "\<forall>n. n + 4 \<le> l_usable lb n" "gossip_gen s + 1 < 100000000"
  defines "line \<equiv> gossip_line (my_addr s) (gossip_gen s + 1) (payload_of (peer_addrs s))"
  shows "send_gossip lb s = Inr (s\<lparr>gossip_gen := gossip_gen s + 1, infos := told (set (files s)) (''G'' @ line @ [CHR 0x0A]) (infos s)\<rparr>) \<and>
    gossip_links \<lparr>gossip_src = my_addr s, gossip_counter = int (gossip_gen s + 1), gossip_latest = line\<rparr> =
      Some (addr_to_string (my_addr s), peer_addrs s)"
proof
  let ?pl = "payload_of (peer_addrs s)" and ?my = "addr_to_string (my_addr s)" and ?g = "Suc (gossip_gen s)"
  have files: "\<forall>p\<in>set (files s). p \<noteq> NULL \<and> infos s p \<noteq> None" using assms(1) by (auto simp: files_ok_def)
  then have null: "NULL \<notin> set (files s)" by blast
  from payload_loop_ok [OF assms(2) files, of 256 "[]" ?pl] obtain cap where cap:
    "payload_loop lb (files s) (infos s) (256, 0, []) = Inr (cap, length ?pl, ?pl)" "length ?pl \<le> cap + 1" by (auto simp: peer_addrs_def)
  have "\<not> length ?pl + 2 > l_usable lb cap" using cap(2) spec [OF assms(2), of cap] by linarith
  moreover have "length (decimal ?g) \<le> Suc 7" using assms(3) by (intro decimal_length) simp_all
  then have "\<not> length (''G'' @ ?my @ ''/'' @ decimal ?g @ ''/'' @ ?pl @ [CHR 0x0A]) + 1 > l_usable lb (length (?pl @ [CHR 0x0A]) + length ?my + 8)"
    using spec [OF assms(2), of "length (?pl @ [CHR 0x0A]) + length ?my + 8"] by simp
  moreover have "files_ok (s\<lparr>gossip_gen := ?g\<rparr>)" using assms(1) by (simp add: files_ok_def)
  from file_broadcast_ok [OF this] have "file_broadcast (''G'' @ line @ [CHR 0x0A]) NULL (s\<lparr>gossip_gen := ?g\<rparr>) =
      Inr (s\<lparr>gossip_gen := ?g, infos := told (set (files s)) (''G'' @ line @ [CHR 0x0A]) (infos s)\<rparr>)"
    using null by simp
  ultimately show "send_gossip lb s = Inr (s\<lparr>gossip_gen := gossip_gen s + 1, infos := told (set (files s)) (''G'' @ line @ [CHR 0x0A]) (infos s)\<rparr>)"
    using cap(1) by (simp add: send_gossip_def Let_def line_def gossip_line_def)
  show "gossip_links \<lparr>gossip_src = my_addr s, gossip_counter = int (gossip_gen s + 1), gossip_latest = line\<rparr> =
      Some (?my, peer_addrs s)"
    using gossip_line_links [of _ "my_addr s" "gossip_gen s + 1" ?pl] by (simp add: line_def peers_tokens)
qed

theorem gossip_announces_peers_witness:
  "peer_addrs small_node = [addr_to_string (host_at 3), addr_to_string (host_at 2)] \<and>
   (\<exists>s'. send_gossip quad_lib small_node = Inr s' \<and> infos s' 2 = Some (put_output
     (''G'' @ gossip_line (host_at 1) 1 (payload_of (peer_addrs small_node)) @ [CHR 0x0A]) (peer_info 5 (host_at 2))))"
proof -
  have f: "files_ok small_node" using small_node_inv by (simp add: node_inv_def)
  have m: "\<forall>n. n + 4 \<le> l_usable quad_lib n" by (simp add: quad_lib_def)
  have g: "gossip_gen small_node + 1 < 100000000" "gossip_gen small_node = 0" by (simp_all add: small_node_def)
  have s: "files small_node = [3, 2]" "infos small_node 2 = Some (peer_info 5 (host_at 2))" "infos small_node 3 = Some (peer_info 6 (host_at 3))"
    "my_addr small_node = host_at 1" by (simp_all add: small_node_def)
  have k: "is_peer (peer_info f a)" "hears (peer_info f a)" "fi_addr (peer_info f a) = a" for f a by (simp_all add: is_peer_def hears_def peer_info_def)
  show ?thesis using gossip_announces_peers [OF f m g(1)] by (simp add: s k g(2) peer_addrs_def told_def)
qed

end
