(* ===== verification/Node.thy ===== *)
theory Node
  imports Connect
begin

text \<open>
  The node as a whole: the loop of \<open>main\<close> as a transition relation, the invariant of its list of files, and what
  this gives for \<open>poll\<close>, for the events and for the timers.
\<close>

section \<open>The invariant\<close>

text \<open>Polled files have handlers, unique ids are unique, and the timers are in order.\<close>

definition conn_inv :: "node \<Rightarrow> bool" where
  "conn_inv s \<longleftrightarrow> files_ok s \<and> in_order (timers s) \<and>
     (\<forall>p\<in>set (files s). \<forall>k. infos s p = Some k \<longrightarrow> (fi_handler k = None \<longrightarrow> fd k < 0) \<and> uid k < uid_gen s) \<and>
     inj_on (\<lambda>p. uid (the (infos s p))) (set (files s))"

definition evolves :: "node \<Rightarrow> node \<Rightarrow> bool" where
  "evolves s s' \<longleftrightarrow> info_brk s \<le> info_brk s' \<and> set (files s) \<subseteq> set (files s') \<and> my_addr s' = my_addr s \<and>
     (\<forall>p k. infos s p = Some k \<longrightarrow> p < info_brk s \<longrightarrow>
        (\<exists>k'. infos s' p = Some k' \<and> uid k' = uid k \<and> (fi_handler k' = None \<longrightarrow> fi_handler k = None)))"

definition good :: "node \<Rightarrow> node \<Rightarrow> bool" where
  "good s s' \<longleftrightarrow> (conn_inv s \<longrightarrow> conn_inv s' \<and> evolves s s')"

lemma evolvesD:
  "evolves s t \<Longrightarrow> infos s p = Some k \<Longrightarrow> p < info_brk s \<Longrightarrow>
   \<exists>k'. infos t p = Some k' \<and> uid k' = uid k \<and> (fi_handler k' = None \<longrightarrow> fi_handler k = None)"
  unfolding evolves_def by blast

lemma evolves_trans: "evolves s t \<Longrightarrow> evolves t u \<Longrightarrow> evolves s u"
proof -
  assume st: "evolves s t" and tu: "evolves t u"
  have "\<exists>k'. infos u p = Some k' \<and> uid k' = uid k \<and> (fi_handler k' = None \<longrightarrow> fi_handler k = None)"
    if k: "infos s p = Some k" "p < info_brk s" for p k
  proof -
    obtain k1 where "infos t p = Some k1" "p < info_brk t" "uid k1 = uid k" "fi_handler k1 = None \<longrightarrow> fi_handler k = None"
      using st k by (fastforce simp: evolves_def)
    with tu show ?thesis by (fastforce simp: evolves_def)
  qed
  with st tu show "evolves s u" unfolding evolves_def by (intro conjI) (simp_all, blast)
qed

lemma good_trans: "good s t \<Longrightarrow> good t u \<Longrightarrow> good s u"
  unfolding good_def using evolves_trans by blast

text \<open>What the code does with one file.\<close>

definition proper :: "(file_info \<Rightarrow> file_info) \<Rightarrow> bool" where
  "proper f \<longleftrightarrow> (\<forall>k. uid (f k) = uid k \<and>
     (fi_handler (f k) = None \<longrightarrow> fi_handler k = None \<and> (fd k < 0 \<longrightarrow> fd (f k) < 0)))"

lemma good_same:
  "files s' = files s \<Longrightarrow> infos s' = infos s \<Longrightarrow> info_brk s' = info_brk s \<Longrightarrow> nfiles s' = nfiles s \<Longrightarrow> uid_gen s' = uid_gen s \<Longrightarrow>
   my_addr s' = my_addr s \<Longrightarrow> in_order (timers s) \<longrightarrow> in_order (timers s') \<Longrightarrow> good s s'"
  by (auto simp: good_def conn_inv_def evolves_def files_ok_def)

lemma good_upd:
  assumes "infos s p = Some k" "proper f"
  shows "good s (s\<lparr>infos := (infos s)(p \<mapsto> f k)\<rparr>)"
proof -
  have "inj_on (\<lambda>q. uid (the (((infos s)(p \<mapsto> f k)) q))) A = inj_on (\<lambda>q. uid (the (infos s q))) A" for A
    using assms by (intro inj_on_cong) (simp add: proper_def)
  with assms show ?thesis by (auto simp: good_def conn_inv_def evolves_def files_ok_def proper_def)
qed

text \<open>\<open>safe f s r\<close>: if the call returns, the state that \<open>f\<close> finds in its result is a good successor of \<open>s\<close>.\<close>

definition safe :: "('a \<Rightarrow> node) \<Rightarrow> node \<Rightarrow> 'a res \<Rightarrow> bool" where
  "safe f s r \<longleftrightarrow> (\<forall>x. r = Inr x \<longrightarrow> good s (f x))"

abbreviation (input) ok_from :: "node \<Rightarrow> node res \<Rightarrow> bool" where "ok_from \<equiv> safe (\<lambda>x. x)"

named_theorems safe_intros \<open>calls that keep the invariant\<close>

lemma good_refl [safe_intros]: "good s s"
  by (intro good_same) simp_all

lemma safe_Inr [safe_intros]: "good s (f x) \<Longrightarrow> safe f s (Inr x)" and safe_Inl [safe_intros]: "safe f s (Inl e)"
  by (simp_all add: safe_def)

lemma safe_seq:
  "safe g s m \<Longrightarrow> (\<And>x. safe f (g x) (h x)) \<Longrightarrow> safe f s (bindR m h)"
  unfolding safe_def bindR_eq_Inr using good_trans by blast

lemmas safe_bind [safe_intros] = safe_seq [where g = "\<lambda>x. x"]

lemma safe_read: "(\<And>x. m = Inr x \<Longrightarrow> safe f s (h x)) \<Longrightarrow> safe f s (bindR m h)"
  by (auto simp: safe_def bindR_eq_Inr)

lemma safe_reads [safe_intros]:
  "(\<And>k. m1 = Inr k \<Longrightarrow> safe f s (h1 (k :: file_info))) \<Longrightarrow> safe f s (bindR m1 h1)"
  "(\<And>p. m2 = Inr p \<Longrightarrow> safe f s (h2 (p :: ptr))) \<Longrightarrow> safe f s (bindR m2 h2)"
  "(\<And>a. m3 = Inr a \<Longrightarrow> safe f s (h3 (a :: sockaddr))) \<Longrightarrow> safe f s (bindR m3 h3)"
  "(\<And>d. m4 = Inr d \<Longrightarrow> safe f s (h4 (d :: int option))) \<Longrightarrow> safe f s (bindR m4 h4)"
  "(\<And>c. m5 = Inr c \<Longrightarrow> safe f s (h5 (c :: string))) \<Longrightarrow> safe f s (bindR m5 h5)"
  "(\<And>u. m6 = Inr u \<Longrightarrow> safe f s (h6 (u :: nat \<times> nat \<times> string))) \<Longrightarrow> safe f s (bindR m6 h6)"
  "(\<And>v. m7 = Inr v \<Longrightarrow> safe f s (h7 (v :: node_list \<times> int list))) \<Longrightarrow> safe f s (bindR m7 h7)"
  "(\<And>w. m8 = Inr w \<Longrightarrow> safe f s (h8 (w :: int list \<times> int list))) \<Longrightarrow> safe f s (bindR m8 h8)"
  "(\<And>r. m9 = Inr r \<Longrightarrow> safe f s (h9 (r :: nat option))) \<Longrightarrow> safe f s (bindR m9 h9)"
  by (rule safe_read, simp)+

lemma safe_branches [safe_intros]:
  "(c \<Longrightarrow> safe f s r) \<Longrightarrow> (\<not> c \<Longrightarrow> safe f s r') \<Longrightarrow> safe f s (if c then r else r')"
  "(x = None \<Longrightarrow> safe f s r) \<Longrightarrow> (\<And>y. x = Some y \<Longrightarrow> safe f s (h y)) \<Longrightarrow> safe f s (case_option r h x)"
  "(\<And>u v. z = (u, v) \<Longrightarrow> safe f s (g u v)) \<Longrightarrow> safe f s (case_prod g z)"
  by (auto split: option.splits prod.splits)

lemma upd_file_safe: "proper f \<Longrightarrow> ok_from s (upd_file p f s)"
  by (auto simp: safe_def upd_file_def bindR_eq_Inr deref_eq_Inr intro: good_upd)

lemma file_info_send_safe [safe_intros]: "ok_from s (file_info_send p m s)"
  unfolding file_info_send_def by (intro upd_file_safe) (simp add: proper_def put_output_def)

lemma safe_from: "good s s1 \<Longrightarrow> safe f s1 r \<Longrightarrow> safe f s r"
  using good_trans by (auto simp: safe_def)

section \<open>Every operation is safe\<close>

lemma broadcast_loop_safe: "ok_from s (broadcast_loop ps m fi s)"
  by (induction ps arbitrary: s) (auto intro!: safe_intros)

lemma file_broadcast_safe [safe_intros]: "ok_from s (file_broadcast m fi s)"
  unfolding file_broadcast_def by (rule broadcast_loop_safe)

lemma updateGraph_safe [safe_intros]: "ok_from s (updateGraph s)"
  unfolding updateGraph_def Let_def by (intro safe_intros) (auto intro: good_same)

lemma updateGraph_names_safe [safe_intros]: "ok_from s (updateGraph (s\<lparr>names := nl\<rparr>))"
  by (intro safe_from [OF _ updateGraph_safe] good_same) simp_all

lemma send_gossip_safe [safe_intros]: "ok_from s (send_gossip lb s)"
  unfolding send_gossip_def Let_def by (intro safe_intros safe_from [OF _ file_broadcast_safe]) (auto intro: good_same)

lemma updateFromGossip_safe [safe_intros]: "ok_from s (updateFromGossip g s)"
  unfolding updateFromGossip_def Let_def by (intro safe_intros safe_from [OF _ updateGraph_safe]) (auto intro: good_same)

lemma gossip_received_safe: "safe snd s (gossip_received lb fi line s)"
  unfolding gossip_received_def Let_def
  by (intro safe_intros safe_bind [OF safe_from [OF _ updateFromGossip_safe]]) (auto intro: good_same)

lemma send_all_safe: "ok_from s (send_all gs fi s)"
  by (induction gs arbitrary: s) (auto intro!: safe_intros)

lemma gossip_to_peer_safe [safe_intros]: "ok_from s (gossip_to_peer fi s)"
  unfolding gossip_to_peer_def by (rule send_all_safe)

lemma send_handler_safe: "safe (snd \<circ> snd) s (send_handler lb msg s)"
  unfolding send_handler_def Let_def
  by (intro safe_intros safe_bind [OF safe_from [OF _ file_info_send_safe]]) (auto intro: good_same)

lemma try_connect_safe [safe_intros]: "ok_from s (try_connect env p s)"
  unfolding try_connect_def by (auto intro!: safe_intros upd_file_safe simp: proper_def split: conn_result.splits)

lemma timer_reconnect_safe: "ok_from s (timer_reconnect env u s)"
  unfolding timer_reconnect_def by (intro safe_intros)

lemma file_info_add_good:
  assumes "file_info_add ty f h ev s = (p, s')" "h = None \<longrightarrow> f < 0"
  shows "good s s'"
proof (unfold good_def, intro impI conjI)
  assume inv: "conn_inv s"
  then have f: "files_ok s" by (simp add: conn_inv_def)
  have new: "info_brk s \<notin> set (files s)" using f by (auto simp: files_ok_def)
  have i: "infos s' = (infos s)(info_brk s \<mapsto> the (infos s' (info_brk s)))" "files s' = info_brk s # files s" "uid_gen s' = Suc (uid_gen s)"
    "uid (the (infos s' (info_brk s))) = uid_gen s" "fd (the (infos s' (info_brk s))) = f" "fi_handler (the (infos s' (info_brk s))) = h"
    "timers s' = timers s" "my_addr s' = my_addr s" "info_brk s' = Suc (info_brk s)"
    using assms(1) by (auto simp: file_info_add_def Let_def)
  have u: "uid (the (infos s q)) < uid_gen s" "infos s q \<noteq> None" if "q \<in> set (files s)" for q
    using inv that by (fastforce simp: conn_inv_def files_ok_def)+
  have same: "infos s' q = infos s q" if "q \<in> set (files s)" for q using new that i(1) by (metis fun_upd_other)
  have "inj_on (\<lambda>q. uid (the (infos s' q))) (set (files s))"
    using inv same by (auto simp: conn_inv_def inj_on_def)
  moreover have "uid_gen s \<notin> (\<lambda>q. uid (the (infos s' q))) ` set (files s)" using u(1) same by fastforce
  ultimately have "inj_on (\<lambda>q. uid (the (infos s' q))) (set (files s'))" using new by (simp add: i(2,4))
  moreover have "\<forall>p\<in>set (files s'). \<forall>k. infos s' p = Some k \<longrightarrow> (fi_handler k = None \<longrightarrow> fd k < 0) \<and> uid k < uid_gen s'"
  proof (intro ballI allI impI)
    fix q k assume "q \<in> set (files s')" "infos s' q = Some k"
    with inv same assms(2) i show "(fi_handler k = None \<longrightarrow> fd k < 0) \<and> uid k < uid_gen s'"
      by (cases "q = info_brk s") (auto simp: conn_inv_def less_SucI)
  qed
  ultimately show "conn_inv s'" using inv file_info_add_ok(1) [OF f assms(1)] by (simp add: conn_inv_def i(7))
  show "evolves s s'" unfolding evolves_def i(2,8,9) using i(1) by (auto, metis fun_upd_other nat_neq_iff)
qed

lemma connect_command_safe [safe_intros]: "ok_from s (connect_command env fi line s)"
  unfolding connect_command_def Let_def
  by (intro safe_intros safe_bind [OF safe_from [OF file_info_add_good upd_file_safe]]) (auto simp: proper_def)

lemma proper_take_over: "proper (take_over k)" "proper (\<lambda>k. k\<lparr>fi_type := t\<rparr>)" "proper (\<lambda>k. k\<lparr>fi_addr := a, fi_status := st\<rparr>)"
  "proper (\<lambda>k. k\<lparr>fi_addr := a\<rparr>)" "proper (\<lambda>k. k\<lparr>fi_events := ev\<rparr>)" "proper (\<lambda>k. k\<lparr>input_buffer := b, amount_received := n\<rparr>)"
  "proper (\<lambda>k. k\<lparr>fd := - 1, connecting := c\<rparr>)" "proper (\<lambda>k. k\<lparr>fi_handler := Some h, fi_events := ev, connecting := c\<rparr>)"
  "proper (sent_part n)"
  by (simp_all add: proper_def take_over_def sent_part_def)

lemmas upd_safe [safe_intros] = proper_take_over [THEN upd_file_safe]

lemma hello_loop_safe: "safe snd s (hello_loop env fi a ps s)"
  by (induction ps arbitrary: s) (auto intro!: safe_intros)

lemma hello_received_safe [safe_intros]: "ok_from s (hello_received env fi line s)"
  unfolding hello_received_def Let_def
  by (intro safe_intros safe_seq [OF hello_loop_safe]) (auto intro!: safe_intros)

lemma handle_line_safe: "safe snd s (handle_line env fi line s)"
  unfolding handle_line_def
  by (cases line) (auto intro!: safe_intros safe_seq [OF gossip_received_safe] safe_seq [OF send_handler_safe])

lemma line_loop_safe: "ok_from s (line_loop fuel env i p s)"
  by (induction fuel arbitrary: i s) (auto intro!: safe_intros safe_seq [OF handle_line_safe] simp: Let_def split: option.splits)

lemma add_input_safe [safe_intros]: "ok_from s (add_input env p s)"
  unfolding add_input_def Let_def by (auto intro!: safe_intros line_loop_safe)

lemma send_hello_safe [safe_intros]: "ok_from s (send_hello p s)"
  unfolding send_hello_def by (rule file_info_send_safe)

lemma good_timer: "good s (s\<lparr>timers := timer_start w h a (timers s)\<rparr>)"
  by (intro good_same) (simp_all add: timer_start_in_order)

lemma upd_timer_safe [safe_intros]:
  "ok_from s (upd_file p (\<lambda>k. k\<lparr>fd := - 1, connecting := c\<rparr>) (s\<lparr>timers := timer_start w h a (timers s)\<rparr>))"
  by (rule safe_from [OF good_timer upd_safe(7)])

lemma good_names [safe_intros]: "good s (s\<lparr>names := x\<rparr>)" "good s (s\<lparr>names := x, g_graph := y\<rparr>)"
  by (intro good_same; simp)+

lemma lost_connection_safe [safe_intros]: "ok_from s (lost_connection env p s)"
  unfolding lost_connection_def Let_def
  by (intro safe_intros)

lemma message_handler_safe [safe_intros]: "ok_from s (message_handler env p events s)"
  unfolding message_handler_def by (intro safe_intros)

lemma connect_handler_safe [safe_intros]: "ok_from s (connect_handler env p events s)"
  unfolding connect_handler_def Let_def by (intro safe_intros)

lemma server_handler_safe [safe_intros]: "ok_from s (server_handler env p events s)"
  unfolding server_handler_def Let_def
  by (intro safe_intros safe_bind [OF safe_from [OF file_info_add_good upd_file_safe]]) (auto simp: proper_def)

lemma run_event_safe [safe_intros]: "ok_from s (run_event env p events s)"
  unfolding run_event_def stdin_handler_def by (auto intro!: safe_intros split: option.splits event_handler.splits)

lemma dispatch_safe: "ok_from s (dispatch env revents es s)"
  by (induction es arbitrary: s) (auto intro!: safe_intros)

lemma main_turn_safe: "ok_from s (main_turn env revents s)"
  unfolding main_turn_def by (intro safe_read dispatch_safe)

lemma timers_safe:
  assumes "ok_from s r"
  shows "ok_from s (fold (\<lambda>t w. bindR w (timer_reconnect (tenv (handler_arg t)) (handler_arg t))) ts r)"
  using assms
proof (induction ts arbitrary: r)
  case (Cons t ts)
  from Cons.IH [OF safe_bind [OF Cons.prems timer_reconnect_safe]] show ?case by simp
qed simp

lemma timer_turn:
  assumes "in_order (timers s)"
  obtains tm ts where "timer_check (\<lambda>h u r. ([], bindR r (timer_reconnect (tenv u) u))) now (timers s) (Inr s) =
      Some (tm, ts, fold (\<lambda>t w. bindR w (timer_reconnect (tenv (handler_arg t)) (handler_arg t)))
        (filter (\<lambda>t. expiry t \<le> now) (timers s)) (Inr s))" "in_order ts"
  using timer_check_ok [OF assms, of "\<lambda>h u r. ([], bindR r (timer_reconnect (tenv u) u))" now "Inr s"] that by (simp, blast)

lemma main_iteration_safe: "ok_from s (main_iteration now tenv env revents s)"
proof -
  have "good s x" if inv: "conn_inv s" and x: "main_iteration now tenv env revents s = Inr x" for x
  proof -
    have "in_order (timers s)" using inv by (simp add: conn_inv_def)
    then obtain tm ts where t: "timer_check (\<lambda>h u r. ([], bindR r (timer_reconnect (tenv u) u))) now (timers s) (Inr s) =
        Some (tm, ts, fold (\<lambda>t w. bindR w (timer_reconnect (tenv (handler_arg t)) (handler_arg t)))
          (filter (\<lambda>t. expiry t \<le> now) (timers s)) (Inr s))" "in_order ts" by (rule timer_turn)
    obtain s1 where s1: "fold (\<lambda>t w. bindR w (timer_reconnect (tenv (handler_arg t)) (handler_arg t)))
          (filter (\<lambda>t. expiry t \<le> now) (timers s)) (Inr s) = Inr s1" "main_turn env revents (s1\<lparr>timers := ts\<rparr>) = Inr x"
      using x by (auto simp: main_iteration_def t(1) bindR_eq_Inr)
    have "good s s1" using timers_safe [of s "Inr s", OF safe_Inr [OF good_refl]] s1(1) by (auto simp: safe_def)
    moreover have "good s1 (s1\<lparr>timers := ts\<rparr>)" by (intro good_same) (simp_all add: t(2))
    moreover have "good (s1\<lparr>timers := ts\<rparr>) x" using main_turn_safe s1(2) by (auto simp: safe_def)
    ultimately show ?thesis using good_trans by blast
  qed
  then show ?thesis unfolding safe_def good_def by blast
qed

section \<open>The running node\<close>

inductive node_run :: "node \<Rightarrow> bool" where
  node_start: "main_start skt a initial_node = Inr s \<Longrightarrow> node_run s"
| node_turn: "node_run s \<Longrightarrow> main_iteration now tenv env revents s = Inr s' \<Longrightarrow> node_run s'"

lemma main_start_inv: "main_start skt a initial_node = Inr s \<Longrightarrow> conn_inv s"
proof -
  assume start: "main_start skt a initial_node = Inr s"
  have "conn_inv initial_node" by (simp add: conn_inv_def initial_node_def files_ok_def in_order_def)
  obtain p1 s1 p2 s2 where add: "file_info_add FI_FILE 0 (Some Stdin_handler) POLLIN initial_node = (p1, s1)"
    "file_info_add FI_SERVER skt (Some Server_handler) POLLIN s1 = (p2, s2)" by (metis surj_pair)
  have "conn_inv s2" using file_info_add_good [OF add(1)] file_info_add_good [OF add(2)] \<open>conn_inv initial_node\<close> by (simp add: good_def)
  then have "conn_inv (s2\<lparr>my_addr := a\<rparr>)" by (simp add: conn_inv_def files_ok_def)
  moreover have "upd_file p1 (\<lambda>k. k\<lparr>fi_addr := a, fi_status := FI_KNOWN\<rparr>) (s2\<lparr>my_addr := a\<rparr>) = Inr s" using start by (simp add: main_start_def add)
  ultimately show "conn_inv s" using upd_safe(3) [where s = "s2\<lparr>my_addr := a\<rparr>" and p = p1 and a = a and st = FI_KNOWN] by (auto simp: safe_def good_def)
qed

lemma node_run_inv: "node_run s \<Longrightarrow> conn_inv s"
proof (induction rule: node_run.induct)
  case (node_start skt a s)
  then show ?case by (rule main_start_inv)
next
  case (node_turn s now tenv env revents s')
  then show ?case using main_iteration_safe [of s now tenv env revents] by (simp add: safe_def good_def)
qed

definition polled :: "node \<Rightarrow> ptr \<Rightarrow> bool" where
  "polled s p \<longleftrightarrow> fi_type (the (infos s p)) \<noteq> FI_FREE \<and> 0 \<le> fd (the (infos s p))"

definition poll_entry :: "node \<Rightarrow> ptr \<Rightarrow> ptr \<times> int \<times> 16 word" where
  "poll_entry s p = (let k = the (infos s p) in (p, fd k, if amount_to_send k > 0 then or (fi_events k) POLLOUT else fi_events k))"

lemma poll_entries_ok:
  "\<forall>p\<in>set ps. p \<noteq> NULL \<and> infos s p \<noteq> None \<Longrightarrow> i + int (length ps) \<le> nfiles s \<Longrightarrow>
   poll_entries ps s i = Inr (map (poll_entry s) (filter (polled s) ps))"
proof (induction ps arbitrary: i)
  case (Cons p ps)
  obtain k where k: "infos s p = Some k" "p \<noteq> NULL" using Cons.prems(1) by auto
  have "poll_entries ps s i = Inr (map (poll_entry s) (filter (polled s) ps))"
    "poll_entries ps s (i + 1) = Inr (map (poll_entry s) (filter (polled s) ps))"
    using Cons.prems by (intro Cons.IH; simp)+
  with k Cons.prems(2) show ?case by (cases "polled s p") (simp_all add: deref_Some polled_def [of s p] poll_entry_def [of s p] Let_def)
qed simp

lemma find_uid:
  assumes "distinct ps" "\<forall>p\<in>set ps. p \<noteq> NULL \<and> m p \<noteq> None" "inj_on (\<lambda>p. uid (the (m p))) (set ps)" "p \<in> set ps"
    "m p = Some k" "fi_type k \<noteq> FI_FREE"
  shows "find_file (\<lambda>j. fi_type j \<noteq> FI_FREE \<and> uid j = uid k) ps m = Inr p"
  using assms
proof (induction ps)
  case (Cons q ps)
  obtain j where j: "m q = Some j" "q \<noteq> NULL" using Cons.prems(2) by auto
  show ?case
  proof (cases "p = q")
    case True
    then have "m q = Some k" using Cons.prems(5) by simp
    with True j Cons.prems(6) show ?thesis by (simp add: deref_Some)
  next
    case False
    then have "uid j \<noteq> uid k" using Cons.prems(3,4,5) j 
    proof -
      have "uid (the (m q)) \<noteq> uid (the (m p))" using False Cons.prems(3,4) inj_onD [OF Cons.prems(3), of q p] by auto
      then show ?thesis using j(1) Cons.prems(5) by simp
    qed
    moreover have "find_file (\<lambda>j. fi_type j \<noteq> FI_FREE \<and> uid j = uid k) ps m = Inr p"
      using Cons.prems False by (intro Cons.IH) (simp_all add: inj_on_insert)
    ultimately show ?thesis using j by (simp add: deref_Some)
  qed
qed simp

text \<open>
  C15: whatever the peers, the user and the system calls do, each turn of the main loop of a running node gets
  through its timers, and polls exactly the open files, within the array. Every polled file is still allocated and has a handler when
  its event is handled, also after the handlers of the files before it. A timer finds the connection it was started for.
\<close>

theorem node_polls_safely:
  assumes "node_run s"
  shows "timer_check (\<lambda>h u r. ([], bindR r (timer_reconnect (tenv u) u))) now (timers s) (Inr s) \<noteq> None \<and>
    poll_entries (files s) s 0 = Inr (map (poll_entry s) (filter (polled s) (files s))) \<and>
    (\<forall>ps p qs t. filter (polled s) (files s) = ps @ p # qs \<longrightarrow> dispatch env revents (map (poll_entry s) ps) s = Inr t \<longrightarrow>
       (\<exists>k. deref (infos t) p = Inr k \<and> fi_handler k \<noteq> None)) \<and>
    (\<forall>p\<in>set (files s). \<forall>k. infos s p = Some k \<longrightarrow> fi_type k \<noteq> FI_FREE \<longrightarrow> timer_reconnect tv (uid k) s = try_connect tv p s)"
proof (intro conjI allI ballI impI)
  have inv: "conn_inv s" using assms by (rule node_run_inv)
  then have files: "\<forall>p\<in>set (files s). p \<noteq> NULL \<and> p < info_brk s \<and> infos s p \<noteq> None" "distinct (files s)" "int (length (files s)) = nfiles s"
    "inj_on (\<lambda>p. uid (the (infos s p))) (set (files s))"
    by (auto simp: conn_inv_def files_ok_def)
  show "timer_check (\<lambda>h u r. ([], bindR r (timer_reconnect (tenv u) u))) now (timers s) (Inr s) \<noteq> None"
    using inv timer_turn [of s tenv now] by (metis conn_inv_def option.distinct(1))
  show "poll_entries (files s) s 0 = Inr (map (poll_entry s) (filter (polled s) (files s)))"
    using files by (intro poll_entries_ok) auto
  show "\<exists>k. deref (infos t) p = Inr k \<and> fi_handler k \<noteq> None"
    if sp: "filter (polled s) (files s) = ps @ p # qs" and d: "dispatch env revents (map (poll_entry s) ps) s = Inr t" for ps p qs t
  proof -
    have "p \<in> set (filter (polled s) (files s))" using sp by simp
    then have p: "p \<in> set (files s)" "polled s p" by auto
    obtain k where k: "infos s p = Some k" "p < info_brk s" "p \<noteq> NULL" using files(1) p(1) by auto
    have h: "fi_handler k \<noteq> None" using inv p k(1) by (auto simp: conn_inv_def polled_def)
    have ev: "evolves s t" using dispatch_safe [of s env revents "map (poll_entry s) ps"] d inv by (simp add: safe_def good_def)
    from evolvesD [OF ev k(1,2)] h show ?thesis using k(3) by (auto simp: deref_Some)
  qed
  show "timer_reconnect tv (uid k) s = try_connect tv p s" if "p \<in> set (files s)" "infos s p = Some k" "fi_type k \<noteq> FI_FREE" for p k
    using find_uid [OF files(2) _ files(4) that] files(1) that(1) by (auto simp: timer_reconnect_def)
qed

theorem node_polls_safely_witness:
  "\<exists>s. main_start 3 (host_at 1) initial_node = Inr s \<and> poll_entries (files s) s 0 = Inr [(2, 3, POLLIN), (1, 0, POLLIN)]"
proof -
  obtain s where s: "main_start 3 (host_at 1) initial_node = Inr s"
    by (simp add: main_start_def file_info_add_def initial_node_def upd_file_def deref_Some Let_def)
  then have i: "files s = [2, 1]" "polled s 1" "polled s 2" "poll_entry s 1 = (1, 0, POLLIN)" "poll_entry s 2 = (2, 3, POLLIN)"
    by (auto simp: main_start_def file_info_add_def initial_node_def upd_file_def deref_Some Let_def polled_def poll_entry_def)
  have "poll_entries (files s) s 0 = Inr (map (poll_entry s) (filter (polled s) (files s)))"
    using node_polls_safely [OF node_start [OF s]] by blast
  with s i show ?thesis by simp
qed

end
