(* ===== verification/Input.thy ===== *)
theory Input
  imports Node
begin

text \<open>
  What becomes of the bytes that arrive: no message handler looks at the input buffers, so that the lines of a
  chunk of input are handled one after the other as if each had come alone.
\<close>

section \<open>Input buffers\<close>

text \<open>Another content of the input buffer of a file.\<close>

definition set_input :: "ptr \<Rightarrow> string \<Rightarrow> nat \<Rightarrow> node \<Rightarrow> node" where
  "set_input p b n s = s\<lparr>infos := (\<lambda>q. map_option (\<lambda>k. if q = p then k\<lparr>input_buffer := b, amount_received := n\<rparr> else k) (infos s q))\<rparr>"

definition inp :: "ptr \<Rightarrow> string \<Rightarrow> nat \<Rightarrow> ptr \<Rightarrow> file_info \<Rightarrow> file_info" where
  "inp p b n q k = (if q = p then k\<lparr>input_buffer := b, amount_received := n\<rparr> else k)"

abbreviation (input) then_input :: "ptr \<Rightarrow> string \<Rightarrow> nat \<Rightarrow> node res \<Rightarrow> node res" where
  "then_input p b n r \<equiv> bindR r (\<lambda>s. Inr (set_input p b n s))"

named_theorems input_simps \<open>calls with another input buffer\<close>

lemma set_input_sel [input_simps]:
  "files (set_input p b n s) = files s" "names (set_input p b n s) = names s" "gossips (set_input p b n s) = gossips s"
  "my_addr (set_input p b n s) = my_addr s" "g_prev (set_input p b n s) = g_prev s" "g_graph (set_input p b n s) = g_graph s"
  "gossip_gen (set_input p b n s) = gossip_gen s" "timers (set_input p b n s) = timers s" "info_brk (set_input p b n s) = info_brk s"
  "uid_gen (set_input p b n s) = uid_gen s" "nfiles (set_input p b n s) = nfiles s"
  by (simp_all add: set_input_def)

lemma set_input_upd [input_simps]:
  "set_input p b n s\<lparr>names := x\<rparr> = set_input p b n (s\<lparr>names := x\<rparr>)"
  "set_input p b n s\<lparr>gossips := y\<rparr> = set_input p b n (s\<lparr>gossips := y\<rparr>)"
  "set_input p b n s\<lparr>gossip_gen := z\<rparr> = set_input p b n (s\<lparr>gossip_gen := z\<rparr>)"
  "set_input p b n s\<lparr>g_graph := u\<rparr> = set_input p b n (s\<lparr>g_graph := u\<rparr>)"
  "set_input p b n s\<lparr>g_dist := v\<rparr> = set_input p b n (s\<lparr>g_dist := v\<rparr>)"
  "set_input p b n s\<lparr>g_prev := w\<rparr> = set_input p b n (s\<lparr>g_prev := w\<rparr>)"
  by (simp_all add: set_input_def)

lemma deref_set_input [input_simps]: "deref (infos (set_input p b n s)) q = bindR (deref (infos s) q) (\<lambda>k. Inr (inp p b n q k))"
  by (simp add: set_input_def deref_def inp_def split: option.splits)

lemma bindR_assoc: "bindR (bindR m f) g = bindR m (\<lambda>x. bindR (f x) g)"
  by (cases m) simp_all

lemma bindR_branches:
  "bindR (if c then m else m') f = (if c then bindR m f else bindR m' f)"
  "bindR (case_option m g x) f = case_option (bindR m f) (\<lambda>y. bindR (g y) f) x"
  "bindR (case_prod h z) f = case_prod (\<lambda>u v. bindR (h u v) f) z"
  by (simp_all split: option.splits prod.splits)

lemmas bind_simps = bindR_assoc bindR_branches Let_def

lemma inp_sel [input_simps]:
  "uid (inp p b n q k) = uid k" "fd (inp p b n q k) = fd k" "fi_type (inp p b n q k) = fi_type k" "fi_status (inp p b n q k) = fi_status k"
  "fi_addr (inp p b n q k) = fi_addr k" "fi_handler (inp p b n q k) = fi_handler k" "fi_events (inp p b n q k) = fi_events k"
  "output_buffer (inp p b n q k) = output_buffer k" "amount_to_send (inp p b n q k) = amount_to_send k"
  "connecting (inp p b n q k) = connecting k" "connect_time (inp p b n q k) = connect_time k" "is_peer (inp p b n q k) = is_peer k"
  by (simp_all add: inp_def is_peer_def)

text \<open>An update that leaves the input alone.\<close>

definition keeps_input :: "(file_info \<Rightarrow> file_info) \<Rightarrow> bool" where
  "keeps_input f \<longleftrightarrow> (\<forall>b n k. f (k\<lparr>input_buffer := b, amount_received := n\<rparr>) = (f k)\<lparr>input_buffer := b, amount_received := n\<rparr>)"

lemma upd_file_input:
  assumes "keeps_input f"
  shows "upd_file q f (set_input p b n s) = then_input p b n (upd_file q f s)"
proof -
  have "f (inp p b n q k) = inp p b n q (f k)" for k using assms by (simp add: inp_def keeps_input_def)
  then show ?thesis
    by (auto simp: upd_file_def deref_set_input bindR_assoc deref_def set_input_def inp_def fun_eq_iff split: option.splits)
qed

lemma find_file_input [input_simps]:
  assumes "\<And>q k. P (inp p b n q k) = P k"
  shows "find_file P ps (infos (set_input p b n s)) = find_file P ps (infos s)"
  by (induction ps) (simp_all add: deref_set_input bind_simps assms cong: if_cong)

lemma payload_loop_input [input_simps]:
  "payload_loop lb ps (infos (set_input p b n s)) acc = payload_loop lb ps (infos s) acc"
proof (induction ps arbitrary: acc)
  case (Cons q ps)
  obtain cap i pl where "acc = (cap, i, pl)" by (cases acc)
  with Cons show ?case by (simp add: deref_set_input bind_simps inp_sel cong: if_cong)
qed simp

lemma file_edges_input [input_simps]: "file_edges my ps (infos (set_input p b n s)) m ng = file_edges my ps (infos s) m ng"
proof (induction ps arbitrary: ng)
  case (Cons q ps)
  obtain nl g where "ng = (nl, g)" by (cases ng)
  moreover have "file_edges my ps (infos (set_input p b n s)) m = file_edges my ps (infos s) m" by (rule ext) (rule Cons)
  ultimately show ?case by (simp add: deref_set_input bind_simps inp_sel cong: if_cong)
qed simp

lemma file_info_send_input [input_simps]: "file_info_send q m (set_input p b n s) = then_input p b n (file_info_send q m s)"
  unfolding file_info_send_def by (intro upd_file_input) (simp add: keeps_input_def put_output_def)

lemma broadcast_loop_input [input_simps]: "broadcast_loop ps m fi (set_input p b n s) = then_input p b n (broadcast_loop ps m fi s)"
  by (induction ps arbitrary: s) (simp_all add: deref_set_input bind_simps inp_sel file_info_send_input cong: if_cong)

lemma file_broadcast_input [input_simps]: "file_broadcast m fi (set_input p b n s) = then_input p b n (file_broadcast m fi s)"
  by (simp add: file_broadcast_def input_simps)

lemma updateGraph_input [input_simps]: "updateGraph (set_input p b n s) = then_input p b n (updateGraph s)"
  by (simp add: updateGraph_def input_simps bind_simps cong: option.case_cong prod.case_cong)

lemma send_gossip_input [input_simps]: "send_gossip lb (set_input p b n s) = then_input p b n (send_gossip lb s)"
  by (simp add: send_gossip_def input_simps bind_simps cong: if_cong prod.case_cong)

lemma updateFromGossip_input [input_simps]: "updateFromGossip g (set_input p b n s) = then_input p b n (updateFromGossip g s)"
  by (simp add: updateFromGossip_def input_simps bind_simps cong: option.case_cong prod.case_cong if_cong)

lemma gossip_received_input [input_simps]:
  "gossip_received lb fi line (set_input p b n s) = bindR (gossip_received lb fi line s) (\<lambda>(l, s'). Inr (l, set_input p b n s'))"
  by (simp add: gossip_received_def input_simps bind_simps cong: option.case_cong prod.case_cong)

lemma send_handler_input [input_simps]:
  "send_handler lb msg (set_input p b n s) = bindR (send_handler lb msg s) (\<lambda>(l, out, s'). Inr (l, out, set_input p b n s'))"
  by (simp add: send_handler_def input_simps bind_simps cong: option.case_cong prod.case_cong if_cong)

lemma try_connect_input [input_simps]: "try_connect env q (set_input p b n s) = then_input p b n (try_connect env q s)"
  by (simp add: try_connect_def upd_file_input keeps_input_def split: conn_result.splits)

lemma file_info_add_input:
  "p < info_brk s \<Longrightarrow> file_info_add ty f h ev (set_input p b n s) = (case file_info_add ty f h ev s of (q, s') \<Rightarrow> (q, set_input p b n s'))"
  by (auto simp: file_info_add_def Let_def set_input_def fun_eq_iff)

lemma connect_command_input:
  "p < info_brk s \<Longrightarrow> connect_command env fi line (set_input p b n s) = then_input p b n (connect_command env fi line s)"
proof -
  assume p: "p < info_brk s"
  obtain q s' where a: "file_info_add FI_OUTGOING (- 1) None 0 s = (q, s')" by (cases "file_info_add FI_OUTGOING (- 1) None 0 s")
  show ?thesis
    by (simp add: connect_command_def input_simps bind_simps upd_file_input keeps_input_def file_info_add_input [OF p] a
        cong: option.case_cong prod.case_cong if_cong)
qed

lemma take_over_inp [input_simps]: "take_over (inp p b n q k) = take_over k"
  by (simp add: take_over_def input_simps fun_eq_iff)

lemma hello_loop_input [input_simps]:
  "hello_loop env fi a ps (set_input p b n s) = bindR (hello_loop env fi a ps s) (\<lambda>(go, s'). Inr (go, set_input p b n s'))"
  by (induction ps arbitrary: s) (simp_all add: input_simps bind_simps upd_file_input keeps_input_def take_over_def cong: if_cong)

lemma hello_received_input [input_simps]:
  "hello_received env fi line (set_input p b n s) = then_input p b n (hello_received env fi line s)"
  by (simp add: hello_received_def input_simps bind_simps upd_file_input keeps_input_def cong: option.case_cong prod.case_cong if_cong)

lemma handle_line_input:
  "p < info_brk s \<Longrightarrow> handle_line env fi line (set_input p b n s) = bindR (handle_line env fi line s) (\<lambda>(l, s'). Inr (l, set_input p b n s'))"
  by (cases line) (simp_all add: handle_line_def input_simps bind_simps connect_command_input)

section \<open>Lines\<close>

text \<open>The lines handled one by one, whatever the buffer holds.\<close>

fun handle_lines :: "(nat \<Rightarrow> sysenv) \<Rightarrow> nat \<Rightarrow> ptr \<Rightarrow> string list \<Rightarrow> node \<Rightarrow> node res" where
  "handle_lines env i p [] s = Inr s"
| "handle_lines env i p (l # ls) s = bindR (handle_line (env i) p l s) (\<lambda>(l', s1). handle_lines env (Suc i) p ls s1)"

definition lines_text :: "string list \<Rightarrow> string" where
  "lines_text ls = concat (map (\<lambda>l. l @ [CHR 0x0A]) ls)"

lemma handle_line_keeps:
  assumes "conn_inv s" "handle_line env fi l s = Inr (l', s1)"
  shows "conn_inv s1" "evolves s s1"
  using assms handle_line_safe [of s env fi l] by (auto simp: safe_def good_def)

lemma handle_lines_input:
  "conn_inv s \<Longrightarrow> p < info_brk s \<Longrightarrow> handle_lines env i fi ls (set_input p b n s) = then_input p b n (handle_lines env i fi ls s)"
proof (induction ls arbitrary: i s)
  case (Cons l ls)
  show ?case
  proof (cases "handle_line (env i) fi l s")
    case (Inl e)
    then show ?thesis using handle_line_input [OF Cons.prems(2)] by simp
  next
    case (Inr r)
    obtain l' s1 where r: "r = (l', s1)" by (cases r)
    note h = handle_line_keeps [OF Cons.prems(1) Inr [unfolded r]]
    have "p < info_brk s1" using h(2) Cons.prems(2) by (simp add: evolves_def)
    from Cons.IH [OF h(1) this] show ?thesis using handle_line_input [OF Cons.prems(2)] Inr r by simp
  qed
qed simp

lemma set_input_twice [simp]: "set_input p b n (set_input p b' n' s) = set_input p b n s"
  unfolding set_input_def by (rule node.equality) (simp_all add: fun_eq_iff option.map_comp comp_def if_distrib cong: if_cong)

lemma set_input_same: "infos s p = Some k \<Longrightarrow> set_input p (input_buffer k) (amount_received k) s = s"
proof -
  assume k: "infos s p = Some k"
  have "(\<lambda>q. map_option (\<lambda>j. if q = p then j\<lparr>input_buffer := input_buffer k, amount_received := amount_received k\<rparr> else j) (infos s q)) = infos s"
  proof
    fix q show "map_option (\<lambda>j. if q = p then j\<lparr>input_buffer := input_buffer k, amount_received := amount_received k\<rparr> else j) (infos s q) = infos s q"
      using k by (cases "infos s q") auto
  qed
  then show ?thesis by (simp add: set_input_def)
qed

lemma upd_set_input:
  "infos s p = Some k \<Longrightarrow> p \<noteq> NULL \<Longrightarrow> upd_file p (\<lambda>k. k\<lparr>input_buffer := b, amount_received := n\<rparr>) s = Inr (set_input p b n s)"
  by (auto simp: upd_file_ok set_input_def fun_eq_iff option.map_ident)

subsection \<open>What is left of a line\<close>

lemma split_at_Some: "split_at c s = Some (a, b) \<Longrightarrow> s = a @ c # b"
  by (induction s arbitrary: a) (auto split: if_splits option.splits)

lemma rsplit_at_Some: "rsplit_at c s = Some (a, b) \<Longrightarrow> s = a @ c # b"
proof -
  assume "rsplit_at c s = Some (a, b)"
  then have "split_at c (rev s) = Some (rev b, rev a)" unfolding rsplit_at_def by force
  from arg_cong [OF split_at_Some [OF this], of rev] show ?thesis by simp
qed

definition overwritten :: "string \<Rightarrow> string \<Rightarrow> bool" where
  "overwritten l l' \<longleftrightarrow> length l' = length l \<and> set l' \<subseteq> insert NUL (set l)"

lemma overwritten_refl [simp]: "overwritten l l"
  by (auto simp: overwritten_def)

lemma gossip_received_chars: "gossip_received lb fi line s = Inr (l', s') \<Longrightarrow> overwritten line l'"
  by (auto simp: gossip_received_def Let_def bindR_eq_Inr overwritten_def split: option.splits dest!: split_at_Some)

lemma send_handler_chars: "send_handler lb msg s = Inr (l', out, s') \<Longrightarrow> overwritten msg l'"
  by (auto simp: send_handler_def Let_def bindR_eq_Inr overwritten_def split: option.splits if_splits prod.splits
      dest!: split_at_Some rsplit_at_Some)

lemma handle_line_chars: "handle_line env fi line s = Inr (l', s') \<Longrightarrow> overwritten line l'"
  using gossip_received_chars send_handler_chars
  by (cases line) (fastforce simp: handle_line_def bindR_eq_Inr overwritten_def split: if_splits)+

section \<open>The loop\<close>

definition quiet :: "string \<Rightarrow> bool" where
  "quiet b \<longleftrightarrow> (\<exists>a c. b = a @ NUL # c \<and> CHR 0x0A \<notin> set a)"

lemma quiet_after: "CHR 0x0A \<notin> set a \<Longrightarrow> quiet (a @ NUL # c)"
  by (auto simp: quiet_def)

lemma NUL_no_newline [simp]: "NUL \<noteq> CHR 0x0A" "CHR 0x0A \<noteq> NUL"
  by (simp_all add: NUL_def)

lemma raw_index_quiet: "quiet b \<Longrightarrow> raw_index (CHR 0x0A) b = Inr None"
proof -
  have "CHR 0x0A \<notin> set a \<Longrightarrow> raw_index (CHR 0x0A) (a @ NUL # c) = Inr None" for a c
    by (induction a) auto
  then show "quiet b \<Longrightarrow> raw_index (CHR 0x0A) b = Inr None" by (auto simp: quiet_def)
qed

lemma raw_index_line: "CHR 0x0A \<notin> set l \<Longrightarrow> NUL \<notin> set l \<Longrightarrow> raw_index (CHR 0x0A) (l @ CHR 0x0A # r) = Inr (Some (length l))"
  by (induction l) auto

lemma conn_inv_input: "conn_inv s \<Longrightarrow> infos s p = Some k \<Longrightarrow> p \<noteq> NULL \<Longrightarrow> conn_inv (set_input p b n s)"
  using upd_file_safe [of "\<lambda>k. k\<lparr>input_buffer := b, amount_received := n\<rparr>" s p] proper_take_over(6) upd_set_input [of s p k n b] by (simp add: safe_def good_def)

lemma line_loop_lines:
  assumes "\<forall>l\<in>set ls. CHR 0x0A \<notin> set l \<and> NUL \<notin> set l" "conn_inv s" "infos s p = Some k" "p \<noteq> NULL" "p < info_brk s"
    "input_buffer k = lines_text ls @ rest" "amount_received k = length (lines_text ls)" "ls = [] \<Longrightarrow> quiet rest" "length ls < fuel"
  shows "\<exists>b. line_loop fuel env i p s = then_input p b 0 (handle_lines env i p ls s)"
  using assms
proof (induction ls arbitrary: fuel i s k rest)
  case Nil
  have "raw_index (CHR 0x0A) (input_buffer k) = Inr None" using Nil by (intro raw_index_quiet) (simp add: lines_text_def)
  then have "line_loop fuel env i p s = Inr s" using Nil by (cases fuel) (simp_all add: deref_Some)
  moreover have "set_input p (input_buffer k) 0 s = s" using set_input_same [OF Nil.prems(3)] Nil.prems(7) by (simp add: lines_text_def)
  ultimately show ?case by (intro exI [of _ "input_buffer k"]) simp
next
  case (Cons l ls)
  obtain f where f: "fuel = Suc f" "length ls < f" using Cons.prems(9) by (cases fuel) auto
  define tail where "tail = lines_text ls @ rest"
  have buf: "input_buffer k = l @ CHR 0x0A # tail" and amt: "amount_received k = Suc (length l) + length (lines_text ls)"
    using Cons.prems(6,7) by (simp_all add: lines_text_def tail_def)
  have ix: "raw_index (CHR 0x0A) (input_buffer k) = Inr (Some (length l))" unfolding buf using Cons.prems(1) by (intro raw_index_line) auto
  show ?case
  proof (cases "handle_line (env i) p l s")
    case (Inl e)
    then have "line_loop fuel env i p s = Inl e" using ix Cons.prems(3,4) f(1) buf by (simp add: deref_Some)
    with Inl show ?thesis by simp
  next
    case (Inr r)
    obtain l' s1 where r: "r = (l', s1)" by (cases r)
    note h = handle_line_keeps [OF Cons.prems(2) Inr [unfolded r]]
    obtain k1 where k1: "infos s1 p = Some k1" "p < info_brk s1" using evolvesD [OF h(2) Cons.prems(3,5)] h(2) Cons.prems(5) by (auto simp: evolves_def)
    have ov: "length l' = length l" "CHR 0x0A \<notin> set l'"
      using handle_line_chars [OF Inr [unfolded r]] Cons.prems(1) by (auto simp: overwritten_def)
    let ?n = "length (lines_text ls)" and ?buf = "l' @ [NUL] @ tail"
    define b where "b = take ?n (drop (Suc (length l)) ?buf) @ drop ?n ?buf"
    have b: "b = lines_text ls @ drop ?n ?buf" using ov(1) by (simp add: b_def tail_def)
    have q: "ls = [] \<Longrightarrow> quiet (drop ?n ?buf)" using ov(2) by (auto simp: quiet_def lines_text_def)
    have "upd_file p (\<lambda>k. k\<lparr>input_buffer := b, amount_received := ?n\<rparr>) s1 = Inr (set_input p b ?n s1)"
      by (rule upd_set_input [OF k1(1) Cons.prems(4)])
    then have step: "line_loop fuel env i p s = line_loop f env (Suc i) p (set_input p b ?n s1)"
      using ix Cons.prems(3,4) f(1) Inr r amt by (simp add: deref_Some Let_def b_def buf)
    have s2: "conn_inv (set_input p b ?n s1)" by (rule conn_inv_input [OF h(1) k1(1) Cons.prems(4)])
    have k2: "infos (set_input p b ?n s1) p = Some (k1\<lparr>input_buffer := b, amount_received := ?n\<rparr>)" using k1(1) by (simp add: set_input_def)
    obtain b' where b': "line_loop f env (Suc i) p (set_input p b ?n s1) = then_input p b' 0 (handle_lines env (Suc i) p ls (set_input p b ?n s1))"
      using Cons.IH [OF _ s2 k2 Cons.prems(4) _ _ _ q f(2), of "Suc i"] Cons.prems(1) k1(2) b by (auto simp: input_simps)
    have "then_input p b' 0 (handle_lines env (Suc i) p ls (set_input p b ?n s1)) = then_input p b' 0 (handle_lines env (Suc i) p ls s1)"
      unfolding handle_lines_input [OF h(1) k1(2)] by (simp add: bindR_assoc)
    then show ?thesis using step b' Inr r by (intro exI [of _ b']) simp
  qed
qed

section \<open>Properties\<close>

text \<open>
  C16: when a read brings whole lines, they are handled in order exactly as if there were no buffer: the result is
  that of the lines handled one after the other, or the first fault, and afterwards nothing is left in the buffer.
\<close>

theorem whole_lines_handled:
  assumes "conn_inv s" "p \<in> set (files s)" "infos s p = Some k" "amount_received k = 0"
    and read: "y_read (env 0) = Some (lines_text ls)" "length (lines_text ls) \<le> 100"
    and ls: "\<forall>l\<in>set ls. CHR 0x0A \<notin> set l \<and> NUL \<notin> set l"
  shows "\<exists>b. add_input env p s = then_input p b 0 (handle_lines env 0 p ls s)"
proof -
  have p: "p \<noteq> NULL" "p < info_brk s" using assms(1,2) by (auto simp: conn_inv_def files_ok_def)
  let ?n = "length (lines_text ls)"
  define buf where "buf = take 100 (input_buffer k @ map (l_junk (env 0)) [length (input_buffer k)..<100])"
  define b where "b = lines_text ls @ drop ?n buf"
  have k1: "infos (set_input p b ?n s) p = Some (k\<lparr>input_buffer := b, amount_received := ?n\<rparr>)" using assms(3) by (simp add: set_input_def)
  have step: "add_input env p s = (if lines_text ls = [] then Inr (set_input p b ?n s) else line_loop (Suc ?n) env 0 p (set_input p b ?n s))"
    using assms(3,4) p(1) read by (simp add: add_input_def deref_Some Let_def upd_set_input b_def buf_def)
  show ?thesis
  proof (cases "ls = []")
    case True
    then show ?thesis using step by (intro exI [of _ b]) (simp add: lines_text_def)
  next
    case False
    have "length ls \<le> ?n" by (induction ls) (auto simp: lines_text_def)
    then have "length ls < Suc ?n" by simp
    from line_loop_lines [OF ls conn_inv_input [OF assms(1,3) p(1)] k1 p(1) _ _ _ _ this, of "drop ?n buf" env 0]
    obtain b' where "line_loop (Suc ?n) env 0 p (set_input p b ?n s) = then_input p b' 0 (handle_lines env 0 p ls (set_input p b ?n s))"
      using p(2) False by (auto simp: input_simps b_def)
    moreover have "lines_text ls \<noteq> []" using False by (cases ls) (auto simp: lines_text_def)
    ultimately show ?thesis using step handle_lines_input [OF assms(1) p(2)] by (intro exI [of _ b']) (simp add: bindR_assoc)
  qed
qed

text \<open>A running node reads two lines from its user: one it does not understand and one that asks for a connection.\<close>

definition idle_env :: sysenv where
  "idle_env = \<lparr>l_gethost = (\<lambda>h. None), l_inetaddr = read_quad, l_usable = (\<lambda>n. n + 16), l_junk = (\<lambda>i. CHR ''x''), y_now = 0,
     y_socket = - 1, y_connect = Conn_failed, y_accept = (- 1, blank_addr), y_error = 0, y_read = None, y_sent = 0,
     y_own = (\<lambda>f. True), y_peer = (\<lambda>f. None), y_this = (\<lambda>p b. blank_addr)\<rparr>"

definition reads :: "string \<Rightarrow> nat \<Rightarrow> sysenv" where
  "reads d i = idle_env\<lparr>y_read := Some d\<rparr>"

lemma started:
  obtains s k where "main_start 3 (host_at 1) initial_node = Inr s" "conn_inv s" "files s = [2, 1]" "infos s 1 = Some k" "amount_received k = 0"
    "fi_type k = FI_FILE" "info_brk s = 3"
proof -
  obtain s where s: "main_start 3 (host_at 1) initial_node = Inr s"
    by (simp add: main_start_def file_info_add_def initial_node_def upd_file_def deref_Some Let_def)
  then have "files s = [2, 1]" "\<exists>k. infos s 1 = Some k \<and> amount_received k = 0 \<and> fi_type k = FI_FILE" "info_brk s = 3"
    by (auto simp: main_start_def file_info_add_def initial_node_def upd_file_def deref_Some Let_def)
  with s main_start_inv [OF s] that show thesis by blast
qed

theorem whole_lines_handled_witness:
  "\<exists>s s'. main_start 3 (host_at 1) initial_node = Inr s \<and> add_input (reads (lines_text [''x'', ''C1.2.3.4:80''])) 1 s = Inr s' \<and>
     files s' = [3, 2, 1] \<and> amount_received (the (infos s' 1)) = 0"
proof -
  obtain s k where s: "main_start 3 (host_at 1) initial_node = Inr s" "conn_inv s" "files s = [2, 1]" "infos s 1 = Some k" "amount_received k = 0"
    "fi_type k = FI_FILE" "info_brk s = 3" by (rule started)
  let ?ls = "[''x'', ''C1.2.3.4:80'']"
  have l: "\<forall>l\<in>set ?ls. CHR 0x0A \<notin> set l \<and> NUL \<notin> set l" by (simp add: NUL_def)
  have r: "y_read (reads (lines_text ?ls) 0) = Some (lines_text ?ls)" "length (lines_text ?ls) \<le> 100" by (simp_all add: reads_def lines_text_def)
  obtain s1 where h: "handle_lines (reads (lines_text ?ls)) 0 1 ?ls s = Inr s1" "files s1 = [3, 2, 1]" "infos s1 1 = Some k"
    using s(3-7)
    by (auto simp: handle_line_def connect_command_def deref_Some reads_def idle_env_def try_connect_def file_info_add_def upd_file_ok Let_def)
  obtain b where "add_input (reads (lines_text ?ls)) 1 s = then_input 1 b 0 (handle_lines (reads (lines_text ?ls)) 0 1 ?ls s)"
    using whole_lines_handled [OF s(2) _ s(4,5), of "reads (lines_text ?ls)" ?ls, OF _ r l] s(3) by auto
  then show ?thesis using s(1) h by (intro exI [of _ s] exI [of _ "set_input 1 b 0 s1"]) (simp add: set_input_def)
qed

subsection \<open>Stale bytes\<close>

lemma unknown_line: "l \<noteq> [] \<Longrightarrow> hd l \<notin> set ''CGHEeS'' \<Longrightarrow> handle_line env fi l s = Inr (l, s)"
  by (cases l) (simp_all add: handle_line_def)

lemma loop_step:
  assumes "infos s p = Some k" "p \<noteq> NULL" "input_buffer k = l @ CHR 0x0A # t" "CHR 0x0A \<notin> set l" "NUL \<notin> set l" "l \<noteq> []"
    "hd l \<notin> set ''CGHEeS''" "n = amount_received k - Suc (length l)"
  shows "line_loop (Suc f) env i p s = (if amount_received k < Suc (length l) then Inl Out_of_bounds
    else line_loop f env (Suc i) p (set_input p (take n t @ drop n (l @ NUL # t)) n s))"
  using assms raw_index_line [OF assms(4,5), of t] unknown_line [OF assms(6,7), of "env i" p s]
  by (simp add: deref_Some Let_def upd_set_input)

lemma loop_done:
  "infos s p = Some k \<Longrightarrow> p \<noteq> NULL \<Longrightarrow> quiet (input_buffer k) \<Longrightarrow> line_loop (Suc f) env i p s = Inr s"
  using raw_index_quiet by (simp add: deref_Some)

lemma set_input_info: "infos s p = Some k \<Longrightarrow> infos (set_input p b n s) p = Some (k\<lparr>input_buffer := b, amount_received := n\<rparr>)"
  by (simp add: set_input_def)

lemma add_input_read:
  assumes "infos s p = Some k" "p \<noteq> NULL" "y_read (env 0) = Some d" "d \<noteq> []" "length d \<le> 100" "amount_received k = n"
    "input_buffer k = b @ c" "n \<le> length b" "length b \<le> 100" "m = n + length d"
  shows "\<exists>r. add_input env p s = line_loop (Suc m) env 0 p (set_input p (take n b @ d @ drop m b @ r) m s)"
proof -
  define x where "x = c @ map (l_junk (env 0)) [length (input_buffer k)..<n + 100]"
  define buf where "buf = take (n + 100) (input_buffer k @ map (l_junk (env 0)) [length (input_buffer k)..<n + 100])"
  have buf: "buf = b @ take (n + 100 - length b) x" using assms(7,9) by (simp add: buf_def x_def)
  have "add_input env p s = line_loop (Suc (n + length d)) env 0 p (set_input p (take n buf @ d @ drop (n + length d) buf) (n + length d) s)"
    using assms(1-6)
    by (simp add: add_input_def deref_Some Let_def upd_set_input buf_def [symmetric] del: take_append take_take drop_take line_loop.simps)
  also have "take n buf @ d @ drop (n + length d) buf = take n b @ d @ drop (n + length d) (b @ take (n + 100 - length b) x)"
    using assms(8) by (simp add: buf)
  finally have "add_input env p s = line_loop (Suc (n + length d)) env 0 p
      (set_input p (take n b @ d @ drop (n + length d) (b @ take (n + 100 - length b) x)) (n + length d) s)" .
  then show ?thesis unfolding assms(10) by (intro exI [of _ "drop (n + length d - length b) (take (n + 100 - length b) x)"]) (simp del: line_loop.simps)
qed

text \<open>
  A peer that sends two lines in one packet and then a line in small pieces stops the node: the bytes that moving
  the buffer leaves behind contain an old end of line, which is found behind the bytes that were received.
\<close>

theorem stale_input_faults:
  assumes "infos s p = Some k" "p \<noteq> NULL" "amount_received k = 0"
    and "y_read (e1 0) = Some (''a'' @ [CHR 0x0A] @ ''bcd'' @ [CHR 0x0A])" "y_read (e2 0) = Some ''x''" "y_read (e3 0) = Some ''yzw''"
  shows "bindR (add_input e1 p s) (\<lambda>s1. bindR (add_input e2 p s1) (add_input e3 p)) = Inl Out_of_bounds"
proof -
  obtain r where "add_input e1 p s = line_loop (Suc 6) e1 0 p (set_input p (''a'' @ CHR 0x0A # ''bcd'' @ CHR 0x0A # r) 6 s)"
    using add_input_read [where env = e1 and b = "[]" and c = "input_buffer k" and n = 0 and m = 6, OF assms(1,2,4)] assms(3) by (auto simp del: line_loop.simps)
  also have "\<dots> = line_loop (Suc 5) e1 1 p (set_input p (''bcd'' @ CHR 0x0A # ''d'' @ CHR 0x0A # r) 4 s)"
    using loop_step [OF set_input_info [where b = "''a'' @ CHR 0x0A # ''bcd'' @ CHR 0x0A # r" and n = 6, OF assms(1)] assms(2),
      where l = "''a''" and t = "''bcd'' @ CHR 0x0A # r" and n = 4 and f = "Suc 5" and env = e1 and i = 0]
    by (simp add: NUL_def numeral_2_eq_2 del: line_loop.simps)
  also have "\<dots> = line_loop (Suc 4) e1 2 p (set_input p (''bcd'' @ NUL # ''d'' @ CHR 0x0A # r) 0 s)"
    using loop_step [OF set_input_info [where b = "''bcd'' @ CHR 0x0A # ''d'' @ CHR 0x0A # r" and n = 4, OF assms(1)] assms(2),
      where l = "''bcd''" and t = "''d'' @ CHR 0x0A # r" and n = 0 and f = 5 and env = e1 and i = 1]
    by (simp add: NUL_def numeral_2_eq_2 del: line_loop.simps)
  also have "\<dots> = Inr (set_input p (''bcd'' @ NUL # ''d'' @ CHR 0x0A # r) 0 s)"
    by (rule loop_done [OF set_input_info [OF assms(1)] assms(2)]) (simp add: quiet_after [of "''bcd''", simplified])
  finally have one: "add_input e1 p s = \<dots>" .
  note k1 = set_input_info [where b = "''bcd'' @ NUL # ''d'' @ CHR 0x0A # r" and n = 0, OF assms(1)]
  obtain r2 where "add_input e2 p (set_input p (''bcd'' @ NUL # ''d'' @ CHR 0x0A # r) 0 s) =
      line_loop (Suc 1) e2 0 p (set_input p (''xcd'' @ NUL # ''d'' @ CHR 0x0A # r2) 1 s)"
    using add_input_read [where env = e2 and b = "''bcd'' @ NUL # ''d'' @ [CHR 0x0A]" and c = r and n = 0 and m = 1, OF k1 assms(2,5)] by (auto simp del: line_loop.simps)
  also have "\<dots> = Inr (set_input p (''xcd'' @ NUL # ''d'' @ CHR 0x0A # r2) 1 s)"
    unfolding One_nat_def
    by (rule loop_done [OF set_input_info [OF assms(1)] assms(2)]) (simp add: quiet_after [of "''xcd''", simplified])
  finally have two: "add_input e2 p (set_input p (''bcd'' @ NUL # ''d'' @ CHR 0x0A # r) 0 s) = \<dots>" .
  note k2 = set_input_info [where b = "''xcd'' @ NUL # ''d'' @ CHR 0x0A # r2" and n = 1, OF assms(1)]
  obtain r3 where "add_input e3 p (set_input p (''xcd'' @ NUL # ''d'' @ CHR 0x0A # r2) 1 s) =
      line_loop (Suc 4) e3 0 p (set_input p (''xyzwd'' @ CHR 0x0A # r3) 4 s)"
    using add_input_read [where env = e3 and b = "''xcd'' @ NUL # ''d'' @ [CHR 0x0A]" and c = r2 and n = 1 and m = 4, OF k2 assms(2,6)] by (auto simp del: line_loop.simps)
  also have "\<dots> = Inl Out_of_bounds"
    using loop_step [OF set_input_info [where b = "''xyzwd'' @ CHR 0x0A # r3" and n = 4, OF assms(1)] assms(2),
      where l = "''xyzwd''" and t = r3 and n = 0 and f = 4 and env = e3 and i = 0] by (simp add: NUL_def numeral_2_eq_2 del: line_loop.simps)
  finally show ?thesis using one two by simp
qed

theorem stale_input_faults_witness:
  "bindR (add_input (reads (''a'' @ [CHR 0x0A] @ ''bcd'' @ [CHR 0x0A])) 2 small_node) (\<lambda>s1.
     bindR (add_input (reads ''x'') 2 s1) (add_input (reads ''yzw'') 2)) = Inl Out_of_bounds"
  by (rule stale_input_faults [of _ _ "peer_info 5 (host_at 2)"]) (simp_all add: small_node_def peer_info_def reads_def)

end
