(* ===== verification/Conversation.thy ===== *)
theory Conversation
  imports Minisocket
begin

text \<open>
  Two machines on one network. A turn of \<open>network_poll\<close> in \<^verbatim>\<open>src/P1-P4/network.c\<close> takes a packet from the
  wire of one machine to the interrupt handler of the other; the calls on the two sockets run from one \<open>semaphore_P\<close> to the
  next, as in \<^verbatim>\<open>Minisocket\<close>. A packet is taken to arrive before the call that waits for it executes its P. The theorems follow a
  stream from the creation of its two sockets through any number of messages.
\<close>

section \<open>Delivery\<close>

text \<open>
  One turn of the loop: \<open>a\<close> is the block that \<open>malloc\<close> returned, \<open>n\<close> the result of \<open>recvfrom\<close>, \<open>b\<close> the buffer after it and
  \<open>sin\<close> the address it came from. The interrupt runs the handler registered in \<open>minithread_system_initialize\<close>.
\<close>

definition network_poll :: "sockenv \<Rightarrow> ptr \<Rightarrow> int \<Rightarrow> 32 word \<times> 16 word \<Rightarrow> byte list \<Rightarrow> 'z socks_scheme \<Rightarrow> 'z socks_scheme res" where
  "network_poll env a n sin b s = assertR (a \<noteq> NULL) (assertR (0 < n)
     (network_handler env a
       (s\<lparr>packets := (packets s)(a \<mapsto> \<lparr>pk_sender = sockaddr_to_network_address sin, buffer = b, size = n\<rparr>)\<rparr>)))"

text \<open>The last packet that the machine \<open>c\<close> sent reaches its addressee; \<open>junk\<close> is what the buffer held behind it.\<close>

definition deliver :: "sockenv \<Rightarrow> ptr \<Rightarrow> byte list \<Rightarrow> 'y socks_scheme \<Rightarrow> 'z socks_scheme \<Rightarrow> 'z socks_scheme res" where
  "deliver env a junk c s = (let (dest, b) = last (wire c) in
     if dest = network_address_to_sockaddr (local_host s)
     then network_poll env a (int (length b)) (network_address_to_sockaddr (local_host c)) (b @ junk) s
     else Inr s)"

text \<open>A call goes on to its next P. One that has to wait is left where it is.\<close>

definition proceed :: "sockenv \<Rightarrow> control \<Rightarrow> 'z socks_scheme \<Rightarrow> (control \<times> 'z socks_scheme) res" where
  "proceed env k s = (case k of
     Finished r \<Rightarrow> Inr (k, s)
   | At pt \<Rightarrow> bindR (arrive pt s) (\<lambda>(fl, s1). case fl of Returned \<Rightarrow> resume env pt s1 | Switched \<Rightarrow> Inr (k, s1)))"

text \<open>
  The three packets of the handshake: the server \<open>s\<close> waits at \<open>port\<close>, the client \<open>c\<close> connects to it. The blocks for the packets are
  \<open>a1\<close> and \<open>a3\<close> at the server and \<open>a2\<close> at the client.
\<close>

definition handshake ::
  "sockenv \<Rightarrow> sockenv \<Rightarrow> int \<Rightarrow> ptr \<Rightarrow> ptr \<Rightarrow> ptr \<Rightarrow> byte list \<Rightarrow> 'z socks_scheme \<Rightarrow> 'z socks_scheme \<Rightarrow>
     (control \<times> control \<times> 'z socks_scheme \<times> 'z socks_scheme) res" where
  "handshake se ce port a1 a2 a3 junk s c =
     bindR (minisocket_server_create se True port s) (\<lambda>(k0, s0). bindR (proceed se k0 s0) (\<lambda>(k1, s1).
     bindR (minisocket_client_create ce True (Some (local_host s)) port c) (\<lambda>(l0, c0). bindR (proceed ce l0 c0) (\<lambda>(l1, c1).
     bindR (deliver se a1 junk c1 s1) (\<lambda>s2. bindR (proceed se k1 s2) (\<lambda>(k2, s3).
     bindR (deliver ce a2 junk s3 c1) (\<lambda>c2. bindR (proceed ce l1 c2) (\<lambda>(l2, c3).
     bindR (deliver se a3 junk c3 s3) (\<lambda>s4. bindR (proceed se k2 s4) (\<lambda>(k3, s5). Inr (k3, l2, s5, c3)))))))))))"

text \<open>One message \<open>m\<close> from the socket \<open>p\<close> of \<open>c\<close> to the socket \<open>q\<close> of \<open>s\<close>, received into the buffer \<open>b\<close>.\<close>

definition transfer ::
  "sockenv \<Rightarrow> sockenv \<Rightarrow> ptr \<Rightarrow> ptr \<Rightarrow> ptr \<Rightarrow> ptr \<Rightarrow> byte list \<Rightarrow> byte list \<Rightarrow> byte list \<Rightarrow> 'z socks_scheme \<Rightarrow> 'z socks_scheme \<Rightarrow>
     (control \<times> control \<times> 'z socks_scheme \<times> 'z socks_scheme) res" where
  "transfer ce se p q a1 a2 junk m b c s =
     bindR (minisocket_send p (Some m) (int (length m)) c) (\<lambda>(l0, c0). bindR (proceed ce l0 c0) (\<lambda>(l1, c1).
     bindR (deliver se a1 junk c1 s) (\<lambda>s1. bindR (deliver ce a2 junk s1 c1) (\<lambda>c2. bindR (proceed ce l1 c2) (\<lambda>(l2, c3).
     bindR (minisocket_receive q (Some b) (int (length b)) s1) (\<lambda>(k0, s2). bindR (proceed se k0 s2) (\<lambda>(k1, s3).
     bindR (proceed se k1 s3) (\<lambda>(k2, s4). Inr (l2, k2, c3, s4)))))))))"

text \<open>Message after message; the results are what the receiver's calls returned.\<close>

fun transfers ::
  "sockenv \<Rightarrow> sockenv \<Rightarrow> ptr \<Rightarrow> ptr \<Rightarrow> ptr \<Rightarrow> ptr \<Rightarrow> byte list \<Rightarrow> byte list \<Rightarrow> byte list list \<Rightarrow> 'z socks_scheme \<Rightarrow> 'z socks_scheme \<Rightarrow>
     (control list \<times> 'z socks_scheme \<times> 'z socks_scheme) res" where
  "transfers ce se p q a1 a2 junk b [] c s = Inr ([], c, s)"
| "transfers ce se p q a1 a2 junk b (m # ms) c s =
     bindR (transfer ce se p q a1 a2 junk m b c s) (\<lambda>(l, k, c1, s1).
     bindR (transfers ce se p q a1 a2 junk b ms c1 s1) (\<lambda>(ks, c2, s2). Inr (k # ks, c2, s2)))"

section \<open>Semaphores and alarms between the steps\<close>

definition counts :: "'z system_scheme \<Rightarrow> ptr \<Rightarrow> int option" where
  "counts s = map_option s_count \<circ> sems s"

text \<open>The alarms that are set, and a network that loses nothing.\<close>

definition alarms_are :: "ptr list \<Rightarrow> 'z net_scheme \<Rightarrow> bool" where
  "alarms_are as s \<longleftrightarrow> alarm_inv s \<and> map fst (pending s) = as \<and> \<not> synthetic_network s"

lemma counts_simps [simp]: "counts (s\<lparr>sems := m\<rparr>) = map_option s_count \<circ> m"
  "counts (s\<lparr>sockets := ks\<rparr>) = counts s" "counts (s\<lparr>packets := ps\<rparr>) = counts s" "counts (s\<lparr>wire := w\<rparr>) = counts s"
  by (simp_all add: counts_def)

lemma alarms_are_simps [simp]: "alarms_are as (s\<lparr>sems := m\<rparr>) = alarms_are as s" "alarms_are as (s\<lparr>sockets := ks\<rparr>) = alarms_are as s"
  "alarms_are as (s\<lparr>packets := ps\<rparr>) = alarms_are as s" "alarms_are as (s\<lparr>wire := w\<rparr>) = alarms_are as s"
  "alarms_are as (s\<lparr>ports := pp\<rparr>) = alarms_are as s"
  "alarms_are as (s\<lparr>sock_brk := bb\<rparr>) = alarms_are as s" "alarms_are as (s\<lparr>n_client_ports := cp\<rparr>) = alarms_are as s"
  "alarms_are as (s\<lparr>sem_brk := sb\<rparr>) = alarms_are as s"
  by (simp_all add: alarms_are_def alarm_inv_def pending_def)

lemma P_down:
  assumes "x \<noteq> NULL" "counts s x = Some n" "0 < n"
  obtains m where "semaphore_P x s = Inr (Returned, s\<lparr>sems := m\<rparr>)" "map_option s_count \<circ> m = (counts s)(x \<mapsto> n - 1)"
proof -
  obtain z where z: "sems s x = Some z" "s_count z = n" using assms(2) by (auto simp: counts_def)
  show thesis
    by (rule that [OF semaphore_P_passes [OF assms(1) z(1)]]) (use assms(3) z in \<open>auto simp: counts_def fun_eq_iff\<close>)
qed

lemma V_up:
  assumes "x \<noteq> NULL" "counts s x = Some n" "0 \<le> n"
  obtains m where "semaphore_V x s = Inr (s\<lparr>sems := m\<rparr>)" "map_option s_count \<circ> m = (counts s)(x \<mapsto> n + 1)"
proof -
  obtain z where z: "sems s x = Some z" "s_count z = n" using assms(2) by (auto simp: counts_def)
  show thesis
    by (rule that [OF semaphore_V_passes [OF assms(1) z(1)]]) (use assms(3) z in \<open>auto simp: counts_def fun_eq_iff\<close>)
qed

lemma proceed_down:
  assumes "point_sem pt s = Inr x" "x \<noteq> NULL" "counts s x = Some n" "0 < n"
  obtains m where "proceed env (At pt) s = resume env pt (s\<lparr>sems := m\<rparr>)" "map_option s_count \<circ> m = (counts s)(x \<mapsto> n - 1)"
proof -
  obtain m where m: "semaphore_P x s = Inr (Returned, s\<lparr>sems := m\<rparr>)" "map_option s_count \<circ> m = (counts s)(x \<mapsto> n - 1)"
    using P_down [OF assms(2-4)] .
  show thesis by (rule that [OF _ m(2)]) (simp add: proceed_def arrive_def assms(1) m(1))
qed

section \<open>Packets arrive\<close>

lemma stream_read:
  assumes "length junk = mini_header_reliable_size" "b = create_control_header junk ty port ad sport sq ak c @ pad" "0 \<le> port" "port < 65536"
  shows "b ! off_protocol = digit PROTOCOL_MINISTREAM" "uint (unpack_unsigned_short b off_destination_port) = port"
proof -
  note f = control_header_fields [OF assms(1) refl, of ty port ad sport sq ak c]
  have l: "length (create_control_header junk ty port ad sport sq ak c) = 30" using f(1) by (simp add: mini_header_reliable_size_def)
  show "b ! off_protocol = digit PROTOCOL_MINISTREAM" using f(2) l by (simp add: assms(2) nth_append off_protocol_def)
  have "unpack_unsigned_short b off_destination_port = of_int port"
    using f(7) l by (simp add: assms(2) unpack_unsigned_short_def header_offsets nth_append)
  then show "uint (unpack_unsigned_short b off_destination_port) = port" using assms(3,4) by (simp add: uint_word_of_int take_bit_int_eq_self)
qed

text \<open>A packet of the stream reaches the dispatch for its port.\<close>

lemma poll_stream:
  assumes "length j = mini_header_reliable_size" "h = create_control_header j ty dport ad sport sq ak c" "0 \<le> dport" "dport < 65536"
    "a \<noteq> NULL" "n = int mini_header_reliable_size + int (length d)" "ports s dport = p" "p \<noteq> NULL" "sockets s p = Some k"
    "socket_state k \<noteq> INITIAL" "socket_state k \<noteq> CLOSED"
    "pk = \<lparr>pk_sender = sockaddr_to_network_address sin, buffer = h @ pad, size = n\<rparr>"
    "t = s\<lparr>packets := (packets s)(a \<mapsto> pk), interrupt_level := DISABLED\<rparr>"
  shows "network_poll env a n sin (h @ pad) s =
    bindR (if socket_state k = OPEN then open_packet env a p dport t else queue_packet p a t) (\<lambda>s2.
      Inr (snd (set_interrupt_level (interrupt_level s) s2)))"
proof -
  note rd = stream_read [OF assms(1) _ assms(3,4), of "h @ pad" ty ad sport sq ak c pad, folded assms(2), OF refl]
  have n: "\<not> n < int mini_header_size" "0 < n" using assms(6) by (simp_all add: mini_header_size_def mini_header_reliable_size_def)
  have "minisocket_handle_tcp_packet env a t = (if socket_state k = OPEN then open_packet env a p dport t else queue_packet p a t)"
    using assms(3-5,7-11) rd(2) by (simp add: minisocket_handle_tcp_packet_def deref_Some assms(12,13) sport_get_def Let_def)
  moreover have "digit PROTOCOL_MINISTREAM \<noteq> digit PROTOCOL_MINIDATAGRAM" by (simp add: PROTOCOL_MINISTREAM_def PROTOCOL_MINIDATAGRAM_def)
  moreover have "set_interrupt_level DISABLED (s\<lparr>packets := (packets s)(a \<mapsto> pk)\<rparr>) = (interrupt_level s, t)"
    by (simp add: set_interrupt_level_def assms(13))
  ultimately show ?thesis using n rd(1) assms(5) unfolding network_poll_def network_handler_def
    by (simp add: deref_Some assms(12,13))
qed

text \<open>A socket that is in its handshake keeps the packet for the call that waits.\<close>

lemma deliver_waiting:
  assumes "at_sock s p k" "socket_state k \<in> {WAITING_SYN, WAITING_SYNACK, WAITING_ACK}" "ports s dport = p" "0 \<le> dport" "dport < 65536"
    "a \<noteq> NULL" "length j = mini_header_reliable_size" "h = create_control_header j ty dport ad sport sq ak c"
    "data_ready k \<noteq> NULL" "counts s (data_ready k) = Some n" "0 \<le> n"
    "pk = \<lparr>pk_sender = sockaddr_to_network_address sin, buffer = h @ pad, size = int (length h)\<rparr>"
  obtains q m where "network_poll env a (int (length h)) sin (h @ pad) s =
      Inr (s\<lparr>packets := (packets s)(a \<mapsto> pk), sockets := (sockets s)(p \<mapsto> k\<lparr>sk_data := q\<rparr>), sems := m\<rparr>)"
    "oq_inv q" "oq_items q = oq_items (sk_data k) @ [a]" "map_option s_count \<circ> m = (counts s)(data_ready k \<mapsto> n + 1)"
proof -
  define t where "t = s\<lparr>packets := (packets s)(a \<mapsto> pk), interrupt_level := DISABLED\<rparr>"
  have p: "p \<noteq> NULL" "sockets s p = Some k" "oq_inv (sk_data k)" using assms(1) by (simp_all add: at_sock_def)
  obtain q where q: "queue_append (sk_data k) a = Inr (0, q)" "oq_inv q" "oq_items q = oq_items (sk_data k) @ [a]"
    using p(3) by (rule lq.app_returns)
  have l: "int (length h) = int mini_header_reliable_size + int (length [])" using control_header_fields(1) [OF assms(7,8)] by simp
  have "counts (t\<lparr>sockets := (sockets t)(p \<mapsto> k\<lparr>sk_data := q\<rparr>)\<rparr>) (data_ready k) = Some n" using assms(10) by (simp add: t_def counts_def)
  from V_up [OF assms(9) this assms(11)] obtain m where
    m: "semaphore_V (data_ready k) (t\<lparr>sockets := (sockets t)(p \<mapsto> k\<lparr>sk_data := q\<rparr>)\<rparr>) =
       Inr (t\<lparr>sockets := (sockets t)(p \<mapsto> k\<lparr>sk_data := q\<rparr>), sems := m\<rparr>)"
      "map_option s_count \<circ> m = (counts s)(data_ready k \<mapsto> n + 1)"
    by (auto simp: t_def counts_def)
  have "queue_packet p a t = Inr (t\<lparr>sockets := (sockets t)(p \<mapsto> k\<lparr>sk_data := q\<rparr>), sems := m\<rparr>)"
    using p q(1) m(1) by (simp add: queue_packet_def t_def deref_Some)
  moreover have "socket_state k \<noteq> INITIAL" "socket_state k \<noteq> CLOSED" "socket_state k \<noteq> OPEN" using assms(2) by auto
  moreover note poll_stream [OF assms(7,8,4,5,6) l assms(3) p(1,2) _ _ assms(12) t_def]
  ultimately have "network_poll env a (int (length h)) sin (h @ pad) s =
      Inr (s\<lparr>packets := (packets s)(a \<mapsto> pk), sockets := (sockets s)(p \<mapsto> k\<lparr>sk_data := q\<rparr>), sems := m\<rparr>)"
    by (simp add: set_interrupt_level_def t_def)
  then show thesis by (rule that [OF _ q(2,3) m(2)])
qed

section \<open>The handshake\<close>

lemma socket_parts_ok:
  assumes "p \<noteq> NULL" "sockets s p = Some k" "sem_brk s \<noteq> NULL" "d = sem_brk s"
  shows "socket_parts env p f s = Inr (s\<lparr>
    sems := (sems s)(d \<mapsto> \<lparr>s_count = 0, wait_list = Some queue_new\<rparr>, Suc d \<mapsto> \<lparr>s_count = 0, wait_list = Some queue_new\<rparr>,
      Suc (Suc d) \<mapsto> \<lparr>s_count = 1, wait_list = Some queue_new\<rparr>), sem_brk := Suc (Suc (Suc d)),
    sockets := (sockets s)(p \<mapsto> (f k)\<lparr>local_addr := local_host s, sk_data := Some queue_new, data_ready := d, wait_for_ack := Suc d,
      send_receive_mutex := Suc (Suc d)\<rparr>)\<rparr>)"
proof -
  have m: "(sems s)(d \<mapsto> j, Suc d \<mapsto> j, Suc (Suc d) \<mapsto> j, d \<mapsto> x, Suc d \<mapsto> x, Suc (Suc d) \<mapsto> y) =
      (sems s)(d \<mapsto> x, Suc d \<mapsto> x, Suc (Suc d) \<mapsto> y)" for j x y
    by (auto simp: fun_eq_iff)
  show ?thesis using assms m
    by (simp add: socket_parts_def semaphore_create_def semaphore_initialize_def upd_sock_def deref_Some)
qed

text \<open>A machine before the socket is made: a free port, the mutex of the ports up, no alarm set.\<close>

definition can_open :: "'z socks_scheme \<Rightarrow> bool" where
  "can_open s \<longleftrightarrow> sock_brk s \<noteq> NULL \<and> ports_mutex s \<noteq> NULL \<and> ports_mutex s < sem_brk s \<and>
     (\<exists>n. 0 < n \<and> counts s (ports_mutex s) = Some n) \<and> alarms_are [] s"

text \<open>A socket in its handshake, made at \<open>p\<close> with its semaphores from \<open>d\<close> on and bound to the port \<open>i\<close>; no packet waits.\<close>

definition made :: "ptr \<Rightarrow> ptr \<Rightarrow> int \<Rightarrow> minisocket \<Rightarrow> 'z socks_scheme \<Rightarrow> bool" where
  "made p d i k s \<longleftrightarrow> at_sock s p k \<and> oq_items (sk_data k) = [] \<and> ports s i = p \<and> local_port k = i \<and>
     d \<noteq> NULL \<and> data_ready k = d \<and> wait_for_ack k = Suc d \<and> send_receive_mutex k = Suc (Suc d) \<and>
     counts s d = Some 0 \<and> counts s (Suc d) = Some 0 \<and> counts s (Suc (Suc d)) = Some 1"

text \<open>Setting an entry of \<open>ports\<close> under the mutex.\<close>

lemma lock_ports:
  fixes t :: "'z socks_scheme"
  assumes "x \<noteq> NULL" "counts t x = Some n" "0 < n"
  obtains m1 m2 where "semaphore_P x t = Inr (Returned, t\<lparr>sems := m1\<rparr>)"
    "\<And>ps. semaphore_V x (t\<lparr>sems := m1, ports := ps\<rparr>) = Inr (t\<lparr>sems := m2, ports := ps\<rparr>)"
    "map_option s_count \<circ> m2 = counts t"
proof -
  obtain z where z: "sems t x = Some z" "0 < s_count z" using assms(2,3) by (auto simp: counts_def)
  define m1 where "m1 = (sems t)(x \<mapsto> z\<lparr>s_count := s_count z - 1\<rparr>)"
  have "semaphore_V x (t\<lparr>sems := m1, ports := ps\<rparr>) = Inr (t\<lparr>sems := sems t, ports := ps\<rparr>)" for ps
  proof -
    have "m1 x = Some (z\<lparr>s_count := s_count z - 1\<rparr>)" "m1(x \<mapsto> z) = sems t" using z(1) by (auto simp: m1_def fun_eq_iff)
    then show ?thesis using semaphore_V_passes [of x "t\<lparr>sems := m1, ports := ps\<rparr>"] assms(1) z(2) by simp
  qed
  with semaphore_P_passes [OF assms(1) z(1,2), folded m1_def] show thesis
    by (rule that [of m1 "sems t"]) (simp add: counts_def)
qed

lemma parts_made:
  assumes "can_open s" "p = sock_brk s" "d = sem_brk s" "local_port (f k0) = i"
    "s2 = s\<lparr>sockets := (sockets s)(p \<mapsto> k0), sock_brk := bb, n_client_ports := cp, sems := m2, ports := (ports s)(i := p)\<rparr>"
  obtains k s3 where "socket_parts env p f s2 = Inr s3" "made p d i k s3" "local_host s3 = local_host s" "wire s3 = wire s" "alarms_are [] s3"
    "k = (f k0)\<lparr>local_addr := local_host s, sk_data := Some queue_new, data_ready := d, wait_for_ack := Suc d,
      send_receive_mutex := Suc (Suc d)\<rparr>"
proof -
  define k where "k = (f k0)\<lparr>local_addr := local_host s, sk_data := Some queue_new, data_ready := d, wait_for_ack := Suc d,
      send_receive_mutex := Suc (Suc d)\<rparr>"
  have p: "p \<noteq> NULL" "sockets s2 p = Some k0" "sem_brk s2 \<noteq> NULL" "d = sem_brk s2"
    using assms(1-3) by (auto simp: can_open_def assms(5))
  note sp = socket_parts_ok [OF p, of env f]
  have f: "sockets s2 = (sockets s)(p \<mapsto> k0)" "local_host s2 = local_host s" "wire s2 = wire s" "packets s2 = packets s"
    "ports s2 = (ports s)(i := p)" "alarms_are [] s2" using assms(1) by (simp_all add: assms(5) can_open_def)
  show thesis
    by (rule that [OF sp, of k]) (use assms(4) f p(1,3,4) in \<open>simp_all add: k_def made_def at_sock_def counts_def\<close>)
qed

lemma server_starts:
  assumes "can_open s" "0 \<le> port" "port \<le> 32767" "ports s port = NULL" "p = sock_brk s" "d = sem_brk s"
  obtains s0 s1 k where "minisocket_server_create env True port s = Inr (At (Server_mutex p port), s0)"
    "proceed env (At (Server_mutex p port)) s0 = Inr (At (Server_syn p), s1)" "made p d port k s1" "local_host s1 = local_host s" "wire s1 = wire s"
    "alarms_are [] s1" "socket_state k = WAITING_SYN"
proof -
  define k0 where "k0 = (se_sock env)\<lparr>socket_state := INITIAL\<rparr>"
  define s0 where "s0 = s\<lparr>sockets := (sockets s)(p \<mapsto> k0), sock_brk := Suc p\<rparr>"
  have c: "minisocket_server_create env True port s = Inr (At (Server_mutex p port), s0)"
    using assms(2-5) by (simp add: minisocket_server_create_def sport_get_def s0_def k0_def Let_def)
  obtain n where n: "0 < n" "counts s (ports_mutex s) = Some n" and x: "ports_mutex s \<noteq> NULL" using assms(1) by (auto simp: can_open_def)
  have "counts s0 (ports_mutex s) = Some n" using n(2) by (simp add: s0_def counts_def)
  from lock_ports [OF x this n(1)] obtain m1 m2 where m: "semaphore_P (ports_mutex s) s0 = Inr (Returned, s0\<lparr>sems := m1\<rparr>)"
    "semaphore_V (ports_mutex s) (s0\<lparr>sems := m1, ports := (ports s)(port := p)\<rparr>) = Inr (s0\<lparr>sems := m2, ports := (ports s)(port := p)\<rparr>)"
    "map_option s_count \<circ> m2 = counts s0" by blast
  define s2 where "s2 = s0\<lparr>sems := m2, ports := (ports s)(port := p)\<rparr>"
  have s2: "s2 = s\<lparr>sockets := (sockets s)(p \<mapsto> k0), sock_brk := Suc p, n_client_ports := n_client_ports s, sems := m2, ports := (ports s)(port := p)\<rparr>"
    by (simp add: s2_def s0_def)
  have p: "p \<noteq> NULL" using assms(1,5) by (simp add: can_open_def)
  obtain k s3 where sp: "socket_parts env p (\<lambda>k. k\<lparr>socket_type := CHR ''s'', local_port := port, ack_flag := 0\<rparr>) s2 = Inr s3"
    "made p d port k s3" "local_host s3 = local_host s" "wire s3 = wire s" "alarms_are [] s3"
    by (rule parts_made [OF assms(1,5,6) _ s2, of "\<lambda>k. k\<lparr>socket_type := CHR ''s'', local_port := port, ack_flag := 0\<rparr>" env]) auto
  define k4 where "k4 = k\<lparr>seq_number := 0, ack_number := 0, remote_port := - 1, remote_addr := (0, 0), socket_state := WAITING_SYN\<rparr>"
  define s4 where "s4 = s3\<lparr>sockets := (sockets s3)(p \<mapsto> k4)\<rparr>"
  have "server_restart p s3 = Inr (At (Server_syn p), s4)"
    using sp(2) by (auto simp: server_restart_def sock_simps made_def k4_def s4_def)
  moreover have "server_mutex_rest env p port (s0\<lparr>sems := m1\<rparr>) = bindR (socket_parts env p (\<lambda>k. k\<lparr>socket_type := CHR ''s'', local_port := port, ack_flag := 0\<rparr>) s2) (server_restart p)"
    using assms(2,3) m(2) by (simp add: server_mutex_rest_def sport_set_def s0_def s2_def)
  ultimately have "proceed env (At (Server_mutex p port)) s0 = Inr (At (Server_syn p), s4)"
    using m(1) sp(1) by (simp add: proceed_def arrive_def s0_def)
  then show thesis by (rule that [OF c _, of _ k4]) (use sp(2-5) in \<open>simp_all add: s4_def k4_def made_def at_sock_def\<close>)
qed

text \<open>An environment in which every allocation and every transmission succeeds.\<close>

definition works :: "sockenv \<Rightarrow> bool" where
  "works env \<longleftrightarrow> (\<forall>i. se_malloc env i) \<and> se_alarm env \<and> se_error env \<noteq> SOCKET_OUTOFMEMORY \<and>
     length (se_header env) = mini_header_reliable_size \<and> (\<forall>ad b. sendto (se_net env) ad b \<noteq> - 1)"

lemma works_delivers: "works env \<Longrightarrow> alarms_are as s \<Longrightarrow> delivers env i s"
  by (simp add: works_def alarms_are_def delivers_def)

lemma turned_alarms: "turned p w x k pkt s s' \<Longrightarrow> alarms_are [] s \<Longrightarrow> alarms_are [alarm_brk s] s'"
  by (simp add: turned_def alarms_are_def place_def)

lemma client_starts:
  assumes "can_open s" "0 \<le> port" "port \<le> 32767" "i = n_client_ports s" "0 \<le> i" "i < 65536" "ports s i = NULL"
    "p = sock_brk s" "d = sem_brk s" "works env"
  obtains s0 s1 k al e where "minisocket_client_create env True (Some ad) port s = Inr (At (Client_mutex p ad port i), s0)"
    "proceed env (At (Client_mutex p ad port i)) s0 = Inr (At (Client_ack p 100 al e), s1)" "made p d i k s1" "local_host s1 = local_host s"
    "wire s1 = wire s @ [(network_address_to_sockaddr ad, create_control_header (se_header env) MSG_SYN port ad i 0 0 s)]"
    "alarms_are [al] s1" "socket_state k = WAITING_SYNACK" "remote_addr k = ad" "remote_port k = port" "e \<noteq> SOCKET_OUTOFMEMORY"
proof -
  define k0 where "k0 = (se_sock env)\<lparr>socket_state := INITIAL\<rparr>"
  define cp where "cp = (if i + 1 > 65535 then 0 else i + 1)"
  define s0 where "s0 = s\<lparr>n_client_ports := cp, sockets := (sockets s)(p \<mapsto> k0), sock_brk := Suc p\<rparr>"
  have "i \<noteq> - 1" using assms(5) by simp
  then have c: "minisocket_client_create env True (Some ad) port s = Inr (At (Client_mutex p ad port i), s0)"
    using assms(2-8) by (simp add: minisocket_client_create_def sport_get_def s0_def k0_def cp_def Let_def)
  obtain n where n: "0 < n" "counts s (ports_mutex s) = Some n" and x: "ports_mutex s \<noteq> NULL" using assms(1) by (auto simp: can_open_def)
  have "counts s0 (ports_mutex s) = Some n" using n(2) by (simp add: s0_def counts_def)
  from lock_ports [OF x this n(1)] obtain m1 m2 where m: "semaphore_P (ports_mutex s) s0 = Inr (Returned, s0\<lparr>sems := m1\<rparr>)"
    "semaphore_V (ports_mutex s) (s0\<lparr>sems := m1, ports := (ports s)(i := p)\<rparr>) = Inr (s0\<lparr>sems := m2, ports := (ports s)(i := p)\<rparr>)"
    "map_option s_count \<circ> m2 = counts s0" by blast
  define s2 where "s2 = s0\<lparr>sems := m2, ports := (ports s)(i := p)\<rparr>"
  have s2: "s2 = s\<lparr>sockets := (sockets s)(p \<mapsto> k0), sock_brk := Suc p, n_client_ports := cp, sems := m2, ports := (ports s)(i := p)\<rparr>"
    by (simp add: s2_def s0_def)
  have p: "p \<noteq> NULL" using assms(1,8) by (simp add: can_open_def)
  define f where "f = (\<lambda>k :: minisocket. k\<lparr>socket_type := CHR ''c'', local_port := i, remote_addr := ad, remote_port := port\<rparr>)"
  obtain k s3 where sp: "socket_parts env p f s2 = Inr s3" "made p d i k s3" "local_host s3 = local_host s" "wire s3 = wire s" "alarms_are [] s3"
    "k = (f k0)\<lparr>local_addr := local_host s, sk_data := Some queue_new, data_ready := d, wait_for_ack := Suc d,
      send_receive_mutex := Suc (Suc d)\<rparr>"
    by (rule parts_made [OF assms(1,8,9) _ s2, of f env]) (auto simp: f_def)
  define k4 where "k4 = k\<lparr>socket_state := WAITING_SYNACK\<rparr>"
  define s4 where "s4 = s3\<lparr>sockets := (sockets s3)(p \<mapsto> k4)\<rparr>"
  have k4: "local_port k4 = i" "remote_addr k4 = ad" "remote_port k4 = port" "socket_state k4 = WAITING_SYNACK" by (simp_all add: k4_def sp(6) f_def)
  have s4: "at_sock s4 p k4" "alarms_are [] s4" "made p d i k4 s4" "wire s4 = wire s" "local_host s4 = local_host s"
    using sp(2-5) p by (simp_all add: s4_def k4_def made_def at_sock_def)
  have ai: "alarm_inv s4" "se_alarm env" "se_error env \<noteq> SOCKET_OUTOFMEMORY" using s4(2) assms(10) by (simp_all add: alarms_are_def works_def)
  obtain e s' where t: "client_turn env 0 p 100 (se_error env) s4 = Inr (At (Client_ack p 100 (alarm_brk s4) e), s')" "e \<noteq> SOCKET_OUTOFMEMORY"
    "turned p 100 (data_ready k4) (k4\<lparr>seq_number := 1, ack_number := 0\<rparr>) (network_address_to_sockaddr (remote_addr k4),
       create_control_header (se_header env) MSG_SYN (remote_port k4) (remote_addr k4) (local_port k4) 0 0 s4) s4 s'"
    by (rule client_turn_ok [OF s4(1) works_delivers [OF assms(10) s4(2)] ai, of 100]) auto
  have "upd_sock p (\<lambda>k. k\<lparr>socket_state := WAITING_SYNACK\<rparr>) s3 = Inr s4"
    using sp(2) by (auto simp: sock_simps made_def k4_def s4_def)
  then have "client_mutex_rest env p ad port i (s0\<lparr>sems := m1\<rparr>) = client_turn env 0 p 100 (se_error env) s4"
    using assms(5,6) m(2) sp(1) by (simp add: client_mutex_rest_def sport_set_def s0_def s2_def f_def)
  then have pr: "proceed env (At (Client_mutex p ad port i)) s0 = Inr (At (Client_ack p 100 (alarm_brk s4) e), s')"
    using m(1) t(1) by (simp add: proceed_def arrive_def s0_def)
  have h: "create_control_header (se_header env) MSG_SYN port ad i 0 0 s4 = create_control_header (se_header env) MSG_SYN port ad i 0 0 s"
    by (simp add: create_control_header_def s4(5))
  show thesis
    by (rule that [OF c pr, of "k4\<lparr>seq_number := 1, ack_number := 0\<rparr>"])
      (use t(2,3) turned_alarms [OF t(3) s4(2)] s4(3-5) k4 h in \<open>simp_all add: turned_def made_def at_sock_def counts_def\<close>)
qed

text \<open>The packet arrives at a socket in its handshake and the call goes on with it.\<close>

lemma arrived:
  fixes s c c1 :: "'z socks_scheme"
  assumes "made p d i k s" "socket_state k \<in> {WAITING_SYN, WAITING_SYNACK, WAITING_ACK}" "0 \<le> i" "i < 65536" "a \<noteq> NULL"
    "works ce" "h = create_control_header (se_header ce) ty i ad sport sq ak c" "alarms_are als s"
    "pt \<in> {Server_syn p, Server_ack p w al e, Client_ack p w al e}"
    "last (wire c1) = (network_address_to_sockaddr (local_host s), h)"
  obtains q s1 s2 pk where "deliver env a junk c1 s = Inr s1" "proceed env (At pt) s1 = resume env pt s2"
    "at_sock s2 p (k\<lparr>sk_data := q\<rparr>)" "oq_items q = [a]" "packets s2 a = Some pk" "buffer pk = h @ junk" "counts s2 = counts s"
    "ports s2 = ports s" "local_host s2 = local_host s" "wire s2 = wire s" "alarms_are als s2"
proof -
  note k = assms(1) [unfolded made_def]
  have j: "length (se_header ce) = mini_header_reliable_size" using assms(6) by (simp add: works_def)
  define sin where "sin = network_address_to_sockaddr (local_host c1)"
  define pk where "pk = \<lparr>pk_sender = sockaddr_to_network_address sin, buffer = h @ junk, size = int (length h)\<rparr>"
  obtain q m where q: "network_poll env a (int (length h)) sin (h @ junk) s =
      Inr (s\<lparr>packets := (packets s)(a \<mapsto> pk), sockets := (sockets s)(p \<mapsto> k\<lparr>sk_data := q\<rparr>), sems := m\<rparr>)"
    "oq_inv q" "oq_items q = oq_items (sk_data k) @ [a]" "map_option s_count \<circ> m = (counts s)(data_ready k \<mapsto> 0 + 1)"
    by (rule deliver_waiting [OF _ assms(2) _ assms(3-5) j assms(7) _ _ _ pk_def, where n = 0]) (use k in auto)
  define s1 where "s1 = s\<lparr>packets := (packets s)(a \<mapsto> pk), sockets := (sockets s)(p \<mapsto> k\<lparr>sk_data := q\<rparr>), sems := m\<rparr>"
  have d: "deliver env a junk c1 s = Inr s1" using q(1) by (simp add: deliver_def assms(10) s1_def sin_def)
  have "p \<noteq> NULL" using k by (simp add: at_sock_def)
  then have ps: "point_sem pt s1 = Inr d" using assms(9) k by (auto simp: s1_def deref_Some)
  have cs: "counts s1 d = Some 1" using k q(4) by (simp add: s1_def)
  obtain m' where m': "proceed env (At pt) s1 = resume env pt (s1\<lparr>sems := m'\<rparr>)" "map_option s_count \<circ> m' = (counts s1)(d \<mapsto> 1 - 1)"
    by (rule proceed_down [OF ps _ cs]) (use k in auto)
  have c: "counts (s1\<lparr>sems := m'\<rparr>) = counts s" using m'(2) k q(4) by (auto simp: s1_def)
  show thesis
    by (rule that [OF d m'(1), of q pk]) (use c k q(2,3) assms(8) in \<open>simp_all add: s1_def at_sock_def pk_def\<close>)
qed

lemma server_answers:
  fixes s c c1 :: "'z socks_scheme"
  assumes "made p d i k s" "socket_state k = WAITING_SYN" "0 \<le> i" "i < 65536" "a \<noteq> NULL" "works ce" "works se"
    "last (wire c1) = (network_address_to_sockaddr (local_host s), create_control_header (se_header ce) MSG_SYN i ad cport 0 0 c)"
    "0 \<le> cport" "cport < 65536" "alarms_are [] s"
  obtains k' s1 s2 al e where "deliver se a junk c1 s = Inr s1"
    "proceed se (At (Server_syn p)) s1 = Inr (At (Server_ack p 100 al e), s2)" "made p d i k' s2" "socket_state k' = WAITING_ACK"
    "remote_addr k' = local_host c" "remote_port k' = cport" "alarms_are [al] s2" "local_host s2 = local_host s"
    "wire s2 = wire s @ [(network_address_to_sockaddr (local_host c),
      create_control_header (se_header se) MSG_SYNACK cport (local_host c) i 0 1 s)]"
proof -
  note k = assms(1) [unfolded made_def]
  obtain q s1 s2 pk where ar: "deliver se a junk c1 s = Inr s1" "proceed se (At (Server_syn p)) s1 = resume se (Server_syn p) s2"
    "at_sock s2 p (k\<lparr>sk_data := q\<rparr>)" "oq_items q = [a]" "packets s2 a = Some pk"
    "buffer pk = create_control_header (se_header ce) MSG_SYN i ad cport 0 0 c @ junk" "counts s2 = counts s"
    "ports s2 = ports s" "local_host s2 = local_host s" "wire s2 = wire s" "alarms_are [] s2"
    by (rule arrived [OF assms(1) _ assms(3-6) refl assms(11) _ assms(8), of "Server_syn p" undefined undefined undefined se junk])
      (use assms(2) in auto)
  have l: "length (se_header ce) = mini_header_reliable_size" using assms(6) by (simp add: works_def)
  have en: "delivers se 0 s2" "alarm_inv s2" "se_alarm se" "se_error se \<noteq> SOCKET_OUTOFMEMORY"
    using works_delivers [OF assms(7) ar(11)] ar(11) assms(7) by (simp_all add: alarms_are_def works_def)
  have it: "oq_items (sk_data (k\<lparr>sk_data := q\<rparr>)) = a # []" using ar(4) by simp
  obtain e s3 k3 q3 where st: "server_syn_rest se p s2 = Inr (At (Server_ack p 100 (alarm_brk s2) e), s3)"
    "turned p 100 (data_ready k) k3 (network_address_to_sockaddr (local_host c),
      create_control_header (se_header se) MSG_SYNACK cport (local_host c) (local_port k) 0 1 s2) s2 s3"
    "oq_inv q3" "oq_items q3 = []" "k3 = k\<lparr>sk_data := q3, remote_addr := local_host c, remote_port := cport,
      socket_state := WAITING_ACK, seq_number := 1, ack_number := 1\<rparr>"
    using server_syn_ok [OF ar(3) it ar(5) assms(5) l assms(9,10) ar(6) en] by auto
  have h: "create_control_header (se_header se) MSG_SYNACK cport (local_host c) i 0 1 s2 =
      create_control_header (se_header se) MSG_SYNACK cport (local_host c) i 0 1 s" by (simp add: create_control_header_def ar(9))
  have p: "p \<noteq> NULL" "local_port k = i" using k by (simp_all add: at_sock_def)
  have "counts s3 = counts s" "ports s3 = ports s" "sockets s3 p = Some k3" using st(2) ar(7,8) by (simp_all add: turned_def counts_def)
  then have mk: "made p d i k3 s3" using k p st(3-5) by (simp add: made_def at_sock_def)
  have pr: "proceed se (At (Server_syn p)) s1 = Inr (At (Server_ack p 100 (alarm_brk s2) e), s3)" using ar(2) st(1) by simp
  show thesis
    by (rule that [OF ar(1) pr mk]) (use st(2,5) turned_alarms [OF st(2) ar(11)] ar(9,10) h p(2) in \<open>simp_all add: turned_def\<close>)
qed

lemma opened_fields:
  assumes "opened p k k' x y s s'"
  shows "local_port k' = local_port k" "data_ready k' = data_ready k" "wait_for_ack k' = wait_for_ack k"
    "send_receive_mutex k' = send_receive_mutex k" "remote_addr k' = remote_addr k" "remote_port k' = remote_port k"
    "socket_state k' = OPEN" "seq_number k' = x" "ack_number k' = y"
proof -
  have "k' = k\<lparr>sk_data := sk_data k', socket_state := OPEN, seq_number := x, ack_number := y\<rparr>" using assms by (simp add: opened_def)
  then obtain q where "k' = k\<lparr>sk_data := q, socket_state := OPEN, seq_number := x, ack_number := y\<rparr>" by blast
  then show "local_port k' = local_port k" "data_ready k' = data_ready k" "wait_for_ack k' = wait_for_ack k"
    "send_receive_mutex k' = send_receive_mutex k" "remote_addr k' = remote_addr k" "remote_port k' = remote_port k"
    "socket_state k' = OPEN" "seq_number k' = x" "ack_number k' = y" by simp_all
qed

lemma made_opened:
  assumes "made p d i k s" "opened p (k\<lparr>sk_data := q\<rparr>) k' x y s2 s'" "counts s2 = counts s" "ports s2 = ports s"
  shows "made p d i k' s'"
proof -
  have "counts s' z = counts s z" for z
    using assms(1-3) by (cases "z = d") (auto simp: opened_def made_def counts_def fun_eq_iff dest!: spec [of _ z])
  then show ?thesis using assms(1,2,4) opened_fields [OF assms(2)] by (simp add: made_def opened_def at_sock_def)
qed

lemma client_answers:
  fixes s c c1 :: "'z socks_scheme"
  assumes "made p d i k s" "socket_state k = WAITING_SYNACK" "0 \<le> i" "i < 65536" "a \<noteq> NULL" "works se" "works ce"
    "last (wire c1) = (network_address_to_sockaddr (local_host s), create_control_header (se_header se) MSG_SYNACK i ad sport 0 1 c)"
    "0 \<le> sport" "sport < 65536" "alarms_are [al] s" "remote_addr k = local_host c" "remote_port k = sport" "e \<noteq> SOCKET_OUTOFMEMORY"
  obtains k' s1 s2 where "deliver ce a junk c1 s = Inr s1"
    "proceed ce (At (Client_ack p w al e)) s1 = Inr (Finished (Socket p None), s2)" "made p d i k' s2" "socket_state k' = OPEN"
    "remote_addr k' = local_host c" "remote_port k' = sport" "seq_number k' = 2" "ack_number k' = 1"
    "alarms_are [] s2" "local_host s2 = local_host s"
    "wire s2 = wire s @ [(network_address_to_sockaddr (local_host c),
      create_control_header (se_header ce) MSG_ACK sport (local_host c) i 1 1 s)]"
proof -
  note k = assms(1) [unfolded made_def]
  obtain q s1 s2 pk where ar: "deliver ce a junk c1 s = Inr s1"
    "proceed ce (At (Client_ack p w al e)) s1 = resume ce (Client_ack p w al e) s2"
    "at_sock s2 p (k\<lparr>sk_data := q\<rparr>)" "oq_items q = [a]" "packets s2 a = Some pk"
    "buffer pk = create_control_header (se_header se) MSG_SYNACK i ad sport 0 1 c @ junk" "counts s2 = counts s"
    "ports s2 = ports s" "local_host s2 = local_host s" "wire s2 = wire s" "alarms_are [al] s2"
    by (rule arrived [OF assms(1) _ assms(3-6) refl assms(11) _ assms(8), of "Client_ack p w al e" w al e ce junk])
      (use assms(2) in auto)
  have l: "length (se_header se) = mini_header_reliable_size" using assms(6) by (simp add: works_def)
  obtain t where en: "delivers ce 0 s2" "alarm_inv s2" "pending s2 = (al, t) # []"
    using works_delivers [OF assms(7) ar(11)] ar(11) by (auto simp: alarms_are_def)
  obtain z where z: "sems s2 d = Some z" using k ar(7) by (auto simp: counts_def fun_eq_iff dest!: spec [of _ d])
  have it: "oq_items (sk_data (k\<lparr>sk_data := q\<rparr>)) = a # []" "remote_addr (k\<lparr>sk_data := q\<rparr>) = local_host c"
    "remote_port (k\<lparr>sk_data := q\<rparr>) = sport" "sems s2 (data_ready (k\<lparr>sk_data := q\<rparr>)) = Some z" "data_ready (k\<lparr>sk_data := q\<rparr>) \<noteq> NULL"
    using ar(4) assms(12,13) z k by simp_all
  obtain s3 k3 where st: "client_ack_rest ce p w al e s2 = Inr (Finished (Socket p None), s3)"
    "wire s3 = wire s2 @ [(network_address_to_sockaddr (local_host c),
      create_control_header (se_header ce) MSG_ACK sport (local_host c) (local_port k) 1 1 s2)]"
    "opened p (k\<lparr>sk_data := q\<rparr>) k3 2 1 s2 s3" "alarm_inv s3" "pending s3 = []"
    using client_ack_ok [OF ar(3) it(1-3) ar(5) assms(5) l assms(9,10) ar(6) it(4,5) en(1-3) assms(14), of w] by auto
  have h: "create_control_header (se_header ce) MSG_ACK sport (local_host c) i 1 1 s2 =
      create_control_header (se_header ce) MSG_ACK sport (local_host c) i 1 1 s" by (simp add: create_control_header_def ar(9))
  note o = st(3) [unfolded opened_def]
  have p: "p \<noteq> NULL" "local_port k = i" "data_ready k = d" using k by (simp_all add: at_sock_def)
  note mk = made_opened [OF assms(1) st(3) ar(7,8)]
  have pr: "proceed ce (At (Client_ack p w al e)) s1 = Inr (Finished (Socket p None), s3)" using ar(2) st(1) by simp
  show thesis
    by (rule that [OF ar(1) pr mk]) (use st(2,4,5) o opened_fields [OF st(3)] assms(12,13) ar(9-11) h p(2) in \<open>simp_all add: alarms_are_def\<close>)
qed

lemma server_opens:
  fixes s c c1 :: "'z socks_scheme"
  assumes "made p d i k s" "socket_state k = WAITING_ACK" "0 \<le> i" "i < 65536" "a \<noteq> NULL" "works ce"
    "last (wire c1) = (network_address_to_sockaddr (local_host s), create_control_header (se_header ce) MSG_ACK i ad cport 1 1 c)"
    "0 \<le> cport" "cport < 65536" "alarms_are [al] s" "remote_addr k = local_host c" "remote_port k = cport"
  obtains k' s1 s2 where "deliver se a junk c1 s = Inr s1"
    "proceed se (At (Server_ack p w al e)) s1 = Inr (Finished (Socket p None), s2)" "made p d i k' s2" "socket_state k' = OPEN"
    "remote_addr k' = local_host c" "remote_port k' = cport" "seq_number k' = 1" "ack_number k' = 2"
    "alarms_are [] s2" "local_host s2 = local_host s" "wire s2 = wire s"
proof -
  note k = assms(1) [unfolded made_def]
  obtain q s1 s2 pk where ar: "deliver se a junk c1 s = Inr s1"
    "proceed se (At (Server_ack p w al e)) s1 = resume se (Server_ack p w al e) s2"
    "at_sock s2 p (k\<lparr>sk_data := q\<rparr>)" "oq_items q = [a]" "packets s2 a = Some pk"
    "buffer pk = create_control_header (se_header ce) MSG_ACK i ad cport 1 1 c @ junk" "counts s2 = counts s"
    "ports s2 = ports s" "local_host s2 = local_host s" "wire s2 = wire s" "alarms_are [al] s2"
    by (rule arrived [OF assms(1) _ assms(3-6) refl assms(10) _ assms(7), of "Server_ack p w al e" w al e se junk])
      (use assms(2) in auto)
  have l: "length (se_header ce) = mini_header_reliable_size" using assms(6) by (simp add: works_def)
  obtain t where en: "alarm_inv s2" "pending s2 = (al, t) # []" "\<not> synthetic_network s2"
    using ar(11) by (auto simp: alarms_are_def)
  obtain z where z: "sems s2 d = Some z" using k ar(7) by (auto simp: counts_def fun_eq_iff dest!: spec [of _ d])
  have it: "oq_items (sk_data (k\<lparr>sk_data := q\<rparr>)) = a # []" "remote_addr (k\<lparr>sk_data := q\<rparr>) = local_host c"
    "remote_port (k\<lparr>sk_data := q\<rparr>) = cport" "sems s2 (data_ready (k\<lparr>sk_data := q\<rparr>)) = Some z" "data_ready (k\<lparr>sk_data := q\<rparr>) \<noteq> NULL"
    using ar(4) assms(11,12) z k by simp_all
  obtain s3 k3 where st: "server_ack_rest se p w al e s2 = Inr (Finished (Socket p None), s3)" "wire s3 = wire s2"
    "opened p (k\<lparr>sk_data := q\<rparr>) k3 1 2 s2 s3" "alarm_inv s3" "pending s3 = []"
    using server_ack_ok [OF ar(3) it(1-3) ar(5) assms(5) l assms(8,9) ar(6) it(4,5) en(1,2), of se w e] by auto
  note o = st(3) [unfolded opened_def]
  have p: "p \<noteq> NULL" "local_port k = i" "data_ready k = d" using k by (simp_all add: at_sock_def)
  note mk = made_opened [OF assms(1) st(3) ar(7,8)]
  have pr: "proceed se (At (Server_ack p w al e)) s1 = Inr (Finished (Socket p None), s3)" using ar(2) st(1) by simp
  show thesis by (rule that [OF ar(1) pr mk]) (use st(2,4,5) o opened_fields [OF st(3)] assms(11,12) ar(9-11) in \<open>simp_all add: alarms_are_def\<close>)
qed

section \<open>Connected sockets\<close>

text \<open>An open socket on which no call runs: its queue is empty, its mutex free, and no thread waits for it.\<close>

definition idle :: "ptr \<Rightarrow> minisocket \<Rightarrow> 'z socks_scheme \<Rightarrow> bool" where
  "idle p k s \<longleftrightarrow> at_sock s p k \<and> socket_state k = OPEN \<and> oq_items (sk_data k) = [] \<and>
     ports s (local_port k) = p \<and> 0 \<le> local_port k \<and> local_port k < 65536 \<and>
     distinct [NULL, data_ready k, wait_for_ack k, send_receive_mutex k] \<and>
     (\<exists>n. counts s (data_ready k) = Some n \<and> 0 \<le> n) \<and> (\<exists>n. counts s (wait_for_ack k) = Some n \<and> 0 \<le> n) \<and>
     (\<exists>n. counts s (send_receive_mutex k) = Some n \<and> 0 < n) \<and> alarms_are [] s"

text \<open>Each of the two is the other's peer, and each has acknowledged all that the other has sent.\<close>

definition connected :: "ptr \<Rightarrow> ptr \<Rightarrow> 'z socks_scheme \<Rightarrow> 'z socks_scheme \<Rightarrow> bool" where
  "connected p q c s \<longleftrightarrow> (\<exists>k l. idle p k c \<and> idle q l s \<and>
     remote_addr k = local_host s \<and> remote_port k = local_port l \<and> remote_addr l = local_host c \<and> remote_port l = local_port k \<and>
     seq_number k = ack_number l \<and> seq_number l = ack_number k)"

lemma connected_sym: "connected p q c s \<Longrightarrow> connected q p s c"
  unfolding connected_def by metis

lemma made_idle:
  "made p d i k s \<Longrightarrow> socket_state k = OPEN \<Longrightarrow> 0 \<le> i \<Longrightarrow> i < 65536 \<Longrightarrow> alarms_are [] s \<Longrightarrow> idle p k s"
  by (auto simp: made_def idle_def)

section \<open>Properties of the handshake\<close>

text \<open>
  C18: a server that waits at a free port and a client that connects to it, on a network that loses nothing,
  exchange SYN, SYNACK and ACK; then both creations return, with two open sockets that are each other's peers and agree on the numbers of
  all that was sent.
\<close>

theorem connection_established:
  fixes s c :: "'z socks_scheme"
  assumes "can_open s" "can_open c" "works se" "works ce" "0 \<le> port" "port \<le> 32767" "ports s port = NULL"
    "0 \<le> n_client_ports c" "n_client_ports c < 65536" "ports c (n_client_ports c) = NULL" "a1 \<noteq> NULL" "a2 \<noteq> NULL" "a3 \<noteq> NULL"
  shows "\<exists>s' c'. handshake se ce port a1 a2 a3 junk s c =
      Inr (Finished (Socket (sock_brk s) None), Finished (Socket (sock_brk c) None), s', c') \<and>
    connected (sock_brk c) (sock_brk s) c' s'"
proof -
  define i where "i = n_client_ports c"
  have i: "0 \<le> i" "i < 65536" "ports c i = NULL" "port < 65536" using assms(6,8-10) by (simp_all add: i_def)
  obtain s0 s1 l where sv: "minisocket_server_create se True port s = Inr (At (Server_mutex (sock_brk s) port), s0)"
    "proceed se (At (Server_mutex (sock_brk s) port)) s0 = Inr (At (Server_syn (sock_brk s)), s1)"
    "made (sock_brk s) (sem_brk s) port l s1" "local_host s1 = local_host s" "wire s1 = wire s" "alarms_are [] s1" "socket_state l = WAITING_SYN"
    by (rule server_starts [OF assms(1,5,6,7) refl refl])
  obtain c0 c1 k al e where cl: "minisocket_client_create ce True (Some (local_host s)) port c =
      Inr (At (Client_mutex (sock_brk c) (local_host s) port i), c0)"
    "proceed ce (At (Client_mutex (sock_brk c) (local_host s) port i)) c0 = Inr (At (Client_ack (sock_brk c) 100 al e), c1)"
    "made (sock_brk c) (sem_brk c) i k c1" "local_host c1 = local_host c"
    "wire c1 = wire c @ [(network_address_to_sockaddr (local_host s), create_control_header (se_header ce) MSG_SYN port (local_host s) i 0 0 c)]"
    "alarms_are [al] c1" "socket_state k = WAITING_SYNACK" "remote_addr k = local_host s" "remote_port k = port" "e \<noteq> SOCKET_OUTOFMEMORY"
    by (rule client_starts [OF assms(2,5,6) i_def i(1-3) refl refl assms(4)])
  have w1: "last (wire c1) = (network_address_to_sockaddr (local_host s1), create_control_header (se_header ce) MSG_SYN port (local_host s) i 0 0 c)"
    by (simp add: cl(5) sv(4))
  obtain l2 s2 s3 al2 e2 where sa: "deliver se a1 junk c1 s1 = Inr s2"
    "proceed se (At (Server_syn (sock_brk s))) s2 = Inr (At (Server_ack (sock_brk s) 100 al2 e2), s3)"
    "made (sock_brk s) (sem_brk s) port l2 s3" "socket_state l2 = WAITING_ACK"
    "remote_addr l2 = local_host c" "remote_port l2 = i" "alarms_are [al2] s3" "local_host s3 = local_host s1"
    "wire s3 = wire s1 @ [(network_address_to_sockaddr (local_host c),
      create_control_header (se_header se) MSG_SYNACK i (local_host c) port 0 1 s1)]"
    by (rule server_answers [OF sv(3,7) assms(5) i(4) assms(11,4,3) w1 i(1,2) sv(6)])
  have w2: "last (wire s3) = (network_address_to_sockaddr (local_host c1), create_control_header (se_header se) MSG_SYNACK i (local_host c) port 0 1 s1)"
    by (simp add: sa(9) cl(4))
  have peer: "remote_addr k = local_host s1" using cl(8) sv(4) by simp
  obtain k2 c2 c3 where ca: "deliver ce a2 junk s3 c1 = Inr c2"
    "proceed ce (At (Client_ack (sock_brk c) 100 al e)) c2 = Inr (Finished (Socket (sock_brk c) None), c3)"
    "made (sock_brk c) (sem_brk c) i k2 c3" "socket_state k2 = OPEN" "remote_addr k2 = local_host s1" "remote_port k2 = port"
    "seq_number k2 = 2" "ack_number k2 = 1" "alarms_are [] c3" "local_host c3 = local_host c1"
    "wire c3 = wire c1 @ [(network_address_to_sockaddr (local_host s1),
      create_control_header (se_header ce) MSG_ACK port (local_host s1) i 1 1 c1)]"
    by (rule client_answers [OF cl(3,7) i(1,2) assms(12,3,4) w2 assms(5) i(4) cl(6) peer cl(9,10)])
  have w3: "last (wire c3) = (network_address_to_sockaddr (local_host s3), create_control_header (se_header ce) MSG_ACK port (local_host s1) i 1 1 c1)"
    by (simp add: ca(11) sa(8))
  have peer2: "remote_addr l2 = local_host c1" using sa(5) cl(4) by simp
  obtain l3 s4 s5 where so: "deliver se a3 junk c3 s3 = Inr s4"
    "proceed se (At (Server_ack (sock_brk s) 100 al2 e2)) s4 = Inr (Finished (Socket (sock_brk s) None), s5)"
    "made (sock_brk s) (sem_brk s) port l3 s5" "socket_state l3 = OPEN" "remote_addr l3 = local_host c1" "remote_port l3 = i"
    "seq_number l3 = 1" "ack_number l3 = 2" "alarms_are [] s5" "local_host s5 = local_host s3" "wire s5 = wire s3"
    by (rule server_opens [OF sa(3,4) assms(5) i(4) assms(13,4) w3 i(1,2) sa(7) peer2 sa(6)])
  have run: "handshake se ce port a1 a2 a3 junk s c =
      Inr (Finished (Socket (sock_brk s) None), Finished (Socket (sock_brk c) None), s5, c3)"
    by (simp add: handshake_def sv(1,2) cl(1,2) sa(1,2) ca(1,2) so(1,2))
  have "idle (sock_brk c) k2 c3" "idle (sock_brk s) l3 s5"
    using made_idle [OF ca(3,4) i(1,2) ca(9)] made_idle [OF so(3,4) assms(5) i(4) so(9)] .
  moreover have "local_port k2 = i" "local_port l3 = port" using ca(3) so(3) by (simp_all add: made_def)
  ultimately have "connected (sock_brk c) (sock_brk s) c3 s5" unfolding connected_def
    by (intro exI [of _ k2] exI [of _ l3]) (use ca(5-8,10) so(5-8,10) sa(8) in simp)
  with run show ?thesis by blast
qed

section \<open>One message\<close>

text \<open>A fragment of a message goes out.\<close>

definition fragment_of :: "byte list \<Rightarrow> int \<Rightarrow> byte list" where
  "fragment_of m sent = take (nat fragment_length) (drop (nat sent) m)"

lemma fragment_of_length:
  "0 \<le> sent \<Longrightarrow> sent < int (length m) \<Longrightarrow>
   int (length (fragment_of m sent)) = (if int (length m) - sent > fragment_length then fragment_length else int (length m) - sent)"
  by (auto simp: fragment_of_def mini_header_reliable_size_def)

lemma fragment_sent:
  fixes c :: "'z socks_scheme"
  assumes "at_sock c p k" "alarms_are [] c" "works ce" "0 \<le> sent" "sent < int (length m)" "n = int (length m)" "d = fragment_of m sent"
    "h = create_control_header (se_header ce) MSG_ACK (remote_port k) (remote_addr k) (local_port k) (seq_number k) (ack_number k) c"
  obtains c1 al where "send_fragment ce p m n sent c = Inr (At (Send_ack p m n sent h (int (length d)) 100 al), c1)"
    "wire c1 = wire c @ [(network_address_to_sockaddr (remote_addr k), h @ d)]"
    "at_sock c1 p (k\<lparr>ack_flag := 0, seq_number := seq_number k + of_nat (length d)\<rparr>)" "alarms_are [al] c1" "ports c1 = ports c"
    "local_host c1 = local_host c" "counts c1 = counts c"
proof -
  define tl where "tl = int (length d)"
  have tl: "(if n - sent > fragment_length then fragment_length else n - sent) = tl" "0 \<le> tl" "tl \<le> fragment_length" "tl \<le> int (length m) - sent"
    using fragment_of_length [OF assms(4,5)] assms(5-7) by (auto simp: tl_def split: if_splits)
  have d: "take (nat tl) (drop (nat sent) m) = d"
    unfolding tl_def nat_int assms(7) fragment_of_def by (metis append_eq_conv_conj append_take_drop_id)
  have l: "length h = mini_header_reliable_size" using control_header_fields(1) [OF _ assms(8)] assms(3) by (simp add: works_def)
  have ai: "alarm_inv c" "se_alarm ce" "\<not> synthetic_network c" "\<And>b. sendto (se_net ce) (network_address_to_sockaddr (remote_addr k)) b \<noteq> - 1"
    "se_malloc ce 0"
    using assms(2,3) by (simp_all add: alarms_are_def works_def network_address_to_sockaddr_def)
  obtain c1 where c1: "send_turn ce p m n sent h tl 100 c = Inr (At (Send_ack p m n sent h tl 100 (alarm_brk c)), c1)"
    "turned p 100 (data_ready k) (k\<lparr>ack_flag := 0, seq_number := seq_number k + of_int tl\<rparr>)
       (network_address_to_sockaddr (remote_addr k), h @ take (nat tl) (drop (nat sent) m)) c c1"
    by (rule send_turn_ok [OF assms(1) ai(1,2) _ ai(3) l, where w = 100 and m = m and tlen = tl and sent = sent])
      (use tl(2-4) assms(4) ai(4) in auto)
  have "send_fragment ce p m n sent c = send_turn ce p m n sent h tl 100 c"
    using assms(1) ai(5) by (simp add: send_fragment_def sock_simps assms(8) tl(1))
  moreover have "p \<noteq> NULL" "oq_inv (sk_data k)" using assms(1) by (simp_all add: at_sock_def)
  ultimately show thesis
    by (intro that [of "alarm_brk c" c1]) (use c1 turned_alarms [OF c1(2) assms(2)] d in \<open>simp_all add: turned_def at_sock_def tl_def counts_def\<close>)
qed

lemma send_starts:
  fixes c :: "'z socks_scheme"
  assumes "idle p k c" "works ce" "m \<noteq> []" "n = int (length m)" "counts c (send_receive_mutex k) = Some y" "d = fragment_of m 0"
    "h = create_control_header (se_header ce) MSG_ACK (remote_port k) (remote_addr k) (local_port k) (seq_number k) (ack_number k) c"
  obtains c1 al where "minisocket_send p (Some m) n c = Inr (At (Send_mutex p m n), c)"
    "proceed ce (At (Send_mutex p m n)) c = Inr (At (Send_ack p m n 0 h (int (length d)) 100 al), c1)"
    "wire c1 = wire c @ [(network_address_to_sockaddr (remote_addr k), h @ d)]"
    "at_sock c1 p (k\<lparr>ack_flag := 0, seq_number := seq_number k + of_nat (length d)\<rparr>)" "alarms_are [al] c1" "ports c1 = ports c"
    "local_host c1 = local_host c" "counts c1 = (counts c)(send_receive_mutex k \<mapsto> y - 1)"
proof -
  note i = assms(1) [unfolded idle_def]
  have k: "sockets c p = Some k" "p \<noteq> NULL" "oq_inv (sk_data k)" using i by (simp_all add: at_sock_def)
  have n: "0 < n" using assms(3,4) by simp
  have s: "minisocket_send p (Some m) n c = Inr (At (Send_mutex p m n), c)"
    using i n k by (simp add: minisocket_send_def deref_Some)
  have ps: "point_sem (Send_mutex p m n) c = Inr (send_receive_mutex k)" using k by (simp add: deref_Some)
  have y: "send_receive_mutex k \<noteq> NULL" "0 < y" using i assms(5) by auto
  from proceed_down [OF ps y(1) assms(5) y(2), where env = ce] obtain sm where
    sm: "proceed ce (At (Send_mutex p m n)) c = resume ce (Send_mutex p m n) (c\<lparr>sems := sm\<rparr>)"
    "map_option s_count \<circ> sm = (counts c)(send_receive_mutex k \<mapsto> y - 1)" .
  define t where "t = c\<lparr>sems := sm\<rparr>"
  have t: "at_sock t p k" "alarms_are [] t" using i by (simp_all add: t_def at_sock_def)
  have h: "h = create_control_header (se_header ce) MSG_ACK (remote_port k) (remote_addr k) (local_port k) (seq_number k) (ack_number k) t"
    by (simp add: assms(7) create_control_header_def t_def)
  have z: "(0 :: int) \<le> 0" "0 < int (length m)" using n assms(4) by simp_all
  obtain c1 al where c1: "send_fragment ce p m n 0 t = Inr (At (Send_ack p m n 0 h (int (length d)) 100 al), c1)"
    "wire c1 = wire t @ [(network_address_to_sockaddr (remote_addr k), h @ d)]"
    "at_sock c1 p (k\<lparr>ack_flag := 0, seq_number := seq_number k + of_nat (length d)\<rparr>)" "alarms_are [al] c1" "ports c1 = ports t"
    "local_host c1 = local_host t" "counts c1 = counts t"
    by (rule fragment_sent [OF t assms(2) z assms(4,6) h])
  show thesis
    by (rule that [OF s, of al c1]) (use c1 sm in \<open>simp_all add: t_def\<close>)
qed

text \<open>A packet of the peer with the expected acknowledgement number reaches an open socket; \<open>d\<close> are its data, maybe none.\<close>

lemma deliver_open:
  fixes s c c1 :: "'z socks_scheme"
  assumes "at_sock s p k" "socket_state k = OPEN" "ports s (local_port k) = p" "0 \<le> local_port k" "local_port k < 65536"
    "0 \<le> remote_port k" "remote_port k < 65536" "remote_addr k = local_host c"
    "distinct [NULL, data_ready k, wait_for_ack k]" "counts s (data_ready k) = Some x" "0 \<le> x" "counts s (wait_for_ack k) = Some w" "0 \<le> w"
    "a \<noteq> NULL" "works ce" "works se" "alarms_are als s"
    "h = create_control_header (se_header ce) MSG_ACK (local_port k) ad (remote_port k) sq (seq_number k) c"
    "last (wire c1) = (network_address_to_sockaddr (local_host s), h @ d)"
  obtains s1 q pk where "deliver se a junk c1 s = Inr s1"
    "at_sock s1 p (k\<lparr>sk_data := q, ack_number := ack_number k + of_nat (length d), ack_flag := (if ack_flag k = 0 then 1 else ack_flag k)\<rparr>)"
    "oq_items q = oq_items (sk_data k) @ (if d = [] then [] else [a])" "packets s1 a = Some pk" "buffer pk = h @ d @ junk"
    "size pk = int mini_header_reliable_size + int (length d)"
    "counts s1 = (counts s)(data_ready k \<mapsto> (if d = [] then x else x + 1), wait_for_ack k \<mapsto> (if ack_flag k = 0 then w + 1 else w))"
    "wire s1 = wire s @ (if d = [] then [] else [(network_address_to_sockaddr (remote_addr k),
       create_control_header (se_header se) MSG_ACK (remote_port k) (remote_addr k) (local_port k) (seq_number k)
         (ack_number k + of_nat (length d)) s)])"
    "alarms_are als s1" "ports s1 = ports s" "local_host s1 = local_host s"
proof -
  define sin where "sin = network_address_to_sockaddr (local_host c1)"
  define n where "n = int mini_header_reliable_size + int (length d)"
  define pk where "pk = \<lparr>pk_sender = sockaddr_to_network_address sin, buffer = h @ d @ junk, size = n\<rparr>"
  define t where "t = s\<lparr>packets := (packets s)(a \<mapsto> pk), interrupt_level := DISABLED\<rparr>"
  have k: "p \<noteq> NULL" "sockets s p = Some k" "oq_inv (sk_data k)" using assms(1) by (simp_all add: at_sock_def)
  have j: "length (se_header ce) = mini_header_reliable_size" using assms(15) by (simp add: works_def)
  have lh: "length h = mini_header_reliable_size" by (rule control_header_fields(1) [OF j assms(18)])
  note rd = control_packet_read [OF j _ assms(6,7), of "h @ d @ junk" MSG_ACK "local_port k" ad sq "seq_number k" c "d @ junk", folded assms(18), OF refl]
  have nn: "socket_state k \<noteq> INITIAL" "socket_state k \<noteq> CLOSED" using assms(2) by auto
  have dl: "deliver se a junk c1 s = bindR (open_packet se a p (local_port k) t) (\<lambda>s2. Inr (snd (set_interrupt_level (interrupt_level s) s2)))"
    using poll_stream [OF j assms(18,4,5,14) n_def assms(3) k(1,2) nn pk_def t_def, of se] lh
    by (simp add: deliver_def assms(2,19) sin_def n_def)
  define z where "z = int (length d)"
  have z: "size pk - int mini_header_reliable_size = z" by (simp add: pk_def n_def z_def)
  define ak where "ak = ack_number k + of_nat (length d)"
  define pkt where "pkt = (network_address_to_sockaddr (remote_addr k),
       create_control_header (se_header se) MSG_ACK (remote_port k) (remote_addr k) (local_port k) (seq_number k) ak s)"
  define x' where "x' = (if d = [] then x else x + 1)"
  define ws where "ws = wire s @ (if d = [] then [] else [pkt])"
  obtain q m1 where q: "oq_inv q" "oq_items q = oq_items (sk_data k) @ (if d = [] then [] else [a])"
    "map_option s_count \<circ> m1 = (counts s)(data_ready k \<mapsto> x')"
    "(if z \<noteq> 0 then
        bindR (queue_packet p a t) (\<lambda>s1.
        bindR (upd_sock p (\<lambda>k. k\<lparr>ack_number := ack_number k + of_int z\<rparr>) s1) (\<lambda>s2.
        bindR (send_control_message se 0 MSG_ACK (remote_port k) (remote_addr k) (local_port k) (seq_number k)
            (ack_number k + of_int z) s2) (\<lambda>(e, s3). Inr s3)))
      else Inr t) = Inr (t\<lparr>sockets := (sockets s)(p \<mapsto> k\<lparr>sk_data := q, ack_number := ak\<rparr>), sems := m1, wire := ws\<rparr>)"
  proof (cases "d = []")
    case True
    have "t\<lparr>sockets := (sockets s)(p \<mapsto> k\<lparr>sk_data := sk_data k, ack_number := ak\<rparr>), sems := sems s, wire := ws\<rparr> = t"
      using k(2) True by (auto simp: t_def ak_def ws_def intro!: socks.equality)
    then show ?thesis
      using True assms(10) k(3) by (intro that [of "sk_data k" "sems s"]) (auto simp: z_def x'_def counts_def)
  next
    case False
    obtain q where q: "queue_append (sk_data k) a = Inr (0, q)" "oq_inv q" "oq_items q = oq_items (sk_data k) @ [a]"
      using k(3) by (rule lq.app_returns)
    define t1 where "t1 = t\<lparr>sockets := (sockets s)(p \<mapsto> k\<lparr>sk_data := q\<rparr>)\<rparr>"
    have "counts t1 (data_ready k) = Some x" "data_ready k \<noteq> NULL" using assms(9,10) by (simp_all add: t1_def t_def counts_def)
    then obtain m where m: "semaphore_V (data_ready k) t1 = Inr (t1\<lparr>sems := m\<rparr>)" "map_option s_count \<circ> m = (counts t1)(data_ready k \<mapsto> x + 1)"
      using V_up [of "data_ready k" t1 x] assms(11) by blast
    have "queue_packet p a t = Inr (t1\<lparr>sems := m\<rparr>)"
      using k q(1) m(1) by (simp add: queue_packet_def t_def t1_def deref_Some)
    moreover have "upd_sock p (\<lambda>k. k\<lparr>ack_number := ack_number k + of_int z\<rparr>) (t1\<lparr>sems := m\<rparr>) =
        Inr (t\<lparr>sockets := (sockets s)(p \<mapsto> k\<lparr>sk_data := q, ack_number := ak\<rparr>), sems := m\<rparr>)"
      using k(1) by (simp add: upd_sock_def t1_def deref_Some ak_def z_def)
    moreover have "delivers se 0 (t\<lparr>sockets := (sockets s)(p \<mapsto> k\<lparr>sk_data := q, ack_number := ak\<rparr>), sems := m\<rparr>)"
      using works_delivers [OF assms(16,17)] by (simp add: delivers_def t_def)
    moreover have "create_control_header (se_header se) MSG_ACK (remote_port k) (remote_addr k) (local_port k) (seq_number k) ak
        (t\<lparr>sockets := (sockets s)(p \<mapsto> k\<lparr>sk_data := q, ack_number := ak\<rparr>), sems := m\<rparr>) = snd pkt"
      by (simp add: create_control_header_def pkt_def t_def)
    ultimately show ?thesis using False q(2,3) m(2)
      by (intro that [of q m]) (simp_all add: send_control_ok ak_def z_def ws_def pkt_def x'_def t1_def t_def counts_def)
  qed
  define k2 where "k2 = k\<lparr>sk_data := q, ack_number := ak\<rparr>"
  define s4 where "s4 = t\<lparr>sockets := (sockets s)(p \<mapsto> k2), sems := m1, wire := ws\<rparr>"
  have op: "open_packet se a p (local_port k) t =
      (if ack_flag k = 0 then bindR (upd_sock p (\<lambda>k. k\<lparr>ack_flag := 1\<rparr>) s4) (semaphore_V (wait_for_ack k)) else Inr s4)"
  proof -
    have "packets t a = Some pk" "sockets t p = Some k" by (simp_all add: t_def k(2))
    moreover have "same_peer k (unpack_address (buffer pk) off_source_address) (uint (unpack_unsigned_short (buffer pk) off_source_port))"
      using rd(2,3) by (simp add: same_peer_def network_compare_network_addresses_def pk_def assms(8))
    moreover have "buffer pk ! off_message_type = digit MSG_ACK" "unpack_unsigned_int (buffer pk) off_ack_number = seq_number k"
      "unpack_address (buffer pk) off_source_address = remote_addr k"
      "uint (unpack_unsigned_short (buffer pk) off_source_port) = remote_port k"
      using rd by (simp_all add: pk_def assms(8))
    moreover have "digit MSG_ACK \<noteq> digit MSG_SYN" "digit MSG_ACK \<noteq> digit MSG_SYNACK" "digit MSG_ACK \<noteq> digit MSG_FIN"
      by (simp_all add: MSG_ACK_def MSG_SYN_def MSG_SYNACK_def MSG_FIN_def)
    moreover note q(4) [folded k2_def, folded s4_def]
    ultimately show ?thesis using k(1) assms(14) z by (cases "z = 0") (simp_all add: open_packet_def deref_Some Let_def)
  qed
  have c4: "counts s4 (wait_for_ack k) = Some w" using q(3) assms(9,12) by (simp add: s4_def)
  show thesis
  proof (cases "ack_flag k = 0")
    case False
    show thesis
      by (rule that [of "s\<lparr>packets := (packets s)(a \<mapsto> pk), sockets := (sockets s)(p \<mapsto> k2), sems := m1, wire := ws\<rparr>" q pk])
        (use dl op False q k assms(9,12,17) in \<open>auto simp: s4_def t_def set_interrupt_level_def k2_def ak_def at_sock_def pk_def n_def x'_def
          ws_def pkt_def\<close>)
  next
    case True
    define k3 where "k3 = k2\<lparr>ack_flag := 1\<rparr>"
    define s5 where "s5 = s4\<lparr>sockets := (sockets s)(p \<mapsto> k3)\<rparr>"
    have "upd_sock p (\<lambda>k. k\<lparr>ack_flag := 1\<rparr>) s4 = Inr s5"
      using k(1) by (simp add: upd_sock_def s4_def deref_Some k3_def s5_def)
    moreover have "counts s5 (wait_for_ack k) = Some w" "wait_for_ack k \<noteq> NULL" using c4 assms(9) by (simp_all add: s5_def)
    then obtain m where m: "semaphore_V (wait_for_ack k) s5 = Inr (s5\<lparr>sems := m\<rparr>)" "map_option s_count \<circ> m = (counts s5)(wait_for_ack k \<mapsto> w + 1)"
      using V_up [of "wait_for_ack k" s5 w] assms(13) by blast
    ultimately have op: "open_packet se a p (local_port k) t = Inr (s5\<lparr>sems := m\<rparr>)" using op True by simp
    have cm: "counts s5 = (counts s)(data_ready k \<mapsto> x')" using q(3) by (simp add: s5_def s4_def)
    show thesis
      by (rule that [of "s\<lparr>packets := (packets s)(a \<mapsto> pk), sockets := (sockets s)(p \<mapsto> k3), sems := m, wire := ws\<rparr>" q pk])
        (use dl op True q k m(2) assms(17) in \<open>simp_all add: s5_def s4_def t_def set_interrupt_level_def k3_def k2_def ak_def at_sock_def
          pk_def n_def x'_def ws_def pkt_def cm [unfolded s5_def s4_def t_def]\<close>)
  qed
qed

text \<open>The acknowledgement is there: the sender cancels its alarm, raises the mutex, and sends the next fragment or returns.\<close>

lemma ack_taken:
  assumes "at_sock s p k" "socket_state k = OPEN" "ack_flag k = 1" "distinct [NULL, wait_for_ack k, send_receive_mutex k]"
    "counts s (wait_for_ack k) = Some w" "0 < w" "counts s (send_receive_mutex k) = Some y" "0 \<le> y" "alarms_are [al] s"
  obtains v where "proceed ce (At (Send_ack p m n sent h t 100 al)) s =
      (if sent + t \<noteq> n then send_fragment ce p m n (sent + t) v else unlock_and p (Finished (Sent n None)) v)"
    "sockets v = sockets s" "alarms_are [] v" "wire v = wire s" "ports v = ports s" "local_host v = local_host s"
    "counts v = (counts s)(wait_for_ack k \<mapsto> w - 1, send_receive_mutex k \<mapsto> y + 1)"
proof -
  let ?pt = "Send_ack p m n sent h t 100 al"
  have k: "p \<noteq> NULL" "sockets s p = Some k" using assms(1) by (simp_all add: at_sock_def)
  have wk: "wait_for_ack k \<noteq> NULL" "send_receive_mutex k \<noteq> NULL" "wait_for_ack k \<noteq> send_receive_mutex k" using assms(4) by auto
  have ps: "point_sem ?pt s = Inr (wait_for_ack k)" using k by (simp add: deref_Some)
  from proceed_down [OF ps wk(1) assms(5,6), where env = ce] obtain m1 where
    m1: "proceed ce (At ?pt) s = resume ce ?pt (s\<lparr>sems := m1\<rparr>)" "map_option s_count \<circ> m1 = (counts s)(wait_for_ack k \<mapsto> w - 1)" .
  define d where "d = s\<lparr>sems := m1, interrupt_level := DISABLED\<rparr>"
  obtain e where d: "alarm_inv d" "pending d = (al, e) # []"
    using assms(9) by (auto simp: alarms_are_def d_def alarm_inv_def pending_def)
  from deregister_first_ok [OF d] obtain r q u where u: "deregister_alarm al d = Inr (r, u)" "alarm_inv u" "pending u = []"
    "u = d\<lparr>alarm_queue := Some q, alarms := (alarms d)(al := None)\<rparr>" by blast
  have "counts u (send_receive_mutex k) = Some y" using m1(2) assms(7) wk by (simp add: u(4) d_def counts_def [of "_\<lparr>alarms := _\<rparr>"])
  from V_up [OF wk(2) this assms(8)] obtain m2 where m2: "semaphore_V (send_receive_mutex k) u = Inr (u\<lparr>sems := m2\<rparr>)"
    "map_option s_count \<circ> m2 = (counts u)(send_receive_mutex k \<mapsto> y + 1)" .
  define v where "v = u\<lparr>sems := m2, interrupt_level := interrupt_level s\<rparr>"
  have v: "sockets v = sockets s" "alarms_are [] v" "wire v = wire s" "ports v = ports s" "local_host v = local_host s"
    using u(2,3) assms(9) by (simp_all add: alarms_are_def v_def u(4) d_def alarm_inv_def pending_def)
  have "counts u = map_option s_count \<circ> m1" by (simp add: u(4) d_def counts_def)
  then have cv: "counts v = (counts s)(wait_for_ack k \<mapsto> w - 1, send_receive_mutex k \<mapsto> y + 1)"
    using m2(2) m1(2) by (simp add: v_def counts_def)
  have "send_ack_rest ce p m n sent h t 100 al (s\<lparr>sems := m1\<rparr>) =
      (if sent + t \<noteq> n then send_fragment ce p m n (sent + t) v else unlock_and p (Finished (Sent n None)) v)"
    using k assms(2,3) u(1) m2(1) by (simp add: send_ack_rest_def deref_Some set_interrupt_level_def Let_def d_def v_def)
  then show thesis using m1(1) by (intro that [of v]) (use v cv in simp_all)
qed

text \<open>A sender that is done raises the mutex once more.\<close>

lemma send_finishes:
  assumes "at_sock s p k" "socket_state k = OPEN" "ack_flag k = 1" "distinct [NULL, wait_for_ack k, send_receive_mutex k]"
    "counts s (wait_for_ack k) = Some w" "0 < w" "counts s (send_receive_mutex k) = Some y" "0 \<le> y" "alarms_are [al] s" "sent + t = n"
  obtains s1 where "proceed ce (At (Send_ack p m n sent h t 100 al)) s = Inr (Finished (Sent n None), s1)" "sockets s1 = sockets s"
    "alarms_are [] s1" "wire s1 = wire s" "ports s1 = ports s" "local_host s1 = local_host s"
    "counts s1 = (counts s)(wait_for_ack k \<mapsto> w - 1, send_receive_mutex k \<mapsto> y + 2)"
proof -
  obtain v where v: "proceed ce (At (Send_ack p m n sent h t 100 al)) s =
      (if sent + t \<noteq> n then send_fragment ce p m n (sent + t) v else unlock_and p (Finished (Sent n None)) v)"
    "sockets v = sockets s" "alarms_are [] v" "wire v = wire s" "ports v = ports s" "local_host v = local_host s"
    "counts v = (counts s)(wait_for_ack k \<mapsto> w - 1, send_receive_mutex k \<mapsto> y + 1)"
    by (rule ack_taken [OF assms(1-9)])
  have "counts v (send_receive_mutex k) = Some (y + 1)" "0 \<le> y + 1" "send_receive_mutex k \<noteq> NULL" using v(7) assms(4,8) by auto
  then obtain m3 where m3: "semaphore_V (send_receive_mutex k) v = Inr (v\<lparr>sems := m3\<rparr>)"
    "map_option s_count \<circ> m3 = (counts v)(send_receive_mutex k \<mapsto> y + 1 + 1)" using V_up by blast
  have y2: "y + 1 + 1 = y + 2" by simp
  have "unlock_and p (Finished (Sent n None)) v = Inr (Finished (Sent n None), v\<lparr>sems := m3\<rparr>)"
    using assms(1) v(2) m3(1) by (simp add: unlock_and_def at_sock_def deref_Some)
  then show thesis using v(1) assms(10)
    by (intro that [of "v\<lparr>sems := m3\<rparr>"]) (use v(2-7) m3(2) [unfolded y2] in simp_all)
qed

text \<open>A packet is there: the receiver takes its data.\<close>

lemma receive_finishes:
  assumes "at_sock s p k" "socket_state k = OPEN" "oq_items (sk_data k) = [a]" "packets s a = Some pk" "a \<noteq> NULL" "buffer pk = h @ d @ junk"
    "length h = mini_header_reliable_size" "size pk = int mini_header_reliable_size + int (length d)" "d \<noteq> []" "int (length d) \<le> n"
    "n \<le> int (length b)" "distinct [NULL, data_ready k, send_receive_mutex k]"
    "counts s (data_ready k) = Some x" "0 < x" "counts s (send_receive_mutex k) = Some y" "0 < y"
  obtains q s1 s2 where "minisocket_receive p (Some b) n s = Inr (At (Recv_mutex p b n), s)"
    "proceed env (At (Recv_mutex p b n)) s = Inr (At (Recv_data p b n), s1)"
    "proceed env (At (Recv_data p b n)) s1 = Inr (Finished (Received (int (length d)) None (d @ drop (length d) b)), s2)"
    "at_sock s2 p (k\<lparr>sk_data := q\<rparr>)" "oq_items q = []" "counts s2 = (counts s)(data_ready k \<mapsto> x - 1)"
    "wire s2 = wire s" "ports s2 = ports s" "local_host s2 = local_host s" "\<forall>als. alarms_are als s2 = alarms_are als s"
proof -
  have k: "p \<noteq> NULL" "sockets s p = Some k" using assms(1) by (simp_all add: at_sock_def)
  have dk: "data_ready k \<noteq> NULL" "send_receive_mutex k \<noteq> NULL" "data_ready k \<noteq> send_receive_mutex k" using assms(12) by auto
  have n: "0 < n" using assms(9,10) by (cases d) auto
  have c: "minisocket_receive p (Some b) n s = Inr (At (Recv_mutex p b n), s)"
    using k assms(2) n by (simp add: minisocket_receive_def deref_Some)
  have ps: "point_sem (Recv_mutex p b n) s = Inr (send_receive_mutex k)" using k by (simp add: deref_Some)
  from proceed_down [OF ps dk(2) assms(15,16), where env = env] obtain m1 where
    m1: "proceed env (At (Recv_mutex p b n)) s = Inr (At (Recv_data p b n), s\<lparr>sems := m1\<rparr>)"
    "map_option s_count \<circ> m1 = (counts s)(send_receive_mutex k \<mapsto> y - 1)" by auto
  define s1 where "s1 = s\<lparr>sems := m1\<rparr>"
  have ps1: "point_sem (Recv_data p b n) s1 = Inr (data_ready k)" using k by (simp add: deref_Some s1_def)
  have cd: "counts s1 (data_ready k) = Some x" using m1(2) assms(13) dk by (simp add: s1_def)
  from proceed_down [OF ps1 dk(1) cd assms(14), where env = env] obtain m2 where
    m2: "proceed env (At (Recv_data p b n)) s1 = recv_data_rest p b n (s1\<lparr>sems := m2\<rparr>)"
    "map_option s_count \<circ> m2 = (counts s1)(data_ready k \<mapsto> x - 1)" by auto
  define t where "t = s1\<lparr>sems := m2\<rparr>"
  have "counts t (send_receive_mutex k) = Some (y - 1)" using m2(2) m1(2) dk by (simp add: t_def s1_def)
  then obtain z where z: "sems t (send_receive_mutex k) = Some z" "s_count z = y - 1" by (auto simp: counts_def)
  have t: "at_sock t p k" "packets t a = Some pk" using assms(1,4) by (simp_all add: t_def s1_def at_sock_def)
  obtain q where q: "oq_inv q" "oq_items q = []" "recv_data_rest p b n t = Inr (Finished (Received (int (length d)) None
      (take (nat (int (length d))) (drop mini_header_reliable_size (buffer pk)) @ drop (nat (int (length d))) b)),
      t\<lparr>sockets := (sockets t)(p \<mapsto> k\<lparr>sk_data := q\<rparr>), sems := (sems t)(send_receive_mutex k \<mapsto> z\<lparr>s_count := s_count z + 1\<rparr>)\<rparr>)"
    by (rule recv_data_ok [OF t(1) _ assms(2) t(2) assms(5,8), where max_len = n and m = b and c = "int (length d)" and sem = z and as = "[]"])
      (use assms(3,6-11,16) n dk z in auto)
  let ?t = "t\<lparr>sockets := (sockets t)(p \<mapsto> k\<lparr>sk_data := q\<rparr>), sems := (sems t)(send_receive_mutex k \<mapsto> z\<lparr>s_count := s_count z + 1\<rparr>)\<rparr>"
  have "counts ?t = (counts t)(send_receive_mutex k \<mapsto> y)" using z by (auto simp: counts_def fun_eq_iff)
  moreover have "counts t = (counts s)(send_receive_mutex k \<mapsto> y - 1, data_ready k \<mapsto> x - 1)" using m1(2) m2(2) by (simp add: t_def s1_def)
  ultimately have ct: "counts ?t = (counts s)(data_ready k \<mapsto> x - 1)" using assms(15) dk(3) by (auto simp: fun_eq_iff)
  have d: "take (length d) (drop mini_header_reliable_size (buffer pk)) = d" using assms(6,7) by simp
  show thesis
    by (rule that [OF c m1(1) [folded s1_def], of ?t q])
      (use q m2(1) [folded t_def] ct d k in \<open>simp_all add: t_def s1_def at_sock_def\<close>)
qed

text \<open>A socket in the middle of a call; \<open>als\<close> are the alarms that are set.\<close>

definition busy_sock :: "ptr list \<Rightarrow> ptr \<Rightarrow> minisocket \<Rightarrow> 'z socks_scheme \<Rightarrow> bool" where
  "busy_sock als p k s \<longleftrightarrow> at_sock s p k \<and> socket_state k = OPEN \<and> oq_items (sk_data k) = [] \<and>
     ports s (local_port k) = p \<and> 0 \<le> local_port k \<and> local_port k < 65536 \<and>
     distinct [NULL, data_ready k, wait_for_ack k, send_receive_mutex k] \<and>
     (\<exists>n. counts s (data_ready k) = Some n \<and> 0 \<le> n) \<and> (\<exists>n. counts s (wait_for_ack k) = Some n \<and> 0 \<le> n) \<and>
     (\<exists>n. counts s (send_receive_mutex k) = Some n \<and> 0 \<le> n) \<and> alarms_are als s"

lemma idle_busy: "idle p k s \<Longrightarrow> busy_sock [] p k s"
  unfolding idle_def busy_sock_def by (blast intro: less_imp_le)

lemma busy_idle: "busy_sock [] p k s \<Longrightarrow> counts s (send_receive_mutex k) = Some n \<Longrightarrow> 0 < n \<Longrightarrow> idle p k s"
  unfolding idle_def busy_sock_def by blast

text \<open>What was sent reaches the receiver, is acknowledged and taken by a receiving call; the sender's call has not gone on yet.\<close>

lemma fragment_received:
  fixes s c c1 :: "'z socks_scheme"
  assumes "idle q l s" "works ce" "works se" "a1 \<noteq> NULL" "d \<noteq> []" "int (length d) \<le> n" "n \<le> int (length b)"
    "0 \<le> remote_port l" "remote_port l < 65536" "remote_addr l = local_host c"
    "h = create_control_header (se_header ce) MSG_ACK (local_port l) ad (remote_port l) sq (seq_number l) c"
    "last (wire c1) = (network_address_to_sockaddr (local_host s), h @ d)"
  obtains s1 s2 s3 l3 where "deliver se a1 junk c1 s = Inr s1"
    "minisocket_receive q (Some b) n s1 = Inr (At (Recv_mutex q b n), s1)"
    "proceed se (At (Recv_mutex q b n)) s1 = Inr (At (Recv_data q b n), s2)"
    "proceed se (At (Recv_data q b n)) s2 = Inr (Finished (Received (int (length d)) None (d @ drop (length d) b)), s3)"
    "idle q l3 s3" "local_host s1 = local_host s" "local_host s3 = local_host s" "remote_addr l3 = remote_addr l" "remote_port l3 = remote_port l"
    "local_port l3 = local_port l" "seq_number l3 = seq_number l" "ack_number l3 = ack_number l + of_nat (length d)"
    "last (wire s1) = (network_address_to_sockaddr (remote_addr l), create_control_header (se_header se) MSG_ACK (remote_port l) (remote_addr l)
       (local_port l) (seq_number l) (ack_number l + of_nat (length d)) s)"
proof -
  note il = assms(1) [unfolded idle_def]
  obtain xl wl yl where cl: "counts s (data_ready l) = Some xl" "0 \<le> xl" "counts s (wait_for_ack l) = Some wl" "0 \<le> wl"
    "counts s (send_receive_mutex l) = Some yl" "0 < yl" using il by blast
  have dl: "distinct [NULL, data_ready l, wait_for_ack l]" "distinct [NULL, data_ready l, send_receive_mutex l]"
    "wait_for_ack l \<noteq> send_receive_mutex l" using il by auto
  obtain s1 q1 pk where dv: "deliver se a1 junk c1 s = Inr s1"
    "at_sock s1 q (l\<lparr>sk_data := q1, ack_number := ack_number l + of_nat (length d), ack_flag := (if ack_flag l = 0 then 1 else ack_flag l)\<rparr>)"
    "oq_items q1 = oq_items (sk_data l) @ (if d = [] then [] else [a1])" "packets s1 a1 = Some pk" "buffer pk = h @ d @ junk"
    "size pk = int mini_header_reliable_size + int (length d)"
    "counts s1 = (counts s)(data_ready l \<mapsto> (if d = [] then xl else xl + 1), wait_for_ack l \<mapsto> (if ack_flag l = 0 then wl + 1 else wl))"
    "wire s1 = wire s @ (if d = [] then [] else [(network_address_to_sockaddr (remote_addr l),
       create_control_header (se_header se) MSG_ACK (remote_port l) (remote_addr l) (local_port l) (seq_number l)
         (ack_number l + of_nat (length d)) s)])"
    "alarms_are [] s1" "ports s1 = ports s" "local_host s1 = local_host s"
    by (rule deliver_open [OF _ _ _ _ _ assms(8,9,10) dl(1) cl(1-4) assms(4,2,3) _ assms(11,12)]) (use il in auto)
  define l1 where "l1 = l\<lparr>sk_data := q1, ack_number := ack_number l + of_nat (length d), ack_flag := (if ack_flag l = 0 then 1 else ack_flag l)\<rparr>"
  note dv2 = dv(2) [folded l1_def]
  have lh: "length h = mini_header_reliable_size"
    by (rule control_header_fields(1) [OF _ assms(11)]) (use assms(2) in \<open>simp add: works_def\<close>)
  have l1: "socket_state l1 = OPEN" "oq_items (sk_data l1) = [a1]" "local_port l1 = local_port l" "data_ready l1 = data_ready l"
    "wait_for_ack l1 = wait_for_ack l" "send_receive_mutex l1 = send_receive_mutex l" "remote_addr l1 = remote_addr l"
    "remote_port l1 = remote_port l" "seq_number l1 = seq_number l" "ack_number l1 = ack_number l + of_nat (length d)"
    using il dv(3) assms(5) by (simp_all add: l1_def)
  have cl1: "distinct [NULL, data_ready l1, send_receive_mutex l1]" "counts s1 (data_ready l1) = Some (xl + 1)" "0 < xl + 1"
    "counts s1 (send_receive_mutex l1) = Some yl"
    using dl cl assms(5) by (auto simp: l1 dv(7))
  obtain q3 s2 s3 where rc: "minisocket_receive q (Some b) n s1 = Inr (At (Recv_mutex q b n), s1)"
    "proceed se (At (Recv_mutex q b n)) s1 = Inr (At (Recv_data q b n), s2)"
    "proceed se (At (Recv_data q b n)) s2 = Inr (Finished (Received (int (length d)) None (d @ drop (length d) b)), s3)"
    "at_sock s3 q (l1\<lparr>sk_data := q3\<rparr>)" "oq_items q3 = []" "counts s3 = (counts s1)(data_ready l1 \<mapsto> (xl + 1) - 1)"
    "wire s3 = wire s1" "ports s3 = ports s1" "local_host s3 = local_host s1" "\<forall>als. alarms_are als s3 = alarms_are als s1"
    by (rule receive_finishes [OF dv2 l1(1,2) dv(4) assms(4) dv(5) lh dv(6) assms(5-7) cl1 cl(6), where env = se])
  have "idle q (l1\<lparr>sk_data := q3\<rparr>) s3" unfolding idle_def
  proof (intro conjI)
    show "distinct [NULL, data_ready (l1\<lparr>sk_data := q3\<rparr>), wait_for_ack (l1\<lparr>sk_data := q3\<rparr>), send_receive_mutex (l1\<lparr>sk_data := q3\<rparr>)]"
      using il by (simp add: l1)
    show "\<exists>n. counts s3 (data_ready (l1\<lparr>sk_data := q3\<rparr>)) = Some n \<and> 0 \<le> n"
      "\<exists>n. counts s3 (wait_for_ack (l1\<lparr>sk_data := q3\<rparr>)) = Some n \<and> 0 \<le> n"
      "\<exists>n. counts s3 (send_receive_mutex (l1\<lparr>sk_data := q3\<rparr>)) = Some n \<and> 0 < n"
      using cl dl by (auto simp: rc(6) dv(7) l1)
  qed (use il rc(4,5) dv(9) in \<open>simp_all add: rc(8,10) dv(10) l1\<close>)
  then show thesis
    by (rule that [OF dv(1) rc(1-3)]) (use dv(8,11) rc(9) assms(5) l1 in simp_all)
qed

text \<open>The acknowledgement reaches the sender.\<close>

lemma fragment_acked:
  fixes s c1 s1 :: "'z socks_scheme"
  assumes "busy_sock [al] p k1 c1" "ack_flag k1 = 0" "works ce" "works se" "a2 \<noteq> NULL" "remote_addr k1 = local_host s1"
    "0 \<le> remote_port k1" "remote_port k1 < 65536"
    "last (wire s1) = (network_address_to_sockaddr (local_host c1), create_control_header (se_header se) MSG_ACK (local_port k1) ad
       (remote_port k1) sq (seq_number k1) s)" "local_host s1 = local_host s"
  obtains c2 q2 where "deliver ce a2 junk s1 c1 = Inr c2" "busy_sock [al] p (k1\<lparr>sk_data := q2, ack_flag := 1\<rparr>) c2"
    "\<exists>w. counts c2 (wait_for_ack k1) = Some w \<and> 0 < w" "counts c2 (send_receive_mutex k1) = counts c1 (send_receive_mutex k1)"
    "local_host c2 = local_host c1"
proof -
  note ik = assms(1) [unfolded busy_sock_def]
  obtain x w y where ck: "counts c1 (data_ready k1) = Some x" "0 \<le> x" "counts c1 (wait_for_ack k1) = Some w" "0 \<le> w"
    "counts c1 (send_receive_mutex k1) = Some y" "0 \<le> y" using ik by blast
  have dk: "distinct [NULL, data_ready k1, wait_for_ack k1]" using ik by auto
  define h2 where "h2 = create_control_header (se_header se) MSG_ACK (local_port k1) ad (remote_port k1) sq (seq_number k1) s"
  have w: "last (wire s1) = (network_address_to_sockaddr (local_host c1), h2 @ [])" using assms(9) by (simp add: h2_def)
  have pr: "remote_addr k1 = local_host s" using assms(6,10) by simp
  obtain c2 q2 where dc: "deliver ce a2 junk s1 c1 = Inr c2"
    "at_sock c2 p (k1\<lparr>sk_data := q2, ack_number := ack_number k1 + of_nat (length ([] :: byte list)), ack_flag := (if ack_flag k1 = 0 then 1 else ack_flag k1)\<rparr>)"
    "oq_items q2 = oq_items (sk_data k1) @ (if [] = ([] :: byte list) then [] else [a2])"
    "counts c2 = (counts c1)(data_ready k1 \<mapsto> (if [] = ([] :: byte list) then x else x + 1), wait_for_ack k1 \<mapsto> (if ack_flag k1 = 0 then w + 1 else w))"
    "alarms_are [al] c2" "ports c2 = ports c1" "local_host c2 = local_host c1"
    by (rule deliver_open [OF _ _ _ _ _ assms(7,8) pr dk ck(1-4) assms(5,4,3) _ h2_def w, where junk = junk]) (use ik in auto)
  have "busy_sock [al] p (k1\<lparr>sk_data := q2, ack_flag := 1\<rparr>) c2" unfolding busy_sock_def
  proof (intro conjI)
    show "at_sock c2 p (k1\<lparr>sk_data := q2, ack_flag := 1\<rparr>)" using dc(2) assms(2) by simp
    show "\<exists>n. counts c2 (data_ready (k1\<lparr>sk_data := q2, ack_flag := 1\<rparr>)) = Some n \<and> 0 \<le> n"
      "\<exists>n. counts c2 (wait_for_ack (k1\<lparr>sk_data := q2, ack_flag := 1\<rparr>)) = Some n \<and> 0 \<le> n"
      "\<exists>n. counts c2 (send_receive_mutex (k1\<lparr>sk_data := q2, ack_flag := 1\<rparr>)) = Some n \<and> 0 \<le> n"
      using ck ik by (auto simp: dc(4))
  qed (use ik dc(3,5) in \<open>simp_all add: dc(6)\<close>)
  then show thesis
    by (rule that [OF dc(1)]) (use ck dk ik dc(4,7) assms(2) in auto)
qed

lemma message_delivered:
  fixes s c :: "'z socks_scheme"
  assumes "connected p q c s" "works ce" "works se" "m \<noteq> []" "int (length m) \<le> fragment_length" "length m \<le> length b"
    "a1 \<noteq> NULL" "a2 \<noteq> NULL"
  obtains c' s' where "transfer ce se p q a1 a2 junk m b c s =
      Inr (Finished (Sent (int (length m)) None), Finished (Received (int (length m)) None (m @ drop (length m) b)), c', s')"
    "connected p q c' s'"
proof -
  define n where "n = int (length m)"
  have m: "m = fragment_of m 0" "int (length m) \<le> int (length b)" using assms(5,6) by (simp_all add: fragment_of_def)
  obtain k l where kl: "idle p k c" "idle q l s" "remote_addr k = local_host s" "remote_port k = local_port l"
    "remote_addr l = local_host c" "remote_port l = local_port k" "seq_number k = ack_number l" "seq_number l = ack_number k"
    using assms(1) by (auto simp: connected_def)
  note ik = kl(1) [unfolded idle_def] and il = kl(2) [unfolded idle_def]
  obtain y where y: "counts c (send_receive_mutex k) = Some y" "0 < y" using ik by blast
  define h where "h = create_control_header (se_header ce) MSG_ACK (remote_port k) (remote_addr k) (local_port k) (seq_number k) (ack_number k) c"
  define k1 where "k1 = k\<lparr>ack_flag := 0, seq_number := seq_number k + of_nat (length m)\<rparr>"
  obtain c1 al where st: "minisocket_send p (Some m) n c = Inr (At (Send_mutex p m n), c)"
    "proceed ce (At (Send_mutex p m n)) c = Inr (At (Send_ack p m n 0 h n 100 al), c1)"
    "wire c1 = wire c @ [(network_address_to_sockaddr (remote_addr k), h @ m)]"
    "at_sock c1 p k1" "alarms_are [al] c1" "ports c1 = ports c" "local_host c1 = local_host c"
    "counts c1 = (counts c)(send_receive_mutex k \<mapsto> y - 1)"
    unfolding k1_def n_def by (rule send_starts [OF kl(1) assms(2,4) refl y(1) m(1) h_def])
  have h: "h = create_control_header (se_header ce) MSG_ACK (local_port l) (remote_addr k) (remote_port l) (seq_number k) (seq_number l) c"
    by (simp add: h_def kl)
  have w1: "last (wire c1) = (network_address_to_sockaddr (local_host s), h @ m)" by (simp add: st(3) kl(3))
  have pl: "0 \<le> remote_port l" "remote_port l < 65536" "0 \<le> remote_port k" "remote_port k < 65536" using ik il kl(4,6) by simp_all
  obtain s1 s2 s3 l3 where rc: "deliver se a1 junk c1 s = Inr s1"
    "minisocket_receive q (Some b) (int (length b)) s1 = Inr (At (Recv_mutex q b (int (length b))), s1)"
    "proceed se (At (Recv_mutex q b (int (length b)))) s1 = Inr (At (Recv_data q b (int (length b))), s2)"
    "proceed se (At (Recv_data q b (int (length b)))) s2 = Inr (Finished (Received (int (length m)) None (m @ drop (length m) b)), s3)"
    "idle q l3 s3" "local_host s1 = local_host s" "local_host s3 = local_host s" "remote_addr l3 = remote_addr l" "remote_port l3 = remote_port l"
    "local_port l3 = local_port l" "seq_number l3 = seq_number l" "ack_number l3 = ack_number l + of_nat (length m)"
    "last (wire s1) = (network_address_to_sockaddr (remote_addr l), create_control_header (se_header se) MSG_ACK (remote_port l) (remote_addr l)
       (local_port l) (seq_number l) (ack_number l + of_nat (length m)) s)"
    by (rule fragment_received [OF kl(2) assms(2,3,7,4) m(2) order.refl pl(1,2) kl(5) h w1])
  have b1: "busy_sock [al] p k1 c1" using ik st(4,5) y by (auto simp: busy_sock_def k1_def st(6,8))
  have k1: "ack_flag k1 = 0" "remote_addr k1 = local_host s1" "remote_port k1 = local_port l" "local_port k1 = remote_port l"
    "seq_number k1 = ack_number l + of_nat (length m)" "wait_for_ack k1 = wait_for_ack k" "send_receive_mutex k1 = send_receive_mutex k"
    "ack_number k1 = ack_number k"
    by (simp_all add: k1_def rc(6) kl)
  have w2: "last (wire s1) = (network_address_to_sockaddr (local_host c1), create_control_header (se_header se) MSG_ACK (local_port k1)
      (remote_addr l) (remote_port k1) (seq_number l) (seq_number k1) s)"
    by (simp add: rc(13) k1 st(7) kl(5))
  have rp: "0 \<le> remote_port k1" "remote_port k1 < 65536" using pl by (simp_all add: k1_def)
  obtain c2 q2 where ak: "deliver ce a2 junk s1 c1 = Inr c2" "busy_sock [al] p (k1\<lparr>sk_data := q2, ack_flag := 1\<rparr>) c2"
    "\<exists>w. counts c2 (wait_for_ack k1) = Some w \<and> 0 < w" "counts c2 (send_receive_mutex k1) = counts c1 (send_receive_mutex k1)"
    "local_host c2 = local_host c1"
    by (rule fragment_acked [OF b1 k1(1) assms(2,3,8) k1(2) rp w2 rc(6), where junk = junk])
  define k2 where "k2 = k1\<lparr>sk_data := q2, ack_flag := 1\<rparr>"
  note b2 = ak(2) [folded k2_def, unfolded busy_sock_def]
  obtain w where w: "counts c2 (wait_for_ack k2) = Some w" "0 < w" using ak(3) by (auto simp: k2_def)
  have y2: "counts c2 (send_receive_mutex k2) = Some (y - 1)" "0 \<le> y - 1" using ak(4) y by (simp_all add: k2_def k1(7) st(8))
  have d2: "distinct [NULL, wait_for_ack k2, send_receive_mutex k2]" "ack_flag k2 = 1" using b2 by (auto simp: k2_def)
  obtain c3 where fi: "proceed ce (At (Send_ack p m n 0 h n 100 al)) c2 = Inr (Finished (Sent n None), c3)" "sockets c3 = sockets c2"
    "alarms_are [] c3" "wire c3 = wire c2" "ports c3 = ports c2" "local_host c3 = local_host c2"
    "counts c3 = (counts c2)(wait_for_ack k2 \<mapsto> w - 1, send_receive_mutex k2 \<mapsto> (y - 1) + 2)"
    by (rule send_finishes [OF _ _ d2(2,1) w y2 _ add_0_left]) (use b2 in auto)
  have run: "transfer ce se p q a1 a2 junk m b c s =
      Inr (Finished (Sent (int (length m)) None), Finished (Received (int (length m)) None (m @ drop (length m) b)), c3, s3)"
    using st(1,2) fi(1) unfolding n_def by (simp add: transfer_def rc(1-4) ak(1))
  have "idle p k2 c3"
    using b2 w y2 y(2) by (auto simp: idle_def at_sock_def fi)
  then have "connected p q c3 s3" unfolding connected_def using rc(5)
    by (intro exI [of _ k2] exI [of _ l3]) (use kl k1 rc(6-12) st(7) ak(5) in \<open>simp add: k2_def fi(6)\<close>)
  with run show thesis by (rule that)
qed

section \<open>Properties of a stream\<close>


text \<open>
  C26: the receiver does not look at the sequence number: a data packet that the network delivers twice is accepted
  twice, its data are queued twice, and the number acknowledged runs ahead of what the peer has sent.
\<close>

theorem duplicate_accepted:
  fixes s c :: "'z socks_scheme"
  assumes "connected p q c s" "works ce" "works se" "a1 \<noteq> NULL" "a2 \<noteq> NULL" "a1 \<noteq> a2"
    "m \<noteq> []" "int (length m) \<le> fragment_length"
  shows "\<exists>c1 w s1 s2 k l x y. proceed ce (At (Send_mutex p m (int (length m)))) c = Inr (At w, c1) \<and>
    deliver se a1 junk c1 s = Inr s1 \<and> deliver se a2 junk c1 s1 = Inr s2 \<and>
    sockets c1 p = Some k \<and> sockets s2 q = Some l \<and> oq_items (sk_data l) = [a1, a2] \<and>
    packets s1 a1 = Some x \<and> packets s2 a2 = Some y \<and> buffer x = buffer y \<and> ack_number l = seq_number k + of_nat (length m)"
proof -
  obtain k l where kl: "idle p k c" "idle q l s" "remote_addr k = local_host s" "remote_port k = local_port l"
    "remote_addr l = local_host c" "remote_port l = local_port k" "seq_number k = ack_number l" "seq_number l = ack_number k"
    using assms(1) by (auto simp: connected_def)
  note ik = kl(1) [unfolded idle_def] and il = kl(2) [unfolded idle_def]
  obtain yk where yk: "counts c (send_receive_mutex k) = Some yk" using ik by blast
  obtain xl wl where cl: "counts s (data_ready l) = Some xl" "0 \<le> xl" "counts s (wait_for_ack l) = Some wl" "0 \<le> wl" using il by blast
  have dl: "distinct [NULL, data_ready l, wait_for_ack l]" using il by auto
  define h where "h = create_control_header (se_header ce) MSG_ACK (remote_port k) (remote_addr k) (local_port k) (seq_number k) (ack_number k) c"
  have h: "h = create_control_header (se_header ce) MSG_ACK (local_port l) (remote_addr k) (remote_port l) (seq_number k) (seq_number l) c"
    by (simp add: h_def kl)
  have fr: "m = fragment_of m 0" using assms(8) by (simp add: fragment_of_def)
  obtain c1 al where st: "minisocket_send p (Some m) (int (length m)) c = Inr (At (Send_mutex p m (int (length m))), c)"
    "proceed ce (At (Send_mutex p m (int (length m)))) c = Inr (At (Send_ack p m (int (length m)) 0 h (int (length m)) 100 al), c1)"
    "wire c1 = wire c @ [(network_address_to_sockaddr (remote_addr k), h @ m)]"
    "at_sock c1 p (k\<lparr>ack_flag := 0, seq_number := seq_number k + of_nat (length m)\<rparr>)"
    "alarms_are [al] c1" "ports c1 = ports c" "local_host c1 = local_host c" "counts c1 = (counts c)(send_receive_mutex k \<mapsto> yk - 1)"
    by (rule send_starts [OF kl(1) assms(2,7) refl yk fr h_def])
  have w1: "last (wire c1) = (network_address_to_sockaddr (local_host s), h @ m)" by (simp add: st(3) kl(3))
  have pl: "0 \<le> remote_port l" "remote_port l < 65536" using ik kl(6) by simp_all
  obtain s1 q1 x where d1: "deliver se a1 junk c1 s = Inr s1"
    "at_sock s1 q (l\<lparr>sk_data := q1, ack_number := ack_number l + of_nat (length m), ack_flag := (if ack_flag l = 0 then 1 else ack_flag l)\<rparr>)"
    "oq_items q1 = [a1]" "packets s1 a1 = Some x" "buffer x = h @ m @ junk"
    "counts s1 = (counts s)(data_ready l \<mapsto> xl + 1, wait_for_ack l \<mapsto> (if ack_flag l = 0 then wl + 1 else wl))"
    "alarms_are [] s1" "ports s1 = ports s" "local_host s1 = local_host s"
    by (rule deliver_open [OF _ _ _ _ _ pl kl(5) dl cl assms(4,2,3) _ h w1, where junk = junk]) (use il assms(7) in auto)
  define l1 where "l1 = l\<lparr>sk_data := q1, ack_number := ack_number l + of_nat (length m), ack_flag := (if ack_flag l = 0 then 1 else ack_flag l)\<rparr>"
  have l1: "socket_state l1 = OPEN" "local_port l1 = local_port l" "remote_port l1 = remote_port l" "remote_addr l1 = local_host c"
    "data_ready l1 = data_ready l" "wait_for_ack l1 = wait_for_ack l" "seq_number l1 = seq_number l" "sk_data l1 = q1"
    "ack_number l1 = ack_number l + of_nat (length m)"
    using il kl(5) by (simp_all add: l1_def)
  have c1: "counts s1 (data_ready l1) = Some (xl + 1)" "0 \<le> xl + 1"
    "counts s1 (wait_for_ack l1) = Some (if ack_flag l = 0 then wl + 1 else wl)" "0 \<le> (if ack_flag l = 0 then wl + 1 else wl)"
    using cl(2,4) dl by (auto simp: d1(6) l1)
  have w2: "last (wire c1) = (network_address_to_sockaddr (local_host s1), h @ m)" by (simp add: w1 d1(9))
  have pl1: "ports s1 (local_port l1) = q" "0 \<le> local_port l1" "local_port l1 < 65536" "0 \<le> remote_port l1" "remote_port l1 < 65536"
    using il pl by (simp_all add: l1 d1(8))
  have dl1: "distinct [NULL, data_ready l1, wait_for_ack l1]" using dl by (simp add: l1)
  obtain s2 q2 y where d2: "deliver se a2 junk c1 s1 = Inr s2"
    "at_sock s2 q (l1\<lparr>sk_data := q2, ack_number := ack_number l1 + of_nat (length m), ack_flag := (if ack_flag l1 = 0 then 1 else ack_flag l1)\<rparr>)"
    "oq_items q2 = [a1, a2]" "packets s2 a2 = Some y" "buffer y = h @ m @ junk"
    by (rule deliver_open [OF d1(2) [folded l1_def] l1(1) pl1 l1(4) dl1 c1 assms(5,2,3) d1(7) h [folded l1(2,3,7)] w2, where junk = junk])
      (use assms(7) d1(3) in \<open>auto simp: l1(8)\<close>)
  show ?thesis
    by (intro exI [of _ c1] exI [of _ "Send_ack p m (int (length m)) 0 h (int (length m)) 100 al"] exI [of _ s1] exI [of _ s2]
        exI [of _ "k\<lparr>ack_flag := 0, seq_number := seq_number k + of_nat (length m)\<rparr>"]
        exI [of _ "l1\<lparr>sk_data := q2, ack_number := ack_number l1 + of_nat (length m), ack_flag := (if ack_flag l1 = 0 then 1 else ack_flag l1)\<rparr>"]
        exI [of _ x] exI [of _ y])
      (use st(2,4) d1(1,4,5) d2 kl(7) in \<open>simp add: at_sock_def l1(9)\<close>)
qed

section \<open>Examples\<close>

text \<open>Two machines at the addresses \<open>(1, 2)\<close> and \<open>(3, 4)\<close>, with no sockets yet.\<close>

definition fresh_host :: "netaddr \<Rightarrow> socks" where
  "fresh_host ad = (conn [] sock80)\<lparr>alarm_queue := Some queue_new, alarms := Map.empty, sockets := Map.empty, packets := Map.empty,
     ports := (\<lambda>i. NULL), n_client_ports := 32768, local_host := ad, ports_mutex := 1\<rparr>"

lemma good_env_works: "works good_env"
  by (simp add: works_def good_env_def plain_env_def mini_header_reliable_size_def)

lemma fresh_host_simps [simp]: "ports (fresh_host ad) i = NULL" "n_client_ports (fresh_host ad) = 32768" "sock_brk (fresh_host ad) = 2"
  "local_host (fresh_host ad) = ad"
  by (simp_all add: fresh_host_def conn_def armed_def one_running_def kernel.defs system.defs net.defs msg.defs)

lemma fresh_host_opens: "can_open (fresh_host ad)"
proof -
  have q: "q_entries queue_new = []" by simp
  have "pending (fresh_host ad) = []" by (simp add: pending_def fresh_host_def)
  moreover have "alarm_inv (fresh_host ad)" using conn_inv(2) [of "[]" sock80]
    by (simp add: alarm_inv_def fresh_host_def pending_def)
  moreover have "sem_brk (fresh_host ad) = 4" "ports_mutex (fresh_host ad) = 1" "\<not> synthetic_network (fresh_host ad)"
    "sems (fresh_host ad) 1 = Some \<lparr>s_count = 1, wait_list = Some queue_new\<rparr>"
    by (simp_all add: fresh_host_def conn_def armed_def one_running_def kernel.defs system.defs net.defs msg.defs)
  ultimately show ?thesis by (simp add: can_open_def alarms_are_def counts_def)
qed

theorem connection_established_witness:
  "\<exists>s' c'. handshake good_env good_env 80 7 8 9 [] (fresh_host (3, 4)) (fresh_host (1, 2)) =
      Inr (Finished (Socket 2 None), Finished (Socket 2 None), s', c') \<and> connected 2 2 c' s'"
  using connection_established [OF fresh_host_opens fresh_host_opens good_env_works good_env_works, of 80 "(3, 4)" "(1, 2)" 7 8 9 "[]"]
  by simp

text \<open>Two connected sockets, each machine as \<open>conn\<close> with no packet and no alarm.\<close>

definition peer80 :: minisocket where
  "peer80 = sock80\<lparr>sk_data := Some queue_new\<rparr>"

definition near :: socks where
  "near = (fresh_host (3, 4))\<lparr>sockets := [1 \<mapsto> peer80], ports := (\<lambda>i. NULL)(80 := 1),
     sems := (sems (fresh_host (3, 4)))(3 \<mapsto> \<lparr>s_count = 1, wait_list = Some queue_new\<rparr>)\<rparr>"

definition far :: socks where
  "far = (fresh_host (1, 2))\<lparr>sockets := [1 \<mapsto> peer80\<lparr>local_port := 40000, remote_addr := (3, 4), remote_port := 80, seq_number := 2, ack_number := 1\<rparr>],
     ports := (\<lambda>i. NULL)(40000 := 1), sems := (sems (fresh_host (1, 2)))(3 \<mapsto> \<lparr>s_count = 1, wait_list = Some queue_new\<rparr>)\<rparr>"

lemma near_far_connected: "connected 1 1 far near"
proof -
  have a: "alarms_are [] far" "alarms_are [] near"
    using fresh_host_opens [of "(1, 2)"] fresh_host_opens [of "(3, 4)"]
    by (simp_all add: can_open_def alarms_are_def alarm_inv_def pending_def far_def near_def)
  have s: "sems (fresh_host ad) = sems (conn [] sock80)" for ad by (simp add: fresh_host_def)
  have "idle 1 (peer80\<lparr>local_port := 40000, remote_addr := (3, 4), remote_port := 80, seq_number := 2, ack_number := 1\<rparr>) far" "idle 1 peer80 near"
    using a by (simp_all add: idle_def at_sock_def peer80_def far_def near_def counts_def s)
  then show ?thesis unfolding connected_def
    by (intro exI conjI) (assumption | simp add: far_def near_def peer80_def)+
qed


theorem duplicate_accepted_witness:
  "\<exists>c1 w s1 s2 l. proceed good_env (At (Send_mutex 1 [10, 20] 2)) far = Inr (At w, c1) \<and>
    deliver good_env 7 [] c1 near = Inr s1 \<and> deliver good_env 8 [] c1 s1 = Inr s2 \<and>
    sockets s2 1 = Some l \<and> oq_items (sk_data l) = [7, 8]"
  using duplicate_accepted [OF near_far_connected good_env_works good_env_works, of 7 8 "[10, 20]" "[]"]
  by (fastforce simp: mini_header_reliable_size_def)

end
