(* ===== verification/Mersenne.thy ===== *)
theory Mersenne
  imports Prelude
begin

text \<open>
  \<^verbatim>\<open>src/P1-P4/random.c\<close>: the Mersenne Twister MT19937 that decides which packets the synthetic network loses
  and duplicates. The state vector holds \<open>unsigned long\<close>s of 64 bits, and \<open>genrand\<close> makes its 624 words in place, in three
  loops. The theorems compare it with the recurrence of the generator over 32-bit words. The division by which \<open>genrand\<close> turns its
  word into a \<open>double\<close> is not modelled: \<open>genrand\<close> here returns the word.
\<close>

unbundle bit_operations_syntax

section \<open>State and operations\<close>

abbreviation (input) MT_N :: nat where "MT_N \<equiv> 624"
abbreviation (input) MT_M :: nat where "MT_M \<equiv> 397"
abbreviation (input) MATRIX_A :: "64 word" where "MATRIX_A \<equiv> 0x9908b0df"
abbreviation (input) UPPER_MASK :: "64 word" where "UPPER_MASK \<equiv> 0x80000000"
abbreviation (input) LOWER_MASK :: "64 word" where "LOWER_MASK \<equiv> 0x7fffffff"

record rng =
  mt :: "64 word list"
  mti :: nat

definition rng_start :: rng where
  "rng_start = \<lparr>mt = replicate MT_N 0, mti = MT_N + 1\<rparr>"

function seed_loop :: "rng \<Rightarrow> rng" where
  "seed_loop g = (if mti g < MT_N
     then seed_loop (g\<lparr>mt := (mt g)[mti g := (69069 * mt g ! (mti g - 1)) AND 0xffffffff], mti := mti g + 1\<rparr>)
     else g)"
  by pat_completeness auto
termination by (relation "measure (\<lambda>g. MT_N - mti g)") auto

definition sgenrand :: "64 word \<Rightarrow> rng \<Rightarrow> rng" where
  "sgenrand seed g = seed_loop (g\<lparr>mt := (mt g)[0 := seed AND 0xffffffff], mti := 1\<rparr>)"

definition mag01 :: "64 word \<Rightarrow> 64 word" where
  "mag01 x = [0, MATRIX_A] ! unat (x AND 1)"

definition mix :: "64 word list \<Rightarrow> nat \<Rightarrow> nat \<Rightarrow> 64 word" where
  "mix v i j = (v ! i AND UPPER_MASK) OR (v ! j AND LOWER_MASK)"

function first_loop :: "nat \<Rightarrow> 64 word list \<Rightarrow> 64 word list" where
  "first_loop kk v = (if kk < MT_N - MT_M
     then let y = mix v kk (kk + 1) in first_loop (kk + 1) (v[kk := v ! (kk + MT_M) XOR (drop_bit 1 y) XOR mag01 y])
     else v)"
  by pat_completeness auto
termination by (relation "measure (\<lambda>(kk, v). MT_N - kk)") auto

function second_loop :: "nat \<Rightarrow> 64 word list \<Rightarrow> 64 word list" where
  "second_loop kk v = (if kk < MT_N - 1
     then let y = mix v kk (kk + 1) in second_loop (kk + 1) (v[kk := v ! (kk - (MT_N - MT_M)) XOR (drop_bit 1 y) XOR mag01 y])
     else v)"
  by pat_completeness auto
termination by (relation "measure (\<lambda>(kk, v). MT_N - kk)") auto

text \<open>The block under \<open>mti >= N\<close>.\<close>

definition generate :: "rng \<Rightarrow> rng" where
  "generate g0 =
     (let g = (if mti g0 = MT_N + 1 then sgenrand 4357 g0 else g0);
          v = second_loop (MT_N - MT_M) (first_loop 0 (mt g));
          y = mix v (MT_N - 1) 0
      in \<lparr>mt = v[MT_N - 1 := v ! (MT_M - 1) XOR (drop_bit 1 y) XOR mag01 y], mti = 0\<rparr>)"

definition temper :: "64 word \<Rightarrow> 64 word" where
  "temper y0 =
     (let y1 = y0 XOR drop_bit 11 y0;
          y2 = y1 XOR (push_bit 7 y1 AND 0x9d2c5680);
          y3 = y2 XOR (push_bit 15 y2 AND 0xefc60000)
      in y3 XOR drop_bit 18 y3)"

definition genrand :: "rng \<Rightarrow> 64 word \<times> rng" where
  "genrand g0 = (let g = (if MT_N \<le> mti g0 then generate g0 else g0) in (temper (mt g ! mti g), g\<lparr>mti := mti g + 1\<rparr>))"

text \<open>\<open>scaled\<close> is the word that comes back from the \<open>double\<close>; a remainder by 0 traps.\<close>

definition genintrand :: "(64 word \<Rightarrow> 64 word) \<Rightarrow> 32 word \<Rightarrow> rng \<Rightarrow> (32 word \<times> rng) res" where
  "genintrand scaled maxval g = assertR (maxval \<noteq> 0)
     (let (y, g1) = genrand g in Inr (ucast (scaled y mod ucast maxval + 1), g1))"

fun draws :: "nat \<Rightarrow> rng \<Rightarrow> 64 word list" where
  "draws 0 g = []"
| "draws (Suc n) g = (let (y, g1) = genrand g in y # draws n g1)"

section \<open>The generator over 32-bit words\<close>

definition twist :: "32 word \<Rightarrow> 32 word \<Rightarrow> 32 word" where
  "twist a b = (let y = (a AND 0x80000000) OR (b AND 0x7fffffff) in drop_bit 1 y XOR (if y AND 1 = 0 then 0 else 0x9908b0df))"

definition tempered :: "32 word \<Rightarrow> 32 word" where
  "tempered y0 =
     (let y1 = y0 XOR drop_bit 11 y0;
          y2 = y1 XOR (push_bit 7 y1 AND 0x9d2c5680);
          y3 = y2 XOR (push_bit 15 y2 AND 0xefc60000)
      in y3 XOR drop_bit 18 y3)"

fun twister :: "32 word \<Rightarrow> nat \<Rightarrow> 32 word" where
  "twister seed k = (if k < 624 then 69069 ^ k * seed
     else twister seed (k - 227) XOR twist (twister seed (k - 624)) (twister seed (k - 623)))"

declare twister.simps [simp del] seed_loop.simps [simp del] first_loop.simps [simp del] second_loop.simps [simp del]

section \<open>Words\<close>

lemma and_mask_cast: "x AND ucast (m :: 32 word) = (ucast (ucast x AND m) :: 64 word)"
  by (rule bit_word_eqI) (auto simp: bit_simps dest: bit_imp_le_length)

lemma masks: "(0x80000000 :: 64 word) = ucast (0x80000000 :: 32 word)" "(0x7fffffff :: 64 word) = ucast (0x7fffffff :: 32 word)"
  "(0xffffffff :: 64 word) = ucast (0xffffffff :: 32 word)" "(0x9908b0df :: 64 word) = ucast (0x9908b0df :: 32 word)"
  "(0x9d2c5680 :: 64 word) = ucast (0x9d2c5680 :: 32 word)" "(0xefc60000 :: 64 word) = ucast (0xefc60000 :: 32 word)"
  by simp_all

lemma cast_xor: "(ucast (a :: 32 word) :: 64 word) XOR ucast b = ucast (a XOR b)"
  by (simp add: unsigned_xor_eq)

lemma cast_drop: "drop_bit n (ucast (a :: 32 word) :: 64 word) = ucast (drop_bit n a)"
  by (rule bit_word_eqI) (auto simp: bit_simps dest: bit_imp_le_length)

lemma cast_push: "ucast (push_bit n (ucast (a :: 32 word) :: 64 word)) = push_bit n a"
  by (rule bit_word_eqI) (auto simp: bit_simps)

lemma cast_cast [simp]: "(ucast (ucast (a :: 32 word) :: 64 word) :: 32 word) = a"
  by (rule bit_word_eqI) (auto simp: bit_simps)

lemma times_low: "take_bit 32 (69069 * take_bit 32 (a :: int)) = take_bit 32 (69069 * a)"
  using take_bit_mult [of 32 69069 "take_bit 32 a"] take_bit_mult [of 32 69069 a] by simp

lemma low_mask: "x AND 0xffffffff = (ucast (ucast x :: 32 word) :: 64 word)"
proof -
  have m: "(0xffffffff :: 64 word) = mask 32" by (simp add: mask_eq_exp_minus_1)
  show ?thesis unfolding m by (rule bit_word_eqI) (auto simp: bit_simps)
qed

lemma seed_step: "(69069 * ucast (a :: 32 word)) AND 0xffffffff = (ucast (69069 * a) :: 64 word)"
proof -
  have "(ucast (69069 * (ucast a :: 64 word)) :: 32 word) = 69069 * a"
    by transfer (simp add: times_low)
  then show ?thesis by (simp only: low_mask)
qed

lemma temper_cast: "temper (ucast a) = ucast (tempered a)"
  by (simp only: temper_def tempered_def Let_def masks and_mask_cast cast_drop cast_xor cast_push)

lemma twist_cast:
  fixes v :: "64 word list"
  assumes "v ! i = ucast a" "v ! j = ucast b"
  shows "drop_bit 1 (mix v i j) XOR mag01 (mix v i j) = ucast (twist a b)"
proof -
  define y where "y = (a AND 0x80000000) OR (b AND 0x7fffffff)"
  have m: "mix v i j = ucast y"
    unfolding mix_def assms masks and_mask_cast cast_cast unsigned_or_eq [symmetric] y_def ..
  have b: "mag01 (ucast y) = ucast (if y AND 1 = 0 then 0 else 0x9908b0df :: 32 word)"
  proof -
    have "(ucast y :: 64 word) AND 1 = ucast (y AND 1)" using and_mask_cast [of "ucast y" 1] by simp
    moreover have "y AND 1 = 0 \<or> y AND 1 = 1" by (simp add: and_one_eq mod_2_eq_odd)
    ultimately show ?thesis by (auto simp: mag01_def)
  qed
  show ?thesis by (simp only: m b cast_drop cast_xor twist_def Let_def y_def [symmetric])
qed

section \<open>The loops\<close>

text \<open>\<open>mixed f m k v\<close>: the first \<open>k\<close> words of \<open>v\<close> are those from \<open>m + 624\<close> on, the others still those from \<open>m\<close> on.\<close>

definition mixed :: "(nat \<Rightarrow> 32 word) \<Rightarrow> nat \<Rightarrow> nat \<Rightarrow> 64 word list \<Rightarrow> bool" where
  "mixed f m k v \<longleftrightarrow> length v = 624 \<and> (\<forall>i<624. v ! i = ucast (f (if i < k then m + 624 + i else m + i)))"

lemma twister_rec: "twister seed (k + 624) = twister seed (k + 397) XOR twist (twister seed k) (twister seed (k + 1))"
proof -
  have "k + 624 - 227 = k + 397" "k + 624 - 623 = k + 1" by arith+
  then show ?thesis by (subst twister.simps) (simp add: add.commute)
qed

text \<open>One word is replaced; \<open>src\<close> is where the code finds the word 397 places on.\<close>

lemma mixed_step:
  assumes "mixed (twister seed) m k v" "k < 624" "src = (k + 397) mod 624" "nx = (k + 1) mod 624"
  shows "mixed (twister seed) m (Suc k) (v[k := v ! src XOR drop_bit 1 (mix v k nx) XOR mag01 (mix v k nx)])"
proof -
  have at: "v ! i = ucast (twister seed (if i < k then m + 624 + i else m + i))" if "i < 624" for i
    using assms(1) that by (simp add: mixed_def)
  have src: "v ! src = ucast (twister seed (m + k + 397))"
  proof (cases "k + 397 < 624")
    case True
    then show ?thesis using at [of "k + 397"] by (simp add: assms(3) add_ac)
  next
    case False
    then have "src = k - 227" "k - 227 < 624" using assms(2) by (simp_all add: assms(3) mod_if)
    then show ?thesis using at [of "k - 227"] False assms(2) by (simp add: add_ac)
  qed
  have a: "v ! k = ucast (twister seed (m + k))" using at [of k] assms(2) by simp
  have b: "v ! nx = ucast (twister seed (m + k + 1))"
  proof (cases "k = 623")
    case True
    then show ?thesis using at [of 0] by (simp add: assms(4) add.commute)
  next
    case False
    then show ?thesis using at [of "k + 1"] assms(2) by (simp add: assms(4))
  qed
  have "v ! src XOR drop_bit 1 (mix v k nx) XOR mag01 (mix v k nx) = ucast (twister seed (m + k + 397)) XOR ucast (twist (twister seed (m + k)) (twister seed (m + k + 1)))"
    using twist_cast [OF a b] by (simp only: src xor.assoc)
  also have "\<dots> = ucast (twister seed (m + 624 + k))"
    using twister_rec [of seed "m + k"] by (simp only: cast_xor) (simp add: add_ac)
  finally show ?thesis using assms(1,2) by (auto simp: mixed_def nth_list_update less_Suc_eq)
qed

lemma first_loop_ok:
  assumes "mixed (twister seed) m k v" "k \<le> 227"
  shows "mixed (twister seed) m 227 (first_loop k v)"
  using assms
proof (induction k v rule: first_loop.induct)
  case (1 k v)
  show ?case
  proof (cases "k < 227")
    case True
    have "mixed (twister seed) m (Suc k) (v[k := v ! (k + 397) XOR drop_bit 1 (mix v k (k + 1)) XOR mag01 (mix v k (k + 1))])"
      by (rule mixed_step [OF 1(2)]) (use True in simp_all)
    then show ?thesis using 1(1) True by (subst first_loop.simps) (simp add: Let_def)
  next
    case False
    then show ?thesis using 1(2,3) by (subst first_loop.simps) simp
  qed
qed

lemma second_loop_ok:
  assumes "mixed (twister seed) m k v" "227 \<le> k" "k \<le> 623"
  shows "mixed (twister seed) m 623 (second_loop k v)"
  using assms
proof (induction k v rule: second_loop.induct)
  case (1 k v)
  show ?case
  proof (cases "k < 623")
    case True
    have "mixed (twister seed) m (Suc k) (v[k := v ! (k - 227) XOR drop_bit 1 (mix v k (k + 1)) XOR mag01 (mix v k (k + 1))])"
      by (rule mixed_step [OF 1(2)]) (use True 1(3) in \<open>simp_all add: mod_if\<close>)
    then show ?thesis using 1(1,3) True by (subst second_loop.simps) (simp add: Let_def)
  next
    case False
    then show ?thesis using 1(2,4) by (subst second_loop.simps) simp
  qed
qed

lemma generate_ok:
  assumes "mixed (twister seed) m 0 (mt g)" "mti g \<noteq> 625"
  shows "mixed (twister seed) (m + 624) 0 (mt (generate g))" "mti (generate g) = 0"
proof -
  define v where "v = second_loop 227 (first_loop 0 (mt g))"
  have v: "mixed (twister seed) m 623 v"
    using second_loop_ok [OF first_loop_ok [OF assms(1)]] by (simp add: v_def)
  have "mixed (twister seed) m 624 (v[623 := v ! 396 XOR drop_bit 1 (mix v 623 0) XOR mag01 (mix v 623 0)])"
    using mixed_step [OF v, of 396 0] by simp
  then show "mixed (twister seed) (m + 624) 0 (mt (generate g))" "mti (generate g) = 0"
    using assms(2) by (simp_all add: generate_def Let_def v_def mixed_def)
qed

lemma seed_loop_ok:
  assumes "1 \<le> mti g" "mti g \<le> 624" "length (mt g) = 624" "\<forall>i<mti g. mt g ! i = ucast (twister seed i)"
  shows "mixed (twister seed) 0 0 (mt (seed_loop g)) \<and> mti (seed_loop g) = 624"
  using assms
proof (induction g rule: seed_loop.induct)
  case (1 g)
  show ?case
  proof (cases "mti g < 624")
    case True
    obtain j where j: "mti g = Suc j" using 1(2) by (cases "mti g") auto
    have "(69069 * mt g ! j) AND 0xffffffff = ucast (69069 * twister seed j)" using 1(5) j by (simp add: seed_step)
    also have "69069 * twister seed j = twister seed (Suc j)" using True j by (simp add: twister.simps)
    finally have "\<forall>i<Suc (Suc j). (mt g)[Suc j := (69069 * mt g ! j) AND 0xffffffff] ! i = ucast (twister seed i)"
      using 1(4,5) True j by (auto simp: nth_list_update less_Suc_eq)
    then show ?thesis using 1(1) [OF True] 1(4) True j by (subst (1 2) seed_loop.simps) simp
  next
    case False
    then show ?thesis using 1(3-5) by (subst (1 2) seed_loop.simps) (simp add: mixed_def)
  qed
qed

text \<open>After \<open>n\<close> draws: \<open>b\<close> blocks were made and \<open>mti\<close> words of the last one used.\<close>

definition drawn :: "32 word \<Rightarrow> nat \<Rightarrow> rng \<Rightarrow> bool" where
  "drawn seed n g \<longleftrightarrow> (\<exists>b. mixed (twister seed) (624 * b) 0 (mt g) \<and> mti g \<le> 624 \<and> 624 * b + mti g = 624 + n)"

lemma sgenrand_drawn:
  assumes "length (mt g) = 624"
  shows "drawn (ucast seed) 0 (sgenrand seed g)"
proof -
  show ?thesis
    using seed_loop_ok [of "g\<lparr>mt := (mt g)[0 := seed AND 0xffffffff], mti := 1\<rparr>" "ucast seed"] assms
    unfolding drawn_def sgenrand_def low_mask by (intro exI [of _ 0]) (simp add: twister.simps nth_list_update)
qed

lemma genrand_ok:
  assumes "drawn seed n g"
  obtains g1 where "genrand g = (ucast (tempered (twister seed (624 + n))), g1)" "drawn seed (Suc n) g1"
proof -
  obtain b where b: "mixed (twister seed) (624 * b) 0 (mt g)" "mti g \<le> 624" "624 * b + mti g = 624 + n"
    using assms by (auto simp: drawn_def)
  define h where "h = (if 624 \<le> mti g then generate g else g)"
  obtain b' where h: "mixed (twister seed) (624 * b') 0 (mt h)" "mti h < 624" "624 * b' + mti h = 624 + n"
  proof (cases "mti g = 624")
    case True
    then show thesis using that [of "Suc b"] generate_ok [OF b(1)] b(3) by (simp add: h_def add.commute)
  next
    case False
    then show thesis using that [of b] b by (simp add: h_def)
  qed
  have "mt h ! mti h = ucast (twister seed (624 + n))" using h by (simp add: mixed_def)
  then have "genrand g = (ucast (tempered (twister seed (624 + n))), h\<lparr>mti := mti h + 1\<rparr>)"
    by (simp add: genrand_def flip: h_def) (simp add: Let_def temper_cast)
  moreover have "drawn seed (Suc n) (h\<lparr>mti := mti h + 1\<rparr>)" using h by (auto simp: drawn_def)
  ultimately show thesis by (rule that)
qed

lemma draws_ok:
  assumes "drawn seed n g"
  shows "draws k g = map (\<lambda>i. ucast (tempered (twister seed (624 + n + i)))) [0..<k]"
  using assms
proof (induction k arbitrary: n g)
  case 0
  then show ?case by simp
next
  case (Suc k)
  obtain g1 where g1: "genrand g = (ucast (tempered (twister seed (624 + n))), g1)" "drawn seed (Suc n) g1"
    using genrand_ok [OF Suc.prems] .
  have "map (\<lambda>i. ucast (tempered (twister seed (624 + n + i))) :: 64 word) [0..<Suc k] =
      ucast (tempered (twister seed (624 + n))) # map (\<lambda>i. ucast (tempered (twister seed (624 + Suc n + i)))) [0..<k]"
    by (simp add: upt_conv_Cons map_Suc_upt [symmetric] add_ac del: upt_Suc)
  then show ?case using g1 Suc.IH [OF g1(2)] by (simp del: upt_Suc)
qed

text \<open>A generator that was never seeded starts with the seed 4357.\<close>

lemma seed_loop_mti: "mti g \<le> 624 \<Longrightarrow> mti (seed_loop g) = 624"
  by (induction g rule: seed_loop.induct) (subst seed_loop.simps, simp)

lemma unseeded_draws:
  assumes "mti g = 625"
  shows "draws n g = draws n (sgenrand 4357 g)"
proof -
  have "mti (sgenrand 4357 g) = 624" unfolding sgenrand_def by (rule seed_loop_mti) simp
  then have "genrand g = genrand (sgenrand 4357 g)" using assms by (simp add: genrand_def generate_def Let_def)
  then show ?thesis by (cases n) simp_all
qed

section \<open>Properties\<close>

text \<open>
  C29: the words drawn after \<open>sgenrand seed\<close> are the tempered words 624, 625, ... of the recurrence
  \<open>x (k + 624) = x (k + 397) XOR twist (x k) (x (k + 1))\<close> over 32-bit words, which starts from the powers of 69069 times the seed; that the
  code keeps them in 64 bits and makes 624 at a time in place does not show.
\<close>

theorem genrand_is_mt19937:
  assumes "length (mt g) = 624"
  shows "draws n (sgenrand seed g) = map (\<lambda>i. ucast (tempered (twister (ucast seed) (624 + i)))) [0..<n]"
  using draws_ok [OF sgenrand_drawn [OF assms]] by simp

text \<open>
  C0: \<open>genintrand maxval\<close> is between 1 and \<open>maxval\<close>, whatever the rounding of the \<open>double\<close> in between, and for 0 it traps.
\<close>

theorem genintrand_in_range:
  shows "if maxval = 0 then genintrand scaled maxval g = Inl Assert_failed
    else \<exists>r g1. genintrand scaled maxval g = Inr (r, g1) \<and> 1 \<le> r \<and> r \<le> maxval"
proof (cases "maxval = 0")
  case True
  then show ?thesis by (simp add: genintrand_def)
next
  case False
  obtain y g1 where y: "genrand g = (y, g1)" by force
  define u where "u = unat (scaled y) mod unat maxval"
  have pos: "0 < unat maxval" using False by (simp add: unat_gt_0)
  then have u: "u < unat maxval" by (simp add: u_def)
  have "unat maxval < 2 ^ LENGTH(32)" by (rule unsigned_less)
  with u have lt: "u + 1 < 4294967296" by simp
  have m: "unat (ucast maxval :: 64 word) = unat maxval"
    using \<open>unat maxval < 2 ^ LENGTH(32)\<close> by (simp add: unsigned_ucast_eq take_bit_nat_eq_self)
  have "scaled y mod ucast maxval = (of_nat u :: 64 word)"
    by (rule word_unat_eq_iff [THEN iffD2]) (use lt in \<open>simp add: unat_mod m unat_of_nat u_def\<close>)
  then have "scaled y mod ucast maxval + 1 = (of_nat (u + 1) :: 64 word)" by simp
  moreover have "ucast (of_nat (u + 1) :: 64 word) = (of_nat (u + 1) :: 32 word)"
    using lt by (simp add: word_unat_eq_iff unsigned_ucast_eq unat_of_nat take_bit_nat_eq_self del: of_nat_Suc of_nat_add)
  ultimately have "ucast (scaled y mod ucast maxval + 1) = (of_nat (u + 1) :: 32 word)" by (simp only:)
  moreover have "1 \<le> (of_nat (u + 1) :: 32 word)" "of_nat (u + 1) \<le> maxval"
    using lt u by (simp_all add: word_le_nat_alt unat_of_nat take_bit_nat_eq_self del: of_nat_Suc of_nat_add)
  ultimately show ?thesis using False y by (simp add: genintrand_def)
qed

section \<open>Witnesses\<close>

text \<open>The first word drawn after the seed 1, computed by the code's model.\<close>

theorem genrand_is_mt19937_witness:
  "draws 3 (sgenrand 1 rng_start) = map (\<lambda>i. ucast (tempered (twister 1 (624 + i)))) [0..<3]"
  using genrand_is_mt19937 [of rng_start 3 1] by (simp add: rng_start_def del: draws.simps twister.simps)

end
