(* ===== verification/Broadcast.thy ===== *)
theory Broadcast
  imports Network Addr
begin

text \<open>
  The broadcast half of \<^verbatim>\<open>src/P1-P4/network.c\<close>: the topology file, the broadcast of a packet over the links of the table, and the
  printing of an address. The switches \<open>BCAST_ENABLED\<close>, \<open>BCAST_USE_TOPOLOGY_FILE\<close> and \<open>BCAST_LOOPBACK\<close>, constants of the
  source that are all 0, are the record \<open>bcast_config\<close>.
\<close>

section \<open>Operations\<close>

abbreviation (input) BCAST_MAX_LINE_LEN :: nat where "BCAST_MAX_LINE_LEN \<equiv> 128"
abbreviation (input) BCAST_MAX_NAME_LEN :: nat where "BCAST_MAX_NAME_LEN \<equiv> 64"
abbreviation (input) NUL :: char where "NUL \<equiv> CHR 0x00"
abbreviation (input) NL :: char where "NL \<equiv> CHR 0x0A"
abbreviation (input) CR :: char where "CR \<equiv> CHR 0x0D"

record bcast_config =
  bc_enabled :: bool
  bc_topology_file :: bool
  bc_loopback :: bool

definition as_compiled :: bcast_config where
  "as_compiled = \<lparr>bc_enabled = False, bc_topology_file = False, bc_loopback = False\<rparr>"

text \<open>The two rates are the probabilities of the outcomes \<open>lost\<close> and \<open>dup\<close> that the sending operations take.\<close>

definition network_synthetic_params :: "'z net_scheme \<Rightarrow> 'z net_scheme" where
  "network_synthetic_params s = s\<lparr>synthetic_network := True\<rparr>"

text \<open>\<open>buf\<close> is the caller's buffer; a write beyond it is the fault.\<close>

definition network_format_address :: "netaddr \<Rightarrow> string \<Rightarrow> int \<Rightarrow> (int \<times> string) res" where
  "network_format_address address buf len =
     (let textaddr = inet_ntoa (fst address);
          written = textaddr @ '':'' @ decimal (unat (htons (ucast (snd address)))) @ [NUL]
      in if len \<ge> int (length textaddr) + 5
         then if length written \<le> length buf then Inr (0, written @ drop (length written) buf) else Inl Out_of_bounds
         else Inr (- 1, buf))"

text \<open>What \<open>network_printaddr\<close> prints from its buffer of 40 bytes; \<open>junk\<close> is what the buffer held.\<close>

definition network_printaddr :: "netaddr \<Rightarrow> string \<Rightarrow> string res" where
  "network_printaddr addr junk = bindR (network_format_address addr junk 40) (\<lambda>(r, name). Inr (takeWhile (\<lambda>c. c \<noteq> NUL) name))"

text \<open>
  The topology file is the list of the lines that \<open>fgets\<close> returns, each with its newline. \<open>buf\<close> is the array \<open>line\<close>, which keeps what
  longer lines left in it.
\<close>

definition fgets :: "string \<Rightarrow> string \<Rightarrow> string" where
  "fgets line buf = line @ NUL # drop (Suc (length line)) buf"

fun host_lines ::
  "netenv \<Rightarrow> 32 word \<Rightarrow> 'z net_scheme \<Rightarrow> nat \<Rightarrow> string list \<Rightarrow> string \<Rightarrow> bcast \<Rightarrow> (bcast \<times> nat \<times> string list option \<times> string) res" where
  "host_lines env ip s i [] buf b = Inr (b, i, None, buf)"
| "host_lines env ip s i (line # rest) buf b =
     (if line \<noteq> [] \<and> (hd line = CR \<or> hd line = NL) then Inr (b, i, Some rest, fgets line buf)
      else bindR (aget (entries b) (int i)) (\<lambda>e.
        let name = butlast line in
        if BCAST_MAX_NAME_LEN \<le> length name then Inl Out_of_bounds
        else let (r, addr) = network_translate_hostname env name (be_addr e) s;
                 b1 = b\<lparr>entries := (entries b)[i := e\<lparr>be_name := name, n_links := 0, be_addr := addr\<rparr>]\<rparr>
             in if r \<noteq> 0 then Inl Assert_failed
                else host_lines env ip s (Suc i) rest ((fgets line buf)[length line - 1 := NUL])
                       (if fst addr = ip then b1\<lparr>me := int i\<rparr> else b1)))"

fun row_loop :: "nat \<Rightarrow> nat \<Rightarrow> nat \<Rightarrow> string \<Rightarrow> bcast_entry \<Rightarrow> bcast_entry res" where
  "row_loop i j 0 buf e = Inr e"
| "row_loop i j (Suc n) buf e =
     bindR (if i = j then Inr e
            else bindR (aget buf (int j)) (\<lambda>c. if c \<noteq> CHR ''.''
              then bindR (aset (links e) (n_links e) (int j)) (\<lambda>ls. Inr (e\<lparr>links := ls, n_links := n_links e + 1\<rparr>))
              else Inr e)) (row_loop i (Suc j) n buf)"

fun matrix_rows :: "nat \<Rightarrow> nat \<Rightarrow> string list \<Rightarrow> string \<Rightarrow> bcast \<Rightarrow> bcast res" where
  "matrix_rows i 0 rows buf b = Inr b"
| "matrix_rows i (Suc n) [] buf b = Inl Assert_failed"
| "matrix_rows i (Suc n) (line # rows) buf b =
     bindR (aget (entries b) (int i)) (\<lambda>e. bindR (row_loop i 0 (nat (n_entries b)) (fgets line buf) e) (\<lambda>e'.
       matrix_rows (Suc i) n rows (fgets line buf) (b\<lparr>entries := (entries b)[i := e']\<rparr>)))"

text \<open>\<open>None\<close>: the file could not be opened, and \<open>fgets\<close> reads from a NULL stream.\<close>

definition bcast_initialize :: "netenv \<Rightarrow> string list option \<Rightarrow> string \<Rightarrow> netaddr \<Rightarrow> 'z net_scheme \<Rightarrow> bcast \<Rightarrow> bcast res" where
  "bcast_initialize env config junk my_addr0 s b =
     (let my_addr = network_get_my_address env my_addr0 s in
      case config of
        None \<Rightarrow> Inl Null_deref
      | Some ls \<Rightarrow> bindR (host_lines env (fst my_addr) s 0 ls junk b) (\<lambda>(b1, i, more, buf).
          let b2 = b1\<lparr>n_entries := int i\<rparr> in
          case more of None \<Rightarrow> Inr b2 | Some rows \<Rightarrow> matrix_rows 0 i rows buf b2))"

text \<open>\<open>lost i\<close> and \<open>dup i\<close> are the random outcomes for the \<open>i\<close>-th link. The result is whether all was sent.\<close>

fun bcast_loop ::
  "netenv \<Rightarrow> (nat \<Rightarrow> bool) \<Rightarrow> (nat \<Rightarrow> bool) \<Rightarrow> int \<Rightarrow> byte list \<Rightarrow> int \<Rightarrow> byte list \<Rightarrow> nat \<Rightarrow> nat \<Rightarrow> 'z net_scheme \<Rightarrow>
     (bool \<times> 'z net_scheme) res" where
  "bcast_loop env lost dup hdr_len hdr data_len dat i 0 s = Inr (True, s)"
| "bcast_loop env lost dup hdr_len hdr data_len dat i (Suc n) s =
     bindR (aget (entries (topology s)) (me (topology s))) (\<lambda>e. bindR (aget (links e) (int i)) (\<lambda>dest.
     if synthetic_network s \<and> lost i then bcast_loop env lost dup hdr_len hdr data_len dat (Suc i) n s
     else bindR (aget (entries (topology s)) dest) (\<lambda>d.
       bindR (if synthetic_network s \<and> dup i
              then bindR (send_pkt env (be_addr d) hdr_len hdr data_len dat s) (\<lambda>(_, s'). Inr s') else Inr s) (\<lambda>s1.
       bindR (send_pkt env (be_addr d) hdr_len hdr data_len dat s1) (\<lambda>(r, s2).
         if r \<noteq> hdr_len + data_len then Inr (False, s2)
         else bcast_loop env lost dup hdr_len hdr data_len dat (Suc i) n s2)))))"

text \<open>The last send of a branch: it decides the result. \<open>broadcast_addr\<close> stays as it was initialised, zero.\<close>

definition send_last :: "netenv \<Rightarrow> netaddr \<Rightarrow> int \<Rightarrow> byte list \<Rightarrow> int \<Rightarrow> byte list \<Rightarrow> 'z net_scheme \<Rightarrow> (int \<times> 'z net_scheme) res" where
  "send_last env dest hdr_len hdr data_len dat s =
     bindR (send_pkt env dest hdr_len hdr data_len dat s) (\<lambda>(r, s1).
       Inr (if r \<noteq> hdr_len + data_len then - 1 else hdr_len + data_len, s1))"

definition network_bcast_pkt ::
  "bcast_config \<Rightarrow> netenv \<Rightarrow> (nat \<Rightarrow> bool) \<Rightarrow> (nat \<Rightarrow> bool) \<Rightarrow> int \<Rightarrow> byte list \<Rightarrow> int \<Rightarrow> byte list \<Rightarrow> 'z net_scheme \<Rightarrow>
     (int \<times> 'z net_scheme) res" where
  "network_bcast_pkt cfg env lost dup hdr_len hdr data_len dat s = assertR (bc_enabled cfg)
     (if bc_topology_file cfg then
        bindR (aget (entries (topology s)) (me (topology s))) (\<lambda>e.
        bindR (bcast_loop env lost dup hdr_len hdr data_len dat 0 (nat (n_links e)) s) (\<lambda>(all_sent, s1).
        if \<not> all_sent then Inr (- 1, s1)
        else if bc_loopback cfg then send_last env (be_addr e) hdr_len hdr data_len dat s1
        else Inr (hdr_len + data_len, s1)))
      else send_last env (0, 0) hdr_len hdr data_len dat s)"

text \<open>
  The start of the layer: \<open>sock\<close> is what \<open>socket\<close> returned, the booleans tell whether \<open>bind\<close>, \<open>setsockopt\<close>, \<open>pthread_create\<close> and
  \<open>sigaction\<close> succeed. \<open>AbortOnError(0)\<close> always exits, so that the \<open>return -1\<close> after a failed \<open>bind\<close> is not reached. The result has the
  handler that is registered.
\<close>

definition start_network_poll :: "bool \<Rightarrow> bool \<Rightarrow> unit res" where
  "start_network_poll pthread_ok action_ok = assertR pthread_ok (assertR action_ok (Inr ()))"

definition network_initialize ::
  "bcast_config \<Rightarrow> netenv \<Rightarrow> 'h \<Rightarrow> int \<Rightarrow> bool \<Rightarrow> bool \<Rightarrow> bool \<Rightarrow> bool \<Rightarrow> string list option \<Rightarrow> string \<Rightarrow> netaddr \<Rightarrow>
     'z net_scheme \<Rightarrow> (int \<times> 'h \<times> 'z net_scheme) res" where
  "network_initialize cfg env handler sock bind_ok setsockopt_ok pthread_ok action_ok config junk my_addr0 s =
     (if sock < 0 then Inr (- 1, handler, s)
      else assertR bind_ok (assertR setsockopt_ok
        (bindR (if bc_enabled cfg
                then bindR (bcast_initialize env config junk my_addr0 s (topology s)) (\<lambda>b. Inr (s\<lparr>topology := b\<rparr>))
                else Inr s) (\<lambda>s1.
         bindR (start_network_poll pthread_ok action_ok) (\<lambda>_. Inr (0, handler, s1))))))"

definition network_add_bcast_link :: "netenv \<Rightarrow> string option \<Rightarrow> string option \<Rightarrow> 'z net_scheme \<Rightarrow> 'z net_scheme res" where
  "network_add_bcast_link env src dest s = bcast_add_link env src dest s"

definition network_remove_bcast_link :: "netenv \<Rightarrow> string option \<Rightarrow> string option \<Rightarrow> 'z net_scheme \<Rightarrow> 'z net_scheme res" where
  "network_remove_bcast_link env src dest s = bcast_remove_link env src dest s"

section \<open>Sending to the neighbours\<close>

lemma send_pkt_fits:
  assumes "0 \<le> hdr_len" "hdr_len \<le> int (length hdr)" "0 \<le> data_len" "data_len \<le> int (length dat)"
    "hdr_len + data_len \<le> MAX_NETWORK_PKT_SIZE" "pkt = take (nat hdr_len) hdr @ take (nat data_len) dat"
  shows "send_pkt env dest hdr_len hdr data_len dat s = Inr (sendto env (network_address_to_sockaddr dest) pkt,
    s\<lparr>wire := wire s @ [(network_address_to_sockaddr dest, pkt)]\<rparr>)"
  using assms by (simp add: send_pkt_def Let_def)

text \<open>The addresses behind the first \<open>n\<close> links.\<close>

definition neighbours :: "bcast \<Rightarrow> bcast_entry \<Rightarrow> netaddr list" where
  "neighbours b e = map (\<lambda>j. be_addr (entries b ! nat j)) (take (nat (n_links e)) (links e))"

definition table_ok :: "bcast \<Rightarrow> bool" where
  "table_ok b \<longleftrightarrow> 0 \<le> me b \<and> me b < int (length (entries b)) \<and>
     (\<forall>e\<in>set (entries b). links_ok e \<and> (\<forall>j\<in>link_set e. 0 \<le> j \<and> j < int (length (entries b))))"

lemma bcast_loop_ok:
  assumes "0 \<le> hdr_len" "hdr_len \<le> int (length hdr)" "0 \<le> data_len" "data_len \<le> int (length dat)"
    "hdr_len + data_len \<le> MAX_NETWORK_PKT_SIZE" "pkt = take (nat hdr_len) hdr @ take (nat data_len) dat"
    "\<forall>ad. sendto env ad pkt = hdr_len + data_len"
  shows "table_ok (topology s) \<Longrightarrow> e = entries (topology s) ! nat (me (topology s)) \<Longrightarrow> i + n = nat (n_links e) \<Longrightarrow>
    bcast_loop env lost dup hdr_len hdr data_len dat i n s = Inr (True, s\<lparr>wire := wire s @
      concat (map (\<lambda>k. if synthetic_network s \<and> lost k then []
        else replicate (if synthetic_network s \<and> dup k then 2 else 1) (network_address_to_sockaddr (neighbours (topology s) e ! k), pkt)) [i..<i + n])\<rparr>)"
proof (induction n arbitrary: i s)
  case 0
  then show ?case by simp
next
  case (Suc n)
  let ?ad = "network_address_to_sockaddr (neighbours (topology s) e ! i)"
  have me: "0 \<le> me (topology s)" "me (topology s) < int (length (entries (topology s)))" and e: "e \<in> set (entries (topology s))"
    using Suc.prems(1,2) by (auto simp: table_ok_def)
  have l: "links_ok e" "\<forall>j\<in>link_set e. 0 \<le> j \<and> j < int (length (entries (topology s)))" using Suc.prems(1) e by (auto simp: table_ok_def)
  have i: "i < nat (n_links e)" "nat (n_links e) \<le> length (links e)" using Suc.prems(3) l(1) by (auto simp: links_ok_def)
  then have d: "links e ! i \<in> link_set e" by (auto simp: link_set_def in_set_conv_nth)
  have g: "aget (entries (topology s)) (me (topology s)) = Inr e" "aget (links e) (int i) = Inr (links e ! i)"
    "aget (entries (topology s)) (links e ! i) = Inr (entries (topology s) ! nat (links e ! i))"
    using me i l(2) d Suc.prems(2) by (auto simp: aget_def)
  have nb: "neighbours (topology s) e ! i = be_addr (entries (topology s) ! nat (links e ! i))" using i by (simp add: neighbours_def)
  note sent = send_pkt_fits [OF assms(1-6)]
  define out where "out = (\<lambda>k. if synthetic_network s \<and> lost k then []
        else replicate (if synthetic_network s \<and> dup k then 2 else 1) (network_address_to_sockaddr (neighbours (topology s) e ! k), pkt))"
  have IH: "bcast_loop env lost dup hdr_len hdr data_len dat (Suc i) n (s\<lparr>wire := w\<rparr>) =
      Inr (True, s\<lparr>wire := w @ concat (map out [Suc i..<Suc i + n])\<rparr>)" for w
    using Suc.IH [of "s\<lparr>wire := w\<rparr>" "Suc i"] Suc.prems by (simp add: out_def cong: if_cong del: upt_Suc)
  have up: "[i..<i + Suc n] = i # [Suc i..<Suc i + n]" by (simp add: upt_conv_Cons del: upt_Suc)
  have two: "replicate 2 x = [x, x]" for x :: "(32 word \<times> 16 word) \<times> byte list" by (simp add: numeral_2_eq_2)
  have ok: "sendto env (network_address_to_sockaddr ad) pkt = hdr_len + data_len" for ad
    using assms(7) by (cases "network_address_to_sockaddr ad") simp
  have "bcast_loop env lost dup hdr_len hdr data_len dat i (Suc n) s =
      bcast_loop env lost dup hdr_len hdr data_len dat (Suc i) n (s\<lparr>wire := wire s @ out i\<rparr>)"
    using g by (auto simp: sent nb two ok out_def)
  then show ?case using IH [of "wire s @ out i"] unfolding up out_def by simp
qed

section \<open>Reading the topology\<close>

lemma row_loop_ok:
  assumes "i < N" "N \<le> length buf" "N \<le> length (links e0)"
  shows "j + n = N \<Longrightarrow> length (links e) = length (links e0) \<Longrightarrow>
    take (nat (n_links e)) (links e) = map int (filter (\<lambda>k. k \<noteq> i \<and> buf ! k \<noteq> CHR ''.'') [0..<j]) \<Longrightarrow>
    n_links e = int (length (filter (\<lambda>k. k \<noteq> i \<and> buf ! k \<noteq> CHR ''.'') [0..<j])) \<Longrightarrow>
    \<exists>e'. row_loop i j n buf e = Inr e' \<and> be_addr e' = be_addr e \<and> be_name e' = be_name e \<and> length (links e') = length (links e0) \<and>
      take (nat (n_links e')) (links e') = map int (filter (\<lambda>k. k \<noteq> i \<and> buf ! k \<noteq> CHR ''.'') [0..<N]) \<and>
      n_links e' = int (length (filter (\<lambda>k. k \<noteq> i \<and> buf ! k \<noteq> CHR ''.'') [0..<N]))"
proof (induction n arbitrary: j e)
  case 0
  then show ?case by simp
next
  case (Suc n)
  let ?f = "\<lambda>k. k \<noteq> i \<and> buf ! k \<noteq> CHR ''.''"
  have j: "j < N" "Suc j + n = N" using Suc.prems(1) by simp_all
  have g: "aget buf (int j) = Inr (buf ! j)" using j assms(2) by (simp add: aget_def)
  show ?case
  proof (cases "?f j")
    case False
    then show ?thesis using Suc.IH [OF j(2) Suc.prems(2)] Suc.prems(3,4) g by auto
  next
    case True
    have "length (filter ?f [0..<j]) \<le> j" using length_filter_le [of ?f "[0..<j]"] by simp
    then have lt: "n_links e < int (length (links e))" "0 \<le> n_links e" using Suc.prems(2,4) j assms(3) by simp_all
    define e1 where "e1 = e\<lparr>links := (links e)[nat (n_links e) := int j], n_links := n_links e + 1\<rparr>"
    have st: "aset (links e) (n_links e) (int j) = Inr ((links e)[nat (n_links e) := int j])" using lt by (simp add: aset_def)
    have t: "take (nat (n_links e1)) (links e1) = map int (filter ?f [0..<Suc j])"
      using lt True Suc.prems(3) by (simp add: e1_def nat_add_distrib take_Suc_conv_app_nth)
    have "length (links e1) = length (links e0)" "n_links e1 = int (length (filter ?f [0..<Suc j]))"
      using Suc.prems(2,4) True by (simp_all add: e1_def)
    from Suc.IH [OF j(2) this(1) t this(2)] True g st show ?thesis by (auto simp: e1_def)
  qed
qed

lemma matrix_rows_ok:
  assumes "N \<le> length (entries b)" "n_entries b = int N" "i + n = N" "n \<le> length rows"
    "\<forall>k<N. length (links (entries b ! k)) \<ge> N" "\<forall>k<n. N \<le> length (rows ! k)"
    "\<forall>k. i \<le> k \<and> k < N \<longrightarrow> n_links (entries b ! k) = 0"
  shows "\<exists>b'. matrix_rows i n rows buf b = Inr b' \<and> n_entries b' = n_entries b \<and> me b' = me b \<and> length (entries b') = length (entries b) \<and>
    (\<forall>k<N. be_addr (entries b' ! k) = be_addr (entries b ! k) \<and>
      (k < i \<longrightarrow> entries b' ! k = entries b ! k) \<and>
      (i \<le> k \<longrightarrow> take (nat (n_links (entries b' ! k))) (links (entries b' ! k)) =
         map int (filter (\<lambda>j. j \<noteq> k \<and> rows ! (k - i) ! j \<noteq> CHR ''.'') [0..<N])))"
  using assms
proof (induction n arbitrary: i rows buf b)
  case 0
  then show ?case by simp
next
  case (Suc n)
  obtain r rs where rows: "rows = r # rs" using Suc.prems(4) by (cases rows) auto
  let ?e = "entries b ! i"
  have i: "i < N" "Suc i + n = N" using Suc.prems(3) by simp_all
  have r: "N \<le> length r" using Suc.prems(6) rows by auto
  have buf: "N \<le> length (fgets r buf)" "\<forall>j<N. fgets r buf ! j = r ! j" using r by (auto simp: fgets_def nth_append)
  have g: "aget (entries b) (int i) = Inr ?e" using i Suc.prems(1) by (simp add: aget_def)
  obtain e' where e': "row_loop i 0 N (fgets r buf) ?e = Inr e'" "be_addr e' = be_addr ?e" "length (links e') = length (links ?e)"
    "take (nat (n_links e')) (links e') = map int (filter (\<lambda>k. k \<noteq> i \<and> fgets r buf ! k \<noteq> CHR ''.'') [0..<N])"
    using row_loop_ok [OF i(1) buf(1), of ?e 0 N ?e] Suc.prems(5,7) i(1) by auto
  have f: "filter (\<lambda>k. k \<noteq> i \<and> fgets r buf ! k \<noteq> CHR ''.'') [0..<N] = filter (\<lambda>k. k \<noteq> i \<and> r ! k \<noteq> CHR ''.'') [0..<N]"
    using buf(2) by (intro filter_cong) auto
  define b1 where "b1 = b\<lparr>entries := (entries b)[i := e']\<rparr>"
  have b1: "N \<le> length (entries b1)" "n_entries b1 = int N" "\<forall>k<N. length (links (entries b1 ! k)) \<ge> N"
    "\<forall>k. Suc i \<le> k \<and> k < N \<longrightarrow> n_links (entries b1 ! k) = 0"
    using Suc.prems(1,2,5,7) e'(3) i(1) by (auto simp: b1_def nth_list_update)
  have rs: "n \<le> length rs" "\<forall>k<n. N \<le> length (rs ! k)" using Suc.prems(4,6) rows by auto
  obtain b' where b': "matrix_rows (Suc i) n rs (fgets r buf) b1 = Inr b'" "n_entries b' = n_entries b1" "me b' = me b1"
    "length (entries b') = length (entries b1)"
    "\<And>k. k < N \<Longrightarrow> be_addr (entries b' ! k) = be_addr (entries b1 ! k)" "\<And>k. k < Suc i \<Longrightarrow> entries b' ! k = entries b1 ! k"
    "\<And>k. k < N \<Longrightarrow> Suc i \<le> k \<Longrightarrow> take (nat (n_links (entries b' ! k))) (links (entries b' ! k)) =
         map int (filter (\<lambda>j. j \<noteq> k \<and> rs ! (k - Suc i) ! j \<noteq> CHR ''.'') [0..<N])"
    using Suc.IH [OF b1(1,2) i(2) rs(1) b1(3) rs(2) b1(4), of "fgets r buf"] i(1) by (auto simp: less_trans)
  have m: "matrix_rows i (Suc n) rows buf b = Inr b'"
    using g e'(1) b'(1) Suc.prems(2) by (simp add: rows b1_def)
  have "be_addr (entries b' ! k) = be_addr (entries b ! k)" if "k < N" for k
    using b'(5) [OF that] e'(2) i(1) Suc.prems(1) by (cases "k = i") (auto simp: b1_def)
  moreover have "entries b' ! k = entries b ! k" if "k < i" for k
    using b'(6) [of k] that by (simp add: b1_def)
  moreover have "take (nat (n_links (entries b' ! k))) (links (entries b' ! k)) =
      map int (filter (\<lambda>j. j \<noteq> k \<and> rows ! (k - i) ! j \<noteq> CHR ''.'') [0..<N])" if "k < N" "i \<le> k" for k
  proof (cases "k = i")
    case True
    then show ?thesis using b'(6) [of i] e'(4) f i(1) Suc.prems(1) by (simp add: b1_def rows)
  next
    case False
    then have "k - i = Suc (k - Suc i)" using that(2) by simp
    then show ?thesis using b'(7) [OF that(1)] False that(2) by (simp add: rows)
  qed
  ultimately show ?case using m b'(2-4) by (auto simp: b1_def)
qed

text \<open>A list of hosts that fits the table, each with a name that the name service knows.\<close>

definition hosts_ok :: "netenv \<Rightarrow> 'z net_scheme \<Rightarrow> (string \<Rightarrow> netaddr) \<Rightarrow> string list \<Rightarrow> bool" where
  "hosts_ok env s addr_of ns \<longleftrightarrow> (\<forall>n\<in>set ns. n \<noteq> [] \<and> length n < 64 \<and> hd n \<noteq> CR \<and> hd n \<noteq> NL \<and>
     (\<forall>old. network_translate_hostname env n old s = (0, addr_of n)))"

lemma host_lines_ok:
  assumes "hosts_ok env s addr_of ns" "i + length ns \<le> length (entries b)"
  shows "\<exists>b' buf'. host_lines env ip s i (map (\<lambda>n. n @ [NL]) ns @ [NL] # rows) buf b = Inr (b', i + length ns, Some rows, buf') \<and>
    length (entries b') = length (entries b) \<and>
    (\<forall>k<i. entries b' ! k = entries b ! k) \<and>
    (\<forall>k<length ns. be_addr (entries b' ! (i + k)) = addr_of (ns ! k) \<and> n_links (entries b' ! (i + k)) = 0 \<and>
       links (entries b' ! (i + k)) = links (entries b ! (i + k)))"
  using assms
proof (induction ns arbitrary: i buf b)
  case Nil
  then show ?case by simp
next
  case (Cons n ns)
  have n: "n \<noteq> []" "length n < 64" "hd n \<noteq> CR" "hd n \<noteq> NL" "\<And>old. network_translate_hostname env n old s = (0, addr_of n)"
    and ns: "hosts_ok env s addr_of ns" using Cons.prems(1) by (auto simp: hosts_ok_def)
  have g: "aget (entries b) (int i) = Inr (entries b ! i)" using Cons.prems(2) by (simp add: aget_def)
  define b1 where "b1 = (let b1 = b\<lparr>entries := (entries b)[i := (entries b ! i)\<lparr>be_name := n, n_links := 0, be_addr := addr_of n\<rparr>]\<rparr>
     in if fst (addr_of n) = ip then b1\<lparr>me := int i\<rparr> else b1)"
  have en: "entries b1 = (entries b)[i := (entries b ! i)\<lparr>be_name := n, n_links := 0, be_addr := addr_of n\<rparr>]"
    by (simp add: b1_def Let_def)
  then have "Suc i + length ns \<le> length (entries b1)" using Cons.prems(2) by simp
  from Cons.IH [OF ns this] obtain b' buf' where b': "host_lines env ip s (Suc i) (map (\<lambda>n. n @ [NL]) ns @ [NL] # rows)
      ((fgets (n @ [NL]) buf)[length n := NUL]) b1 = Inr (b', Suc i + length ns, Some rows, buf')"
    "length (entries b') = length (entries b1)" "\<forall>k<Suc i. entries b' ! k = entries b1 ! k"
    "\<And>k. k < length ns \<Longrightarrow> be_addr (entries b' ! (Suc i + k)) = addr_of (ns ! k) \<and> n_links (entries b' ! (Suc i + k)) = 0 \<and>
       links (entries b' ! (Suc i + k)) = links (entries b1 ! (Suc i + k))" by blast
  have run: "host_lines env ip s i (map (\<lambda>n. n @ [NL]) (n # ns) @ [NL] # rows) buf b = Inr (b', i + length (n # ns), Some rows, buf')"
    using n g b'(1) by (simp add: b1_def Let_def)
  have "be_addr (entries b' ! (i + k)) = addr_of ((n # ns) ! k) \<and> n_links (entries b' ! (i + k)) = 0 \<and>
       links (entries b' ! (i + k)) = links (entries b ! (i + k))" if "k < length (n # ns)" for k
  proof (cases k)
    case 0
    then show ?thesis using b'(3) Cons.prems(2) by (simp add: en)
  next
    case (Suc k')
    then show ?thesis using b'(4) [of k'] that by (simp add: en)
  qed
  with run b'(2,3) show ?case by (intro exI [of _ b'] exI [of _ buf']) (auto simp: en)
qed

section \<open>Printing an address\<close>

section \<open>Properties\<close>

text \<open>
  C31: from a topology file that lists \<open>N\<close> known hosts, an empty line and \<open>N\<close> rows of at least \<open>N\<close> characters, the
  table gets the address of every host, and as the links of the \<open>i\<close>-th the columns other than \<open>i\<close> that do not hold a dot, in order.
\<close>

theorem topology_file_read:
  assumes "hosts_ok env s addr_of ns" "length ns \<le> length (entries b)" "\<forall>e\<in>set (entries b). length ns \<le> length (links e)"
    "length rows = length ns" "\<forall>r\<in>set rows. length ns \<le> length r"
  shows "\<exists>b'. bcast_initialize env (Some (map (\<lambda>n. n @ [CHR 0x0A]) ns @ [CHR 0x0A] # rows)) junk a0 s b = Inr b' \<and> n_entries b' = int (length ns) \<and>
    (\<forall>i<length ns. be_addr (entries b' ! i) = addr_of (ns ! i) \<and>
      take (nat (n_links (entries b' ! i))) (links (entries b' ! i)) =
        map int (filter (\<lambda>j. j \<noteq> i \<and> rows ! i ! j \<noteq> CHR ''.'') [0..<length ns]))"
proof -
  let ?N = "length ns"
  obtain b1 buf where b1: "host_lines env (fst (network_get_my_address env a0 s)) s 0 (map (\<lambda>n. n @ [NL]) ns @ [NL] # rows) junk b =
      Inr (b1, ?N, Some rows, buf)" "length (entries b1) = length (entries b)"
    "\<And>k. k < ?N \<Longrightarrow> be_addr (entries b1 ! k) = addr_of (ns ! k) \<and> n_links (entries b1 ! k) = 0 \<and> links (entries b1 ! k) = links (entries b ! k)"
    using host_lines_ok [OF assms(1), of 0 b "fst (network_get_my_address env a0 s)" rows junk] assms(2) by auto
  define b2 where "b2 = b1\<lparr>n_entries := int ?N\<rparr>"
  have b2: "?N \<le> length (entries b2)" "n_entries b2 = int ?N" "0 + ?N = ?N" "?N \<le> length rows"
    "\<forall>k<?N. length (links (entries b2 ! k)) \<ge> ?N" "\<forall>k<?N. ?N \<le> length (rows ! k)"
    "\<forall>k. 0 \<le> k \<and> k < ?N \<longrightarrow> n_links (entries b2 ! k) = 0"
    using assms(2-5) b1(2,3) by (simp_all add: b2_def)
  from matrix_rows_ok [OF b2, of buf] obtain b' where b': "matrix_rows 0 ?N rows buf b2 = Inr b'" "n_entries b' = int ?N"
    "\<forall>k<?N. be_addr (entries b' ! k) = be_addr (entries b2 ! k)"
    "\<forall>k<?N. take (nat (n_links (entries b' ! k))) (links (entries b' ! k)) = map int (filter (\<lambda>j. j \<noteq> k \<and> rows ! k ! j \<noteq> CHR ''.'') [0..<?N])"
    using b2(2) by auto
  have "bcast_initialize env (Some (map (\<lambda>n. n @ [NL]) ns @ [NL] # rows)) junk a0 s b = Inr b'"
    using b1(1) b'(1) by (simp add: bcast_initialize_def b2_def)
  with b'(2-4) b1(3) show ?thesis by (auto simp: b2_def)
qed

text \<open>
  C30: with the topology switched on, a broadcast sends the packet once to every host this host has a link
  to, in the order of the links, on the synthetic network never or twice where the random numbers say so; as compiled, it aborts.
\<close>

theorem broadcast_reaches_neighbours:
  assumes "0 \<le> hdr_len" "hdr_len \<le> int (length hdr)" "0 \<le> data_len" "data_len \<le> int (length dat)" "hdr_len + data_len \<le> 8192"
    "pkt = take (nat hdr_len) hdr @ take (nat data_len) dat" "\<forall>ad. sendto env ad pkt = hdr_len + data_len"
    "table_ok (topology s)" "e = entries (topology s) ! nat (me (topology s))"
  shows "network_bcast_pkt \<lparr>bc_enabled = True, bc_topology_file = True, bc_loopback = False\<rparr> env lost dup hdr_len hdr data_len dat s =
      Inr (hdr_len + data_len, s\<lparr>wire := wire s @
        concat (map (\<lambda>k. if synthetic_network s \<and> lost k then []
          else replicate (if synthetic_network s \<and> dup k then 2 else 1) (network_address_to_sockaddr (neighbours (topology s) e ! k), pkt))
          [0..<length (neighbours (topology s) e)])\<rparr>) \<and>
    network_bcast_pkt as_compiled env lost dup hdr_len hdr data_len dat s = Inl Assert_failed"
proof -
  have e: "aget (entries (topology s)) (me (topology s)) = Inr e" "e \<in> set (entries (topology s))"
    using assms(8,9) by (auto simp: table_ok_def aget_def)
  have n: "nat (n_links e) = length (neighbours (topology s) e)"
    using assms(8) e(2) by (auto simp: table_ok_def links_ok_def neighbours_def)
  have "bcast_loop env lost dup hdr_len hdr data_len dat 0 (nat (n_links e)) s = Inr (True, s\<lparr>wire := wire s @
      concat (map (\<lambda>k. if synthetic_network s \<and> lost k then []
        else replicate (if synthetic_network s \<and> dup k then 2 else 1) (network_address_to_sockaddr (neighbours (topology s) e ! k), pkt)) [0..<nat (n_links e)])\<rparr>)"
    using bcast_loop_ok [OF assms(1-7), of s e 0 "nat (n_links e)" lost dup] assms(8,9) by simp
  then show ?thesis using e(1) by (simp add: network_bcast_pkt_def as_compiled_def n)
qed

text \<open>
  The text of an address and its port fits a buffer of 22 bytes, so \<open>network_printaddr\<close> is safe; but the test of the
  length leaves room for a port of three digits only: with a port of five, a buffer that just passes the test is overrun.
\<close>

theorem format_address_bounds:
  assumes "len = int (length buf)" "port = decimal (unat (htons (ucast (snd ad))))"
  shows "network_printaddr ad (replicate 40 c) = Inr (inet_ntoa (fst ad) @ '':'' @ port) \<and>
    (22 \<le> len \<longrightarrow> (\<exists>rest. network_format_address ad buf len = Inr (0, inet_ntoa (fst ad) @ '':'' @ port @ [CHR 0x00] @ rest))) \<and>
    (int (length (inet_ntoa (fst ad))) + 5 \<le> len \<and> len < int (length (inet_ntoa (fst ad))) + 2 + int (length port) \<longrightarrow>
       network_format_address ad buf len = Inl Out_of_bounds)"
proof -
  have l: "length (inet_ntoa (fst ad)) \<le> 15" "length port \<le> 5" using inet_ntoa_length port_digits by (simp_all add: assms(2))
  have fits: "\<exists>rest. network_format_address ad b n = Inr (0, inet_ntoa (fst ad) @ '':'' @ port @ [NUL] @ rest)"
    if "22 \<le> n" "n = int (length b)" for b n
    using l that by (auto simp: network_format_address_def Let_def assms(2))
  have d: "c \<noteq> NUL" if "c \<in> set (inet_ntoa (fst ad) @ '':'' @ port)" for c
  proof
    assume "c = NUL"
    moreover have "\<not> isdigit NUL" by (simp add: isdigit_def)
    ultimately show False using that inet_ntoa_no [of NUL "fst ad"] decimal_digits [of NUL "unat (htons (ucast (snd ad)))"]
      by (auto simp: assms(2))
  qed
  define b40 where "b40 = replicate 40 c"
  have "\<exists>rest. network_format_address ad b40 40 = Inr (0, inet_ntoa (fst ad) @ '':'' @ port @ [NUL] @ rest)"
    by (rule fits) (simp_all add: b40_def)
  then obtain rest where r: "network_format_address ad b40 40 = Inr (0, inet_ntoa (fst ad) @ '':'' @ port @ [NUL] @ rest)" ..
  have "takeWhile (\<lambda>c. c \<noteq> NUL) ((inet_ntoa (fst ad) @ '':'' @ port) @ [NUL] @ rest) = inet_ntoa (fst ad) @ '':'' @ port"
    by (subst takeWhile_append2 [OF d]) simp_all
  then have tw: "takeWhile (\<lambda>c. c \<noteq> NUL) (inet_ntoa (fst ad) @ '':'' @ port @ [NUL] @ rest) = inet_ntoa (fst ad) @ '':'' @ port"
    by (simp only: append.assoc)
  have "network_printaddr ad (replicate 40 c) = Inr (inet_ntoa (fst ad) @ '':'' @ port)"
    unfolding b40_def [symmetric] network_printaddr_def r bindR.simps prod.case tw ..
  moreover have "network_format_address ad buf len = Inl Out_of_bounds"
    if "int (length (inet_ntoa (fst ad))) + 5 \<le> len" "len < int (length (inet_ntoa (fst ad))) + 2 + int (length port)"
    using that assms(1) by (simp add: network_format_address_def Let_def assms(2))
  ultimately show ?thesis using fits [OF _ assms(1)] by blast
qed

section \<open>Witnesses\<close>

text \<open>Three hosts in a line: the second is linked to both others.\<close>

definition line_env :: netenv where
  "line_env = plain_env\<lparr>gethostbyname := (\<lambda>n. if n = ''a'' then Some 1 else if n = ''b'' then Some 2 else Some 3), host_name := ''b''\<rparr>"

definition empty_table :: bcast where
  "empty_table = \<lparr>n_entries = 0, entries = replicate 3 \<lparr>be_name = '''', be_addr = (0, 0), links = [0, 0, 0], n_links = 0\<rparr>, me = 0\<rparr>"

theorem topology_file_read_witness:
  "\<exists>b'. bcast_initialize line_env (Some [''a'' @ [CHR 0x0A], ''b'' @ [CHR 0x0A], ''c'' @ [CHR 0x0A], [CHR 0x0A], ''.x.'', ''x.x'', ''.x.''])
      (replicate 128 CHR ''?'') (0, 0) quiet_net empty_table = Inr b' \<and> n_entries b' = 3 \<and>
    take (nat (n_links (entries b' ! 1))) (links (entries b' ! 1)) = [0, 2]"
proof -
  define addr_of where "addr_of = (\<lambda>n. (if n = ''a'' then 1 else if n = ''b'' then 2 else 3 :: 32 word, ucast (htons (other_udp_port quiet_net)) :: 32 word))"
  define ns where "ns = [''a'', ''b'', ''c'']"
  define rows where "rows = [''.x.'', ''x.x'', ''.x.'']"
  have n: "length ns = 3" by (simp add: ns_def)
  have h: "hosts_ok line_env quiet_net addr_of ns"
    by (simp add: ns_def hosts_ok_def addr_of_def network_translate_hostname_def line_env_def isalpha_def)
  have t: "length ns \<le> length (entries empty_table)" "\<forall>e\<in>set (entries empty_table). length ns \<le> length (links e)"
    "length rows = length ns" "\<forall>r\<in>set rows. length ns \<le> length r"
    by (simp_all add: empty_table_def ns_def rows_def)
  obtain b' where b': "bcast_initialize line_env (Some (map (\<lambda>n. n @ [CHR 0x0A]) ns @ [CHR 0x0A] # rows)) (replicate 128 CHR ''?'') (0, 0) quiet_net empty_table = Inr b'"
    "n_entries b' = int (length ns)" "\<forall>i<length ns. be_addr (entries b' ! i) = addr_of (ns ! i) \<and> take (nat (n_links (entries b' ! i))) (links (entries b' ! i)) =
        map int (filter (\<lambda>j. j \<noteq> i \<and> rows ! i ! j \<noteq> CHR ''.'') [0..<length ns])"
    using topology_file_read [OF h t, of "replicate 128 CHR ''?''" "(0, 0)"] by blast
  have f: "filter (\<lambda>j. j \<noteq> 1 \<and> rows ! 1 ! j \<noteq> CHR ''.'') [0..<3] = [0, 2]" by (simp add: rows_def upt_rec)
  have "take (nat (n_links (entries b' ! 1))) (links (entries b' ! 1)) = map int (filter (\<lambda>j. j \<noteq> 1 \<and> rows ! 1 ! j \<noteq> CHR ''.'') [0..<3])"
    using b'(3) unfolding n by simp
  moreover have "map (\<lambda>n. n @ [CHR 0x0A]) ns @ [CHR 0x0A] # rows =
      [''a'' @ [CHR 0x0A], ''b'' @ [CHR 0x0A], ''c'' @ [CHR 0x0A], [CHR 0x0A], ''.x.'', ''x.x'', ''.x.'']"
    by (simp add: ns_def rows_def)
  ultimately show ?thesis using b'(1,2) by (intro exI [of _ b']) (simp only: f n, simp)
qed

theorem broadcast_reaches_neighbours_witness:
  "\<exists>s'. network_bcast_pkt \<lparr>bc_enabled = True, bc_topology_file = True, bc_loopback = False\<rparr> plain_env (\<lambda>i. False) (\<lambda>i. False) 1 [10] 2 [20, 30]
      (quiet_net\<lparr>topology := \<lparr>n_entries = 2, entries = [\<lparr>be_name = ''a'', be_addr = (1, 5), links = [1, 0], n_links = 1\<rparr>,
         \<lparr>be_name = ''b'', be_addr = (2, 6), links = [0, 0], n_links = 0\<rparr>], me = 0\<rparr>\<rparr>) = Inr (3, s') \<and> wire s' = [((2, 6), [10, 20, 30])]"
  using broadcast_reaches_neighbours [of 1 "[10]" 2 "[20, 30]" "[10, 20, 30]" plain_env "quiet_net\<lparr>topology := \<lparr>n_entries = 2,
      entries = [\<lparr>be_name = ''a'', be_addr = (1, 5), links = [1, 0], n_links = 1\<rparr>,
         \<lparr>be_name = ''b'', be_addr = (2, 6), links = [0, 0], n_links = 0\<rparr>], me = 0\<rparr>\<rparr>" _ "\<lambda>i. False" "\<lambda>i. False"]
  by (simp add: plain_env_def table_ok_def links_ok_def link_set_def neighbours_def quiet_net_def system.defs network_address_to_sockaddr_def)

theorem format_address_bounds_witness:
  "network_format_address (0, 0x901F) (replicate 12 CHR ''?'') 12 = Inl Out_of_bounds"
  using format_address_bounds [of 12 "replicate 12 CHR ''?''" _ "(0, 0x901F)"]
  by (simp add: inet_ntoa_def decimal.simps htons_def)

end
