(* ===== verification/Machine.thy ===== *)
theory Machine
  imports Prelude
begin

text \<open>
  The processor below the threads: the registers and the stack of \<^verbatim>\<open>src/P1-P4/machineprimitives.c\<close> and of the assembler routines
  \<open>minithread_switch\<close> and \<open>minithread_root\<close> in \<^verbatim>\<open>src/P1-P4/machineprimitives_x86_64_asm.S\<close>. Memory is a map from the addresses of
  longs, multiples of 8, to their values; addresses are integers, and no computation on them wraps. The numbers of the registers are those that
  \<^verbatim>\<open>src/P1-P4/interrupts.c\<close> defines for the context of a signal.
\<close>

unbundle bit_operations_syntax

section \<open>The processor\<close>

record cpu =
  gregs :: "int list"
  fp :: "int list"
  fpregs :: int
  mem :: "int \<Rightarrow> int"
  irq_level :: int

abbreviation (input) R8 :: nat where "R8 \<equiv> 0"
abbreviation (input) R9 :: nat where "R9 \<equiv> 1"
abbreviation (input) R10 :: nat where "R10 \<equiv> 2"
abbreviation (input) R11 :: nat where "R11 \<equiv> 3"
abbreviation (input) R12 :: nat where "R12 \<equiv> 4"
abbreviation (input) R13 :: nat where "R13 \<equiv> 5"
abbreviation (input) R14 :: nat where "R14 \<equiv> 6"
abbreviation (input) R15 :: nat where "R15 \<equiv> 7"
abbreviation (input) RDI :: nat where "RDI \<equiv> 8"
abbreviation (input) RSI :: nat where "RSI \<equiv> 9"
abbreviation (input) RBP :: nat where "RBP \<equiv> 10"
abbreviation (input) RBX :: nat where "RBX \<equiv> 11"
abbreviation (input) RDX :: nat where "RDX \<equiv> 12"
abbreviation (input) RAX :: nat where "RAX \<equiv> 13"
abbreviation (input) RCX :: nat where "RCX \<equiv> 14"
abbreviation (input) RSP :: nat where "RSP \<equiv> 15"
abbreviation (input) RIP :: nat where "RIP \<equiv> 16"
abbreviation (input) EFL :: nat where "EFL \<equiv> 17"
abbreviation (input) NGREG :: nat where "NGREG \<equiv> 23"

definition set_reg :: "nat \<Rightarrow> int \<Rightarrow> cpu \<Rightarrow> cpu" where
  "set_reg r v c = c\<lparr>gregs := (gregs c)[r := v]\<rparr>"

definition store :: "int \<Rightarrow> int \<Rightarrow> cpu \<Rightarrow> cpu" where
  "store a v c = c\<lparr>mem := (mem c)(a := v)\<rparr>"

definition push :: "int \<Rightarrow> cpu \<Rightarrow> cpu" where
  "push v c = (let sp = gregs c ! RSP - 8 in set_reg RSP sp (store sp v c))"

definition pop :: "nat \<Rightarrow> cpu \<Rightarrow> cpu" where
  "pop r c = (let sp = gregs c ! RSP in set_reg RSP (sp + 8) (set_reg r (mem c sp) c))"

fun push_regs :: "nat list \<Rightarrow> cpu \<Rightarrow> cpu" where
  "push_regs [] c = c"
| "push_regs (r # rs) c = push_regs rs (push (gregs c ! r) c)"

fun pop_regs :: "nat list \<Rightarrow> cpu \<Rightarrow> cpu" where
  "pop_regs [] c = c"
| "pop_regs (r # rs) c = pop_regs rs (pop r c)"

section \<open>Stacks of threads\<close>

abbreviation (input) STACKSIZE :: int where "STACKSIZE \<equiv> 262144"
abbreviation (input) STACKALIGN :: int where "STACKALIGN \<equiv> 15"

text \<open>\<open>base\<close> is what \<open>malloc\<close> returned. When it is 0, the top is not assigned.\<close>

definition minithread_allocate_stack :: "int \<Rightarrow> int \<Rightarrow> int \<times> int" where
  "minithread_allocate_stack base top0 = (if base = 0 then (base, top0) else (base, (base + STACKSIZE - 1) AND NOT STACKALIGN))"

text \<open>The structure \<open>initial_stack_state\<close>: sixteen pointers, of which five are set.\<close>

definition minithread_initialize_stack :: "int \<Rightarrow> int \<Rightarrow> int \<Rightarrow> int \<Rightarrow> int \<Rightarrow> int \<Rightarrow> cpu \<Rightarrow> int \<times> cpu" where
  "minithread_initialize_stack root stacktop body_proc body_arg finally_proc finally_arg c =
     (let ss = stacktop - 128
      in (ss, store (ss + 120) root (store (ss + 24) finally_arg (store (ss + 16) finally_proc
            (store (ss + 8) body_arg (store ss body_proc c))))))"

text \<open>The two pointers are in \<open>rdi\<close> and \<open>rsi\<close>, the return address is on the stack.\<close>

definition minithread_switch :: "cpu \<Rightarrow> cpu" where
  "minithread_switch c =
     (let c1 = push_regs [RAX, RCX, RDX] c;
          c2 = set_reg RCX (gregs c1 ! RDI) c1;
          c3 = set_reg RDX (gregs c2 ! RSI) c2;
          c4 = set_reg RAX (gregs c3 ! RDX) c3;
          c5 = push_regs [R15, R14, R13, R12, R11, R10, R9, R8, RBP, RSI, RDI, RBX] c4;
          c6 = store (gregs c5 ! RCX) (gregs c5 ! RSP) c5;
          c7 = set_reg RSP (mem c6 (gregs c6 ! RAX)) c6;
          c8 = c7\<lparr>irq_level := 1\<rparr>;
          c9 = pop_regs [RBX, RDI, RSI, RBP, R8, R9, R10, R11, R12, R13, R14, R15, RDX, RCX, RAX] c8
      in pop RIP c9)"

text \<open>\<open>minithread_root\<close> up to its first call, and from there to the second. A call pushes the return address \<open>ret\<close>.\<close>

definition root_calls_main :: "int \<Rightarrow> cpu \<Rightarrow> cpu" where
  "root_calls_main ret c =
     (let c1 = set_reg RSP (gregs c ! RSP - 0x78) c;
          c2 = push (gregs c1 ! RSI) c1
      in set_reg RIP (gregs c2 ! RBX) (push ret c2))"

definition root_calls_final :: "int \<Rightarrow> cpu \<Rightarrow> cpu" where
  "root_calls_final ret c =
     (let c1 = pop RSI c;
          c2 = set_reg RSP (gregs c1 ! RSP - 8) c1;
          c3 = set_reg RDI (gregs c2 ! RBP) c2
      in set_reg RIP (gregs c3 ! RSI) (push ret c3))"

section \<open>Registers and memory\<close>

definition cpu_ok :: "cpu \<Rightarrow> bool" where
  "cpu_ok c \<longleftrightarrow> length (gregs c) = NGREG"

lemma set_reg_simps [simp]: "mem (set_reg r v c) = mem c" "fp (set_reg r v c) = fp c" "fpregs (set_reg r v c) = fpregs c"
  "irq_level (set_reg r v c) = irq_level c" "length (gregs (set_reg r v c)) = length (gregs c)"
  by (simp_all add: set_reg_def)

lemma set_reg_nth [simp]: "r < length (gregs c) \<Longrightarrow> gregs (set_reg r v c) ! q = (if q = r then v else gregs c ! q)"
  by (simp add: set_reg_def nth_list_update)

lemma store_simps [simp]: "mem (store a v c) = (mem c)(a := v)" "gregs (store a v c) = gregs c" "fp (store a v c) = fp c"
  "fpregs (store a v c) = fpregs c" "irq_level (store a v c) = irq_level c"
  by (simp_all add: store_def)

lemma push_simps [simp]: "mem (push v c) = (mem c)(gregs c ! RSP - 8 := v)" "fp (push v c) = fp c" "fpregs (push v c) = fpregs c"
  "irq_level (push v c) = irq_level c" "length (gregs (push v c)) = length (gregs c)"
  by (simp_all add: push_def Let_def)

lemma push_nth [simp]: "15 < length (gregs c) \<Longrightarrow> gregs (push v c) ! q = (if q = RSP then gregs c ! RSP - 8 else gregs c ! q)"
  by (simp add: push_def Let_def)

lemma pop_simps [simp]: "mem (pop r c) = mem c" "fp (pop r c) = fp c" "fpregs (pop r c) = fpregs c" "irq_level (pop r c) = irq_level c"
  "length (gregs (pop r c)) = length (gregs c)"
  by (simp_all add: pop_def Let_def)

lemma pop_nth [simp]: "15 < length (gregs c) \<Longrightarrow> r < length (gregs c) \<Longrightarrow>
  gregs (pop r c) ! q = (if q = RSP then gregs c ! RSP + 8 else if q = r then mem c (gregs c ! RSP) else gregs c ! q)"
  by (simp add: pop_def Let_def)

lemma push_regs_simps [simp]: "fp (push_regs rs c) = fp c" "fpregs (push_regs rs c) = fpregs c" "irq_level (push_regs rs c) = irq_level c"
  "length (gregs (push_regs rs c)) = length (gregs c)"
  by (induction rs arbitrary: c) simp_all

lemma push_regs_nth:
  assumes "15 < length (gregs c)" "15 \<notin> set rs"
  shows "gregs (push_regs rs c) ! q = (if q = 15 then gregs c ! 15 - 8 * int (length rs) else gregs c ! q)"
  using assms
proof (induction rs arbitrary: c)
  case Nil
  then show ?case by simp
next
  case (Cons r rs)
  then show ?case using Cons.IH [of "push (gregs c ! r) c"] by (simp add: algebra_simps)
qed

lemma push_regs_above:
  assumes "15 < length (gregs c)" "15 \<notin> set rs" "x < gregs c ! 15 - 8 * int (length rs) \<or> gregs c ! 15 \<le> x"
  shows "mem (push_regs rs c) x = mem c x"
  using assms
proof (induction rs arbitrary: c)
  case Nil
  then show ?case by simp
next
  case (Cons r rs)
  have "mem (push_regs rs (push (gregs c ! r) c)) x = mem (push (gregs c ! r) c) x"
    by (rule Cons.IH) (use Cons.prems in auto)
  then show ?case using Cons.prems by auto
qed

lemma push_regs_mem:
  assumes "15 < length (gregs c)" "15 \<notin> set rs" "i < length rs"
  shows "mem (push_regs rs c) (gregs c ! 15 - 8 * int i - 8) = gregs c ! (rs ! i)"
  using assms
proof (induction rs arbitrary: c i)
  case Nil
  then show ?case by simp
next
  case (Cons r rs)
  let ?c = "push (gregs c ! r) c"
  have c: "15 < length (gregs ?c)" "15 \<notin> set rs" "gregs ?c ! 15 = gregs c ! 15 - 8" using Cons.prems by auto
  show ?case
  proof (cases i)
    case 0
    have "mem (push_regs rs ?c) (gregs c ! 15 - 8) = mem ?c (gregs c ! 15 - 8)"
      by (rule push_regs_above [OF c(1,2)]) (simp add: c(3))
    then show ?thesis using 0 by simp
  next
    case (Suc j)
    have j: "j < length rs" using Cons.prems(3) Suc by simp
    then have "rs ! j \<noteq> 15" using c(2) by (metis nth_mem)
    moreover have "mem (push_regs rs ?c) (gregs ?c ! 15 - 8 * int j - 8) = gregs ?c ! (rs ! j)" by (rule Cons.IH [OF c(1,2) j])
    ultimately show ?thesis using Cons.prems(1) Suc by (simp add: algebra_simps)
  qed
qed

lemma pop_regs_simps [simp]: "mem (pop_regs rs c) = mem c" "fp (pop_regs rs c) = fp c" "fpregs (pop_regs rs c) = fpregs c"
  "irq_level (pop_regs rs c) = irq_level c" "length (gregs (pop_regs rs c)) = length (gregs c)"
  by (induction rs arbitrary: c) simp_all

text \<open>Registers that can be popped together.\<close>

definition poppable :: "nat list \<Rightarrow> cpu \<Rightarrow> bool" where
  "poppable rs c \<longleftrightarrow> 15 < length (gregs c) \<and> 15 \<notin> set rs \<and> (\<forall>r\<in>set rs. r < length (gregs c)) \<and> distinct rs"

lemma pop_regs_sp: "poppable rs c \<Longrightarrow> gregs (pop_regs rs c) ! 15 = gregs c ! 15 + 8 * int (length rs)"
proof (induction rs arbitrary: c)
  case Nil
  then show ?case by simp
next
  case (Cons r rs)
  have "poppable rs (pop r c)" "15 < length (gregs c)" "r < length (gregs c)" using Cons.prems by (simp_all add: poppable_def)
  then show ?case using Cons.IH [of "pop r c"] by simp
qed

lemma pop_regs_other: "poppable rs c \<Longrightarrow> q \<notin> set rs \<Longrightarrow> q \<noteq> 15 \<Longrightarrow> gregs (pop_regs rs c) ! q = gregs c ! q"
proof (induction rs arbitrary: c)
  case Nil
  then show ?case by simp
next
  case (Cons r rs)
  have "poppable rs (pop r c)" "15 < length (gregs c)" "r < length (gregs c)" using Cons.prems(1) by (simp_all add: poppable_def)
  then show ?case using Cons.IH [of "pop r c"] Cons.prems(2,3) by simp
qed

lemma pop_regs_nth: "poppable rs c \<Longrightarrow> i < length rs \<Longrightarrow> gregs (pop_regs rs c) ! (rs ! i) = mem c (gregs c ! 15 + 8 * int i)"
proof (induction rs arbitrary: c i)
  case Nil
  then show ?case by simp
next
  case (Cons r rs)
  have c: "poppable rs (pop r c)" "15 < length (gregs c)" "r < length (gregs c)" "r \<notin> set rs" "r \<noteq> 15"
    using Cons.prems(1) by (auto simp: poppable_def)
  show ?case
  proof (cases i)
    case 0
    then show ?thesis using pop_regs_other [OF c(1,4,5)] c(2,3,5) by simp
  next
    case (Suc j)
    then show ?thesis using Cons.IH [OF c(1), of j] Cons.prems(2) c(2,3) by (simp add: algebra_simps)
  qed
qed

section \<open>Switching\<close>

text \<open>The registers that \<open>minithread_switch\<close> saves, in the order of their places on the stack.\<close>

definition saved_regs :: "nat list" where
  "saved_regs = [RBX, RDI, RSI, RBP, R8, R9, R10, R11, R12, R13, R14, R15, RDX, RCX, RAX]"

text \<open>The frame of a suspended thread at \<open>sp\<close>: the registers \<open>f\<close> and the address where it goes on.\<close>

definition frame :: "(int \<Rightarrow> int) \<Rightarrow> int \<Rightarrow> (nat \<Rightarrow> int) \<Rightarrow> int \<Rightarrow> bool" where
  "frame m sp f ret \<longleftrightarrow> (\<forall>i<15. m (sp + 8 * int i) = f (saved_regs ! i)) \<and> m (sp + 120) = ret"

lemma push_order:
  assumes "i < 15"
  shows "if i < 12 then [R15, R14, R13, R12, R11, R10, R9, R8, RBP, RSI, RDI, RBX] ! (11 - i) = saved_regs ! i
    else [RAX, RCX, RDX] ! (14 - i) = saved_regs ! i"
proof -
  have "\<forall>i\<in>set [0..<15]. if i < 12 then [R15, R14, R13, R12, R11, R10, R9, R8, RBP, RSI, RDI, RBX] ! (11 - i) = saved_regs ! i
    else [RAX, RCX, RDX] ! (14 - i) = saved_regs ! i" by code_simp
  moreover have "i \<in> set [0..<15]" using assms by simp
  ultimately show ?thesis by (rule bspec)
qed

lemma switch_out:
  assumes "cpu_ok c"
  obtains d where "minithread_switch c = pop RIP (pop_regs saved_regs ((set_reg RSP (mem d (gregs c ! RSI)) d)\<lparr>irq_level := 1\<rparr>))"
    "cpu_ok d" "mem d (gregs c ! RDI) = gregs c ! RSP - 120"
    "\<And>x. x \<noteq> gregs c ! RDI \<Longrightarrow> x < gregs c ! RSP - 120 \<or> gregs c ! RSP \<le> x \<Longrightarrow> mem d x = mem c x"
    "\<And>i. i < 15 \<Longrightarrow> gregs c ! RSP - 120 + 8 * int i \<noteq> gregs c ! RDI \<Longrightarrow> mem d (gregs c ! RSP - 120 + 8 * int i) = gregs c ! (saved_regs ! i)"
proof -
  define c1 where "c1 = push_regs [RAX, RCX, RDX] c"
  define c2 where "c2 = set_reg RCX (gregs c1 ! RDI) c1"
  define c3 where "c3 = set_reg RDX (gregs c2 ! RSI) c2"
  define c4 where "c4 = set_reg RAX (gregs c3 ! RDX) c3"
  define rs where "rs = [R15, R14, R13, R12, R11, R10, R9, R8, RBP, RSI, RDI, RBX]"
  define c5 where "c5 = push_regs rs c4"
  define d where "d = store (gregs c ! RDI) (gregs c ! RSP - 120) c5"
  have l: "length (gregs c) = 23" "length (gregs c1) = 23" "length (gregs c4) = 23" "length (gregs c5) = 23"
    using assms by (simp_all add: cpu_ok_def c1_def c2_def c3_def c4_def c5_def)
  have g1: "gregs c1 ! q = (if q = RSP then gregs c ! RSP - 24 else gregs c ! q)" for q
    using push_regs_nth [of c "[RAX, RCX, RDX]" q] l by (simp add: c1_def)
  have g4: "gregs c4 ! q = (if q = RAX \<or> q = RDX then gregs c ! RSI else if q = RCX then gregs c ! RDI else gregs c1 ! q)" for q
    using l by (simp add: c4_def c3_def c2_def g1)
  have g5: "gregs c5 ! q = (if q = RSP then gregs c ! RSP - 120 else gregs c4 ! q)" for q
    using push_regs_nth [of c4 rs q] l by (simp add: c5_def rs_def g4 g1)
  have sw: "minithread_switch c = pop RIP (pop_regs saved_regs ((set_reg RSP (mem d (gregs c ! RSI)) d)\<lparr>irq_level := 1\<rparr>))"
  proof -
    have "minithread_switch c = pop RIP (pop_regs saved_regs ((set_reg RSP (mem (store (gregs c5 ! RCX) (gregs c5 ! RSP) c5) (gregs c5 ! RAX))
        (store (gregs c5 ! RCX) (gregs c5 ! RSP) c5))\<lparr>irq_level := 1\<rparr>))"
      by (simp only: minithread_switch_def Let_def c1_def c2_def c3_def c4_def c5_def rs_def saved_regs_def store_simps)
    moreover have "gregs c5 ! RCX = gregs c ! RDI" "gregs c5 ! RSP = gregs c ! RSP - 120" "gregs c5 ! RAX = gregs c ! RSI"
      by (simp_all add: g5 g4)
    ultimately show ?thesis by (simp only: d_def)
  qed
  have rsp: "length rs = 12" "15 \<notin> set rs" "\<forall>r\<in>set rs. r \<noteq> 12 \<and> r \<noteq> 13 \<and> r \<noteq> 14 \<and> r \<noteq> 15" by (simp_all add: rs_def)
  have m5: "mem c5 x = mem c x" if "x < gregs c ! RSP - 120 \<or> gregs c ! RSP \<le> x" for x
  proof -
    have "gregs c4 ! 15 = gregs c ! 15 - 24" by (simp add: g4 g1)
    then have "x < gregs c4 ! 15 - 8 * int (length rs) \<or> gregs c4 ! 15 \<le> x" using that unfolding rsp(1) by linarith
    then have "mem c5 x = mem c4 x" unfolding c5_def using l rsp(2) by (intro push_regs_above) simp_all
    also have "mem c4 x = mem c1 x" by (simp add: c4_def c3_def c2_def)
    also have "mem c1 x = mem c x" unfolding c1_def by (rule push_regs_above) (use that l in auto)
    finally show ?thesis .
  qed
  have hi: "mem c5 (gregs c ! RSP - 120 + 8 * int i) = gregs c ! (saved_regs ! i)" if "i < 15" for i
  proof (cases "i < 12")
    case True
    have "gregs c4 ! 15 - 8 * int (11 - i) - 8 = gregs c ! RSP - 120 + 8 * int i" using True by (simp add: g4 g1 of_nat_diff)
    moreover have so: "rs ! (11 - i) = saved_regs ! i" using push_order [of i] True by (simp add: rs_def)
    moreover have "mem c5 (gregs c4 ! 15 - 8 * int (11 - i) - 8) = gregs c4 ! (rs ! (11 - i))"
      unfolding c5_def by (rule push_regs_mem) (use l rsp in simp_all)
    moreover have "rs ! (11 - i) \<in> set rs" using rsp by simp
    then have "rs ! (11 - i) \<noteq> 12 \<and> rs ! (11 - i) \<noteq> 13 \<and> rs ! (11 - i) \<noteq> 14 \<and> rs ! (11 - i) \<noteq> 15" using rsp by metis
    then have "gregs c4 ! (saved_regs ! i) = gregs c ! (saved_regs ! i)" unfolding so by (simp add: g4 g1)
    ultimately show ?thesis by (simp only:)
  next
    case False
    have "gregs c ! 15 - 8 * int (14 - i) - 8 = gregs c ! RSP - 120 + 8 * int i" using that by (simp add: of_nat_diff)
    moreover have "[RAX, RCX, RDX] ! (14 - i) = saved_regs ! i"
      using push_order [of i] False that by simp
    moreover have "mem c5 (gregs c ! RSP - 120 + 8 * int i) = mem c1 (gregs c ! RSP - 120 + 8 * int i)"
      using push_regs_above [of c4 rs "gregs c ! RSP - 120 + 8 * int i"] l False by (simp add: c5_def rs_def g4 g1 c4_def c3_def c2_def)
    moreover have "mem c1 (gregs c ! 15 - 8 * int (14 - i) - 8) = gregs c ! ([RAX, RCX, RDX] ! (14 - i))"
      unfolding c1_def by (rule push_regs_mem) (use l False in simp_all)
    ultimately show ?thesis by (simp only:)
  qed
  show thesis
    by (rule that [OF sw]) (use m5 hi l in \<open>auto simp: d_def cpu_ok_def\<close>)
qed

text \<open>The suspended thread's frame is in memory, and a frame that is in memory is what the processor goes on with.\<close>

lemma switch_mem:
  assumes "cpu_ok c"
  shows "mem (minithread_switch c) (gregs c ! RDI) = gregs c ! RSP - 120"
    "x \<noteq> gregs c ! RDI \<Longrightarrow> x < gregs c ! RSP - 120 \<or> gregs c ! RSP \<le> x \<Longrightarrow> mem (minithread_switch c) x = mem c x"
    "gregs c ! RDI < gregs c ! RSP - 120 \<or> gregs c ! RSP < gregs c ! RDI \<Longrightarrow>
     frame (mem (minithread_switch c)) (gregs c ! RSP - 120) (\<lambda>r. gregs c ! r) (mem c (gregs c ! RSP))"
proof -
  obtain d where d: "minithread_switch c = pop RIP (pop_regs saved_regs ((set_reg RSP (mem d (gregs c ! RSI)) d)\<lparr>irq_level := 1\<rparr>))"
    "cpu_ok d" "mem d (gregs c ! RDI) = gregs c ! RSP - 120"
    "\<And>x. x \<noteq> gregs c ! RDI \<Longrightarrow> x < gregs c ! RSP - 120 \<or> gregs c ! RSP \<le> x \<Longrightarrow> mem d x = mem c x"
    "\<And>i. i < 15 \<Longrightarrow> gregs c ! RSP - 120 + 8 * int i \<noteq> gregs c ! RDI \<Longrightarrow> mem d (gregs c ! RSP - 120 + 8 * int i) = gregs c ! (saved_regs ! i)"
    using switch_out [OF assms] by metis
  have m: "mem (minithread_switch c) = mem d" by (simp add: d(1))
  show "mem (minithread_switch c) (gregs c ! RDI) = gregs c ! RSP - 120" by (simp only: m d(3))
  show "mem (minithread_switch c) x = mem c x" if "x \<noteq> gregs c ! RDI" "x < gregs c ! RSP - 120 \<or> gregs c ! RSP \<le> x"
    using d(4) [OF that] by (simp only: m)
  show "frame (mem (minithread_switch c)) (gregs c ! RSP - 120) (\<lambda>r. gregs c ! r) (mem c (gregs c ! RSP))"
    if a: "gregs c ! RDI < gregs c ! RSP - 120 \<or> gregs c ! RSP < gregs c ! RDI"
  proof -
    have "mem d (gregs c ! RSP) = mem c (gregs c ! RSP)" by (rule d(4)) (use a in auto)
    moreover have "mem d (gregs c ! RSP - 120 + 8 * int i) = gregs c ! (saved_regs ! i)" if "i < 15" for i
      by (rule d(5)) (use a that in auto)
    ultimately show ?thesis by (simp add: frame_def m)
  qed
qed

lemma switch_regs:
  assumes "cpu_ok c" "mem (minithread_switch c) (gregs c ! RSI) = sp" "frame (mem (minithread_switch c)) sp f ret"
  shows "\<forall>r\<in>set saved_regs. gregs (minithread_switch c) ! r = f r" "gregs (minithread_switch c) ! RSP = sp + 128"
    "gregs (minithread_switch c) ! RIP = ret" "irq_level (minithread_switch c) = 1" "cpu_ok (minithread_switch c)"
proof -
  obtain d where d: "minithread_switch c = pop RIP (pop_regs saved_regs ((set_reg RSP (mem d (gregs c ! RSI)) d)\<lparr>irq_level := 1\<rparr>))" "cpu_ok d"
    using switch_out [OF assms(1)] by metis
  define e where "e = (set_reg RSP (mem d (gregs c ! RSI)) d)\<lparr>irq_level := 1\<rparr>"
  have m: "mem (minithread_switch c) = mem e" "mem e = mem d" by (simp_all add: d(1) e_def)
  have l: "length (gregs e) = 23" "length (gregs d) = 23" using d(2) by (simp_all add: e_def cpu_ok_def)
  have sp: "gregs e ! 15 = sp" using assms(2) l(2) by (simp add: e_def m)
  have sr: "length saved_regs = 15" "16 \<notin> set saved_regs" "15 \<notin> set saved_regs" by (simp_all add: saved_regs_def)
  have pp: "poppable saved_regs e" using l by (simp add: poppable_def saved_regs_def)
  have sw: "minithread_switch c = pop RIP (pop_regs saved_regs e)" by (simp only: d(1) e_def)
  have psp: "gregs (pop_regs saved_regs e) ! 15 = sp + 120" using pop_regs_sp [OF pp] sp sr(1) by simp
  show "gregs (minithread_switch c) ! RSP = sp + 128" using psp l by (simp add: sw)
  show "gregs (minithread_switch c) ! RIP = ret" using psp l assms(3) by (simp add: sw frame_def m)
  show "irq_level (minithread_switch c) = 1" by (simp add: sw e_def)
  show "cpu_ok (minithread_switch c)" using l by (simp add: sw cpu_ok_def)
  show "\<forall>r\<in>set saved_regs. gregs (minithread_switch c) ! r = f r"
  proof
    fix r
    assume "r \<in> set saved_regs"
    then obtain i where i: "i < 15" "saved_regs ! i = r" using sr(1) by (metis in_set_conv_nth)
    have "gregs (pop_regs saved_regs e) ! (saved_regs ! i) = mem e (sp + 8 * int i)" using pop_regs_nth [OF pp, of i] i(1) sr(1) sp by simp
    also have "\<dots> = f r" using assms(3) i by (simp add: frame_def m)
    finally show "gregs (minithread_switch c) ! r = f r" using i \<open>r \<in> set saved_regs\<close> sr l by (auto simp: sw)
  qed
qed

lemma round16: "(x :: int) AND - 16 = x - x mod 16"
proof -
  have "x AND - 16 = push_bit 4 (drop_bit 4 x)"
  proof (rule bit_eqI)
    have m: "(- 16 :: int) = NOT (mask 4)" by (simp add: mask_eq_exp_minus_1)
    show "bit (x AND - 16) n = bit (push_bit 4 (drop_bit 4 x)) n" for n unfolding m by (auto simp: bit_simps)
  qed
  also have "\<dots> = x - x mod 16" by (simp add: push_bit_eq_mult drop_bit_eq_div minus_mod_eq_div_mult)
  finally show ?thesis .
qed

lemma frame_read:
  obtains f where "frame m sp f (m (sp + 120))" "f RBX = m sp" "f RDI = m (sp + 8)" "f RSI = m (sp + 16)" "f RBP = m (sp + 24)"
proof -
  define at where "at = (\<lambda>r. length (takeWhile (\<lambda>q. q \<noteq> r) saved_regs))"
  have "\<forall>i\<in>set [0..<15]. length (takeWhile (\<lambda>q. q \<noteq> saved_regs ! i) saved_regs) = i" by code_simp
  then have a: "at (saved_regs ! i) = i" if "i < 15" for i using that by (simp add: at_def)
  show thesis
    by (rule that [of "\<lambda>r. m (sp + 8 * int (at r))"]) (use a in \<open>simp_all add: frame_def, simp_all add: at_def saved_regs_def\<close>)
qed

lemma switch_cpu_ok: "cpu_ok c \<Longrightarrow> cpu_ok (minithread_switch c)"
proof -
  assume c: "cpu_ok c"
  obtain f where "frame (mem (minithread_switch c)) (mem (minithread_switch c) (gregs c ! RSI)) f
      (mem (minithread_switch c) (mem (minithread_switch c) (gregs c ! RSI) + 120))" by (rule frame_read)
  from switch_regs [OF c refl this] show ?thesis by simp
qed

section \<open>Properties\<close>

text \<open>
  C7: a thread that calls \<open>minithread_switch\<close> and is switched to again later, by a thread whose own stack lies elsewhere, goes
  on after its call with the registers it had, its stack pointer past the return address, and interrupts enabled.
\<close>

theorem switch_back:
  assumes "cpu_ok c" "cpu_ok d" "sp = gregs c ! RSP" "cell = gregs c ! RDI" "cell < sp - 120 \<or> sp < cell"
    "gregs d ! RSI = cell" "\<forall>x. x = cell \<or> sp - 120 \<le> x \<and> x \<le> sp \<longrightarrow> mem d x = mem (minithread_switch c) x"
    "\<forall>x. x = gregs d ! RDI \<or> gregs d ! RSP - 120 \<le> x \<and> x < gregs d ! RSP \<longrightarrow> x \<noteq> cell \<and> (x < sp - 120 \<or> sp < x)"
  shows "(\<forall>r\<in>{RBX, RDI, RSI, RBP, R8, R9, R10, R11, R12, R13, R14, R15, RDX, RCX, RAX}.
      gregs (minithread_switch d) ! r = gregs c ! r) \<and> gregs (minithread_switch d) ! RSP = sp + 8 \<and>
    gregs (minithread_switch d) ! RIP = mem c sp \<and> irq_level (minithread_switch d) = 1"
proof -
  have keep: "mem (minithread_switch d) x = mem (minithread_switch c) x" if "x = cell \<or> sp - 120 \<le> x \<and> x \<le> sp" for x
  proof -
    have "x \<noteq> gregs d ! RDI \<and> \<not> (gregs d ! RSP - 120 \<le> x \<and> x < gregs d ! RSP)"
    proof (rule ccontr)
      assume "\<not> ?thesis"
      then have "x \<noteq> cell \<and> (x < sp - 120 \<or> sp < x)" using assms(8) by blast
      then show False using that by linarith
    qed
    then have "mem (minithread_switch d) x = mem d x" by (intro switch_mem(2) [OF assms(2)]) linarith+
    then show ?thesis using assms(7) that by simp
  qed
  have c: "mem (minithread_switch d) (gregs d ! RSI) = sp - 120"
    using keep [of cell] switch_mem(1) [OF assms(1)] assms(3,4,6) by simp
  have "frame (mem (minithread_switch c)) (sp - 120) (\<lambda>r. gregs c ! r) (mem c sp)"
    using switch_mem(3) [OF assms(1)] assms(3-5) by simp
  then have "frame (mem (minithread_switch d)) (sp - 120) (\<lambda>r. gregs c ! r) (mem c sp)"
    using keep by (simp add: frame_def)
  from switch_regs [OF assms(2) c this] show ?thesis by (simp add: saved_regs_def)
qed

lemma switch_back_witness:
  "let c = \<lparr>gregs = [0, 1, 2, 3, 4, 5, 6, 7, 64, 9, 10, 11, 12, 13, 14, 1024, 16, 0, 0, 0, 0, 0, 0], fp = [], fpregs = 0, mem = (\<lambda>x. x + 5),
         irq_level = 0\<rparr>;
       d = c\<lparr>gregs := [0, 0, 0, 0, 0, 0, 0, 0, 72, 64, 0, 0, 0, 0, 0, 4096, 0, 0, 0, 0, 0, 0, 0], mem := mem (minithread_switch c)\<rparr>
   in gregs (minithread_switch d) ! RSP = 1032 \<and> gregs (minithread_switch d) ! RIP = 1029 \<and> gregs (minithread_switch d) ! RBX = 11"
proof -
  let ?c = "\<lparr>gregs = [0, 1, 2, 3, 4, 5, 6, 7, 64, 9, 10, 11, 12, 13, 14, 1024, 16, 0, 0, 0, 0, 0, 0], fp = [], fpregs = 0, mem = (\<lambda>x. x + 5),
         irq_level = 0\<rparr> :: cpu"
  let ?d = "?c\<lparr>gregs := [0, 0, 0, 0, 0, 0, 0, 0, 72, 64, 0, 0, 0, 0, 0, 4096, 0, 0, 0, 0, 0, 0, 0], mem := mem (minithread_switch ?c)\<rparr>"
  define m where "m = mem (minithread_switch ?c)"
  have "cpu_ok ?c" "cpu_ok ?d" "gregs ?c ! RSP = 1024" "gregs ?c ! RDI = 64" "gregs ?c ! RBX = 11" "gregs ?d ! RSI = 64" "gregs ?d ! RDI = 72"
    "gregs ?d ! RSP = 4096" "mem ?c 1024 = 1029"
    unfolding m_def [symmetric] by (simp_all add: cpu_ok_def)
  note f = this
  show ?thesis unfolding Let_def
    using switch_back [of ?c ?d 1024 64, unfolded f] f(1,2) by simp
qed



end
