(* ===== verification/Atomic.thy ===== *)
theory Atomic
  imports Machine Alarm
begin

text \<open>
  The atomic operations on an \<open>int\<close> in \<^verbatim>\<open>src/P1-P4/machineprimitives_x86_64_asm.S\<close>, and what remains of
  \<^verbatim>\<open>machineprimitives.c\<close> and \<^verbatim>\<open>machineprimitives_x86_64.c\<close>: \<open>atomic_clear\<close>, the freeing of a stack and the time of
  day. An \<open>int\<close> is one half of a long of \<^verbatim>\<open>Machine\<close>; its address is a multiple of 4. An instruction with a lock prefix is one
  step. The flags that these instructions set are not read by the callers and not modelled. The lemmas say what a caller sees, and tie
  \<open>swap\<close> to the interrupt level of the kernel.
\<close>

unbundle bit_operations_syntax

section \<open>Ints in memory\<close>

definition shift_of :: "int \<Rightarrow> nat" where
  "shift_of a = nat (8 * (a mod 8))"

definition int_at :: "cpu \<Rightarrow> int \<Rightarrow> 32 word" where
  "int_at c a = ucast (drop_bit (shift_of a) (word_of_int (mem c (a - a mod 8)) :: 64 word))"

definition put_int :: "int \<Rightarrow> 32 word \<Rightarrow> cpu \<Rightarrow> cpu" where
  "put_int a v c = store (a - a mod 8) (uint ((word_of_int (mem c (a - a mod 8)) :: 64 word) AND NOT (push_bit (shift_of a) (mask 32)) OR
     push_bit (shift_of a) (ucast v))) c"

text \<open>The lower half of a register; an instruction that writes it clears the upper half.\<close>

definition half :: "nat \<Rightarrow> cpu \<Rightarrow> 32 word" where
  "half r c = word_of_int (gregs c ! r)"

section \<open>The operations\<close>

text \<open>\<open>lock cmpxchgl\<close> with the source in the register \<open>r\<close> and the address in the register \<open>p\<close>; \<open>lock xchgl\<close>.\<close>

definition cmpxchgl :: "nat \<Rightarrow> nat \<Rightarrow> cpu \<Rightarrow> cpu" where
  "cmpxchgl r p c = (let old = int_at c (gregs c ! p) in
     if old = half RAX c then put_int (gregs c ! p) (half r c) c else set_reg RAX (uint old) c)"

definition xchgl :: "nat \<Rightarrow> nat \<Rightarrow> cpu \<Rightarrow> cpu" where
  "xchgl r p c = (let old = int_at c (gregs c ! p) in set_reg r (uint old) (put_int (gregs c ! p) (half r c) c))"

definition atomic_test_and_set :: "cpu \<Rightarrow> cpu" where
  "atomic_test_and_set c =
     (let c1 = set_reg RDX (gregs c ! RDI) c;
          c2 = set_reg RCX 1 c1;
          c3 = set_reg RAX 0 c2
      in pop RIP (cmpxchgl RCX RDX c3))"

definition swap :: "cpu \<Rightarrow> cpu" where
  "swap c =
     (let c1 = set_reg RAX (gregs c ! RSI) c;
          c2 = set_reg RDX (gregs c1 ! RDI) c1
      in pop RIP (xchgl RAX RDX c2))"

definition compare_and_swap :: "cpu \<Rightarrow> cpu" where
  "compare_and_swap c =
     (let c1 = set_reg RAX (uint (half RSI c)) c;
          c2 = set_reg RSI (gregs c1 ! RDI) c1;
          c3 = set_reg RDI (gregs c2 ! RDX) c2
      in pop RIP (cmpxchgl RDI RSI c3))"

definition atomic_clear :: "int \<Rightarrow> cpu \<Rightarrow> cpu" where
  "atomic_clear l c = put_int l 0 c"

text \<open>The blocks that \<open>malloc\<close> has returned and that are not yet free. The two fields of the structure that \<open>ftime\<close> fills in.\<close>

definition minithread_free_stack :: "int \<Rightarrow> int set \<Rightarrow> int set res" where
  "minithread_free_stack stackbase blocks =
     (if stackbase = 0 then Inr blocks else if stackbase \<in> blocks then Inr (blocks - {stackbase}) else Inl Use_after_free)"

definition currentTimeMillis :: "64 word \<Rightarrow> 16 word \<Rightarrow> 64 word" where
  "currentTimeMillis tm millitm = (let lt = tm in let lt = lt * 1000 in lt + ucast millitm)"

section \<open>Reading what was written\<close>

lemma shift_cases:
  assumes "a mod 4 = (0 :: int)"
  shows "shift_of a = 0 \<and> a mod 8 = 0 \<or> shift_of a = 32 \<and> a mod 8 = 4"
proof -
  have "a mod 8 = 0 \<or> a mod 8 = 4" using assms by presburger
  then show ?thesis by (auto simp: shift_of_def)
qed

lemma half_halves:
  fixes w :: "64 word" and v :: "32 word"
  shows "ucast (w AND NOT (mask 32) OR ucast v) = v" "ucast (drop_bit 32 (w AND NOT (push_bit 32 (mask 32)) OR push_bit 32 (ucast v))) = v"
    "(ucast (drop_bit 32 (w AND NOT (mask 32) OR ucast v)) :: 32 word) = ucast (drop_bit 32 w)"
    "(ucast (w AND NOT (push_bit 32 (mask 32)) OR push_bit 32 (ucast v)) :: 32 word) = ucast w"
  by (rule bit_eqI; auto simp: bit_simps dest: bit_imp_le_length)+

lemma long_put: "(word_of_int (mem (put_int a v c) (a - a mod 8)) :: 64 word) =
  word_of_int (mem c (a - a mod 8)) AND NOT (push_bit (shift_of a) (mask 32)) OR push_bit (shift_of a) (ucast v)"
  by (simp add: put_int_def)

lemma int_at_put:
  assumes "a mod 4 = 0" "b mod 4 = 0"
  shows "int_at (put_int a v c) b = (if b = a then v else int_at c b)"
proof (cases "b - b mod 8 = a - a mod 8")
  case True
  note at = int_at_def [of "put_int a v c" b, unfolded True, unfolded long_put] int_at_def [of c b, unfolded True]
  show ?thesis
  proof (cases "b = a")
    case True
    have "int_at (put_int a v c) a = v"
      unfolding int_at_def long_put using shift_cases [OF assms(1)] by (elim disjE conjE) (simp_all only: half_halves push_bit_0_id drop_bit_0 id_apply)
    then show ?thesis using True by simp
  next
    case False
    then have "a mod 8 \<noteq> b mod 8" using True by linarith
    then have "shift_of a = 0 \<and> shift_of b = 32 \<or> shift_of a = 32 \<and> shift_of b = 0"
      using shift_cases [OF assms(1)] shift_cases [OF assms(2)] by auto
    then show ?thesis unfolding at using False by (elim disjE conjE) (simp_all only: half_halves push_bit_0_id drop_bit_0 id_apply if_False)
  qed
next
  case False
  then show ?thesis by (auto simp: int_at_def put_int_def)
qed

lemma int_at_cong: "mem d = mem c \<Longrightarrow> int_at d = int_at c"
  by (simp add: int_at_def fun_eq_iff)

lemma put_int_simps [simp]: "gregs (put_int a v c) = gregs c" "irq_level (put_int a v c) = irq_level c"
  "fp (put_int a v c) = fp c" "fpregs (put_int a v c) = fpregs c"
  by (simp_all add: put_int_def)

lemma put_int_other [simp]: "x \<noteq> a - a mod 8 \<Longrightarrow> mem (put_int a v c) x = mem c x"
  by (simp add: put_int_def)

lemma int_at_reg [simp]: "int_at (set_reg r v c) = int_at c" "int_at (pop r c) = int_at c"
  by (rule int_at_cong; simp)+

lemma half_int [simp]: "half r c = of_int (gregs c ! r)"
  by (simp add: half_def)

section \<open>What a caller sees\<close>

text \<open>
  The pointer \<open>x\<close> is in \<open>rdi\<close>, and it does not point to the return address. \<open>exchanged c d x v\<close>: the operation has returned the old
  value of the \<open>int\<close>, and written \<open>v\<close> and nothing else.
\<close>

definition exchanged :: "cpu \<Rightarrow> cpu \<Rightarrow> int \<Rightarrow> 32 word \<Rightarrow> bool" where
  "exchanged c d x v \<longleftrightarrow> of_int (gregs d ! RAX) = int_at c x \<and> int_at d x = v \<and> (\<forall>y. y mod 4 = 0 \<longrightarrow> y \<noteq> x \<longrightarrow> int_at d y = int_at c y) \<and>
     gregs d ! RIP = mem c (gregs c ! RSP) \<and> gregs d ! RSP = gregs c ! RSP + 8 \<and> irq_level d = irq_level c \<and> cpu_ok d"

definition callable :: "cpu \<Rightarrow> bool" where
  "callable c \<longleftrightarrow> cpu_ok c \<and> gregs c ! RDI mod 4 = 0 \<and> gregs c ! RSP \<noteq> gregs c ! RDI - gregs c ! RDI mod 8"

lemma swap_exchanges:
  assumes "callable c"
  shows "exchanged c (swap c) (gregs c ! RDI) (of_int (gregs c ! RSI))"
  using assms by (simp add: exchanged_def callable_def swap_def xchgl_def Let_def cpu_ok_def int_at_put)

lemma compare_and_swap_exchanges:
  assumes "callable c"
  shows "exchanged c (compare_and_swap c) (gregs c ! RDI)
    (if int_at c (gregs c ! RDI) = of_int (gregs c ! RSI) then of_int (gregs c ! RDX) else int_at c (gregs c ! RDI))"
  using assms by (auto simp: exchanged_def callable_def compare_and_swap_def cmpxchgl_def Let_def cpu_ok_def int_at_put)

text \<open>Against its comment, a lock with another value than 0 is not set to 1.\<close>

lemma test_and_set_exchanges:
  assumes "callable c"
  shows "exchanged c (atomic_test_and_set c) (gregs c ! RDI) (if int_at c (gregs c ! RDI) = 0 then 1 else int_at c (gregs c ! RDI))"
  using assms by (auto simp: exchanged_def callable_def atomic_test_and_set_def cmpxchgl_def Let_def cpu_ok_def int_at_put)

lemma test_and_set_keeps: "callable c \<Longrightarrow> int_at c (gregs c ! RDI) = 2 \<Longrightarrow> int_at (atomic_test_and_set c) (gregs c ! RDI) = 2"
  using test_and_set_exchanges [of c] by (simp add: exchanged_def)

lemma atomic_clear_int: "l mod 4 = 0 \<Longrightarrow> y mod 4 = 0 \<Longrightarrow> int_at (atomic_clear l c) y = (if y = l then 0 else int_at c y)"
  by (simp add: atomic_clear_def int_at_put)

section \<open>A lock\<close>

text \<open>Processors that share their memory call \<open>atomic_test_and_set\<close> one after the other; the results of the calls.\<close>

definition sees :: "cpu \<Rightarrow> cpu \<Rightarrow> cpu" where
  "sees c d = c\<lparr>mem := mem d\<rparr>"

lemma sees_simps [simp]: "gregs (sees c d) = gregs c" "cpu_ok (sees c d) = cpu_ok c" "callable (sees c d) = callable c" "int_at (sees c d) = int_at d"
  by (simp_all add: sees_def callable_def cpu_ok_def int_at_def fun_eq_iff)

fun try_lock :: "cpu list \<Rightarrow> cpu \<Rightarrow> 32 word list \<times> cpu" where
  "try_lock [] d = ([], d)"
| "try_lock (c # cs) d = (let e = atomic_test_and_set (sees c d); (rs, f) = try_lock cs e in (of_int (gregs e ! RAX) # rs, f))"

lemma try_lock_taken:
  assumes "\<forall>c\<in>set cs. callable c \<and> gregs c ! RDI = l" "int_at d l = 1"
  shows "fst (try_lock cs d) = replicate (length cs) 1 \<and> int_at (snd (try_lock cs d)) l = 1"
  using assms
proof (induction cs arbitrary: d)
  case Nil
  then show ?case by simp
next
  case (Cons c cs)
  have c: "callable (sees c d)" "gregs (sees c d) ! RDI = l" "int_at (sees c d) l = 1"
    using Cons.prems by simp_all
  then have e: "exchanged (sees c d) (atomic_test_and_set (sees c d)) l 1" using test_and_set_exchanges [OF c(1)] by simp
  then show ?case using Cons.IH [of "atomic_test_and_set (sees c d)"] Cons.prems(1) c(3) by (simp add: exchanged_def split_beta Let_def)
qed

text \<open>
  Of any number of callers that test and set a free lock, exactly the first sees 0, until the lock is cleared:
  then the next one does.
\<close>

theorem lock_taken_once:
  assumes "\<forall>b\<in>set (c # cs). callable b \<and> gregs b ! RDI = l" "int_at d l = 0"
  shows "fst (try_lock (c # cs) d) = 0 # replicate (length cs) 1 \<and> int_at (atomic_clear l (snd (try_lock (c # cs) d))) l = 0"
proof -
  have c: "callable (sees c d)" "gregs (sees c d) ! RDI = l" "int_at (sees c d) l = 0" "l mod 4 = 0"
    using assms by (auto simp: callable_def)
  then have e: "exchanged (sees c d) (atomic_test_and_set (sees c d)) l 1" using test_and_set_exchanges [OF c(1)] by simp
  then show ?thesis using try_lock_taken [of cs l "atomic_test_and_set (sees c d)"] assms(1) c(3,4)
    by (simp add: exchanged_def split_beta Let_def atomic_clear_int)
qed

section \<open>The interrupt level\<close>

text \<open>
  \<open>set_interrupt_level\<close> is a call of \<open>swap\<close> with the address of the variable: when the variable holds the level of the kernel state \<open>s\<close>,
  the call returns the old level and leaves the new one, as \<open>Alarm\<close> has it.
\<close>

lemma level_by_swap:
  assumes "callable c" "int_at c (gregs c ! RDI) = of_int (interrupt_level s)" "gregs c ! RSI = new"
    "set_interrupt_level new s = (old, s')"
  shows "of_int (gregs (swap c) ! RAX) = (of_int old :: 32 word) \<and> int_at (swap c) (gregs c ! RDI) = of_int (interrupt_level s')"
  using swap_exchanges [OF assms(1)] assms(2-4) by (auto simp: exchanged_def set_interrupt_level_def)

text \<open>
  The assembler code writes the level with \<open>movq\<close>, a long: when the variable is the lower half of a long, the \<open>int\<close> behind it is cleared.
\<close>

lemma level_store_clobbers:
  assumes "a mod 8 = 0"
  shows "int_at (store a 1 c) a = 1 \<and> int_at (store a 1 c) (a + 4) = 0"
proof -
  have "(a + 4) mod 8 = 4" using assms by presburger
  then show ?thesis using assms by (simp add: int_at_def shift_of_def)
qed

section \<open>Stacks and time\<close>

lemma free_stack_once: "base \<noteq> 0 \<Longrightarrow> base \<in> bs \<Longrightarrow>
  minithread_free_stack base bs = Inr (bs - {base}) \<and> minithread_free_stack base (bs - {base}) = Inl Use_after_free"
  by (simp add: minithread_free_stack_def)

text \<open>The time grows with the clock, for more than 500 million years.\<close>

lemma millis_value:
  assumes "uint tm < 2 ^ 54" "uint ms < 1000"
  shows "uint (currentTimeMillis tm ms) = 1000 * uint tm + uint ms"
proof -
  have m: "uint (ucast ms :: 64 word) = uint ms" by (simp add: uint_up_ucast is_up)
  have "uint (tm * 1000) = uint tm * 1000" using assms(1) by (subst uint_word_ariths) (simp add: mod_pos_pos_trivial)
  then have "uint (tm * 1000 + ucast ms) = uint tm * 1000 + uint ms"
    using assms m by (subst uint_word_ariths) (simp add: mod_pos_pos_trivial)
  then show ?thesis by (simp add: currentTimeMillis_def)
qed

lemma millis_mono:
  assumes "uint tm < 2 ^ 54" "uint un < 2 ^ 54" "uint ms < 1000" "uint ns < 1000" "tm < un \<or> tm = un \<and> ms \<le> ns"
  shows "currentTimeMillis tm ms \<le> currentTimeMillis un ns"
proof -
  have "1000 * uint tm + uint ms \<le> 1000 * uint un + uint ns"
    using assms(5)
  proof
    assume "tm < un"
    then show ?thesis using assms(3) uint_ge_0 [of ns] unfolding word_less_def by linarith
  next
    assume "tm = un \<and> ms \<le> ns"
    then show ?thesis by (simp add: word_le_def)
  qed
  then show ?thesis using assms(1-4) by (simp add: word_le_def millis_value)
qed

end
