(* ===== verification/Interrupts.thy ===== *)
theory Interrupts
  imports Machine "HOL-Library.Signed_Division"
begin

text \<open>
  Delivery of interrupts, \<^verbatim>\<open>src/P1-P4/interrupts.c\<close>, and the return from them, \<open>minithread_trampoline\<close> in
  \<^verbatim>\<open>src/P1-P4/machineprimitives_x86_64_asm.S\<close>. A signal shows the handler the context of the interrupted code: the processor of
  \<open>Machine\<close> with the registers \<open>gregs\<close>, the address \<open>fpregs\<close> where the system has saved the floating-point state (64 longs), and eight
  reserved longs. The handler builds a frame on the interrupted stack and changes the context, which the system resumes. The addresses of \<open>start\<close>,
  \<open>end\<close> and of the trampoline, and what system calls return, are arguments.
\<close>

section \<open>Blocks of longs\<close>

fun store_longs :: "int \<Rightarrow> int list \<Rightarrow> cpu \<Rightarrow> cpu" where
  "store_longs a [] c = c"
| "store_longs a (v # vs) c = store_longs (a + 8) vs (store a v c)"

definition longs :: "(int \<Rightarrow> int) \<Rightarrow> int \<Rightarrow> nat \<Rightarrow> int list" where
  "longs m a n = map (\<lambda>i. m (a + 8 * int i)) [0..<n]"

section \<open>Signals\<close>

abbreviation (input) ENABLED :: int where "ENABLED \<equiv> 1"
abbreviation (input) DISABLED :: int where "DISABLED \<equiv> 0"
abbreviation (input) DISK_INTERRUPT_TYPE :: int where "DISK_INTERRUPT_TYPE \<equiv> 4"
abbreviation (input) READ_INTERRUPT_TYPE :: int where "READ_INTERRUPT_TYPE \<equiv> 3"
abbreviation (input) NETWORK_INTERRUPT_TYPE :: int where "NETWORK_INTERRUPT_TYPE \<equiv> 2"

text \<open>\<open>SIGRTMAX\<close> of Linux.\<close>

abbreviation (input) SIGRTMAX :: int where "SIGRTMAX \<equiv> 64"

text \<open>The \<open>interrupt_t\<close> that a signal carries, and the variables of the file.\<close>

record interrupt =
  int_handler :: int
  int_arg :: int

record isr =
  mini_clock_handler :: int
  mini_network_handler :: int
  mini_read_handler :: int
  mini_disk_handler :: int
  signal_handled :: int
  interrupt_received_sema :: int

text \<open>The frame: the return address, the floating-point state when there is one, the address of the return address, the context, the address of the
  floating-point state and the trampoline. The result has the new stack pointer.\<close>

definition push_frame :: "int \<Rightarrow> int list \<Rightarrow> cpu \<Rightarrow> int \<times> cpu" where
  "push_frame trampoline reserved c =
     (let newsp1 = gregs c ! RSP - 8;
          c1 = store newsp1 (gregs c ! RIP) c;
          newsp2 = newsp1 AND NOT 15;
          (newsp3, c3) =
            (if fpregs c1 \<noteq> 0
             then (newsp2 - 512, (store_longs (newsp2 - 512) (longs (mem c1) (fpregs c1) 64) c1)\<lparr>fpregs := newsp2 - 512\<rparr>)
             else (newsp2, c1));
          newsp4 = newsp3 - 8;
          c4 = store newsp4 (gregs c3 ! RSP - 8) c3;
          newsp5 = newsp4 - 256;
          c5 = store_longs newsp5 (gregs c4 @ [fpregs c4] @ reserved) c4;
          newsp6 = newsp5 - 8;
          c6 = store newsp6 (fpregs c5) c5;
          newsp7 = newsp6 - 8
      in (newsp7, store newsp7 trampoline c6))"

text \<open>The handler of both signals. \<open>None\<close> is the abort on a signal that it does not know.\<close>

definition handle_interrupt ::
  "int \<Rightarrow> int \<Rightarrow> int \<Rightarrow> int \<Rightarrow> interrupt \<Rightarrow> int list \<Rightarrow> cpu \<Rightarrow> isr \<Rightarrow> (cpu \<times> isr) option" where
  "handle_interrupt start stop trampoline sig si reserved c s =
     (let taken =
        (let eip = gregs c ! RIP
         in if irq_level c = ENABLED \<and> start < eip \<and> eip < stop
            then (let (newsp, c1) = push_frame trampoline reserved c
                  in if sig = SIGRTMAX - 2
                     then Some ((set_reg RDI (int_arg si) (set_reg RIP (int_handler si) (set_reg RSP newsp c1)))\<lparr>irq_level := DISABLED\<rparr>,
                                s\<lparr>signal_handled := 1\<rparr>)
                     else if sig = SIGRTMAX - 1
                     then Some (set_reg RDI 0 (set_reg RIP (mini_clock_handler s) (set_reg RSP newsp c1)), s)
                     else None)
            else Some (c, s))
      in case taken of None \<Rightarrow> None
         | Some (d, s1) \<Rightarrow>
             Some (d, if sig = SIGRTMAX - 2 then s1\<lparr>interrupt_received_sema := interrupt_received_sema s1 + 1\<rparr> else s1))"

text \<open>The trampoline. The flags that \<open>cmpq\<close> and \<open>add\<close> set are overwritten by \<open>popfq\<close>, and nothing after it changes them.\<close>

definition minithread_trampoline :: "cpu \<Rightarrow> cpu" where
  "minithread_trampoline c =
     (let c1 = pop RAX c;
          c2 = (if gregs c1 ! RAX = 0 then c1 else c1\<lparr>fp := longs (mem c1) (gregs c1 ! RAX) 64\<rparr>);
          c3 = pop_regs [R8, R9, R10, R11, R12, R13, R14, R15, RDI, RSI, RBP, RBX, RDX, RAX, RCX] c2;
          c4 = set_reg RSP (gregs c3 ! RSP + 0x10) c3;
          c5 = pop EFL c4;
          c6 = set_reg RSP (mem c5 (gregs c5 ! RSP + 0x70)) c5;
          c7 = c6\<lparr>irq_level := 1\<rparr>
      in pop RIP c7)"

section \<open>Sending an interrupt\<close>

definition chosen_handler :: "int \<Rightarrow> isr \<Rightarrow> int option" where
  "chosen_handler interrupt_type s =
     (if interrupt_type = NETWORK_INTERRUPT_TYPE then Some (mini_network_handler s)
      else if interrupt_type = READ_INTERRUPT_TYPE then Some (mini_read_handler s)
      else if interrupt_type = DISK_INTERRUPT_TYPE then Some (mini_disk_handler s)
      else None)"

text \<open>
  The loop of the sender: the list has the contexts of the processor, with their reserved longs, at which its signals arrive. The result has what
  becomes of them, the variables, and whether the call has returned; \<open>None\<close> is an abort. The parameter \<open>handler\<close> is not used by the code.
\<close>

fun send_interrupt ::
  "int \<Rightarrow> int \<Rightarrow> int \<Rightarrow> int \<Rightarrow> int \<Rightarrow> int \<Rightarrow> isr \<Rightarrow> (cpu \<times> int list) list \<Rightarrow> (cpu list \<times> isr \<times> bool) option" where
  "send_interrupt start stop trampoline interrupt_type handler arg s [] =
     (case chosen_handler interrupt_type (s\<lparr>signal_handled := 0\<rparr>) of None \<Rightarrow> None | Some h \<Rightarrow> Some ([], s\<lparr>signal_handled := 0\<rparr>, False))"
| "send_interrupt start stop trampoline interrupt_type handler arg s ((c, reserved) # cs) =
     (let s1 = s\<lparr>signal_handled := 0\<rparr>
      in case chosen_handler interrupt_type s1 of None \<Rightarrow> None
         | Some h \<Rightarrow>
           (case handle_interrupt start stop trampoline (SIGRTMAX - 2) \<lparr>int_handler = h, int_arg = arg\<rparr> reserved c s1 of None \<Rightarrow> None
            | Some (d, s2) \<Rightarrow>
               (let s3 = s2\<lparr>interrupt_received_sema := interrupt_received_sema s2 - 1\<rparr>
                in if signal_handled s3 \<noteq> 0 then Some ([d], s3, True)
                   else (case send_interrupt start stop trampoline interrupt_type handler arg s3 cs of None \<Rightarrow> None
                         | Some (ds, s4, returned) \<Rightarrow> Some (d # ds, s4, returned)))))"

section \<open>The clock\<close>

datatype clock_outcome = Clock_started int int isr | Clock_aborted isr | Clock_exited isr

text \<open>
  The seconds and nanoseconds of the timer, its first shot and its interval alike. The booleans tell which of the calls of \<open>malloc\<close>, \<open>sigaltstack\<close>,
  \<open>sigaction\<close>, \<open>timer_create\<close> and \<open>timer_settime\<close> succeed.
\<close>

definition minithread_clock_init :: "int \<Rightarrow> int \<Rightarrow> bool \<Rightarrow> bool \<Rightarrow> bool \<Rightarrow> bool \<Rightarrow> (int \<Rightarrow> int \<Rightarrow> bool) \<Rightarrow> isr \<Rightarrow> clock_outcome" where
  "minithread_clock_init period clock_handler malloc_ok altstack_ok action_ok create_ok settime_ok s =
     (let s1 = s\<lparr>mini_clock_handler := clock_handler, interrupt_received_sema := 0\<rparr>
      in if \<not> malloc_ok then Clock_aborted s1
         else if \<not> altstack_ok then Clock_aborted s1
         else if \<not> action_ok then Clock_exited s1
         else if \<not> create_ok then Clock_exited s1
         else (let sec = period sdiv 1000000000; nsec = period smod 1000000000
               in if \<not> settime_ok sec nsec then Clock_exited s1 else Clock_started sec nsec s1))"

section \<open>Lemmas\<close>

lemma store_longs_simps [simp]: "gregs (store_longs a vs c) = gregs c" "fp (store_longs a vs c) = fp c" "fpregs (store_longs a vs c) = fpregs c"
  "irq_level (store_longs a vs c) = irq_level c"
  by (induction vs arbitrary: a c) simp_all

lemma store_longs_other: "x < a \<or> a + 8 * int (length vs) \<le> x \<Longrightarrow> mem (store_longs a vs c) x = mem c x"
proof (induction vs arbitrary: a c)
  case Nil
  then show ?case by simp
next
  case (Cons v vs)
  then show ?case using Cons.IH [of "a + 8" "store a v c"] by auto
qed

lemma store_longs_nth: "i < length vs \<Longrightarrow> mem (store_longs a vs c) (a + 8 * int i) = vs ! i"
proof (induction vs arbitrary: a c i)
  case Nil
  then show ?case by simp
next
  case (Cons v vs)
  show ?case
  proof (cases i)
    case 0
    then show ?thesis using store_longs_other [of a "a + 8" vs "store a v c"] by simp
  next
    case (Suc j)
    then show ?thesis using Cons.IH [of j "a + 8" "store a v c"] Cons.prems by (simp add: algebra_simps)
  qed
qed

lemma longs_nth [simp]: "length (longs m a n) = n" "i < n \<Longrightarrow> longs m a n ! i = m (a + 8 * int i)"
  by (simp_all add: longs_def)

lemma longs_eqI: "(\<And>i. i < n \<Longrightarrow> m (a + 8 * int i) = m' (b + 8 * int i)) \<Longrightarrow> longs m a n = longs m' b n"
  by (simp add: longs_def)

lemma round_down: "\<exists>k. 0 \<le> k \<and> k < 16 \<and> (x AND NOT 15 :: int) = x - k \<and> (x AND NOT 15) mod 16 = 0"
proof -
  have "x AND NOT 15 = x - x mod 16" using round16 [of x] by simp
  then show ?thesis by (intro exI [of _ "x mod 16"]) (simp add: minus_mod_eq_mult_div)
qed

text \<open>What the frame at \<open>n\<close> of the interrupted processor \<open>c\<close> holds in the memory \<open>m\<close>.\<close>

definition framed :: "cpu \<Rightarrow> int \<Rightarrow> int \<Rightarrow> (int \<Rightarrow> int) \<Rightarrow> bool" where
  "framed c n fpaddr m \<longleftrightarrow> m (n + 8) = fpaddr \<and> (\<forall>i<23. m (n + 16 + 8 * int i) = gregs c ! i) \<and> m (n + 272) = gregs c ! RSP - 8 \<and>
     m (gregs c ! RSP - 8) = gregs c ! RIP \<and>
     (if fpregs c = 0 then fpaddr = 0 else fpaddr \<noteq> 0 \<and> longs m fpaddr 64 = longs (mem c) (fpregs c) 64 \<and>
       n + 280 \<le> fpaddr \<and> fpaddr + 512 \<le> gregs c ! RSP - 8)"

text \<open>The stack pointer is that of a C program, and the system keeps the floating-point state away from the room of the frame.\<close>

definition stack_room :: "cpu \<Rightarrow> bool" where
  "stack_room c \<longleftrightarrow> cpu_ok c \<and> 808 < gregs c ! RSP \<and> gregs c ! RSP mod 8 = 0 \<and>
     (fpregs c \<noteq> 0 \<longrightarrow> fpregs c + 512 \<le> gregs c ! RSP - 808 \<or> gregs c ! RSP \<le> fpregs c)"

lemma push_frame_parts:
  assumes "stack_room c" "length reserved = 8" "push_frame tr reserved c = (n, d)"
  shows "gregs d = gregs c \<and> irq_level d = irq_level c \<and> n mod 16 = 8 \<and> gregs c ! RSP - 808 \<le> n \<and> n + 280 \<le> gregs c ! RSP - 8 \<and>
    mem d n = tr \<and> (\<forall>x. x < n \<or> gregs c ! RSP \<le> x \<longrightarrow> mem d x = mem c x) \<and> framed c n (fpregs d) (mem d)"
proof -
  define sp where "sp = gregs c ! RSP"
  have r: "sp mod 8 = 0" "808 < sp" "length (gregs c) = 23" "fpregs c \<noteq> 0 \<Longrightarrow> fpregs c + 512 \<le> sp - 808 \<or> sp \<le> fpregs c"
    using assms(1) by (auto simp: stack_room_def cpu_ok_def sp_def)
  define n2 where "n2 = (sp - 8) AND NOT 15"
  obtain k where k: "0 \<le> k" "k < 16" "n2 = sp - 8 - k" "n2 mod 16 = 0" unfolding n2_def using round_down by blast
  have n2: "sp - 16 \<le> n2" "n2 \<le> sp - 8" "n2 mod 16 = 0" using k r(1) by presburger+
  define c1 where "c1 = store (sp - 8) (gregs c ! RIP) c"
  define c3 where "c3 = (if fpregs c1 \<noteq> 0 then (store_longs (n2 - 512) (longs (mem c1) (fpregs c1) 64) c1)\<lparr>fpregs := n2 - 512\<rparr> else c1)"
  define n3 where "n3 = (if fpregs c1 \<noteq> 0 then n2 - 512 else n2)"
  define c4 where "c4 = store (n3 - 8) (sp - 8) c3"
  define vs where "vs = gregs c @ [fpregs c3] @ reserved"
  define c5 where "c5 = store_longs (n3 - 264) vs c4"
  define c6 where "c6 = store (n3 - 272) (fpregs c3) c5"
  have g: "gregs c3 = gregs c" "irq_level c3 = irq_level c" "fpregs c1 = fpregs c" by (simp_all add: c3_def c1_def)
  have nd: "n = n3 - 280" "d = store (n3 - 280) tr c6"
    using assms(3) unfolding push_frame_def Let_def sp_def [symmetric] c1_def [symmetric] n2_def [symmetric]
    by (auto simp: c6_def c5_def c4_def vs_def n3_def c3_def g(3) c1_def sp_def)
  have vs: "length vs = 32" "\<And>i. i < 23 \<Longrightarrow> vs ! i = gregs c ! i" using r(3) assms(2) by (simp_all add: vs_def nth_append)
  have n3: "n3 mod 16 = 0" "n3 \<le> n2" "n2 - 512 \<le> n3" using n2(3) by (simp_all add: n3_def) presburger
  have dm: "mem d x = (if x = n3 - 280 then tr else if x = n3 - 272 then fpregs c3 else mem c5 x)" for x by (simp add: nd c6_def)
  have high: "mem d x = mem c3 x" if "n3 \<le> x" for x
    using that store_longs_other [of x "n3 - 264" vs c4] vs(1) by (simp add: dm c5_def c4_def)
  have regs: "mem d (n + 16 + 8 * int i) = gregs c ! i" if "i < 23" for i
  proof -
    have "mem c5 (n3 - 264 + 8 * int i) = vs ! i" unfolding c5_def by (rule store_longs_nth) (use that vs(1) in simp)
    then show ?thesis using that vs(2) by (simp add: dm nd(1))
  qed
  have ripaddr: "mem d (n + 272) = sp - 8"
    using store_longs_other [of "n3 - 8" "n3 - 264" vs c4] vs(1) by (simp add: dm nd(1) c5_def c4_def)
  have c3m: "mem c3 x = mem c1 x" if "x < n3 \<or> n2 \<le> x" for x
    using that store_longs_other [of x "n2 - 512" "longs (mem c1) (fpregs c1) 64" c1] by (auto simp: c3_def n3_def)
  have rip: "mem d (sp - 8) = gregs c ! RIP" using high [of "sp - 8"] c3m [of "sp - 8"] n2 n3 by (simp add: c1_def)
  have out: "mem d x = mem c x" if "x < n \<or> sp \<le> x" for x
  proof (cases "x < n")
    case True
    then have "mem d x = mem c5 x" by (simp add: dm nd(1))
    also have "\<dots> = mem c3 x" using True store_longs_other [of x "n3 - 264" vs c4] by (simp add: c5_def c4_def nd(1))
    also have "\<dots> = mem c x" using True c3m [of x] n2 n3 by (simp add: nd(1) c1_def)
    finally show ?thesis .
  next
    case False
    then have "sp \<le> x" using that by simp
    then show ?thesis using high [of x] c3m [of x] n2 n3 by (simp add: c1_def)
  qed
  have fps: "if fpregs c = 0 then fpregs d = 0 else fpregs d \<noteq> 0 \<and> longs (mem d) (fpregs d) 64 = longs (mem c) (fpregs c) 64 \<and>
       n + 280 \<le> fpregs d \<and> fpregs d + 512 \<le> sp - 8"
  proof (cases "fpregs c = 0")
    case True
    then show ?thesis by (simp add: nd c6_def c5_def c4_def c3_def c1_def)
  next
    case False
    have f: "fpregs d = n2 - 512" "n3 = n2 - 512" using False by (simp_all add: nd c6_def c5_def c4_def c3_def n3_def g(3))
    have "mem d (n2 - 512 + 8 * int i) = mem c (fpregs c + 8 * int i)" if "i < 64" for i
    proof -
      have "mem d (n2 - 512 + 8 * int i) = mem c3 (n2 - 512 + 8 * int i)" using high f(2) by simp
      also have "\<dots> = longs (mem c1) (fpregs c1) 64 ! i" using False that by (simp add: c3_def g(3) store_longs_nth)
      also have "\<dots> = mem c (fpregs c + 8 * int i)" using that r(4) [OF False] by (auto simp: g(3) c1_def)
      finally show ?thesis .
    qed
    then have "longs (mem d) (fpregs d) 64 = longs (mem c) (fpregs c) 64" unfolding f(1) by (rule longs_eqI)
    then show ?thesis using False f n2 r(2) by (simp add: nd(1))
  qed
  have low: "gregs c ! RSP - 808 \<le> n" "n + 280 \<le> gregs c ! RSP - 8" using n2 n3 by (simp_all add: nd(1) sp_def [symmetric])
  have "n mod 16 = 8" using n3(1) unfolding nd(1) by presburger
  moreover have "gregs d = gregs c" "irq_level d = irq_level c" using g by (simp_all add: nd c6_def c5_def c4_def)
  moreover have "mem d n = tr" by (simp add: nd)
  moreover have "mem d (n + 8) = fpregs d" by (simp add: nd c6_def c5_def c4_def)
  ultimately show ?thesis using low out regs ripaddr rip fps unfolding framed_def sp_def [symmetric] by blast
qed

lemma trampoline_restores:
  assumes "cpu_ok h" "gregs h ! RSP = n + 8" "framed c n fpaddr (mem h)"
  shows "(\<forall>i<18. gregs (minithread_trampoline h) ! i = gregs c ! i) \<and> irq_level (minithread_trampoline h) = 1 \<and>
    mem (minithread_trampoline h) = mem h \<and> (fpregs c \<noteq> 0 \<longrightarrow> fp (minithread_trampoline h) = longs (mem c) (fpregs c) 64)"
proof -
  define rs where "rs = [R8, R9, R10, R11, R12, R13, R14, R15, RDI, RSI, RBP, RBX, RDX, RAX, RCX]"
  have rs: "length rs = 15" "distinct rs" "set rs \<subseteq> {..<15}" by (simp_all add: rs_def)
  have "\<forall>i\<in>set [0..<15]. rs ! i = i" unfolding rs_def by code_simp
  then have rsi: "rs ! i = i" if "i < 15" for i using that by simp
  define c1 where "c1 = pop RAX h"
  define c2 where "c2 = (if gregs c1 ! RAX = 0 then c1 else c1\<lparr>fp := longs (mem c1) (gregs c1 ! RAX) 64\<rparr>)"
  define c3 where "c3 = pop_regs rs c2"
  define c4 where "c4 = set_reg RSP (gregs c3 ! RSP + 0x10) c3"
  define c5 where "c5 = pop EFL c4"
  define c6 where "c6 = set_reg RSP (mem c5 (gregs c5 ! RSP + 0x70)) c5"
  have r: "minithread_trampoline h = pop RIP (c6\<lparr>irq_level := 1\<rparr>)"
    unfolding minithread_trampoline_def Let_def c6_def c5_def c4_def c3_def c2_def c1_def rs_def by (rule refl)
  have m: "mem h (n + 8) = fpaddr" "\<And>i. i < 23 \<Longrightarrow> mem h (n + 16 + 8 * int i) = gregs c ! i" "mem h (n + 272) = gregs c ! RSP - 8"
    "mem h (gregs c ! RSP - 8) = gregs c ! RIP"
    using assms(3) by (simp_all add: framed_def)
  have l: "length (gregs h) = 23" using assms(1) by (simp add: cpu_ok_def)
  have s1: "gregs c1 ! RAX = fpaddr" "gregs c1 ! RSP = n + 16" "mem c1 = mem h" "length (gregs c1) = 23"
    using l assms(2) m(1) by (simp_all add: c1_def)
  have s2: "gregs c2 = gregs c1" "mem c2 = mem h" "length (gregs c2) = 23" using s1 by (simp_all add: c2_def)
  have p: "poppable rs c2" using rs s2(3) by (auto simp: poppable_def)
  have s3: "gregs c3 ! RSP = n + 136" "mem c3 = mem h" "length (gregs c3) = 23"
    using pop_regs_sp [OF p] s1 s2 rs(1) by (simp_all add: c3_def)
  have low: "gregs c3 ! i = gregs c ! i" if "i < 15" for i
    using pop_regs_nth [OF p, of i] that rs(1) rsi s1 s2 m(2) by (simp add: c3_def)
  have s5: "gregs c5 ! RSP = n + 160" "gregs c5 ! EFL = gregs c ! EFL" "mem c5 = mem h" "length (gregs c5) = 23"
    "\<And>i. i < 15 \<Longrightarrow> gregs c5 ! i = gregs c ! i"
    using s3 m(2) [of 17] low by (simp_all add: c5_def c4_def)
  have s6: "gregs c6 ! RSP = gregs c ! RSP - 8" "mem c6 = mem h" "length (gregs c6) = 23"
    "\<And>i. i \<noteq> 15 \<Longrightarrow> gregs c6 ! i = gregs c5 ! i"
    using s5 m(3) by (simp_all add: c6_def add.commute)
  have "gregs (minithread_trampoline h) ! i = gregs c ! i" if "i < 18" for i
  proof -
    have "i < 15 \<or> i = RSP \<or> i = RIP \<or> i = EFL" using that by auto
    then show ?thesis using s6 s5 m(4) by (auto simp: r)
  qed
  moreover have "fp (minithread_trampoline h) = longs (mem c) (fpregs c) 64" if "fpregs c \<noteq> 0"
  proof -
    have f: "fpaddr \<noteq> 0" "longs (mem h) fpaddr 64 = longs (mem c) (fpregs c) 64" using assms(3) that by (simp_all add: framed_def)
    then have "fp c2 = longs (mem c) (fpregs c) 64" using s1 by (simp add: c2_def)
    then show ?thesis by (simp add: r c6_def c5_def c4_def c3_def)
  qed
  ultimately show ?thesis using s6(2) by (simp add: r)
qed

lemma framed_keep:
  assumes "framed c n fpaddr m" "\<forall>x. n + 8 \<le> x \<and> x < gregs c ! RSP \<longrightarrow> m' x = m x" "n + 280 \<le> gregs c ! RSP - 8"
  shows "framed c n fpaddr m'"
proof -
  have k: "m' x = m x" if "n + 8 \<le> x" "x < gregs c ! RSP" for x using assms(2) that by blast
  have "longs m' fpaddr 64 = longs m fpaddr 64" if "fpregs c \<noteq> 0"
    by (rule longs_eqI) (use assms(1) that in \<open>auto simp: framed_def intro!: k\<close>)
  then show ?thesis using assms(1,3) k by (auto simp: framed_def)
qed

definition deliverable :: "int \<Rightarrow> int \<Rightarrow> cpu \<Rightarrow> bool" where
  "deliverable start stop c \<longleftrightarrow> irq_level c = ENABLED \<and> start < gregs c ! RIP \<and> gregs c ! RIP < stop"

section \<open>Properties\<close>

text \<open>
  C6: an interrupt taken by code with interrupts enabled starts the handler of its kind with its argument, on the same stack, aligned as a
  call is, at most 808 bytes below, without touching the stack above; when the handler returns with the frame intact, the trampoline puts back every
  register, the flags, the stack pointer, the floating-point state and the place of the interruption, and enables interrupts.
\<close>

theorem interrupt_transparent:
  assumes "stack_room c" "length reserved = 8" "deliverable start stop c" "sig = SIGRTMAX - 2 \<or> sig = SIGRTMAX - 1"
    "handle_interrupt start stop trampoline sig si reserved c s = Some (d, s')"
    "cpu_ok h" "gregs h ! RSP = gregs d ! RSP + 8" "\<forall>x. gregs d ! RSP + 8 \<le> x \<and> x < gregs c ! RSP \<longrightarrow> mem h x = mem d x"
  shows "(if sig = SIGRTMAX - 2 then gregs d ! RIP = int_handler si \<and> gregs d ! RDI = int_arg si \<and> irq_level d = DISABLED
      else gregs d ! RIP = mini_clock_handler s \<and> gregs d ! RDI = 0 \<and> irq_level d = ENABLED) \<and>
    gregs d ! RSP mod 16 = 8 \<and> mem d (gregs d ! RSP) = trampoline \<and> gregs c ! RSP - 808 \<le> gregs d ! RSP \<and>
    (\<forall>x. x < gregs d ! RSP \<or> gregs c ! RSP \<le> x \<longrightarrow> mem d x = mem c x) \<and>
    (let r = minithread_trampoline h
     in (\<forall>i<18. gregs r ! i = gregs c ! i) \<and> irq_level r = ENABLED \<and> mem r = mem h \<and>
        (fpregs c \<noteq> 0 \<longrightarrow> fp r = longs (mem c) (fpregs c) 64))"
proof -
  obtain n e where ne: "push_frame trampoline reserved c = (n, e)" by fastforce
  note p = push_frame_parts [OF assms(1,2) ne]
  have l: "length (gregs e) = 23" "irq_level e = 1" using p assms(1,3) by (auto simp: stack_room_def cpu_ok_def deliverable_def)
  have d: "gregs d ! RSP = n" "mem d = mem e"
    "if sig = 62 then gregs d ! RIP = int_handler si \<and> gregs d ! RDI = int_arg si \<and> irq_level d = 0
      else gregs d ! RIP = mini_clock_handler s \<and> gregs d ! RDI = 0 \<and> irq_level d = 1"
    using assms(3-5) l by (auto simp: handle_interrupt_def deliverable_def ne)
  have "framed c n (fpregs e) (mem h)" by (rule framed_keep [of c n "fpregs e" "mem e"]) (use p d assms(8) in simp_all)
  then show ?thesis using trampoline_restores [OF assms(6)] assms(7) p d by (simp add: Let_def)
qed

lemma interrupt_transparent_witness:
  "let c = \<lparr>gregs = [0, 1, 2, 3, 4, 5, 6, 7, 8, 9, 10, 11, 12, 13, 14, 4096, 50, 17, 0, 0, 0, 0, 0], fp = [], fpregs = 65536, mem = (\<lambda>x. x), irq_level = 1\<rparr>
   in case handle_interrupt 10 99 7 62 \<lparr>int_handler = 70, int_arg = 71\<rparr> (replicate 8 0) c \<lparr>mini_clock_handler = 1, mini_network_handler = 2,
          mini_read_handler = 3, mini_disk_handler = 4, signal_handled = 0, interrupt_received_sema = 0\<rparr> of
       None \<Rightarrow> False
     | Some (d, s') \<Rightarrow> gregs d ! RIP = 70 \<and> gregs d ! RDI = 71 \<and>
         (let r = minithread_trampoline (d\<lparr>gregs := (gregs d)[RSP := gregs d ! RSP + 8]\<rparr>)
          in gregs r ! RBX = 11 \<and> gregs r ! RSP = 4096 \<and> gregs r ! RIP = 50 \<and> fp r = longs (\<lambda>x. x) 65536 64)"
proof -
  define c where "c = \<lparr>gregs = [0, 1, 2, 3, 4, 5, 6, 7, 8, 9, 10, 11, 12, 13, 14, 4096, 50, 17, 0, 0, 0, 0, 0], fp = [], fpregs = 65536, mem = (\<lambda>x. x), irq_level = 1\<rparr>"
  define s where "s = \<lparr>mini_clock_handler = 1, mini_network_handler = 2, mini_read_handler = 3, mini_disk_handler = 4, signal_handled = 0,
      interrupt_received_sema = 0\<rparr>"
  have c: "stack_room c" "deliverable 10 99 c" "gregs c ! RBX = 11" "gregs c ! RSP = 4096" "gregs c ! RIP = 50" "fpregs c \<noteq> 0"
    "mem c = (\<lambda>x. x)" "fpregs c = 65536"
    by (simp_all add: c_def stack_room_def cpu_ok_def deliverable_def)
  have r: "length (replicate 8 (0 :: int)) = 8" by simp
  obtain n e where ne: "push_frame 7 (replicate 8 0) c = (n, e)" by fastforce
  obtain d s' where d: "handle_interrupt 10 99 7 62 \<lparr>int_handler = 70, int_arg = 71\<rparr> (replicate 8 0) c s = Some (d, s')" "length (gregs d) = length (gregs e)"
    using c(2) by (auto simp: handle_interrupt_def deliverable_def ne)
  define h where "h = d\<lparr>gregs := (gregs d)[RSP := gregs d ! RSP + 8]\<rparr>"
  have "length (gregs d) = 23" using push_frame_parts [OF c(1) r ne] c(1) d(2) by (simp add: stack_room_def cpu_ok_def)
  then have h: "cpu_ok h" "gregs h ! RSP = gregs d ! RSP + 8" "mem h = mem d" by (simp_all add: h_def cpu_ok_def)
  have "\<forall>x. gregs d ! RSP + 8 \<le> x \<and> x < gregs c ! RSP \<longrightarrow> mem h x = mem d x" using h(3) by simp
  from interrupt_transparent [OF c(1) r c(2) _ _ h(1,2) this, of 62 7 "\<lparr>int_handler = 70, int_arg = 71\<rparr>" s s'] d(1) c(3-)
  show ?thesis unfolding c_def [symmetric] s_def [symmetric] by (simp add: Let_def h_def [symmetric])
qed

text \<open>
  With interrupts disabled, or outside the code between \<open>start\<close> and \<open>end\<close>, a signal changes nothing of the interrupted code; only the
  sender is told that its signal has arrived.
\<close>

theorem interrupts_dropped:
  assumes "\<not> deliverable start stop c"
  shows "handle_interrupt start stop trampoline sig si reserved c s =
    Some (c, if sig = SIGRTMAX - 2 then s\<lparr>interrupt_received_sema := interrupt_received_sema s + 1\<rparr> else s)"
  using assms by (auto simp: handle_interrupt_def deliverable_def)

lemma interrupts_dropped_witness:
  "let c = \<lparr>gregs = [0, 1, 2, 3, 4, 5, 6, 7, 8, 9, 10, 11, 12, 13, 14, 4096, 50, 17, 0, 0, 0, 0, 0], fp = [], fpregs = 65536, mem = (\<lambda>x. x), irq_level = 0\<rparr>
   in handle_interrupt 10 99 7 63 \<lparr>int_handler = 70, int_arg = 71\<rparr> (replicate 8 0) c \<lparr>mini_clock_handler = 1, mini_network_handler = 2,
          mini_read_handler = 3, mini_disk_handler = 4, signal_handled = 0, interrupt_received_sema = 0\<rparr> =
        Some (c, \<lparr>mini_clock_handler = 1, mini_network_handler = 2, mini_read_handler = 3, mini_disk_handler = 4, signal_handled = 0,
          interrupt_received_sema = 0\<rparr>)"
  unfolding Let_def by (subst interrupts_dropped) (simp_all add: deliverable_def)

lemma handled_62: "deliverable start stop c \<Longrightarrow> stack_room c \<Longrightarrow> length reserved = 8 \<Longrightarrow>
  \<exists>d. handle_interrupt start stop trampoline 62 si reserved c s =
    Some (d, s\<lparr>signal_handled := 1, interrupt_received_sema := interrupt_received_sema s + 1\<rparr>) \<and>
    gregs d ! RIP = int_handler si \<and> gregs d ! RDI = int_arg si \<and> irq_level d = 0"
proof -
  assume a: "deliverable start stop c" "stack_room c" "length reserved = 8"
  obtain n e where ne: "push_frame trampoline reserved c = (n, e)" by fastforce
  have "length (gregs e) = 23" using push_frame_parts [OF a(2,3) ne] a(2) by (simp add: stack_room_def cpu_ok_def)
  then show ?thesis using a(1) by (simp add: handle_interrupt_def deliverable_def ne)
qed

lemma dropped_62: "\<not> deliverable start stop c \<Longrightarrow> handle_interrupt start stop trampoline 62 si reserved c s =
  Some (c, s\<lparr>interrupt_received_sema := interrupt_received_sema s + 1\<rparr>)"
  by (auto simp: handle_interrupt_def deliverable_def)

text \<open>
  C28: the sender of an interrupt repeats its signal until it finds the processor with interrupts enabled and in the program; that one signal
  starts the handler for its type with its argument, all before it change nothing, and the call returns. A type without handler aborts at once.
\<close>

theorem interrupt_sent_once:
  assumes "\<forall>p\<in>set pre. \<not> deliverable start stop (fst p)" "deliverable start stop c" "stack_room c" "length reserved = 8"
  shows "case chosen_handler interrupt_type s of
      None \<Rightarrow> send_interrupt start stop trampoline interrupt_type handler arg s (pre @ (c, reserved) # post) = None
    | Some h \<Rightarrow> \<exists>d. gregs d ! RIP = h \<and> gregs d ! RDI = arg \<and> irq_level d = DISABLED \<and>
        send_interrupt start stop trampoline interrupt_type handler arg s (pre @ (c, reserved) # post) =
          Some (map fst pre @ [d], s\<lparr>signal_handled := 1\<rparr>, True)"
  using assms(1)
proof (induction pre arbitrary: s)
  case Nil
  show ?case
  proof (cases "chosen_handler interrupt_type s")
    case None
    then show ?thesis by (simp add: chosen_handler_def split: if_splits)
  next
    case (Some h)
    then have h: "chosen_handler interrupt_type (s\<lparr>signal_handled := 0\<rparr>) = Some h" by (simp add: chosen_handler_def split: if_splits)
    obtain d where d: "handle_interrupt start stop trampoline 62 \<lparr>int_handler = h, int_arg = arg\<rparr> reserved c (s\<lparr>signal_handled := 0\<rparr>) =
        Some (d, s\<lparr>signal_handled := 1, interrupt_received_sema := interrupt_received_sema s + 1\<rparr>)"
      "gregs d ! RIP = h" "gregs d ! RDI = arg" "irq_level d = 0"
      using handled_62 [OF assms(2-4), of trampoline "\<lparr>int_handler = h, int_arg = arg\<rparr>" "s\<lparr>signal_handled := 0\<rparr>"] by auto
    then show ?thesis using Some h by (simp add: Let_def)
  qed
next
  case (Cons p pre)
  obtain e res where p: "p = (e, res)" by fastforce
  have n: "\<not> deliverable start stop e" "\<forall>p\<in>set pre. \<not> deliverable start stop (fst p)" using Cons.prems by (simp_all add: p)
  let ?s = "s\<lparr>signal_handled := 0\<rparr>"
  have eq: "chosen_handler interrupt_type ?s = chosen_handler interrupt_type s" by (simp add: chosen_handler_def)
  show ?case using Cons.IH [OF n(2), of ?s] n(1) by (auto simp: p eq dropped_62 Let_def split: option.splits)
qed

lemma interrupt_sent_once_witness:
  "let c = \<lparr>gregs = [0, 1, 2, 3, 4, 5, 6, 7, 8, 9, 10, 11, 12, 13, 14, 4096, 50, 17, 0, 0, 0, 0, 0], fp = [], fpregs = 65536, mem = (\<lambda>x. x), irq_level = 1\<rparr>;
     s = \<lparr>mini_clock_handler = 1, mini_network_handler = 2, mini_read_handler = 3, mini_disk_handler = 4, signal_handled = 0,
          interrupt_received_sema = 0\<rparr>
   in \<exists>d. gregs d ! RIP = 3 \<and> gregs d ! RDI = 71 \<and>
        send_interrupt 10 99 7 3 0 71 s [(c\<lparr>irq_level := 0\<rparr>, []), (c, replicate 8 0)] = Some ([c\<lparr>irq_level := 0\<rparr>, d], s\<lparr>signal_handled := 1\<rparr>, True)"
proof -
  define c where "c = \<lparr>gregs = [0, 1, 2, 3, 4, 5, 6, 7, 8, 9, 10, 11, 12, 13, 14, 4096, 50, 17, 0, 0, 0, 0, 0], fp = [], fpregs = 65536, mem = (\<lambda>x. x), irq_level = 1\<rparr>"
  define s where "s = \<lparr>mini_clock_handler = 1, mini_network_handler = 2, mini_read_handler = 3, mini_disk_handler = 4, signal_handled = 0,
      interrupt_received_sema = 0\<rparr>"
  have c: "stack_room c" "deliverable 10 99 c" "\<not> deliverable 10 99 (c\<lparr>irq_level := 0\<rparr>)"
    by (simp_all add: c_def stack_room_def cpu_ok_def deliverable_def)
  have p: "\<forall>p\<in>set [(c\<lparr>irq_level := 0\<rparr>, [] :: int list)]. \<not> deliverable 10 99 (fst p)" using c(3) by simp
  have r: "length (replicate 8 (0 :: int)) = 8" by simp
  have h: "chosen_handler 3 s = Some 3" by (simp add: chosen_handler_def s_def)
  obtain d where "gregs d ! RIP = 3" "gregs d ! RDI = 71"
    "send_interrupt 10 99 7 3 0 71 s ([(c\<lparr>irq_level := 0\<rparr>, [])] @ (c, replicate 8 0) # []) =
      Some (map fst [(c\<lparr>irq_level := 0\<rparr>, [] :: int list)] @ [d], s\<lparr>signal_handled := 1\<rparr>, True)"
    using interrupt_sent_once [OF p c(2,1) r, of 7 3 0 71 s "[]"] unfolding h option.case by blast
  then have "\<exists>d. gregs d ! RIP = 3 \<and> gregs d ! RDI = 71 \<and>
      send_interrupt 10 99 7 3 0 71 s [(c\<lparr>irq_level := 0\<rparr>, []), (c, replicate 8 0)] = Some ([c\<lparr>irq_level := 0\<rparr>, d], s\<lparr>signal_handled := 1\<rparr>, True)"
    by (simp only: append_Cons append_Nil list.map fst_conv) blast
  then show ?thesis unfolding Let_def c_def s_def .
qed

end
