(* ===== verification/Thread_Exit.thy ===== *)
theory Thread_Exit
  imports Synch
begin

text \<open>
  The end of a thread in \<^verbatim>\<open>src/P1-P4/minithread.c\<close>: \<open>final_proc\<close> queues it as stopped and switches to the reaper, which frees every stopped thread
  and gives the processor away. Here the two run without an interrupt between them.
\<close>

text \<open>The reaper is nowhere in the scheduler, and the stopped threads are nowhere but in their queue.\<close>

definition reaper_parked :: "'z system_scheme \<Rightarrow> bool" where
  "reaper_parked s \<longleftrightarrow> (\<exists>l. thread_ok s l (reaper_thread s)) \<and> reaper_thread s \<notin># places s \<and> oq_inv (stopped_queue s) \<and>
     distinct (oq_items (stopped_queue s)) \<and>
     (\<forall>t\<in>set (oq_items (stopped_queue s)). t \<noteq> NULL \<and> tcbs s t \<noteq> None \<and> t \<notin># places s \<and> t \<noteq> reaper_thread s \<and> t \<noteq> scheduler_thread s)"

lemma stopped_length: "oq_inv q \<Longrightarrow> queue_length q = Inr (int (length (oq_items q)))"
  by (elim oq_invE) (simp add: qcount_items oq_items_Some)

lemma reap_ok:
  assumes "oq_inv (stopped_queue s)" "length (oq_items (stopped_queue s)) < n" "distinct (oq_items (stopped_queue s))"
    "\<forall>t\<in>set (oq_items (stopped_queue s)). t \<noteq> NULL \<and> tcbs s t \<noteq> None"
  shows "\<exists>q. reap n s = Inr (s\<lparr>stopped_queue := q, tcbs := (\<lambda>x. if x \<in> set (oq_items (stopped_queue s)) then None else tcbs s x)\<rparr>) \<and>
    oq_inv q \<and> oq_items q = []"
  using assms
proof (induction n arbitrary: s)
  case 0
  then show ?case by simp
next
  case (Suc n)
  show ?case
  proof (cases "oq_items (stopped_queue s)")
    case Nil
    then show ?thesis using Suc.prems(1) stopped_length by (intro exI [of _ "stopped_queue s"]) simp
  next
    case (Cons t ts)
    obtain q where q: "queue_dequeue (stopped_queue s) = Inr (0, t, q)" "oq_inv q" "oq_items q = ts"
      using lq.deq_first [OF Suc.prems(1) Cons] by blast
    obtain tc where t: "t \<noteq> NULL" "tcbs s t = Some tc" using Suc.prems(4) Cons by auto
    define s1 where "s1 = s\<lparr>stopped_queue := q, tcbs := (tcbs s)(t := None)\<rparr>"
    have "\<exists>q'. reap n s1 = Inr (s1\<lparr>stopped_queue := q', tcbs := (\<lambda>x. if x \<in> set (oq_items (stopped_queue s1)) then None else tcbs s1 x)\<rparr>) \<and>
        oq_inv q' \<and> oq_items q' = []"
      by (rule Suc.IH) (use Suc.prems q Cons in \<open>auto simp: s1_def\<close>)
    then obtain q' where q': "reap n s1 = Inr (s1\<lparr>stopped_queue := q', tcbs := (\<lambda>x. if x \<in> set ts then None else tcbs s1 x)\<rparr>)"
      "oq_inv q'" "oq_items q' = []" using q(3) by (auto simp: s1_def)
    have "reap (Suc n) s = reap n s1"
      using q(1) t stopped_length [OF Suc.prems(1)] Cons by (simp add: minithread_free_def deref_Some s1_def)
    moreover have "s1\<lparr>stopped_queue := q', tcbs := (\<lambda>x. if x \<in> set ts then None else tcbs s1 x)\<rparr> =
        s\<lparr>stopped_queue := q', tcbs := (\<lambda>x. if x \<in> set (oq_items (stopped_queue s)) then None else tcbs s x)\<rparr>"
      by (auto simp: s1_def Cons fun_eq_iff)
    ultimately show ?thesis using q' by auto
  qed
qed

lemma stopped_fields [simp]:
  "waiting (s\<lparr>stopped_queue := q\<rparr>) = waiting s" "sleeping (s\<lparr>stopped_queue := q\<rparr>) = sleeping s"
  "waiting (s\<lparr>running_thread := r\<rparr>) = waiting s" "sleeping (s\<lparr>running_thread := r\<rparr>) = sleeping s"
  "waiting (s\<lparr>tcbs := m\<rparr>) = waiting s" "sleeping (s\<lparr>tcbs := m\<rparr>) = sleeping s"
  "sems_ok (s\<lparr>stopped_queue := q\<rparr>) = sems_ok s" "sems_ok (s\<lparr>running_thread := r\<rparr>) = sems_ok s" "sems_ok (s\<lparr>tcbs := m\<rparr>) = sems_ok s"
  "handlers_ok (s\<lparr>stopped_queue := q\<rparr>) = handlers_ok s" "handlers_ok (s\<lparr>running_thread := r\<rparr>) = handlers_ok s"
  "handlers_ok (s\<lparr>tcbs := m\<rparr>) = handlers_ok s"
  by (simp_all add: waiting_def waiters_def sleeping_def pending_def sems_ok_def handlers_ok_def)

text \<open>A thread about to end: the processor is neither the scheduler's nor the reaper's.\<close>

definition ending :: "'z system_scheme \<Rightarrow> bool" where
  "ending s \<longleftrightarrow> sys_inv s \<and> reaper_parked s \<and> running_thread s \<noteq> scheduler_thread s \<and> running_thread s \<noteq> reaper_thread s"

abbreviation others :: "'z system_scheme \<Rightarrow> nat multiset" where
  "others s \<equiv> mset (ready s) + waiting s + sleeping s"

lemma ending_inv:
  assumes "ending s"
  shows "sched_core s" "count (places s) x \<le> 1" "x \<in># places s \<Longrightarrow> \<exists>l. thread_ok s l x" "sems_ok s" "handlers_ok s" "alarm_inv s"
  using assms by (simp_all add: ending_def sys_inv_def threads_inv_def sched_inv_def)

lemma ending_places:
  assumes "ending s"
  shows "places s = add_mset (running_thread s) (others s)" "running_thread s \<notin># others s"
proof -
  show p: "places s = add_mset (running_thread s) (others s)" using assms by (simp add: ending_def places_def current_def)
  show "running_thread s \<notin># others s" using ending_inv(2) [OF assms, of "running_thread s"] by (simp add: p not_in_iff)
qed

lemma ending_reaper:
  assumes "ending s"
  shows "\<exists>l. thread_ok s l (reaper_thread s)" "reaper_thread s \<notin># places s" "reaper_thread s \<noteq> NULL"
    "reaper_thread s \<noteq> scheduler_thread s" "tcbs s (reaper_thread s) \<noteq> None" "reaper_thread s \<noteq> running_thread s"
proof -
  show l: "\<exists>l. thread_ok s l (reaper_thread s)" and "reaper_thread s \<notin># places s" and "reaper_thread s \<noteq> running_thread s"
    using assms by (auto simp: ending_def reaper_parked_def)
  show "reaper_thread s \<noteq> NULL" "reaper_thread s \<noteq> scheduler_thread s" "tcbs s (reaper_thread s) \<noteq> None"
    using l by (auto elim!: thread_okE)
qed

lemma ending_stopped:
  assumes "ending s"
  shows "oq_inv (stopped_queue s)" "distinct (oq_items (stopped_queue s) @ [running_thread s])"
    "x \<in> set (oq_items (stopped_queue s)) \<Longrightarrow> x \<notin># places s \<and> x \<noteq> reaper_thread s \<and> x \<noteq> scheduler_thread s"
    "\<forall>x\<in>set (oq_items (stopped_queue s) @ [running_thread s]). x \<noteq> NULL \<and> tcbs s x \<noteq> None"
proof -
  have p: "reaper_parked s" using assms by (simp add: ending_def)
  then show "oq_inv (stopped_queue s)" by (simp add: reaper_parked_def)
  show "x \<in> set (oq_items (stopped_queue s)) \<Longrightarrow> x \<notin># places s \<and> x \<noteq> reaper_thread s \<and> x \<noteq> scheduler_thread s"
    using p by (simp add: reaper_parked_def)
  show "distinct (oq_items (stopped_queue s) @ [running_thread s])"
    using p ending_places(1) [OF assms] by (auto simp: reaper_parked_def)
  obtain l where "thread_ok s l (running_thread s)" using ending_inv(3) [OF assms] ending_places(1) [OF assms] by fastforce
  then have "running_thread s \<noteq> NULL \<and> tcbs s (running_thread s) \<noteq> None" by (auto elim!: thread_okE)
  then show "\<forall>x\<in>set (oq_items (stopped_queue s) @ [running_thread s]). x \<noteq> NULL \<and> tcbs s x \<noteq> None"
    using p by (auto simp: reaper_parked_def)
qed

text \<open>The last step of the thread.\<close>

lemma final_proc_ok:
  assumes "ending s"
  shows "\<exists>q. final_proc s = Inr (Switched, s\<lparr>interrupt_level := ENABLED, stopped_queue := q, running_thread := reaper_thread s\<rparr>) \<and>
    oq_inv q \<and> oq_items q = oq_items (stopped_queue s) @ [running_thread s]"
proof -
  obtain q where q: "queue_append (stopped_queue s) (running_thread s) = Inr (0, q)" "oq_inv q"
    "oq_items q = oq_items (stopped_queue s) @ [running_thread s]"
    using lq.app_returns [OF ending_stopped(1) [OF assms]] by metis
  have "running_thread s \<noteq> NULL" "tcbs s (running_thread s) \<noteq> None" using ending_stopped(4) [OF assms] by auto
  then have "final_proc s = Inr (Switched, s\<lparr>interrupt_level := ENABLED, stopped_queue := q, running_thread := reaper_thread s\<rparr>)"
    using ending_reaper(3-6) [OF assms] q(1) stopped_length [OF q(2)] q(3)
    by (simp add: final_proc_def set_interrupt_level_def switch_ok)
  with q show ?thesis by blast
qed

text \<open>What the reaper leaves, before it gives the processor away.\<close>

definition reaped :: "queue option \<Rightarrow> 'z system_scheme \<Rightarrow> 'z system_scheme" where
  "reaped q s = s\<lparr>running_thread := reaper_thread s, interrupt_level := DISABLED, stopped_queue := q,
     tcbs := (\<lambda>x. if x \<in> set (oq_items (stopped_queue s) @ [running_thread s]) then None else tcbs s x)\<rparr>"

lemma reaped_fields [simp]:
  "scheduler_thread (reaped q s) = scheduler_thread s" "reaper_thread (reaped q s) = reaper_thread s"
  "runnable_queue (reaped q s) = runnable_queue s" "running_thread (reaped q s) = reaper_thread s"
  "curr_level (reaped q s) = curr_level s" "curr_level_quanta (reaped q s) = curr_level_quanta s" "ready (reaped q s) = ready s"
  "waiting (reaped q s) = waiting s" "sleeping (reaped q s) = sleeping s" "sems_ok (reaped q s) = sems_ok s"
  "handlers_ok (reaped q s) = handlers_ok s" "stopped_queue (reaped q s) = q"
  by (simp_all add: reaped_def ready_def)

lemma sweep_ok:
  assumes "ending s" "oq_inv q" "oq_items q = oq_items (stopped_queue s) @ [running_thread s]" "length (oq_items q) < n"
  shows "\<exists>q'. reap n (s\<lparr>stopped_queue := q, running_thread := reaper_thread s, interrupt_level := DISABLED\<rparr>) = Inr (reaped q' s) \<and>
    oq_inv q' \<and> oq_items q' = []"
proof -
  let ?s = "s\<lparr>stopped_queue := q, running_thread := reaper_thread s, interrupt_level := DISABLED\<rparr>"
  have f: "stopped_queue ?s = q" "tcbs ?s = tcbs s" by simp_all
  from reap_ok [of ?s n, unfolded f, OF assms(2,4), unfolded assms(3), OF ending_stopped(2,4) [OF assms(1)]]
  show ?thesis by (simp add: reaped_def)
qed

lemma reaped_live:
  assumes "ending s" "x \<in># others s \<or> x = reaper_thread s \<or> x = scheduler_thread s"
  shows "tcbs (reaped q s) x = tcbs s x"
proof -
  have "running_thread s \<noteq> scheduler_thread s" using assms(1) by (simp add: ending_def)
  then have "x \<notin> set (oq_items (stopped_queue s) @ [running_thread s])"
    using assms(2) ending_stopped(3) [OF assms(1), of x] ending_places [OF assms(1)] ending_reaper(6) [OF assms(1)] by auto
  then show ?thesis by (simp add: reaped_def)
qed

lemma reaped_thread_ok:
  assumes "ending s" "x \<in># others s \<or> x = reaper_thread s"
  shows "thread_ok (reaped q s) k x = thread_ok s k x"
  by (rule thread_ok_cong) (use reaped_live [OF assms(1), of x] assms(2) in auto)

lemma reaped_core:
  assumes "ending s"
  shows "sched_core (reaped q s)"
proof -
  note core = ending_inv(1) [OF assms]
  have "tcbs (reaped q s) x = tcbs s x" if "x \<in> set (concat (om_lvls (runnable_queue s)))" for x
    using reaped_live [OF assms] that by (simp add: ready_def)
  then have "levels_ok (reaped q s) (runnable_queue s)"
    using core levels_ok_cong [of "runnable_queue s" "reaped q s" s] by (auto simp: sched_core_def)
  moreover have "current (reaped q s) = [reaper_thread s]" using ending_reaper(4) [OF assms] by (simp add: current_def)
  moreover have "distinct (reaper_thread s # ready s)"
    using core ending_reaper(2) [OF assms] by (auto simp: sched_core_def ending_places(1) [OF assms])
  ultimately show ?thesis
    using core ending_reaper(1) [OF assms] reaped_thread_ok [OF assms, of "reaper_thread s"] reaped_live [OF assms, of "scheduler_thread s"]
    unfolding sched_core_def by auto
qed

text \<open>The reaper gives the processor to a ready thread or to the scheduler, never to itself.\<close>

lemma reaper_stops:
  assumes "ending s"
  shows "\<exists>s2. stop_running_thread (reaped q s) = Inr (Switched, s2) \<and> sched_inv s2 \<and> sched_frame (reaped q s) s2 \<and>
    tcbs s2 = tcbs (reaped q s) \<and> places s2 = others s"
proof -
  from stop_running_thread_ok [OF reaped_core [OF assms]] obtain fl s2 where
    s2: "stop_running_thread (reaped q s) = Inr (fl, s2)" "sched_inv s2" "sched_frame (reaped q s) s2" "tcbs s2 = tcbs (reaped q s)"
      "mset (current s2 @ ready s2) = mset (ready s)" "fl = Returned \<longleftrightarrow> running_thread s2 = reaper_thread s"
    unfolding reaped_fields by blast
  have "running_thread s2 \<noteq> reaper_thread s"
  proof
    assume "running_thread s2 = reaper_thread s"
    then have "reaper_thread s \<in> set (current s2 @ ready s2)"
      using sched_frame_fields(8) [OF s2(3)] ending_reaper(4) [OF assms] by (simp add: current_def)
    then show False using mset_eq_setD [OF s2(5)] ending_reaper(2) [OF assms] ending_places(1) [OF assms] by auto
  qed
  then have "fl = Switched" using s2(6) by (cases fl) simp_all
  moreover have "places s2 = others s" using s2(5) frame_places(1,2) [OF s2(3)] by (simp add: places_def)
  ultimately show ?thesis using s2(1-4) by blast
qed

lemma reaper_keeps:
  assumes e: "ending s" and q: "oq_inv q" "oq_items q = []"
    and s2: "sched_inv s2" "sched_frame (reaped q s) s2" "tcbs s2 = tcbs (reaped q s)" "places s2 = others s"
  shows "sys_inv s2" "reaper_parked s2" "stopped_queue s2 = q"
proof -
  note fr = frame_places [OF s2(2)] and ff = sched_frame_fields [OF s2(2)]
  have ok: "thread_ok s2 k x = thread_ok s k x" if "x \<in># others s \<or> x = reaper_thread s" for k x
    using thread_ok_cong [of s2 x "reaped q s" k] s2(3) ff(8,9) reaped_thread_ok [OF e that] by auto
  have "\<exists>k. thread_ok s2 k x" if "x \<in># places s2" for x
    using ending_inv(3) [OF e, of x] that ok [of x] by (auto simp: ending_places(1) [OF e] s2(4))
  moreover have "count (places s2) x \<le> 1" for x
    using ending_inv(2) [OF e, of x] ending_places [OF e] s2(4) by (metis Suc_leD count_add_mset)
  ultimately have "threads_inv s2" using s2(1) ending_inv(4,5) [OF e] fr(3,4) by (simp add: threads_inv_def)
  moreover have "alarm_inv s2"
    using ending_inv(6) [OF e] fr(5) alarm_inv_cong [of "reaped q s" s] by (simp add: reaped_def)
  ultimately show "sys_inv s2" by (simp add: sys_inv_def)
  show sq: "stopped_queue s2 = q" using ff(7) by simp
  show "reaper_parked s2"
    using ending_reaper(1,2) [OF e] ok [of "reaper_thread s"] ff(9) q sq by (auto simp: reaper_parked_def s2(4) ending_places(1) [OF e])
qed

text \<open>
  C5: when a thread ends, \<open>final_proc\<close> switches to the reaper, which frees it and all that were stopped before, each once, and hands the
  processor to another thread; the invariant of the system holds again without the thread, and no other thread is touched.
\<close>

theorem exit_reaps:
  assumes "sys_inv s" "reaper_parked s" "running_thread s = t" "t \<noteq> scheduler_thread s" "t \<noteq> reaper_thread s"
  shows "\<exists>s1 s2. final_proc s = Inr (Switched, s1) \<and> running_thread s1 = reaper_thread s \<and> clean_stopped_threads s1 = Inr (Switched, s2) \<and>
    sys_inv s2 \<and> reaper_parked s2 \<and> places s2 = places s - {#t#} \<and> t \<notin># places s2 \<and> oq_items (stopped_queue s2) = [] \<and>
    tcbs s2 = (\<lambda>x. if x = t \<or> x \<in> set (oq_items (stopped_queue s)) then None else tcbs s x)"
proof -
  let ?dead = "\<lambda>x. x = t \<or> x \<in> set (oq_items (stopped_queue s))"
  have e: "ending s" using assms by (simp add: ending_def)
  obtain q where q: "final_proc s = Inr (Switched, s\<lparr>interrupt_level := ENABLED, stopped_queue := q, running_thread := reaper_thread s\<rparr>)"
    "oq_inv q" "oq_items q = oq_items (stopped_queue s) @ [running_thread s]" using final_proc_ok [OF e] by blast
  let ?s1 = "s\<lparr>interrupt_level := ENABLED, stopped_queue := q, running_thread := reaper_thread s\<rparr>"
  from sweep_ok [OF e q(2,3), of "Suc (length (oq_items q))"] obtain q' where
    q': "reap (Suc (length (oq_items q))) (s\<lparr>stopped_queue := q, running_thread := reaper_thread s, interrupt_level := DISABLED\<rparr>) = Inr (reaped q' s)"
      "oq_inv q'" "oq_items q' = []" by blast
  obtain s2 where s2: "stop_running_thread (reaped q' s) = Inr (Switched, s2)" "sched_inv s2" "sched_frame (reaped q' s) s2"
    "tcbs s2 = tcbs (reaped q' s)" "places s2 = others s" using reaper_stops [OF e] by blast
  have "stopped_queue ?s1 \<noteq> None" using q(2) by (auto elim: oq_invE)
  then have clean: "clean_stopped_threads ?s1 = Inr (Switched, s2)"
    using q'(1) s2(1) by (simp add: clean_stopped_threads_def set_interrupt_level_def del: reap.simps)
  note keeps = reaper_keeps [OF e q'(2,3) s2(2-5)]
  have "tcbs s2 = (\<lambda>x. if ?dead x then None else tcbs s x)" using s2(4) by (auto simp: reaped_def assms(3))
  with q(1) clean keeps q'(3) ending_places [OF e] s2(5) show ?thesis
    by (intro exI [of _ ?s1] exI [of _ s2]) (simp add: assms(3))
qed

end
