(* ===== verification/Bounded_Buffer.thy ===== *)
theory Bounded_Buffer
  imports Prelude
begin

text \<open>
  The bounded buffer of \<^verbatim>\<open>src/P1-P4/buffer.c\<close>: one producer, one consumer, preempted anywhere. A step is the code of one thread up to and
  including its next access to shared memory, or a call of a semaphore; \<open>size++\<close> and \<open>size--\<close> are two steps, a load and a store. The semaphores
  are their counts, as \<open>Synch\<close> keeps them: \<open>semaphore_P\<close> counts down and blocks the thread below zero, \<open>semaphore_V\<close> counts up and
  lets the waiting thread go on unless the count is above zero. What \<open>genintrand\<close> returns is an argument between 1 and \<open>BUFFER_SIZE\<close>
  (\<open>Mersenne.genintrand_in_range\<close>).
\<close>

section \<open>The program\<close>

abbreviation (input) BUFFER_SIZE :: int where "BUFFER_SIZE \<equiv> 16"

text \<open>Where a thread is: at the head of its while loop, at the test and the P of its for loop, blocked there, at the access to the buffer, at the step
  of the index, at the load and the store of \<open>size\<close>, at the V, at the end.\<close>

datatype place = Looping | Acquiring | Blocked | Accessing | Advancing | Loading | Storing | Releasing | Done

record shop =
  cells :: "int list"
  bb_size :: int
  bb_head :: int
  bb_tail :: int
  bb_empty :: int
  bb_full :: int
  p_at :: place
  p_count :: int
  p_n :: int
  p_i :: int
  p_reg :: int
  c_at :: place
  c_out :: int
  c_n :: int
  c_i :: int
  c_reg :: int
  printed :: "int list"

definition shop_start :: shop where
  "shop_start = \<lparr>cells = replicate 16 0, bb_size = 0, bb_head = 0, bb_tail = 0, bb_empty = 0, bb_full = BUFFER_SIZE,
     p_at = Looping, p_count = 1, p_n = 0, p_i = 0, p_reg = 0, c_at = Looping, c_out = 0, c_n = 0, c_i = 0, c_reg = 0, printed = []\<rparr>"

definition runnable :: "place \<Rightarrow> bool" where
  "runnable a \<longleftrightarrow> a \<noteq> Blocked \<and> a \<noteq> Done"

text \<open>\<open>m\<close> is \<open>*arg\<close> and \<open>r\<close> the random number.\<close>

definition producer :: "int \<Rightarrow> int \<Rightarrow> shop \<Rightarrow> shop res" where
  "producer m r s = (case p_at s of
     Looping \<Rightarrow>
       if p_count s \<le> m
       then Inr (s\<lparr>p_n := (if r \<le> m - p_count s + 1 then r else m - p_count s + 1), p_i := 0, p_at := Acquiring\<rparr>)
       else Inr (s\<lparr>p_at := Done\<rparr>)
   | Acquiring \<Rightarrow>
       if p_i s < p_n s
       then let c = bb_full s - 1 in Inr (s\<lparr>bb_full := c, p_at := (if c < 0 then Blocked else Accessing)\<rparr>)
       else Inr (s\<lparr>p_at := Looping\<rparr>)
   | Accessing \<Rightarrow> bindR (aset (cells s) (bb_head s) (p_count s)) (\<lambda>cs. Inr (s\<lparr>cells := cs, p_count := p_count s + 1, p_at := Advancing\<rparr>))
   | Advancing \<Rightarrow> Inr (s\<lparr>bb_head := (bb_head s + 1) mod BUFFER_SIZE, p_at := Loading\<rparr>)
   | Loading \<Rightarrow> Inr (s\<lparr>p_reg := bb_size s, p_at := Storing\<rparr>)
   | Storing \<Rightarrow> Inr (s\<lparr>bb_size := p_reg s + 1, p_at := Releasing\<rparr>)
   | Releasing \<Rightarrow>
       let c = bb_empty s + 1
       in Inr (s\<lparr>bb_empty := c, c_at := (if c \<le> 0 \<and> c_at s = Blocked then Accessing else c_at s), p_i := p_i s + 1, p_at := Acquiring\<rparr>)
   | Blocked \<Rightarrow> Inr s
   | Done \<Rightarrow> Inr s)"

definition consumer :: "int \<Rightarrow> int \<Rightarrow> shop \<Rightarrow> shop res" where
  "consumer m r s = (case c_at s of
     Looping \<Rightarrow>
       if c_out s < m
       then Inr (s\<lparr>c_n := (if r \<le> m - c_out s then r else m - c_out s), c_i := 0, c_at := Acquiring\<rparr>)
       else Inr (s\<lparr>c_at := Done\<rparr>)
   | Acquiring \<Rightarrow>
       if c_i s < c_n s
       then let c = bb_empty s - 1 in Inr (s\<lparr>bb_empty := c, c_at := (if c < 0 then Blocked else Accessing)\<rparr>)
       else Inr (s\<lparr>c_at := Looping\<rparr>)
   | Accessing \<Rightarrow> bindR (aget (cells s) (bb_tail s)) (\<lambda>v. Inr (s\<lparr>c_out := v, printed := printed s @ [v], c_at := Advancing\<rparr>))
   | Advancing \<Rightarrow> Inr (s\<lparr>bb_tail := (bb_tail s + 1) mod BUFFER_SIZE, c_at := Loading\<rparr>)
   | Loading \<Rightarrow> Inr (s\<lparr>c_reg := bb_size s, c_at := Storing\<rparr>)
   | Storing \<Rightarrow> Inr (s\<lparr>bb_size := c_reg s - 1, c_at := Releasing\<rparr>)
   | Releasing \<Rightarrow>
       let c = bb_full s + 1
       in Inr (s\<lparr>bb_full := c, p_at := (if c \<le> 0 \<and> p_at s = Blocked then Accessing else p_at s), c_i := c_i s + 1, c_at := Acquiring\<rparr>)
   | Blocked \<Rightarrow> Inr s
   | Done \<Rightarrow> Inr s)"

inductive shop_step :: "int \<Rightarrow> shop \<Rightarrow> shop \<Rightarrow> bool" for m where
  produce: "runnable (p_at s) \<Longrightarrow> 1 \<le> r \<Longrightarrow> r \<le> BUFFER_SIZE \<Longrightarrow> producer m r s = Inr s' \<Longrightarrow> shop_step m s s'"
| consume: "runnable (c_at s) \<Longrightarrow> 1 \<le> r \<Longrightarrow> r \<le> BUFFER_SIZE \<Longrightarrow> consumer m r s = Inr s' \<Longrightarrow> shop_step m s s'"

text \<open>A run under a given schedule: \<open>True\<close> is a step of the producer, with the random number it may draw.\<close>

fun scheduled :: "int \<Rightarrow> (bool \<times> int) list \<Rightarrow> shop \<Rightarrow> shop option" where
  "scheduled m [] s = Some s"
| "scheduled m ((b, r) # sch) s =
     (if (if b then runnable (p_at s) else runnable (c_at s)) \<and> 1 \<le> r \<and> r \<le> BUFFER_SIZE
      then (case (if b then producer m r s else consumer m r s) of Inl _ \<Rightarrow> None | Inr s' \<Rightarrow> scheduled m sch s')
      else None)"

section \<open>The invariant\<close>

definition holds_unit :: "place \<Rightarrow> int" where
  "holds_unit a = (if a = Accessing then 1 else 0)"

definition owes_unit :: "place \<Rightarrow> int" where
  "owes_unit a = (if a \<in> {Advancing, Loading, Storing, Releasing} then 1 else 0)"

definition blocked :: "place \<Rightarrow> int" where
  "blocked a = (if a = Blocked then 1 else 0)"

text \<open>How far a thread that has done \<open>k\<close> of \<open>m\<close> items is in its for loop.\<close>

definition loop_ok :: "int \<Rightarrow> int \<Rightarrow> place \<Rightarrow> int \<Rightarrow> int \<Rightarrow> bool" where
  "loop_ok m k a i n \<longleftrightarrow> k \<le> m \<and>
     (case a of Looping \<Rightarrow> True | Done \<Rightarrow> k = m | Acquiring \<Rightarrow> i \<le> n \<and> n - i \<le> m - k
      | _ \<Rightarrow> i < n \<and> n - i - owes_unit a \<le> m - k)"

definition sems_right :: "int \<Rightarrow> int \<Rightarrow> shop \<Rightarrow> bool" where
  "sems_right w t s \<longleftrightarrow>
     bb_full s = BUFFER_SIZE - (w + holds_unit (p_at s)) + (t - owes_unit (c_at s)) - blocked (p_at s) \<and>
     bb_empty s = w - owes_unit (p_at s) - (t + holds_unit (c_at s)) - blocked (c_at s) \<and>
     (if p_at s = Blocked then bb_full s = - 1 else 0 \<le> bb_full s) \<and> (if c_at s = Blocked then bb_empty s = - 1 else 0 \<le> bb_empty s)"

definition cells_right :: "int \<Rightarrow> int \<Rightarrow> shop \<Rightarrow> bool" where
  "cells_right w t s \<longleftrightarrow> length (cells s) = 16 \<and>
     bb_head s = (w - (if p_at s = Advancing then 1 else 0)) mod BUFFER_SIZE \<and>
     bb_tail s = (t - (if c_at s = Advancing then 1 else 0)) mod BUFFER_SIZE \<and>
     (\<forall>k. t \<le> k \<and> k < w \<longrightarrow> cells s ! nat (k mod BUFFER_SIZE) = k + 1)"

definition shop_inv :: "int \<Rightarrow> shop \<Rightarrow> bool" where
  "shop_inv m s \<longleftrightarrow> (\<exists>w t. p_count s = w + 1 \<and> c_out s = t \<and> 0 \<le> t \<and> 0 \<le> w \<and> printed s = [1..t] \<and>
     loop_ok m w (p_at s) (p_i s) (p_n s) \<and> loop_ok m t (c_at s) (c_i s) (c_n s) \<and> sems_right w t s \<and> cells_right w t s)"

lemmas shop_simps = holds_unit_def owes_unit_def blocked_def runnable_def loop_ok_def

lemma weights:
  "holds_unit Looping = 0" "holds_unit Acquiring = 0" "holds_unit Blocked = 0" "holds_unit Accessing = 1" "holds_unit Advancing = 0" "holds_unit Loading = 0" "holds_unit Storing = 0" "holds_unit Releasing = 0" "holds_unit Done = 0"
  "owes_unit Looping = 0" "owes_unit Acquiring = 0" "owes_unit Blocked = 0" "owes_unit Accessing = 0" "owes_unit Advancing = 1" "owes_unit Loading = 1" "owes_unit Storing = 1" "owes_unit Releasing = 1" "owes_unit Done = 0"
  "blocked Looping = 0" "blocked Acquiring = 0" "blocked Blocked = 1" "blocked Accessing = 0" "blocked Advancing = 0" "blocked Loading = 0" "blocked Storing = 0" "blocked Releasing = 0" "blocked Done = 0"
  by (simp_all add: holds_unit_def owes_unit_def blocked_def)

lemma sems_bounds:
  assumes "sems_right w t s"
  shows "t + holds_unit (c_at s) \<le> w" "w + holds_unit (p_at s) \<le> t + 16" "p_at s = Accessing \<Longrightarrow> w < t + 16" "c_at s = Accessing \<Longrightarrow> t < w"
  using assms by (auto simp: sems_right_def shop_simps split: if_splits)

lemma shop_inv_start: "0 \<le> m \<Longrightarrow> shop_inv m shop_start"
  by (simp add: shop_inv_def shop_start_def sems_right_def cells_right_def shop_simps)

lemma loop_woken: "loop_ok m k Blocked i n \<Longrightarrow> loop_ok m k Accessing i n"
  by (simp add: shop_simps)

lemma mod_other:
  assumes "(t :: int) \<le> k" "k < w" "w < t + 16"
  shows "k mod 16 \<noteq> w mod 16"
proof
  assume "k mod 16 = w mod 16"
  then have "16 dvd w - k" by (metis mod_eq_dvd_iff)
  then have "16 \<le> w - k" using assms(2) by (intro zdvd_imp_le) simp_all
  then show False using assms by linarith
qed

lemma mod_step: "((w - 1) mod 16 + 1) mod 16 = (w :: int) mod 16"
  by presburger

lemma producer_keeps:
  assumes "shop_inv m s" "runnable (p_at s)" "1 \<le> r"
  shows "\<exists>s'. producer m r s = Inr s' \<and> shop_inv m s'"
proof -
  obtain w t where i: "p_count s = w + 1" "c_out s = t" "0 \<le> t" "0 \<le> w" "printed s = [1..t]"
    "loop_ok m w (p_at s) (p_i s) (p_n s)" "loop_ok m t (c_at s) (c_i s) (c_n s)" "sems_right w t s" "cells_right w t s"
    using assms(1) by (auto simp: shop_inv_def)
  note b = sems_bounds [OF i(8)]
  show ?thesis
  proof (cases "p_at s = Accessing")
    case True
    have h: "bb_head s = w mod 16" "length (cells s) = 16" using i(9) True by (simp_all add: cells_right_def)
    let ?s = "s\<lparr>cells := (cells s)[nat (w mod 16) := w + 1], p_count := w + 2, p_at := Advancing\<rparr>"
    have eq: "producer m r s = Inr ?s" using True h i(1) by (simp add: producer_def aset_ok)
    have "cells ?s ! nat (k mod 16) = k + 1" if "t \<le> k" "k < w + 1" for k
    proof (cases "k = w")
      case True
      then show ?thesis using h by simp
    next
      case False
      then have "k mod 16 \<noteq> w mod 16" using mod_other [of t k w] b(3) True that by simp
      then have "nat (k mod 16) \<noteq> nat (w mod 16)" by simp
      then show ?thesis using i(9) that False by (simp add: cells_right_def)
    qed
    then have "cells_right (w + 1) t ?s" using i(9) True by (simp add: cells_right_def)
    moreover have "sems_right (w + 1) t ?s" using i(8) True by (auto simp: sems_right_def shop_simps split: if_splits)
    moreover have "loop_ok m (w + 1) (p_at ?s) (p_i ?s) (p_n ?s)" using i(6) True by (simp add: shop_simps)
    ultimately have "shop_inv m ?s" unfolding shop_inv_def using i by (intro exI [of _ "w + 1"] exI [of _ t]) simp
    with eq show ?thesis by blast
  next
    case False
    obtain s' where eq: "producer m r s = Inr s'"
      using False by (cases "producer m r s") (auto simp: producer_def Let_def split: place.splits if_splits)
    have same: "p_count s' = w + 1" "c_out s' = t" "printed s' = [1..t]" "cells s' = cells s"
      using eq False i by (auto simp: producer_def Let_def split: place.splits if_splits)
    have "loop_ok m w (p_at s') (p_i s') (p_n s')"
      using eq False i(1,6) assms(2,3) by (auto simp: producer_def Let_def shop_simps split: place.splits if_splits)
    moreover have "c_i s' = c_i s" "c_n s' = c_n s" "c_at s' = c_at s \<or> c_at s = Blocked \<and> c_at s' = Accessing"
      using eq False by (auto simp: producer_def Let_def split: place.splits if_splits)
    then have "loop_ok m t (c_at s') (c_i s') (c_n s')" using i(7) loop_woken [of m t "c_i s" "c_n s"] by auto
    moreover have "sems_right w t s'"
      using eq False i(8) assms(2)
      by (cases "p_at s") (auto simp: producer_def Let_def weights runnable_def sems_right_def split: if_splits)
    moreover have "cells_right w t s'"
    proof (cases "p_at s = Advancing")
      case True
      then have "s' = s\<lparr>bb_head := (bb_head s + 1) mod 16, p_at := Loading\<rparr>" using eq by (simp add: producer_def)
      then show ?thesis using i(9) True by (simp add: cells_right_def mod_step del: mod_add_left_eq mod_add_right_eq mod_diff_left_eq mod_diff_right_eq)
    next
      case other: False
      have "bb_head s' = bb_head s" "bb_tail s' = bb_tail s" "p_at s' \<noteq> Advancing" "c_at s' = Advancing \<longleftrightarrow> c_at s = Advancing"
        using eq False other by (auto simp: producer_def Let_def split: place.splits if_splits)
      then show ?thesis using i(9) other same(4) by (simp add: cells_right_def)
    qed
    ultimately have "shop_inv m s'" unfolding shop_inv_def using i(3,4) same by blast
    with eq show ?thesis by blast
  qed
qed

lemma consumer_keeps:
  assumes "shop_inv m s" "runnable (c_at s)" "1 \<le> r"
  shows "\<exists>s'. consumer m r s = Inr s' \<and> shop_inv m s'"
proof -
  obtain w t where i: "p_count s = w + 1" "c_out s = t" "0 \<le> t" "0 \<le> w" "printed s = [1..t]"
    "loop_ok m w (p_at s) (p_i s) (p_n s)" "loop_ok m t (c_at s) (c_i s) (c_n s)" "sems_right w t s" "cells_right w t s"
    using assms(1) by (auto simp: shop_inv_def)
  note b = sems_bounds [OF i(8)]
  show ?thesis
  proof (cases "c_at s = Accessing")
    case True
    have h: "bb_tail s = t mod 16" "length (cells s) = 16" "cells s ! nat (t mod 16) = t + 1"
      using i(9) True b(4) by (simp_all add: cells_right_def)
    let ?s = "s\<lparr>c_out := t + 1, printed := [1..t + 1], c_at := Advancing\<rparr>"
    have "[1..t + 1] = [1..t] @ [t + 1]" using i(3) upto_rec2 [of 1 "t + 1"] by simp
    then have eq: "consumer m r s = Inr ?s" using True h i(5) by (simp add: consumer_def aget_ok)
    have "cells_right w (t + 1) ?s" using i(9) True by (simp add: cells_right_def)
    moreover have "sems_right w (t + 1) ?s" using i(8) True by (auto simp: sems_right_def weights split: if_splits)
    moreover have "loop_ok m (t + 1) (c_at ?s) (c_i ?s) (c_n ?s)" using i(7) True by (simp add: shop_simps)
    ultimately have "shop_inv m ?s" unfolding shop_inv_def using i by (intro exI [of _ w] exI [of _ "t + 1"]) simp
    with eq show ?thesis by blast
  next
    case False
    obtain s' where eq: "consumer m r s = Inr s'"
      using False by (cases "consumer m r s") (auto simp: consumer_def Let_def split: place.splits if_splits)
    have same: "p_count s' = w + 1" "c_out s' = t" "printed s' = [1..t]" "cells s' = cells s"
      using eq False i by (auto simp: consumer_def Let_def split: place.splits if_splits)
    have "loop_ok m t (c_at s') (c_i s') (c_n s')"
      using eq False i(2,7) assms(2,3) by (auto simp: consumer_def Let_def shop_simps split: place.splits if_splits)
    moreover have "p_i s' = p_i s" "p_n s' = p_n s" "p_at s' = p_at s \<or> p_at s = Blocked \<and> p_at s' = Accessing"
      using eq False by (auto simp: consumer_def Let_def split: place.splits if_splits)
    then have "loop_ok m w (p_at s') (p_i s') (p_n s')" using i(6) loop_woken [of m w "p_i s" "p_n s"] by auto
    moreover have "sems_right w t s'"
      using eq False i(8) assms(2)
      by (cases "c_at s") (auto simp: consumer_def Let_def weights runnable_def sems_right_def split: if_splits)
    moreover have "cells_right w t s'"
    proof (cases "c_at s = Advancing")
      case True
      then have "s' = s\<lparr>bb_tail := (bb_tail s + 1) mod 16, c_at := Loading\<rparr>" using eq by (simp add: consumer_def)
      then show ?thesis using i(9) True by (simp add: cells_right_def mod_step del: mod_add_left_eq mod_add_right_eq mod_diff_left_eq mod_diff_right_eq)
    next
      case other: False
      have "bb_head s' = bb_head s" "bb_tail s' = bb_tail s" "c_at s' \<noteq> Advancing" "p_at s' = Advancing \<longleftrightarrow> p_at s = Advancing"
        using eq False other by (auto simp: consumer_def Let_def split: place.splits if_splits)
      then show ?thesis using i(9) other same(4) by (simp add: cells_right_def)
    qed
    ultimately have "shop_inv m s'" unfolding shop_inv_def using i(3,4) same by blast
    with eq show ?thesis by blast
  qed
qed

lemma shop_step_inv:
  assumes "shop_step m s s'" "shop_inv m s"
  shows "shop_inv m s'"
  using assms
proof cases
  case (produce r)
  then show ?thesis using producer_keeps [OF assms(2), of r] by auto
next
  case (consume r)
  then show ?thesis using consumer_keeps [OF assms(2), of r] by auto
qed

lemma shop_reach_inv: "(shop_step m)\<^sup>*\<^sup>* s s' \<Longrightarrow> shop_inv m s \<Longrightarrow> shop_inv m s'"
  by (induction rule: rtranclp_induct) (blast intro: shop_step_inv)+

section \<open>Progress\<close>

text \<open>A bound for the steps that a thread still has to do after \<open>k\<close> of its \<open>m\<close> items.\<close>

definition rank :: "place \<Rightarrow> int \<Rightarrow> int \<Rightarrow> int" where
  "rank a i n = (case a of Done \<Rightarrow> 0 | Accessing \<Rightarrow> 3 | Blocked \<Rightarrow> 4 | Acquiring \<Rightarrow> if i < n then 5 else 7 | Looping \<Rightarrow> 6
     | Releasing \<Rightarrow> 8 | Storing \<Rightarrow> 9 | Loading \<Rightarrow> 10 | Advancing \<Rightarrow> 11)"

definition work_left :: "int \<Rightarrow> shop \<Rightarrow> int" where
  "work_left m s = 9 * (m + 1 - p_count s) + rank (p_at s) (p_i s) (p_n s) + 9 * (m - c_out s) + rank (c_at s) (c_i s) (c_n s)"

lemma work_left_nonneg: "shop_inv m s \<Longrightarrow> 0 \<le> work_left m s"
proof -
  assume "shop_inv m s"
  then have "p_count s \<le> m + 1" "c_out s \<le> m" by (auto simp: shop_inv_def loop_ok_def)
  moreover have "0 \<le> rank a i n" for a i n by (simp add: rank_def split: place.splits)
  then have "0 \<le> rank (p_at s) (p_i s) (p_n s)" "0 \<le> rank (c_at s) (c_i s) (c_n s)" by blast+
  ultimately have "0 \<le> 9 * (m + 1 - p_count s)" "0 \<le> 9 * (m - c_out s)" "0 \<le> rank (p_at s) (p_i s) (p_n s)" "0 \<le> rank (c_at s) (c_i s) (c_n s)"
    by simp_all
  then show ?thesis unfolding work_left_def by (intro add_nonneg_nonneg)
qed

lemma rank_woken: "rank Accessing i n \<le> rank Blocked i n"
  by (simp add: rank_def)

lemma producer_works:
  assumes "shop_inv m s" "runnable (p_at s)" "1 \<le> r" "producer m r s = Inr s'"
  shows "work_left m s' < work_left m s"
proof -
  have c: "c_out s' = c_out s" "rank (c_at s') (c_i s') (c_n s') \<le> rank (c_at s) (c_i s) (c_n s)"
    using assms(4) by (auto simp: producer_def Let_def bindR_eq_Inr rank_woken split: place.splits if_splits)
  have "9 * (m + 1 - p_count s') + rank (p_at s') (p_i s') (p_n s') < 9 * (m + 1 - p_count s) + rank (p_at s) (p_i s) (p_n s)"
    using assms(2-4) by (cases "p_at s") (auto simp: producer_def Let_def bindR_eq_Inr runnable_def rank_def split: if_splits)
  with c show ?thesis by (simp add: work_left_def)
qed

lemma consumer_works:
  assumes "shop_inv m s" "runnable (c_at s)" "1 \<le> r" "consumer m r s = Inr s'"
  shows "work_left m s' < work_left m s"
proof -
  have p: "p_count s' = p_count s" "rank (p_at s') (p_i s') (p_n s') \<le> rank (p_at s) (p_i s) (p_n s)"
    using assms(4) by (auto simp: consumer_def Let_def bindR_eq_Inr rank_woken split: place.splits if_splits)
  have "shop_inv m s'" using consumer_keeps [OF assms(1-3)] assms(4) by simp
  then have out: "printed s = [1..c_out s]" "printed s' = [1..c_out s']" "0 \<le> c_out s" "0 \<le> c_out s'" using assms(1) by (auto simp: shop_inv_def)
  have "9 * (m - c_out s') + rank (c_at s') (c_i s') (c_n s') < 9 * (m - c_out s) + rank (c_at s) (c_i s) (c_n s)"
  proof (cases "c_at s = Accessing")
    case True
    then have "length (printed s') = length (printed s) + 1" "c_at s' = Advancing"
      using assms(4) by (auto simp: consumer_def bindR_eq_Inr)
    then show ?thesis using True out by (simp add: rank_def)
  next
    case False
    then show ?thesis using assms(2-4) by (cases "c_at s") (auto simp: consumer_def Let_def runnable_def rank_def split: if_splits)
  qed
  with p show ?thesis by (simp add: work_left_def)
qed

lemma shop_step_works:
  assumes "shop_step m s s'" "shop_inv m s"
  shows "work_left m s' < work_left m s"
  using assms(1) by cases (use producer_works consumer_works assms(2) in blast)+

lemma run_length:
  assumes "(shop_step m ^^ n) s s'" "shop_inv m s"
  shows "work_left m s' + int n \<le> work_left m s \<and> shop_inv m s'"
  using assms(1)
proof (induction n arbitrary: s')
  case 0
  then show ?case using assms(2) by simp
next
  case (Suc n)
  then obtain y where y: "(shop_step m ^^ n) s y" "shop_step m y s'" by auto
  from Suc.IH [OF y(1)] shop_step_works [OF y(2)] shop_step_inv [OF y(2)] show ?case by force
qed

lemma stuck_complete:
  assumes "shop_inv m s" "\<forall>s'. \<not> shop_step m s s'"
  shows "p_at s = Done \<and> c_at s = Done \<and> printed s = [1..m]"
proof -
  have p: "\<not> runnable (p_at s)" using assms(2) producer_keeps [OF assms(1), of 1] shop_step.produce [of s 1] by fastforce
  have c: "\<not> runnable (c_at s)" using assms(2) consumer_keeps [OF assms(1), of 1] shop_step.consume [of s 1] by fastforce
  obtain w t where i: "printed s = [1..t]" "loop_ok m w (p_at s) (p_i s) (p_n s)" "loop_ok m t (c_at s) (c_i s) (c_n s)" "sems_right w t s"
    using assms(1) by (auto simp: shop_inv_def)
  from p c have "p_at s = Blocked \<or> p_at s = Done" "c_at s = Blocked \<or> c_at s = Done" by (auto simp: runnable_def)
  then show ?thesis using i by (auto simp: sems_right_def weights loop_ok_def)
qed

section \<open>Properties\<close>

text \<open>
  C10: however the threads interleave and whatever the random numbers, the consumer takes 1, 2, 3, ... in order, no item is lost or
  overwritten, the threads never access the buffer out of bounds, and at most 16 items are between them.
\<close>

theorem buffer_delivers:
  assumes "0 \<le> m" "(shop_step m)\<^sup>*\<^sup>* shop_start s"
  shows "printed s = [1..c_out s] \<and> c_out s < p_count s \<and> p_count s \<le> m + 1 \<and> p_count s - 1 \<le> c_out s + BUFFER_SIZE \<and>
    (\<forall>k. c_out s \<le> k \<and> k < p_count s - 1 \<longrightarrow> cells s ! nat (k mod BUFFER_SIZE) = k + 1) \<and>
    (\<forall>r f. 1 \<le> r \<longrightarrow> (runnable (p_at s) \<longrightarrow> producer m r s \<noteq> Inl f) \<and> (runnable (c_at s) \<longrightarrow> consumer m r s \<noteq> Inl f))"
proof -
  have inv: "shop_inv m s" by (rule shop_reach_inv [OF assms(2) shop_inv_start [OF assms(1)]])
  then obtain w t where i: "p_count s = w + 1" "c_out s = t" "printed s = [1..t]" "loop_ok m w (p_at s) (p_i s) (p_n s)" "sems_right w t s"
    "cells_right w t s" by (auto simp: shop_inv_def)
  have "t \<le> w" "w \<le> t + 16" using sems_bounds(1,2) [OF i(5)] by (auto simp: holds_unit_def split: if_splits)
  moreover have "w \<le> m" using i(4) by (simp add: loop_ok_def)
  ultimately show ?thesis using i(1-3,6) producer_keeps [OF inv] consumer_keeps [OF inv] by (fastforce simp: cells_right_def)
qed

text \<open>
  C8: every run is finite, of at most \<open>18 * m + 12\<close> steps, and one that cannot go on has both threads at their end and all of
  1, ..., \<open>m\<close> taken: the threads never wait for each other.
\<close>

theorem buffer_finishes:
  assumes "0 \<le> m" "(shop_step m ^^ n) shop_start s"
  shows "int n \<le> 18 * m + 12 \<and> ((\<exists>s'. shop_step m s s') \<or> p_at s = Done \<and> c_at s = Done \<and> printed s = [1..m])"
proof -
  note r = run_length [OF assms(2) shop_inv_start [OF assms(1)]]
  have "work_left m shop_start = 18 * m + 12" by (simp add: work_left_def shop_start_def rank_def)
  then have "int n \<le> 18 * m + 12" using r work_left_nonneg [of m s] by simp
  then show ?thesis using stuck_complete [of m s] r by blast
qed

lemma scheduled_reach: "scheduled m sch s = Some s' \<Longrightarrow> (shop_step m)\<^sup>*\<^sup>* s s'"
proof (induction sch arbitrary: s)
  case Nil
  then show ?case by simp
next
  case (Cons x sch)
  obtain b r where x: "x = (b, r)" by fastforce
  obtain y where y: "if b then producer m r s = Inr y \<and> runnable (p_at s) else consumer m r s = Inr y \<and> runnable (c_at s)" "1 \<le> r" "r \<le> 16"
    "scheduled m sch y = Some s'"
    using Cons.prems by (auto simp: x split: if_splits sum.splits)
  have "shop_step m s y" using y(1-3) by (cases b) (auto intro: shop_step.intros)
  then show ?case using Cons.IH [OF y(4)] by (rule converse_rtranclp_into_rtranclp)
qed

text \<open>\<open>size\<close> is not protected: a producer that is preempted between the load and the store of \<open>size++\<close> undoes the \<open>size--\<close> of the consumer.\<close>

lemma size_races: "\<exists>s. (shop_step 2)\<^sup>*\<^sup>* shop_start s \<and> p_at s = Done \<and> c_at s = Done \<and> bb_size s = 1"
proof -
  have "map_option (\<lambda>s. (p_at s, c_at s, bb_size s))
      (scheduled 2 (replicate 11 (True, 16) @ replicate 8 (False, 16) @ replicate 4 (True, 16) @ replicate 7 (False, 16)) shop_start) =
    Some (Done, Done, 1)" by code_simp
  then obtain s where "scheduled 2 (replicate 11 (True, 16) @ replicate 8 (False, 16) @ replicate 4 (True, 16) @ replicate 7 (False, 16)) shop_start = Some s"
    "p_at s = Done" "c_at s = Done" "bb_size s = 1"
    by (auto simp del: scheduled.simps replicate.simps)
  then show ?thesis using scheduled_reach by blast
qed

section \<open>Witnesses\<close>

lemma buffer_delivers_witness:
  "case scheduled 2 (replicate 12 (True, 16) @ replicate 8 (False, 16)) shop_start of None \<Rightarrow> False
   | Some s \<Rightarrow> printed s = [1] \<and> p_count s = 3 \<and> printed s = [1..c_out s] \<and> c_out s < p_count s"
proof -
  have e: "map_option (\<lambda>s. (printed s, p_count s)) (scheduled 2 (replicate 12 (True, 16) @ replicate 8 (False, 16)) shop_start) = Some ([1], 3)"
    by code_simp
  then obtain s where s: "scheduled 2 (replicate 12 (True, 16) @ replicate 8 (False, 16)) shop_start = Some s" "printed s = [1]" "p_count s = 3"
    by (auto simp del: scheduled.simps replicate.simps)
  from buffer_delivers [OF _ scheduled_reach [OF s(1)]] s show ?thesis by (simp del: scheduled.simps replicate.simps)
qed

lemma buffer_finishes_witness:
  "\<exists>n s. (shop_step 2 ^^ n) shop_start s \<and> n \<le> 48 \<and> printed s = [1]"
proof -
  have "map_option printed (scheduled 2 (replicate 12 (True, 16) @ replicate 8 (False, 16)) shop_start) = Some [1]" by code_simp
  then obtain s where s: "scheduled 2 (replicate 12 (True, 16) @ replicate 8 (False, 16)) shop_start = Some s" "printed s = [1]"
    by (auto simp del: scheduled.simps replicate.simps)
  then obtain n where "(shop_step 2 ^^ n) shop_start s" using scheduled_reach [OF s(1)] by (auto simp: rtranclp_power)
  with buffer_finishes [OF _ this] s(2) show ?thesis by auto
qed

end
