(* ===== verification/Kernel_Buffer.thy ===== *)
theory Kernel_Buffer
  imports Synch Bounded_Buffer
begin

text \<open>
  The bounded buffer of \<^verbatim>\<open>src/P1-P4/buffer.c\<close> on the kernel: its two threads \<open>tp\<close> and \<open>tc\<close> call \<open>semaphore_P\<close> and \<open>semaphore_V\<close> of
  \<open>Synch\<close> when they run, and the clock interrupts them anywhere. Every step of this program is a step of \<open>Bounded_Buffer\<close>, or changes only who runs.
\<close>

section \<open>The program on the kernel\<close>

record stage =
  machine_of :: system
  shop_of :: shop

text \<open>The code of \<open>Bounded_Buffer\<close> but for its semaphores: after a P that switches, the thread goes on behind it when it runs again.\<close>

definition producer_on :: "ptr \<Rightarrow> ptr \<Rightarrow> int \<Rightarrow> int \<Rightarrow> stage \<Rightarrow> stage res" where
  "producer_on sfull sempty m r z =
     (let k = machine_of z; x = shop_of z
      in if p_at x = Acquiring \<and> p_i x < p_n x
         then bindR (semaphore_P sfull k) (\<lambda>(fl, k'). Inr \<lparr>machine_of = k', shop_of = x\<lparr>p_at := Accessing\<rparr>\<rparr>)
         else if p_at x = Releasing
         then bindR (semaphore_V sempty k) (\<lambda>k'. Inr \<lparr>machine_of = k', shop_of = x\<lparr>p_i := p_i x + 1, p_at := Acquiring\<rparr>\<rparr>)
         else bindR (producer m r x) (\<lambda>x'. Inr \<lparr>machine_of = k, shop_of = x'\<rparr>))"

definition consumer_on :: "ptr \<Rightarrow> ptr \<Rightarrow> int \<Rightarrow> int \<Rightarrow> stage \<Rightarrow> stage res" where
  "consumer_on sfull sempty m r z =
     (let k = machine_of z; x = shop_of z
      in if c_at x = Acquiring \<and> c_i x < c_n x
         then bindR (semaphore_P sempty k) (\<lambda>(fl, k'). Inr \<lparr>machine_of = k', shop_of = x\<lparr>c_at := Accessing\<rparr>\<rparr>)
         else if c_at x = Releasing
         then bindR (semaphore_V sfull k) (\<lambda>k'. Inr \<lparr>machine_of = k', shop_of = x\<lparr>c_i := c_i x + 1, c_at := Acquiring\<rparr>\<rparr>)
         else bindR (consumer m r x) (\<lambda>x'. Inr \<lparr>machine_of = k, shop_of = x'\<rparr>))"

text \<open>The running thread makes a step of its code, or the clock interrupts it, or the idle loop yields.\<close>

inductive stage_step :: "(ptr \<Rightarrow> system \<Rightarrow> system res) \<Rightarrow> ptr \<Rightarrow> ptr \<Rightarrow> ptr \<Rightarrow> ptr \<Rightarrow> int \<Rightarrow> stage \<Rightarrow> stage \<Rightarrow> bool"
  for close tp tc sfull sempty m where
  produce_on: "running_thread (machine_of z) = tp \<Longrightarrow> p_at (shop_of z) \<noteq> Done \<Longrightarrow> 1 \<le> r \<Longrightarrow> r \<le> BUFFER_SIZE \<Longrightarrow>
     producer_on sfull sempty m r z = Inr z' \<Longrightarrow> stage_step close tp tc sfull sempty m z z'"
| consume_on: "running_thread (machine_of z) = tc \<Longrightarrow> c_at (shop_of z) \<noteq> Done \<Longrightarrow> 1 \<le> r \<Longrightarrow> r \<le> BUFFER_SIZE \<Longrightarrow>
     consumer_on sfull sempty m r z = Inr z' \<Longrightarrow> stage_step close tp tc sfull sempty m z z'"
| clock_on: "clock_handler (run_handler close) (machine_of z) = Inr (fl, k') \<Longrightarrow>
     stage_step close tp tc sfull sempty m z (z\<lparr>machine_of := k'\<rparr>)"
| yield_on: "minithread_yield (machine_of z) = Inr (fl, k') \<Longrightarrow>
     stage_step close tp tc sfull sempty m z (z\<lparr>machine_of := k'\<rparr>)"

section \<open>The view of Bounded_Buffer\<close>

definition count_of :: "system \<Rightarrow> ptr \<Rightarrow> int" where
  "count_of k p = (case sems k p of None \<Rightarrow> 0 | Some sem \<Rightarrow> s_count sem)"

definition viewed :: "ptr \<Rightarrow> ptr \<Rightarrow> ptr \<Rightarrow> ptr \<Rightarrow> stage \<Rightarrow> shop" where
  "viewed tp tc sfull sempty z =
     (let k = machine_of z; x = shop_of z
      in x\<lparr>bb_full := count_of k sfull, bb_empty := count_of k sempty,
           p_at := (if tp \<in> set (waiters k sfull) then Blocked else p_at x),
           c_at := (if tc \<in> set (waiters k sempty) then Blocked else c_at x)\<rparr>)"

definition kernel_part :: "ptr \<Rightarrow> ptr \<Rightarrow> ptr \<Rightarrow> ptr \<Rightarrow> system \<Rightarrow> bool" where
  "kernel_part tp tc sfull sempty k \<longleftrightarrow> sys_inv k \<and> pending k = [] \<and> sems k sfull \<noteq> None \<and> sems k sempty \<noteq> None \<and>
     set (waiters k sfull) \<subseteq> {tp} \<and> set (waiters k sempty) \<subseteq> {tc} \<and> tp \<noteq> scheduler_thread k \<and> tc \<noteq> scheduler_thread k"

definition waits_right :: "ptr \<Rightarrow> ptr \<Rightarrow> ptr \<Rightarrow> ptr \<Rightarrow> stage \<Rightarrow> bool" where
  "waits_right tp tc sfull sempty z \<longleftrightarrow>
     (tp \<in> set (waiters (machine_of z) sfull) \<longrightarrow> p_at (shop_of z) = Accessing) \<and>
     (tc \<in> set (waiters (machine_of z) sempty) \<longrightarrow> c_at (shop_of z) = Accessing) \<and>
     p_at (shop_of z) \<noteq> Blocked \<and> c_at (shop_of z) \<noteq> Blocked"

definition stage_inv :: "ptr \<Rightarrow> ptr \<Rightarrow> ptr \<Rightarrow> ptr \<Rightarrow> int \<Rightarrow> stage \<Rightarrow> bool" where
  "stage_inv tp tc sfull sempty m z \<longleftrightarrow> kernel_part tp tc sfull sempty (machine_of z) \<and> waits_right tp tc sfull sempty z \<and>
     shop_inv m (viewed tp tc sfull sempty z)"

lemma count_le1_subset: "set xs \<subseteq> {t} \<Longrightarrow> distinct xs \<Longrightarrow> xs = [] \<or> xs = [t]"
  by (cases xs) (auto simp: subset_singleton_iff)

text \<open>A thread waits in one place, and not while it runs.\<close>

lemma waiters_places:
  assumes "sys_inv k" "sems k p = Some sem"
  shows "mset (waiters k p) \<subseteq># waiting k" "distinct (waiters k p)"
    "running_thread k \<noteq> scheduler_thread k \<Longrightarrow> running_thread k \<notin> set (waiters k p)"
    "int (length (waiters k p)) = max 0 (- s_count sem)"
proof -
  have ti: "threads_inv k" using assms(1) by (simp add: sys_inv_def)
  note t = threads_inv_sem [OF ti assms(2)]
  show sub: "mset (waiters k p) \<subseteq># waiting k"
    unfolding waiting_def using t(3) by (subst sum.remove [of _ p]) simp_all
  have c: "count (places k) x \<le> 1" for x using ti by (simp add: threads_inv_def)
  have "count (mset (waiters k p)) x \<le> 1" for x
    using mset_subset_eq_count [OF sub, of x] c [of x] by (simp add: places_def)
  then show "distinct (waiters k p)" by (simp add: distinct_count_atmost_1 le_Suc_eq flip: count_mset)
  show "running_thread k \<notin> set (waiters k p)" if r: "running_thread k \<noteq> scheduler_thread k"
  proof
    assume "running_thread k \<in> set (waiters k p)"
    then have "0 < count (waiting k) (running_thread k)" using mset_subset_eqD [OF sub] by simp
    then show False using c [of "running_thread k"] r by (auto simp: places_def current_def count_eq_zero_iff)
  qed
  show "int (length (waiters k p)) = max 0 (- s_count sem)" using t(1,4) by (simp add: sem_ok_def)
qed

lemma P_effect:
  assumes "sys_inv k" "sems k p \<noteq> None" "running_thread k \<noteq> scheduler_thread k"
  shows "\<exists>fl k'. semaphore_P p k = Inr (fl, k') \<and> sys_inv k' \<and> pending k' = pending k \<and> scheduler_thread k' = scheduler_thread k \<and>
    count_of k' p = count_of k p - 1 \<and> sems k' p \<noteq> None \<and> (\<forall>q. q \<noteq> p \<longrightarrow> sems k' q = sems k q) \<and>
    waiters k' p = (if 0 < count_of k p then waiters k p else waiters k p @ [running_thread k])"
proof -
  have ti: "threads_inv k" and ai: "alarm_inv k" using assms(1) by (simp_all add: sys_inv_def)
  obtain sem where sem: "sems k p = Some sem" using assms(2) by auto
  show ?thesis
  proof (cases "0 < s_count sem")
    case True
    then show ?thesis using semaphore_P_pass [OF ti sem True] ai sem
      by (simp add: sys_inv_def count_of_def waiters_def pending_def)
  next
    case False
    then obtain fl k' where k': "semaphore_P p k = Inr (fl, k')" "threads_inv k'" "map_option s_count (sems k' p) = Some (s_count sem - 1)"
      "waiters k' p = waiters k p @ [running_thread k]" "\<forall>p'. p' \<noteq> p \<longrightarrow> sems k' p' = sems k p'" "alarm_inv k' = alarm_inv k"
      "pending k' = pending k" "scheduler_thread k' = scheduler_thread k"
      using semaphore_P_block [OF ti sem _ assms(3)] by auto
    with False ai sem show ?thesis by (intro exI [of _ fl] exI [of _ k']) (auto simp: sys_inv_def count_of_def)
  qed
qed

lemma V_effect:
  assumes "sys_inv k" "sems k p \<noteq> None"
  shows "\<exists>k'. semaphore_V p k = Inr k' \<and> sys_inv k' \<and> pending k' = pending k \<and> scheduler_thread k' = scheduler_thread k \<and>
    count_of k' p = count_of k p + 1 \<and> sems k' p \<noteq> None \<and> (\<forall>q. q \<noteq> p \<longrightarrow> sems k' q = sems k q) \<and>
    waiters k' p = tl (waiters k p)"
proof -
  have ti: "threads_inv k" and ai: "alarm_inv k" using assms(1) by (simp_all add: sys_inv_def)
  obtain sem where sem: "sems k p = Some sem" using assms(2) by auto
  note w = waiters_places(4) [OF assms(1) sem]
  show ?thesis
  proof (cases "0 \<le> s_count sem")
    case True
    then show ?thesis using semaphore_V_nobody [OF ti sem True] ai sem w
      by (simp add: sys_inv_def count_of_def pending_def) (simp add: waiters_def)
  next
    case False
    then obtain t ts k' where k': "waiters k p = t # ts" "semaphore_V p k = Inr k'" "threads_inv k'"
      "map_option s_count (sems k' p) = Some (s_count sem + 1)" "waiters k' p = ts" "\<forall>p'. p' \<noteq> p \<longrightarrow> sems k' p' = sems k p'"
      "alarm_queue k' = alarm_queue k" "alarms k' = alarms k" "alarm_brk k' = alarm_brk k" "scheduler_thread k' = scheduler_thread k"
      using semaphore_V_wake [OF ti sem] by auto
    have "alarm_inv k' = alarm_inv k" "pending k' = pending k" using alarm_inv_cong [OF k'(7-9)] k'(7,8) by (simp_all add: pending_def)
    with k' ai sem show ?thesis by (intro exI [of _ k']) (auto simp: sys_inv_def count_of_def)
  qed
qed

text \<open>Without pending alarms, a tick only schedules.\<close>

lemma tick_effect:
  assumes "sys_inv k" "pending k = []" "clock_handler (run_handler close) k = Inr (fl, k')"
  shows "sys_inv k'" "pending k' = []" "sems k' = sems k" "scheduler_thread k' = scheduler_thread k"
proof -
  define k2 where "k2 = k\<lparr>interrupt_level := DISABLED, nInterrupts := nInterrupts k + 1\<rparr>"
  have k2: "threads_inv k2" "alarm_inv k2" "pending k2 = []"
    using assms(1,2) by (simp_all add: k2_def sys_inv_def pending_def)
  have al: "get_next_alarm k2 = Inr (NULL, k2)" using get_next_alarm_ok [OF k2(2)] k2(3) by simp
  have "sched_inv k2" using k2(1) by (simp add: threads_inv_def)
  from implement_scheduler_ok [OF this] obtain f5 s5 where s5: "implement_scheduler k2 = Inr (f5, s5)" "sched_frame k2 s5" by blast
  obtain i where i: "restore (interrupt_level k) (f5, s5) = Inr (f5, s5\<lparr>interrupt_level := i\<rparr>)" by (rule restore_returns)
  have "clock_handler (run_handler close) k = Inr (f5, s5\<lparr>interrupt_level := i\<rparr>)"
    using al s5(1) i by (simp add: clock_handler_def set_interrupt_level_def flip: k2_def)
  then have k': "k' = s5\<lparr>interrupt_level := i\<rparr>" using assms(3) by simp
  show "sems k' = sems k" "scheduler_thread k' = scheduler_thread k"
    using frame_places(7) [OF s5(2)] sched_frame_fields(8) [OF s5(2)] by (simp_all add: k' k2_def)
  show "sys_inv k'" "pending k' = []" using clock_tick_ok [OF assms(1), of close] assms(2,3) by auto
qed

lemma yield_effect:
  assumes "sys_inv k" "minithread_yield k = Inr (fl, k')"
  shows "sys_inv k'" "pending k' = pending k" "sems k' = sems k" "scheduler_thread k' = scheduler_thread k"
proof -
  have "sched_inv k" using assms(1) by (simp add: sys_inv_def threads_inv_def)
  then have f: "sched_frame k k'" using minithread_yield_ok [of k] assms(2) by auto
  show "sys_inv k'" using minithread_yield_sys [OF assms(1)] assms(2) by auto
  show "pending k' = pending k" "sems k' = sems k" "scheduler_thread k' = scheduler_thread k"
    using frame_places(6,7) [OF f] sched_frame_fields(8) [OF f] by simp_all
qed

lemma waiters_cong: "sems k' p = sems k p \<Longrightarrow> waiters k' p = waiters k p"
  by (simp add: waiters_def)

lemma count_of_cong: "sems k' p = sems k p \<Longrightarrow> count_of k' p = count_of k p"
  by (simp add: count_of_def)

text \<open>What may wait at a semaphore with one user, by its count.\<close>

lemma single_waiter:
  assumes "sys_inv k" "sems k p \<noteq> None" "set (waiters k p) \<subseteq> {t}"
  shows "waiters k p = (if count_of k p < 0 then [t] else [])" "- 1 \<le> count_of k p"
proof -
  obtain sem where sem: "sems k p = Some sem" using assms(2) by auto
  note w = waiters_places [OF assms(1) sem]
  have "waiters k p = [] \<or> waiters k p = [t]" by (rule count_le1_subset [OF assms(3) w(2)])
  then show "waiters k p = (if count_of k p < 0 then [t] else [])" "- 1 \<le> count_of k p"
    using w(4) sem by (auto simp: count_of_def)
qed

section \<open>Simulation\<close>

lemma producer_simulates:
  assumes "stage_inv tp tc sfull sempty m z" "sfull \<noteq> sempty" "running_thread (machine_of z) = tp" "p_at (shop_of z) \<noteq> Done" "1 \<le> r"
  shows "\<exists>z'. producer_on sfull sempty m r z = Inr z' \<and> kernel_part tp tc sfull sempty (machine_of z') \<and> waits_right tp tc sfull sempty z' \<and>
    runnable (p_at (viewed tp tc sfull sempty z)) \<and> producer m r (viewed tp tc sfull sempty z) = Inr (viewed tp tc sfull sempty z')"
proof -
  obtain k x where z: "z = \<lparr>machine_of = k, shop_of = x\<rparr>" by (cases z)
  define v where "v = viewed tp tc sfull sempty z"
  have k: "sys_inv k" "pending k = []" "sems k sfull \<noteq> None" "sems k sempty \<noteq> None" "set (waiters k sfull) \<subseteq> {tp}"
    "set (waiters k sempty) \<subseteq> {tc}" "tp \<noteq> scheduler_thread k" "tc \<noteq> scheduler_thread k" "running_thread k = tp"
    and x: "tc \<in> set (waiters k sempty) \<longrightarrow> c_at x = Accessing" "p_at x \<noteq> Blocked" "c_at x \<noteq> Blocked" "p_at x \<noteq> Done"
    using assms by (simp_all add: stage_inv_def kernel_part_def waits_right_def z)
  have wf: "tp \<notin> set (waiters k sfull)" using waiters_places(3) [OF k(1), of sfull] k(3,7,9) by auto
  note f = single_waiter [OF k(1,3,5)] and e = single_waiter [OF k(1,4,6)]
  have f0: "waiters k sfull = []" "0 \<le> count_of k sfull" using f wf by (auto split: if_splits)
  have v: "v = x\<lparr>bb_full := count_of k sfull, bb_empty := count_of k sempty, c_at := (if count_of k sempty < 0 then Blocked else c_at x)\<rparr>"
    using f0 e(1) by (simp add: v_def viewed_def z)
  have run: "runnable (p_at v)" using x(2,4) by (simp add: runnable_def v)
  consider (down) "p_at x = Acquiring" "p_i x < p_n x" | (up) "p_at x = Releasing"
    | (here) "\<not> (p_at x = Acquiring \<and> p_i x < p_n x)" "p_at x \<noteq> Releasing" by blast
  then show ?thesis
  proof cases
    case down
    obtain fl k' where k': "semaphore_P sfull k = Inr (fl, k')" "sys_inv k'" "pending k' = []" "scheduler_thread k' = scheduler_thread k"
      "count_of k' sfull = count_of k sfull - 1" "sems k' sfull \<noteq> None" "\<forall>q. q \<noteq> sfull \<longrightarrow> sems k' q = sems k q"
      "waiters k' sfull = (if 0 < count_of k sfull then [] else [tp])"
      using P_effect [OF k(1,3)] k(2,7,9) f0(1) by auto
    let ?z = "\<lparr>machine_of = k', shop_of = x\<lparr>p_at := Accessing\<rparr>\<rparr>"
    have s: "sems k' sempty = sems k sempty" using k'(7) assms(2) by simp
    have eq: "producer_on sfull sempty m r z = Inr ?z" using down k'(1) by (simp add: producer_on_def z)
    have "kernel_part tp tc sfull sempty k'" using k k' s waiters_cong [OF s] by (simp add: kernel_part_def)
    moreover have "waits_right tp tc sfull sempty ?z" using x waiters_cong [OF s] by (simp add: waits_right_def)
    moreover have "producer m r v = Inr (viewed tp tc sfull sempty ?z)"
      using down k'(5,8) waiters_cong [OF s] count_of_cong [OF s] e(1) by (simp add: producer_def v viewed_def)
    ultimately show ?thesis using eq run unfolding v_def by auto
  next
    case up
    obtain k' where k': "semaphore_V sempty k = Inr k'" "sys_inv k'" "pending k' = []" "scheduler_thread k' = scheduler_thread k"
      "count_of k' sempty = count_of k sempty + 1" "sems k' sempty \<noteq> None" "\<forall>q. q \<noteq> sempty \<longrightarrow> sems k' q = sems k q"
      "waiters k' sempty = []"
      using V_effect [OF k(1,4)] k(2) e(1) by (auto split: if_splits)
    let ?z = "\<lparr>machine_of = k', shop_of = x\<lparr>p_i := p_i x + 1, p_at := Acquiring\<rparr>\<rparr>"
    have s: "sems k' sfull = sems k sfull" using k'(7) assms(2) by simp
    have eq: "producer_on sfull sempty m r z = Inr ?z" using up k'(1) by (simp add: producer_on_def z)
    have "kernel_part tp tc sfull sempty k'" using k k' s waiters_cong [OF s] by (simp add: kernel_part_def)
    moreover have "waits_right tp tc sfull sempty ?z" using x k'(8) waiters_cong [OF s] f0(1) by (simp add: waits_right_def)
    moreover have "count_of k sempty < 0 \<longrightarrow> c_at x = Accessing" using x(1) e(1) by simp
    then have "producer m r v = Inr (viewed tp tc sfull sempty ?z)"
      using up k'(5,8) waiters_cong [OF s] count_of_cong [OF s] e(2) x(3) f0(1) by (auto simp: producer_def v viewed_def)
    ultimately show ?thesis using eq run unfolding v_def by auto
  next
    case here
    have "shop_inv m v" using assms(1) by (simp add: stage_inv_def v_def)
    then obtain v' where v': "producer m r v = Inr v'" using producer_keeps run assms(5) by blast
    have "\<exists>x'. producer m r x = Inr x' \<and> p_at x' \<noteq> Blocked \<and> c_at x' = c_at x \<and>
        v' = x'\<lparr>bb_full := count_of k sfull, bb_empty := count_of k sempty, c_at := (if count_of k sempty < 0 then Blocked else c_at x)\<rparr>"
      using v' here x(2,4) by (cases "p_at x") (auto simp: v producer_def bindR_eq_Inr split: if_splits)
    then obtain x' where x': "producer m r x = Inr x'" "p_at x' \<noteq> Blocked" "c_at x' = c_at x"
      "v' = x'\<lparr>bb_full := count_of k sfull, bb_empty := count_of k sempty, c_at := (if count_of k sempty < 0 then Blocked else c_at x)\<rparr>" by blast
    let ?z = "\<lparr>machine_of = k, shop_of = x'\<rparr>"
    have eq: "producer_on sfull sempty m r z = Inr ?z" using here x'(1) by (auto simp: producer_on_def z)
    have "kernel_part tp tc sfull sempty k" using assms(1) by (simp add: stage_inv_def z)
    moreover have "waits_right tp tc sfull sempty ?z" using x x' f0(1) by (simp add: waits_right_def)
    moreover have "v' = viewed tp tc sfull sempty ?z" using x'(3,4) f0(1) e(1) by (simp add: viewed_def)
    ultimately show ?thesis using eq run v' unfolding v_def by auto
  qed
qed

lemma consumer_simulates:
  assumes "stage_inv tp tc sfull sempty m z" "sempty \<noteq> sfull" "running_thread (machine_of z) = tc" "c_at (shop_of z) \<noteq> Done" "1 \<le> r"
  shows "\<exists>z'. consumer_on sfull sempty m r z = Inr z' \<and> kernel_part tp tc sfull sempty (machine_of z') \<and> waits_right tp tc sfull sempty z' \<and>
    runnable (c_at (viewed tp tc sfull sempty z)) \<and> consumer m r (viewed tp tc sfull sempty z) = Inr (viewed tp tc sfull sempty z')"
proof -
  obtain k x where z: "z = \<lparr>machine_of = k, shop_of = x\<rparr>" by (cases z)
  define v where "v = viewed tp tc sfull sempty z"
  have k: "sys_inv k" "pending k = []" "sems k sempty \<noteq> None" "sems k sfull \<noteq> None" "set (waiters k sempty) \<subseteq> {tc}"
    "set (waiters k sfull) \<subseteq> {tp}" "tc \<noteq> scheduler_thread k" "tp \<noteq> scheduler_thread k" "running_thread k = tc"
    and x: "tp \<in> set (waiters k sfull) \<longrightarrow> p_at x = Accessing" "c_at x \<noteq> Blocked" "p_at x \<noteq> Blocked" "c_at x \<noteq> Done"
    using assms by (simp_all add: stage_inv_def kernel_part_def waits_right_def z)
  have wf: "tc \<notin> set (waiters k sempty)" using waiters_places(3) [OF k(1), of sempty] k(3,7,9) by auto
  note f = single_waiter [OF k(1,3,5)] and e = single_waiter [OF k(1,4,6)]
  have f0: "waiters k sempty = []" "0 \<le> count_of k sempty" using f wf by (auto split: if_splits)
  have v: "v = x\<lparr>bb_empty := count_of k sempty, bb_full := count_of k sfull, p_at := (if count_of k sfull < 0 then Blocked else p_at x)\<rparr>"
    using f0 e(1) by (simp add: v_def viewed_def z)
  have run: "runnable (c_at v)" using x(2,4) by (simp add: runnable_def v)
  consider (down) "c_at x = Acquiring" "c_i x < c_n x" | (up) "c_at x = Releasing"
    | (here) "\<not> (c_at x = Acquiring \<and> c_i x < c_n x)" "c_at x \<noteq> Releasing" by blast
  then show ?thesis
  proof cases
    case down
    obtain fl k' where k': "semaphore_P sempty k = Inr (fl, k')" "sys_inv k'" "pending k' = []" "scheduler_thread k' = scheduler_thread k"
      "count_of k' sempty = count_of k sempty - 1" "sems k' sempty \<noteq> None" "\<forall>q. q \<noteq> sempty \<longrightarrow> sems k' q = sems k q"
      "waiters k' sempty = (if 0 < count_of k sempty then [] else [tc])"
      using P_effect [OF k(1,3)] k(2,7,9) f0(1) by auto
    let ?z = "\<lparr>machine_of = k', shop_of = x\<lparr>c_at := Accessing\<rparr>\<rparr>"
    have s: "sems k' sfull = sems k sfull" using k'(7) assms(2) by simp
    have eq: "consumer_on sfull sempty m r z = Inr ?z" using down k'(1) by (simp add: consumer_on_def z)
    have "kernel_part tp tc sfull sempty k'" using k k' s waiters_cong [OF s] by (simp add: kernel_part_def)
    moreover have "waits_right tp tc sfull sempty ?z" using x waiters_cong [OF s] by (simp add: waits_right_def)
    moreover have "consumer m r v = Inr (viewed tp tc sfull sempty ?z)"
      using down k'(5,8) waiters_cong [OF s] count_of_cong [OF s] e(1) by (simp add: consumer_def v viewed_def)
    ultimately show ?thesis using eq run unfolding v_def by auto
  next
    case up
    obtain k' where k': "semaphore_V sfull k = Inr k'" "sys_inv k'" "pending k' = []" "scheduler_thread k' = scheduler_thread k"
      "count_of k' sfull = count_of k sfull + 1" "sems k' sfull \<noteq> None" "\<forall>q. q \<noteq> sfull \<longrightarrow> sems k' q = sems k q"
      "waiters k' sfull = []"
      using V_effect [OF k(1,4)] k(2) e(1) by (auto split: if_splits)
    let ?z = "\<lparr>machine_of = k', shop_of = x\<lparr>c_i := c_i x + 1, c_at := Acquiring\<rparr>\<rparr>"
    have s: "sems k' sempty = sems k sempty" using k'(7) assms(2) by simp
    have eq: "consumer_on sfull sempty m r z = Inr ?z" using up k'(1) by (simp add: consumer_on_def z)
    have "kernel_part tp tc sfull sempty k'" using k k' s waiters_cong [OF s] by (simp add: kernel_part_def)
    moreover have "waits_right tp tc sfull sempty ?z" using x k'(8) waiters_cong [OF s] f0(1) by (simp add: waits_right_def)
    moreover have "count_of k sfull < 0 \<longrightarrow> p_at x = Accessing" using x(1) e(1) by simp
    then have "consumer m r v = Inr (viewed tp tc sfull sempty ?z)"
      using up k'(5,8) waiters_cong [OF s] count_of_cong [OF s] e(2) x(3) f0(1) by (auto simp: consumer_def v viewed_def)
    ultimately show ?thesis using eq run unfolding v_def by auto
  next
    case here
    have "shop_inv m v" using assms(1) by (simp add: stage_inv_def v_def)
    then obtain v' where v': "consumer m r v = Inr v'" using consumer_keeps run assms(5) by blast
    have "\<exists>x'. consumer m r x = Inr x' \<and> c_at x' \<noteq> Blocked \<and> p_at x' = p_at x \<and>
        v' = x'\<lparr>bb_empty := count_of k sempty, bb_full := count_of k sfull, p_at := (if count_of k sfull < 0 then Blocked else p_at x)\<rparr>"
      using v' here x(2,4) by (cases "c_at x") (auto simp: v consumer_def bindR_eq_Inr split: if_splits)
    then obtain x' where x': "consumer m r x = Inr x'" "c_at x' \<noteq> Blocked" "p_at x' = p_at x"
      "v' = x'\<lparr>bb_empty := count_of k sempty, bb_full := count_of k sfull, p_at := (if count_of k sfull < 0 then Blocked else p_at x)\<rparr>" by blast
    let ?z = "\<lparr>machine_of = k, shop_of = x'\<rparr>"
    have eq: "consumer_on sfull sempty m r z = Inr ?z" using here x'(1) by (auto simp: consumer_on_def z)
    have "kernel_part tp tc sfull sempty k" using assms(1) by (simp add: stage_inv_def z)
    moreover have "waits_right tp tc sfull sempty ?z" using x x' f0(1) by (simp add: waits_right_def)
    moreover have "v' = viewed tp tc sfull sempty ?z" using x'(3,4) f0(1) e(1) by (simp add: viewed_def)
    ultimately show ?thesis using eq run v' unfolding v_def by auto
  qed
qed

lemma viewed_cong:
  assumes "sems k' = sems k"
  shows "viewed tp tc sfull sempty (z\<lparr>machine_of := k'\<rparr>) = viewed tp tc sfull sempty (z\<lparr>machine_of := k\<rparr>)"
  using assms by (simp add: viewed_def waiters_def count_of_def)

lemma stage_reschedule:
  assumes "stage_inv tp tc sfull sempty m z" "sys_inv k'" "pending k' = pending (machine_of z)" "sems k' = sems (machine_of z)"
    "scheduler_thread k' = scheduler_thread (machine_of z)"
  shows "stage_inv tp tc sfull sempty m (z\<lparr>machine_of := k'\<rparr>) \<and>
    viewed tp tc sfull sempty (z\<lparr>machine_of := k'\<rparr>) = viewed tp tc sfull sempty z"
proof -
  have v: "viewed tp tc sfull sempty (z\<lparr>machine_of := k'\<rparr>) = viewed tp tc sfull sempty z" using viewed_cong [OF assms(4)] by simp
  have w: "waiters k' p = waiters (machine_of z) p" for p using assms(4) by (simp add: waiters_def)
  show ?thesis using assms v by (simp add: stage_inv_def kernel_part_def waits_right_def w)
qed

text \<open>Every step on the kernel is a step of the abstract program, or none.\<close>

lemma stage_step_simulates:
  assumes "stage_step close tp tc sfull sempty m z z'" "stage_inv tp tc sfull sempty m z" "sfull \<noteq> sempty"
  shows "stage_inv tp tc sfull sempty m z' \<and>
    (shop_step m (viewed tp tc sfull sempty z) (viewed tp tc sfull sempty z') \<or> viewed tp tc sfull sempty z' = viewed tp tc sfull sempty z)"
  using assms(1)
proof cases
  case (produce_on r)
  have inv: "shop_inv m (viewed tp tc sfull sempty z)" using assms(2) by (simp add: stage_inv_def)
  from producer_simulates [OF assms(2,3) produce_on(1-3)] produce_on(5)
  have s: "kernel_part tp tc sfull sempty (machine_of z')" "waits_right tp tc sfull sempty z'" "runnable (p_at (viewed tp tc sfull sempty z))"
    "producer m r (viewed tp tc sfull sempty z) = Inr (viewed tp tc sfull sempty z')" by auto
  have st: "shop_step m (viewed tp tc sfull sempty z) (viewed tp tc sfull sempty z')" by (rule shop_step.produce [OF s(3) produce_on(3,4) s(4)])
  then show ?thesis using s(1,2) shop_step_inv [OF st inv] by (simp add: stage_inv_def)
next
  case (consume_on r)
  have inv: "shop_inv m (viewed tp tc sfull sempty z)" using assms(2) by (simp add: stage_inv_def)
  from consumer_simulates [OF assms(2) assms(3) [symmetric] consume_on(1-3)] consume_on(5)
  have s: "kernel_part tp tc sfull sempty (machine_of z')" "waits_right tp tc sfull sempty z'" "runnable (c_at (viewed tp tc sfull sempty z))"
    "consumer m r (viewed tp tc sfull sempty z) = Inr (viewed tp tc sfull sempty z')" by auto
  have st: "shop_step m (viewed tp tc sfull sempty z) (viewed tp tc sfull sempty z')" by (rule shop_step.consume [OF s(3) consume_on(3,4) s(4)])
  then show ?thesis using s(1,2) shop_step_inv [OF st inv] by (simp add: stage_inv_def)
next
  case (clock_on fl k')
  have k: "sys_inv (machine_of z)" "pending (machine_of z) = []" using assms(2) by (simp_all add: stage_inv_def kernel_part_def)
  from tick_effect [OF k clock_on(2)] stage_reschedule [OF assms(2), of k'] k(2) clock_on(1) show ?thesis by simp
next
  case (yield_on fl k')
  have k: "sys_inv (machine_of z)" using assms(2) by (simp add: stage_inv_def kernel_part_def)
  from yield_effect [OF k yield_on(2)] stage_reschedule [OF assms(2), of k'] yield_on(1) show ?thesis by simp
qed

lemma stage_reach:
  assumes "(stage_step close tp tc sfull sempty m)\<^sup>*\<^sup>* z z'" "stage_inv tp tc sfull sempty m z" "sfull \<noteq> sempty"
  shows "stage_inv tp tc sfull sempty m z' \<and> (shop_step m)\<^sup>*\<^sup>* (viewed tp tc sfull sempty z) (viewed tp tc sfull sempty z')"
  using assms(1)
proof (induction rule: rtranclp_induct)
  case base
  then show ?case using assms(2) by simp
next
  case (step y z')
  then show ?case using stage_step_simulates [OF step(2) _ assms(3)] by (metis rtranclp.rtrancl_into_rtrancl)
qed

text \<open>A kernel on which the two threads and the two semaphores have been made, as \<open>main\<close> and the producer make them.\<close>

definition prepared :: "ptr \<Rightarrow> ptr \<Rightarrow> ptr \<Rightarrow> ptr \<Rightarrow> system \<Rightarrow> bool" where
  "prepared tp tc sfull sempty k \<longleftrightarrow> sys_inv k \<and> pending k = [] \<and> sfull \<noteq> sempty \<and> tp \<noteq> scheduler_thread k \<and> tc \<noteq> scheduler_thread k \<and>
     semaphore_get_count sfull k = Inr BUFFER_SIZE \<and> semaphore_get_count sempty k = Inr 0"

lemma prepared_inv:
  assumes "prepared tp tc sfull sempty k" "0 \<le> m"
  shows "stage_inv tp tc sfull sempty m \<lparr>machine_of = k, shop_of = shop_start\<rparr>"
    "viewed tp tc sfull sempty \<lparr>machine_of = k, shop_of = shop_start\<rparr> = shop_start"
proof -
  have k: "sys_inv k" using assms(1) by (simp add: prepared_def)
  obtain f e where fe: "sems k sfull = Some f" "s_count f = 16" "sems k sempty = Some e" "s_count e = 0"
    using assms(1) by (auto simp: prepared_def semaphore_get_count_def assertR_def bindR_eq_Inr deref_eq_Inr split: if_splits)
  have w: "waiters k sfull = []" "waiters k sempty = []"
    using waiters_places(4) [OF k fe(1)] waiters_places(4) [OF k fe(3)] fe by simp_all
  have c: "count_of k sfull = 16" "count_of k sempty = 0" using fe by (simp_all add: count_of_def)
  show v: "viewed tp tc sfull sempty \<lparr>machine_of = k, shop_of = shop_start\<rparr> = shop_start"
    by (simp add: viewed_def w c shop_start_def)
  show "stage_inv tp tc sfull sempty m \<lparr>machine_of = k, shop_of = shop_start\<rparr>"
    using assms fe w shop_inv_start [OF assms(2)] v
    by (simp add: stage_inv_def kernel_part_def waits_right_def prepared_def) (simp add: shop_start_def)
qed

section \<open>Property\<close>

text \<open>
  C4: on the kernel with its scheduler, clock and semaphores, the program of the bounded buffer refines the abstract one: whatever the
  clock interrupts, the consumer takes 1, 2, 3, ... in order, and the running thread can always make its next step.
\<close>

theorem buffer_on_kernel:
  assumes "prepared tp tc sfull sempty k" "0 \<le> m" "(stage_step close tp tc sfull sempty m)\<^sup>*\<^sup>* \<lparr>machine_of = k, shop_of = shop_start\<rparr> z"
  shows "(shop_step m)\<^sup>*\<^sup>* shop_start (viewed tp tc sfull sempty z) \<and> printed (shop_of z) = [1..c_out (shop_of z)] \<and>
    (1 \<le> r \<and> running_thread (machine_of z) = tp \<and> p_at (shop_of z) \<noteq> Done \<longrightarrow> (\<exists>z'. producer_on sfull sempty m r z = Inr z')) \<and>
    (1 \<le> r \<and> running_thread (machine_of z) = tc \<and> c_at (shop_of z) \<noteq> Done \<longrightarrow> (\<exists>z'. consumer_on sfull sempty m r z = Inr z'))"
proof -
  have ne: "sfull \<noteq> sempty" using assms(1) by (simp add: prepared_def)
  note start = prepared_inv [OF assms(1,2)]
  have inv: "stage_inv tp tc sfull sempty m z" and run: "(shop_step m)\<^sup>*\<^sup>* shop_start (viewed tp tc sfull sempty z)"
    using stage_reach [OF assms(3) start(1) ne] start(2) by simp_all
  have "shop_inv m (viewed tp tc sfull sempty z)" using inv by (simp add: stage_inv_def)
  then have "printed (shop_of z) = [1..c_out (shop_of z)]" by (auto simp: shop_inv_def viewed_def Let_def)
  then show ?thesis using run producer_simulates [OF inv ne] consumer_simulates [OF inv ne [symmetric]] by blast
qed

lemma prepared_example: "\<exists>k. prepared 3 4 1 2 k"
proof -
  obtain b where b: "minithread_system_initialize 0 Inr zeroed = Inr b" "sys_inv b" "places b = {#3#}" "pending b = []" "sems b = Map.empty"
    "sem_brk b = 1" "scheduler_thread b = 1" using system_initialize_ok [of 0] by auto
  have new: "\<exists>s2 :: system. sys_inv s2 \<and> pending s2 = pending s \<and> scheduler_thread s2 = scheduler_thread s \<and> sem_brk s2 = Suc (sem_brk s) \<and>
      sems s2 = (sems s)(sem_brk s \<mapsto> \<lparr>s_count = c, wait_list = Some queue_new\<rparr>)"
    if s: "sys_inv s" "sems s (sem_brk s) = None" "0 \<le> c" for s :: system and c
  proof -
    have ti: "threads_inv s" using s(1) by (simp add: sys_inv_def)
    obtain s1 s2 where n: "semaphore_create undefined True s = Inr (sem_brk s, s1)" "semaphore_initialize (sem_brk s) c s1 = Inr s2"
      "threads_inv s2" "alarm_inv s2 = alarm_inv s" using semaphore_new_ok [OF ti s(3,2), of undefined] by blast
    have s1: "s1 = s\<lparr>sems := (sems s)(sem_brk s \<mapsto> undefined), sem_brk := Suc (sem_brk s)\<rparr>" using n(1) by (simp add: semaphore_create_def)
    have s2: "s2 = s\<lparr>sems := (sems s)(sem_brk s \<mapsto> \<lparr>s_count = c, wait_list = Some queue_new\<rparr>), sem_brk := Suc (sem_brk s)\<rparr>"
      using n(2) by (auto simp: semaphore_initialize_def assertR_def bindR_eq_Inr s1 split: if_splits)
    have "sys_inv s2" using n(3,4) s(1) by (simp add: sys_inv_def)
    moreover have "pending s2 = pending s" "scheduler_thread s2 = scheduler_thread s" "sem_brk s2 = Suc (sem_brk s)"
      "sems s2 = (sems s)(sem_brk s \<mapsto> \<lparr>s_count = c, wait_list = Some queue_new\<rparr>)" by (simp_all add: s2 pending_def)
    ultimately show ?thesis by blast
  qed
  obtain k1 :: system where k1: "sys_inv k1" "pending k1 = []" "scheduler_thread k1 = 1" "sem_brk k1 = Suc (Suc 0)"
    "sems k1 = [1 \<mapsto> \<lparr>s_count = 16, wait_list = Some queue_new\<rparr>]" using new [of b 16] b by auto
  obtain k2 :: system where k2: "sys_inv k2" "pending k2 = []" "scheduler_thread k2 = 1"
    "sems k2 = [1 \<mapsto> \<lparr>s_count = 16, wait_list = Some queue_new\<rparr>, 2 \<mapsto> \<lparr>s_count = 0, wait_list = Some queue_new\<rparr>]"
    using new [of k1 0] k1 by (auto simp: numeral_2_eq_2)
  then have "prepared 3 4 1 2 k2" by (simp add: prepared_def semaphore_get_count_def deref_Some)
  then show ?thesis by blast
qed

lemma buffer_on_kernel_witness:
  "\<exists>k z. prepared 3 4 1 2 k \<and> stage_step (\<lambda>p s. Inr s) 3 4 1 2 7 \<lparr>machine_of = k, shop_of = shop_start\<rparr> z \<and>
     printed (shop_of z) = [1..c_out (shop_of z)]"
proof -
  obtain k where k: "prepared 3 4 1 2 k" using prepared_example by blast
  then obtain fl k' where "minithread_yield k = Inr (fl, k')" using minithread_yield_sys [of k] by (auto simp: prepared_def)
  then have s: "stage_step (\<lambda>p s. Inr s) 3 4 1 2 7 \<lparr>machine_of = k, shop_of = shop_start\<rparr> (\<lparr>machine_of = k, shop_of = shop_start\<rparr>\<lparr>machine_of := k'\<rparr>)"
    by (intro stage_step.yield_on) simp
  then have "(stage_step (\<lambda>p s. Inr s) 3 4 1 2 7)\<^sup>*\<^sup>* \<lparr>machine_of = k, shop_of = shop_start\<rparr> (\<lparr>machine_of = k, shop_of = shop_start\<rparr>\<lparr>machine_of := k'\<rparr>)"
    by (rule rtranclp.rtrancl_into_rtrancl [OF rtranclp.rtrancl_refl])
  note buffer_on_kernel [OF k _ this]
  then have "printed (shop_of (\<lparr>machine_of = k, shop_of = shop_start\<rparr>\<lparr>machine_of := k'\<rparr>)) =
      [1..c_out (shop_of (\<lparr>machine_of = k, shop_of = shop_start\<rparr>\<lparr>machine_of := k'\<rparr>))]" by simp
  with k s show ?thesis by blast
qed

end
