(* ===== verification/Sieve.thy ===== *)
theory Sieve
  imports Prelude
begin

text \<open>
  The sieve of \<^verbatim>\<open>src/P1-P4/sieve.c\<close>: a source, a growing chain of filters and a sink, one thread each, joined by channels of one value with two
  semaphores. A step is the code of one thread up to and including its next access to a channel or call of a semaphore. A semaphore is
  its count and its queue, as in \<open>Synch\<close>; a thread in a queue makes no step. Channels and filters are never freed: they are numbered in the order
  of their allocation, and allocation does not fail.
\<close>

section \<open>The program\<close>

datatype thread = Source | Filter nat | Sink

record sema =
  sm_count :: int
  sm_waiters :: "thread list"

definition sema_P :: "thread \<Rightarrow> sema \<Rightarrow> sema" where
  "sema_P t sm = (let c = sm_count sm - 1
     in \<lparr>sm_count = c, sm_waiters = (if c < 0 then sm_waiters sm @ [t] else sm_waiters sm)\<rparr>)"

definition sema_V :: "sema \<Rightarrow> sema" where
  "sema_V sm = (let c = sm_count sm + 1
     in \<lparr>sm_count = c, sm_waiters = (if c \<le> 0 then tl (sm_waiters sm) else sm_waiters sm)\<rparr>)"

record channel =
  ch_value :: int
  ch_produce :: sema
  ch_consume :: sema

datatype source_place = S_put | S_signal | S_hold | S_last | S_end

datatype filter_place = F_wait | F_read | F_ack | F_test | F_signal | F_hold | F_next | F_end

datatype sink_place = K_wait | K_read | K_ack | K_next | K_end

record filt =
  f_left :: nat
  f_right :: nat
  f_prime :: int
  f_value :: int
  f_at :: filter_place

record pipe =
  source_at :: source_place
  source_i :: int
  filters :: "nat \<Rightarrow> filt"
  n_filters :: nat
  chans :: "nat \<Rightarrow> channel"
  n_chans :: nat
  sink_at :: sink_place
  sink_p :: nat
  sink_value :: int
  primes_out :: "int list"

definition asleep :: "thread \<Rightarrow> pipe \<Rightarrow> bool" where
  "asleep t z \<longleftrightarrow> (\<exists>j\<in>{..<n_chans z}. t \<in> set (sm_waiters (ch_produce (chans z j))) \<or> t \<in> set (sm_waiters (ch_consume (chans z j))))"

definition upd_chan :: "nat \<Rightarrow> (channel \<Rightarrow> channel) \<Rightarrow> pipe \<Rightarrow> pipe" where
  "upd_chan j g z = z\<lparr>chans := (chans z)(j := g (chans z j))\<rparr>"

definition upd_filter :: "nat \<Rightarrow> (filt \<Rightarrow> filt) \<Rightarrow> pipe \<Rightarrow> pipe" where
  "upd_filter k g z = z\<lparr>filters := (filters z)(k := g (filters z k))\<rparr>"

definition put_value :: "int \<Rightarrow> channel \<Rightarrow> channel" where
  "put_value v ch = ch\<lparr>ch_value := v\<rparr>"

definition V_consume :: "channel \<Rightarrow> channel" where
  "V_consume ch = ch\<lparr>ch_consume := sema_V (ch_consume ch)\<rparr>"

definition P_consume :: "thread \<Rightarrow> channel \<Rightarrow> channel" where
  "P_consume t ch = ch\<lparr>ch_consume := sema_P t (ch_consume ch)\<rparr>"

definition V_produce :: "channel \<Rightarrow> channel" where
  "V_produce ch = ch\<lparr>ch_produce := sema_V (ch_produce ch)\<rparr>"

definition P_produce :: "thread \<Rightarrow> channel \<Rightarrow> channel" where
  "P_produce t ch = ch\<lparr>ch_produce := sema_P t (ch_produce ch)\<rparr>"

definition new_channel :: channel where
  "new_channel = \<lparr>ch_value = 0, ch_produce = \<lparr>sm_count = 0, sm_waiters = []\<rparr>, ch_consume = \<lparr>sm_count = 0, sm_waiters = []\<rparr>\<rparr>"

text \<open>The channel of the source is its argument, the first one; \<open>m\<close> is \<open>max\<close>.\<close>

definition source :: "int \<Rightarrow> pipe \<Rightarrow> pipe" where
  "source m z = (case source_at z of
     S_put \<Rightarrow>
       if source_i z \<le> m then (upd_chan 0 (put_value (source_i z)) z)\<lparr>source_at := S_signal\<rparr>
       else (upd_chan 0 (put_value (- 1)) z)\<lparr>source_at := S_last\<rparr>
   | S_signal \<Rightarrow> (upd_chan 0 V_consume z)\<lparr>source_at := S_hold\<rparr>
   | S_hold \<Rightarrow> (upd_chan 0 (P_produce Source) z)\<lparr>source_at := S_put, source_i := source_i z + 1\<rparr>
   | S_last \<Rightarrow> (upd_chan 0 V_consume z)\<lparr>source_at := S_end\<rparr>
   | S_end \<Rightarrow> z)"

text \<open>A remainder by 0 traps.\<close>

definition filter_step :: "nat \<Rightarrow> pipe \<Rightarrow> pipe res" where
  "filter_step k z = (let f = filters z k in case f_at f of
     F_wait \<Rightarrow> Inr (upd_filter k (\<lambda>f. f\<lparr>f_at := F_read\<rparr>) (upd_chan (f_left f) (P_consume (Filter k)) z))
   | F_read \<Rightarrow> Inr (upd_filter k (\<lambda>f. f\<lparr>f_value := ch_value (chans z (f_left f)), f_at := F_ack\<rparr>) z)
   | F_ack \<Rightarrow> Inr (upd_filter k (\<lambda>f. f\<lparr>f_at := F_test\<rparr>) (upd_chan (f_left f) V_produce z))
   | F_test \<Rightarrow> assertR (f_value f = - 1 \<or> f_prime f \<noteq> 0)
       (Inr (if f_value f = - 1 \<or> cmod (f_value f) (f_prime f) \<noteq> 0
        then upd_filter k (\<lambda>f. f\<lparr>f_at := F_signal\<rparr>) (upd_chan (f_right f) (put_value (f_value f)) z)
        else upd_filter k (\<lambda>f. f\<lparr>f_at := F_wait\<rparr>) z))
   | F_signal \<Rightarrow> Inr (upd_filter k (\<lambda>f. f\<lparr>f_at := F_hold\<rparr>) (upd_chan (f_right f) V_consume z))
   | F_hold \<Rightarrow> Inr (upd_filter k (\<lambda>f. f\<lparr>f_at := F_next\<rparr>) (upd_chan (f_right f) (P_produce (Filter k)) z))
   | F_next \<Rightarrow> Inr (upd_filter k (\<lambda>f. f\<lparr>f_at := (if f_value f = - 1 then F_end else F_wait)\<rparr>) z)
   | F_end \<Rightarrow> Inr z)"

text \<open>The sink forks a filter for each prime; \<open>value\<close> of the new filter is not set before it is read.\<close>

definition sink :: "pipe \<Rightarrow> pipe" where
  "sink z = (case sink_at z of
     K_wait \<Rightarrow> (upd_chan (sink_p z) (P_consume Sink) z)\<lparr>sink_at := K_read\<rparr>
   | K_read \<Rightarrow> z\<lparr>sink_value := ch_value (chans z (sink_p z)), sink_at := K_ack\<rparr>
   | K_ack \<Rightarrow> (upd_chan (sink_p z) V_produce z)\<lparr>sink_at := K_next\<rparr>
   | K_next \<Rightarrow>
       if sink_value z = - 1 then z\<lparr>sink_at := K_end\<rparr>
       else z\<lparr>primes_out := primes_out z @ [sink_value z],
              filters := (filters z)(n_filters z := \<lparr>f_left = sink_p z, f_right = n_chans z, f_prime = sink_value z, f_value = 0, f_at = F_wait\<rparr>),
              n_filters := n_filters z + 1, chans := (chans z)(n_chans z := new_channel), sink_p := n_chans z, n_chans := n_chans z + 1,
              sink_at := K_wait\<rparr>
   | K_end \<Rightarrow> z)"

text \<open>After the sink has made the first channel and forked the source.\<close>

definition pipe_start :: pipe where
  "pipe_start = \<lparr>source_at = S_put, source_i = 2, filters = (\<lambda>_. \<lparr>f_left = 0, f_right = 0, f_prime = 0, f_value = 0, f_at = F_end\<rparr>),
     n_filters = 0, chans = (\<lambda>_. new_channel), n_chans = 1, sink_at = K_wait, sink_p = 0, sink_value = 0, primes_out = []\<rparr>"

inductive pipe_step :: "int \<Rightarrow> pipe \<Rightarrow> pipe \<Rightarrow> bool" for m where
  source_steps: "source_at z \<noteq> S_end \<Longrightarrow> \<not> asleep Source z \<Longrightarrow> pipe_step m z (source m z)"
| filter_steps: "k < n_filters z \<Longrightarrow> f_at (filters z k) \<noteq> F_end \<Longrightarrow> \<not> asleep (Filter k) z \<Longrightarrow> filter_step k z = Inr z' \<Longrightarrow> pipe_step m z z'"
| sink_steps: "sink_at z \<noteq> K_end \<Longrightarrow> \<not> asleep Sink z \<Longrightarrow> pipe_step m z (sink z)"

section \<open>The values that go through each channel\<close>

definition kept :: "int \<Rightarrow> int \<Rightarrow> bool" where
  "kept p v \<longleftrightarrow> v = - 1 \<or> v mod p \<noteq> 0"

fun stage :: "int \<Rightarrow> nat \<Rightarrow> int list" where
  "stage m 0 = [2..m] @ [- 1]"
| "stage m (Suc j) = filter (kept (hd (stage m j))) (tl (stage m j))"

text \<open>A stage that the pipe reaches: numbers from 2 on, then the end mark.\<close>

definition marked :: "int list \<Rightarrow> bool" where
  "marked xs \<longleftrightarrow> xs \<noteq> [] \<and> last xs = - 1 \<and> (\<forall>v\<in>set (butlast xs). 2 \<le> v)"

lemma marked_split: "marked xs \<Longrightarrow> \<exists>ys. xs = ys @ [- 1] \<and> (\<forall>v\<in>set ys. 2 \<le> v)"
  unfolding marked_def by (metis append_butlast_last_id)

lemma marked_0: "marked (stage m 0)"
  by (simp add: marked_def)

lemma marked_Suc: "marked (stage m j) \<Longrightarrow> hd (stage m j) \<noteq> - 1 \<Longrightarrow> marked (stage m (Suc j))"
proof -
  assume a: "marked (stage m j)" "hd (stage m j) \<noteq> - 1"
  then obtain ys where ys: "stage m j = ys @ [- 1]" "\<forall>v\<in>set ys. 2 \<le> v" using marked_split by blast
  then obtain y zs where "ys = y # zs" using a(2) by (cases ys) auto
  then show ?thesis using ys by (auto simp: marked_def kept_def butlast_append)
qed

lemma stages_marked: "\<forall>k<n. hd (stage m k) \<noteq> - 1 \<Longrightarrow> j \<le> n \<Longrightarrow> marked (stage m j)"
proof (induction j)
  case 0
  show ?case by (rule marked_0)
next
  case (Suc j)
  then show ?case by (intro marked_Suc) simp_all
qed

lemma marked_end: "marked xs \<Longrightarrow> i < length xs \<Longrightarrow> xs ! i = - 1 \<longleftrightarrow> i = length xs - 1"
proof -
  assume a: "marked xs" "i < length xs"
  then obtain ys where ys: "xs = ys @ [- 1]" "\<forall>v\<in>set ys. 2 \<le> v" using marked_split by blast
  have "ys ! i \<noteq> - 1" if "i < length ys" using ys(2) nth_mem [OF that] by fastforce
  then show ?thesis using a(2) ys(1) by (auto simp: nth_append)
qed

text \<open>The next value kept.\<close>

lemma next_kept:
  assumes "c < length xs" "P (xs ! c)"
  shows "length (filter P (take c xs)) < length (filter P xs)" "filter P xs ! length (filter P (take c xs)) = xs ! c"
proof -
  have "filter P xs = filter P (take c xs) @ xs ! c # filter P (drop (Suc c) xs)"
    using assms by (subst id_take_nth_drop [OF assms(1)]) simp
  then show "length (filter P (take c xs)) < length (filter P xs)" "filter P xs ! length (filter P (take c xs)) = xs ! c"
    by (simp_all add: nth_append)
qed

section \<open>One channel\<close>

text \<open>
  What the writer and the reader of a channel have done: \<open>a\<close> values are written and \<open>b\<close> read; the writer is free, has written a value, or has
  signalled it and not yet held; the reader is free, waits for a value, or has read it and not yet acknowledged.
\<close>

datatype wphase = W_free | W_put | W_sig

datatype rphase = R_free | R_wait | R_got

fun unsig :: "wphase \<Rightarrow> int" where
  "unsig W_put = 1" | "unsig W_free = 0" | "unsig W_sig = 0"

fun unheld :: "wphase \<Rightarrow> int" where
  "unheld W_put = 1" | "unheld W_free = 0" | "unheld W_sig = 1"

fun awaits :: "rphase \<Rightarrow> int" where
  "awaits R_wait = 1" | "awaits R_free = 0" | "awaits R_got = 0"

fun unacked :: "rphase \<Rightarrow> int" where
  "unacked R_got = 1" | "unacked R_free = 0" | "unacked R_wait = 0"

definition sema_of :: "int \<Rightarrow> thread \<Rightarrow> sema" where
  "sema_of c t = \<lparr>sm_count = c, sm_waiters = (if c < 0 then [t] else [])\<rparr>"

definition chan_ok :: "int list \<Rightarrow> thread \<Rightarrow> thread \<Rightarrow> nat \<Rightarrow> nat \<Rightarrow> wphase \<Rightarrow> rphase \<Rightarrow> channel \<Rightarrow> bool" where
  "chan_ok xs w r a b wp rp ch \<longleftrightarrow>
    ch_consume ch = sema_of (int a - unsig wp - int b - awaits rp) r \<and>
    ch_produce ch = sema_of (int b - unacked rp - (int a - unheld wp)) w \<and>
    int b \<le> int a - unsig wp \<and> int a \<le> int b - unacked rp + 1 \<and> a \<le> length xs \<and> (0 < a \<longrightarrow> ch_value ch = xs ! (a - 1))"

named_theorems channel_ops

lemmas [channel_ops] = put_value_def V_consume_def P_consume_def V_produce_def P_produce_def sema_P_def sema_V_def sema_of_def

lemma chan_ok_put:
  assumes "chan_ok xs w r a b W_free rp ch" "w \<notin> set (sm_waiters (ch_produce ch))" "a < length xs"
  shows "chan_ok xs w r (a + 1) b W_put rp (put_value (xs ! a) ch)"
  using assms by (auto simp: chan_ok_def channel_ops split: if_splits)

lemma chan_ok_signal: "chan_ok xs w r a b W_put rp ch \<Longrightarrow> chan_ok xs w r a b W_sig rp (V_consume ch)"
  by (cases rp) (auto simp: chan_ok_def channel_ops)

lemma chan_ok_hold: "chan_ok xs w r a b W_sig rp ch \<Longrightarrow> chan_ok xs w r a b W_free rp (P_produce w ch)"
  by (cases rp) (auto simp: chan_ok_def channel_ops)

lemma chan_ok_wait: "chan_ok xs w r a b wp R_free ch \<Longrightarrow> chan_ok xs w r a b wp R_wait (P_consume r ch)"
  by (auto simp: chan_ok_def channel_ops)

lemma chan_ok_read:
  assumes "chan_ok xs w r a b wp R_wait ch" "r \<notin> set (sm_waiters (ch_consume ch))"
  shows "chan_ok xs w r a (b + 1) wp R_got ch" "ch_value ch = xs ! b" "b < length xs"
proof -
  have "int b + 1 \<le> int a - unsig wp" using assms by (auto simp: chan_ok_def sema_of_def split: if_splits)
  moreover have "a \<le> b + 1" using assms(1) by (simp add: chan_ok_def)
  moreover have "0 \<le> unsig wp" by (cases wp) simp_all
  ultimately have "a = b + 1" "unsig wp = 0" by linarith+
  then show "chan_ok xs w r a (b + 1) wp R_got ch" "ch_value ch = xs ! b" "b < length xs"
    using assms(1) by (auto simp: chan_ok_def)
qed

lemma chan_ok_ack: "chan_ok xs w r a b wp R_got ch \<Longrightarrow> chan_ok xs w r a b wp R_free (V_produce ch)"
  by (cases wp) (auto simp: chan_ok_def channel_ops)

lemma chan_ok_handover: "chan_ok xs w r a b wp R_free ch \<Longrightarrow> chan_ok xs w r' a b wp R_free ch"
  by (auto simp: chan_ok_def sema_of_def)

lemma chan_ok_new: "chan_ok xs w r 0 0 W_free R_free new_channel"
  by (simp add: chan_ok_def new_channel_def sema_of_def)

lemma chan_ok_le: "chan_ok xs w r a b wp rp ch \<Longrightarrow> b \<le> length xs"
  by (cases wp) (auto simp: chan_ok_def)

lemma chan_ok_reader_waits:
  assumes "chan_ok xs w r a b wp rp ch" "t \<in> set (sm_waiters (ch_consume ch))"
  shows "t = r" "rp = R_wait" "int a - unsig wp = int b"
  using assms by (cases rp; auto simp: chan_ok_def sema_of_def split: if_splits)+

lemma chan_ok_writer_waits:
  assumes "chan_ok xs w r a b wp rp ch" "t \<in> set (sm_waiters (ch_produce ch))"
  shows "t = w" "wp = W_free" "int a = int b - unacked rp + 1"
  using assms by (cases wp; auto simp: chan_ok_def sema_of_def split: if_splits)+

section \<open>The pipe\<close>

text \<open>Of filter \<open>k\<close>, whose channel holds the values \<open>xs\<close>: how many of the first \<open>c\<close> it writes to its right.\<close>

definition passed :: "int list \<Rightarrow> nat \<Rightarrow> nat" where
  "passed xs c = length (filter (kept (hd xs)) (take (c - 1) (tl xs)))"

text \<open>What is written to a channel, from the place of its writer and the number \<open>b\<close> of values read from the channel before it.\<close>

fun source_written :: "int \<Rightarrow> int \<Rightarrow> source_place \<Rightarrow> nat" where
  "source_written m i S_put = nat (i - 2)"
| "source_written m i S_signal = nat (i - 1)"
| "source_written m i S_hold = nat (i - 1)"
| "source_written m i S_last = length (stage m 0)"
| "source_written m i S_end = length (stage m 0)"

fun written :: "int \<Rightarrow> (nat \<Rightarrow> nat) \<Rightarrow> pipe \<Rightarrow> nat \<Rightarrow> nat" where
  "written m b z 0 = source_written m (source_i z) (source_at z)"
| "written m b z (Suc k) = passed (stage m k) (if f_at (filters z k) \<in> {F_ack, F_test} then b k - 1 else b k)"

fun writer :: "nat \<Rightarrow> thread" where
  "writer 0 = Source"
| "writer (Suc k) = Filter k"

fun source_phase :: "source_place \<Rightarrow> wphase" where
  "source_phase S_put = W_free" | "source_phase S_signal = W_put" | "source_phase S_hold = W_sig" | "source_phase S_last = W_put"
| "source_phase S_end = W_sig"

definition filter_wphase :: "filter_place \<Rightarrow> wphase" where
  "filter_wphase at = (if at = F_signal then W_put else if at = F_hold then W_sig else W_free)"

definition filter_rphase :: "filter_place \<Rightarrow> rphase" where
  "filter_rphase at = (if at = F_read then R_wait else if at = F_ack then R_got else R_free)"

definition sink_phase :: "sink_place \<Rightarrow> rphase" where
  "sink_phase at = (if at = K_read then R_wait else if at = K_ack then R_got else R_free)"

fun writer_phase :: "pipe \<Rightarrow> nat \<Rightarrow> wphase" where
  "writer_phase z 0 = source_phase (source_at z)"
| "writer_phase z (Suc k) = filter_wphase (f_at (filters z k))"

definition reader :: "pipe \<Rightarrow> nat \<Rightarrow> thread" where
  "reader z j = (if j < n_filters z then Filter j else Sink)"

definition reader_phase :: "pipe \<Rightarrow> nat \<Rightarrow> rphase" where
  "reader_phase z j = (if j < n_filters z then filter_rphase (f_at (filters z j)) else sink_phase (sink_at z))"

fun source_ok :: "int \<Rightarrow> int \<Rightarrow> source_place \<Rightarrow> bool" where
  "source_ok m i S_put = (2 \<le> i \<and> i \<le> max 2 (m + 1))"
| "source_ok m i S_signal = (2 \<le> i \<and> i \<le> m)"
| "source_ok m i S_hold = (2 \<le> i \<and> i \<le> m)"
| "source_ok m i S_last = True"
| "source_ok m i S_end = True"

definition filter_ok :: "int list \<Rightarrow> nat \<Rightarrow> filt \<Rightarrow> bool" where
  "filter_ok xs b f \<longleftrightarrow> f_prime f = hd xs \<and> hd xs \<noteq> - 1 \<and> 1 \<le> b \<and> (case f_at f of
     F_wait \<Rightarrow> b < length xs | F_read \<Rightarrow> b < length xs
   | F_end \<Rightarrow> b = length xs
   | _ \<Rightarrow> 2 \<le> b \<and> f_value f = xs ! (b - 1) \<and> (f_at f \<in> {F_signal, F_hold, F_next} \<longrightarrow> kept (hd xs) (f_value f)))"

fun sink_ok :: "int list \<Rightarrow> nat \<Rightarrow> int \<Rightarrow> sink_place \<Rightarrow> bool" where
  "sink_ok xs b v K_wait = (b = 0)"
| "sink_ok xs b v K_read = (b = 0)"
| "sink_ok xs b v K_ack = (b = 1 \<and> v = hd xs)"
| "sink_ok xs b v K_next = (b = 1 \<and> v = hd xs)"
| "sink_ok xs b v K_end = (b = 1 \<and> hd xs = - 1)"

definition chain_ok :: "int \<Rightarrow> (nat \<Rightarrow> nat) \<Rightarrow> pipe \<Rightarrow> nat \<Rightarrow> bool" where
  "chain_ok m b z j \<longleftrightarrow> chan_ok (stage m j) (writer j) (reader z j) (written m b z j) (b j) (writer_phase z j) (reader_phase z j) (chans z j)"

definition pipe_ok :: "int \<Rightarrow> (nat \<Rightarrow> nat) \<Rightarrow> pipe \<Rightarrow> bool" where
  "pipe_ok m b z \<longleftrightarrow> n_chans z = n_filters z + 1 \<and> sink_p z = n_filters z \<and>
    (\<forall>k<n_filters z. f_left (filters z k) = k \<and> f_right (filters z k) = k + 1) \<and>
    source_ok m (source_i z) (source_at z) \<and> (\<forall>k<n_filters z. filter_ok (stage m k) (b k) (filters z k)) \<and>
    sink_ok (stage m (n_filters z)) (b (n_filters z)) (sink_value z) (sink_at z) \<and>
    (\<forall>j\<le>n_filters z. chain_ok m b z j) \<and> primes_out z = map (\<lambda>k. hd (stage m k)) [0..<n_filters z]"

lemma pipe_ok_start: "pipe_ok m (\<lambda>_. 0) pipe_start"
  by (simp add: pipe_ok_def pipe_start_def chain_ok_def chan_ok_new reader_phase_def sink_phase_def)

lemma awake_writer: "\<not> asleep (writer j) z \<Longrightarrow> j < n_chans z \<Longrightarrow> writer j \<notin> set (sm_waiters (ch_produce (chans z j)))"
  by (auto simp: asleep_def)

lemma awake_reader: "\<not> asleep t z \<Longrightarrow> j < n_chans z \<Longrightarrow> t \<notin> set (sm_waiters (ch_consume (chans z j)))"
  by (auto simp: asleep_def)

lemma stage_marked: "pipe_ok m b z \<Longrightarrow> j \<le> n_filters z \<Longrightarrow> marked (stage m j)"
  by (rule stages_marked [of "n_filters z"]) (auto simp: pipe_ok_def filter_ok_def)

lemma stage_split: "pipe_ok m b z \<Longrightarrow> j \<le> n_filters z \<Longrightarrow> \<exists>ys. stage m j = ys @ [- 1] \<and> (\<forall>v\<in>set ys. 2 \<le> v)"
  using stage_marked marked_split by blast

lemma stage_0_nth: "2 \<le> i \<Longrightarrow> i \<le> m \<Longrightarrow> stage m 0 ! nat (i - 2) = i"
  by (simp add: nth_append)

lemma stage_0_length: "length (stage m 0) = nat (m - 1) + 1"
  by simp

text \<open>The source.\<close>

lemma source_keeps:
  assumes "pipe_ok m b z" "source_at z \<noteq> S_end" "\<not> asleep Source z"
  shows "pipe_ok m b (source m z)"
proof -
  have c0: "chain_ok m b z 0" and rest: "\<And>j. 0 < j \<Longrightarrow> j \<le> n_filters z \<Longrightarrow> chain_ok m b z j"
    using assms(1) by (auto simp: pipe_ok_def)
  have awake: "Source \<notin> set (sm_waiters (ch_produce (chans z 0)))" using awake_writer [of 0 z] assms by (simp add: pipe_ok_def)
  have s: "source_ok m (source_i z) (source_at z)" using assms(1) by (simp add: pipe_ok_def)
  note simps = source_def chain_ok_def upd_chan_def reader_def reader_phase_def
  have z0: "chain_ok m b (source m z) 0"
  proof (cases "source_at z")
    case S_put
    have l: "nat (source_i z - 2) < length (stage m 0)" using s S_put by (auto simp: max_def split: if_splits)
    have o: "chan_ok (stage m 0) Source (reader z 0) (nat (source_i z - 2)) (b 0) W_free (reader_phase z 0) (chans z 0)"
      using c0 S_put by (simp add: chain_ok_def)
    show ?thesis
    proof (cases "source_i z \<le> m")
      case True
      have "nat (source_i z - 2) + 1 = nat (source_i z - 1)" "stage m 0 ! nat (source_i z - 2) = source_i z"
        using s S_put True stage_0_nth by auto
      then show ?thesis using chan_ok_put [OF o awake l] S_put True by (auto simp: simps simp del: stage.simps)
    next
      case False
      then have "nat (source_i z - 2) + 1 = length (stage m 0)" "stage m 0 ! nat (source_i z - 2) = - 1"
        using s S_put by (auto simp: nth_append)
      then show ?thesis using chan_ok_put [OF o awake l] S_put False by (auto simp: simps simp del: stage.simps)
    qed
  next
    case S_signal
    then show ?thesis using c0 chan_ok_signal by (auto simp: simps simp del: stage.simps)
  next
    case S_hold
    then show ?thesis using c0 chan_ok_hold by (auto simp: simps simp del: stage.simps)
  next
    case S_last
    then show ?thesis using c0 chan_ok_signal by (auto simp: simps simp del: stage.simps)
  qed (use assms(2) in simp)
  have zj: "chain_ok m b (source m z) j" if "0 < j" "j \<le> n_filters z" for j
    using rest [OF that] that(1) by (cases j) (auto simp: simps split: source_place.splits)
  have "source_ok m (source_i (source m z)) (source_at (source m z))" using s by (auto simp: source_def upd_chan_def split: source_place.splits)
  moreover have "chain_ok m b (source m z) j" if "j \<le> n_filters (source m z)" for j
    using z0 zj [of j] that by (cases j) (auto simp: source_def upd_chan_def split: source_place.splits if_splits)
  ultimately show ?thesis using assms(1)
    unfolding pipe_ok_def by (auto simp: source_def upd_chan_def split: source_place.splits)
qed

text \<open>A filter.\<close>

lemma filter_frame:
  assumes "pipe_ok m b z" "k < n_filters z" and z': "z' = upd_filter k g (z\<lparr>chans := cs\<rparr>)"
    and cs: "\<And>j. j \<noteq> k \<Longrightarrow> j \<noteq> Suc k \<Longrightarrow> cs j = chans z j" and b': "\<And>j. j \<noteq> k \<Longrightarrow> b' j = b j"
    and g: "f_left (g (filters z k)) = k" "f_right (g (filters z k)) = k + 1" "filter_ok (stage m k) (b' k) (g (filters z k))"
    and new: "chain_ok m b' z' k" "chain_ok m b' z' (Suc k)"
  shows "pipe_ok m b' z'"
proof -
  have chain: "chain_ok m b' z' j" if "j \<le> n_filters z" for j
  proof -
    have "chain_ok m b z j" using assms(1) that by (simp add: pipe_ok_def)
    then have "chain_ok m b' z' j" if "j \<noteq> k" "j \<noteq> Suc k"
      using that cs b' by (cases j) (auto simp: chain_ok_def z' upd_filter_def reader_def reader_phase_def)
    then show ?thesis using new by blast
  qed
  have "n_filters z' = n_filters z" by (simp add: z' upd_filter_def)
  then show ?thesis using assms(1,2) g chain b'
    unfolding pipe_ok_def by (auto simp: z' upd_filter_def)
qed

lemma passed_next:
  assumes "2 \<le> c" "c \<le> length xs"
  shows "kept (hd xs) (xs ! (c - 1)) \<Longrightarrow> passed xs c = passed xs (c - 1) + 1"
    "kept (hd xs) (xs ! (c - 1)) \<Longrightarrow> passed xs (c - 1) < length (filter (kept (hd xs)) (tl xs))"
    "kept (hd xs) (xs ! (c - 1)) \<Longrightarrow> filter (kept (hd xs)) (tl xs) ! passed xs (c - 1) = xs ! (c - 1)"
    "\<not> kept (hd xs) (xs ! (c - 1)) \<Longrightarrow> passed xs c = passed xs (c - 1)"
proof -
  have l: "c - 2 < length (tl xs)" and e: "c - 1 = Suc (c - 2)" and d: "c - 1 - 1 = c - 2" using assms by auto
  have n: "tl xs ! (c - 2) = xs ! (c - 1)" using l e by (simp add: nth_tl)
  have t: "take (c - 1) (tl xs) = take (c - 2) (tl xs) @ [xs ! (c - 1)]" using l n e by (simp only: take_Suc_conv_app_nth)
  have p: "passed xs (c - 1) = length (filter (kept (hd xs)) (take (c - 2) (tl xs)))" unfolding passed_def d ..
  show "kept (hd xs) (xs ! (c - 1)) \<Longrightarrow> passed xs c = passed xs (c - 1) + 1"
    "\<not> kept (hd xs) (xs ! (c - 1)) \<Longrightarrow> passed xs c = passed xs (c - 1)"
    using p by (simp_all add: passed_def [of xs c] t del: One_nat_def)
  show "kept (hd xs) (xs ! (c - 1)) \<Longrightarrow> passed xs (c - 1) < length (filter (kept (hd xs)) (tl xs))"
    "kept (hd xs) (xs ! (c - 1)) \<Longrightarrow> filter (kept (hd xs)) (tl xs) ! passed xs (c - 1) = xs ! (c - 1)"
    using next_kept [OF l] unfolding n p by blast+
qed

lemma prime_at_least_2:
  assumes "pipe_ok m b z" "k < n_filters z"
  shows "2 \<le> f_prime (filters z k)"
proof -
  have "f_prime (filters z k) = hd (stage m k)" "hd (stage m k) \<noteq> - 1" using assms by (auto simp: pipe_ok_def filter_ok_def)
  moreover obtain ys where "stage m k = ys @ [- 1]" "\<forall>v\<in>set ys. 2 \<le> v" using stage_split [OF assms(1) less_imp_le [OF assms(2)]] by blast
  ultimately show ?thesis by (cases ys) auto
qed

lemma filter_test:
  assumes "pipe_ok m b z" "k < n_filters z" "f_at (filters z k) = F_test"
  defines "f \<equiv> filters z k"
  shows "(f_value f = - 1 \<or> cmod (f_value f) (f_prime f) \<noteq> 0) = kept (hd (stage m k)) (f_value f)"
proof -
  have f: "filter_ok (stage m k) (b k) f" and c: "chain_ok m b z k" using assms by (auto simp: pipe_ok_def f_def)
  have l: "b k - 1 < length (stage m k)" "f_value f = stage m k ! (b k - 1)" "f_prime f = hd (stage m k)"
    using f c assms(3) by (auto simp: filter_ok_def f_def chain_ok_def chan_ok_def split: wphase.splits) (cases "writer_phase z k"; simp)+
  obtain ys where ys: "stage m k = ys @ [- 1]" "\<forall>v\<in>set ys. 2 \<le> v" using stage_split [OF assms(1) less_imp_le [OF assms(2)]] by blast
  have "f_value f \<in> set ys \<or> f_value f = - 1" using nth_mem [OF l(1)] l(2) ys(1) by auto
  then show ?thesis
    using ys(2) prime_at_least_2 [OF assms(1,2)] l(3) by (auto simp: kept_def f_def)
qed

definition filter_moved :: "nat \<Rightarrow> filt \<Rightarrow> channel \<Rightarrow> channel \<Rightarrow> pipe \<Rightarrow> pipe" where
  "filter_moved k f l r z = z\<lparr>filters := (filters z)(k := f), chans := (chans z)(k := l, Suc k := r)\<rparr>"

definition read_count :: "nat \<Rightarrow> filter_place \<Rightarrow> nat" where
  "read_count c at = (if at \<in> {F_ack, F_test} then c - 1 else c)"

lemma filter_moved_ok:
  assumes "pipe_ok m b z" "k < n_filters z" "f_left f = k" "f_right f = k + 1" "filter_ok (stage m k) c f"
    "chan_ok (stage m k) (writer k) (Filter k) (written m b z k) c (writer_phase z k) (filter_rphase (f_at f)) l"
    "chan_ok (stage m (Suc k)) (Filter k) (reader z (Suc k)) (passed (stage m k) (read_count c (f_at f))) (b (Suc k)) (filter_wphase (f_at f))
       (reader_phase z (Suc k)) r"
  shows "pipe_ok m (b(k := c)) (filter_moved k f l r z)"
proof (rule filter_frame [OF assms(1,2), where g = "\<lambda>_. f" and cs = "(chans z)(k := l, Suc k := r)"])
  show "filter_moved k f l r z = upd_filter k (\<lambda>_. f) (z\<lparr>chans := (chans z)(k := l, Suc k := r)\<rparr>)"
    by (simp add: filter_moved_def upd_filter_def)
  show "chain_ok m (b(k := c)) (filter_moved k f l r z) k"
    using assms(2,6) by (cases k) (auto simp: chain_ok_def filter_moved_def reader_def reader_phase_def simp del: stage.simps)
  show "chain_ok m (b(k := c)) (filter_moved k f l r z) (Suc k)"
    using assms(7) by (auto simp: chain_ok_def filter_moved_def reader_def reader_phase_def read_count_def simp del: stage.simps)
qed (use assms(3-5) in auto)

lemma moved_left: "filter_moved k f l (chans z (Suc k)) z = upd_filter k (\<lambda>_. f) (upd_chan k (\<lambda>_. l) z)"
proof -
  have "(chans z)(k := l, Suc k := chans z (Suc k)) = (chans z)(k := l)" by auto
  then show ?thesis by (simp add: filter_moved_def upd_filter_def upd_chan_def)
qed

lemma moved_right: "filter_moved k f (chans z k) r z = upd_filter k (\<lambda>_. f) (upd_chan (Suc k) (\<lambda>_. r) z)"
  by (simp add: filter_moved_def upd_filter_def upd_chan_def)

lemma moved_only: "filter_moved k f (chans z k) (chans z (Suc k)) z = upd_filter k (\<lambda>_. f) z"
  by (simp add: filter_moved_def upd_filter_def)

text \<open>The steps of a filter between its two channels.\<close>

lemma filter_step_at:
  assumes "f_left (filters z k) = k" "f_right (filters z k) = k + 1"
  defines "f \<equiv> filters z k" and "l \<equiv> chans z k" and "r \<equiv> chans z (Suc k)"
  shows "f_at f = F_wait \<Longrightarrow> filter_step k z = Inr (filter_moved k (f\<lparr>f_at := F_read\<rparr>) (P_consume (Filter k) l) r z)"
    "f_at f = F_read \<Longrightarrow> filter_step k z = Inr (filter_moved k (f\<lparr>f_value := ch_value l, f_at := F_ack\<rparr>) l r z)"
    "f_at f = F_ack \<Longrightarrow> filter_step k z = Inr (filter_moved k (f\<lparr>f_at := F_test\<rparr>) (V_produce l) r z)"
    "f_at f = F_signal \<Longrightarrow> filter_step k z = Inr (filter_moved k (f\<lparr>f_at := F_hold\<rparr>) l (V_consume r) z)"
    "f_at f = F_hold \<Longrightarrow> filter_step k z = Inr (filter_moved k (f\<lparr>f_at := F_next\<rparr>) l (P_produce (Filter k) r) z)"
    "f_at f = F_next \<Longrightarrow> filter_step k z = Inr (filter_moved k (f\<lparr>f_at := (if f_value f = - 1 then F_end else F_wait)\<rparr>) l r z)"
  unfolding l_def r_def moved_left moved_right moved_only
  using assms(1,2) by (simp_all add: filter_step_def f_def upd_filter_def upd_chan_def)

lemma filter_step_test:
  assumes "f_left (filters z k) = k" "f_right (filters z k) = k + 1"
  defines "f \<equiv> filters z k" and "l \<equiv> chans z k" and "r \<equiv> chans z (Suc k)"
  assumes "f_at f = F_test" "f_prime f \<noteq> 0"
  shows "filter_step k z = Inr (if f_value f = - 1 \<or> cmod (f_value f) (f_prime f) \<noteq> 0
    then filter_moved k (f\<lparr>f_at := F_signal\<rparr>) l (put_value (f_value f) r) z else filter_moved k (f\<lparr>f_at := F_wait\<rparr>) l r z)"
  unfolding l_def r_def moved_left moved_right moved_only
  using assms(1,2,6,7) by (simp add: filter_step_def f_def upd_filter_def upd_chan_def Let_def)

lemma filter_keeps:
  assumes ok: "pipe_ok m b z" and k: "k < n_filters z" and awake: "\<not> asleep (Filter k) z" and at: "f_at (filters z k) \<noteq> F_end"
  shows "\<exists>z'. filter_step k z = Inr z' \<and> pipe_ok m (b(k := (if f_at (filters z k) = F_read then b k + 1 else b k))) z'"
proof -
  let ?f = "filters z k" and ?xs = "stage m k"
  have lr: "f_left ?f = k" "f_right ?f = k + 1" and f: "filter_ok ?xs (b k) ?f" and nc: "k < n_chans z" "Suc k < n_chans z"
    and c: "chain_ok m b z k" "chain_ok m b z (Suc k)"
    using ok k by (auto simp: pipe_ok_def)
  have hl: "chan_ok ?xs (writer k) (Filter k) (written m b z k) (b k) (writer_phase z k) (filter_rphase (f_at ?f)) (chans z k)"
    using c(1) k by (simp add: chain_ok_def reader_def reader_phase_def)
  have hr: "chan_ok (stage m (Suc k)) (Filter k) (reader z (Suc k)) (passed ?xs (read_count (b k) (f_at ?f))) (b (Suc k))
      (filter_wphase (f_at ?f)) (reader_phase z (Suc k)) (chans z (Suc k))"
    using c(2) by (simp add: chain_ok_def read_count_def del: stage.simps)
  note phases = filter_rphase_def filter_wphase_def read_count_def filter_ok_def
  note moved = filter_moved_ok [OF ok k]
  have m: "marked ?xs" using stage_marked [OF ok] k by simp
  have c_le: "b k \<le> length ?xs" by (rule chan_ok_le [OF hl])
  show ?thesis
  proof (cases "f_at ?f")
    case F_wait
    show ?thesis using moved [of "?f\<lparr>f_at := F_read\<rparr>" "b k" "P_consume (Filter k) (chans z k)" "chans z (Suc k)"]
      filter_step_at(1) [OF lr F_wait] F_wait lr f chan_ok_wait hl hr by (simp add: phases)
  next
    case F_read
    then have h: "chan_ok ?xs (writer k) (Filter k) (written m b z k) (b k) (writer_phase z k) R_wait (chans z k)"
      using hl by (simp add: filter_rphase_def)
    note r = chan_ok_read [OF h awake_reader [OF awake nc(1)]]
    show ?thesis using moved [of "?f\<lparr>f_value := ch_value (chans z k), f_at := F_ack\<rparr>" "b k + 1" "chans z k" "chans z (Suc k)"]
      filter_step_at(2) [OF lr F_read] F_read lr f r hr by (simp add: phases)
  next
    case F_ack
    show ?thesis using moved [of "?f\<lparr>f_at := F_test\<rparr>" "b k" "V_produce (chans z k)" "chans z (Suc k)"]
      filter_step_at(3) [OF lr F_ack] F_ack lr f chan_ok_ack hl hr by (simp add: phases)
  next
    case F_test
    then have v: "2 \<le> b k" "f_value ?f = ?xs ! (b k - 1)" and w: "chan_ok (stage m (Suc k)) (Filter k) (reader z (Suc k)) (passed ?xs (b k - 1))
        (b (Suc k)) W_free (reader_phase z (Suc k)) (chans z (Suc k))"
      using f hr by (auto simp: phases)
    have p: "f_prime ?f \<noteq> 0" using prime_at_least_2 [OF ok k] by simp
    note test = filter_step_test [OF lr F_test p, unfolded filter_test [OF ok k F_test]]
    show ?thesis
    proof (cases "kept (hd ?xs) (f_value ?f)")
      case True
      note n = passed_next(1-3) [OF v(1) c_le True [unfolded v(2)]]
      have "chan_ok (stage m (Suc k)) (Filter k) (reader z (Suc k)) (passed ?xs (b k)) (b (Suc k)) W_put (reader_phase z (Suc k))
          (put_value (f_value ?f) (chans z (Suc k)))"
        using chan_ok_put [OF w _ n(2) [folded stage.simps(2)]] awake_writer [of "Suc k"] awake nc(2) n v(2) by simp
      then show ?thesis using moved [of "?f\<lparr>f_at := F_signal\<rparr>" "b k" "chans z k" "put_value (f_value ?f) (chans z (Suc k))"]
        test True F_test lr f hl by (simp add: phases del: stage.simps)
    next
      case False
      then have "b k - 1 \<noteq> length ?xs - 1" using v(2) marked_end [OF m, of "b k - 1"] c_le v(1) by (auto simp: kept_def)
      then have "b k < length ?xs" using c_le v(1) by linarith
      then show ?thesis using moved [of "?f\<lparr>f_at := F_wait\<rparr>" "b k" "chans z k" "chans z (Suc k)"]
        test False F_test lr f hl w passed_next(4) [OF v(1) c_le False [unfolded v(2)]] by (simp add: phases del: stage.simps)
    qed
  next
    case F_signal
    show ?thesis using moved [of "?f\<lparr>f_at := F_hold\<rparr>" "b k" "chans z k" "V_consume (chans z (Suc k))"]
      filter_step_at(4) [OF lr F_signal] F_signal lr f chan_ok_signal hl hr by (auto simp: phases)
  next
    case F_hold
    show ?thesis using moved [of "?f\<lparr>f_at := F_next\<rparr>" "b k" "chans z k" "P_produce (Filter k) (chans z (Suc k))"]
      filter_step_at(5) [OF lr F_hold] F_hold lr f chan_ok_hold hl hr by (auto simp: phases)
  next
    case F_next
    then have v: "2 \<le> b k" "f_value ?f = ?xs ! (b k - 1)" using f by (auto simp: phases)
    have "f_value ?f = - 1 \<longleftrightarrow> b k = length ?xs" using v marked_end [OF m, of "b k - 1"] c_le by auto
    moreover have "f_value ?f \<noteq> - 1 \<Longrightarrow> b k < length ?xs" using calculation c_le by linarith
    ultimately show ?thesis
      using moved [of "?f\<lparr>f_at := (if f_value ?f = - 1 then F_end else F_wait)\<rparr>" "b k" "chans z k" "chans z (Suc k)"]
        filter_step_at(6) [OF lr F_next] F_next lr f hl hr by (auto simp: phases simp del: stage.simps)
  qed (use at in simp)
qed

text \<open>The sink.\<close>

lemma sink_moved_ok:
  assumes ok: "pipe_ok m b z"
  defines "n \<equiv> n_filters z"
  assumes "sink_ok (stage m n) c v at"
    "chan_ok (stage m n) (writer n) Sink (written m b z n) c (writer_phase z n) (sink_phase at) ch"
  shows "pipe_ok m (b(n := c)) (z\<lparr>chans := (chans z)(n := ch), sink_at := at, sink_value := v\<rparr>)"
proof -
  let ?z = "z\<lparr>chans := (chans z)(n := ch), sink_at := at, sink_value := v\<rparr>"
  have "chain_ok m (b(n := c)) ?z j" if "j \<le> n" for j
  proof -
    have "chain_ok m b z j" using ok that by (simp add: pipe_ok_def n_def)
    then show ?thesis using that assms(4)
      by (cases j; cases "j = n") (auto simp: chain_ok_def reader_def reader_phase_def n_def simp del: stage.simps)
  qed
  then show ?thesis using ok assms(3) unfolding pipe_ok_def by (auto simp: n_def)
qed

lemma sink_at_channel:
  assumes "sink_p z = n" "sink_at z \<noteq> K_next"
  defines "l \<equiv> chans z n"
  shows "sink z = z\<lparr>chans := (chans z)(n := (case sink_at z of K_wait \<Rightarrow> P_consume Sink l | K_ack \<Rightarrow> V_produce l | _ \<Rightarrow> l)),
    sink_at := (case sink_at z of K_wait \<Rightarrow> K_read | K_read \<Rightarrow> K_ack | K_ack \<Rightarrow> K_next | _ \<Rightarrow> K_end),
    sink_value := (if sink_at z = K_read then ch_value l else sink_value z)\<rparr>"
  using assms(1,2) by (cases "sink_at z") (simp_all add: sink_def upd_chan_def l_def)

lemma sink_forks:
  assumes ok: "pipe_ok m b z" and at: "sink_at z = K_next" "sink_value z \<noteq> - 1"
  shows "pipe_ok m (b(Suc (n_filters z) := 0)) (sink z)"
proof -
  let ?n = "n_filters z" and ?b = "b(Suc (n_filters z) := 0)"
  have s: "b ?n = 1" "sink_value z = hd (stage m ?n)" and p: "sink_p z = ?n" "n_chans z = Suc ?n"
    using ok at(1) by (auto simp: pipe_ok_def)
  have c: "chain_ok m b z j" if "j \<le> ?n" for j using ok that by (simp add: pipe_ok_def)
  obtain ys where ys: "stage m ?n = ys @ [- 1]" using stage_split [OF ok] by blast
  then have len: "1 < length (stage m ?n)" using s(2) at(2) by (cases ys) auto
  let ?f = "\<lparr>f_left = ?n, f_right = Suc ?n, f_prime = sink_value z, f_value = 0, f_at = F_wait\<rparr>"
  have z': "sink z = z\<lparr>primes_out := primes_out z @ [sink_value z], filters := (filters z)(?n := ?f), n_filters := ?n + 1,
      chans := (chans z)(Suc ?n := new_channel), sink_p := Suc ?n, n_chans := Suc ?n + 1, sink_at := K_wait\<rparr>"
    using at p by (simp add: sink_def)
  have old: "chain_ok m ?b (sink z) j" if "j < ?n" for j
    using c [of j] that unfolding z' by (cases j) (auto simp: chain_ok_def reader_def reader_phase_def simp del: stage.simps)
  have "chan_ok (stage m ?n) (writer ?n) Sink (written m b z ?n) (b ?n) (writer_phase z ?n) R_free (chans z ?n)"
    using c [of ?n] at by (simp add: chain_ok_def reader_def reader_phase_def sink_phase_def)
  then have mine: "chain_ok m ?b (sink z) ?n"
    unfolding z' by (cases ?n) (auto simp: chain_ok_def reader_def reader_phase_def filter_rphase_def simp del: stage.simps intro: chan_ok_handover)
  have new: "chain_ok m ?b (sink z) (Suc ?n)"
    unfolding z' using s(1) by (simp add: chain_ok_def reader_def reader_phase_def sink_phase_def filter_wphase_def passed_def chan_ok_new del: stage.simps)
  have chain: "chain_ok m ?b (sink z) j" if "j \<le> Suc ?n" for j
    using old mine new that by (metis le_SucE le_eq_less_or_eq)
  have f: "filter_ok (stage m ?n) (b ?n) ?f" using s at(2) len by (simp add: filter_ok_def)
  show ?thesis using ok chain f s(2) p unfolding pipe_ok_def
    by (auto simp: z' less_Suc_eq simp del: stage.simps)
qed

lemma chain_ok_sink:
  assumes "pipe_ok m b z"
  defines "n \<equiv> n_filters z"
  shows "chan_ok (stage m n) (writer n) Sink (written m b z n) (b n) (writer_phase z n) (sink_phase (sink_at z)) (chans z n)"
proof -
  have "chain_ok m b z n" using assms by (simp add: pipe_ok_def)
  then show ?thesis by (simp add: chain_ok_def reader_def reader_phase_def n_def)
qed

lemma sink_keeps:
  assumes ok: "pipe_ok m b z" and awake: "\<not> asleep Sink z" and at: "sink_at z \<noteq> K_end"
  shows "pipe_ok m (if sink_at z = K_read then b(n_filters z := b (n_filters z) + 1)
    else if sink_at z = K_next \<and> sink_value z \<noteq> - 1 then b(Suc (n_filters z) := 0) else b) (sink z)"
proof -
  let ?n = "n_filters z"
  have s: "sink_ok (stage m ?n) (b ?n) (sink_value z) (sink_at z)" and p: "sink_p z = ?n" "?n < n_chans z" using ok by (auto simp: pipe_ok_def)
  have h: "chan_ok (stage m ?n) (writer ?n) Sink (written m b z ?n) (b ?n) (writer_phase z ?n) (sink_phase (sink_at z)) (chans z ?n)"
    using chain_ok_sink [OF ok] .
  have same: "b(?n := b ?n) = b" by simp
  note moved = sink_moved_ok [OF ok] and still = sink_moved_ok [OF ok, of "b ?n" "sink_value z", unfolded same]
    and at_channel = sink_at_channel [OF p(1)]
  show ?thesis
  proof (cases "sink_at z")
    case K_wait
    show ?thesis using still [of K_read "P_consume Sink (chans z ?n)"] at_channel K_wait s h chan_ok_wait
      by (auto simp: sink_phase_def)
  next
    case K_read
    then have "chan_ok (stage m ?n) (writer ?n) Sink (written m b z ?n) (b ?n) (writer_phase z ?n) R_wait (chans z ?n)"
      using h by (simp add: sink_phase_def)
    note r = chan_ok_read [OF this awake_reader [OF awake p(2)]]
    have "ch_value (chans z ?n) = hd (stage m ?n)" using r s K_read by (cases "stage m ?n") auto
    then show ?thesis using moved [of "b ?n + 1" _ K_ack "chans z ?n"] at_channel K_read s r
      by (auto simp: sink_phase_def)
  next
    case K_ack
    have e: "sink z = z\<lparr>chans := (chans z)(?n := V_produce (chans z ?n)), sink_at := K_next, sink_value := sink_value z\<rparr>"
      using at_channel K_ack by simp
    have "chan_ok (stage m ?n) (writer ?n) Sink (written m b z ?n) (b ?n) (writer_phase z ?n) (sink_phase K_next) (V_produce (chans z ?n))"
      using h chan_ok_ack K_ack by (simp add: sink_phase_def)
    moreover have "sink_ok (stage m ?n) (b ?n) (sink_value z) K_next" using s K_ack by simp
    ultimately have "pipe_ok m b (sink z)" unfolding e by (intro still)
    then show ?thesis using K_ack by simp
  next
    case K_next
    show ?thesis
    proof (cases "sink_value z = - 1")
      case True
      have "sink z = z\<lparr>chans := (chans z)(?n := chans z ?n), sink_at := K_end, sink_value := sink_value z\<rparr>"
        using K_next True by (simp add: sink_def)
      then show ?thesis using still [of K_end "chans z ?n"] K_next True s h
        by (auto simp: sink_phase_def)
    next
      case False
      then show ?thesis using sink_forks [OF ok K_next] K_next by simp
    qed
  qed (use at in simp)
qed

section \<open>Progress\<close>

lemma asleep_cases:
  assumes ok: "pipe_ok m b z" and "asleep t z"
  shows "\<exists>j\<le>n_filters z. t = writer j \<and> writer_phase z j = W_free \<and> int (written m b z j) = int (b j) - unacked (reader_phase z j) + 1
    \<or> t = reader z j \<and> reader_phase z j = R_wait \<and> int (written m b z j) - unsig (writer_phase z j) = int (b j)"
proof -
  obtain j where j: "j < n_chans z" and w: "t \<in> set (sm_waiters (ch_produce (chans z j))) \<or> t \<in> set (sm_waiters (ch_consume (chans z j)))"
    using assms(2) by (auto simp: asleep_def)
  have le: "j \<le> n_filters z" and "chain_ok m b z j" using ok j by (auto simp: pipe_ok_def)
  then have c: "chan_ok (stage m j) (writer j) (reader z j) (written m b z j) (b j) (writer_phase z j) (reader_phase z j) (chans z j)"
    by (simp add: chain_ok_def)
  show ?thesis using w
  proof
    assume "t \<in> set (sm_waiters (ch_produce (chans z j)))"
    from chan_ok_writer_waits [OF c this] show ?thesis using le by auto
  next
    assume "t \<in> set (sm_waiters (ch_consume (chans z j)))"
    from chan_ok_reader_waits [OF c this] show ?thesis using le by auto
  qed
qed

text \<open>A thread of the pipe that is at its end, or waits.\<close>

definition halted :: "pipe \<Rightarrow> thread \<Rightarrow> bool" where
  "halted z t = (case t of Source \<Rightarrow> source_at z = S_end | Filter k \<Rightarrow> f_at (filters z k) = F_end | Sink \<Rightarrow> sink_at z = K_end)"

lemma stuck_threads:
  assumes ok: "pipe_ok m b z" and stuck: "\<nexists>z'. pipe_step m z z'"
  shows "halted z Source \<or> asleep Source z" "halted z Sink \<or> asleep Sink z" "k < n_filters z \<Longrightarrow> halted z (Filter k) \<or> asleep (Filter k) z"
proof -
  show "halted z Source \<or> asleep Source z" "halted z Sink \<or> asleep Sink z"
    using stuck source_steps [of z m] sink_steps [of z m] unfolding halted_def by auto
  show "halted z (Filter k) \<or> asleep (Filter k) z" if k: "k < n_filters z"
  proof (rule ccontr)
    assume "\<not> (halted z (Filter k) \<or> asleep (Filter k) z)"
    then have a: "f_at (filters z k) \<noteq> F_end" "\<not> asleep (Filter k) z" by (auto simp: halted_def)
    obtain z' where "filter_step k z = Inr z'" using filter_keeps [OF ok k a(2,1)] by blast
    then show False using stuck filter_steps [OF k a] by blast
  qed
qed

lemma writer_inj: "writer i = writer j \<longleftrightarrow> i = j"
  by (cases i; cases j) auto

lemma reader_writer: "j \<le> n_filters z \<Longrightarrow> reader z i = writer (Suc j) \<Longrightarrow> i = j" "reader z i \<noteq> writer 0"
  by (auto simp: reader_def split: if_splits)

lemma writer_not_reader: "j \<le> n_filters z \<Longrightarrow> writer j \<noteq> Sink"
  by (cases j) auto

lemma halted_reader:
  assumes ok: "pipe_ok m b z" and j: "j \<le> n_filters z" and h: "halted z (reader z j)"
  shows "b j = length (stage m j)" "reader_phase z j = R_free"
proof -
  obtain ys where ys: "stage m j = ys @ [- 1]" "\<forall>v\<in>set ys. 2 \<le> v" using stage_split [OF ok j] by blast
  have "filter_ok (stage m j) (b j) (filters z j)" if "j < n_filters z" using ok that by (simp add: pipe_ok_def)
  moreover have "sink_ok (stage m j) (b j) (sink_value z) (sink_at z)" if "j = n_filters z" using ok that by (simp add: pipe_ok_def)
  ultimately show "b j = length (stage m j)" "reader_phase z j = R_free"
    using ys h j by (cases ys; auto simp: reader_def reader_phase_def halted_def filter_ok_def filter_rphase_def sink_phase_def split: if_splits)+
qed

lemma waiting_reader:
  assumes ok: "pipe_ok m b z" and j: "j \<le> n_filters z" and w: "reader_phase z j = R_wait"
  shows "b j < length (stage m j)"
proof -
  obtain ys where "stage m j = ys @ [- 1]" using stage_split [OF ok j] by blast
  moreover have "filter_ok (stage m j) (b j) (filters z j)" if "j < n_filters z" using ok that by (simp add: pipe_ok_def)
  moreover have "sink_ok (stage m j) (b j) (sink_value z) (sink_at z)" if "j = n_filters z" using ok that by (simp add: pipe_ok_def)
  ultimately show ?thesis
    using w j by (auto simp: reader_phase_def filter_ok_def filter_rphase_def sink_phase_def split: if_splits)
qed

lemma halted_writer:
  assumes ok: "pipe_ok m b z" and j: "j \<le> n_filters z" and h: "halted z (writer j)"
  shows "written m b z j = length (stage m j)" "unsig (writer_phase z j) = 0"
proof -
  have "filter_ok (stage m k) (b k) (filters z k)" if "j = Suc k" for k using ok j that by (simp add: pipe_ok_def)
  then show "written m b z j = length (stage m j)" "unsig (writer_phase z j) = 0"
    using h by (cases j; auto simp: halted_def filter_ok_def passed_def filter_wphase_def)+
qed

lemma chain_bounds:
  assumes "pipe_ok m b z" "j \<le> n_filters z"
  shows "written m b z j \<le> length (stage m j)" "b j \<le> length (stage m j)"
proof -
  have "chain_ok m b z j" using assms by (simp add: pipe_ok_def)
  then have c: "chan_ok (stage m j) (writer j) (reader z j) (written m b z j) (b j) (writer_phase z j) (reader_phase z j) (chans z j)"
    by (simp add: chain_ok_def)
  then show "written m b z j \<le> length (stage m j)" by (simp add: chan_ok_def del: stage.simps)
  show "b j \<le> length (stage m j)" by (rule chan_ok_le [OF c])
qed

text \<open>In a pipe that cannot go on no reader waits, since the wait goes back to the source, and no writer does, since it goes on to the sink.\<close>

abbreviation reader_waits :: "int \<Rightarrow> (nat \<Rightarrow> nat) \<Rightarrow> pipe \<Rightarrow> nat \<Rightarrow> bool" where
  "reader_waits m b z j \<equiv> reader_phase z j = R_wait \<and> int (written m b z j) - unsig (writer_phase z j) = int (b j)"

abbreviation writer_waits :: "int \<Rightarrow> (nat \<Rightarrow> nat) \<Rightarrow> pipe \<Rightarrow> nat \<Rightarrow> bool" where
  "writer_waits m b z j \<equiv> writer_phase z j = W_free \<and> int (written m b z j) = int (b j) - unacked (reader_phase z j) + 1"

lemma stuck_no_reader_waits:
  assumes ok: "pipe_ok m b z" and stuck: "\<nexists>z'. pipe_step m z z'"
  shows "j \<le> n_filters z \<Longrightarrow> \<not> reader_waits m b z j"
proof (induction j rule: less_induct)
  case (less j)
  show ?case
  proof
    assume w: "reader_waits m b z j"
    have h: "\<not> halted z (writer j)" using halted_writer [OF ok less.prems] waiting_reader [OF ok less.prems] w by auto
    have "halted z (writer j) \<or> asleep (writer j) z"
      using stuck_threads [OF ok stuck] less.prems by (cases j) auto
    then obtain i where i: "i \<le> n_filters z" "writer j = writer i \<and> writer_waits m b z i \<or> writer j = reader z i \<and> reader_waits m b z i"
      using h asleep_cases [OF ok] by metis
    then show False
    proof (elim disjE)
      assume "writer j = writer i \<and> writer_waits m b z i"
      then show False using w by (auto simp: writer_inj)
    next
      assume a: "writer j = reader z i \<and> reader_waits m b z i"
      then have "i < j" using reader_writer(2) [of z i] reader_writer(1) [of "j - 1" z i] less.prems by (cases j) auto
      then show False using less.IH i(1) a by blast
    qed
  qed
qed

lemma stuck_no_writer_waits:
  assumes ok: "pipe_ok m b z" and stuck: "\<nexists>z'. pipe_step m z z'"
  shows "j \<le> n_filters z \<Longrightarrow> \<not> writer_waits m b z j"
proof (induction "n_filters z - j" arbitrary: j rule: less_induct)
  case less
  show ?case
  proof
    assume w: "writer_waits m b z j"
    have h: "\<not> halted z (reader z j)"
      using halted_reader [OF ok less.prems] chain_bounds [OF ok less.prems] w by auto
    have "halted z (reader z j) \<or> asleep (reader z j) z"
      using stuck_threads [OF ok stuck] by (auto simp: reader_def)
    then obtain i where i: "i \<le> n_filters z" "reader z j = writer i \<and> writer_waits m b z i \<or> reader z j = reader z i \<and> reader_waits m b z i"
      using h asleep_cases [OF ok] by metis
    then have a: "reader z j = writer i" "writer_waits m b z i" using stuck_no_reader_waits [OF ok stuck i(1)] by blast+
    then have "i = Suc j" using reader_writer(2) [of z j] reader_writer(1) [of "i - 1" z j] i(1) by (cases i) auto
    then have "n_filters z - i < n_filters z - j" using i(1) by simp
    then show False using less.hyps i(1) a(2) by blast
  qed
qed

lemma stuck_halted:
  assumes ok: "pipe_ok m b z" and stuck: "\<nexists>z'. pipe_step m z z'"
  shows "source_at z = S_end" "k < n_filters z \<Longrightarrow> f_at (filters z k) = F_end" "sink_at z = K_end"
proof -
  have "\<not> asleep t z" for t
    using asleep_cases [OF ok] stuck_no_reader_waits [OF ok stuck] stuck_no_writer_waits [OF ok stuck] by metis
  then show "source_at z = S_end" "k < n_filters z \<Longrightarrow> f_at (filters z k) = F_end" "sink_at z = K_end"
    using stuck_threads [OF ok stuck] by (auto simp: halted_def)
qed

section \<open>Every run is finite\<close>

fun source_rank :: "source_place \<Rightarrow> nat" where
  "source_rank S_put = 0" | "source_rank S_signal = 2" | "source_rank S_hold = 1" | "source_rank S_last = 2" | "source_rank S_end = 0"

fun filter_rank :: "filter_place \<Rightarrow> nat" where
  "filter_rank F_wait = 7" | "filter_rank F_read = 6" | "filter_rank F_ack = 13" | "filter_rank F_test = 12" | "filter_rank F_signal = 11"
| "filter_rank F_hold = 10" | "filter_rank F_next = 9" | "filter_rank F_end = 0"

fun sink_rank :: "sink_place \<Rightarrow> nat" where
  "sink_rank K_wait = 4" | "sink_rank K_read = 3" | "sink_rank K_ack = 2" | "sink_rank K_next = 1" | "sink_rank K_end = 0"

definition source_left :: "int \<Rightarrow> pipe \<Rightarrow> nat" where
  "source_left m z = 3 * (length (stage m 0) - source_written m (source_i z) (source_at z)) + source_rank (source_at z)"

definition filter_left :: "int \<Rightarrow> (nat \<Rightarrow> nat) \<Rightarrow> pipe \<Rightarrow> nat \<Rightarrow> nat" where
  "filter_left m b z k = 8 * (length (stage m k) - b k) + filter_rank (f_at (filters z k))"

text \<open>The work of the filters that are to be forked for \<open>l\<close> values.\<close>

definition forks_left :: "nat \<Rightarrow> nat" where
  "forks_left l = 4 * l * l + 16 * l"

definition pipe_left :: "int \<Rightarrow> (nat \<Rightarrow> nat) \<Rightarrow> pipe \<Rightarrow> nat" where
  "pipe_left m b z = source_left m z + sum (filter_left m b z) {..<n_filters z} + forks_left (length (stage m (n_filters z))) + sink_rank (sink_at z)"

lemma forks_left_Suc: "forks_left (Suc l) = forks_left l + 8 * l + 20"
  by (simp add: forks_left_def algebra_simps)

lemma forks_left_mono: "k \<le> l \<Longrightarrow> forks_left k \<le> forks_left l"
  unfolding forks_left_def by (intro add_mono mult_le_mono) simp_all

lemma source_left_less:
  assumes "source_ok m (source_i z) (source_at z)" "source_at z \<noteq> S_end"
  shows "source_left m (source m z) < source_left m z"
  using assms by (cases "source_at z") (auto simp: source_left_def source_def upd_chan_def max_def split: if_splits)

lemma source_left_step:
  assumes "pipe_ok m b z" "source_at z \<noteq> S_end"
  shows "pipe_left m b (source m z) < pipe_left m b z"
proof -
  have "source_ok m (source_i z) (source_at z)" using assms(1) by (simp add: pipe_ok_def)
  moreover have "n_filters (source m z) = n_filters z" "filters (source m z) = filters z" "sink_at (source m z) = sink_at z"
    by (simp_all add: source_def upd_chan_def split: source_place.splits)
  ultimately show ?thesis using source_left_less [of m z] assms(2) by (simp add: pipe_left_def filter_left_def [abs_def])
qed

lemma filter_step_frame:
  assumes "filter_step k z = Inr z'" "f_at (filters z k) \<noteq> F_end"
  shows "source_at z' = source_at z" "source_i z' = source_i z" "n_filters z' = n_filters z" "sink_at z' = sink_at z"
    "j \<noteq> k \<Longrightarrow> filters z' j = filters z j"
    "filter_rank (f_at (filters z' k)) < filter_rank (f_at (filters z k)) + (if f_at (filters z k) = F_read then 8 else 0)"
  using assms
  by (cases "f_at (filters z k)"; auto simp: filter_step_def upd_filter_def upd_chan_def Let_def assertR_def split: if_splits)+

lemma filter_left_step:
  assumes ok: "pipe_ok m b z" and k: "k < n_filters z" and at: "f_at (filters z k) \<noteq> F_end" and s: "filter_step k z = Inr z'"
  shows "pipe_left m (b(k := (if f_at (filters z k) = F_read then b k + 1 else b k))) z' < pipe_left m b z"
proof -
  let ?b = "b(k := (if f_at (filters z k) = F_read then b k + 1 else b k))"
  note fr = filter_step_frame [OF s at]
  have "b k < length (stage m k)" if "f_at (filters z k) = F_read"
    using waiting_reader [OF ok] k that by (simp add: reader_phase_def filter_rphase_def)
  then have "filter_left m ?b z' k < filter_left m b z k" using fr(6) by (auto simp: filter_left_def split: if_splits)
  moreover have "filter_left m ?b z' j = filter_left m b z j" if "j \<noteq> k" for j using fr(5) that by (simp add: filter_left_def)
  ultimately have le: "filter_left m ?b z' j \<le> filter_left m b z j" and "filter_left m ?b z' k < filter_left m b z k" for j
    by (metis less_imp_le order_refl)+
  then have "\<exists>k\<in>{..<n_filters z}. filter_left m ?b z' k < filter_left m b z k" using k by blast
  then have "sum (filter_left m ?b z') {..<n_filters z} < sum (filter_left m b z) {..<n_filters z}"
    by (intro sum_strict_mono_ex1 ballI le) simp
  then show ?thesis using fr(1-4) by (simp add: pipe_left_def source_left_def del: stage.simps)
qed

lemma sink_left_step:
  assumes ok: "pipe_ok m b z" and at: "sink_at z \<noteq> K_end"
  defines "n \<equiv> n_filters z"
  shows "pipe_left m (if sink_at z = K_read then b(n := b n + 1)
    else if sink_at z = K_next \<and> sink_value z \<noteq> - 1 then b(Suc n := 0) else b) (sink z) < pipe_left m b z"
proof (cases "sink_at z = K_next \<and> sink_value z \<noteq> - 1")
  case True
  have b1: "b n = 1" using ok True by (simp add: pipe_ok_def n_def)
  obtain l where l: "length (stage m n) = Suc l" using stage_split [OF ok] by (fastforce simp: n_def)
  have "length (stage m (Suc n)) \<le> l" using l length_filter_le [of "kept (hd (stage m n))" "tl (stage m n)"] by simp
  then have f: "forks_left (length (stage m (Suc n))) \<le> forks_left l" by (rule forks_left_mono)
  have z': "n_filters (sink z) = Suc n" "source_at (sink z) = source_at z" "source_i (sink z) = source_i z" "sink_at (sink z) = K_wait"
    "filters (sink z) j = filters z j" if "j \<noteq> n" for j
    using True that by (simp_all add: sink_def n_def)
  have new: "f_at (filters (sink z) n) = F_wait" using True by (simp add: sink_def n_def)
  have sum: "sum (filter_left m (b(Suc n := 0)) (sink z)) {..<n} = sum (filter_left m b z) {..<n}"
    by (rule sum.cong) (auto simp: filter_left_def z')
  have last: "filter_left m (b(Suc n := 0)) (sink z) n = 8 * l + 7" using new b1 l by (simp add: filter_left_def)
  have "pipe_left m (b(Suc n := 0)) (sink z) = source_left m z + (sum (filter_left m b z) {..<n} + (8 * l + 7)) +
      forks_left (length (stage m (Suc n))) + 4"
    using sum last z'(1-4) [of "Suc n"] by (simp add: pipe_left_def source_left_def lessThan_Suc del: stage.simps)
  moreover have "pipe_left m b z = source_left m z + sum (filter_left m b z) {..<n} + (forks_left l + 8 * l + 20) + 1"
    using True l by (simp add: pipe_left_def n_def forks_left_Suc del: stage.simps)
  ultimately show ?thesis using True f by simp
next
  case False
  let ?b = "if sink_at z = K_read then b(n := b n + 1) else b"
  have z': "n_filters (sink z) = n" "source_at (sink z) = source_at z" "source_i (sink z) = source_i z" "filters (sink z) = filters z"
    "sink_rank (sink_at (sink z)) < sink_rank (sink_at z)"
    using False at by (cases "sink_at z"; auto simp: sink_def upd_chan_def n_def)+
  have "sum (filter_left m ?b (sink z)) {..<n} = sum (filter_left m b z) {..<n}"
    by (rule sum.cong) (auto simp: filter_left_def z')
  then have "pipe_left m ?b (sink z) < pipe_left m b z" using z' by (simp add: pipe_left_def source_left_def n_def del: stage.simps)
  then show ?thesis using False by auto
qed

lemma pipe_step_keeps:
  assumes "pipe_step m z z'" "pipe_ok m b z"
  shows "\<exists>b'. pipe_ok m b' z' \<and> pipe_left m b' z' < pipe_left m b z"
  using assms
proof cases
  case source_steps
  then show ?thesis using source_keeps [OF assms(2)] source_left_step [OF assms(2)] by blast
next
  case (filter_steps k)
  obtain z'' where "filter_step k z = Inr z''" "pipe_ok m (b(k := (if f_at (filters z k) = F_read then b k + 1 else b k))) z''"
    using filter_keeps [OF assms(2) filter_steps(1,3,2)] by blast
  then show ?thesis using filter_steps(4) filter_left_step [OF assms(2) filter_steps(1,2,4)] by auto
next
  case sink_steps
  then show ?thesis using sink_keeps [OF assms(2)] sink_left_step [OF assms(2)] by blast
qed

lemma pipe_run:
  assumes "(pipe_step m ^^ n) z z'" "pipe_ok m b z"
  shows "\<exists>b'. pipe_ok m b' z' \<and> n + pipe_left m b' z' \<le> pipe_left m b z"
  using assms
proof (induction n arbitrary: z')
  case (Suc n)
  then obtain y where y: "(pipe_step m ^^ n) z y" "pipe_step m y z'" by auto
  obtain c where c: "pipe_ok m c y" "n + pipe_left m c y \<le> pipe_left m b z" using Suc.IH [OF y(1) Suc.prems(2)] by blast
  obtain c' where "pipe_ok m c' z'" "pipe_left m c' z' < pipe_left m c y" using pipe_step_keeps [OF y(2) c(1)] by blast
  then show ?case using c(2) by (intro exI [of _ c']) simp
qed auto

section \<open>The primes\<close>

definition is_prime :: "int \<Rightarrow> bool" where
  "is_prime v \<longleftrightarrow> 2 \<le> v \<and> (\<forall>d\<in>{2..<v}. v mod d \<noteq> 0)"

lemma filter_tl: "\<not> P (hd xs) \<Longrightarrow> filter P (tl xs) = filter P xs"
  by (cases xs) auto

lemma stage_is_filter:
  "\<forall>k<n. hd (stage m k) \<noteq> - 1 \<Longrightarrow> stage m n = filter (\<lambda>v. \<forall>k<n. v mod hd (stage m k) \<noteq> 0) [2..m] @ [- 1]"
proof (induction n)
  case (Suc n)
  let ?p = "hd (stage m n)" and ?F = "filter (\<lambda>v. \<forall>k<n. v mod hd (stage m k) \<noteq> 0) [2..m]"
  have F: "stage m n = ?F @ [- 1]" and p: "?p \<noteq> - 1" using Suc by auto
  have "filter (kept ?p) (tl (stage m n)) = filter (kept ?p) (stage m n)"
    using p by (intro filter_tl) (simp add: kept_def)
  also have "filter (kept q) (stage m n) = filter (kept q) ?F @ [- 1]" for q using F by (simp add: kept_def)
  also have "filter (kept ?p) ?F = filter (\<lambda>v. \<forall>k<Suc n. v mod hd (stage m k) \<noteq> 0) [2..m]"
    unfolding filter_filter by (rule filter_cong) (auto simp: kept_def less_Suc_eq)
  finally show ?case by simp
qed simp

lemma stage_hd:
  assumes "\<forall>k\<le>n. hd (stage m k) \<noteq> - 1"
  defines "p \<equiv> hd (stage m n)"
  shows "2 \<le> p" "p \<le> m" "\<forall>k<n. p mod hd (stage m k) \<noteq> 0"
    "2 \<le> v \<Longrightarrow> v \<le> m \<Longrightarrow> \<forall>k<n. v mod hd (stage m k) \<noteq> 0 \<Longrightarrow> p \<le> v"
proof -
  let ?F = "filter (\<lambda>v. \<forall>k<n. v mod hd (stage m k) \<noteq> 0) [2..m]"
  have F: "stage m n = ?F @ [- 1]" and "p \<noteq> - 1" using assms stage_is_filter [of n m] by auto
  then obtain ys where ys: "?F = p # ys" unfolding p_def by (cases ?F) auto
  then have "p \<in> set ?F" by simp
  then show "2 \<le> p" "p \<le> m" "\<forall>k<n. p mod hd (stage m k) \<noteq> 0" by auto
  have "sorted (p # ys)" unfolding ys [symmetric] by (simp add: sorted_wrt_filter)
  moreover assume "2 \<le> v" "v \<le> m" "\<forall>k<n. v mod hd (stage m k) \<noteq> 0"
  then have "v \<in> set (p # ys)" unfolding ys [symmetric] by auto
  ultimately show "p \<le> v" by auto
qed

lemma stage_hd_less:
  assumes "\<forall>k<n. hd (stage m k) \<noteq> - 1" "i < j" "j < n"
  shows "hd (stage m i) < hd (stage m j)"
proof -
  have "\<forall>k\<le>i. hd (stage m k) \<noteq> - 1" "\<forall>k\<le>j. hd (stage m k) \<noteq> - 1" using assms by auto
  note i = stage_hd [OF this(1)] and j = stage_hd [OF this(2)]
  have "\<forall>k<i. hd (stage m j) mod hd (stage m k) \<noteq> 0" using j(3) assms(2) by auto
  then have "hd (stage m i) \<le> hd (stage m j)" by (rule i(4) [OF j(1,2)])
  moreover have "hd (stage m j) mod hd (stage m i) \<noteq> 0" using j(3) assms(2) by auto
  then have "hd (stage m i) \<noteq> hd (stage m j)" by (metis mod_self)
  ultimately show ?thesis by linarith
qed

lemma stage_hd_prime:
  assumes "\<forall>k\<le>n. hd (stage m k) \<noteq> - 1"
  shows "is_prime (hd (stage m n))"
proof -
  note n = stage_hd [OF assms]
  have "hd (stage m n) mod d \<noteq> 0" if d: "2 \<le> d" "d < hd (stage m n)" for d
  proof
    assume e: "hd (stage m n) mod d = 0"
    obtain k where k: "k < n" "d mod hd (stage m k) = 0" using n(2) n(4) [of d] d by force
    then have "hd (stage m k) dvd hd (stage m n)" using e by (meson dvd_eq_mod_eq_0 dvd_trans)
    then show False using n(3) k(1) by (auto simp: dvd_eq_mod_eq_0)
  qed
  then show ?thesis using n(1) by (simp add: is_prime_def)
qed

text \<open>When the end mark comes through the \<open>n\<close> filters at once, their primes are all the primes up to \<open>m\<close>, in order.\<close>

lemma sieve_primes:
  assumes p: "\<forall>k<n. hd (stage m k) \<noteq> - 1" and e: "hd (stage m n) = - 1"
  shows "map (\<lambda>k. hd (stage m k)) [0..<n] = filter is_prime [2..m]"
proof (rule strict_sorted_equal)
  show "sorted_wrt (<) (map (\<lambda>k. hd (stage m k)) [0..<n])"
    using stage_hd_less [OF p] by (simp add: sorted_wrt_iff_nth_less)
  show "sorted_wrt (<) (filter is_prime [2..m])"
    by (intro sorted_wrt_filter) (simp add: strict_sorted_iff)
  have below: "\<forall>i\<le>k. hd (stage m i) \<noteq> - 1" if "k < n" for k using p that by simp
  have "q \<in> (\<lambda>k. hd (stage m k)) ` {..<n}" if q: "is_prime q" "2 \<le> q" "q \<le> m" for q
  proof -
    have "filter (\<lambda>v. \<forall>k<n. v mod hd (stage m k) \<noteq> 0) [2..m] = []"
    proof (rule ccontr)
      let ?F = "filter (\<lambda>v. \<forall>k<n. v mod hd (stage m k) \<noteq> 0) [2..m]"
      assume F: "?F \<noteq> []"
      have "hd ?F = - 1" using e hd_append2 [OF F, of "[- 1]"] by (metis stage_is_filter [OF p])
      then have "- 1 \<in> set ?F" using hd_in_set [OF F] by simp
      then show False by simp
    qed
    moreover have "q \<in> set [2..m]" using q by simp
    ultimately have "\<not> (\<forall>k<n. q mod hd (stage m k) \<noteq> 0)" unfolding filter_empty_conv by (rule bspec)
    then obtain k where k: "k < n" "q mod hd (stage m k) = 0" by auto
    note h = stage_hd(1) [OF below [OF k(1)]]
    have "hd (stage m k) \<le> q" using k(2) q(2) by (intro zdvd_imp_le) auto
    moreover have "\<not> hd (stage m k) < q" using q(1) k(2) h unfolding is_prime_def by (meson atLeastLessThan_iff)
    ultimately show ?thesis using k(1) by force
  qed
  moreover have "is_prime (hd (stage m k)) \<and> 2 \<le> hd (stage m k) \<and> hd (stage m k) \<le> m" if "k < n" for k
    using stage_hd_prime [OF below [OF that]] stage_hd(1,2) [OF below [OF that]] by simp
  ultimately show "set (map (\<lambda>k. hd (stage m k)) [0..<n]) = set (filter is_prime [2..m])" by (auto simp: atLeast0LessThan)
qed

section \<open>What the program does\<close>

text \<open>
  C9: with \<open>max\<close> the number \<open>m\<close>, the source, the filters and the sink, scheduled in any way, make at most
  \<open>4 * m * m + 19 * m + 4\<close> steps; they never wait for each other for ever, and when none of them can make a step every thread has returned
  and the sink has printed exactly the primes from 2 to \<open>m\<close>, in order.
\<close>

theorem sieve_finds_primes:
  assumes "1 \<le> m" "(pipe_step m ^^ n) pipe_start z"
  shows "int n \<le> 4 * m * m + 19 * m + 4 \<and> ((\<exists>z'. pipe_step m z z') \<or>
    primes_out z = filter is_prime [2..m] \<and> source_at z = S_end \<and> sink_at z = K_end \<and> (\<forall>k<n_filters z. f_at (filters z k) = F_end))"
proof -
  obtain b where ok: "pipe_ok m b z" and n: "n + pipe_left m b z \<le> pipe_left m (\<lambda>_. 0) pipe_start"
    using pipe_run [OF assms(2) pipe_ok_start] by blast
  have "nat (m - 1) + 1 = nat m" using assms(1) by simp
  then have "pipe_left m (\<lambda>_. 0) pipe_start = 4 * nat m * nat m + 19 * nat m + 4"
    by (simp add: pipe_left_def pipe_start_def source_left_def forks_left_def)
  then have "int n \<le> int (4 * nat m * nat m + 19 * nat m + 4)" using n by linarith
  also have "\<dots> = 4 * m * m + 19 * m + 4" using assms(1) by simp
  finally have bound: "int n \<le> 4 * m * m + 19 * m + 4" .
  have "primes_out z = filter is_prime [2..m] \<and> source_at z = S_end \<and> sink_at z = K_end \<and> (\<forall>k<n_filters z. f_at (filters z k) = F_end)"
    if stuck: "\<nexists>z'. pipe_step m z z'"
  proof -
    note h = stuck_halted [OF ok stuck]
    have "hd (stage m (n_filters z)) = - 1" "\<forall>k<n_filters z. hd (stage m k) \<noteq> - 1" "primes_out z = map (\<lambda>k. hd (stage m k)) [0..<n_filters z]"
      using ok h(3) by (auto simp: pipe_ok_def filter_ok_def)
    then show ?thesis using sieve_primes [of "n_filters z" m] h by simp
  qed
  then show ?thesis using bound by blast
qed

text \<open>A schedule: the threads in turn; one that waits or has ended is passed over.\<close>

fun turns :: "int \<Rightarrow> thread list \<Rightarrow> pipe \<Rightarrow> pipe" where
  "turns m [] z = z"
| "turns m (Source # ts) z = turns m ts (if source_at z = S_end \<or> asleep Source z then z else source m z)"
| "turns m (Sink # ts) z = turns m ts (if sink_at z = K_end \<or> asleep Sink z then z else sink z)"
| "turns m (Filter k # ts) z = turns m ts (if n_filters z \<le> k \<or> f_at (filters z k) = F_end \<or> asleep (Filter k) z then z
    else case filter_step k z of Inr z' \<Rightarrow> z' | Inl _ \<Rightarrow> z)"

lemma turns_reach: "(pipe_step m)\<^sup>*\<^sup>* z (turns m ts z)"
proof (induction m ts z rule: turns.induct)
  case (2 m ts z)
  then show ?case using source_steps [of z m] by (auto intro: converse_rtranclp_into_rtranclp)
next
  case (3 m ts z)
  then show ?case using sink_steps [of z m] by (auto intro: converse_rtranclp_into_rtranclp)
next
  case (4 m k ts z)
  then show ?case using filter_steps [of k z _ m] by (auto split: sum.splits intro: converse_rtranclp_into_rtranclp)
qed simp

lemma sieve_finds_primes_witness:
  "\<exists>n z. (pipe_step 3 ^^ n) pipe_start z \<and> n \<le> 97 \<and> primes_out z = [2, 3] \<and> sink_at z = K_end"
proof -
  let ?z = "turns 3 (concat (replicate 22 [Source, Filter 0, Filter 1, Sink])) pipe_start"
  have z: "primes_out ?z = [2, 3]" "sink_at ?z = K_end"
    by (simp_all add: pipe_start_def source_def filter_step_def sink_def asleep_def upd_chan_def upd_filter_def put_value_def V_consume_def
      P_consume_def V_produce_def P_produce_def sema_P_def sema_V_def new_channel_def Let_def eval_nat_numeral lessThan_Suc lessThan_nat_numeral cmod_def cdiv_def)
  obtain n where n: "(pipe_step 3 ^^ n) pipe_start ?z" using rtranclp_imp_relpowp [OF turns_reach] by blast
  show ?thesis using sieve_finds_primes [OF _ n] n z by (intro exI [of _ n] exI [of _ ?z]) auto
qed

end
