(* ===== verification/Conn_Network.thy ===== *)
theory Conn_Network
  imports Conversation
begin

text \<open>
  The programs \<^verbatim>\<open>conn-network1.c\<close>, \<^verbatim>\<open>conn-network2.c\<close> and \<^verbatim>\<open>conn-network3.c\<close> of \<^verbatim>\<open>src/P1-P4\<close>: one end sends a big message, the other receives and
  checks it. A program is cut at its calls of the stream layer: a place says in which call it is, and a function what it does from the
  return of that call to the next one, and what it prints. \<open>n\<close> is \<open>BUFFER_SIZE\<close>. The variable \<open>error\<close> has the content that
  it was created with until a call assigns it.
\<close>

section \<open>The second program\<close>

definition GetErrorDescription :: "minisocket_error \<Rightarrow> string" where
  "GetErrorDescription e = (case e of
     SOCKET_NOERROR \<Rightarrow> ''No error reported''
   | SOCKET_NOMOREPORTS \<Rightarrow> ''There are no more ports available''
   | SOCKET_PORTINUSE \<Rightarrow> ''The port is already in use by the server''
   | SOCKET_NOSERVER \<Rightarrow> ''No server is listening''
   | SOCKET_BUSY \<Rightarrow> ''Some other client already connected to the server''
   | SOCKET_SENDERROR \<Rightarrow> ''Sender error''
   | SOCKET_RECEIVEERROR \<Rightarrow> ''Receiver error''
   | _ \<Rightarrow> ''Unknown error'')"

text \<open>What is printed, without the fixed parts of the lines.\<close>

datatype says = Error_said string | Sent_said int | Wrong_said int | All_said | Text_said string | Code_said minisocket_error

datatype tx_place = Tx_send int minisocket_error | Tx_close int | Tx_end int

datatype rx_place = Rx_receive int minisocket_error "byte list" | Rx_close int | Rx_end int

text \<open>The bytes of the message; \<open>Tx_send sent error\<close> is in \<open>minisocket_send\<close> with \<open>buffer + sent\<close> and \<open>n - sent\<close>.\<close>

definition fill :: "int \<Rightarrow> int \<Rightarrow> byte list" where
  "fill b n = map (\<lambda>i. of_int (cmod i b)) [0..n - 1]"

definition server_loop :: "int \<Rightarrow> int \<Rightarrow> minisocket_error \<Rightarrow> tx_place" where
  "server_loop n sent err = (if sent \<noteq> n then Tx_send sent err else Tx_close 0)"

definition server_created :: "int \<Rightarrow> ptr \<Rightarrow> minisocket_error \<Rightarrow> says list \<times> tx_place" where
  "server_created n p err =
     (if p = NULL then ([Error_said (GetErrorDescription err)], Tx_end (- 1)) else ([], server_loop n 0 err))"

definition server_sent :: "int \<Rightarrow> int \<Rightarrow> int \<Rightarrow> minisocket_error \<Rightarrow> says list \<times> tx_place" where
  "server_sent n sent r err =
     (if err \<noteq> SOCKET_NOERROR then ([Sent_said r, Error_said (GetErrorDescription err)], Tx_close (- 1))
      else ([Sent_said r], server_loop n (sent + r) err))"

definition client_loop :: "int \<Rightarrow> int \<Rightarrow> minisocket_error \<Rightarrow> byte list \<Rightarrow> says list \<times> rx_place" where
  "client_loop n got err buf = (if got \<noteq> n then ([], Rx_receive got err buf) else ([All_said], Rx_close 0))"

definition client_created :: "int \<Rightarrow> ptr \<Rightarrow> minisocket_error \<Rightarrow> byte list \<Rightarrow> says list \<times> rx_place" where
  "client_created n p err buf =
     (if p = NULL then ([Error_said (GetErrorDescription err)], Rx_end (- 1)) else client_loop n 0 err buf)"

text \<open>The first \<open>i\<close> with \<open>buffer[i] != (char)((bytes_received + i) % 256)\<close>.\<close>

definition wrong_byte :: "int \<Rightarrow> int \<Rightarrow> byte list \<Rightarrow> int option" where
  "wrong_byte got r buf = List.find (\<lambda>i. buf ! nat i \<noteq> of_int (cmod (got + i) 256)) [0..r - 1]"

definition client_received :: "int \<Rightarrow> int \<Rightarrow> int \<Rightarrow> minisocket_error \<Rightarrow> byte list \<Rightarrow> says list \<times> rx_place" where
  "client_received n got r err buf =
     (if r = - 1 then ([Error_said (GetErrorDescription err)], Rx_close (- 1))
      else case wrong_byte got r buf of
        Some i \<Rightarrow> ([Wrong_said (got + i)], Rx_close (- 1))
      | None \<Rightarrow> client_loop n (got + r) err buf)"

section \<open>The third program\<close>

text \<open>Five threads at each end, each with its own port. A thread that finds an error returns without closing its socket.\<close>

definition THREAD_COUNTER :: int where "THREAD_COUNTER = 5"

definition conn_ports :: "int list" where "conn_ports = [80, 81, 82, 83, 84, 85, 86, 87, 88, 89]"

definition conn_thread_id :: "int list" where "conn_thread_id = [0, 1, 2, 3, 4, 5, 6, 7, 8, 9]"

text \<open>The arguments of the threads that \<open>server\<close> and \<open>client\<close> fork, and the port that a thread uses.\<close>

definition server3_forks :: "int list" where
  "server3_forks = map (\<lambda>i. conn_thread_id ! nat i) [0..THREAD_COUNTER - 1]"

definition client3_forks :: "int list" where
  "client3_forks = map (\<lambda>i. conn_thread_id ! nat i) [0..THREAD_COUNTER - 1]"

definition thread_port :: "int \<Rightarrow> int res" where
  "thread_port i = (if 0 \<le> i \<and> i < int (length conn_ports) then Inr (conn_ports ! nat i) else Inl Out_of_bounds)"

definition sender_loop :: "int \<Rightarrow> int \<Rightarrow> minisocket_error \<Rightarrow> says list \<times> tx_place" where
  "sender_loop n sent err =
     (if sent \<noteq> n then ([], Tx_send sent err) else ([Text_said ''all data sent successfully''], Tx_close 0))"

definition sender_created :: "int \<Rightarrow> ptr \<Rightarrow> minisocket_error \<Rightarrow> says list \<times> tx_place" where
  "sender_created n p err = (if p = NULL then ([Code_said err], Tx_end 0) else sender_loop n 0 err)"

definition sender_sent :: "int \<Rightarrow> int \<Rightarrow> int \<Rightarrow> minisocket_error \<Rightarrow> says list \<times> tx_place" where
  "sender_sent n sent r err = (let (out, x) = (if r = - 1 then ([Code_said err], Tx_end 0) else sender_loop n (sent + r) err)
     in (Sent_said r # out, x))"

definition receiver_loop :: "int \<Rightarrow> int \<Rightarrow> minisocket_error \<Rightarrow> byte list \<Rightarrow> says list \<times> rx_place" where
  "receiver_loop n got err buf = (if got \<noteq> n then ([], Rx_receive got err buf) else ([All_said], Rx_close 0))"

definition receiver_created :: "int \<Rightarrow> ptr \<Rightarrow> minisocket_error \<Rightarrow> byte list \<Rightarrow> says list \<times> rx_place" where
  "receiver_created n p err buf = (if p = NULL then ([Code_said err], Rx_end 0)
     else let (out, x) = receiver_loop n 0 err buf in (Text_said ''Server starts'' # out, x))"

text \<open>The call gets \<open>buffer + bytes_received\<close>; \<open>buf\<close> is the whole buffer after it.\<close>

definition wrong_bytes :: "int \<Rightarrow> int \<Rightarrow> byte list \<Rightarrow> int list" where
  "wrong_bytes got r buf = filter (\<lambda>j. buf ! nat j \<noteq> of_int (cmod j 128)) (map (\<lambda>i. got + i) [0..r - 1])"

definition receiver_received :: "int \<Rightarrow> int \<Rightarrow> int \<Rightarrow> minisocket_error \<Rightarrow> byte list \<Rightarrow> says list \<times> rx_place" where
  "receiver_received n got r err buf =
     (if r < 0 then ([Code_said err], Rx_end 0)
      else let (out, x) = receiver_loop n (got + r) err buf in (map Wrong_said (wrong_bytes got r buf) @ out, x))"

section \<open>The first program\<close>

text \<open>
  The creation of the server's socket is commented out and \<open>socket\<close> is NULL: \<open>transmit\<close> forks the receiver, reads \<open>error\<close>, which nothing
  has assigned, and returns; the loop behind it is never reached. The receiver is that of the second program, on the same machine.
\<close>

definition GetErrorDescription1 :: "minisocket_error \<Rightarrow> string" where
  "GetErrorDescription1 e = (case e of
     SOCKET_NOERROR \<Rightarrow> ''No error reported''
   | SOCKET_NOMOREPORTS \<Rightarrow> ''There are no more ports available''
   | SOCKET_PORTINUSE \<Rightarrow> ''The port is already in use by the server''
   | SOCKET_NOSERVER \<Rightarrow> ''No server is listening''
   | SOCKET_BUSY \<Rightarrow> ''Some other client already connected to the server''
   | SOCKET_SENDERROR \<Rightarrow> ''Sender error''
   | SOCKET_RECEIVEERROR \<Rightarrow> ''Receiver error''
   | SOCKET_INVALIDPARAMS \<Rightarrow> ''Invalid parameters''
   | _ \<Rightarrow> ''Unknown error'')"

definition transmit :: "minisocket_error \<Rightarrow> says list \<times> tx_place" where
  "transmit err = (let p = NULL in
     if p = NULL then ([Text_said ''SERVER CREATED'', Error_said (GetErrorDescription1 err)], Tx_end (- 1))
     else ([Text_said ''SERVER CREATED''], Tx_send 0 err))"

definition receive_created :: "int \<Rightarrow> ptr \<Rightarrow> minisocket_error \<Rightarrow> byte list \<Rightarrow> says list \<times> rx_place" where
  "receive_created n p err buf = (let (out, x) =
       (if p = NULL then ([Error_said (GetErrorDescription1 err)], Rx_end (- 1))
        else if 0 \<noteq> n then ([], Rx_receive 0 err buf) else ([All_said], Rx_close 0))
     in (Text_said ''CLIENT created'' # out, x))"

definition receive_received :: "int \<Rightarrow> int \<Rightarrow> int \<Rightarrow> minisocket_error \<Rightarrow> byte list \<Rightarrow> says list \<times> rx_place" where
  "receive_received n got r err buf =
     (if r = - 1 then ([Error_said (GetErrorDescription1 err)], Rx_close (- 1))
      else case List.find (\<lambda>i. buf ! nat i \<noteq> of_int (cmod (got + i) 256)) [0..r - 1] of
        Some i \<Rightarrow> ([Wrong_said (got + i)], Rx_close (- 1))
      | None \<Rightarrow> if got + r \<noteq> n then ([], Rx_receive (got + r) err buf) else ([All_said], Rx_close 0))"

section \<open>The two programs on two machines\<close>

text \<open>
  The server program on a machine and the client program on another, with the call that the server is in and what both have printed. In
  one turn the packet of the server reaches the client, its acknowledgement the server, and the client's call returns what has come;
  then the server goes on.
\<close>

record 'm talk =
  tk_tx :: tx_place
  tk_call :: control
  tk_server :: 'm
  tk_said :: "says list"
  tk_rx :: rx_place
  tk_client :: 'm
  tk_heard :: "says list"

definition server_call :: "sockenv \<Rightarrow> int \<Rightarrow> ptr \<Rightarrow> ('z socks_scheme) talk \<Rightarrow> ('z socks_scheme) talk res" where
  "server_call env n p t = (case tk_tx t of
     Tx_send sent err \<Rightarrow>
       bindR (minisocket_send p (Some (drop (nat sent) (fill 256 n))) (n - sent) (tk_server t)) (\<lambda>(l, c).
       bindR (proceed env l c) (\<lambda>(l1, c1). Inr (t\<lparr>tk_call := l1, tk_server := c1\<rparr>)))
   | _ \<Rightarrow> Inr t)"

definition server_goes_on :: "sockenv \<Rightarrow> int \<Rightarrow> ptr \<Rightarrow> ('z socks_scheme) talk \<Rightarrow> ('z socks_scheme) talk res" where
  "server_goes_on env n p t = bindR (proceed env (tk_call t) (tk_server t)) (\<lambda>(l, c).
     let t1 = t\<lparr>tk_call := l, tk_server := c\<rparr> in
     case (l, tk_tx t) of
       (Finished (Sent r e), Tx_send sent err) \<Rightarrow>
         (let (out, x) = server_sent n sent r (assign err e) in server_call env n p (t1\<lparr>tk_tx := x, tk_said := tk_said t @ out\<rparr>))
     | _ \<Rightarrow> Inr t1)"

definition client_receives :: "sockenv \<Rightarrow> int \<Rightarrow> ptr \<Rightarrow> ('z socks_scheme) talk \<Rightarrow> ('z socks_scheme) talk res" where
  "client_receives env n q t = (case tk_rx t of
     Rx_receive got err buf \<Rightarrow>
       bindR (minisocket_receive q (Some buf) (n - got) (tk_client t)) (\<lambda>(k0, s0). bindR (proceed env k0 s0) (\<lambda>(k1, s1).
       bindR (proceed env k1 s1) (\<lambda>(k2, s2). case k2 of
         Finished (Received r e buf') \<Rightarrow>
           (let (out, x) = client_received n got r (assign err e) buf' in
            Inr (t\<lparr>tk_client := s2, tk_rx := x, tk_heard := tk_heard t @ out\<rparr>))
       | _ \<Rightarrow> Inr (t\<lparr>tk_client := s2\<rparr>))))
   | _ \<Rightarrow> Inr t)"

definition talk_turn ::
  "sockenv \<Rightarrow> sockenv \<Rightarrow> int \<Rightarrow> ptr \<Rightarrow> ptr \<Rightarrow> ptr \<Rightarrow> ptr \<Rightarrow> byte list \<Rightarrow> ('z socks_scheme) talk \<Rightarrow> ('z socks_scheme) talk res" where
  "talk_turn ce se n p q a1 a2 junk t =
     bindR (deliver se a1 junk (tk_server t) (tk_client t)) (\<lambda>s1. bindR (deliver ce a2 junk s1 (tk_server t)) (\<lambda>c1.
     bindR (client_receives se n q (t\<lparr>tk_client := s1, tk_server := c1\<rparr>)) (server_goes_on ce n p)))"

fun talk_turns ::
  "nat \<Rightarrow> sockenv \<Rightarrow> sockenv \<Rightarrow> int \<Rightarrow> ptr \<Rightarrow> ptr \<Rightarrow> ptr \<Rightarrow> ptr \<Rightarrow> byte list \<Rightarrow> ('z socks_scheme) talk \<Rightarrow> ('z socks_scheme) talk res" where
  "talk_turns 0 ce se n p q a1 a2 junk t = Inr t"
| "talk_turns (Suc i) ce se n p q a1 a2 junk t =
     bindR (talk_turn ce se n p q a1 a2 junk t) (talk_turns i ce se n p q a1 a2 junk)"

text \<open>Both sockets are made; \<open>e1\<close>, \<open>e2\<close> and \<open>buf\<close> are the contents of \<open>error\<close> in the two programs and of the client's buffer.\<close>

definition talk_start ::
  "sockenv \<Rightarrow> int \<Rightarrow> ptr \<Rightarrow> ptr \<Rightarrow> minisocket_error \<Rightarrow> minisocket_error \<Rightarrow> byte list \<Rightarrow> 'z socks_scheme \<Rightarrow> 'z socks_scheme \<Rightarrow>
     ('z socks_scheme) talk res" where
  "talk_start ce n p q e1 e2 buf c s =
     (let (out, x) = server_created n p e1; (out', y) = client_created n q e2 buf in
      server_call ce n p \<lparr>tk_tx = x, tk_call = Finished Closed, tk_server = c, tk_said = out, tk_rx = y, tk_client = s, tk_heard = out'\<rparr>)"

section \<open>The message gets through\<close>

lemma fill_length [simp]: "0 \<le> n \<Longrightarrow> int (length (fill b n)) = n"
  by (simp add: fill_def)

lemma fill_nth: "0 \<le> i \<Longrightarrow> i < n \<Longrightarrow> fill b n ! nat i = of_int (cmod i b)"
  by (simp add: fill_def nth_upto)

lemma fragment_bounds:
  fixes b :: int
  assumes "0 \<le> sent" "sent < n"
  defines "d \<equiv> fragment_of (fill b n) sent"
  shows "d \<noteq> []" "sent + int (length d) \<le> n"
proof -
  have l: "sent < int (length (fill b n))" using assms(1,2) by simp
  have "int (length d) = (if n - sent > fragment_length then fragment_length else n - sent)"
    using fragment_of_length [OF assms(1) l] assms(1,2) by (simp add: d_def)
  moreover have "(0 :: int) < fragment_length" by (simp add: mini_header_reliable_size_def)
  ultimately show "d \<noteq> []" "sent + int (length d) \<le> n" using assms(2) by (auto split: if_splits)
qed

lemma right_bytes:
  assumes "0 \<le> sent" "sent < n"
  defines "d \<equiv> fragment_of (fill 256 n) sent"
  shows "wrong_byte sent (int (length d)) (d @ rest) = None"
proof -
  have "(d @ rest) ! nat i = of_int (cmod (sent + i) 256)" if "0 \<le> i" "i < int (length d)" for i
  proof -
    have i: "nat i < length d" "nat sent + nat i = nat (sent + i)" using that assms(1) by auto
    have "nat sent \<le> length (fill 256 n)" using fill_length [of n 256] assms(1,2) by linarith
    then have "d ! nat i = fill 256 n ! (nat sent + nat i)" using i(1) by (simp add: d_def fragment_of_def)
    moreover have "sent + i < n" using fragment_bounds(2) [OF assms(1,2), of 256] that(2) by (simp add: d_def)
    ultimately show ?thesis using i that(1) assms(1) fill_nth [of "sent + i" n 256] by (simp add: nth_append)
  qed
  then show ?thesis by (auto simp: wrong_byte_def find_None_iff)
qed

text \<open>The server waits for the acknowledgement of the fragment behind the first \<open>sent\<close> bytes, the client for that fragment.\<close>

definition talking :: "sockenv \<Rightarrow> int \<Rightarrow> ptr \<Rightarrow> ptr \<Rightarrow> minisocket_error \<Rightarrow> int \<Rightarrow> ('z socks_scheme) talk \<Rightarrow> bool" where
  "talking ce n p q e1 sent t \<longleftrightarrow> (\<exists>k l h d al ad sq (c0 :: 'z socks_scheme) e buf.
     tk_tx t = Tx_send 0 e1 \<and> d = fragment_of (fill 256 n) sent \<and>
     tk_call t = At (Send_ack p (fill 256 n) n sent h (int (length d)) 100 al) \<and>
     tk_rx t = Rx_receive sent e buf \<and> int (length buf) = n \<and> tk_said t = [] \<and> tk_heard t = [] \<and>
     busy_sock [al] p k (tk_server t) \<and> ack_flag k = 0 \<and> idle q l (tk_client t) \<and>
     remote_addr k = local_host (tk_client t) \<and> remote_port k = local_port l \<and> remote_addr l = local_host (tk_server t) \<and>
     remote_port l = local_port k \<and> seq_number k = ack_number l + of_nat (length d) \<and> seq_number l = ack_number k \<and>
     h = create_control_header (se_header ce) MSG_ACK (local_port l) ad (remote_port l) sq (seq_number l) c0 \<and>
     local_host c0 = local_host (tk_server t) \<and> last (wire (tk_server t)) = (network_address_to_sockaddr (local_host (tk_client t)), h @ d))"

text \<open>Both programs are in their last call, \<open>minisocket_close\<close>, and the sockets agree.\<close>

definition talked :: "int \<Rightarrow> ptr \<Rightarrow> ptr \<Rightarrow> minisocket_error \<Rightarrow> ('z socks_scheme) talk \<Rightarrow> bool" where
  "talked n p q e1 t \<longleftrightarrow> connected p q (tk_server t) (tk_client t) \<and> tk_rx t = Rx_close 0 \<and> tk_heard t = [All_said] \<and>
     (if e1 = SOCKET_NOERROR then tk_tx t = Tx_close 0 \<and> tk_said t = [Sent_said n]
      else tk_tx t = Tx_close (- 1) \<and> tk_said t = [Sent_said n, Error_said (GetErrorDescription e1)])"

lemma client_takes:
  assumes "tk_rx t = Rx_receive sent e buf" "0 \<le> sent" "sent < n" "d = fragment_of (fill 256 n) sent"
    "minisocket_receive q (Some buf) (n - sent) (tk_client t) = Inr (At (Recv_mutex q buf (n - sent)), tk_client t)"
    "proceed se (At (Recv_mutex q buf (n - sent))) (tk_client t) = Inr (At (Recv_data q buf (n - sent)), s2)"
    "proceed se (At (Recv_data q buf (n - sent))) s2 = Inr (Finished (Received (int (length d)) None (d @ drop (length d) buf)), s3)"
  shows "client_receives se n q t = Inr (t\<lparr>tk_client := s3,
    tk_rx := snd (client_loop n (sent + int (length d)) e (d @ drop (length d) buf)),
    tk_heard := tk_heard t @ fst (client_loop n (sent + int (length d)) e (d @ drop (length d) buf))\<rparr>)"
  using assms right_bytes [OF assms(2,3), folded assms(4)]
  by (simp add: client_receives_def client_received_def assign_def split_def Let_def)

lemma talk_step:
  fixes t :: "('z socks_scheme) talk"
  assumes t: "talking ce n p q e1 sent t" and sent: "0 \<le> sent" "sent < n" and env: "works ce" "works se" "a1 \<noteq> NULL" "a2 \<noteq> NULL"
  defines "sent' \<equiv> sent + int (length (fragment_of (fill 256 n) sent))"
  shows "\<exists>t'. talk_turn ce se n p q a1 a2 junk t = Inr t' \<and> (if sent' = n then talked n p q e1 t' else talking ce n p q e1 sent' t')"
proof -
  let ?m = "fill 256 n"
  obtain k l h d al ad sq and c0 :: "'z socks_scheme" and e buf where tx: "tk_tx t = Tx_send 0 e1" and d: "d = fragment_of ?m sent"
    and call: "tk_call t = At (Send_ack p ?m n sent h (int (length d)) 100 al)"
    and rx: "tk_rx t = Rx_receive sent e buf" "int (length buf) = n" and said: "tk_said t = []" "tk_heard t = []"
    and k: "busy_sock [al] p k (tk_server t)" "ack_flag k = 0" and l: "idle q l (tk_client t)"
    and pr: "remote_addr k = local_host (tk_client t)" "remote_port k = local_port l" "remote_addr l = local_host (tk_server t)"
      "remote_port l = local_port k" "seq_number k = ack_number l + of_nat (length d)" "seq_number l = ack_number k"
    and h: "h = create_control_header (se_header ce) MSG_ACK (local_port l) ad (remote_port l) sq (seq_number l) c0"
    and c0: "local_host c0 = local_host (tk_server t)"
    and w1: "last (wire (tk_server t)) = (network_address_to_sockaddr (local_host (tk_client t)), h @ d)"
    using t unfolding talking_def by blast
  have dn: "d \<noteq> []" "int (length d) \<le> n - sent" "n - sent \<le> int (length buf)"
    using fragment_bounds [OF sent, of 256] rx(2) sent by (auto simp: d)
  have pl: "0 \<le> remote_port l" "remote_port l < 65536" "0 \<le> remote_port k" "remote_port k < 65536"
    using k(1) l pr(2,4) by (simp_all add: busy_sock_def idle_def)
  have pc: "remote_addr l = local_host c0" by (simp add: pr(3) c0)
  obtain s1 s2 s3 l3 where rc: "deliver se a1 junk (tk_server t) (tk_client t) = Inr s1"
    "minisocket_receive q (Some buf) (n - sent) s1 = Inr (At (Recv_mutex q buf (n - sent)), s1)"
    "proceed se (At (Recv_mutex q buf (n - sent))) s1 = Inr (At (Recv_data q buf (n - sent)), s2)"
    "proceed se (At (Recv_data q buf (n - sent))) s2 = Inr (Finished (Received (int (length d)) None (d @ drop (length d) buf)), s3)"
    "idle q l3 s3" "local_host s1 = local_host (tk_client t)" "local_host s3 = local_host (tk_client t)" "remote_addr l3 = remote_addr l"
    "remote_port l3 = remote_port l" "local_port l3 = local_port l" "seq_number l3 = seq_number l"
    "ack_number l3 = ack_number l + of_nat (length d)"
    "last (wire s1) = (network_address_to_sockaddr (remote_addr l), create_control_header (se_header se) MSG_ACK (remote_port l) (remote_addr l)
       (local_port l) (seq_number l) (ack_number l + of_nat (length d)) (tk_client t))"
    by (rule fragment_received [OF l env(1,2,3) dn pl(1,2) pc h w1])
  have ra: "remote_addr k = local_host s1" by (simp add: rc(6) pr(1))
  have w2: "last (wire s1) = (network_address_to_sockaddr (local_host (tk_server t)), create_control_header (se_header se) MSG_ACK (local_port k)
      (remote_addr l) (remote_port k) (seq_number l) (seq_number k) (tk_client t))"
    by (simp add: rc(13) pr)
  obtain c2 q2 where ak: "deliver ce a2 junk s1 (tk_server t) = Inr c2" "busy_sock [al] p (k\<lparr>sk_data := q2, ack_flag := 1\<rparr>) c2"
    "\<exists>w. counts c2 (wait_for_ack k) = Some w \<and> 0 < w" "counts c2 (send_receive_mutex k) = counts (tk_server t) (send_receive_mutex k)"
    "local_host c2 = local_host (tk_server t)"
    by (rule fragment_acked [OF k env(1,2,4) ra pl(3,4) w2 rc(6), where junk = junk])
  define k2 where "k2 = k\<lparr>sk_data := q2, ack_flag := 1\<rparr>"
  note b2 = ak(2) [folded k2_def, unfolded busy_sock_def]
  obtain w where w: "counts c2 (wait_for_ack k2) = Some w" "0 < w" using ak(3) by (auto simp: k2_def)
  obtain y where y: "counts c2 (send_receive_mutex k2) = Some y" "0 \<le> y" using b2 by blast
  have d2: "distinct [NULL, wait_for_ack k2, send_receive_mutex k2]" "ack_flag k2 = 1" using b2 by (auto simp: k2_def)
  have b3: "at_sock c2 p k2" "socket_state k2 = OPEN" "alarms_are [al] c2" using b2 by blast+
  let ?cl = "client_loop n sent' e (d @ drop (length d) buf)"
  let ?t = "t\<lparr>tk_client := s1, tk_server := c2\<rparr>"
  have "client_receives se n q ?t = Inr (?t\<lparr>tk_client := s3, tk_rx := snd ?cl, tk_heard := tk_heard ?t @ fst ?cl\<rparr>)"
    unfolding sent'_def d [symmetric]
    by (rule client_takes [OF _ sent d, of ?t]) (use rx(1) rc(2-4) in simp_all)
  then have turn: "talk_turn ce se n p q a1 a2 junk t =
      server_goes_on ce n p (t\<lparr>tk_server := c2, tk_client := s3, tk_rx := snd ?cl, tk_heard := fst ?cl\<rparr>)"
    using rc(1) ak(1) said(2) by (simp add: talk_turn_def)
  show ?thesis
  proof (cases "sent' = n")
    case True
    have tn: "sent + int (length d) = n" using True by (simp add: sent'_def d)
    obtain c3 where fi: "proceed ce (At (Send_ack p ?m n sent h (int (length d)) 100 al)) c2 = Inr (Finished (Sent n None), c3)"
      "sockets c3 = sockets c2" "alarms_are [] c3" "wire c3 = wire c2" "ports c3 = ports c2" "local_host c3 = local_host c2"
      "counts c3 = (counts c2)(wait_for_ack k2 \<mapsto> w - 1, send_receive_mutex k2 \<mapsto> y + 2)"
      by (rule send_finishes [OF b3(1,2) d2(2,1) w y b3(3) tn])
    have "idle p k2 c3" using b2 w y by (auto simp: idle_def at_sock_def fi)
    then have "connected p q c3 s3" unfolding connected_def using rc(5)
      by (intro exI [of _ k2] exI [of _ l3]) (use pr rc(6-12) ak(5) in \<open>simp add: k2_def fi(6)\<close>)
    then show ?thesis using True tx call said fi(1) unfolding turn
      by (simp add: server_goes_on_def server_sent_def assign_def server_loop_def server_call_def client_loop_def talked_def Let_def)
  next
    case False
    have s': "0 \<le> sent'" "sent' < n" using False sent fragment_bounds(2) [OF sent, of 256] by (simp_all add: sent'_def)
    then have s'': "sent' < int (length ?m)" "n = int (length ?m)" by simp_all
    obtain v where v: "proceed ce (At (Send_ack p ?m n sent h (int (length d)) 100 al)) c2 =
        (if sent + int (length d) \<noteq> n then send_fragment ce p ?m n (sent + int (length d)) v else unlock_and p (Finished (Sent n None)) v)"
      "sockets v = sockets c2" "alarms_are [] v" "wire v = wire c2" "ports v = ports c2" "local_host v = local_host c2"
      "counts v = (counts c2)(wait_for_ack k2 \<mapsto> w - 1, send_receive_mutex k2 \<mapsto> y + 1)"
      by (rule ack_taken [OF b3(1,2) d2(2,1) w y b3(3)])
    define d' where "d' = fragment_of ?m sent'"
    define h' where "h' = create_control_header (se_header ce) MSG_ACK (remote_port k2) (remote_addr k2) (local_port k2) (seq_number k2) (ack_number k2) v"
    have vs: "at_sock v p k2" using b3(1) v(2) by (simp add: at_sock_def)
    obtain c3 al' where c3: "send_fragment ce p ?m n sent' v = Inr (At (Send_ack p ?m n sent' h' (int (length d')) 100 al'), c3)"
      "wire c3 = wire v @ [(network_address_to_sockaddr (remote_addr k2), h' @ d')]"
      "at_sock c3 p (k2\<lparr>ack_flag := 0, seq_number := seq_number k2 + of_nat (length d')\<rparr>)" "alarms_are [al'] c3" "ports c3 = ports v"
      "local_host c3 = local_host v" "counts c3 = counts v"
      by (rule fragment_sent [OF vs v(3) env(1) s'(1) s'' d'_def h'_def])
    define k3 where "k3 = k2\<lparr>ack_flag := 0, seq_number := seq_number k2 + of_nat (length d')\<rparr>"
    have k3: "busy_sock [al'] p k3 c3"
      unfolding busy_sock_def using b2 w y c3(3,4) by (auto simp: k3_def c3(5,7) v(5,7))
    have h': "h' = create_control_header (se_header ce) MSG_ACK (local_port l3) (remote_addr k2) (remote_port l3) (seq_number k2) (seq_number l3) v"
      by (simp add: h'_def k2_def rc pr)
    have pd: "proceed ce (At (Send_ack p ?m n sent h (int (length d)) 100 al)) c2 =
        Inr (At (Send_ack p ?m n sent' h' (int (length d')) 100 al'), c3)"
      using v(1) c3(1) False by (simp add: sent'_def d)
    let ?t' = "t\<lparr>tk_server := c3, tk_client := s3, tk_rx := Rx_receive sent' e (d @ drop (length d) buf), tk_heard := [],
      tk_call := At (Send_ack p ?m n sent' h' (int (length d')) 100 al')\<rparr>"
    have "talk_turn ce se n p q a1 a2 junk t = Inr ?t'"
      unfolding turn using call pd False by (simp add: server_goes_on_def client_loop_def)
    moreover have "talking ce n p q e1 sent' ?t'" unfolding talking_def
      by (intro exI [of _ k3] exI [of _ l3] exI [of _ h'] exI [of _ d'] exI [of _ al'] exI [of _ "remote_addr k2"] exI [of _ "seq_number k2"]
          exI [of _ v] exI [of _ e] exI [of _ "d @ drop (length d) buf"] conjI)
        (use k3 rc(5-12) h' tx said rx(2) dn(2,3) sent pr ak(5) c3(2,6) v(6) in \<open>simp_all add: d'_def k3_def k2_def\<close>)
    ultimately show ?thesis using False by auto
  qed
qed

lemma talk_starts:
  fixes c s :: "'z socks_scheme"
  assumes "connected p q c s" "works ce" "0 < n" "int (length buf) = n"
  shows "\<exists>t. talk_start ce n p q e1 e2 buf c s = Inr t \<and> talking ce n p q e1 0 t"
proof -
  let ?m = "fill 256 n"
  define d where "d = fragment_of ?m 0"
  obtain k l where kl: "idle p k c" "idle q l s" "remote_addr k = local_host s" "remote_port k = local_port l"
    "remote_addr l = local_host c" "remote_port l = local_port k" "seq_number k = ack_number l" "seq_number l = ack_number k"
    using assms(1) by (auto simp: connected_def)
  note ik = kl(1) [unfolded idle_def]
  have pq: "p \<noteq> NULL" "q \<noteq> NULL" using kl(1,2) by (simp_all add: idle_def at_sock_def)
  obtain y where y: "counts c (send_receive_mutex k) = Some y" "0 < y" using ik by blast
  have m: "?m \<noteq> []" "n = int (length ?m)" using assms(3) by (simp_all add: fill_def)
  define h where "h = create_control_header (se_header ce) MSG_ACK (remote_port k) (remote_addr k) (local_port k) (seq_number k) (ack_number k) c"
  obtain c1 al where st: "minisocket_send p (Some ?m) n c = Inr (At (Send_mutex p ?m n), c)"
    "proceed ce (At (Send_mutex p ?m n)) c = Inr (At (Send_ack p ?m n 0 h (int (length d)) 100 al), c1)"
    "wire c1 = wire c @ [(network_address_to_sockaddr (remote_addr k), h @ d)]"
    "at_sock c1 p (k\<lparr>ack_flag := 0, seq_number := seq_number k + of_nat (length d)\<rparr>)" "alarms_are [al] c1" "ports c1 = ports c"
    "local_host c1 = local_host c" "counts c1 = (counts c)(send_receive_mutex k \<mapsto> y - 1)"
    by (rule send_starts [OF kl(1) assms(2) m y(1) d_def h_def])
  have h: "h = create_control_header (se_header ce) MSG_ACK (local_port l) (remote_addr k) (remote_port l) (seq_number k) (seq_number l) c"
    by (simp add: h_def kl)
  define k1 where "k1 = k\<lparr>ack_flag := 0, seq_number := seq_number k + of_nat (length d)\<rparr>"
  have k1: "busy_sock [al] p k1 c1" using ik st(4,5) y by (auto simp: busy_sock_def k1_def st(6,8))
  let ?t = "\<lparr>tk_tx = Tx_send 0 e1, tk_call = At (Send_ack p ?m n 0 h (int (length d)) 100 al), tk_server = c1, tk_said = [],
    tk_rx = Rx_receive 0 e2 buf, tk_client = s, tk_heard = []\<rparr>"
  have "talk_start ce n p q e1 e2 buf c s = Inr ?t"
    using pq assms(3) st(1,2)
    by (simp add: talk_start_def server_created_def client_created_def server_loop_def client_loop_def server_call_def)
  moreover have "talking ce n p q e1 0 ?t" unfolding talking_def
    by (intro exI [of _ k1] exI [of _ l] exI [of _ h] exI [of _ d] exI [of _ al] exI [of _ "remote_addr k"] exI [of _ "seq_number k"]
        exI [of _ c] exI [of _ e2] exI [of _ buf] conjI)
      (use k1 kl h st(3,7) assms(4) in \<open>simp_all add: d_def k1_def\<close>)
  ultimately show ?thesis by blast
qed

lemma talk_ends:
  fixes t :: "('z socks_scheme) talk"
  assumes "talking ce n p q e1 sent t" "0 \<le> sent" "sent < n" and env: "works ce" "works se" "a1 \<noteq> NULL" "a2 \<noteq> NULL"
  shows "\<exists>i t'. talk_turns i ce se n p q a1 a2 junk t = Inr t' \<and> talked n p q e1 t'"
  using assms(1-3)
proof (induction "nat (n - sent)" arbitrary: sent t rule: less_induct)
  case less
  define sent' where "sent' = sent + int (length (fragment_of (fill 256 n) sent))"
  obtain t1 where t1: "talk_turn ce se n p q a1 a2 junk t = Inr t1" "if sent' = n then talked n p q e1 t1 else talking ce n p q e1 sent' t1"
    using talk_step [OF less.prems env, of junk] unfolding sent'_def by blast
  show ?case
  proof (cases "sent' = n")
    case True
    then have "talk_turns 1 ce se n p q a1 a2 junk t = Inr t1 \<and> talked n p q e1 t1" using t1 by simp
    then show ?thesis by blast
  next
    case False
    have b: "sent < sent'" "sent' \<le> n" using fragment_bounds [OF less.prems(2,3), of 256] by (simp_all add: sent'_def)
    then have "nat (n - sent') < nat (n - sent)" "talking ce n p q e1 sent' t1" "0 \<le> sent'" "sent' < n" using False less.prems t1(2) by auto
    from less.hyps [OF this] obtain i t' where "talk_turns i ce se n p q a1 a2 junk t1 = Inr t'" "talked n p q e1 t'" by blast
    then have "talk_turns (Suc i) ce se n p q a1 a2 junk t = Inr t' \<and> talked n p q e1 t'" using t1(1) by simp
    then show ?thesis by blast
  qed
qed

text \<open>
  C20: over a network that loses nothing, a message of any size goes through a connection in fragments, and the client says
  that all bytes were received correctly. The stream layer does not assign \<open>error\<close> when a call succeeds: the server takes its one send, which
  has sent everything, for an error unless \<open>error\<close> happened to be \<open>SOCKET_NOERROR\<close> when the program started.
\<close>

theorem big_message_received:
  fixes c s :: "'z socks_scheme"
  assumes "connected p q c s" "works ce" "works se" "a1 \<noteq> NULL" "a2 \<noteq> NULL" "0 < n" "int (length buf) = n"
  shows "\<exists>t i t'. talk_start ce n p q e1 e2 buf c s = Inr t \<and> talk_turns i ce se n p q a1 a2 junk t = Inr t' \<and>
    connected p q (tk_server t') (tk_client t') \<and> tk_rx t' = Rx_close 0 \<and> tk_heard t' = [All_said] \<and>
    (if e1 = SOCKET_NOERROR then tk_tx t' = Tx_close 0 \<and> tk_said t' = [Sent_said n]
     else tk_tx t' = Tx_close (- 1) \<and> tk_said t' = [Sent_said n, Error_said (GetErrorDescription e1)])"
proof -
  obtain t where t: "talk_start ce n p q e1 e2 buf c s = Inr t" "talking ce n p q e1 0 t"
    using talk_starts [OF assms(1,2,6,7)] by blast
  obtain i t' where "talk_turns i ce se n p q a1 a2 junk t = Inr t'" "talked n p q e1 t'"
    using talk_ends [OF t(2) order.refl assms(6,2-5)] by blast
  with t(1) show ?thesis unfolding talked_def by blast
qed

text \<open>With the two machines of the example, three bytes and an \<open>error\<close> that was not \<open>SOCKET_NOERROR\<close>.\<close>

lemma big_message_received_witness:
  "\<exists>t i t'. talk_start good_env 3 1 1 SOCKET_BUSY SOCKET_BUSY [0, 0, 0] far near = Inr t \<and>
     talk_turns i good_env good_env 3 1 1 7 8 [] t = Inr t' \<and> tk_heard t' = [All_said] \<and>
     tk_said t' = [Sent_said 3, Error_said ''Some other client already connected to the server'']"
  using big_message_received [OF near_far_connected good_env_works good_env_works, of 7 8 3 "[0, 0, 0]" SOCKET_BUSY SOCKET_BUSY "[]"]
  by (fastforce simp: GetErrorDescription_def)

section \<open>What a receiver checks\<close>

text \<open>
  A receiver whose calls return \<open>rs\<close>, each a result, an error if the call assigns it, and the buffer after it: what it prints, and the data
  that it has got. \<open>chunk\<close> is the part of the buffer that a call has written.
\<close>

fun checked_run ::
  "(int \<Rightarrow> int \<Rightarrow> minisocket_error \<Rightarrow> byte list \<Rightarrow> says list \<times> rx_place) \<Rightarrow> (int \<Rightarrow> int \<Rightarrow> byte list \<Rightarrow> byte list) \<Rightarrow> rx_place \<Rightarrow>
     (int \<times> minisocket_error option \<times> byte list) list \<Rightarrow> says list \<times> byte list" where
  "checked_run step chunk (Rx_receive got err buf) ((r, e, buf') # rs) =
     (let (out, x) = step got r (assign err e) buf'; (out', bs) = checked_run step chunk x rs
      in (out @ out', (if r < 0 then [] else chunk got r buf') @ bs))"
| "checked_run step chunk x rs = ([], [])"

definition pattern :: "int \<Rightarrow> int \<Rightarrow> int \<Rightarrow> byte list" where
  "pattern b i j = map (\<lambda>i. of_int (cmod i b)) [i..j - 1]"

lemma pattern_append: "i \<le> j \<Longrightarrow> j \<le> k \<Longrightarrow> pattern b i j @ pattern b j k = pattern b i k"
  unfolding pattern_def map_append [symmetric] using upto_split1 [of i j "k - 1"] by (cases "j = k") auto

lemma pattern_empty [simp]: "pattern b i i = []"
  by (simp add: pattern_def)

lemma pattern_fill: "pattern b 0 n = fill b n"
  by (simp add: pattern_def fill_def)

lemma pattern_eqI:
  assumes "0 \<le> i" "i \<le> j" "int (length xs) = j - i" "\<And>k. i \<le> k \<Longrightarrow> k < j \<Longrightarrow> xs ! nat (k - i) = of_int (cmod k b)"
  shows "xs = pattern b i j"
proof (rule nth_equalityI)
  show "length xs = length (pattern b i j)" using assms(2,3) by (simp add: pattern_def)
  fix m
  assume "m < length xs"
  then have m: "i + int m < j" using assms(3) by linarith
  then have "i + int m \<le> j - 1" "m < length [i..j - 1]" by auto
  then have "pattern b i j ! m = of_int (cmod (i + int m) b)" by (simp add: pattern_def nth_upto)
  then show "xs ! m = pattern b i j ! m" using assms(4) [of "i + int m"] m by simp
qed

text \<open>The contract of a step: it counts what it got, and says nothing wrong only if the part written is as expected.\<close>

locale checking_receiver =
  fixes n b :: int
    and step :: "int \<Rightarrow> int \<Rightarrow> minisocket_error \<Rightarrow> byte list \<Rightarrow> says list \<times> rx_place"
    and chunk :: "int \<Rightarrow> int \<Rightarrow> byte list \<Rightarrow> byte list"
  assumes goes_on: "step got r err buf = (out, Rx_receive got' err' buf') \<Longrightarrow> - 1 \<le> r \<Longrightarrow> got' = got + r \<and> 0 \<le> r \<and> All_said \<notin> set out"
    and all_there: "step got r err buf = (out, x) \<Longrightarrow> - 1 \<le> r \<Longrightarrow> All_said \<in> set out \<Longrightarrow> got + r = n \<and> 0 \<le> r \<and> x = Rx_close 0"
    and right_chunk: "step got r err buf = (out, x) \<Longrightarrow> 0 \<le> got \<Longrightarrow> 0 \<le> r \<Longrightarrow> got + r \<le> n \<Longrightarrow> int (length buf) = n \<Longrightarrow>
      \<forall>i. Wrong_said i \<notin> set out \<Longrightarrow> chunk got r buf = pattern b got (got + r)"
begin

lemma checked_other [simp]: "checked_run step chunk (Rx_close c) rs = ([], [])" "checked_run step chunk (Rx_end c) rs = ([], [])"
  by simp_all

lemma checked_bound:
  "All_said \<in> set (fst (checked_run step chunk (Rx_receive got err buf) rs)) \<Longrightarrow> \<forall>(r, e, buf') \<in> set rs. - 1 \<le> r \<Longrightarrow> got \<le> n"
proof (induction rs arbitrary: got err buf)
  case (Cons a rs)
  obtain r e buf' where a: "a = (r, e, buf')" by (cases a)
  obtain out x where s: "step got r (assign err e) buf' = (out, x)" by (cases "step got r (assign err e) buf'")
  have r: "- 1 \<le> r" using Cons.prems(2) by (simp add: a)
  have "All_said \<in> set out \<or> All_said \<in> set (fst (checked_run step chunk x rs))"
    using Cons.prems(1) by (auto simp: a s split_def Let_def)
  then show ?case
  proof
    assume "All_said \<in> set out"
    then show ?thesis using all_there [OF s r] by simp
  next
    assume l: "All_said \<in> set (fst (checked_run step chunk x rs))"
    then show ?thesis
    proof (cases x)
      case (Rx_receive got' err' buf'')
      then show ?thesis using goes_on [OF s [unfolded Rx_receive] r] Cons.IH [of got' err' buf''] Cons.prems(2) l by simp
    qed auto
  qed
qed simp

lemma checked_right:
  assumes "checked_run step chunk (Rx_receive got err buf) rs = (out, bs)" "All_said \<in> set out" "\<forall>i. Wrong_said i \<notin> set out"
    "0 \<le> got" "\<forall>(r, e, buf') \<in> set rs. - 1 \<le> r \<and> int (length buf') = n"
  shows "bs = pattern b got n"
  using assms
proof (induction rs arbitrary: got err buf out bs)
  case (Cons a rs)
  obtain r e buf' where a: "a = (r, e, buf')" by (cases a)
  obtain o1 x where s: "step got r (assign err e) buf' = (o1, x)" by (cases "step got r (assign err e) buf'")
  obtain o2 d2 where run: "checked_run step chunk x rs = (o2, d2)" by (cases "checked_run step chunk x rs")
  have od: "out = o1 @ o2" "bs = (if r < 0 then [] else chunk got r buf') @ d2" using Cons.prems(1) by (auto simp: a s run)
  have w: "\<forall>i. Wrong_said i \<notin> set o1" and l: "int (length buf') = n" and r: "- 1 \<le> r"
    and rs: "\<forall>(r, e, buf') \<in> set rs. - 1 \<le> r \<and> int (length buf') = n"
    using Cons.prems(3,5) by (auto simp: od a)
  show ?case
  proof (cases "All_said \<in> set o1")
    case True
    note t = all_there [OF s r True]
    have "chunk got r buf' = pattern b got n" using right_chunk [OF s Cons.prems(4) _ _ l w] t by simp
    moreover have "d2 = []" using run t by simp
    ultimately show ?thesis using t by (simp add: od)
  next
    case False
    then have l2: "All_said \<in> set o2" using Cons.prems(2) by (simp add: od)
    then obtain got' err' buf'' where x: "x = Rx_receive got' err' buf''" using run by (cases x) auto
    note g = goes_on [OF s [unfolded x] r]
    have "got + r \<le> n" using checked_bound [of got' err' buf'' rs] l2 run g rs by (auto simp: x)
    then have "chunk got r buf' = pattern b got (got + r)" using right_chunk [OF s Cons.prems(4) _ _ l w] g by simp
    moreover have "d2 = pattern b (got + r) n"
      using Cons.IH [OF run [unfolded x] l2] Cons.prems(3,4) g rs by (auto simp: od)
    ultimately show ?thesis using g \<open>got + r \<le> n\<close> by (simp add: od pattern_append)
  qed
qed simp

end

definition front_chunk :: "int \<Rightarrow> int \<Rightarrow> byte list \<Rightarrow> byte list" where
  "front_chunk got r buf = take (nat r) buf"

definition inner_chunk :: "int \<Rightarrow> int \<Rightarrow> byte list \<Rightarrow> byte list" where
  "inner_chunk got r buf = take (nat r) (drop (nat got) buf)"

lemma wrong_byte_None:
  assumes "wrong_byte got r buf = None" "0 \<le> got" "0 \<le> r" "r \<le> int (length buf)"
  shows "front_chunk got r buf = pattern 256 got (got + r)"
proof (rule pattern_eqI)
  fix k
  assume k: "got \<le> k" "k < got + r"
  have "k - got \<in> set [0..r - 1]" using k by simp
  then have "buf ! nat (k - got) = of_int (cmod (got + (k - got)) 256)"
    using assms(1) unfolding wrong_byte_def find_None_iff by blast
  then show "front_chunk got r buf ! nat (k - got) = of_int (cmod k 256)" using k by (simp add: front_chunk_def)
qed (use assms(2-4) in \<open>auto simp: front_chunk_def\<close>)

lemma wrong_bytes_Nil:
  assumes "wrong_bytes got r buf = []" "0 \<le> got" "0 \<le> r" "got + r \<le> int (length buf)"
  shows "inner_chunk got r buf = pattern 128 got (got + r)"
proof (rule pattern_eqI)
  fix k
  assume k: "got \<le> k" "k < got + r"
  have "k - got \<in> set [0..r - 1]" using k by simp
  then have "got + (k - got) \<in> set (map (\<lambda>i. got + i) [0..r - 1])" unfolding set_map by (rule imageI)
  then have "buf ! nat k = of_int (cmod k 128)"
    using assms(1) unfolding wrong_bytes_def filter_empty_conv by (metis add_diff_cancel_left' diff_add_cancel add.commute)
  moreover have "nat got + nat (k - got) = nat k" using assms(2) k by auto
  ultimately show "inner_chunk got r buf ! nat (k - got) = of_int (cmod k 128)"
    using k assms(2,4) by (simp add: inner_chunk_def)
qed (use assms(2-4) in \<open>auto simp: inner_chunk_def\<close>)

interpretation second: checking_receiver n 256 "client_received n" front_chunk for n
proof
  show "got' = got + r \<and> 0 \<le> r \<and> All_said \<notin> set out"
    if "client_received n got r err buf = (out, Rx_receive got' err' buf')" "- 1 \<le> r" for got r err buf out got' err' buf'
    using that by (auto simp: client_received_def client_loop_def split: if_splits option.splits)
  show "got + r = n \<and> 0 \<le> r \<and> x = Rx_close 0"
    if "client_received n got r err buf = (out, x)" "- 1 \<le> r" "All_said \<in> set out" for got r err buf out x
    using that by (auto simp: client_received_def client_loop_def split: if_splits option.splits)
  show "front_chunk got r buf = pattern 256 got (got + r)"
    if "client_received n got r err buf = (out, x)" "0 \<le> got" "0 \<le> r" "got + r \<le> n" "int (length buf) = n" "\<forall>i. Wrong_said i \<notin> set out"
    for got r err buf out x
  proof (rule wrong_byte_None [OF _ that(2,3)])
    show "wrong_byte got r buf = None" using that(1,3,6) by (auto simp: client_received_def split: option.splits)
  qed (use that in simp)
qed

text \<open>The receiver of the first program differs from the client only in the text for an error.\<close>

lemma receive_received_split:
  "receive_received n got r err buf =
     (if r = - 1 then ([Error_said (GetErrorDescription1 err)], Rx_close (- 1)) else client_received n got r err buf)"
  by (auto simp: receive_received_def client_received_def wrong_byte_def client_loop_def split: option.splits)

interpretation first: checking_receiver n 256 "receive_received n" front_chunk for n
proof
  show "got' = got + r \<and> 0 \<le> r \<and> All_said \<notin> set out"
    if "receive_received n got r err buf = (out, Rx_receive got' err' buf')" "- 1 \<le> r" for got r err buf out got' err' buf'
    using that second.goes_on by (auto simp: receive_received_split split: if_splits)
  show "got + r = n \<and> 0 \<le> r \<and> x = Rx_close 0"
    if "receive_received n got r err buf = (out, x)" "- 1 \<le> r" "All_said \<in> set out" for got r err buf out x
    using that second.all_there by (auto simp: receive_received_split split: if_splits)
  show "front_chunk got r buf = pattern 256 got (got + r)"
    if "receive_received n got r err buf = (out, x)" "0 \<le> got" "0 \<le> r" "got + r \<le> n" "int (length buf) = n" "\<forall>i. Wrong_said i \<notin> set out"
    for got r err buf out x
    using that second.right_chunk [of n got r err buf out x] by (auto simp: receive_received_split split: if_splits)
qed

interpretation third: checking_receiver n 128 "receiver_received n" inner_chunk for n
proof
  show "got' = got + r \<and> 0 \<le> r \<and> All_said \<notin> set out"
    if "receiver_received n got r err buf = (out, Rx_receive got' err' buf')" "- 1 \<le> r" for got r err buf out got' err' buf'
    using that by (auto simp: receiver_received_def receiver_loop_def split: if_splits)
  show "got + r = n \<and> 0 \<le> r \<and> x = Rx_close 0"
    if "receiver_received n got r err buf = (out, x)" "- 1 \<le> r" "All_said \<in> set out" for got r err buf out x
    using that by (auto simp: receiver_received_def receiver_loop_def split: if_splits)
  show "inner_chunk got r buf = pattern 128 got (got + r)"
    if "receiver_received n got r err buf = (out, x)" "0 \<le> got" "0 \<le> r" "got + r \<le> n" "int (length buf) = n" "\<forall>i. Wrong_said i \<notin> set out"
    for got r err buf out x
  proof (rule wrong_bytes_Nil [OF _ that(2,3)])
    show "wrong_bytes got r buf = []"
      using that(1,3,6) by (cases "wrong_bytes got r buf") (auto simp: receiver_received_def receiver_loop_def split: if_splits)
  qed (use that in simp)
qed

lemma client_stops_at_wrong:
  "All_said \<in> set (fst (checked_run (client_received n) front_chunk x rs)) \<Longrightarrow>
   Wrong_said i \<notin> set (fst (checked_run (client_received n) front_chunk x rs))"
proof (induction rs arbitrary: x)
  case (Cons a rs)
  obtain r e buf' where a: "a = (r, e, buf')" by (cases a)
  show ?case
  proof (cases x)
    case (Rx_receive got err buf)
    then show ?thesis using Cons.prems Cons.IH
      by (auto simp: a split_def Let_def client_received_def client_loop_def split: if_splits option.splits)
  qed (use Cons.prems in auto)
qed (cases x; simp)

text \<open>
  C21: whatever its receiving calls return, in whatever pieces, the client of the second program says that all bytes were received
  correctly only when the pieces together are the message. The receiver of the third program says it also after wrong bytes; if it has named none,
  they are the message.
\<close>

theorem client_checks:
  assumes "checked_run (client_received n) front_chunk (Rx_receive 0 err buf) rs = (out, bs)"
    "checked_run (receiver_received n) inner_chunk (Rx_receive 0 err buf) rs = (out', bs')"
    "\<forall>(r, e, buf') \<in> set rs. - 1 \<le> r \<and> int (length buf') = n"
  shows "(All_said \<in> set out \<longrightarrow> bs = fill 256 n) \<and> (All_said \<in> set out' \<longrightarrow> (\<forall>i. Wrong_said i \<notin> set out') \<longrightarrow> bs' = fill 128 n)"
proof (intro conjI impI)
  assume "All_said \<in> set out"
  moreover have "Wrong_said i \<notin> set out" for i
    using client_stops_at_wrong [of n "Rx_receive 0 err buf" rs i] assms(1) calculation by simp
  ultimately show "bs = fill 256 n" using second.checked_right [OF assms(1)] assms(3) by (simp add: pattern_fill)
next
  assume "All_said \<in> set out'" "\<forall>i. Wrong_said i \<notin> set out'"
  then show "bs' = fill 128 n" using third.checked_right [OF assms(2)] assms(3) by (simp add: pattern_fill)
qed

lemma client_checks_witness:
  "\<exists>out bs out' bs'. checked_run (client_received 3) front_chunk (Rx_receive 0 SOCKET_BUSY [9, 9, 9]) [(1, None, [0, 9, 9]), (2, None, [1, 2, 9])] = (out, bs) \<and>
     bs = fill 256 3 \<and> All_said \<in> set out \<and>
     checked_run (receiver_received 3) inner_chunk (Rx_receive 0 SOCKET_BUSY [9, 9, 9]) [(1, None, [0, 9, 9]), (2, None, [1, 2, 9])] = (out', bs') \<and>
     All_said \<in> set out' \<and> Wrong_said 1 \<in> set out'"
proof -
  let ?rs = "[(1, None, [0, 9, 9]), (2, None, [1, 2, 9])] :: (int \<times> minisocket_error option \<times> byte list) list"
  let ?x = "Rx_receive 0 SOCKET_BUSY [9, 9, 9]"
  have "fst (checked_run (client_received 3) front_chunk ?x ?rs) = [All_said]" by code_simp
  moreover have "fst (checked_run (receiver_received 3) inner_chunk ?x ?rs) = [Wrong_said 1, Wrong_said 2, All_said]" by code_simp
  moreover have "\<forall>(r, e, buf') \<in> set ?rs. - 1 \<le> r \<and> int (length buf') = 3" by simp
  ultimately show ?thesis
    using client_checks [of 3 SOCKET_BUSY "[9, 9, 9]" ?rs] by (metis list.set_intros surjective_pairing)
qed

section \<open>A peer that has closed\<close>

text \<open>The receiving loop again and again, and the sending loop of the third program, at a socket whose peer has closed.\<close>

fun receives_again :: "nat \<Rightarrow> sockenv \<Rightarrow> int \<Rightarrow> ptr \<Rightarrow> ('z socks_scheme) talk \<Rightarrow> ('z socks_scheme) talk res" where
  "receives_again 0 env n q t = Inr t"
| "receives_again (Suc i) env n q t = bindR (client_receives env n q t) (receives_again i env n q)"

lemma receives_nothing:
  fixes t :: "('z socks_scheme) talk"
  assumes "at_sock (tk_client t) q k" "socket_state k \<in> {CLOSING, CLOSED}" "tk_rx t = Rx_receive got err buf" "got \<noteq> n"
  shows "client_receives env n q t = Inr (t\<lparr>tk_rx := Rx_receive got SOCKET_RECEIVEERROR buf\<rparr>)"
  using assms by (auto simp: client_receives_def minisocket_receive_def sock_simps proceed_def client_received_def wrong_byte_def
      client_loop_def assign_def)

text \<open>
  C22: when the other end has closed the connection before all bytes have come, the receiving call returns 0 at once, which the
  client does not take for an error: it calls again, without an end, without a wait and without a word. The sender of the third program, whose
  sending call returns 0 as well, does the same.
\<close>

theorem client_spins:
  fixes t :: "('z socks_scheme) talk"
  assumes "at_sock (tk_client t) q k" "socket_state k \<in> {CLOSING, CLOSED}" "tk_rx t = Rx_receive got err buf" "got \<noteq> n"
  shows "receives_again (Suc i) env n q t = Inr (t\<lparr>tk_rx := Rx_receive got SOCKET_RECEIVEERROR buf\<rparr>) \<and>
    minisocket_send q m l (tk_client t) = Inr (Finished (Sent 0 (Some SOCKET_SENDERROR)), tk_client t) \<and>
    sender_sent n got 0 (assign err (Some SOCKET_SENDERROR)) = ([Sent_said 0], Tx_send got SOCKET_SENDERROR)"
proof (intro conjI)
  show "receives_again (Suc i) env n q t = Inr (t\<lparr>tk_rx := Rx_receive got SOCKET_RECEIVEERROR buf\<rparr>)"
    using assms
  proof (induction i arbitrary: t err)
    case 0
    then show ?case using receives_nothing [OF 0] by simp
  next
    case (Suc i)
    let ?u = "t\<lparr>tk_rx := Rx_receive got SOCKET_RECEIVEERROR buf\<rparr>"
    have "receives_again (Suc i) env n q ?u = Inr (?u\<lparr>tk_rx := Rx_receive got SOCKET_RECEIVEERROR buf\<rparr>)"
      by (rule Suc.IH [of ?u SOCKET_RECEIVEERROR]) (use Suc.prems in simp_all)
    then show ?case using receives_nothing [OF Suc.prems] by (simp only: receives_again.simps(2) [of "Suc i"] bindR.simps) simp
  qed
  show "minisocket_send q m l (tk_client t) = Inr (Finished (Sent 0 (Some SOCKET_SENDERROR)), tk_client t)"
    using assms by (auto simp: minisocket_send_def sock_simps)
  show "sender_sent n got 0 (assign err (Some SOCKET_SENDERROR)) = ([Sent_said 0], Tx_send got SOCKET_SENDERROR)"
    using assms(4) by (simp add: sender_sent_def sender_loop_def assign_def)
qed

text \<open>A socket whose peer has closed, with one of three bytes received.\<close>

definition left_alone :: "socks talk" where
  "left_alone = \<lparr>tk_tx = Tx_end (- 1), tk_call = Finished Closed, tk_server = near, tk_said = [],
     tk_rx = Rx_receive 1 SOCKET_BUSY [0, 0, 0], tk_client = near\<lparr>sockets := [1 \<mapsto> peer80\<lparr>socket_state := CLOSING\<rparr>]\<rparr>, tk_heard = []\<rparr>"

lemma client_spins_witness:
  "receives_again 1000 good_env 3 1 left_alone = Inr (left_alone\<lparr>tk_rx := Rx_receive 1 SOCKET_RECEIVEERROR [0, 0, 0]\<rparr>)"
proof -
  have "at_sock (tk_client left_alone) 1 (peer80\<lparr>socket_state := CLOSING\<rparr>)"
    by (simp add: at_sock_def left_alone_def peer80_def)
  moreover have "tk_rx left_alone = Rx_receive 1 SOCKET_BUSY [0, 0, 0]" by (simp add: left_alone_def)
  ultimately show ?thesis
    using client_spins [of left_alone 1 "peer80\<lparr>socket_state := CLOSING\<rparr>" 1 SOCKET_BUSY "[0, 0, 0]" 3 999 good_env]
    by (simp del: receives_again.simps)
qed

end
