(* ===== verification/Datagram.thy ===== *)
theory Datagram
  imports Conversation
begin

text \<open>
  Datagrams between the ports of machines, as the programs that use \<^verbatim>\<open>src/P1-P4/minimsg.c\<close> see them. The abstract state of a machine gives for each
  unbound port the messages that wait there with the addresses of their senders; \<open>mailboxes\<close> ties it to the ports, queues, packets
  and semaphores of \<^verbatim>\<open>Minimsg\<close>. The lemmas say what sending, the arrival of a packet, receiving and the end of a port do to it. As in
  \<^verbatim>\<open>Conversation\<close>, a packet is taken to arrive before the call that waits for it executes its P.
\<close>

section \<open>Mailboxes\<close>

type_synonym mail = "byte list \<times> netaddr \<times> int"

text \<open>The packet at \<open>a\<close> is the message \<open>m\<close> from the port \<open>lp\<close> of the host \<open>la\<close>.\<close>

fun carries :: "(ptr \<Rightarrow> packet option) \<Rightarrow> ptr \<Rightarrow> mail \<Rightarrow> bool" where
  "carries P a (m, la, lp) \<longleftrightarrow> a \<noteq> NULL \<and> m \<noteq> [] \<and> lp \<le> 32767 \<and> (\<exists>pk. P a = Some pk \<and> size pk = int mini_header_size + int (length m) \<and>
     size pk \<le> int (length (buffer pk)) \<and> take (length m) (drop mini_header_size (buffer pk)) = m \<and>
     unpack_address (buffer pk) off_source_address = la \<and> uint (unpack_unsigned_short (buffer pk) off_source_port) = lp)"

lemma carries_allocated: "list_all2 (carries P) xs ms \<Longrightarrow> a \<in> set xs \<Longrightarrow> P a \<noteq> None"
proof (induction rule: list_all2_induct)
  case Nil
  then show ?case by simp
next
  case (Cons x xs y ys)
  then show ?case by (cases y) auto
qed

text \<open>The unbound port \<open>i\<close> at \<open>p\<close>, with its queue and its semaphore.\<close>

definition box :: "ptr \<Rightarrow> int \<Rightarrow> queue option \<Rightarrow> ptr \<Rightarrow> mail list \<Rightarrow> 'z socks_scheme \<Rightarrow> bool" where
  "box p i d r ms s \<longleftrightarrow> 0 \<le> i \<and> i \<le> 32767 \<and> p \<noteq> NULL \<and> p < port_brk s \<and> miniports s p = Some \<lparr>p_number = i, p_union = Unbound d r\<rparr> \<and>
     oq_inv d \<and> distinct (oq_items d) \<and> list_all2 (carries (packets s)) (oq_items d) ms \<and>
     r \<noteq> NULL \<and> r < sem_brk s \<and> r \<noteq> msg_mutex s \<and> counts s r = Some (int (length ms))"

text \<open>The ports do not share anything.\<close>

definition boxes :: "(int \<Rightarrow> mail list option) \<Rightarrow> (int \<Rightarrow> queue option) \<Rightarrow> (int \<Rightarrow> ptr) \<Rightarrow> 'z socks_scheme \<Rightarrow> bool" where
  "boxes M Q R s \<longleftrightarrow> (\<forall>i ms. M i = Some ms \<longrightarrow> box (unbound_ports s i) i (Q i) (R i) ms s) \<and>
     (\<forall>i j. M i \<noteq> None \<longrightarrow> M j \<noteq> None \<longrightarrow> i \<noteq> j \<longrightarrow> R i \<noteq> R j \<and> set (oq_items (Q i)) \<inter> set (oq_items (Q j)) = {})"

definition mailboxes :: "(int \<Rightarrow> mail list option) \<Rightarrow> 'z socks_scheme \<Rightarrow> bool" where
  "mailboxes M s \<longleftrightarrow> msg_mutex s \<noteq> NULL \<and> msg_mutex s < sem_brk s \<and> (\<exists>n>0. counts s (msg_mutex s) = Some n) \<and> 0 \<le> nPorts s \<and>
     port_brk s \<noteq> NULL \<and> (\<forall>q. miniports s q \<noteq> None \<longrightarrow> q < port_brk s) \<and>
     (\<exists>Q R. boxes M Q R s)"

text \<open>A pair of ports that messages are sent with: \<open>lu\<close> has the number \<open>n\<close>, and \<open>lb\<close> is bound to the port \<open>rp\<close> of \<open>ra\<close>.\<close>

definition outlet :: "ptr \<Rightarrow> ptr \<Rightarrow> int \<Rightarrow> netaddr \<Rightarrow> int \<Rightarrow> 'z socks_scheme \<Rightarrow> bool" where
  "outlet lu lb n ra rp s \<longleftrightarrow> lu \<noteq> NULL \<and> lb \<noteq> NULL \<and> (\<exists>u. miniports s lu = Some \<lparr>p_number = n, p_union = u\<rparr>) \<and>
     (\<exists>k. miniports s lb = Some \<lparr>p_number = k, p_union = Bound ra rp\<rparr>)"

text \<open>The host keeps its name and what it can send with.\<close>

definition same_host :: "'z socks_scheme \<Rightarrow> 'z socks_scheme \<Rightarrow> bool" where
  "same_host s s' \<longleftrightarrow> local_host s' = local_host s \<and> my_udp_port s' = my_udp_port s \<and> other_udp_port s' = other_udp_port s \<and>
     synthetic_network s' = synthetic_network s \<and> (\<forall>lu lb n ra rp. outlet lu lb n ra rp s \<longrightarrow> outlet lu lb n ra rp s')"

lemma boxesD: "boxes M Q R s \<Longrightarrow> M i = Some ms \<Longrightarrow> box (unbound_ports s i) i (Q i) (R i) ms s"
  by (simp add: boxes_def)

lemma mailbox_port:
  assumes "mailboxes M s" "M i = Some ms"
  shows "unbound_ports s i \<noteq> NULL" "\<exists>u. miniports s (unbound_ports s i) = Some \<lparr>p_number = i, p_union = u\<rparr>"
proof -
  obtain Q R where "boxes M Q R s" using assms(1) by (auto simp: mailboxes_def)
  from boxesD [OF this assms(2)] show "unbound_ports s i \<noteq> NULL" "\<exists>u. miniports s (unbound_ports s i) = Some \<lparr>p_number = i, p_union = u\<rparr>"
    by (auto simp: box_def)
qed

lemma same_host_refl [simp]: "same_host s s"
  by (simp add: same_host_def)

lemma same_host_trans [trans]: "same_host s t \<Longrightarrow> same_host t u \<Longrightarrow> same_host s u"
  by (simp add: same_host_def)

lemma same_host_simps [simp]: "same_host s (s\<lparr>wire := w\<rparr>)"
  by (simp add: same_host_def outlet_def)

lemma same_host_address: "same_host s t \<Longrightarrow> network_get_my_address e a t = network_get_my_address e a s"
  by (simp add: same_host_def network_get_my_address_def network_translate_hostname_def cong: option.case_cong)

lemma mailboxes_wire [simp]: "mailboxes M (s\<lparr>wire := w\<rparr>) = mailboxes M s"
  by (simp add: mailboxes_def boxes_def box_def)

text \<open>
  When only the port \<open>i\<close> gets new content, and the others keep what they have, the machine has the changed mailboxes.
\<close>

lemma mailboxes_update:
  assumes "mailboxes M s" "M i = Some ms0" "boxes M Q R s" "R i = r"
    and new: "box (unbound_ports s i) i d r ms s'" "set (oq_items d) \<subseteq> insert a (set (oq_items (Q i)))"
      "\<And>j. j \<noteq> i \<Longrightarrow> M j \<noteq> None \<Longrightarrow> a \<notin> set (oq_items (Q j))"
    and same: "unbound_ports s' = unbound_ports s" "msg_mutex s' = msg_mutex s" "sem_brk s' = sem_brk s" "port_brk s \<le> port_brk s'"
      "nPorts s \<le> nPorts s'" "\<And>x. x \<noteq> r \<Longrightarrow> counts s' x = counts s x" "\<And>q. miniports s' q \<noteq> None \<Longrightarrow> q < port_brk s'"
      "\<And>q. q < port_brk s \<Longrightarrow> q \<noteq> unbound_ports s i \<Longrightarrow> miniports s' q = miniports s q"
      "\<And>x. x \<noteq> a \<Longrightarrow> x \<notin> set (oq_items (Q i)) \<Longrightarrow> packets s' x = packets s x"
  shows "mailboxes (M(i \<mapsto> ms)) s'"
proof -
  have b: "box (unbound_ports s i) i (Q i) r ms0 s" using boxesD [OF assms(3,2)] assms(4) by simp
  have apart: "R x \<noteq> R y \<and> set (oq_items (Q x)) \<inter> set (oq_items (Q y)) = {}" if "M x \<noteq> None" "M y \<noteq> None" "x \<noteq> y" for x y
    using assms(3) that by (simp add: boxes_def)
  have m: "r \<noteq> msg_mutex s" using b by (simp add: box_def)
  have other: "box (unbound_ports s' j) j (Q j) (R j) ns s'" if j: "j \<noteq> i" "M j = Some ns" for j ns
  proof -
    have bj: "box (unbound_ports s j) j (Q j) (R j) ns s" by (rule boxesD [OF assms(3) j(2)])
    have "unbound_ports s j \<noteq> unbound_ports s i" using b bj j(1) by (auto simp: box_def)
    moreover have dj: "R j \<noteq> r" "set (oq_items (Q j)) \<inter> set (oq_items (Q i)) = {}" using apart [of j i] j assms(2,4) by auto
    moreover have "list_all2 (carries (packets s')) (oq_items (Q j)) ns"
    proof (rule list.rel_mono_strong)
      show "list_all2 (carries (packets s)) (oq_items (Q j)) ns" using bj by (simp add: box_def)
      fix x y assume "x \<in> set (oq_items (Q j))" "carries (packets s) x y"
      moreover from this(1) have "packets s' x = packets s x" using new(3) [OF j(1)] j(2) dj(2) by (intro same(9)) auto
      ultimately show "carries (packets s') x y" by (cases y) simp
    qed
    ultimately show ?thesis using bj same(1-4) same(6) [of "R j"] same(8) [of "unbound_ports s j"] by (simp add: box_def)
  qed
  have "boxes (M(i \<mapsto> ms)) (Q(i := d)) R s'" unfolding boxes_def
  proof (intro conjI allI impI)
    show "box (unbound_ports s' j) j ((Q(i := d)) j) (R j) ns s'" if "(M(i \<mapsto> ms)) j = Some ns" for j ns
      using other that new(1) assms(4) same(1) by (auto split: if_splits)
  next
    fix x y assume xy: "(M(i \<mapsto> ms)) x \<noteq> None" "(M(i \<mapsto> ms)) y \<noteq> None" "x \<noteq> y"
    then have "M x \<noteq> None" "M y \<noteq> None" using assms(2) by (auto split: if_splits)
    with apart [OF this xy(3)] new(2) new(3) [of x] new(3) [of y] xy(3)
    show "R x \<noteq> R y" "set (oq_items ((Q(i := d)) x)) \<inter> set (oq_items ((Q(i := d)) y)) = {}" by auto
  qed
  moreover have "\<exists>n>0. counts s' (msg_mutex s') = Some n" using assms(1) same(2,6) m by (simp add: mailboxes_def)
  ultimately show ?thesis using assms(1) same(2-5,7) by (auto simp: mailboxes_def simp del: fun_upd_apply)
qed

section \<open>Sending and arrival\<close>

lemma send_mail:
  assumes "outlet lu lb n ra rp s" "\<not> synthetic_network s" "0 \<le> len" "len \<le> 4096" "len \<le> int (length b)" "length j = mini_header_size"
    "h = minimsg_header j (network_get_my_address env (0, 0) s) n ra rp"
  obtains r where "minimsg_send env lost dup j lu lb (Some b) len s =
    Inr (r, s\<lparr>wire := wire s @ [(network_address_to_sockaddr ra, h @ take (nat len) b)]\<rparr>)"
proof -
  obtain u k where o: "lu \<noteq> NULL" "lb \<noteq> NULL" "miniports s lu = Some \<lparr>p_number = n, p_union = u\<rparr>"
    "miniports s lb = Some \<lparr>p_number = k, p_union = Bound ra rp\<rparr>" using assms(1) by (auto simp: outlet_def)
  show thesis
    by (rule that, rule minimsg_send_wire [OF o(3,4) _ o(1,2) assms(3,4,5,6,2) _ refl]) (simp_all add: assms(7))
qed

text \<open>A datagram on the wire of \<open>c\<close> reaches the port \<open>i\<close> of \<open>s\<close>; the two may be the same machine.\<close>

lemma deliver_mail:
  assumes M: "mailboxes M s" "M i = Some ms" and a: "a \<noteq> NULL" "packets s a = None"
    and w: "last (wire c) = (network_address_to_sockaddr (local_host s), h @ m)" "h = minimsg_header j la lp ra i" "length j = mini_header_size"
      "m \<noteq> []" "length m \<le> 4096" "0 \<le> lp" "lp \<le> 32767"
  obtains s' where "deliver env a junk c s = Inr s'" "mailboxes (M(i \<mapsto> ms @ [(m, la, lp)])) s'" "same_host s s'" "wire s' = wire s"
    "nPorts s' = nPorts s" "unbound_ports s' = unbound_ports s" "\<And>x. x \<noteq> a \<Longrightarrow> packets s' x = packets s x"
proof -
  obtain Q R where q: "boxes M Q R s" using M(1) by (auto simp: mailboxes_def)
  define d where "d = Q i"
  define r where "r = R i"
  have b: "box (unbound_ports s i) i d r ms s" using boxesD [OF q M(2)] by (simp add: d_def r_def)
  define p where "p = unbound_ports s i"
  define pk where "pk = \<lparr>pk_sender = sockaddr_to_network_address (network_address_to_sockaddr (local_host c)), buffer = h @ m @ junk,
    size = int (length (h @ m))\<rparr>"
  define t where "t = s\<lparr>packets := (packets s)(a \<mapsto> pk), interrupt_level := DISABLED\<rparr>"
  have bp: "0 \<le> i" "i \<le> 32767" "p \<noteq> NULL" "p < port_brk s" "miniports s p = Some \<lparr>p_number = i, p_union = Unbound d r\<rparr>" "oq_inv d"
    "distinct (oq_items d)" "list_all2 (carries (packets s)) (oq_items d) ms" "r \<noteq> NULL" "r < sem_brk s" "r \<noteq> msg_mutex s"
    "counts s r = Some (int (length ms))" using b by (simp_all add: box_def p_def)
  have hl: "length h = mini_header_size" "h ! off_protocol = digit PROTOCOL_MINIDATAGRAM" using minimsg_header_fields(1,2) [OF w(3,2)] .
  have "m = take (nat (int (length m))) m" by simp
  with datagram_payload(1,3,4,5) [OF w(3,2), where w = "h @ m" and len = "int (length m)" and m = m and pad = junk] w(6,7) bp(1,2)
  have pay: "drop mini_header_size (h @ m @ junk) = m @ junk" "unpack_address (h @ m @ junk) off_source_address = la"
    "uint (unpack_unsigned_short (h @ m @ junk) off_source_port) = lp" "uint (unpack_unsigned_short (h @ m @ junk) off_destination_port) = i"
    by simp_all
  obtain d' where d': "queue_append d a = Inr (0, d')" "oq_inv d'" "oq_items d' = oq_items d @ [a]" using bp(6) by (rule lq.app_returns)
  define u where "u = t\<lparr>miniports := (miniports t)(p \<mapsto> \<lparr>p_number = i, p_union = Unbound d' r\<rparr>)\<rparr>"
  have "counts u r = Some (int (length ms))" using bp(12) by (simp add: u_def t_def counts_def)
  from V_up [OF bp(9) this] obtain x where x: "semaphore_V r u = Inr (u\<lparr>sems := x\<rparr>)" "map_option s_count \<circ> x = (counts u)(r \<mapsto> int (length ms) + 1)"
    by auto
  have cu: "counts u = counts s" by (simp add: u_def t_def counts_def fun_eq_iff)
  have sz: "\<not> size pk \<le> int mini_header_size" "\<not> size pk > 8192" "\<not> size pk < int mini_header_size" "0 < size pk"
    using w(4,5) hl(1) by (auto simp: pk_def mini_header_size_def)
  have "unbound_ports t i = p" "miniports t p = Some \<lparr>p_number = i, p_union = Unbound d r\<rparr>" "packets t a = Some pk"
    using bp(5) by (simp_all add: t_def p_def)
  then have h: "handle_udp_packet a t = Inr (u\<lparr>sems := x\<rparr>)" unfolding handle_udp_packet_def
    using a(1) bp(1-3) sz(1,2) pay(4) d'(1) x(1)
    by (simp add: deref_Some port_get_def minimsg_get_data_queue_def minimsg_get_semaphore_def u_def pk_def)
  define s' where "s' = u\<lparr>sems := x, interrupt_level := interrupt_level s\<rparr>"
  have s': "s' = s\<lparr>packets := (packets s)(a \<mapsto> pk), miniports := (miniports s)(p \<mapsto> \<lparr>p_number = i, p_union = Unbound d' r\<rparr>), sems := x\<rparr>"
    by (simp add: s'_def u_def t_def)
  have pr: "buffer pk ! off_protocol = digit PROTOCOL_MINIDATAGRAM" using hl by (simp add: pk_def nth_append off_protocol_def mini_header_size_def)
  have "set_interrupt_level DISABLED (s\<lparr>packets := (packets s)(a \<mapsto> pk)\<rparr>) = (interrupt_level s, t)" by (simp add: set_interrupt_level_def t_def)
  then have "network_handler env a (s\<lparr>packets := (packets s)(a \<mapsto> pk)\<rparr>) = Inr s'"
    unfolding network_handler_def using a(1) pr sz(3) h by (simp add: deref_Some t_def set_interrupt_level_def s'_def)
  then have run: "deliver env a junk c s = Inr s'" using a(1) w(1,4) by (simp add: deliver_def network_poll_def pk_def)
  have cs: "counts s' = (counts s)(r \<mapsto> int (length ms) + 1)" using x(2) cu by (simp add: s' counts_def)
  have fresh: "a \<notin> set (oq_items (Q k))" if nk: "M k \<noteq> None" for k
  proof -
    obtain ns where "M k = Some ns" using nk by blast
    from boxesD [OF q this] have "list_all2 (carries (packets s)) (oq_items (Q k)) ns" unfolding box_def by blast
    from carries_allocated [OF this, of a] a(2) show ?thesis by blast
  qed
  have da: "a \<notin> set (oq_items d)" using fresh [of i] M(2) by (simp add: d_def)
  have old: "list_all2 (carries (packets s')) (oq_items d) ms"
  proof (rule list.rel_mono_strong [OF bp(8)])
    fix y z assume "y \<in> set (oq_items d)" "carries (packets s) y z"
    then show "carries (packets s') y z" using da by (cases z) (auto simp: s')
  qed
  have "carries (packets s') a (m, la, lp)" using a(1) w(4,7) hl(1) pay by (simp add: s' pk_def)
  then have "list_all2 (carries (packets s')) (oq_items d') (ms @ [(m, la, lp)])" unfolding d'(3) by (intro list_all2_appendI old) simp
  then have nb: "box p i d' r (ms @ [(m, la, lp)]) s'" using bp(1-4,7,9-11) d' da cs by (simp add: box_def s')
  have brk: "\<forall>q. miniports s q \<noteq> None \<longrightarrow> q < port_brk s" using M(1) by (simp add: mailboxes_def)
  have dom: "miniports s' q \<noteq> None \<Longrightarrow> q < port_brk s'" for q
    using brk bp(4) by (auto simp: s' split: if_splits)
  have same: "unbound_ports s' = unbound_ports s" "msg_mutex s' = msg_mutex s" "sem_brk s' = sem_brk s" "port_brk s \<le> port_brk s'"
    "nPorts s \<le> nPorts s'" "\<And>x. x \<noteq> r \<Longrightarrow> counts s' x = counts s x"
    "\<And>q. q < port_brk s \<Longrightarrow> q \<noteq> unbound_ports s i \<Longrightarrow> miniports s' q = miniports s q" "\<And>x. x \<noteq> a \<Longrightarrow> packets s' x = packets s x"
    using cs by (simp_all add: s' flip: p_def)
  have "mailboxes (M(i \<mapsto> ms @ [(m, la, lp)])) s'"
    by (rule mailboxes_update [OF M q _ nb [unfolded p_def] _ _ same(1-6) dom same(7,8)])
      (use d'(3) fresh in \<open>auto simp: r_def d_def\<close>)
  moreover have "same_host s s'" using bp(5) by (auto simp: same_host_def outlet_def s')
  ultimately show thesis by (intro that [OF run]) (simp_all add: s')
qed

section \<open>Receiving\<close>

lemma carriesE:
  assumes "carries P a (m, la, lp)"
  obtains pk where "a \<noteq> NULL" "m \<noteq> []" "lp \<le> 32767" "P a = Some pk" "size pk = int mini_header_size + int (length m)"
    "size pk \<le> int (length (buffer pk))" "take (length m) (drop mini_header_size (buffer pk)) = m"
    "unpack_address (buffer pk) off_source_address = la" "lp = uint (unpack_unsigned_short (buffer pk) off_source_port)"
  using assms by auto

text \<open>
  The receiver gets the message that has waited longest, and a port for the reply. That message fits into the buffer.
\<close>

lemma receive_mail:
  assumes M: "mailboxes M s" "M i = Some ((m, la, lp) # ms)" and fits: "length m \<le> length b" "int (length m) \<le> len" and n: "nPorts s < 32767"
  obtains s' a where "minimsg_receive True (unbound_ports s i) (Some b) (Some len) s =
      Inr (Completed (int (length m), Some (port_brk s), m @ drop (length m) b, int (length m)), s')" "mailboxes (M(i \<mapsto> ms)) s'"
    "same_host s s'" "wire s' = wire s" "nPorts s' = nPorts s + 1" "outlet (unbound_ports s i) (port_brk s) i la lp s'"
    "port_brk s' = Suc (port_brk s)" "unbound_ports s' = unbound_ports s" "packets s' = (packets s)(a := None)"
    "miniports s' (port_brk s) = Some \<lparr>p_number = nPorts s + MIN_BOUND_PORT, p_union = Bound la lp\<rparr>"
proof -
  obtain Q R where q: "boxes M Q R s" using M(1) by (auto simp: mailboxes_def)
  define d where "d = Q i"
  define r where "r = R i"
  define p where "p = unbound_ports s i"
  have "box p i d r ((m, la, lp) # ms) s" using boxesD [OF q M(2)] by (simp add: d_def r_def p_def)
  then have bp: "0 \<le> i" "i \<le> 32767" "p \<noteq> NULL" "p < port_brk s" "miniports s p = Some \<lparr>p_number = i, p_union = Unbound d r\<rparr>" "oq_inv d"
    "distinct (oq_items d)" "list_all2 (carries (packets s)) (oq_items d) ((m, la, lp) # ms)" "r \<noteq> NULL" "r < sem_brk s" "r \<noteq> msg_mutex s"
    "counts s r = Some (int (length ms) + 1)" by (simp_all add: box_def)
  obtain a as where d: "oq_items d = a # as" "carries (packets s) a (m, la, lp)" "list_all2 (carries (packets s)) as ms"
    using bp(8) by (auto simp: list_all2_Cons2)
  obtain pk where pk: "a \<noteq> NULL" "m \<noteq> []" "lp \<le> 32767" "packets s a = Some pk" "size pk = int mini_header_size + int (length m)"
    "size pk \<le> int (length (buffer pk))" "take (length m) (drop mini_header_size (buffer pk)) = m"
    "unpack_address (buffer pk) off_source_address = la" "lp = uint (unpack_unsigned_short (buffer pk) off_source_port)"
    by (rule carriesE [OF d(2)])
  have "0 < int (length ms) + 1" by simp
  from P_down [OF bp(9,12) this] obtain x where x: "semaphore_P r s = Inr (Returned, s\<lparr>sems := x\<rparr>)"
    "map_option s_count \<circ> x = (counts s)(r \<mapsto> int (length ms) + 1 - 1)" .
  define t where "t = s\<lparr>sems := x\<rparr>"
  have ct: "counts t = (counts s)(r \<mapsto> int (length ms))" using x(2) by (simp add: t_def)
  obtain c where c: "0 < c" "counts s (msg_mutex s) = Some c" "msg_mutex s \<noteq> NULL" "0 \<le> nPorts s" using M(1) by (auto simp: mailboxes_def)
  then have "counts t (msg_mutex s) = Some c" using ct bp(11) by simp
  then obtain sem where sem: "sems t (msg_mutex t) = Some sem" "0 < s_count sem" using c(1) by (auto simp: counts_def t_def)
  have k: "length m = min (nat (int (length m))) (nat len)" using fits(2) by simp
  have lp: "lp \<le> MAX_UNBOUND_PORT" "nPorts t < MAX_PORTS - 1" "0 < int (length m)" "int (length m) = int (length m)"
    using pk(2,3) n by (simp_all add: t_def)
  have tf: "miniports t p = Some \<lparr>p_number = i, p_union = Unbound d r\<rparr>" "packets t a = Some pk" "msg_mutex t \<noteq> NULL" "0 \<le> nPorts t"
    using bp(5) pk(4) c(3,4) by (simp_all add: t_def)
  obtain d' where d': "oq_inv d'" "oq_items d' = as"
    "minimsg_receive_resumed True p b len t = Inr (Completed (int (length m), Some (port_brk t),
        take (length m) (drop mini_header_size (buffer pk)) @ drop (length m) b, int (length m)),
      t\<lparr>bound_ports_free := (bound_ports_free t)(nPorts t := False), nPorts := nPorts t + 1,
        miniports := (miniports t)(p \<mapsto> \<lparr>p_number = i, p_union = Unbound d r\<rparr>\<lparr>p_union := Unbound d' r\<rparr>, port_brk t \<mapsto>
          \<lparr>p_number = nPorts t + MIN_BOUND_PORT, p_union = Bound (unpack_address (buffer pk) off_source_address) lp\<rparr>),
        port_brk := Suc (port_brk t), packets := (packets t)(a := None)\<rparr>)"
    by (rule minimsg_receive_exact [OF tf(1) bp(3) _ bp(6) d(1) pk(1) tf(2) pk(5) lp(3) pk(6,9) lp(1) tf(3) sem tf(4) lp(2) k fits(1)]) auto
  define s' where "s' = t\<lparr>bound_ports_free := (bound_ports_free t)(nPorts t := False), nPorts := nPorts t + 1,
        miniports := (miniports t)(p \<mapsto> \<lparr>p_number = i, p_union = Unbound d' r\<rparr>, port_brk t \<mapsto>
          \<lparr>p_number = nPorts t + MIN_BOUND_PORT, p_union = Bound la lp\<rparr>),
        port_brk := Suc (port_brk t), packets := (packets t)(a := None)\<rparr>"
  have rc: "minimsg_receive_resumed True p b len t = Inr (Completed (int (length m), Some (port_brk s), m @ drop (length m) b, int (length m)), s')"
    using d'(3) pk(7,8) by (simp add: s'_def t_def)
  have run: "minimsg_receive True p (Some b) (Some len) s =
      Inr (Completed (int (length m), Some (port_brk s), m @ drop (length m) b, int (length m)), s')"
    using bp(3,5) x(1) rc by (simp add: minimsg_receive_def deref_Some P_call_def t_def)
  have cs: "counts s' = counts t" by (simp add: s'_def counts_def)
  have as: "a \<notin> set as" "distinct as" using bp(7) d(1) by auto
  have "list_all2 (carries (packets s')) as ms"
  proof (rule list.rel_mono_strong [OF d(3)])
    fix y z assume "y \<in> set as" "carries (packets s) y z"
    then show "carries (packets s') y z" using as(1) by (cases z) (auto simp: s'_def t_def)
  qed
  then have nb: "box (unbound_ports s i) i d' r ms s'" using bp d' as(2) cs ct
    by (simp add: box_def s'_def t_def flip: p_def)
  have fresh: "a \<notin> set (oq_items (Q k))" if "M k \<noteq> None" "k \<noteq> i" for k
  proof -
    have "set (oq_items (Q k)) \<inter> set (oq_items (Q i)) = {}" using q that M(2) by (simp add: boxes_def)
    then show ?thesis using d(1) by (auto simp: d_def)
  qed
  have brk: "\<forall>q. miniports s q \<noteq> None \<longrightarrow> q < port_brk s" using M(1) by (simp add: mailboxes_def)
  have dom: "miniports s' q \<noteq> None \<Longrightarrow> q < port_brk s'" for q
    using brk bp(4) by (auto simp: s'_def t_def less_Suc_eq split: if_splits)
  have same: "unbound_ports s' = unbound_ports s" "msg_mutex s' = msg_mutex s" "sem_brk s' = sem_brk s" "port_brk s \<le> port_brk s'"
    "nPorts s \<le> nPorts s'" "\<And>x. x \<noteq> r \<Longrightarrow> counts s' x = counts s x"
    "\<And>q. q < port_brk s \<Longrightarrow> q \<noteq> unbound_ports s i \<Longrightarrow> miniports s' q = miniports s q" "\<And>x. x \<noteq> a \<Longrightarrow> packets s' x = packets s x"
    using cs ct by (simp_all add: s'_def t_def flip: p_def)
  have "mailboxes (M(i \<mapsto> ms)) s'"
    by (rule mailboxes_update [OF M q _ nb _ _ same(1-6) dom same(7,8)]) (use d(1) d'(2) fresh in \<open>auto simp: r_def d_def\<close>)
  moreover have "same_host s s'"
  proof -
    have keep: "miniports s' q = (if q = p then Some \<lparr>p_number = i, p_union = Unbound d' r\<rparr> else miniports s q)" if "miniports s q \<noteq> None" for q
      using brk that bp(4) by (auto simp: s'_def t_def)
    have "outlet lu lb n ra rp s'" if o: "outlet lu lb n ra rp s" for lu lb n ra rp
      using o keep [of lu] keep [of lb] bp(5) by (auto simp: outlet_def)
    then show ?thesis by (simp add: same_host_def s'_def t_def)
  qed
  moreover have "outlet p (port_brk s) i la lp s'"
    using bp(3,4) M(1) by (simp add: outlet_def s'_def t_def mailboxes_def)
  ultimately show thesis by (intro that [OF run [unfolded p_def], of a]) (simp_all add: s'_def t_def p_def)
qed

section \<open>Making and destroying ports\<close>

text \<open>A change that touches no unbound port and no packet.\<close>

lemma mailboxes_keep:
  assumes "mailboxes M s" "unbound_ports s' = unbound_ports s" "msg_mutex s' = msg_mutex s" "sem_brk s' = sem_brk s"
    "port_brk s \<le> port_brk s'" "0 \<le> nPorts s'" "counts s' = counts s" "packets s' = packets s"
    "\<And>q. miniports s' q \<noteq> None \<Longrightarrow> q < port_brk s'"
    "\<And>q k d r. miniports s q = Some \<lparr>p_number = k, p_union = Unbound d r\<rparr> \<Longrightarrow> miniports s' q = miniports s q"
  shows "mailboxes M s'"
proof -
  obtain Q R where q: "boxes M Q R s" using assms(1) by (auto simp: mailboxes_def)
  have "box (unbound_ports s' i) i (Q i) (R i) ms s'" if "M i = Some ms" for i ms
    using boxesD [OF q that] assms(2-5,7,8) assms(10) [of "unbound_ports s i"] by (simp add: box_def)
  then have "boxes M Q R s'" using q by (simp add: boxes_def)
  then show ?thesis using assms by (auto simp: mailboxes_def)
qed

text \<open>A port that was made after the state \<open>s0\<close> is given back.\<close>

lemma destroy_mail:
  assumes M: "mailboxes M s" and q: "miniports s q = Some \<lparr>p_number = num, p_union = Bound la lp\<rparr>" "q \<noteq> NULL" "32768 \<le> num" "num < 65536"
  obtains s' where "miniport_destroy q s = Inr (Completed (), s')" "mailboxes M s'" "wire s' = wire s" "nPorts s' = nPorts s"
    "port_brk s' = port_brk s" "unbound_ports s' = unbound_ports s" "packets s' = packets s"
    "\<And>M0 s0. mailboxes M0 s0 \<Longrightarrow> same_host s0 s \<Longrightarrow> port_brk s0 \<le> q \<Longrightarrow> same_host s0 s'"
proof -
  obtain n where n: "0 < n" "counts s (msg_mutex s) = Some n" and x: "msg_mutex s \<noteq> NULL" using M by (auto simp: mailboxes_def)
  then obtain sem where sem: "sems s (msg_mutex s) = Some sem" "0 < s_count sem" by (auto simp: counts_def)
  define s' where "s' = s\<lparr>bound_ports_free := (bound_ports_free s)(num - MIN_BOUND_PORT := True), miniports := (miniports s)(q := None)\<rparr>"
  have idem: "(sems s)(msg_mutex s \<mapsto> sem) = sems s" using sem(1) by (simp add: fun_upd_idem)
  have "miniport_destroy q s = Inr (Completed (), s\<lparr>bound_ports_free := (bound_ports_free s)(num - MIN_BOUND_PORT := True),
      sems := (sems s)(msg_mutex s \<mapsto> sem), miniports := (miniports s)(q := None)\<rparr>)"
    using q x sem by (simp add: miniport_destroy_def miniport_destroy_resumed_def P_call_passes semaphore_V_passes port_set_def deref_Some)
  then have run: "miniport_destroy q s = Inr (Completed (), s')" unfolding idem by (simp add: s'_def)
  have "mailboxes M s'"
    by (rule mailboxes_keep [OF M]) (use M q(1) in \<open>auto simp: s'_def counts_def mailboxes_def split: if_splits\<close>)
  moreover have "same_host s0 s'" if "mailboxes M0 s0" "same_host s0 s" "port_brk s0 \<le> q" for M0 s0
  proof -
    have "outlet lu lb n ra rp s'" if o: "outlet lu lb n ra rp s0" for lu lb n ra rp
    proof -
      have "lu < port_brk s0" "lb < port_brk s0" using o \<open>mailboxes M0 s0\<close> by (auto simp: outlet_def mailboxes_def)
      moreover have "outlet lu lb n ra rp s" using o \<open>same_host s0 s\<close> unfolding same_host_def by blast
      ultimately show ?thesis using \<open>port_brk s0 \<le> q\<close> by (auto simp: outlet_def s'_def)
    qed
    then show ?thesis using that(2) by (simp add: same_host_def s'_def)
  qed
  ultimately show thesis by (intro that [OF run]) (simp_all add: s'_def)
qed

text \<open>A new unbound port has an empty mailbox.\<close>

lemma open_mailbox:
  assumes M: "mailboxes M s" "M i = None" and i: "0 \<le> i" "i \<le> 32767" "unbound_ports s i = NULL"
  obtains s' where "miniport_create_unbound j True i s = Inr (port_brk s, s')" "mailboxes (M(i \<mapsto> [])) s'" "same_host s s'" "wire s' = wire s"
    "nPorts s' = nPorts s" "port_brk s' = Suc (port_brk s)" "unbound_ports s' = (unbound_ports s)(i := port_brk s)" "packets s' = packets s"
    "\<exists>u. miniports s' (port_brk s) = Some \<lparr>p_number = i, p_union = u\<rparr>"
proof -
  let ?p = "port_brk s" and ?r = "sem_brk s"
  define s' where "s' = s\<lparr>unbound_ports := (unbound_ports s)(i := ?p), port_brk := Suc ?p, sem_brk := Suc ?r,
    sems := (sems s)(?r \<mapsto> \<lparr>s_count = 0, wait_list = Some queue_new\<rparr>),
    miniports := (miniports s)(?p \<mapsto> \<lparr>p_number = i, p_union = Unbound (Some queue_new) ?r\<rparr>)\<rparr>"
  have r: "?r \<noteq> NULL" "?p \<noteq> NULL" "msg_mutex s < ?r" using M(1) by (auto simp: mailboxes_def)
  have run: "miniport_create_unbound j True i s = Inr (?p, s')"
    using i r(1) by (simp add: miniport_create_unbound_def port_get_def port_set_def set_interrupt_level_def semaphore_create_def
        semaphore_initialize_def Let_def deref_Some s'_def)
  obtain Q R where q: "boxes M Q R s" using M(1) by (auto simp: mailboxes_def)
  have cs: "counts s' = (counts s)(?r \<mapsto> 0)" by (simp add: s'_def counts_def fun_eq_iff)
  have pk: "packets s' = packets s" by (simp add: s'_def)
  have "boxes (M(i \<mapsto> [])) (Q(i := Some queue_new)) (R(i := ?r)) s'" unfolding boxes_def
  proof (intro conjI allI impI)
    fix k ms assume k: "(M(i \<mapsto> [])) k = Some ms"
    show "box (unbound_ports s' k) k ((Q(i := Some queue_new)) k) ((R(i := ?r)) k) ms s'"
    proof (cases "k = i")
      case True
      then show ?thesis using k i(1,2) r cs by (simp add: box_def s'_def)
    next
      case False
      then have b: "box (unbound_ports s k) k (Q k) (R k) ms s" using k boxesD [OF q] by simp
      then have "R k \<noteq> ?r" "unbound_ports s k \<noteq> ?p" by (auto simp: box_def)
      then show ?thesis using b False cs pk by (simp add: box_def s'_def)
    qed
  next
    fix x y assume xy: "(M(i \<mapsto> [])) x \<noteq> None" "(M(i \<mapsto> [])) y \<noteq> None" "x \<noteq> y"
    have rz: "R z \<noteq> ?r" if mz: "M z \<noteq> None" for z
    proof -
      obtain ms where "M z = Some ms" using mz by blast
      from boxesD [OF q this] show ?thesis by (auto simp: box_def)
    qed
    have mx: "x \<noteq> i \<Longrightarrow> M x \<noteq> None" "y \<noteq> i \<Longrightarrow> M y \<noteq> None" using xy(1,2) by simp_all
    have "x \<noteq> i \<Longrightarrow> y \<noteq> i \<Longrightarrow> R x \<noteq> R y \<and> set (oq_items (Q x)) \<inter> set (oq_items (Q y)) = {}"
      using q mx xy(3) unfolding boxes_def by blast
    then show "(R(i := ?r)) x \<noteq> (R(i := ?r)) y" "set (oq_items ((Q(i := Some queue_new)) x)) \<inter> set (oq_items ((Q(i := Some queue_new)) y)) = {}"
      using xy(3) rz [OF mx(1)] rz [OF mx(2), symmetric] by (cases "x = i"; cases "y = i"; simp)+
  qed
  then have "mailboxes (M(i \<mapsto> [])) s'" using M(1) cs r by (auto simp: mailboxes_def s'_def less_Suc_eq)
  moreover have "same_host s s'"
  proof -
    have "miniports s ?p = None" using M(1) by (auto simp: mailboxes_def)
    then show ?thesis by (auto simp: same_host_def outlet_def s'_def)
  qed
  ultimately show thesis by (intro that [OF run]) (simp_all add: s'_def)
qed

text \<open>A new bound port is the other half of an outlet.\<close>

lemma open_outlet:
  assumes M: "mailboxes M s" and n: "nPorts s < 32767" "0 \<le> rp" "rp \<le> 32767"
  obtains s' where "miniport_create_bound True (Some ra) rp s = Inr (Completed (port_brk s), s')" "mailboxes M s'" "same_host s s'"
    "wire s' = wire s" "nPorts s' = nPorts s + 1" "port_brk s' = Suc (port_brk s)" "unbound_ports s' = unbound_ports s" "packets s' = packets s"
    "\<And>lu k u. miniports s lu = Some \<lparr>p_number = k, p_union = u\<rparr> \<Longrightarrow> lu \<noteq> NULL \<Longrightarrow> outlet lu (port_brk s) k ra rp s'"
proof -
  obtain c where c: "0 < c" "counts s (msg_mutex s) = Some c" and x: "msg_mutex s \<noteq> NULL" "0 \<le> nPorts s" "port_brk s \<noteq> NULL"
    using M by (auto simp: mailboxes_def)
  then obtain sem where sem: "sems s (msg_mutex s) = Some sem" "0 < s_count sem" by (auto simp: counts_def)
  have f: "miniports s (port_brk s) = None" using M by (auto simp: mailboxes_def)
  define s' where "s' = s\<lparr>bound_ports_free := (bound_ports_free s)(nPorts s := False), nPorts := nPorts s + 1,
      miniports := (miniports s)(port_brk s \<mapsto> \<lparr>p_number = nPorts s + MIN_BOUND_PORT, p_union = Bound ra rp\<rparr>),
      port_brk := Suc (port_brk s)\<rparr>"
  have run: "miniport_create_bound True (Some ra) rp s = Inr (Completed (port_brk s), s')" unfolding s'_def
    by (rule create_bound_ok [OF n(2) _ x(1) sem x(2)]) (use n in simp_all)
  have "mailboxes M s'"
    by (rule mailboxes_keep [OF M]) (use M x(2) f in \<open>auto simp: s'_def counts_def mailboxes_def less_Suc_eq split: if_splits\<close>)
  moreover have "same_host s s'" using f by (auto simp: same_host_def outlet_def s'_def)
  ultimately show thesis by (intro that [OF run]) (use x(3) f in \<open>auto simp: s'_def outlet_def\<close>)
qed

text \<open>A machine after \<open>minimsg_initialize\<close>, before any port is made.\<close>

definition no_mail :: "'z socks_scheme \<Rightarrow> bool" where
  "no_mail s \<longleftrightarrow> mailboxes (\<lambda>i. None) s \<and> unbound_ports s = (\<lambda>i. NULL) \<and> \<not> synthetic_network s \<and> nPorts s = 0"

lemma initialized_no_mail:
  assumes "minimsg_initialize j s = Inr s'" "0 < sem_brk s" "miniports s = (\<lambda>q. None)" "port_brk s \<noteq> NULL" "\<not> synthetic_network s"
  shows "no_mail s'"
  using assms
  by (auto simp: minimsg_initialize_def semaphore_create_def semaphore_initialize_def deref_Some no_mail_def mailboxes_def boxes_def counts_def)

end
