(* ===== verification/Network_Tests.thy ===== *)
theory Network_Tests
  imports Datagram Cstring
begin

text \<open>
  The programs \<^verbatim>\<open>network1.c\<close> to \<^verbatim>\<open>network6.c\<close> of \<^verbatim>\<open>src/P1-P4\<close>, which send lines of text in datagrams. A thread is its local
  variables, what it has printed, and its machine; threads on one machine share it. A thread is cut between two turns of its loop, at
  \<open>minithread_yield\<close>, and before a \<open>minimsg_receive\<close> in the middle of a turn. The theorems take the packets that arrive as they come.
\<close>

section \<open>Text in buffers\<close>

abbreviation (input) BUFFER_SIZE :: int where "BUFFER_SIZE \<equiv> 256"
abbreviation (input) MAX_COUNT :: int where "MAX_COUNT \<equiv> 100"
abbreviation (input) MAX_COUNT4 :: int where "MAX_COUNT4 \<equiv> 80"

definition bytes_of :: "string \<Rightarrow> byte list" where
  "bytes_of t = map of_char t"

text \<open>\<open>sprintf\<close> of a text into a buffer, \<open>strlen\<close> of a buffer, and what \<open>printf\<close> prints of it with \<open>%s\<close>.\<close>

definition sprintf_to :: "byte list \<Rightarrow> string \<Rightarrow> byte list res" where
  "sprintf_to b t = (if length t < length b then Inr (bytes_of t @ 0 # drop (Suc (length t)) b) else Inl Out_of_bounds)"

definition strlen :: "byte list \<Rightarrow> int res" where
  "strlen b = (if 0 \<in> set b then Inr (int (length (takeWhile (\<lambda>x. x \<noteq> 0) b))) else Inl Out_of_bounds)"

definition printed :: "byte list \<Rightarrow> string res" where
  "printed b = (if 0 \<in> set b then Inr (map (\<lambda>x. char_of (unat x)) (takeWhile (\<lambda>x. x \<noteq> 0) b)) else Inl Out_of_bounds)"

text \<open>A line with a number in it, as \<open>%d\<close> writes it.\<close>

definition line :: "string \<Rightarrow> nat \<Rightarrow> string" where
  "line t k = t @ decimal k @ ''.'' @ [CHR 0x0A]"

section \<open>What the programs share\<close>

text \<open>What the program does not determine: the name service, the simulated loss and the contents of fresh memory.\<close>

record testenv =
  te_net :: netenv
  te_lost :: bool
  te_dup :: bool
  te_header :: "byte list"
  te_sem :: semaphore

record 'm prog =
  pr_buffer :: "byte list"
  pr_from :: ptr
  pr_out :: string
  pr_machine :: 'm

text \<open>Print \<open>shown\<close>, write \<open>msg\<close> into the buffer, and send it with its terminating NUL.\<close>

definition send_text :: "testenv \<Rightarrow> ptr \<Rightarrow> ptr \<Rightarrow> string \<Rightarrow> string \<Rightarrow> ('z socks_scheme) prog \<Rightarrow> ('z socks_scheme) prog res" where
  "send_text e lu lb shown msg p =
     bindR (sprintf_to (pr_buffer p) msg) (\<lambda>b. bindR (strlen b) (\<lambda>n.
     bindR (minimsg_send (te_net e) (te_lost e) (te_dup e) (te_header e) lu lb (Some b) (n + 1) (pr_machine p)) (\<lambda>(r, s).
       Inr (p\<lparr>pr_buffer := b, pr_out := pr_out p @ shown, pr_machine := s\<rparr>))))"

text \<open>Receive into the buffer and print it; then destroy the port of the sender.\<close>

definition receive_text :: "ptr \<Rightarrow> ('z socks_scheme) prog \<Rightarrow> (unit outcome \<times> ('z socks_scheme) prog) res" where
  "receive_text port p =
     bindR (minimsg_receive True port (Some (pr_buffer p)) (Some BUFFER_SIZE) (pr_machine p)) (\<lambda>(c, s). case c of
       Suspended \<Rightarrow> Inr (Suspended, p\<lparr>pr_machine := s\<rparr>)
     | Completed (r, q, b, n) \<Rightarrow> bindR (printed b) (\<lambda>t. Inr (Completed (),
         p\<lparr>pr_buffer := b, pr_from := (case q of Some f \<Rightarrow> f | None \<Rightarrow> pr_from p), pr_out := pr_out p @ t, pr_machine := s\<rparr>)))"

definition destroy_from :: "('z socks_scheme) prog \<Rightarrow> (unit outcome \<times> ('z socks_scheme) prog) res" where
  "destroy_from p = bindR (miniport_destroy (pr_from p) (pr_machine p)) (\<lambda>(c, s). Inr (c, p\<lparr>pr_machine := s\<rparr>))"

definition receive_turn :: "ptr \<Rightarrow> ('z socks_scheme) prog \<Rightarrow> (unit outcome \<times> ('z socks_scheme) prog) res" where
  "receive_turn port p = and_then (receive_text port p) (\<lambda>_. destroy_from)"

text \<open>An unbound port, and a port bound to a host.\<close>

definition listen :: "testenv \<Rightarrow> int \<Rightarrow> ('z socks_scheme) prog \<Rightarrow> (ptr \<times> ('z socks_scheme) prog) res" where
  "listen e i p = bindR (miniport_create_unbound (te_sem e) True i (pr_machine p)) (\<lambda>(q, s). Inr (q, p\<lparr>pr_machine := s\<rparr>))"

definition bind_to :: "netaddr \<Rightarrow> int \<Rightarrow> ('z socks_scheme) prog \<Rightarrow> (ptr outcome \<times> ('z socks_scheme) prog) res" where
  "bind_to a i p = bindR (miniport_create_bound True (Some a) i (pr_machine p)) (\<lambda>(q, s). Inr (q, p\<lparr>pr_machine := s\<rparr>))"

definition own_address :: "testenv \<Rightarrow> ('z socks_scheme) prog \<Rightarrow> netaddr" where
  "own_address e p = network_get_my_address (te_net e) (0, 0) (pr_machine p)"

section \<open>One message, and a stream of messages, to oneself\<close>

definition text1 :: string where "text1 = ''Hello, world!'' @ [CHR 0x0A]"

text \<open>\<open>network1.c\<close>: the thread up to its call of \<open>minimsg_receive\<close>, and from there. \<open>main\<close> has set \<open>textlen\<close>.\<close>

definition net1_textlen :: int where "net1_textlen = int (length text1) + 1"

definition net1_thread :: "testenv \<Rightarrow> ('z socks_scheme) prog \<Rightarrow> (ptr outcome \<times> ('z socks_scheme) prog) res" where
  "net1_thread e p =
     (let my_address = own_address e p in
      bindR (listen e 0 p) (\<lambda>(listen_port, p1). and_then (bind_to my_address 0 p1) (\<lambda>send_port p2.
      bindR (minimsg_send (te_net e) (te_lost e) (te_dup e) (te_header e) listen_port send_port (Some (bytes_of text1 @ [0])) net1_textlen
        (pr_machine p2)) (\<lambda>(r, s). Inr (Completed listen_port, p2\<lparr>pr_machine := s\<rparr>)))))"

text \<open>\<open>main\<close> in \<open>network1.c\<close> to \<open>network4.c\<close>, before it starts the threads: \<open>argv[1]\<close> is NULL when there is no argument.\<close>

definition net1_main :: "string list \<Rightarrow> 'z socks_scheme \<Rightarrow> 'z socks_scheme res" where
  "net1_main argv s =
     (if length argv < 2 then Inl Null_deref
      else let fromport = of_int (atoi (argv ! 1)) in Inr (network_udp_ports fromport fromport s))"

definition net1_receive :: "ptr \<Rightarrow> ('z socks_scheme) prog \<Rightarrow> (unit outcome \<times> ('z socks_scheme) prog) res" where
  "net1_receive listen_port p = receive_text listen_port p"

text \<open>\<open>network2.c\<close>: the ports of \<open>transmit\<close>, a turn of its loop, and a turn of the loop of \<open>receive\<close>; \<open>i\<close> is the loop variable.\<close>

definition net2_ports :: "testenv \<Rightarrow> ('z socks_scheme) prog \<Rightarrow> ((ptr \<times> ptr) outcome \<times> ('z socks_scheme) prog) res" where
  "net2_ports e p =
     (let my_address = own_address e p in
      bindR (listen e 0 p) (\<lambda>(port, p1). and_then (bind_to my_address 0 p1) (\<lambda>write_port p2. Inr (Completed (port, write_port), p2))))"

definition net2_transmit :: "testenv \<Rightarrow> ptr \<Rightarrow> ptr \<Rightarrow> nat \<Rightarrow> ('z socks_scheme) prog \<Rightarrow> ('z socks_scheme) prog res" where
  "net2_transmit e port write_port i p = send_text e port write_port (line ''Sending packet '' (i + 1)) (line ''Count is '' (i + 1)) p"

definition net2_receive :: "ptr \<Rightarrow> ('z socks_scheme) prog \<Rightarrow> (unit outcome \<times> ('z socks_scheme) prog) res" where
  "net2_receive port p = receive_turn port p"

definition net2_main :: "string list \<Rightarrow> 'z socks_scheme \<Rightarrow> 'z socks_scheme res" where
  "net2_main argv s = net1_main argv s"

section \<open>Two receivers, and two senders\<close>

text \<open>\<open>network3.c\<close>: a turn of \<open>transmit\<close> up to its yield, and from there. The lines for \<open>printf\<close> have the number in the middle.\<close>

definition line3 :: "string \<Rightarrow> nat \<Rightarrow> string \<Rightarrow> string" where
  "line3 t k u = t @ decimal k @ u @ ''.'' @ [CHR 0x0A]"

definition net3_ports :: "testenv \<Rightarrow> ('z socks_scheme) prog \<Rightarrow> ((ptr \<times> ptr \<times> ptr \<times> ptr) outcome \<times> ('z socks_scheme) prog) res" where
  "net3_ports e p =
     (let my_address = own_address e p in
      bindR (listen e 0 p) (\<lambda>(port1, p1). bindR (listen e 1 p1) (\<lambda>(port2, p2).
      and_then (bind_to my_address 0 p2) (\<lambda>write_port1 p3. and_then (bind_to my_address 1 p3) (\<lambda>write_port2 p4.
        Inr (Completed (port1, port2, write_port1, write_port2), p4))))))"

definition net3_transmit1 :: "testenv \<Rightarrow> ptr \<Rightarrow> ptr \<Rightarrow> nat \<Rightarrow> ('z socks_scheme) prog \<Rightarrow> ('z socks_scheme) prog res" where
  "net3_transmit1 e port1 write_port1 i p =
     send_text e port1 write_port1 (line3 ''Sending packet '' (i + 1) '' to receiver 1'') (line ''Count for receiver 1 is '' (i + 1)) p"

definition net3_transmit2 :: "testenv \<Rightarrow> ptr \<Rightarrow> ptr \<Rightarrow> nat \<Rightarrow> ('z socks_scheme) prog \<Rightarrow> ('z socks_scheme) prog res" where
  "net3_transmit2 e port2 write_port2 i p =
     send_text e port2 write_port2 (line3 ''Sending packet '' (i + 1) '' to receiver 2'') (line ''Count for receiver 2 is '' (i + 1)) p"

definition net3_receive1 :: "ptr \<Rightarrow> ('z socks_scheme) prog \<Rightarrow> (unit outcome \<times> ('z socks_scheme) prog) res" where
  "net3_receive1 port1 p = receive_turn port1 p"

definition net3_receive2 :: "ptr \<Rightarrow> ('z socks_scheme) prog \<Rightarrow> (unit outcome \<times> ('z socks_scheme) prog) res" where
  "net3_receive2 port2 p = receive_turn port2 p"

text \<open>\<open>network4.c\<close>: both senders send through the same unbound port. The address was stored by the first one.\<close>

definition net4_ports1 :: "testenv \<Rightarrow> ('z socks_scheme) prog \<Rightarrow> ((ptr \<times> ptr \<times> netaddr) outcome \<times> ('z socks_scheme) prog) res" where
  "net4_ports1 e p =
     (let my_address = own_address e p in
      bindR (listen e 0 p) (\<lambda>(port, p1). and_then (bind_to my_address 0 p1) (\<lambda>write_port p2.
        Inr (Completed (port, write_port, my_address), p2))))"

definition net4_ports2 :: "netaddr \<Rightarrow> ('z socks_scheme) prog \<Rightarrow> (ptr outcome \<times> ('z socks_scheme) prog) res" where
  "net4_ports2 my_address p = bind_to my_address 0 p"

definition net4_transmit1 :: "testenv \<Rightarrow> ptr \<Rightarrow> ptr \<Rightarrow> nat \<Rightarrow> ('z socks_scheme) prog \<Rightarrow> ('z socks_scheme) prog res" where
  "net4_transmit1 e port write_port i p =
     send_text e port write_port (line3 ''Sending packet '' (i + 1) '' from sender 1'') (line ''Count from sender 1 is '' (i + 1)) p"

definition net4_transmit2 :: "testenv \<Rightarrow> ptr \<Rightarrow> ptr \<Rightarrow> nat \<Rightarrow> ('z socks_scheme) prog \<Rightarrow> ('z socks_scheme) prog res" where
  "net4_transmit2 e port write_port i p =
     send_text e port write_port (line3 ''Sending packet '' (i + 1) '' from sender 2'') (line ''Count from sender 2 is '' (i + 1)) p"

definition net4_receive :: "ptr \<Rightarrow> ('z socks_scheme) prog \<Rightarrow> (unit outcome \<times> ('z socks_scheme) prog) res" where
  "net4_receive port p = receive_turn port p"

definition net3_main :: "string list \<Rightarrow> 'z socks_scheme \<Rightarrow> 'z socks_scheme res" where
  "net3_main argv s = net1_main argv s"

definition net4_main :: "string list \<Rightarrow> 'z socks_scheme \<Rightarrow> 'z socks_scheme res" where
  "net4_main argv s = net1_main argv s"

section \<open>Between two machines\<close>

text \<open>
  \<open>network5.c\<close> and \<open>network6.c\<close>: \<open>main\<close> takes the ports of UDP from its arguments, and a host name makes it the sender. An unresolved
  name ends the program.
\<close>

definition net5_main :: "string list \<Rightarrow> 'z socks_scheme \<Rightarrow> (string option \<times> 'z socks_scheme) res" where
  "net5_main argv s =
     (if length argv < 3 then Inl Null_deref
      else let s1 = network_udp_ports (of_int (atoi (argv ! 1))) (of_int (atoi (argv ! 2))) s
       in Inr (if length argv > 3 then Some (argv ! 3) else None, s1))"

definition net5_receive_ports :: "testenv \<Rightarrow> ('z socks_scheme) prog \<Rightarrow> (ptr \<times> ('z socks_scheme) prog) res" where
  "net5_receive_ports e p = listen e 1 p"

definition net5_receive :: "ptr \<Rightarrow> ('z socks_scheme) prog \<Rightarrow> (unit outcome \<times> ('z socks_scheme) prog) res" where
  "net5_receive port p = receive_turn port p"

definition net5_transmit_ports :: "testenv \<Rightarrow> string \<Rightarrow> ('z socks_scheme) prog \<Rightarrow> ((ptr \<times> ptr) outcome \<times> ('z socks_scheme) prog) res" where
  "net5_transmit_ports e hostname p =
     (let (r, addr) = network_translate_hostname (te_net e) hostname (0, 0) (pr_machine p) in
      if r < 0 then Inl Exited
      else bindR (listen e 0 p) (\<lambda>(port, p1). and_then (bind_to addr 1 p1) (\<lambda>dest p2. Inr (Completed (port, dest), p2))))"

definition net5_transmit :: "testenv \<Rightarrow> ptr \<Rightarrow> ptr \<Rightarrow> nat \<Rightarrow> ('z socks_scheme) prog \<Rightarrow> ('z socks_scheme) prog res" where
  "net5_transmit e port dest i p = send_text e port dest (line ''Sending packet '' (i + 1)) (line ''Count is '' (i + 1)) p"

definition net6_main :: "string list \<Rightarrow> 'z socks_scheme \<Rightarrow> (string option \<times> 'z socks_scheme) res" where
  "net6_main argv s =
     (if length argv < 3 then Inl Null_deref
      else let s1 = network_udp_ports (of_int (atoi (argv ! 1))) (of_int (atoi (argv ! 2))) s
       in Inr (if length argv > 3 then Some (argv ! 3) else None, s1))"

text \<open>A turn of \<open>receive_first\<close>; a turn of \<open>transmit_first\<close> up to its \<open>minimsg_receive\<close>, and from there.\<close>

definition receive_first_ports :: "testenv \<Rightarrow> ('z socks_scheme) prog \<Rightarrow> (ptr \<times> ('z socks_scheme) prog) res" where
  "receive_first_ports e p = listen e 1 p"

definition receive_first :: "testenv \<Rightarrow> ptr \<Rightarrow> nat \<Rightarrow> ('z socks_scheme) prog \<Rightarrow> (unit outcome \<times> ('z socks_scheme) prog) res" where
  "receive_first e port i p = and_then (receive_text port p) (\<lambda>_ p1.
     bindR (send_text e port (pr_from p1) (line ''Sending packet '' (i + 1)) (line ''Received packet '' (i + 1)) p1) destroy_from)"

definition transmit_first_ports :: "testenv \<Rightarrow> string \<Rightarrow> ('z socks_scheme) prog \<Rightarrow> ((ptr \<times> ptr) outcome \<times> ('z socks_scheme) prog) res" where
  "transmit_first_ports e hostname p =
     (let (r, addr) = network_translate_hostname (te_net e) hostname (0, 0) (pr_machine p) in
      if r < 0 then Inl Exited
      else bindR (listen e 0 p) (\<lambda>(port, p1). and_then (bind_to addr 1 p1) (\<lambda>dest p2. Inr (Completed (port, dest), p2))))"

definition transmit_first :: "testenv \<Rightarrow> ptr \<Rightarrow> ptr \<Rightarrow> nat \<Rightarrow> ('z socks_scheme) prog \<Rightarrow> ('z socks_scheme) prog res" where
  "transmit_first e port dest i p = send_text e port dest (line ''Sending packet '' (i + 1)) (line ''Received packet '' (i + 1)) p"

definition transmit_first_reply :: "ptr \<Rightarrow> ('z socks_scheme) prog \<Rightarrow> (unit outcome \<times> ('z socks_scheme) prog) res" where
  "transmit_first_reply port p = receive_turn port p"

section \<open>Lines of text\<close>

definition nul_free :: "string \<Rightarrow> bool" where
  "nul_free t \<longleftrightarrow> CHR 0x00 \<notin> set t"

lemma byte_of_char: "unat (of_char c :: byte) = of_char c" "(of_char c :: byte) = 0 \<longleftrightarrow> c = CHR 0x00"
proof -
  have "(of_char c :: nat) < 256" by simp
  then have "unat (of_nat (of_char c) :: byte) = of_char c" by (simp add: unat_of_nat)
  then show u: "unat (of_char c :: byte) = of_char c" by (simp add: of_nat_of_char)
  have "(of_char c :: byte) = 0 \<longleftrightarrow> unat (of_char c :: byte) = 0" by (rule unat_eq_zero [symmetric])
  also have "\<dots> \<longleftrightarrow> (of_char c :: nat) = of_char (CHR 0x00)" by (simp add: u)
  also have "\<dots> \<longleftrightarrow> c = CHR 0x00" by (rule of_char_eq_iff)
  finally show "(of_char c :: byte) = 0 \<longleftrightarrow> c = CHR 0x00" .
qed

lemma bytes_of_simps [simp]: "length (bytes_of t) = length t" "bytes_of (t @ u) = bytes_of t @ bytes_of u"
  by (simp_all add: bytes_of_def)

lemma bytes_before_nul: "nul_free t \<Longrightarrow> takeWhile (\<lambda>x. x \<noteq> 0) (bytes_of t @ 0 # r) = bytes_of t"
  by (induction t) (auto simp: bytes_of_def nul_free_def byte_of_char)

lemma strlen_text: "nul_free t \<Longrightarrow> strlen (bytes_of t @ 0 # r) = Inr (int (length t))"
  by (simp add: strlen_def bytes_before_nul)

lemma printed_text: "nul_free t \<Longrightarrow> printed (bytes_of t @ 0 # r) = Inr t"
  by (simp add: printed_def bytes_before_nul) (simp add: bytes_of_def byte_of_char o_def)

lemma nul_free_simps [simp]: "nul_free (t @ u) \<longleftrightarrow> nul_free t \<and> nul_free u" "nul_free (decimal k)"
proof -
  show "nul_free (t @ u) \<longleftrightarrow> nul_free t \<and> nul_free u" by (auto simp: nul_free_def)
  have "\<not> isdigit (CHR 0x00)" by (simp add: isdigit_def)
  then show "nul_free (decimal k)" using decimal_no by (simp add: nul_free_def)
qed

lemma line_fits: "nul_free t \<Longrightarrow> length t < 64 \<Longrightarrow> i < n \<Longrightarrow> n \<le> 100 \<Longrightarrow> nul_free (line t (i + 1)) \<and> length (line t (i + 1)) < 256"
proof -
  assume t: "nul_free t" "length t < 64" "i < n" "n \<le> 100"
  then have "i + 1 < 10 ^ 3" by simp
  from decimal_length [OF this] have l: "length (decimal (i + 1)) \<le> 3" by simp
  have "nul_free (''.'' @ [CHR 0x0A])" by (simp add: nul_free_def)
  then show ?thesis using t l by (simp add: line_def)
qed

section \<open>Sending and receiving a line\<close>

text \<open>The bytes of a line with its NUL, and the header in front of it.\<close>

definition letter :: "string \<Rightarrow> byte list" where
  "letter t = bytes_of t @ [0]"

lemma letter_simps [simp]: "length (letter t) = Suc (length t)" "letter t \<noteq> []"
  by (simp_all add: letter_def)

text \<open>A machine that can send: nothing is lost on the way to the socket, and its address is its own.\<close>

definition on_net :: "testenv \<Rightarrow> ('z socks_scheme) prog \<Rightarrow> bool" where
  "on_net e p \<longleftrightarrow> length (pr_buffer p) = 256 \<and> length (te_header e) = mini_header_size \<and> \<not> synthetic_network (pr_machine p) \<and>
     network_address_to_sockaddr (own_address e p) = network_address_to_sockaddr (local_host (pr_machine p))"

lemma on_net_same_host: "on_net e p \<Longrightarrow> same_host (pr_machine p) (pr_machine q) \<Longrightarrow> length (pr_buffer q) = 256 \<Longrightarrow> on_net e q"
  using same_host_address [of "pr_machine p" "pr_machine q" "te_net e" "(0, 0)"]
  by (simp add: on_net_def own_address_def) (simp add: same_host_def)

text \<open>The last packet of \<open>c\<close> is the line \<open>t\<close> from the port \<open>k\<close> of \<open>la\<close> to the port \<open>rp\<close> of \<open>ra\<close>.\<close>

definition posted :: "netaddr \<Rightarrow> int \<Rightarrow> netaddr \<Rightarrow> int \<Rightarrow> string \<Rightarrow> 'z socks_scheme \<Rightarrow> bool" where
  "posted ra rp la k t c \<longleftrightarrow> (\<exists>j. length j = mini_header_size \<and>
     last (wire c) = (network_address_to_sockaddr ra, minimsg_header j la k ra rp @ letter t))"

lemma posted_wire: "wire d = wire c \<Longrightarrow> posted ra rp la k t c \<Longrightarrow> posted ra rp la k t d"
  by (simp add: posted_def)

lemma send_line:
  assumes "on_net e p" "outlet lu lb k ra rp (pr_machine p)" "nul_free msg" "length msg < 256"
  obtains p' w where "send_text e lu lb shown msg p = Inr p'" "on_net e p'" "pr_out p' = pr_out p @ shown" "pr_from p' = pr_from p"
    "pr_machine p' = (pr_machine p)\<lparr>wire := w\<rparr>" "posted ra rp (own_address e p) k msg (pr_machine p')"
proof -
  define b where "b = bytes_of msg @ 0 # drop (Suc (length msg)) (pr_buffer p)"
  have lb: "length b = 256" using assms(1,4) by (simp add: b_def on_net_def)
  have sp: "sprintf_to (pr_buffer p) msg = Inr b" using assms(1,4) by (simp add: sprintf_to_def b_def on_net_def)
  have sl: "strlen b = Inr (int (length msg))" unfolding b_def by (rule strlen_text [OF assms(3)])
  have tk: "take (nat (int (length msg) + 1)) b = letter msg" by (simp add: b_def letter_def nat_add_distrib)
  have n: "\<not> synthetic_network (pr_machine p)" "length (te_header e) = mini_header_size" using assms(1) by (simp_all add: on_net_def)
  have l: "0 \<le> int (length msg) + 1" "int (length msg) + 1 \<le> 4096" "int (length msg) + 1 \<le> int (length b)" using assms(4) lb by simp_all
  define w where "w = wire (pr_machine p) @ [(network_address_to_sockaddr ra, minimsg_header (te_header e) (own_address e p) k ra rp @ letter msg)]"
  obtain r where "minimsg_send (te_net e) (te_lost e) (te_dup e) (te_header e) lu lb (Some b) (int (length msg) + 1) (pr_machine p) =
      Inr (r, (pr_machine p)\<lparr>wire := w\<rparr>)"
    using send_mail [OF assms(2) n(1) l n(2) refl, of "te_net e" "te_lost e" "te_dup e"] unfolding own_address_def w_def tk by blast
  then have run: "send_text e lu lb shown msg p = Inr (p\<lparr>pr_buffer := b, pr_out := pr_out p @ shown, pr_machine := (pr_machine p)\<lparr>wire := w\<rparr>\<rparr>)"
    using sp sl by (simp add: send_text_def)
  have sh: "same_host (pr_machine p) (pr_machine (p\<lparr>pr_buffer := b, pr_out := pr_out p @ shown, pr_machine := (pr_machine p)\<lparr>wire := w\<rparr>\<rparr>))" by simp
  show thesis
    by (rule that [OF run on_net_same_host [OF assms(1) sh], of w]) (use lb n(2) in \<open>auto simp: posted_def w_def\<close>)
qed

text \<open>It arrives; \<open>c\<close> may be the machine itself.\<close>

lemma line_arrives:
  assumes "posted ra i la k t c" "mailboxes M s" "M i = Some ms" "a \<noteq> NULL" "packets s a = None"
    "network_address_to_sockaddr ra = network_address_to_sockaddr (local_host s)" "length t < 256" "0 \<le> k" "k \<le> 32767"
  obtains s' where "deliver env a junk c s = Inr s'" "mailboxes (M(i \<mapsto> ms @ [(letter t, la, k)])) s'" "same_host s s'" "wire s' = wire s"
    "nPorts s' = nPorts s" "unbound_ports s' = unbound_ports s" "\<And>x. x \<noteq> a \<Longrightarrow> packets s' x = packets s x"
proof -
  obtain j where j: "length j = mini_header_size" "last (wire c) = (network_address_to_sockaddr ra, minimsg_header j la k ra i @ letter t)"
    using assms(1) by (auto simp: posted_def)
  have "length (letter t) \<le> 4096" using assms(7) by simp
  from deliver_mail [OF assms(2-5) j(2) [unfolded assms(6)] refl j(1) letter_simps(2) this assms(8,9)] that show thesis by blast
qed

text \<open>A line that waits is printed, and the port of its sender given back.\<close>

lemma receive_line:
  assumes "mailboxes M (pr_machine p)" "M i = Some ((letter t, la, lp) # ms)" "nPorts (pr_machine p) < 32767" "length (pr_buffer p) = 256"
    "nul_free t" "length t < 256" "port = unbound_ports (pr_machine p) i"
  obtains s b a where "receive_text port p = Inr (Completed (), p\<lparr>pr_buffer := b, pr_from := port_brk (pr_machine p), pr_out := pr_out p @ t,
      pr_machine := s\<rparr>)" "length b = 256" "mailboxes (M(i \<mapsto> ms)) s" "same_host (pr_machine p) s" "wire s = wire (pr_machine p)"
    "nPorts s = nPorts (pr_machine p) + 1" "outlet port (port_brk (pr_machine p)) i la lp s" "unbound_ports s = unbound_ports (pr_machine p)"
    "packets s = (packets (pr_machine p))(a := None)"
    "miniports s (port_brk (pr_machine p)) = Some \<lparr>p_number = nPorts (pr_machine p) + MIN_BOUND_PORT, p_union = Bound la lp\<rparr>"
proof -
  let ?s = "pr_machine p" and ?b = "letter t @ drop (Suc (length t)) (pr_buffer p)"
  have l: "length (letter t) \<le> length (pr_buffer p)" "int (length (letter t)) \<le> 256" using assms(4,6) by simp_all
  obtain s a where s: "minimsg_receive True (unbound_ports ?s i) (Some (pr_buffer p)) (Some 256) ?s =
      Inr (Completed (int (length (letter t)), Some (port_brk ?s), letter t @ drop (length (letter t)) (pr_buffer p), int (length (letter t))), s)"
      "mailboxes (M(i \<mapsto> ms)) s" "same_host ?s s" "wire s = wire ?s" "nPorts s = nPorts ?s + 1" "outlet (unbound_ports ?s i) (port_brk ?s) i la lp s"
      "port_brk s = Suc (port_brk ?s)" "unbound_ports s = unbound_ports ?s" "packets s = (packets ?s)(a := None)"
      "miniports s (port_brk ?s) = Some \<lparr>p_number = nPorts ?s + MIN_BOUND_PORT, p_union = Bound la lp\<rparr>"
    by (rule receive_mail [OF assms(1,2) l assms(3)])
  have "printed ?b = Inr t" using printed_text [OF assms(5)] by (simp add: letter_def)
  then have r: "receive_text port p = Inr (Completed (), p\<lparr>pr_buffer := ?b, pr_from := port_brk ?s, pr_out := pr_out p @ t, pr_machine := s\<rparr>)"
    using s(1) by (simp add: receive_text_def assms(7))
  show thesis by (rule that [OF r _ s(2-5)]) (use s(6,8-10) assms(4,6,7) in simp_all)
qed

lemma destroy_line:
  assumes "mailboxes M (pr_machine p)" "miniports (pr_machine p) (pr_from p) = Some \<lparr>p_number = num, p_union = Bound la lp\<rparr>"
    "pr_from p \<noteq> NULL" "32768 \<le> num" "num < 65536"
  obtains s where "destroy_from p = Inr (Completed (), p\<lparr>pr_machine := s\<rparr>)" "mailboxes M s" "wire s = wire (pr_machine p)"
    "nPorts s = nPorts (pr_machine p)" "unbound_ports s = unbound_ports (pr_machine p)" "packets s = packets (pr_machine p)"
    "\<And>M0 s0. mailboxes M0 s0 \<Longrightarrow> same_host s0 (pr_machine p) \<Longrightarrow> port_brk s0 \<le> pr_from p \<Longrightarrow> same_host s0 s"
proof -
  obtain s where s: "miniport_destroy (pr_from p) (pr_machine p) = Inr (Completed (), s)" "mailboxes M s" "wire s = wire (pr_machine p)"
    "nPorts s = nPorts (pr_machine p)" "unbound_ports s = unbound_ports (pr_machine p)" "packets s = packets (pr_machine p)"
    "\<And>M0 s0. mailboxes M0 s0 \<Longrightarrow> same_host s0 (pr_machine p) \<Longrightarrow> port_brk s0 \<le> pr_from p \<Longrightarrow> same_host s0 s"
    by (rule destroy_mail [OF assms]) blast
  show thesis by (rule that [OF _ s(2-7)]) (simp add: destroy_from_def s(1))
qed

lemma receive_turn_line:
  assumes "mailboxes M (pr_machine p)" "M i = Some ((letter t, la, lp) # ms)" "nPorts (pr_machine p) < 32767" "length (pr_buffer p) = 256"
    "nul_free t" "length t < 256" "port = unbound_ports (pr_machine p) i"
  obtains p' a where "receive_turn port p = Inr (Completed (), p')" "length (pr_buffer p') = 256" "pr_out p' = pr_out p @ t"
    "mailboxes (M(i \<mapsto> ms)) (pr_machine p')" "same_host (pr_machine p) (pr_machine p')" "wire (pr_machine p') = wire (pr_machine p)"
    "nPorts (pr_machine p') = nPorts (pr_machine p) + 1" "unbound_ports (pr_machine p') = unbound_ports (pr_machine p)"
    "packets (pr_machine p') = (packets (pr_machine p))(a := None)"
proof -
  let ?s = "pr_machine p"
  obtain s b a where r: "receive_text port p = Inr (Completed (), p\<lparr>pr_buffer := b, pr_from := port_brk ?s, pr_out := pr_out p @ t, pr_machine := s\<rparr>)"
      "length b = 256" "mailboxes (M(i \<mapsto> ms)) s" "same_host ?s s" "wire s = wire ?s" "nPorts s = nPorts ?s + 1"
      "outlet port (port_brk ?s) i la lp s" "unbound_ports s = unbound_ports ?s" "packets s = (packets ?s)(a := None)"
      "miniports s (port_brk ?s) = Some \<lparr>p_number = nPorts ?s + MIN_BOUND_PORT, p_union = Bound la lp\<rparr>"
    by (rule receive_line [OF assms])
  define q where "q = p\<lparr>pr_buffer := b, pr_from := port_brk ?s, pr_out := pr_out p @ t, pr_machine := s\<rparr>"
  have q: "pr_machine q = s" "pr_from q = port_brk ?s" "pr_buffer q = b" "pr_out q = pr_out p @ t" by (simp_all add: q_def)
  have n: "port_brk ?s \<noteq> NULL" "0 \<le> nPorts ?s" using assms(1) by (simp_all add: mailboxes_def)
  obtain s' where d: "destroy_from q = Inr (Completed (), q\<lparr>pr_machine := s'\<rparr>)" "mailboxes (M(i \<mapsto> ms)) s'" "wire s' = wire s"
      "nPorts s' = nPorts s" "unbound_ports s' = unbound_ports s" "packets s' = packets s"
      "\<And>M0 s0. mailboxes M0 s0 \<Longrightarrow> same_host s0 s \<Longrightarrow> port_brk s0 \<le> port_brk ?s \<Longrightarrow> same_host s0 s'"
    by (rule destroy_line [of "M(i \<mapsto> ms)" q]) (use r(3,10) n assms(3) in \<open>auto simp: q\<close>)
  have run: "receive_turn port p = Inr (Completed (), q\<lparr>pr_machine := s'\<rparr>)" using r(1) d(1) by (simp add: receive_turn_def q_def)
  show thesis by (rule that [OF run, of a]) (use r d(2-6) d(7) [OF assms(1) r(4)] q in simp_all)
qed

section \<open>The ports of two machines\<close>

lemma sender_opens:
  assumes "no_mail (pr_machine p)" "network_translate_hostname (te_net e) hostname (0, 0) (pr_machine p) = (0, ra)"
    "opens = (\<lambda>e hostname p. let (r, addr) = network_translate_hostname (te_net e) hostname (0, 0) (pr_machine p) in
      if r < 0 then Inl Exited
      else bindR (listen e 0 p) (\<lambda>(port, p1). and_then (bind_to addr 1 p1) (\<lambda>dest p2. Inr (Completed (port, dest), p2))))"
  obtains port dest s where "opens e hostname p = Inr (Completed (port, dest), p\<lparr>pr_machine := s\<rparr>)" "mailboxes [0 \<mapsto> []] s"
    "same_host (pr_machine p) s" "unbound_ports s 0 = port" "outlet port dest 0 ra 1 s" "nPorts s = 1" "wire s = wire (pr_machine p)"
    "packets s = packets (pr_machine p)"
proof -
  let ?s = "pr_machine p"
  have n: "mailboxes (\<lambda>i. None) ?s" "unbound_ports ?s 0 = NULL" "nPorts ?s = 0" using assms(1) by (simp_all add: no_mail_def)
  have z: "(\<lambda>i. None :: mail list option) 0 = None" "(0 :: int) \<le> 0" "(0 :: int) \<le> 32767" by simp_all
  obtain s1 where l: "miniport_create_unbound (te_sem e) True 0 ?s = Inr (port_brk ?s, s1)" "mailboxes [0 \<mapsto> []] s1" "same_host ?s s1"
      "wire s1 = wire ?s" "nPorts s1 = nPorts ?s" "port_brk s1 = Suc (port_brk ?s)" "unbound_ports s1 = (unbound_ports ?s)(0 := port_brk ?s)"
      "packets s1 = packets ?s" "\<exists>u. miniports s1 (port_brk ?s) = Some \<lparr>p_number = 0, p_union = u\<rparr>"
    by (rule open_mailbox [OF n(1) z n(2)])
  have o: "nPorts s1 < 32767" "(0 :: int) \<le> 1" "(1 :: int) \<le> 32767" using l(5) n(3) by simp_all
  obtain s2 where b: "miniport_create_bound True (Some ra) 1 s1 = Inr (Completed (port_brk s1), s2)" "mailboxes [0 \<mapsto> []] s2" "same_host s1 s2"
      "wire s2 = wire s1" "nPorts s2 = nPorts s1 + 1" "unbound_ports s2 = unbound_ports s1" "packets s2 = packets s1"
      "\<And>lu k u. miniports s1 lu = Some \<lparr>p_number = k, p_union = u\<rparr> \<Longrightarrow> lu \<noteq> NULL \<Longrightarrow> outlet lu (port_brk s1) k ra 1 s2"
    by (rule open_outlet [OF l(2) o, of ra]) blast
  obtain u where "miniports s1 (port_brk ?s) = Some \<lparr>p_number = 0, p_union = u\<rparr>" using l(9) by blast
  moreover have "port_brk ?s \<noteq> NULL" using n(1) by (simp add: mailboxes_def)
  ultimately have out: "outlet (port_brk ?s) (port_brk s1) 0 ra 1 s2" by (rule b(8))
  have "opens e hostname p = Inr (Completed (port_brk ?s, port_brk s1), p\<lparr>pr_machine := s2\<rparr>)"
    by (simp add: assms(2,3) listen_def bind_to_def l(1) b(1))
  then show thesis by (rule that [OF _ b(2) same_host_trans [OF l(3) b(3)] _ out]) (simp_all add: b(4-7) l(4,5,7,8) n(3))
qed

lemma receiver_opens:
  assumes "no_mail (pr_machine p)" "0 \<le> i" "i \<le> 32767"
  obtains q s where "listen e i p = Inr (q, p\<lparr>pr_machine := s\<rparr>)" "mailboxes [i \<mapsto> []] s" "same_host (pr_machine p) s" "unbound_ports s i = q"
    "nPorts s = 0" "wire s = wire (pr_machine p)" "packets s = packets (pr_machine p)"
proof -
  let ?s = "pr_machine p"
  have n: "mailboxes (\<lambda>i. None) ?s" "unbound_ports ?s i = NULL" "nPorts ?s = 0" using assms(1) by (simp_all add: no_mail_def)
  obtain s1 where l: "miniport_create_unbound (te_sem e) True i ?s = Inr (port_brk ?s, s1)" "mailboxes [i \<mapsto> []] s1" "same_host ?s s1"
      "wire s1 = wire ?s" "nPorts s1 = nPorts ?s" "unbound_ports s1 = (unbound_ports ?s)(i := port_brk ?s)" "packets s1 = packets ?s"
    by (rule open_mailbox [OF n(1) _ assms(2,3) n(2)]) auto
  have "listen e i p = Inr (port_brk ?s, p\<lparr>pr_machine := s1\<rparr>)" by (simp add: listen_def l(1))
  then show thesis by (rule that [OF _ l(2,3)]) (simp_all add: l(4-7) n(3))
qed

section \<open>Back and forth\<close>

text \<open>
  One turn of both programs of \<open>network6.c\<close>: the line of the sender arrives at the other machine in the block \<open>a2\<close>, the answer
  in \<open>a1\<close>. \<open>ping_turns\<close> makes \<open>n\<close> turns from turn \<open>i\<close> on, with the blocks that \<open>malloc\<close> returns in each.
\<close>

definition ping_turn ::
  "testenv \<Rightarrow> testenv \<Rightarrow> sockenv \<Rightarrow> sockenv \<Rightarrow> ptr \<Rightarrow> ptr \<Rightarrow> ptr \<Rightarrow> ptr \<Rightarrow> ptr \<Rightarrow> byte list \<Rightarrow> nat \<Rightarrow>
     ('z socks_scheme) prog \<times> ('z socks_scheme) prog \<Rightarrow> (unit outcome \<times> ('z socks_scheme) prog \<times> ('z socks_scheme) prog) res" where
  "ping_turn te tf ce se port dest q a1 a2 junk i pr =
     (let (p, r) = pr in
      bindR (transmit_first te port dest i p) (\<lambda>p1. bindR (deliver se a2 junk (pr_machine p1) (pr_machine r)) (\<lambda>s.
      bindR (receive_first tf q i (r\<lparr>pr_machine := s\<rparr>)) (\<lambda>(k, r1). bindR (deliver ce a1 junk (pr_machine r1) (pr_machine p1)) (\<lambda>c.
      bindR (transmit_first_reply port (p1\<lparr>pr_machine := c\<rparr>)) (\<lambda>(l, p2).
        Inr (if k = Suspended then Suspended else l, p2, r1)))))))"

fun ping_turns ::
  "nat \<Rightarrow> testenv \<Rightarrow> testenv \<Rightarrow> sockenv \<Rightarrow> sockenv \<Rightarrow> ptr \<Rightarrow> ptr \<Rightarrow> ptr \<Rightarrow> (nat \<Rightarrow> ptr) \<Rightarrow> (nat \<Rightarrow> ptr) \<Rightarrow> byte list \<Rightarrow> nat \<Rightarrow>
     ('z socks_scheme) prog \<times> ('z socks_scheme) prog \<Rightarrow> (unit outcome \<times> ('z socks_scheme) prog \<times> ('z socks_scheme) prog) res" where
  "ping_turns 0 te tf ce se port dest q blk1 blk2 junk i pr = Inr (Completed (), pr)"
| "ping_turns (Suc n) te tf ce se port dest q blk1 blk2 junk i pr =
     and_then (ping_turn te tf ce se port dest q (blk1 i) (blk2 i) junk i pr)
       (\<lambda>_. ping_turns n te tf ce se port dest q blk1 blk2 junk (Suc i))"

text \<open>Before turn \<open>i\<close>: nothing waits at either machine, and the blocks of the turns to come are not in use.\<close>

definition pinging ::
  "testenv \<Rightarrow> testenv \<Rightarrow> ptr \<Rightarrow> ptr \<Rightarrow> ptr \<Rightarrow> (nat \<Rightarrow> ptr) \<Rightarrow> (nat \<Rightarrow> ptr) \<Rightarrow> netaddr \<Rightarrow> nat \<Rightarrow> ('z socks_scheme) prog \<Rightarrow> ('z socks_scheme) prog \<Rightarrow> bool"
  where
  "pinging te tf port dest q blk1 blk2 ra i p r \<longleftrightarrow> on_net te p \<and> on_net tf r \<and> mailboxes [0 \<mapsto> []] (pr_machine p) \<and>
     mailboxes [1 \<mapsto> []] (pr_machine r) \<and> unbound_ports (pr_machine p) 0 = port \<and> unbound_ports (pr_machine r) 1 = q \<and>
     outlet port dest 0 ra 1 (pr_machine p) \<and> network_address_to_sockaddr ra = network_address_to_sockaddr (local_host (pr_machine r)) \<and>
     nPorts (pr_machine p) = int i + 1 \<and> nPorts (pr_machine r) = int i \<and>
     (\<forall>j\<ge>i. packets (pr_machine p) (blk1 j) = None \<and> packets (pr_machine r) (blk2 j) = None)"

lemma ping_line: "i < 100 \<Longrightarrow> nul_free (line ''Received packet '' (i + 1)) \<and> length (line ''Received packet '' (i + 1)) < 256"
  by (rule line_fits [of _ i 100]) (simp_all add: nul_free_def)

lemma own_address_same: "same_host (pr_machine p) (pr_machine q) \<Longrightarrow> own_address e q = own_address e p"
  by (simp add: own_address_def same_host_address)

text \<open>The other machine prints the line and answers it.\<close>

lemma receive_first_line:
  assumes r: "on_net e r" and M: "mailboxes M (pr_machine r)" "M 1 = Some ((letter t, la, 0) # ms)" and n: "nPorts (pr_machine r) < 32767"
    and t: "nul_free t" "length t < 256" and q: "q = unbound_ports (pr_machine r) 1" and i: "i < 100"
  obtains r' x where "receive_first e q i r = Inr (Completed (), r')" "on_net e r'"
    "pr_out r' = pr_out r @ t @ line ''Sending packet '' (i + 1)" "mailboxes (M(1 \<mapsto> ms)) (pr_machine r')"
    "same_host (pr_machine r) (pr_machine r')" "nPorts (pr_machine r') = nPorts (pr_machine r) + 1"
    "unbound_ports (pr_machine r') = unbound_ports (pr_machine r)" "packets (pr_machine r') = (packets (pr_machine r))(x := None)"
    "posted la 0 (own_address e r) 1 (line ''Received packet '' (i + 1)) (pr_machine r')"
proof -
  let ?s = "pr_machine r" and ?u = "line ''Sending packet '' (i + 1)" and ?v = "line ''Received packet '' (i + 1)"
  have b: "length (pr_buffer r) = 256" using r by (simp add: on_net_def)
  obtain s2 b2 x where r2: "receive_text q r = Inr (Completed (), r\<lparr>pr_buffer := b2, pr_from := port_brk ?s, pr_out := pr_out r @ t,
      pr_machine := s2\<rparr>)" "length b2 = 256" "mailboxes (M(1 \<mapsto> ms)) s2" "same_host ?s s2" "wire s2 = wire ?s"
      "nPorts s2 = nPorts ?s + 1" "outlet q (port_brk ?s) 1 la 0 s2" "unbound_ports s2 = unbound_ports ?s" "packets s2 = (packets ?s)(x := None)"
      "miniports s2 (port_brk ?s) = Some \<lparr>p_number = nPorts ?s + MIN_BOUND_PORT, p_union = Bound la 0\<rparr>"
    by (rule receive_line [OF M n b t q])
  define r2 where "r2 = r\<lparr>pr_buffer := b2, pr_from := port_brk ?s, pr_out := pr_out r @ t, pr_machine := s2\<rparr>"
  have f2: "pr_machine r2 = s2" "pr_from r2 = port_brk ?s" "pr_out r2 = pr_out r @ t" "length (pr_buffer r2) = 256" using r2(2) by (simp_all add: r2_def)
  have n2: "on_net e r2" by (rule on_net_same_host [OF r]) (simp_all add: f2 r2(4))
  have o2: "outlet q (pr_from r2) 1 la 0 (pr_machine r2)" using r2(7) by (simp add: f2)
  obtain r3 w where r3: "send_text e q (pr_from r2) ?u ?v r2 = Inr r3" "on_net e r3" "pr_out r3 = pr_out r2 @ ?u" "pr_from r3 = pr_from r2"
      "pr_machine r3 = (pr_machine r2)\<lparr>wire := w\<rparr>" "posted la 0 (own_address e r2) 1 ?v (pr_machine r3)"
    by (rule send_line [OF n2 o2 ping_line [OF i, THEN conjunct1] ping_line [OF i, THEN conjunct2]])
  have brk: "port_brk ?s \<noteq> NULL" "0 \<le> nPorts ?s" using M(1) by (simp_all add: mailboxes_def)
  have m3: "mailboxes (M(1 \<mapsto> ms)) (pr_machine r3)" "same_host ?s (pr_machine r3)" "pr_from r3 \<noteq> NULL" "32768 \<le> nPorts ?s + 32768" "nPorts ?s + 32768 < 65536"
    "miniports (pr_machine r3) (pr_from r3) = Some \<lparr>p_number = nPorts ?s + 32768, p_union = Bound la 0\<rparr>"
    using r2(3,4,10) brk n same_host_trans [OF r2(4) same_host_simps] by (simp_all add: r3(4,5) f2)
  obtain s4 where r4: "destroy_from r3 = Inr (Completed (), r3\<lparr>pr_machine := s4\<rparr>)" "mailboxes (M(1 \<mapsto> ms)) s4" "wire s4 = wire (pr_machine r3)"
      "nPorts s4 = nPorts (pr_machine r3)" "unbound_ports s4 = unbound_ports (pr_machine r3)" "packets s4 = packets (pr_machine r3)"
      "\<And>M0 s0. mailboxes M0 s0 \<Longrightarrow> same_host s0 (pr_machine r3) \<Longrightarrow> port_brk s0 \<le> pr_from r3 \<Longrightarrow> same_host s0 s4"
    by (rule destroy_line [OF m3(1,6,3-5)]) blast
  have sh: "same_host ?s s4" by (rule r4(7) [OF M(1) m3(2)]) (simp add: r3(4) f2)
  have oa: "own_address e r2 = own_address e r" by (rule own_address_same) (simp add: f2 r2(4))
  have run: "receive_first e q i r = Inr (Completed (), r3\<lparr>pr_machine := s4\<rparr>)"
    using r2(1) r3(1) r4(1) by (simp add: receive_first_def r2_def)
  show thesis
  proof (rule that [OF run])
    show "on_net e (r3\<lparr>pr_machine := s4\<rparr>)" by (rule on_net_same_host [OF r]) (use sh r3(2) in \<open>simp_all add: on_net_def\<close>)
    show "posted la 0 (own_address e r) 1 ?v (pr_machine (r3\<lparr>pr_machine := s4\<rparr>))" using posted_wire [OF r4(3)] r3(6) by (simp add: oa)
    show "packets (pr_machine (r3\<lparr>pr_machine := s4\<rparr>)) = (packets ?s)(x := None)" by (simp add: r4(6) r3(5) f2 r2(9))
  qed (simp_all add: r3(3,5) r4(2,4,5) f2 r2(6,8) sh)
qed

lemma ping_step:
  assumes pg: "pinging te tf port dest q blk1 blk2 ra i p r" and i: "i < 100" and blk: "inj blk1" "inj blk2" "\<forall>j. blk1 j \<noteq> NULL \<and> blk2 j \<noteq> NULL"
  obtains p' r' where "ping_turn te tf ce se port dest q (blk1 i) (blk2 i) junk i (p, r) = Inr (Completed (), p', r')"
    "pinging te tf port dest q blk1 blk2 ra (Suc i) p' r'"
    "pr_out p' = pr_out p @ line ''Sending packet '' (i + 1) @ line ''Received packet '' (i + 1)"
    "pr_out r' = pr_out r @ line ''Received packet '' (i + 1) @ line ''Sending packet '' (i + 1)"
proof -
  let ?t = "line ''Received packet '' (i + 1)" and ?u = "line ''Sending packet '' (i + 1)" and ?c = "pr_machine p" and ?s = "pr_machine r"
  note t = ping_line [OF i, THEN conjunct1] ping_line [OF i, THEN conjunct2]
  have g: "on_net te p" "on_net tf r" "mailboxes [0 \<mapsto> []] ?c" "mailboxes [1 \<mapsto> []] ?s" "unbound_ports ?c 0 = port" "unbound_ports ?s 1 = q"
    "outlet port dest 0 ra 1 ?c" "network_address_to_sockaddr ra = network_address_to_sockaddr (local_host ?s)" "nPorts ?c = int i + 1"
    "nPorts ?s = int i" "\<And>j. i \<le> j \<Longrightarrow> packets ?c (blk1 j) = None" "\<And>j. i \<le> j \<Longrightarrow> packets ?s (blk2 j) = None"
    using pg by (simp_all add: pinging_def)
  obtain p1 w where p1: "send_text te port dest ?u ?t p = Inr p1" "on_net te p1" "pr_out p1 = pr_out p @ ?u" "pr_machine p1 = ?c\<lparr>wire := w\<rparr>"
      "posted ra 1 (own_address te p) 0 ?t (pr_machine p1)"
    by (rule send_line [OF g(1,7) t])
  have a: "blk1 i \<noteq> NULL" "blk2 i \<noteq> NULL" "packets ?s (blk2 i) = None" using blk(3) g(12) by simp_all
  obtain s1 where s1: "deliver se (blk2 i) junk (pr_machine p1) ?s = Inr s1" "mailboxes ([1 \<mapsto> []](1 \<mapsto> [] @ [(letter ?t, own_address te p, 0)])) s1"
      "same_host ?s s1" "wire s1 = wire ?s" "nPorts s1 = nPorts ?s" "unbound_ports s1 = unbound_ports ?s"
      "\<And>x. x \<noteq> blk2 i \<Longrightarrow> packets s1 x = packets ?s x"
    by (rule line_arrives [OF p1(5) g(4) _ a(2,3) g(8) t(2), of "[]"]) auto
  define r1 where "r1 = r\<lparr>pr_machine := s1\<rparr>"
  have f1: "pr_machine r1 = s1" "pr_out r1 = pr_out r" "own_address tf r1 = own_address tf r"
    using own_address_same [of r r1 tf] s1(3) by (simp_all add: r1_def)
  have n1: "on_net tf r1" by (rule on_net_same_host [OF g(2)]) (use g(2) s1(3) in \<open>simp_all add: r1_def on_net_def\<close>)
  have m1: "mailboxes [1 \<mapsto> [(letter ?t, own_address te p, 0)]] (pr_machine r1)" "nPorts (pr_machine r1) < 32767" "q = unbound_ports (pr_machine r1) 1"
    using s1(2,5,6) g(6,10) i by (simp_all add: f1)
  obtain r2 x where r2: "receive_first tf q i r1 = Inr (Completed (), r2)" "on_net tf r2" "pr_out r2 = pr_out r1 @ ?t @ ?u"
      "mailboxes ([1 \<mapsto> [(letter ?t, own_address te p, 0)]](1 \<mapsto> [])) (pr_machine r2)" "same_host s1 (pr_machine r2)"
      "nPorts (pr_machine r2) = nPorts s1 + 1" "unbound_ports (pr_machine r2) = unbound_ports s1" "packets (pr_machine r2) = (packets s1)(x := None)"
      "posted (own_address te p) 0 (own_address tf r1) 1 ?t (pr_machine r2)"
    by (rule receive_first_line [OF n1 m1(1) _ m1(2) t m1(3) i, unfolded f1(1)]) auto
  have c: "mailboxes [0 \<mapsto> []] (pr_machine p1)" "packets (pr_machine p1) (blk1 i) = None"
    "network_address_to_sockaddr (own_address te p) = network_address_to_sockaddr (local_host (pr_machine p1))"
    using g(1,3,11) by (simp_all add: p1(4) on_net_def)
  obtain c1 where c1: "deliver ce (blk1 i) junk (pr_machine r2) (pr_machine p1) = Inr c1"
      "mailboxes ([0 \<mapsto> []](0 \<mapsto> [] @ [(letter ?t, own_address tf r1, 1)])) c1" "same_host (pr_machine p1) c1" "nPorts c1 = nPorts (pr_machine p1)"
      "unbound_ports c1 = unbound_ports (pr_machine p1)" "\<And>x. x \<noteq> blk1 i \<Longrightarrow> packets c1 x = packets (pr_machine p1) x"
    by (rule line_arrives [OF r2(9) c(1) _ a(1) c(2,3) t(2), of "[]"]) auto
  define p2 where "p2 = p1\<lparr>pr_machine := c1\<rparr>"
  have f2: "pr_machine p2 = c1" "pr_out p2 = pr_out p1" "length (pr_buffer p2) = 256" using p1(2) by (simp_all add: p2_def on_net_def)
  have m2: "mailboxes [0 \<mapsto> [(letter ?t, own_address tf r1, 1)]] (pr_machine p2)" "nPorts (pr_machine p2) < 32767" "port = unbound_ports (pr_machine p2) 0"
    using c1(2,4,5) g(5,9) i by (simp_all add: f2 p1(4))
  obtain p3 y where p3: "receive_turn port p2 = Inr (Completed (), p3)" "length (pr_buffer p3) = 256" "pr_out p3 = pr_out p2 @ ?t"
      "mailboxes ([0 \<mapsto> [(letter ?t, own_address tf r1, 1)]](0 \<mapsto> [])) (pr_machine p3)" "same_host c1 (pr_machine p3)"
      "nPorts (pr_machine p3) = nPorts c1 + 1" "unbound_ports (pr_machine p3) = unbound_ports c1" "packets (pr_machine p3) = (packets c1)(y := None)"
    by (rule receive_turn_line [OF m2(1) _ m2(2) f2(3) t m2(3), unfolded f2(1)]) auto
  have sp: "same_host ?c (pr_machine p3)"
    using same_host_trans [OF same_host_trans [OF same_host_simps [of ?c w] c1(3) [unfolded p1(4)]] p3(5)] .
  have sr: "same_host ?s (pr_machine r2)" by (rule same_host_trans [OF s1(3) r2(5)])
  have run: "ping_turn te tf ce se port dest q (blk1 i) (blk2 i) junk i (p, r) = Inr (Completed (), p3, r2)"
    using p1(1) s1(1) r2(1) c1(1) p3(1) by (simp add: ping_turn_def transmit_first_def transmit_first_reply_def r1_def p2_def)
  have "pinging te tf port dest q blk1 blk2 ra (Suc i) p3 r2" unfolding pinging_def
  proof (intro conjI allI impI)
    show "on_net te p3" by (rule on_net_same_host [OF g(1) sp p3(2)])
    show "outlet port dest 0 ra 1 (pr_machine p3)" using g(7) sp unfolding same_host_def by blast
    show "network_address_to_sockaddr ra = network_address_to_sockaddr (local_host (pr_machine r2))" using g(8) sr by (simp add: same_host_def)
    show "on_net tf r2" by (rule r2(2))
    show "mailboxes [0 \<mapsto> []] (pr_machine p3)" "mailboxes [1 \<mapsto> []] (pr_machine r2)" using p3(4) r2(4) by simp_all
    show "unbound_ports (pr_machine p3) 0 = port" "nPorts (pr_machine p3) = int (Suc i) + 1"
      using g(5,9) by (simp_all add: p3(6,7) c1(4,5) p1(4))
    show "unbound_ports (pr_machine r2) 1 = q" "nPorts (pr_machine r2) = int (Suc i)"
      using g(6,10) by (simp_all add: r2(6,7) s1(5,6))
  next
    fix j assume j: "Suc i \<le> j"
    then have "blk1 j \<noteq> blk1 i" "blk2 j \<noteq> blk2 i" using inj_eq [OF blk(1), of j i] inj_eq [OF blk(2), of j i] by simp_all
    then show "packets (pr_machine p3) (blk1 j) = None" "packets (pr_machine r2) (blk2 j) = None"
      using g(11) [of j] g(12) [of j] j by (simp_all add: p3(8) r2(8) c1(6) s1(7) p1(4))
  qed
  then show thesis by (intro that [OF run]) (simp_all add: p3(3) r2(3) f1(2) f2(2) p1(3))
qed

text \<open>What the two programs print in the turns \<open>k\<close> to \<open>k + n\<close>.\<close>

definition pings :: "nat \<Rightarrow> nat \<Rightarrow> string" where
  "pings k n = concat (map (\<lambda>i. line ''Sending packet '' (i + 1) @ line ''Received packet '' (i + 1)) [k..<k + n])"

definition pongs :: "nat \<Rightarrow> nat \<Rightarrow> string" where
  "pongs k n = concat (map (\<lambda>i. line ''Received packet '' (i + 1) @ line ''Sending packet '' (i + 1)) [k..<k + n])"

lemma pings_Suc: "pings k (Suc n) = line ''Sending packet '' (k + 1) @ line ''Received packet '' (k + 1) @ pings (Suc k) n"
  "pongs k (Suc n) = line ''Received packet '' (k + 1) @ line ''Sending packet '' (k + 1) @ pongs (Suc k) n"
  by (simp_all add: pings_def pongs_def upt_conv_Cons del: upt_Suc)

lemma ping_steps:
  assumes "pinging te tf port dest q blk1 blk2 ra k p r" "k + n \<le> 100" "inj blk1" "inj blk2" "\<forall>j. blk1 j \<noteq> NULL \<and> blk2 j \<noteq> NULL"
  shows "\<exists>p' r'. ping_turns n te tf ce se port dest q blk1 blk2 junk k (p, r) = Inr (Completed (), p', r') \<and>
    pinging te tf port dest q blk1 blk2 ra (k + n) p' r' \<and> pr_out p' = pr_out p @ pings k n \<and> pr_out r' = pr_out r @ pongs k n"
  using assms(1,2)
proof (induction n arbitrary: k p r)
  case 0
  then show ?case by (simp add: pings_def pongs_def)
next
  case (Suc n)
  have k: "k < 100" "Suc k + n \<le> 100" using Suc.prems(2) by simp_all
  obtain p1 r1 where 1: "ping_turn te tf ce se port dest q (blk1 k) (blk2 k) junk k (p, r) = Inr (Completed (), p1, r1)"
    "pinging te tf port dest q blk1 blk2 ra (Suc k) p1 r1"
    "pr_out p1 = pr_out p @ line ''Sending packet '' (k + 1) @ line ''Received packet '' (k + 1)"
    "pr_out r1 = pr_out r @ line ''Received packet '' (k + 1) @ line ''Sending packet '' (k + 1)"
    by (rule ping_step [OF Suc.prems(1) k(1) assms(3-5)])
  from Suc.IH [OF 1(2) k(2)] obtain p2 r2 where "ping_turns n te tf ce se port dest q blk1 blk2 junk (Suc k) (p1, r1) = Inr (Completed (), p2, r2)"
    "pinging te tf port dest q blk1 blk2 ra (Suc k + n) p2 r2" "pr_out p2 = pr_out p1 @ pings (Suc k) n" "pr_out r2 = pr_out r1 @ pongs (Suc k) n"
    by blast
  then show ?case using 1(1,3,4) by (simp add: pings_Suc)
qed

text \<open>A machine on which a program starts: no port has been made, the blocks to come are free, and the buffers are there.\<close>

definition starts :: "testenv \<Rightarrow> (nat \<Rightarrow> ptr) \<Rightarrow> ('z socks_scheme) prog \<Rightarrow> bool" where
  "starts e blk p \<longleftrightarrow> on_net e p \<and> no_mail (pr_machine p) \<and> inj blk \<and> (\<forall>j. blk j \<noteq> NULL \<and> packets (pr_machine p) (blk j) = None)"

text \<open>
  C23: two machines that run \<open>network6.c\<close>, with a network that loses nothing, get through all turns: the sender prints in each turn what
  it sends and then the answer with the same number, the other one the line and then what it sends back; afterwards no message is left.
\<close>

theorem ping_pong:
  assumes "starts te blk1 p" "starts tf blk2 r" "n \<le> 100"
    "network_translate_hostname (te_net te) hostname (0, 0) (pr_machine p) = (0, ra)"
    "network_address_to_sockaddr ra = network_address_to_sockaddr (local_host (pr_machine r))"
  shows "\<exists>port dest q p1 r1 p2 r2. transmit_first_ports te hostname p = Inr (Completed (port, dest), p1) \<and>
    receive_first_ports tf r = Inr (q, r1) \<and>
    ping_turns n te tf ce se port dest q blk1 blk2 junk 0 (p1, r1) = Inr (Completed (), p2, r2) \<and>
    pr_out p2 = pr_out p @ pings 0 n \<and> pr_out r2 = pr_out r @ pongs 0 n \<and>
    mailboxes [0 \<mapsto> []] (pr_machine p2) \<and> mailboxes [1 \<mapsto> []] (pr_machine r2)"
proof -
  note st = assms(1,2) [unfolded starts_def]
  have nm: "no_mail (pr_machine p)" "no_mail (pr_machine r)" using st by blast+
  obtain port dest c where c: "transmit_first_ports te hostname p = Inr (Completed (port, dest), p\<lparr>pr_machine := c\<rparr>)" "mailboxes [0 \<mapsto> []] c"
    "same_host (pr_machine p) c" "unbound_ports c 0 = port" "outlet port dest 0 ra 1 c" "nPorts c = 1" "packets c = packets (pr_machine p)"
    by (rule sender_opens [OF nm(1) assms(4)]) (auto simp: transmit_first_ports_def fun_eq_iff)
  obtain q s where s: "receive_first_ports tf r = Inr (q, r\<lparr>pr_machine := s\<rparr>)" "mailboxes [1 \<mapsto> []] s" "same_host (pr_machine r) s"
    "unbound_ports s 1 = q" "nPorts s = 0" "packets s = packets (pr_machine r)"
    by (rule receiver_opens [OF nm(2), of 1 tf]) (simp_all add: receive_first_ports_def)
  have pg: "pinging te tf port dest q blk1 blk2 ra 0 (p\<lparr>pr_machine := c\<rparr>) (r\<lparr>pr_machine := s\<rparr>)" unfolding pinging_def
  proof (intro conjI allI impI)
    show "on_net te (p\<lparr>pr_machine := c\<rparr>)" by (rule on_net_same_host [of te p]) (use st c(3) in \<open>simp_all add: on_net_def\<close>)
    show "on_net tf (r\<lparr>pr_machine := s\<rparr>)" by (rule on_net_same_host [of tf r]) (use st s(3) in \<open>simp_all add: on_net_def\<close>)
    show "network_address_to_sockaddr ra = network_address_to_sockaddr (local_host (pr_machine (r\<lparr>pr_machine := s\<rparr>)))"
      using assms(5) s(3) by (simp add: same_host_def)
  qed (use c s st in simp_all)
  have "inj blk1" "inj blk2" "\<forall>j. blk1 j \<noteq> NULL \<and> blk2 j \<noteq> NULL" using st by blast+
  from ping_steps [OF pg _ this, of n ce se junk] assms(3) obtain p2 r2 where t:
    "ping_turns n te tf ce se port dest q blk1 blk2 junk 0 (p\<lparr>pr_machine := c\<rparr>, r\<lparr>pr_machine := s\<rparr>) = Inr (Completed (), p2, r2)"
    "pinging te tf port dest q blk1 blk2 ra n p2 r2" "pr_out p2 = pr_out p @ pings 0 n" "pr_out r2 = pr_out r @ pongs 0 n"
    by auto
  from t(2) have "mailboxes [0 \<mapsto> []] (pr_machine p2)" "mailboxes [1 \<mapsto> []] (pr_machine r2)" by (simp_all add: pinging_def)
  with c(1) s(1) t(1,3,4) show ?thesis by blast
qed

section \<open>A stream that may lose messages\<close>

text \<open>
  \<open>network5.c\<close> on two machines, in any interleaving: the sender makes a turn and its message arrives (in the block \<open>blk i\<close>) or is lost, or
  the receiver makes a turn.
\<close>

datatype event = Arrives | Lost | Takes

fun net5_run ::
  "testenv \<Rightarrow> sockenv \<Rightarrow> ptr \<Rightarrow> ptr \<Rightarrow> ptr \<Rightarrow> (nat \<Rightarrow> ptr) \<Rightarrow> byte list \<Rightarrow> event list \<Rightarrow> nat \<times> ('z socks_scheme) prog \<times> ('z socks_scheme) prog \<Rightarrow>
     (unit outcome \<times> nat \<times> ('z socks_scheme) prog \<times> ('z socks_scheme) prog) res" where
  "net5_run e se port dest q blk junk [] x = Inr (Completed (), x)"
| "net5_run e se port dest q blk junk (Arrives # es) (i, p, r) =
     bindR (net5_transmit e port dest i p) (\<lambda>p1. bindR (deliver se (blk i) junk (pr_machine p1) (pr_machine r)) (\<lambda>s.
       net5_run e se port dest q blk junk es (Suc i, p1, r\<lparr>pr_machine := s\<rparr>)))"
| "net5_run e se port dest q blk junk (Lost # es) (i, p, r) =
     bindR (net5_transmit e port dest i p) (\<lambda>p1. net5_run e se port dest q blk junk es (Suc i, p1, r))"
| "net5_run e se port dest q blk junk (Takes # es) (i, p, r) =
     bindR (net5_receive q r) (\<lambda>(k, r1). if k = Suspended then Inr (Suspended, i, p, r1) else net5_run e se port dest q blk junk es (i, p, r1))"

text \<open>The abstract program: the number of the next message, those that wait and those that have been taken. A receiver that has to wait is not run.\<close>

fun fifo :: "event list \<Rightarrow> nat \<times> nat list \<times> nat list \<Rightarrow> (nat \<times> nat list \<times> nat list) option" where
  "fifo [] x = Some x"
| "fifo (Arrives # es) (i, w, d) = fifo es (Suc i, w @ [i], d)"
| "fifo (Lost # es) (i, w, d) = fifo es (Suc i, w, d)"
| "fifo (Takes # es) (i, [], d) = None"
| "fifo (Takes # es) (i, j # w, d) = fifo es (i, w, d @ [j])"

text \<open>The messages that arrive, in the order in which they are sent.\<close>

fun arrivals :: "event list \<Rightarrow> nat \<Rightarrow> nat list" where
  "arrivals [] i = []"
| "arrivals (Arrives # es) i = i # arrivals es (Suc i)"
| "arrivals (Lost # es) i = arrivals es (Suc i)"
| "arrivals (Takes # es) i = arrivals es i"

lemma arrivals_order:
  "fifo es (i, w, d) = Some (i', w', d') \<Longrightarrow> d' @ w' = d @ w @ arrivals es i \<and> i \<le> i' \<and>
     length (arrivals es i) + length (filter (\<lambda>e. e = Lost) es) = i' - i"
proof (induction es "(i, w, d)" arbitrary: i w d rule: fifo.induct)
  case (2 es i w d)
  then show ?case by (fastforce simp: Suc_diff_le)
next
  case (3 es i w d)
  then show ?case by fastforce
qed auto

text \<open>Before turn \<open>i\<close> of the sender, with the messages \<open>w\<close> waiting and \<open>n\<close> taken.\<close>

definition count_line :: "nat \<Rightarrow> string" where
  "count_line j = line ''Count is '' (j + 1)"

definition waits5 :: "netaddr \<Rightarrow> nat list \<Rightarrow> mail list" where
  "waits5 la w = map (\<lambda>j. (letter (count_line j), la, 0)) w"

definition streaming ::
  "testenv \<Rightarrow> ptr \<Rightarrow> ptr \<Rightarrow> ptr \<Rightarrow> (nat \<Rightarrow> ptr) \<Rightarrow> netaddr \<Rightarrow> netaddr \<Rightarrow> nat \<Rightarrow> nat list \<Rightarrow> nat \<Rightarrow> ('z socks_scheme) prog \<Rightarrow> ('z socks_scheme) prog \<Rightarrow> bool"
  where
  "streaming e port dest q blk la ra i w n p r \<longleftrightarrow> on_net e p \<and> length (pr_buffer r) = 256 \<and> own_address e p = la \<and>
     outlet port dest 0 ra 1 (pr_machine p) \<and> mailboxes [1 \<mapsto> waits5 la w] (pr_machine r) \<and> unbound_ports (pr_machine r) 1 = q \<and>
     network_address_to_sockaddr ra = network_address_to_sockaddr (local_host (pr_machine r)) \<and> nPorts (pr_machine r) = int n \<and>
     (\<forall>j\<in>set w. j < 100) \<and> (\<forall>j\<ge>i. packets (pr_machine r) (blk j) = None)"

lemma count_line_ok: "i < 100 \<Longrightarrow> nul_free (count_line i)" "i < 100 \<Longrightarrow> length (count_line i) < 256"
  using line_fits [of "''Count is ''" i 100] by (simp_all add: nul_free_def count_line_def)

lemma stream_transmit:
  assumes "streaming e port dest q blk la ra i w n p r" "i < 100"
  obtains p1 c where "net5_transmit e port dest i p = Inr p1" "streaming e port dest q blk la ra (Suc i) w n p1 r"
    "pr_out p1 = pr_out p @ line ''Sending packet '' (i + 1)" "posted ra 1 la 0 (count_line i) (pr_machine p1)"
proof -
  have g: "on_net e p" "outlet port dest 0 ra 1 (pr_machine p)" "own_address e p = la" using assms(1) by (simp_all add: streaming_def)
  obtain p1 x where p1: "send_text e port dest (line ''Sending packet '' (i + 1)) (count_line i) p = Inr p1" "on_net e p1"
      "pr_out p1 = pr_out p @ line ''Sending packet '' (i + 1)" "pr_machine p1 = (pr_machine p)\<lparr>wire := x\<rparr>"
      "posted ra 1 (own_address e p) 0 (count_line i) (pr_machine p1)"
    by (rule send_line [OF g(1,2) count_line_ok [OF assms(2)]]) blast
  have sh: "same_host (pr_machine p) (pr_machine p1)" by (simp add: p1(4))
  have "outlet port dest 0 ra 1 (pr_machine p1)" using g(2) sh unfolding same_host_def by blast
  moreover have "own_address e p1 = la" using own_address_same [OF sh] g(3) by simp
  ultimately have "streaming e port dest q blk la ra (Suc i) w n p1 r" using assms(1) p1(2) by (simp add: streaming_def)
  with p1(1,3,5) g(3) show thesis by (intro that) (simp_all add: net5_transmit_def count_line_def)
qed

lemma stream_arrive:
  assumes "streaming e port dest q blk la ra (Suc i) w n p r" "packets (pr_machine r) (blk i) = None" "posted ra 1 la 0 (count_line i) c" "i < 100"
    "inj blk" "\<forall>j. blk j \<noteq> NULL"
  obtains s where "deliver se (blk i) junk c (pr_machine r) = Inr s" "streaming e port dest q blk la ra (Suc i) (w @ [i]) n p (r\<lparr>pr_machine := s\<rparr>)"
proof -
  have g: "mailboxes [1 \<mapsto> waits5 la w] (pr_machine r)" "network_address_to_sockaddr ra = network_address_to_sockaddr (local_host (pr_machine r))"
    using assms(1) by (simp_all add: streaming_def)
  have a: "blk i \<noteq> NULL" using assms(6) by simp
  obtain s where s: "deliver se (blk i) junk c (pr_machine r) = Inr s"
      "mailboxes ([1 \<mapsto> waits5 la w](1 \<mapsto> waits5 la w @ [(letter (count_line i), la, 0)])) s" "same_host (pr_machine r) s"
      "nPorts s = nPorts (pr_machine r)" "unbound_ports s = unbound_ports (pr_machine r)" "\<And>x. x \<noteq> blk i \<Longrightarrow> packets s x = packets (pr_machine r) x"
    by (rule line_arrives [OF assms(3) g(1) _ a assms(2) g(2) count_line_ok(2) [OF assms(4)], of "waits5 la w"]) auto
  have "packets s (blk j) = None" if "Suc i \<le> j" for j
    using s(6) [of "blk j"] that assms(1) inj_eq [OF assms(5), of j i] by (simp add: streaming_def)
  then show thesis using s(2-5) assms(1,4) by (intro that [OF s(1)]) (simp add: streaming_def same_host_def waits5_def)
qed

lemma stream_take:
  assumes "streaming e port dest q blk la ra i (j # w) n p r" "n < 32767"
  obtains r1 where "net5_receive q r = Inr (Completed (), r1)" "streaming e port dest q blk la ra i w (Suc n) p r1"
    "pr_out r1 = pr_out r @ count_line j"
proof -
  have g: "mailboxes [1 \<mapsto> (letter (count_line j), la, 0) # waits5 la w] (pr_machine r)" "nPorts (pr_machine r) < 32767" "length (pr_buffer r) = 256"
    "q = unbound_ports (pr_machine r) 1" "j < 100"
    using assms by (simp_all add: streaming_def waits5_def)
  obtain r1 a where r1: "receive_turn q r = Inr (Completed (), r1)" "length (pr_buffer r1) = 256" "pr_out r1 = pr_out r @ count_line j"
      "mailboxes ([1 \<mapsto> (letter (count_line j), la, 0) # waits5 la w](1 \<mapsto> waits5 la w)) (pr_machine r1)" "same_host (pr_machine r) (pr_machine r1)"
      "nPorts (pr_machine r1) = nPorts (pr_machine r) + 1" "unbound_ports (pr_machine r1) = unbound_ports (pr_machine r)"
      "packets (pr_machine r1) = (packets (pr_machine r))(a := None)"
    by (rule receive_turn_line [OF g(1) _ g(2,3) count_line_ok [OF g(5)] g(4)]) auto
  then show thesis using assms(1)
    by (intro that [of r1]) (auto simp: net5_receive_def streaming_def same_host_def)
qed

lemma stream_run:
  assumes "streaming e port dest q blk la ra i w (length d) p r" "fifo es (i, w, d) = Some (i', w', d')" "i' \<le> 100" "inj blk" "\<forall>j. blk j \<noteq> NULL"
    "length d + length w \<le> i"
  shows "\<exists>p' r'. net5_run e se port dest q blk junk es (i, p, r) = Inr (Completed (), i', p', r') \<and>
    streaming e port dest q blk la ra i' w' (length d') p' r' \<and>
    pr_out p' = pr_out p @ concat (map (\<lambda>j. line ''Sending packet '' (j + 1)) [i..<i']) \<and>
    (\<exists>t. d' = d @ t \<and> pr_out r' = pr_out r @ concat (map count_line t))"
  using assms(1,2,6)
proof (induction es "(i, w, d)" arbitrary: i w d p r rule: fifo.induct)
  case (1 i w d)
  then show ?case by auto
next
  case (2 es i w d)
  have f: "fifo es (Suc i, w @ [i], d) = Some (i', w', d')" using "2.prems"(2) by simp
  then have i: "i < 100" "i < i'" using arrivals_order [OF f] assms(3) by simp_all
  obtain p1 where p1: "net5_transmit e port dest i p = Inr p1" "streaming e port dest q blk la ra (Suc i) w (length d) p1 r"
    "pr_out p1 = pr_out p @ line ''Sending packet '' (i + 1)" "posted ra 1 la 0 (count_line i) (pr_machine p1)"
    by (rule stream_transmit [OF "2.prems"(1) i(1)])
  have fr: "packets (pr_machine r) (blk i) = None" using "2.prems"(1) by (simp add: streaming_def)
  obtain s where s: "deliver se (blk i) junk (pr_machine p1) (pr_machine r) = Inr s"
    "streaming e port dest q blk la ra (Suc i) (w @ [i]) (length d) p1 (r\<lparr>pr_machine := s\<rparr>)"
    by (rule stream_arrive [OF p1(2) fr p1(4) i(1) assms(4,5)])
  have "length d + length (w @ [i]) \<le> Suc i" using "2.prems"(3) by simp
  from "2.hyps" [OF s(2) f this] p1(1,3) s(1) show ?case using i(2) by (fastforce simp: upt_conv_Cons)
next
  case (3 es i w d)
  have f: "fifo es (Suc i, w, d) = Some (i', w', d')" using "3.prems"(2) by simp
  then have i: "i < 100" "i < i'" using arrivals_order [OF f] assms(3) by simp_all
  obtain p1 where p1: "net5_transmit e port dest i p = Inr p1" "streaming e port dest q blk la ra (Suc i) w (length d) p1 r"
    "pr_out p1 = pr_out p @ line ''Sending packet '' (i + 1)"
    by (rule stream_transmit [OF "3.prems"(1) i(1)])
  have "length d + length w \<le> Suc i" using "3.prems"(3) by simp
  from "3.hyps" [OF p1(2) f this] p1(1,3) show ?case using i(2) by (fastforce simp: upt_conv_Cons)
next
  case (4 es i d)
  then show ?case by simp
next
  case (5 es i j w d)
  have f: "fifo es (i, w, d @ [j]) = Some (i', w', d')" using "5.prems"(2) by simp
  have "i \<le> i'" using arrivals_order [OF f] by simp
  then have "length d < 32767" using "5.prems"(3) assms(3) by simp
  then obtain r1 where r1: "net5_receive q r = Inr (Completed (), r1)" "streaming e port dest q blk la ra i w (Suc (length d)) p r1"
    "pr_out r1 = pr_out r @ count_line j"
    by (rule stream_take [OF "5.prems"(1)])
  have st: "streaming e port dest q blk la ra i w (length (d @ [j])) p r1" using r1(2) by simp
  have "length (d @ [j]) + length w \<le> i" using "5.prems"(3) by simp
  from "5.hyps" [OF st f this] r1(1,3) show ?case by fastforce
qed


section \<open>Threads on one machine\<close>

text \<open>
  The threads of \<open>network2.c\<close>, \<open>network3.c\<close> and \<open>network4.c\<close> in any interleaving of their turns. \<open>job ps x i\<close> is the turn \<open>i\<close> of the
  sending thread \<open>x\<close>, \<open>tak ps y\<close> a turn of the receiving thread \<open>y\<close>; \<open>ps\<close> are the ports. The state has the number of messages so far, the machine, the
  counters of the sending threads and the locals of all threads. A message arrives as soon as it is sent, in the block \<open>blk n\<close>.
\<close>

datatype act = Sends nat | Takes_at nat

type_synonym 'm threads = "nat \<times> 'm \<times> (nat \<Rightarrow> nat) \<times> (nat \<Rightarrow> 'm prog) \<times> (nat \<Rightarrow> 'm prog)"

fun loop_run ::
  "(nat \<Rightarrow> nat \<Rightarrow> ('z socks_scheme) prog \<Rightarrow> ('z socks_scheme) prog res) \<Rightarrow>
     (nat \<Rightarrow> ('z socks_scheme) prog \<Rightarrow> (unit outcome \<times> ('z socks_scheme) prog) res) \<Rightarrow> sockenv \<Rightarrow> (nat \<Rightarrow> ptr) \<Rightarrow> byte list \<Rightarrow> act list \<Rightarrow>
     ('z socks_scheme) threads \<Rightarrow> (unit outcome \<times> ('z socks_scheme) threads) res" where
  "loop_run job tak se blk junk [] x = Inr (Completed (), x)"
| "loop_run job tak se blk junk (Sends x # es) (n, s, C, P, R) =
     bindR (job x (C x) ((P x)\<lparr>pr_machine := s\<rparr>)) (\<lambda>p. bindR (deliver se (blk n) junk (pr_machine p) (pr_machine p)) (\<lambda>s1.
       loop_run job tak se blk junk es (Suc n, s1, C(x := Suc (C x)), P(x := p), R)))"
| "loop_run job tak se blk junk (Takes_at y # es) (n, s, C, P, R) =
     bindR (tak y ((R y)\<lparr>pr_machine := s\<rparr>)) (\<lambda>(k, r).
       if k = Suspended then Inr (Suspended, n, pr_machine r, C, P, R(y := r))
       else loop_run job tak se blk junk es (n, pr_machine r, C, P, R(y := r)))"

text \<open>The abstract threads: the counters, the lines that wait for each receiver, and those it has taken.\<close>

fun loop_spec ::
  "(nat \<Rightarrow> nat \<Rightarrow> nat) \<Rightarrow> (nat \<Rightarrow> nat \<Rightarrow> string) \<Rightarrow> act list \<Rightarrow> (nat \<Rightarrow> nat) \<times> (nat \<Rightarrow> string list) \<times> (nat \<Rightarrow> string list) \<Rightarrow>
     ((nat \<Rightarrow> nat) \<times> (nat \<Rightarrow> string list) \<times> (nat \<Rightarrow> string list)) option" where
  "loop_spec dst msg [] x = Some x"
| "loop_spec dst msg (Sends x # es) (C, W, D) =
     loop_spec dst msg es (C(x := Suc (C x)), W(dst x (C x) := W (dst x (C x)) @ [msg x (C x)]), D)"
| "loop_spec dst msg (Takes_at y # es) (C, W, D) =
     (if W y = [] then None else loop_spec dst msg es (C, W(y := tl (W y)), D(y := D y @ [hd (W y)])))"

text \<open>Only the threads of the program are run.\<close>

fun of_program :: "nat \<Rightarrow> nat \<Rightarrow> act \<Rightarrow> bool" where
  "of_program m n (Sends x) = (x < m)"
| "of_program m n (Takes_at y) = (y < n)"

lemma loop_spec_mono: "loop_spec dst msg es (C, W, D) = Some (C', W', D') \<Longrightarrow> C x \<le> C' x"
proof (induction es arbitrary: C W D)
  case Nil
  then show ?case by simp
next
  case (Cons a es)
  show ?case
  proof (cases a)
    case (Sends z)
    with Cons.prems have "(C(z := Suc (C z))) x \<le> C' x" by (auto dest: Cons.IH)
    then show ?thesis by (auto split: if_splits)
  next
    case (Takes_at y)
    with Cons.prems show ?thesis by (auto split: if_splits dest: Cons.IH)
  qed
qed

text \<open>
  What the three programs share: every turn of a sender is one message to a port of the machine, every turn of a receiver takes one from its port.
\<close>

definition aims :: "ptr \<times> ptr \<Rightarrow> netaddr \<Rightarrow> nat \<Rightarrow> 'z socks_scheme \<Rightarrow> bool" where
  "aims ps la y s \<longleftrightarrow> (\<exists>k. 0 \<le> k \<and> k \<le> 32767 \<and> outlet (fst ps) (snd ps) k la (int y) s)"

definition holds_lines :: "(int \<Rightarrow> mail list option) \<Rightarrow> nat \<Rightarrow> string list \<Rightarrow> bool" where
  "holds_lines M y w \<longleftrightarrow> (\<exists>ms. M (int y) = Some ms \<and> map fst ms = map letter w) \<and> (\<forall>t\<in>set w. nul_free t \<and> length t < 256)"

lemma aims_same_host: "aims ps la y s \<Longrightarrow> same_host s s' \<Longrightarrow> aims ps la y s'"
  unfolding aims_def same_host_def by blast

locale loopback =
  fixes job :: "testenv \<Rightarrow> ptr list \<Rightarrow> nat \<Rightarrow> nat \<Rightarrow> ('z socks_scheme) prog \<Rightarrow> ('z socks_scheme) prog res"
    and tak :: "ptr list \<Rightarrow> nat \<Rightarrow> ('z socks_scheme) prog \<Rightarrow> (unit outcome \<times> ('z socks_scheme) prog) res"
    and outs :: "ptr list \<Rightarrow> nat \<Rightarrow> nat \<Rightarrow> ptr \<times> ptr" and ins :: "ptr list \<Rightarrow> nat \<Rightarrow> ptr"
    and shown msg :: "nat \<Rightarrow> nat \<Rightarrow> string" and dst :: "nat \<Rightarrow> nat \<Rightarrow> nat" and senders receivers turns :: nat
  assumes job_sends: "x < senders \<Longrightarrow> job e ps x i p = send_text e (fst (outs ps x i)) (snd (outs ps x i)) (shown x i) (msg x i) p"
    and tak_receives: "y < receivers \<Longrightarrow> tak ps y p = receive_turn (ins ps y) p"
    and dst_ok: "x < senders \<Longrightarrow> dst x i < receivers" and receivers_ok: "receivers \<le> 32768"
    and msg_ok: "x < senders \<Longrightarrow> i < turns \<Longrightarrow> nul_free (msg x i) \<and> length (msg x i) < 256"
begin

definition looping ::
  "testenv \<Rightarrow> ptr list \<Rightarrow> (nat \<Rightarrow> ptr) \<Rightarrow> (nat \<Rightarrow> string list) \<Rightarrow> nat \<Rightarrow> 'z socks_scheme \<Rightarrow> (nat \<Rightarrow> ('z socks_scheme) prog) \<Rightarrow> (nat \<Rightarrow> ('z socks_scheme) prog) \<Rightarrow>
     netaddr \<Rightarrow> (int \<Rightarrow> mail list option) \<Rightarrow> bool" where
  "looping e ps blk W n s P R la M \<longleftrightarrow> (\<forall>x < senders. on_net e ((P x)\<lparr>pr_machine := s\<rparr>) \<and> (\<forall>i. aims (outs ps x i) la (dst x i) s)) \<and>
     (\<forall>y<receivers. length (pr_buffer (R y)) = 256 \<and> unbound_ports s (int y) = ins ps y \<and> holds_lines M y (W y)) \<and>
     network_address_to_sockaddr la = network_address_to_sockaddr (local_host s) \<and> mailboxes M s \<and> (\<forall>j\<ge>n. packets s (blk j) = None)"

lemma loop_send:
  assumes lp: "looping e ps blk W n s P R la M" and x: "x < senders" "i < turns" and blk: "inj blk" "\<forall>j. blk j \<noteq> NULL"
  obtains p s1 M1 where "job e ps x i ((P x)\<lparr>pr_machine := s\<rparr>) = Inr p" "deliver se (blk n) junk (pr_machine p) (pr_machine p) = Inr s1"
    "looping e ps blk (W(dst x i := W (dst x i) @ [msg x i])) (Suc n) s1 (P(x := p)) R la M1" "nPorts s1 = nPorts s"
    "pr_out p = pr_out (P x) @ shown x i"
proof -
  let ?y = "dst x i" and ?t = "msg x i" and ?lu = "fst (outs ps x i)" and ?lb = "snd (outs ps x i)"
  have g: "\<And>x. x < senders \<Longrightarrow> on_net e ((P x)\<lparr>pr_machine := s\<rparr>)" "\<And>x i. x < senders \<Longrightarrow> aims (outs ps x i) la (dst x i) s"
      "\<And>y. y < receivers \<Longrightarrow> length (pr_buffer (R y)) = 256 \<and> unbound_ports s (int y) = ins ps y \<and> holds_lines M y (W y)"
      "network_address_to_sockaddr la = network_address_to_sockaddr (local_host s)" "mailboxes M s" "\<And>j. n \<le> j \<Longrightarrow> packets s (blk j) = None"
    using lp by (simp_all add: looping_def)
  have y: "?y < receivers" by (rule dst_ok [OF x(1)])
  have t: "nul_free ?t" "length ?t < 256" using msg_ok [OF x] by simp_all
  obtain k where k: "0 \<le> k" "k \<le> 32767" "outlet ?lu ?lb k la (int ?y) s" using g(2) [OF x(1), of i] unfolding aims_def by blast
  obtain ms where ms: "M (int ?y) = Some ms" "map fst ms = map letter (W ?y)" using g(3) [OF y] unfolding holds_lines_def by blast
  define p0 where "p0 = (P x)\<lparr>pr_machine := s\<rparr>"
  have p0: "on_net e p0" "pr_machine p0 = s" "pr_out p0 = pr_out (P x)" using g(1) x(1) by (simp_all add: p0_def)
  have o: "outlet ?lu ?lb k la (int ?y) (pr_machine p0)" using k(3) by (simp add: p0(2))
  obtain p w where p: "send_text e ?lu ?lb (shown x i) ?t p0 = Inr p" "on_net e p" "pr_out p = pr_out p0 @ shown x i"
      "pr_machine p = s\<lparr>wire := w\<rparr>" "posted la (int ?y) (own_address e p0) k ?t (pr_machine p)"
    using send_line [OF p0(1) o t, of "shown x i"] unfolding p0(2) by blast
  have c: "mailboxes M (pr_machine p)" "packets (pr_machine p) (blk n) = None" "blk n \<noteq> NULL"
    "network_address_to_sockaddr la = network_address_to_sockaddr (local_host (pr_machine p))"
    using g(4-6) blk(2) by (simp_all add: p(4))
  define M1 where "M1 = M(int ?y \<mapsto> ms @ [(letter ?t, own_address e p0, k)])"
  obtain s1 where s1: "deliver se (blk n) junk (pr_machine p) (pr_machine p) = Inr s1" "mailboxes M1 s1"
      "same_host (pr_machine p) s1" "nPorts s1 = nPorts (pr_machine p)"
      "unbound_ports s1 = unbound_ports (pr_machine p)" "\<And>x. x \<noteq> blk n \<Longrightarrow> packets s1 x = packets (pr_machine p) x"
    unfolding M1_def by (rule line_arrives [OF p(5) c(1) ms(1) c(3,2,4) t(2) k(1,2)]) blast
  have sh: "same_host s s1" using same_host_trans [OF same_host_simps [of s w] s1(3) [unfolded p(4)]] .
  have "looping e ps blk (W(?y := W ?y @ [?t])) (Suc n) s1 (P(x := p)) R la M1" unfolding looping_def
  proof (intro conjI allI impI)
    fix z assume z: "z < senders"
    have "length (pr_buffer ((P(x := p)) z)) = 256" using g(1) [OF z] p(2) by (auto simp: on_net_def)
    then show "on_net e (((P(x := p)) z)\<lparr>pr_machine := s1\<rparr>)" by (intro on_net_same_host [OF p0(1)]) (simp_all add: p0(2) sh)
    show "aims (outs ps z j) la (dst z j) s1" for j using g(2) [OF z] sh by (rule aims_same_host)
  next
    show "network_address_to_sockaddr la = network_address_to_sockaddr (local_host s1)" using g(4) sh by (simp add: same_host_def)
    show "mailboxes M1 s1" by (rule s1(2))
  next
    fix z assume z: "z < receivers"
    show "length (pr_buffer (R z)) = 256" "unbound_ports s1 (int z) = ins ps z" using g(3) [OF z] by (simp_all add: s1(5) p(4))
    show "holds_lines M1 z ((W(?y := W ?y @ [?t])) z)" using g(3) [OF z] ms t by (auto simp: holds_lines_def M1_def)
  next
    fix j assume j: "Suc n \<le> j"
    then have "blk j \<noteq> blk n" using inj_eq [OF blk(1), of j n] by simp
    then show "packets s1 (blk j) = None" using g(6) j by (simp add: s1(6) p(4))
  qed
  then show thesis using p(1,3) s1(1,4) job_sends [OF x(1), of e ps i p0] by (intro that [of p s1]) (simp_all add: p0(3) p(4) flip: p0_def)
qed

lemma loop_take:
  assumes lp: "looping e ps blk W n s P R la M" and y: "y < receivers" "W y = t # ts" and n: "nPorts s < 32767"
  obtains r M1 where "tak ps y ((R y)\<lparr>pr_machine := s\<rparr>) = Inr (Completed (), r)"
    "looping e ps blk (W(y := ts)) n (pr_machine r) P (R(y := r)) la M1" "nPorts (pr_machine r) = nPorts s + 1" "pr_out r = pr_out (R y) @ t"
proof -
  have g: "\<And>x. x < senders \<Longrightarrow> on_net e ((P x)\<lparr>pr_machine := s\<rparr>)" "\<And>x i. x < senders \<Longrightarrow> aims (outs ps x i) la (dst x i) s"
      "\<And>y. y < receivers \<Longrightarrow> length (pr_buffer (R y)) = 256 \<and> unbound_ports s (int y) = ins ps y \<and> holds_lines M y (W y)"
      "network_address_to_sockaddr la = network_address_to_sockaddr (local_host s)" "mailboxes M s" "\<And>j. n \<le> j \<Longrightarrow> packets s (blk j) = None"
    using lp by (simp_all add: looping_def)
  obtain ms' where ms': "M (int y) = Some ms'" "map fst ms' = letter t # map letter ts" "nul_free t" "length t < 256"
    using g(3) [OF y(1)] y(2) by (auto simp: holds_lines_def)
  then obtain a k ms where ms: "M (int y) = Some ((letter t, a, k) # ms)" "map fst ms = map letter ts" by (cases ms') auto
  define r0 where "r0 = (R y)\<lparr>pr_machine := s\<rparr>"
  have r0: "mailboxes M (pr_machine r0)" "nPorts (pr_machine r0) < 32767" "length (pr_buffer r0) = 256" "ins ps y = unbound_ports (pr_machine r0) (int y)"
    "pr_out r0 = pr_out (R y)" "pr_machine r0 = s"
    using g(5) g(3) [OF y(1)] n by (simp_all add: r0_def)
  obtain r x where r: "receive_turn (ins ps y) r0 = Inr (Completed (), r)" "length (pr_buffer r) = 256" "pr_out r = pr_out r0 @ t"
    "mailboxes (M(int y \<mapsto> ms)) (pr_machine r)" "same_host s (pr_machine r)" "nPorts (pr_machine r) = nPorts s + 1"
    "unbound_ports (pr_machine r) = unbound_ports s" "packets (pr_machine r) = (packets s)(x := None)"
    using receive_turn_line [OF r0(1) ms(1) r0(2,3) ms'(3,4) r0(4)] unfolding r0(6) by blast
  have "looping e ps blk (W(y := ts)) n (pr_machine r) P (R(y := r)) la (M(int y \<mapsto> ms))" unfolding looping_def
  proof (intro conjI allI impI)
    fix z assume z: "z < senders"
    show "on_net e ((P z)\<lparr>pr_machine := pr_machine r\<rparr>)"
      by (rule on_net_same_host [OF g(1) [OF z]]) (use g(1) [OF z] r(5) in \<open>simp_all add: on_net_def\<close>)
    show "aims (outs ps z j) la (dst z j) (pr_machine r)" for j using g(2) [OF z] r(5) by (rule aims_same_host)
  next
    show "network_address_to_sockaddr la = network_address_to_sockaddr (local_host (pr_machine r))" using g(4) r(5) by (simp add: same_host_def)
    show "mailboxes (M(int y \<mapsto> ms)) (pr_machine r)" by (rule r(4))
  next
    fix z assume z: "z < receivers"
    show "length (pr_buffer ((R(y := r)) z)) = 256" "unbound_ports (pr_machine r) (int z) = ins ps z" using g(3) [OF z] by (simp_all add: r(2,7))
    show "holds_lines (M(int y \<mapsto> ms)) z ((W(y := ts)) z)" using g(3) [OF z] ms(2) y(2) by (auto simp: holds_lines_def)
  next
    fix j assume "n \<le> j"
    then show "packets (pr_machine r) (blk j) = None" using g(6) by (simp add: r(8))
  qed
  then show thesis using r(1,3,6) tak_receives [OF y(1), of ps r0] by (intro that [of r]) (simp_all add: r0(5) flip: r0_def)
qed

lemma loop_runs:
  assumes "looping e ps blk W n s P R la M" "loop_spec dst msg es (C, W, D) = Some (C', W', D')" "list_all (of_program senders receivers) es" "\<forall>x. C' x \<le> turns"
    "nPorts s + int (length es) \<le> 32767" "inj blk" "\<forall>j. blk j \<noteq> NULL"
  shows "\<exists>n' s' P' R' M'. loop_run (job e ps) (tak ps) se blk junk es (n, s, C, P, R) = Inr (Completed (), n', s', C', P', R') \<and>
    looping e ps blk W' n' s' P' R' la M' \<and> (\<forall>y. \<exists>t. D' y = D y @ t \<and> pr_out (R' y) = pr_out (R y) @ concat t)"
  using assms(1-3,5)
proof (induction es arbitrary: W n s P R M C D)
  case Nil
  then show ?case by auto
next
  case (Cons a es)
  have pr: "list_all (of_program senders receivers) es" using Cons.prems(3) by simp
  show ?case
  proof (cases a)
    case (Sends x)
    let ?i = "C x"
    have sp: "loop_spec dst msg es (C(x := Suc ?i), W(dst x ?i := W (dst x ?i) @ [msg x ?i]), D) = Some (C', W', D')"
      using Cons.prems(2) Sends by simp
    have "C' x \<le> turns" using assms(4) by blast
    then have i: "?i < turns" using loop_spec_mono [OF sp, of x] by simp
    have x: "x < senders" using Cons.prems(3) Sends by simp
    obtain p s1 M1 where p: "job e ps x ?i ((P x)\<lparr>pr_machine := s\<rparr>) = Inr p" "deliver se (blk n) junk (pr_machine p) (pr_machine p) = Inr s1"
      "looping e ps blk (W(dst x ?i := W (dst x ?i) @ [msg x ?i])) (Suc n) s1 (P(x := p)) R la M1" "nPorts s1 = nPorts s"
      by (rule loop_send [OF Cons.prems(1) x i assms(6,7)]) blast
    have "nPorts s1 + int (length es) \<le> 32767" using Cons.prems(4) p(4) by simp
    from Cons.IH [OF p(3) sp pr this] p(1,2) Sends show ?thesis by (simp del: fun_upd_apply)
  next
    case (Takes_at y)
    have w: "W y \<noteq> []" using Cons.prems(2) Takes_at by (auto split: if_splits)
    then obtain t ts where t: "W y = t # ts" by (cases "W y") auto
    have sp: "loop_spec dst msg es (C, W(y := ts), D(y := D y @ [t])) = Some (C', W', D')" using Cons.prems(2) Takes_at t by simp
    have y: "y < receivers" using Cons.prems(3) Takes_at by simp
    have n: "nPorts s < 32767" using Cons.prems(4) by simp
    obtain r M1 where r: "tak ps y ((R y)\<lparr>pr_machine := s\<rparr>) = Inr (Completed (), r)"
      "looping e ps blk (W(y := ts)) n (pr_machine r) P (R(y := r)) la M1" "nPorts (pr_machine r) = nPorts s + 1" "pr_out r = pr_out (R y) @ t"
      by (rule loop_take [OF Cons.prems(1) y t n])
    have "nPorts (pr_machine r) + int (length es) \<le> 32767" using Cons.prems(4) r(3) by simp
    from Cons.IH [OF r(2) sp pr this] obtain n' s' P' R' M' where
      1: "loop_run (job e ps) (tak ps) se blk junk es (n, pr_machine r, C, P, R(y := r)) = Inr (Completed (), n', s', C', P', R')"
        "looping e ps blk W' n' s' P' R' la M'"
        "\<forall>z. \<exists>u. D' z = (D(y := D y @ [t])) z @ u \<and> pr_out (R' z) = pr_out ((R(y := r)) z) @ concat u" by blast
    have "\<exists>u. D' z = D z @ u \<and> pr_out (R' z) = pr_out (R z) @ concat u" for z
    proof -
      obtain u where "D' z = (D(y := D y @ [t])) z @ u" "pr_out (R' z) = pr_out ((R(y := r)) z) @ concat u" using 1(3) by blast
      then show ?thesis using r(4) by (intro exI [of _ "if z = y then t # u else u"]) auto
    qed
    then show ?thesis using 1(1,2) r(1) Takes_at by auto
  qed
qed

end

text \<open>The lines that are sent to \<open>y\<close>, in the order in which they are sent.\<close>

fun sent_lines :: "(nat \<Rightarrow> nat \<Rightarrow> nat) \<Rightarrow> (nat \<Rightarrow> nat \<Rightarrow> string) \<Rightarrow> act list \<Rightarrow> (nat \<Rightarrow> nat) \<Rightarrow> nat \<Rightarrow> string list" where
  "sent_lines dst msg [] C y = []"
| "sent_lines dst msg (Sends x # es) C y =
     (if dst x (C x) = y then [msg x (C x)] else []) @ sent_lines dst msg es (C(x := Suc (C x))) y"
| "sent_lines dst msg (Takes_at z # es) C y = sent_lines dst msg es C y"

lemma loop_spec_order:
  "loop_spec dst msg es (C, W, D) = Some (C', W', D') \<Longrightarrow> D' y @ W' y = D y @ W y @ sent_lines dst msg es C y"
proof (induction es arbitrary: C W D)
  case Nil
  then show ?case by simp
next
  case (Cons a es)
  show ?case
  proof (cases a)
    case (Sends x)
    then have "loop_spec dst msg es (C(x := Suc (C x)), W(dst x (C x) := W (dst x (C x)) @ [msg x (C x)]), D) = Some (C', W', D')"
      using Cons.prems by simp
    then have "D' y @ W' y = D y @ (W(dst x (C x) := W (dst x (C x)) @ [msg x (C x)])) y @ sent_lines dst msg es (C(x := Suc (C x))) y"
      by (rule Cons.IH)
    then show ?thesis using Sends by (cases "y = dst x (C x)") simp_all
  next
    case (Takes_at z)
    then have w: "W z \<noteq> []" "loop_spec dst msg es (C, W(z := tl (W z)), D(z := D z @ [hd (W z)])) = Some (C', W', D')"
      using Cons.prems by (auto split: if_splits)
    from w(2) have "D' y @ W' y = (D(z := D z @ [hd (W z)])) y @ (W(z := tl (W z))) y @ sent_lines dst msg es C y" by (rule Cons.IH)
    with w(1) show ?thesis using Takes_at by (cases "y = z") simp_all
  qed
qed

text \<open>With one sending thread.\<close>

lemma sent_lines_one:
  "loop_spec dst msg es (C, W, D) = Some (C', W', D') \<Longrightarrow> \<forall>a\<in>set es. \<forall>x. a = Sends x \<longrightarrow> x = 0 \<Longrightarrow>
     sent_lines dst msg es C y = map (msg 0) (filter (\<lambda>i. dst 0 i = y) [C 0..<C' 0])"
proof (induction es arbitrary: C W D)
  case Nil
  then show ?case by simp
next
  case (Cons a es)
  show ?case
  proof (cases a)
    case (Sends x)
    then have x: "x = 0" using Cons.prems(2) by simp
    have sp: "loop_spec dst msg es (C(0 := Suc (C 0)), W(dst 0 (C 0) := W (dst 0 (C 0)) @ [msg 0 (C 0)]), D) = Some (C', W', D')"
      using Cons.prems(1) Sends x by simp
    have "C 0 < C' 0" using loop_spec_mono [OF sp, of 0] by simp
    moreover have "sent_lines dst msg es (C(0 := Suc (C 0))) y = map (msg 0) (filter (\<lambda>i. dst 0 i = y) [(C(0 := Suc (C 0))) 0..<C' 0])"
      by (rule Cons.IH [OF sp]) (use Cons.prems(2) in simp)
    ultimately show ?thesis using Sends x by (simp add: upt_conv_Cons del: fun_upd_apply) simp
  next
    case (Takes_at z)
    then show ?thesis using Cons.IH Cons.prems by (auto split: if_splits)
  qed
qed

section \<open>The three programs\<close>

text \<open>\<open>ps\<close> are the port and the bound port of \<open>network2.c\<close>.\<close>

definition job2 :: "testenv \<Rightarrow> ptr list \<Rightarrow> nat \<Rightarrow> nat \<Rightarrow> ('z socks_scheme) prog \<Rightarrow> ('z socks_scheme) prog res" where
  "job2 e ps x i p = net2_transmit e (ps ! 0) (ps ! 1) i p"

definition tak2 :: "ptr list \<Rightarrow> nat \<Rightarrow> ('z socks_scheme) prog \<Rightarrow> (unit outcome \<times> ('z socks_scheme) prog) res" where
  "tak2 ps y p = net2_receive (ps ! 0) p"

text \<open>
  The two ports and the two bound ports of \<open>network3.c\<close>. Its sender is cut at its yield: the turn \<open>k\<close> is a half of the turn
  \<open>k div 2\<close> of its loop.
\<close>

definition job3 :: "testenv \<Rightarrow> ptr list \<Rightarrow> nat \<Rightarrow> nat \<Rightarrow> ('z socks_scheme) prog \<Rightarrow> ('z socks_scheme) prog res" where
  "job3 e ps x k p = (if even k then net3_transmit1 e (ps ! 0) (ps ! 2) (k div 2) p else net3_transmit2 e (ps ! 1) (ps ! 3) (k div 2) p)"

definition tak3 :: "ptr list \<Rightarrow> nat \<Rightarrow> ('z socks_scheme) prog \<Rightarrow> (unit outcome \<times> ('z socks_scheme) prog) res" where
  "tak3 ps y p = (if y = 0 then net3_receive1 (ps ! 0) p else net3_receive2 (ps ! 1) p)"

text \<open>The port of \<open>network4.c\<close> and the bound ports of its two senders.\<close>

definition job4 :: "testenv \<Rightarrow> ptr list \<Rightarrow> nat \<Rightarrow> nat \<Rightarrow> ('z socks_scheme) prog \<Rightarrow> ('z socks_scheme) prog res" where
  "job4 e ps x i p = (if x = 0 then net4_transmit1 e (ps ! 0) (ps ! 1) i p else net4_transmit2 e (ps ! 0) (ps ! 2) i p)"

definition tak4 :: "ptr list \<Rightarrow> nat \<Rightarrow> ('z socks_scheme) prog \<Rightarrow> (unit outcome \<times> ('z socks_scheme) prog) res" where
  "tak4 ps y p = net4_receive (ps ! 0) p"

definition msg3 :: "nat \<Rightarrow> nat \<Rightarrow> string" where
  "msg3 x k = line (if even k then ''Count for receiver 1 is '' else ''Count for receiver 2 is '') (k div 2 + 1)"

definition msg4 :: "nat \<Rightarrow> nat \<Rightarrow> string" where
  "msg4 x i = line (if x = 0 then ''Count from sender 1 is '' else ''Count from sender 2 is '') (i + 1)"

interpretation net2: loopback job2 tak2 "\<lambda>ps x i. (ps ! 0, ps ! 1)" "\<lambda>ps y. ps ! 0" "\<lambda>x i. line ''Sending packet '' (i + 1)"
  "\<lambda>x i. line ''Count is '' (i + 1)" "\<lambda>x i. 0" 1 1 100
proof
  fix x i :: nat
  assume "i < 100"
  then show "nul_free (line ''Count is '' (i + 1)) \<and> length (line ''Count is '' (i + 1)) < 256"
    by (intro line_fits [of _ i 100]) (simp_all add: nul_free_def)
qed (simp_all add: job2_def tak2_def net2_transmit_def net2_receive_def)

interpretation net3: loopback job3 tak3 "\<lambda>ps x k. if even k then (ps ! 0, ps ! 2) else (ps ! 1, ps ! 3)" "\<lambda>ps y. if y = 0 then ps ! 0 else ps ! 1"
  "\<lambda>x k. line3 ''Sending packet '' (k div 2 + 1) (if even k then '' to receiver 1'' else '' to receiver 2'')" msg3 "\<lambda>x k. k mod 2" 1 2 200
proof
  fix x k :: nat
  assume "k < 200"
  then show "nul_free (msg3 x k) \<and> length (msg3 x k) < 256" unfolding msg3_def
    by (intro line_fits [of _ "k div 2" 100]) (auto simp: nul_free_def)
qed (simp_all add: job3_def tak3_def net3_transmit1_def net3_transmit2_def net3_receive1_def net3_receive2_def msg3_def)

interpretation net4: loopback job4 tak4 "\<lambda>ps x i. (ps ! 0, if x = 0 then ps ! 1 else ps ! 2)" "\<lambda>ps y. ps ! 0"
  "\<lambda>x i. line3 ''Sending packet '' (i + 1) (if x = 0 then '' from sender 1'' else '' from sender 2'')" msg4 "\<lambda>x i. 0" 2 1 80
proof
  fix x i :: nat
  assume "i < 80"
  then show "nul_free (msg4 x i) \<and> length (msg4 x i) < 256" unfolding msg4_def
    by (intro line_fits [of _ i 100]) (auto simp: nul_free_def)
qed (simp_all add: job4_def tak4_def net4_transmit1_def net4_transmit2_def net4_receive_def msg4_def)

lemma net3_opens:
  assumes "no_mail (pr_machine p)" "on_net e p"
  obtains port1 port2 w1 w2 s where "net3_ports e p = Inr (Completed (port1, port2, w1, w2), p\<lparr>pr_machine := s\<rparr>)"
    "mailboxes [0 \<mapsto> [], 1 \<mapsto> []] s" "same_host (pr_machine p) s" "unbound_ports s 0 = port1" "unbound_ports s 1 = port2"
    "outlet port1 w1 0 (own_address e p) 0 s" "outlet port2 w2 1 (own_address e p) 1 s" "nPorts s = 2" "packets s = packets (pr_machine p)"
proof -
  let ?s = "pr_machine p" and ?a = "own_address e p"
  have n: "mailboxes (\<lambda>i. None) ?s" "unbound_ports ?s = (\<lambda>i. NULL)" "nPorts ?s = 0" "port_brk ?s \<noteq> NULL"
    using assms(1) by (simp_all add: no_mail_def mailboxes_def)
  obtain s1 where l: "miniport_create_unbound (te_sem e) True 0 ?s = Inr (port_brk ?s, s1)" "mailboxes [0 \<mapsto> []] s1" "same_host ?s s1"
      "nPorts s1 = nPorts ?s" "port_brk s1 = Suc (port_brk ?s)" "unbound_ports s1 = (unbound_ports ?s)(0 := port_brk ?s)"
      "packets s1 = packets ?s" "\<exists>u. miniports s1 (port_brk ?s) = Some \<lparr>p_number = 0, p_union = u\<rparr>"
    by (rule open_mailbox [OF n(1), of 0]) (auto simp: n(2))
  have f1: "[0 :: int \<mapsto> [] :: mail list] 1 = None" "unbound_ports s1 1 = NULL" by (simp_all add: l(6) n(2))
  obtain s2 where m: "miniport_create_unbound (te_sem e) True 1 s1 = Inr (port_brk s1, s2)" "mailboxes ([0 \<mapsto> []](1 \<mapsto> [])) s2" "same_host s1 s2"
      "nPorts s2 = nPorts s1" "port_brk s2 = Suc (port_brk s1)" "unbound_ports s2 = (unbound_ports s1)(1 := port_brk s1)"
      "packets s2 = packets s1" "\<exists>u. miniports s2 (port_brk s1) = Some \<lparr>p_number = 1, p_union = u\<rparr>"
    by (rule open_mailbox [OF l(2), of 1]) (auto simp: f1)
  have o1: "nPorts s2 < 32767" "(0 :: int) \<le> 0" "(0 :: int) \<le> 32767" using m(4) l(4) n(3) by simp_all
  obtain s3 where b: "miniport_create_bound True (Some ?a) 0 s2 = Inr (Completed (port_brk s2), s3)" "mailboxes ([0 \<mapsto> []](1 \<mapsto> [])) s3" "same_host s2 s3"
      "nPorts s3 = nPorts s2 + 1" "port_brk s3 = Suc (port_brk s2)" "unbound_ports s3 = unbound_ports s2" "packets s3 = packets s2"
      "\<And>lu k u. miniports s2 lu = Some \<lparr>p_number = k, p_union = u\<rparr> \<Longrightarrow> lu \<noteq> NULL \<Longrightarrow> outlet lu (port_brk s2) k ?a 0 s3"
    by (rule open_outlet [OF m(2) o1, of ?a]) blast
  have o2: "nPorts s3 < 32767" "(0 :: int) \<le> 1" "(1 :: int) \<le> 32767" using b(4) m(4) l(4) n(3) by simp_all
  obtain s4 where c: "miniport_create_bound True (Some ?a) 1 s3 = Inr (Completed (port_brk s3), s4)" "mailboxes ([0 \<mapsto> []](1 \<mapsto> [])) s4" "same_host s3 s4"
      "nPorts s4 = nPorts s3 + 1" "unbound_ports s4 = unbound_ports s3" "packets s4 = packets s3"
      "\<And>lu k u. miniports s3 lu = Some \<lparr>p_number = k, p_union = u\<rparr> \<Longrightarrow> lu \<noteq> NULL \<Longrightarrow> outlet lu (port_brk s3) k ?a 1 s4"
    by (rule open_outlet [OF b(2) o2, of ?a]) blast
  let ?M = "[0 \<mapsto> [], 1 \<mapsto> []] :: int \<Rightarrow> mail list option"
  have u: "unbound_ports s2 0 = port_brk ?s" "unbound_ports s3 1 = port_brk s1" "unbound_ports s4 0 = port_brk ?s" "unbound_ports s4 1 = port_brk s1"
    by (simp_all add: l(6) m(6) b(6) c(5))
  have M: "?M 0 = Some []" "?M 1 = Some []" by simp_all
  obtain x where "miniports s2 (port_brk ?s) = Some \<lparr>p_number = 0, p_union = x\<rparr>" using mailbox_port(2) [OF m(2) M(1)] u(1) by auto
  from b(8) [OF this] have "outlet (port_brk ?s) (port_brk s2) 0 ?a 0 s3" using mailbox_port(1) [OF m(2) M(1)] u(1) by simp
  then have o3: "outlet (port_brk ?s) (port_brk s2) 0 ?a 0 s4" using c(3) unfolding same_host_def by blast
  obtain y where "miniports s3 (port_brk s1) = Some \<lparr>p_number = 1, p_union = y\<rparr>" using mailbox_port(2) [OF b(2) M(2)] u(2) by auto
  from c(7) [OF this] have o4: "outlet (port_brk s1) (port_brk s3) 1 ?a 1 s4" using mailbox_port(1) [OF b(2) M(2)] u(2) by simp
  have run: "net3_ports e p = Inr (Completed (port_brk ?s, port_brk s1, port_brk s2, port_brk s3), p\<lparr>pr_machine := s4\<rparr>)"
    by (simp add: net3_ports_def listen_def bind_to_def l(1) m(1) b(1) c(1))
  have sh: "same_host ?s s4" by (rule same_host_trans [OF l(3) same_host_trans [OF m(3) same_host_trans [OF b(3) c(3)]]])
  show thesis
    by (rule that [OF run c(2) sh u(3,4) o3 o4]) (simp_all add: l(4,7) m(4,7) b(4,7) c(4,6) n(3))
qed

lemma halves:
  "map (msg3 0) (filter (\<lambda>k. k mod 2 = 0) [0..<c]) = map (\<lambda>i. line ''Count for receiver 1 is '' (i + 1)) [0..<(c + 1) div 2]"
  "map (msg3 0) (filter (\<lambda>k. k mod 2 = Suc 0) [0..<c]) = map (\<lambda>i. line ''Count for receiver 2 is '' (i + 1)) [0..<c div 2]"
proof (induction c)
  case 0
  {
    case 1
    show ?case by simp
  next
    case 2
    show ?case by simp
  }
next
  case (Suc c)
  {
    case 1
    show ?case using Suc.IH(1) by (cases "even c") (auto simp: msg3_def elim!: evenE oddE)
  next
    case 2
    show ?case using Suc.IH(2) by (cases "even c") (auto simp: msg3_def elim!: evenE oddE)
  }
qed


text \<open>The message of \<open>network1.c\<close> to itself.\<close>

lemma hello_world:
  assumes "starts e blk p"
  shows "\<exists>q p1 s p2. net1_thread e p = Inr (Completed q, p1) \<and> deliver se (blk 0) junk (pr_machine p1) (pr_machine p1) = Inr s \<and>
    net1_receive q (p1\<lparr>pr_machine := s\<rparr>) = Inr (Completed (), p2) \<and> pr_out p2 = pr_out p @ text1"
proof -
  note st = assms [unfolded starts_def on_net_def]
  let ?s = "pr_machine p" and ?a = "own_address e p"
  have n: "mailboxes (\<lambda>i. None) ?s" "unbound_ports ?s = (\<lambda>i. NULL)" "nPorts ?s = 0" using st by (simp_all add: no_mail_def)
  obtain s1 where l: "miniport_create_unbound (te_sem e) True 0 ?s = Inr (port_brk ?s, s1)" "mailboxes [0 \<mapsto> []] s1" "same_host ?s s1"
      "nPorts s1 = nPorts ?s" "unbound_ports s1 = (unbound_ports ?s)(0 := port_brk ?s)" "packets s1 = packets ?s"
    by (rule open_mailbox [OF n(1), of 0]) (auto simp: n(2))
  have o1: "nPorts s1 < 32767" "(0 :: int) \<le> 0" "(0 :: int) \<le> 32767" using l(4) n(3) by simp_all
  obtain s2 where b: "miniport_create_bound True (Some ?a) 0 s1 = Inr (Completed (port_brk s1), s2)" "mailboxes [0 \<mapsto> []] s2" "same_host s1 s2"
      "nPorts s2 = nPorts s1 + 1" "unbound_ports s2 = unbound_ports s1" "packets s2 = packets s1"
      "\<And>lu k u. miniports s1 lu = Some \<lparr>p_number = k, p_union = u\<rparr> \<Longrightarrow> lu \<noteq> NULL \<Longrightarrow> outlet lu (port_brk s1) k ?a 0 s2"
    by (rule open_outlet [OF l(2) o1, of ?a]) blast
  let ?M = "[0 \<mapsto> []] :: int \<Rightarrow> mail list option"
  have M: "?M 0 = Some []" and q: "unbound_ports s1 0 = port_brk ?s" by (simp_all add: l(5))
  obtain x where "miniports s1 (port_brk ?s) = Some \<lparr>p_number = 0, p_union = x\<rparr>" using mailbox_port(2) [OF l(2) M] q by auto
  from b(7) [OF this] have o: "outlet (port_brk ?s) (port_brk s1) 0 ?a 0 s2" using mailbox_port(1) [OF l(2) M] q by simp
  have sh: "same_host ?s s2" by (rule same_host_trans [OF l(3) b(3)])
  have f: "\<not> synthetic_network s2" "length (te_header e) = mini_header_size" using sh st by (simp_all add: same_host_def)
  have len: "0 \<le> net1_textlen" "net1_textlen \<le> 4096" "net1_textlen \<le> int (length (bytes_of text1 @ [0]))" by (simp_all add: net1_textlen_def text1_def)
  define h where "h = minimsg_header (te_header e) (network_get_my_address (te_net e) (0, 0) s2) 0 ?a 0"
  define s3 where "s3 = s2\<lparr>wire := wire s2 @ [(network_address_to_sockaddr ?a, h @ letter text1)]\<rparr>"
  have tk: "take (nat net1_textlen) (bytes_of text1 @ [0]) = letter text1" by (simp add: net1_textlen_def letter_def nat_add_distrib)
  obtain r where "minimsg_send (te_net e) (te_lost e) (te_dup e) (te_header e) (port_brk ?s) (port_brk s1) (Some (bytes_of text1 @ [0])) net1_textlen s2 = Inr (r, s3)"
    using send_mail [OF o f(1) len f(2) h_def, where lost = "te_lost e" and dup = "te_dup e"] unfolding tk s3_def by blast
  then have t: "net1_thread e p = Inr (Completed (port_brk ?s), p\<lparr>pr_machine := s3\<rparr>)"
    by (simp add: net1_thread_def listen_def bind_to_def l(1) b(1))
  have ps: "posted ?a 0 (network_get_my_address (te_net e) (0, 0) s2) 0 text1 s3" using f(2) by (auto simp: posted_def s3_def h_def)
  have tx: "nul_free text1" "length text1 < 256" by (simp_all add: text1_def nul_free_def)
  have c: "mailboxes ?M s3" "blk 0 \<noteq> NULL" "packets s3 (blk 0) = None" "network_address_to_sockaddr ?a = network_address_to_sockaddr (local_host s3)"
    "length (pr_buffer p) = 256" using b(2,6) l(6) st sh by (simp_all add: s3_def same_host_def)
  obtain s4 where d: "deliver se (blk 0) junk s3 s3 = Inr s4"
      "mailboxes (?M(0 \<mapsto> [] @ [(letter text1, network_get_my_address (te_net e) (0, 0) s2, 0)])) s4" "nPorts s4 = nPorts s3" "unbound_ports s4 = unbound_ports s3"
    by (rule line_arrives [OF ps c(1) _ c(2-4) tx(2), of "[]"]) auto
  define p4 where "p4 = p\<lparr>pr_machine := s4\<rparr>"
  have m4: "mailboxes [0 \<mapsto> [(letter text1, network_get_my_address (te_net e) (0, 0) s2, 0)]] (pr_machine p4)" "nPorts (pr_machine p4) < 32767"
    "length (pr_buffer p4) = 256" "port_brk ?s = unbound_ports (pr_machine p4) 0"
    using d(2-4) c(5) b(4,5) l(4) n(3) q by (simp_all add: p4_def s3_def)
  obtain p5 where "receive_text (port_brk ?s) p4 = Inr (Completed (), p5)" "pr_out p5 = pr_out p4 @ text1"
    by (rule receive_line [OF m4(1) _ m4(2,3) tx m4(4)]) auto
  then show ?thesis using t d(1) by (auto simp: net1_receive_def p4_def)
qed

section \<open>Examples\<close>

text \<open>A machine that has just been started, with the memory block \<open>j + 1\<close> for the \<open>j\<close>-th packet.\<close>

definition fresh_host :: socks where
  "fresh_host = msg.extend (net.extend (quiet_net\<lparr>sems := [1 \<mapsto> \<lparr>s_count = 1, wait_list = Some queue_new\<rparr>], sem_brk := 2\<rparr>)
     \<lparr>packets = Map.empty, nPorts = 0, bound_ports_free = (\<lambda>i. True), unbound_ports = (\<lambda>i. NULL), msg_mutex = 1, miniports = Map.empty, port_brk = 1\<rparr>)
     \<lparr>sockets = Map.empty, sock_brk = 1, ports = (\<lambda>i. NULL), n_client_ports = 32768,
      local_host = network_get_my_address plain_env (0, 0) quiet_net, ports_mutex = 1\<rparr>"

definition test_host :: "socks prog" where
  "test_host = \<lparr>pr_buffer = replicate 256 0, pr_from = NULL, pr_out = [], pr_machine = fresh_host\<rparr>"

definition test_env :: testenv where
  "test_env = \<lparr>te_net = plain_env, te_lost = False, te_dup = False, te_header = replicate 21 0, te_sem = \<lparr>s_count = 0, wait_list = None\<rparr>\<rparr>"

lemma fresh_host_fields: "local_host fresh_host = network_get_my_address plain_env (0, 0) quiet_net" "\<not> synthetic_network fresh_host"
  "my_udp_port fresh_host = 8099" "other_udp_port fresh_host = 8099" "packets fresh_host = Map.empty" "no_mail fresh_host"
proof -
  show "no_mail fresh_host"
    by (auto simp: no_mail_def mailboxes_def boxes_def counts_def fresh_host_def net.defs msg.defs quiet_net_def system.defs zeroed_def)
qed (simp_all add: fresh_host_def net.defs msg.defs quiet_net_def system.defs zeroed_def)

lemma fresh_address: "network_get_my_address plain_env a fresh_host = network_get_my_address plain_env a quiet_net"
  by (simp add: network_get_my_address_def network_translate_hostname_def fresh_host_fields cong: option.case_cong)
     (simp add: quiet_net_def system.defs cong: option.case_cong)

lemma test_host_starts: "starts test_env Suc test_host"
  by (simp add: starts_def on_net_def test_env_def test_host_def own_address_def fresh_host_fields fresh_address mini_header_size_def inj_Suc)

definition test_peer :: netaddr where
  "test_peer = (0x0100007F, ucast (htons 8099))"

lemma test_peer: "network_translate_hostname (te_net test_env) ''peer'' (0, 0) (pr_machine test_host) = (0, test_peer)"
  "network_address_to_sockaddr test_peer = network_address_to_sockaddr (local_host (pr_machine test_host))"
  by (simp_all add: test_env_def test_host_def fresh_host_fields network_translate_hostname_def network_get_my_address_def plain_env_def
      isalpha_def quiet_net_def system.defs test_peer_def)

theorem ping_pong_witness:
  "\<exists>port dest q p1 r1 p2 r2. transmit_first_ports test_env ''peer'' test_host = Inr (Completed (port, dest), p1) \<and>
    receive_first_ports test_env test_host = Inr (q, r1) \<and>
    ping_turns 100 test_env test_env good_env good_env port dest q Suc Suc [] 0 (p1, r1) = Inr (Completed (), p2, r2) \<and>
    pr_out p2 = pings 0 100 \<and> pr_out r2 = pongs 0 100"
proof -
  have "pr_out test_host = []" by (simp add: test_host_def)
  with ping_pong [OF test_host_starts test_host_starts _ test_peer, of 100 good_env good_env "[]"] show ?thesis by simp blast
qed



end
