(* ===== verification/Spec2Isabelle.thy ===== *)
theory Spec2Isabelle
  imports Queue Multilevel_Queue Alarm Minithread Synch Miniheader Network Minimsg Minisocket Ufsdisk Cstring Timer Addr Link_State
    Connection Gossip Connect Forward Node Input Conversation Mersenne Broadcast Machine Atomic Interrupts
    Thread_Exit Bounded_Buffer Kernel_Buffer Sieve Conn_Network Datagram Network_Tests
begin

text \<open>
  This library verifies the programs of \<^verbatim>\<open>src/\<close>: the threads, semaphores, alarms and networking of
  PortOS (\<^verbatim>\<open>src/P1-P4\<close>), the link-state node of \<^verbatim>\<open>src/P5\<close> and the file system layer of
  \<^verbatim>\<open>src/P6\<close>. Every theory but \<open>Prelude\<close>, \<open>Cstring\<close>, \<open>Forward\<close>, \<open>Node\<close>, \<open>Input\<close>,
  \<open>Conversation\<close>, \<open>Datagram\<close>, \<open>Thread_Exit\<close>, \<open>Kernel_Buffer\<close>, \<open>Conn_Network\<close>, \<open>Network_Tests\<close> and this one models one C file or a part of it.

  \<^bold>\<open>How C is modelled.\<close> A call returns \<open>Inr\<close> of its result and the new state, or \<open>Inl\<close> of a fault: a failed
  assert, an access through NULL, to a freed structure, outside an array, or to the wrong member of a union (\<open>Prelude.fault\<close>).
  Structures live in stores (maps from addresses to records) with NULL = 0, arrays are lists or functions read through a bounds
  check, \<open>malloc\<close> failing is a parameter, and so is the content of fresh memory where the code reads it. Numbers are words where
  their width matters. Global variables are the fields of one record, which the layers extend: \<open>machine\<close>, \<open>alarm_state\<close>,
  \<open>kernel\<close>, \<open>system\<close>, \<open>net\<close>, \<open>msg\<close>, \<open>socks\<close>.

  \<^bold>\<open>Queues.\<close> \<open>Queue\<close> is \<^verbatim>\<open>queue.c\<close>, linked cells with front and rear; \<open>Multilevel_Queue\<close> is
  \<^verbatim>\<open>multilevel_queue.c\<close>. The invariant \<open>queue_inv\<close> says that the cells are one path without sharing; every operation
  refines one on lists. The locales of the interfaces (\<open>fifo_queue\<close>, \<open>stable_insert\<close>) are interpreted on the linked queue,
  on the list of timers and used by everything above.

  \<^bold>\<open>Kernel.\<close> \<open>Alarm\<close> is \<^verbatim>\<open>alarm.c\<close> with the loop of the clock handler that fires alarms, \<open>Minithread\<close> is the
  scheduler of \<^verbatim>\<open>minithread.c\<close>, \<open>Synch\<close> is \<^verbatim>\<open>synch.c\<close>. A context switch sets the running thread and ends the step of the old
  one; \<open>flow\<close> tells whether the caller goes on. The multiset \<open>places\<close> holds every thread at the place where it is;
  \<open>sys_inv\<close> says that each is at one place and that counts, wait lists and alarms agree. \<open>kernel_step\<close> is the
  transition relation of the booted system; the properties below hold in all its reachable states. The firing loop has fuel: one
  more than the number of pending alarms, which \<open>alarm_client.fire_alarms_ok\<close> shows to be enough. \<open>Thread_Exit\<close> is the end of a
  thread, \<open>final_proc\<close> and the reaper, taken together without an interrupt between them.

  \<^bold>\<open>Applications.\<close> \<open>Bounded_Buffer\<close> is \<^verbatim>\<open>buffer.c\<close>: its two threads as step functions, cut at every access to shared memory, and all
  their interleavings as a transition relation, with the semaphores as counts. \<open>Kernel_Buffer\<close> runs the same code on the kernel above,
  with \<open>semaphore_P\<close>, \<open>semaphore_V\<close> and the clock, and \<open>viewed\<close> maps its states to those of \<open>Bounded_Buffer\<close>.
  \<open>Sieve\<close> is \<^verbatim>\<open>sieve.c\<close> under all interleavings: \<open>chan_ok\<close> says what a channel holds from the places of its writer and its reader,
  \<open>stage\<close> the values that go through the channels, and \<open>pipe_left\<close> bounds the steps that are left.
  \<open>Conn_Network\<close> is \<^verbatim>\<open>conn-network1.c\<close> to \<^verbatim>\<open>conn-network3.c\<close>: what each program does between two calls of the stream layer, and the second one
  on two machines of \<open>Conversation\<close>; the locale \<open>checking_receiver\<close> is what their receivers share.
  \<open>Network_Tests\<close> is \<^verbatim>\<open>network1.c\<close> to \<^verbatim>\<open>network6.c\<close>, threads that send lines of text in datagrams; the locale \<open>loopback\<close> is what those on
  one machine share, with the abstract threads \<open>loop_spec\<close>, and \<open>fifo\<close> is the abstract program of \<^verbatim>\<open>network5.c\<close>.

  \<^bold>\<open>Machine.\<close> \<open>Machine\<close> has the processor, registers and memory, on which the stacks of \<^verbatim>\<open>machineprimitives.c\<close> and the
  assembler code of the context switch work; \<open>Atomic\<close> adds the atomic operations on an \<open>int\<close>, with \<open>swap\<close>, by which the interrupt level is set;
  \<open>Interrupts\<close> is \<^verbatim>\<open>interrupts.c\<close>, the frame that a signal builds on the interrupted
  stack, the trampoline that takes it down, and the sender. They justify what the kernel above takes for granted: a thread that is switched
  to goes on where it was, a new one starts with its body, and an interrupt runs its handler between two instructions, with interrupts
  enabled, and leaves no trace.

  \<^bold>\<open>Network.\<close> \<open>Miniheader\<close> packs numbers into bytes, \<open>Network\<close> sends packets (the loss and the duplication of a
  packet are arguments, \<open>wire\<close> records what was sent), \<open>Minimsg\<close> is the datagram layer and \<open>Minisocket\<close> the stream layer. A
  call that blocks in \<open>semaphore_P\<close> is cut there: in \<open>Minimsg\<close> the rest is a definition ending in \<open>_resumed\<close>, in
  \<open>Minisocket\<close> a value of \<open>point\<close> names the P and \<open>resume\<close> runs the code behind it. \<open>Conversation\<close> puts two machines together: the calls
  of both, the packets on the wire and the turn of the polling loop of \<^verbatim>\<open>network.c\<close> that brings each to the other; \<open>connected\<close> says that
  two sockets agree. \<open>Datagram\<close> does the same for datagrams: \<open>mailboxes\<close> gives for each port the messages that wait there, and a lemma for each
  operation says what it does to them. \<open>Broadcast\<close> is the broadcast of \<^verbatim>\<open>network.c\<close> with its topology file, \<open>Mersenne\<close> the generator of \<^verbatim>\<open>random.c\<close>
  on words of 64 bits against the recurrence on 32. Loops that empty a queue have one turn
  more than the queue has items; \<open>copy_loop\<close> has a turn for each byte.

  \<^bold>\<open>The link-state node.\<close> \<open>Timer\<close>, \<open>Addr\<close> and \<open>Link_State\<close> are \<^verbatim>\<open>timer.c\<close>, \<^verbatim>\<open>addr.c\<close> and
  \<^verbatim>\<open>link_state.c\<close>; \<open>Cstring\<close> has the functions of the C library that these files call. The loop that fires timers may not end
  and is a partial function; \<open>timer_check_fires_due\<close> says when it does. \<open>Connection\<close>, \<open>Gossip\<close> and \<open>Connect\<close> are
  \<^verbatim>\<open>connect.c\<close> and \<^verbatim>\<open>gossip.c\<close> over one record \<open>node\<close> of all global variables: the list of files and connections, the messages
  and commands, the handlers of the events and the turn of the main loop. What the system calls return in a call of a handler is a record
  \<open>sysenv\<close>. \<open>routes\<close> ties the arrays of the shortest paths to the links the node has heard of; \<open>Forward\<close> shows that messages take
  them and that gossip announces the peers. \<open>Node\<close> is the loop of \<open>main\<close> as a transition relation with its invariant; a call is
  \<open>safe\<close> if it keeps it. \<open>Input\<close> shows that no handler depends on the input buffers, and what the loop over the lines makes of a
  chunk of input. \<open>next_hop\<close> has a turn for each node and one more, \<open>line_loop\<close> one more than the bytes received.

  \<^bold>\<open>The file system.\<close> \<open>Ufsdisk\<close> is \<^verbatim>\<open>ufsdisk.c\<close> over a block store that is a record of functions (\<^verbatim>\<open>block_if.h\<close>
  is not in the repository); the locale \<open>block_store\<close> is its contract, and a file is an interpretation of it again.

  \<^bold>\<open>Not modelled.\<close> The masks of signals, the flags of the processor outside an interrupt, \<open>double\<close> arithmetic
  (the outcomes of its comparisons are arguments), the system calls before the loop of \<open>main\<close> in \<^verbatim>\<open>connect.c\<close>, and the small programs \<^verbatim>\<open>test1.c\<close> to \<^verbatim>\<open>test3.c\<close>, \<^verbatim>\<open>alarmtest1.c\<close> and \<^verbatim>\<open>alarmtest2.c\<close>, which only print.
\<close>

section \<open>The kernel as a whole\<close>

lemma booted:
  assumes "minithread_system_initialize junk Inr zeroed = Inr b"
  shows "sys_inv b" "places b = {#3#}" "running_thread b = scheduler_thread b" "sems b = Map.empty"
  using system_initialize_ok [of junk] assms by auto

lemma reached_inv:
  assumes "minithread_system_initialize junk Inr zeroed = Inr b" "(kernel_step close)\<^sup>*\<^sup>* b s"
  shows "sys_inv s"
  using kernel_reach_inv [OF assms(2) booted(1) [OF assms(1)]] .





text \<open>
  C34: a semaphore without a free unit is a first-in first-out queue of threads: a P puts the running thread behind the
  ones that wait already, and a V makes the one that has waited longest ready, and no other.
\<close>

theorem semaphore_fifo:
  assumes "sys_inv s" "sems s p = Some sem" "s_count sem \<le> 0" "running_thread s \<noteq> scheduler_thread s"
  shows "(\<exists>fl s'. semaphore_P p s = Inr (fl, s') \<and> waiters s' p = waiters s p @ [running_thread s] \<and>
      mset (current s' @ ready s') = mset (ready s)) \<and>
    (\<forall>t ts. waiters s p = t # ts \<longrightarrow> (\<exists>s'. semaphore_V p s = Inr s' \<and> waiters s' p = ts \<and> current s' = current s \<and>
      mset (ready s') = add_mset t (mset (ready s))))"
proof (intro conjI allI impI)
  have ti: "threads_inv s" using assms(1) by (simp add: sys_inv_def)
  show "\<exists>fl s'. semaphore_P p s = Inr (fl, s') \<and> waiters s' p = waiters s p @ [running_thread s] \<and>
      mset (current s' @ ready s') = mset (ready s)" using semaphore_P_block [OF ti assms(2-4)] by blast
  fix t ts assume w: "waiters s p = t # ts"
  then have "s_count sem < 0" using threads_inv_sem(1,4) [OF ti assms(2)] by (simp add: sem_ok_def max_def split: if_splits)
  from semaphore_V_wake [OF ti assms(2) this] w
  show "\<exists>s'. semaphore_V p s = Inr s' \<and> waiters s' p = ts \<and> current s' = current s \<and>
      mset (ready s') = add_mset t (mset (ready s))" by auto
qed

text \<open>
  A semaphore may be initialised with a negative count, as its documentation says, but the first V on it
  starts the thread NULL.
\<close>

theorem semaphore_negative_init:
  assumes "cnt < 0" "0 < sem_brk s"
  shows "\<exists>p s1 s2. semaphore_create junk True s = Inr (p, s1) \<and> semaphore_initialize p cnt s1 = Inr s2 \<and>
    semaphore_V p s2 = Inl Null_deref"
  using assms by (simp add: semaphore_create_def semaphore_initialize_def semaphore_V_def deref_Some set_interrupt_level_def
      minithread_start_def queue_new_def queue_dequeue_def deref_None)

text \<open>\<open>n\<close> clock interrupts.\<close>

fun ticks :: "(ptr \<Rightarrow> 'z system_scheme \<Rightarrow> 'z system_scheme res) \<Rightarrow> nat \<Rightarrow> 'z system_scheme \<Rightarrow> 'z system_scheme res" where
  "ticks close 0 s = Inr s"
| "ticks close (Suc n) s = bindR (ticks close n s) (\<lambda>s1. bindR (clock_handler (run_handler close) s1) (\<lambda>(fl, s2). Inr s2))"

lemma ticks_ok:
  assumes "sys_inv s" "live s"
  shows "\<exists>s'. ticks close n s = Inr s' \<and> sys_inv s' \<and> live s' \<and> places s' = places s \<and> nInterrupts s' = nInterrupts s + int n \<and>
    pending s' = filter (\<lambda>x. nInterrupts s + int n < snd x) (pending s) \<and> alarms s' \<subseteq>\<^sub>m alarms s"
proof (induction n)
  case 0
  have "filter (\<lambda>x. nInterrupts s < snd x) (pending s) = pending s" using assms(2) by (auto simp: live_def intro!: filter_True)
  then show ?case using assms by (simp add: map_le_refl)
next
  case (Suc n)
  then obtain s1 where s1: "ticks close n s = Inr s1" "sys_inv s1" "live s1" "places s1 = places s" "nInterrupts s1 = nInterrupts s + int n"
    "pending s1 = filter (\<lambda>x. nInterrupts s + int n < snd x) (pending s)" "alarms s1 \<subseteq>\<^sub>m alarms s" by blast
  obtain fl s2 where s2: "clock_handler (run_handler close) s1 = Inr (fl, s2)" "sys_inv s2" "places s2 = places s1"
    "nInterrupts s2 = nInterrupts s1 + 1" "pending s2 = dropWhile (\<lambda>x. snd x = nInterrupts s1 + 1) (pending s1)" "alarms s2 \<subseteq>\<^sub>m alarms s1"
    using clock_tick_ok [OF s1(2), of close] by blast
  have "sorted (map snd (pending s1))" "\<forall>x\<in>set (pending s1). nInterrupts s1 + 1 \<le> snd x"
    using s1(2,3) by (auto simp: sys_inv_def alarm_inv_def live_def)
  then have p: "pending s2 = filter (\<lambda>x. nInterrupts s1 + 1 < snd x) (pending s1)" using s2(5) by (simp add: sorted_due_prefix)
  also have "\<dots> = filter (\<lambda>x. nInterrupts s + int (Suc n) < snd x) (pending s)"
    unfolding s1(5,6) filter_filter by (intro filter_cong refl) auto
  finally have "pending s2 = filter (\<lambda>x. nInterrupts s + int (Suc n) < snd x) (pending s)" .
  moreover have "live s2" unfolding live_def p s2(4) by auto
  ultimately show ?case using s1 s2 map_le_trans by (intro exI [of _ s2]) auto
qed

lemma sleeping_iff:
  "t \<in># sleeping s \<longleftrightarrow> (\<exists>x al. x \<in> set (pending s) \<and> alarms s (fst x) = Some al \<and> call_back al = Alarm_call_back \<and> arg al = t)"
  by (force simp: sleeping_def)

lemma sleeping_twice:
  assumes "x \<in> set (pending s)" "alarms s (fst x) = Some al" "call_back al = Alarm_call_back" "arg al = t"
    "y \<in> set (pending s)" "alarms s (fst y) = Some bl" "call_back bl = Alarm_call_back" "arg bl = t" "x \<noteq> y"
  shows "2 \<le> count (sleeping s) t"
proof -
  have "{#x, y#} \<subseteq># filter_mset (\<lambda>x. map_option call_back (alarms s (fst x)) = Some Alarm_call_back) (mset (pending s))"
    using assms by (simp add: insert_subset_eq_iff in_diff_count del: map_option_eq_Some)
  from image_mset_subseteq_mono [OF this, of "\<lambda>x. arg (the (alarms s (fst x)))"] have "{#t, t#} \<subseteq># sleeping s" using assms by (simp add: sleeping_def)
  then have "count {#t, t#} t \<le> count (sleeping s) t" by (rule mset_subset_eq_count)
  then show ?thesis by simp
qed


section \<open>Examples\<close>

text \<open>One thread is running; semaphore 1 has no unit left.\<close>

definition busy :: system where
  "busy = kernel.extend one_running \<lparr>sems = [1 \<mapsto> \<lparr>s_count = 0, wait_list = Some queue_new\<rparr>], sem_brk = 2\<rparr>"

lemma busy_fields:
  "sems busy 1 = Some \<lparr>s_count = 0, wait_list = Some queue_new\<rparr>" "sem_brk busy = 2" "pending busy = []" "running_thread busy = 3"
  "scheduler_thread busy = 1" "waiters busy 1 = []" "current busy = [3]" "ready busy = []" "waiting busy = {#}" "sleeping busy = {#}"
  "alarms busy = Map.empty" "alarm_queue busy = Some queue_new" "alarm_brk busy = 1" "nInterrupts busy = 0"
  by (simp_all add: busy_def one_running_def kernel.defs pending_def waiters_def current_def ready_def lvls_def waiting_def sleeping_def
      numeral_2_eq_2)

lemma busy_inv: "sys_inv busy" "live busy"
proof -
  have m: "mlq_inv \<lparr>level_queues = replicate 4 (Some queue_new), n_levels = 4\<rparr>"
    "lvls \<lparr>level_queues = replicate 4 (Some queue_new), n_levels = 4\<rparr> = replicate 4 []"
    by (simp_all add: mlq_inv_def lvls_def list_all_iff)
  then have k: "sched_inv busy" "thread_ok busy 0 3"
    by (simp_all add: sched_inv_def sched_core_def levels_ok_def current_def ready_def thread_ok_def busy_def one_running_def kernel.defs
        level_quantum_value_def level_max_quanta_def nth_replicate)
  have "sems_ok busy" by (auto simp: sems_ok_def busy_def kernel.defs sem_ok_def split: if_splits)
  then show "sys_inv busy" using k by (auto simp: sys_inv_def threads_inv_def places_def handlers_ok_def alarm_inv_def busy_fields)
  show "live busy" by (simp add: live_def busy_fields)
qed

theorem semaphore_fifo_witness:
  "\<exists>fl s'. semaphore_P 1 busy = Inr (fl, s') \<and> waiters s' 1 = [3] \<and> mset (current s' @ ready s') = {#}"
  using semaphore_fifo [OF busy_inv(1) busy_fields(1)] by (simp add: busy_fields busy_fields(6) [simplified])

theorem semaphore_negative_init_witness:
  "\<exists>p s1 s2. semaphore_create \<lparr>s_count = 5, wait_list = None\<rparr> True busy = Inr (p, s1) \<and> semaphore_initialize p (- 2) s1 = Inr s2 \<and>
     semaphore_V p s2 = Inl Null_deref"
  by (rule semaphore_negative_init) (simp_all add: busy_fields)


theorem exit_reaps_witness:
  "\<exists>s1 s2. final_proc busy = Inr (Switched, s1) \<and> clean_stopped_threads s1 = Inr (Switched, s2) \<and> places s2 = {#} \<and> tcbs s2 3 = None \<and>
     tcbs s2 2 \<noteq> None"
proof -
  have "thread_ok busy 0 2" "oq_inv (stopped_queue busy)" "oq_items (stopped_queue busy) = []" "reaper_thread busy = 2" "tcbs busy 2 \<noteq> None"
    by (simp_all add: thread_ok_def busy_def one_running_def kernel.defs level_quantum_value_def)
  then have b: "reaper_parked busy" "reaper_thread busy = 2" "tcbs busy 2 \<noteq> None" "oq_items (stopped_queue busy) = []" "places busy = {#3#}"
    by (auto simp: reaper_parked_def places_def busy_fields)
  from exit_reaps [OF busy_inv(1) b(1) busy_fields(4)] b busy_fields(5) show ?thesis by auto
qed

end
